(* ===== verification/Prelude.thy ===== *)
theory Prelude
  imports Main "HOL-Library.Word"
begin

text \<open>
  Shared vocabulary of the development: bytes, fixed-width signed arithmetic, the outcome of a
  Go call that may panic, the state-and-error sequencing used for code that threads a mutable
  object through calls returning \<open>(value, error)\<close>, and slices of byte buffers. The collection
  \<open>seq_simps\<close> unfolds sequencing, \<open>byte_simps\<close> normalises slices of buffers.
\<close>

named_theorems seq_simps "unfolding of state-and-error sequencing"
named_theorems byte_simps "slices of byte buffers"

section \<open>Bytes and machine integers\<close>

text \<open>A Go \<open>string\<close> or \<open>[]byte\<close> is a list of bytes; a \<open>char\<close> of HOL is exactly one byte.
  A nil slice, where the code distinguishes it from an empty one, is \<open>None\<close>.\<close>

type_synonym bytes = "char list"

abbreviation CR :: char where "CR \<equiv> CHR 0x0D"
abbreviation LF :: char where "LF \<equiv> CHR 0x0A"
abbreviation CRLF :: bytes where "CRLF \<equiv> [CR, LF]"

text \<open>The value an \<open>int64\<close> holds after an arithmetic result \<open>x\<close> is stored into it.\<close>

definition int64 :: "int \<Rightarrow> int" where
  "int64 x = signed_take_bit 63 x"

definition in_int64 :: "int \<Rightarrow> bool" where
  "in_int64 x \<longleftrightarrow> - (2 ^ 63) \<le> x \<and> x < 2 ^ 63"

lemma int64_id [simp]: "in_int64 x \<Longrightarrow> int64 x = x"
  by (simp add: in_int64_def int64_def signed_take_bit_int_eq_self_iff)

lemma in_int64_int64 [simp]: "in_int64 (int64 x)"
  using signed_take_bit_int_greater_eq_minus_exp [of 63 x] signed_take_bit_int_less_exp [of 63 x]
  by (simp add: in_int64_def int64_def)

lemma int64_idem [simp]: "int64 (int64 x) = int64 x"
  by simp

lemma int64_cong_sint: "int64 x = sint (word_of_int x :: 64 word)"
  by (simp add: int64_def sint_sbintrunc')

lemma int64_arith:
  "int64 (int64 x + y) = int64 (x + y)" "int64 (int64 x * y) = int64 (x * y)" "int64 (- int64 x) = int64 (- x)"
  by (simp_all add: int64_cong_sint)

section \<open>Calls that may panic\<close>

datatype 'a outcome = Ret 'a | Panic string

fun bind_outcome :: "'a outcome \<Rightarrow> ('a \<Rightarrow> 'b outcome) \<Rightarrow> 'b outcome" where
  "bind_outcome (Ret x) f = f x"
| "bind_outcome (Panic m) f = Panic m"

text \<open>The text of the panic of a nil pointer.\<close>

definition nil_deref :: string where
  "nil_deref = ''invalid memory address or nil pointer dereference''"

lemma bind_outcome_Ret_iff:
  "bind_outcome r f = Ret y \<longleftrightarrow> (\<exists>x. r = Ret x \<and> f x = Ret y)"
  by (cases r) auto

section \<open>State-and-error sequencing\<close>

text \<open>Code of the shape \<open>x, err := op(s); if err != nil { return nil, err }; ...\<close> over a
  mutable object \<open>s\<close>: the error of the first failing call is returned, and whatever that call
  did to the object stays done.\<close>

type_synonym ('s, 'e, 'a) io = "'s \<Rightarrow> ('e + 'a) \<times> 's"

definition returnIO :: "'a \<Rightarrow> ('s, 'e, 'a) io" where
  "returnIO x s = (Inr x, s)"

definition failIO :: "'e \<Rightarrow> ('s, 'e, 'a) io" where
  "failIO e s = (Inl e, s)"

definition bindIO :: "('s, 'e, 'a) io \<Rightarrow> ('a \<Rightarrow> ('s, 'e, 'b) io) \<Rightarrow> ('s, 'e, 'b) io" where
  "bindIO m f s = (case m s of (Inl e, s') \<Rightarrow> (Inl e, s') | (Inr x, s') \<Rightarrow> f x s')"

text \<open>\<open>errors.Trace\<close> and \<open>fmt.Errorf\<close> wrap the error a call returned.\<close>

definition mapErrIO :: "('e \<Rightarrow> 'f) \<Rightarrow> ('s, 'e, 'a) io \<Rightarrow> ('s, 'f, 'a) io" where
  "mapErrIO g m s = (case m s of (Inl e, s') \<Rightarrow> (Inl (g e), s') | (Inr x, s') \<Rightarrow> (Inr x, s'))"

lemma returnIO_simp [seq_simps]: "returnIO x s = (Inr x, s)"
  by (simp add: returnIO_def)

lemma failIO_simp [seq_simps]: "failIO e s = (Inl e, s)"
  by (simp add: failIO_def)

lemma bindIO_Inl [seq_simps]: "m s = (Inl e, s') \<Longrightarrow> bindIO m f s = (Inl e, s')"
  by (simp add: bindIO_def)

lemma bindIO_Inr [seq_simps]: "m s = (Inr x, s') \<Longrightarrow> bindIO m f s = f x s'"
  by (simp add: bindIO_def)

lemma mapErrIO_Inl [seq_simps]: "m s = (Inl e, s') \<Longrightarrow> mapErrIO g m s = (Inl (g e), s')"
  by (simp add: mapErrIO_def)

lemma mapErrIO_Inr [seq_simps]: "m s = (Inr x, s') \<Longrightarrow> mapErrIO g m s = (Inr x, s')"
  by (simp add: mapErrIO_def)

lemma bindIO_InrE:
  assumes "bindIO m f s = (Inr y, t)"
  obtains x s' where "m s = (Inr x, s')" "f x s' = (Inr y, t)"
  using assms by (auto simp: bindIO_def split: prod.splits sum.splits)

lemma mapErrIO_Inr_iff: "mapErrIO g m s = (Inr y, t) \<longleftrightarrow> m s = (Inr y, t)"
  by (auto simp: mapErrIO_def split: prod.splits sum.splits)

lemma bindIO_assoc: "bindIO (bindIO m f) g = bindIO m (\<lambda>x. bindIO (f x) g)"
  by (rule ext) (auto simp: bindIO_def split: prod.splits sum.splits)

section \<open>Slices of byte buffers\<close>

definition buf_slice :: "nat \<Rightarrow> nat \<Rightarrow> 'a list \<Rightarrow> 'a list" where
  "buf_slice i j xs = take (j - i) (drop i xs)"

text \<open>\<open>copy(buf[i:], d)\<close> when \<open>d\<close> fits behind \<open>i\<close>.\<close>

definition write_at :: "'a list \<Rightarrow> nat \<Rightarrow> 'a list \<Rightarrow> 'a list" where
  "write_at buf i d = take i buf @ d @ drop (i + length d) buf"

lemma length_write_at [byte_simps]:
  "i + length d \<le> length buf \<Longrightarrow> length (write_at buf i d) = length buf"
  by (simp add: write_at_def)

lemma write_at_eq_Nil [byte_simps]:
  "i + length d \<le> length buf \<Longrightarrow> write_at buf i d = [] \<longleftrightarrow> buf = []"
  by (metis length_write_at length_0_conv)

lemma take_write_at [byte_simps]:
  "i + length d \<le> length buf \<Longrightarrow> take (i + length d) (write_at buf i d) = take i buf @ d"
  by (simp add: write_at_def)

lemma buf_slice_self [byte_simps]: "buf_slice i i xs = []"
  by (simp add: buf_slice_def)

lemma length_buf_slice [byte_simps]: "j \<le> length xs \<Longrightarrow> length (buf_slice i j xs) = j - i"
  by (simp add: buf_slice_def)

lemma buf_slice_zero [byte_simps]: "buf_slice 0 j xs = take j xs"
  by (simp add: buf_slice_def)

lemma buf_slice_write_at [byte_simps]:
  assumes "i \<le> j" "j + length d \<le> length buf"
  shows "buf_slice i (j + length d) (write_at buf j d) = buf_slice i j buf @ d"
proof -
  have "buf_slice i (j + length d) (write_at buf j d)
      = drop i (take (j + length d) (write_at buf j d))"
    by (simp add: buf_slice_def drop_take)
  also have "\<dots> = drop i (take j buf @ d)"
    using assms by (simp add: take_write_at)
  finally show ?thesis
    using assms by (simp add: buf_slice_def drop_take)
qed

lemma buf_slice_Cons_nth:
  "i < j \<Longrightarrow> j \<le> length xs \<Longrightarrow> buf_slice i j xs = xs ! i # buf_slice (Suc i) j xs"
  by (simp add: buf_slice_def Cons_nth_drop_Suc [symmetric] take_Cons')

lemma drop_buf_slice [byte_simps]: "drop n (buf_slice i j xs) = buf_slice (i + n) j xs"
  by (simp add: buf_slice_def drop_take add.commute)

lemma take_buf_slice [byte_simps]: "i + n \<le> j \<Longrightarrow> take n (buf_slice i j xs) = buf_slice i (i + n) xs"
  by (simp add: buf_slice_def min_def)

section \<open>Searching a byte slice\<close>

text \<open>\<open>bytes.IndexByte\<close>: the first index of a byte, \<open>None\<close> for the code's \<open>-1\<close>.\<close>

fun IndexByte :: "bytes \<Rightarrow> char \<Rightarrow> nat option" where
  "IndexByte [] d = None"
| "IndexByte (c # cs) d = (if c = d then Some 0 else map_option Suc (IndexByte cs d))"

lemma IndexByte_None_iff: "IndexByte xs d = None \<longleftrightarrow> d \<notin> set xs"
  by (induction xs) auto

lemma IndexByte_append: "d \<notin> set xs \<Longrightarrow> IndexByte (xs @ d # ys) d = Some (length xs)"
  by (induction xs) auto

lemma delimited_unique:
  "l @ d # t = l' @ d # t' \<Longrightarrow> d \<notin> set l \<Longrightarrow> d \<notin> set l' \<Longrightarrow> l = l' \<and> t = t'"
proof (induction l arbitrary: l')
  case Nil
  then show ?case by (cases l') auto
next
  case (Cons a l)
  then show ?case by (cases l') auto
qed

lemma IndexByte_SomeD:
  "IndexByte xs d = Some i \<Longrightarrow>
     i < length xs \<and> xs ! i = d \<and> d \<notin> set (take i xs)"
  by (induction xs arbitrary: i) (auto split: if_splits)

lemma IndexByte_Some_split:
  assumes "IndexByte xs d = Some i"
  shows "xs = take i xs @ d # drop (Suc i) xs"
  using IndexByte_SomeD [OF assms] id_take_nth_drop by fastforce

end
