(* ===== verification/Go_Std.thy ===== *)
theory Go_Std
  imports Prelude
begin

text \<open>
  The part of Go's standard library the modelled code calls and whose results the properties
  depend on: decimal formatting and parsing (\<open>strconv.FormatInt\<close>, \<open>Itoa\<close>, \<open>ParseInt\<close>,
  \<open>Atoi\<close>), \<open>strings.Split\<close> on a one-byte separator, and ASCII case conversion.
\<close>

section \<open>Decimal formatting\<close>

definition is_digit :: "char \<Rightarrow> bool" where
  "is_digit c \<longleftrightarrow> 48 \<le> (of_char c :: nat) \<and> (of_char c :: nat) \<le> 57"

definition digit_val :: "char \<Rightarrow> nat" where
  "digit_val c = of_char c - 48"

definition digit_char :: "nat \<Rightarrow> char" where
  "digit_char d = char_of (48 + d)"

lemma of_digit_char: "d < 10 \<Longrightarrow> (of_char (digit_char d) :: nat) = 48 + d"
  by (simp add: digit_char_def)

lemma is_digit_digit_char [simp]: "d < 10 \<Longrightarrow> is_digit (digit_char d)"
  by (simp add: is_digit_def of_digit_char)

lemma digit_val_digit_char [simp]: "d < 10 \<Longrightarrow> digit_val (digit_char d) = d"
  by (simp add: digit_val_def of_digit_char)

lemma digit_val_less: "is_digit c \<Longrightarrow> digit_val c < 10"
  unfolding is_digit_def digit_val_def by linarith

fun format_nat :: "nat \<Rightarrow> bytes" where
  "format_nat n = (if n < 10 then [digit_char n] else format_nat (n div 10) @ [digit_char (n mod 10)])"

declare format_nat.simps [simp del]

definition FormatInt :: "int \<Rightarrow> bytes" where
  "FormatInt i = (if i < 0 then CHR ''-'' # format_nat (nat (- i)) else format_nat (nat i))"

text \<open>The value of a digit string, most significant digit first.\<close>

definition dec_val_from :: "nat \<Rightarrow> bytes \<Rightarrow> nat" where
  "dec_val_from a ds = foldl (\<lambda>n c. n * 10 + digit_val c) a ds"

abbreviation dec_val :: "bytes \<Rightarrow> nat" where
  "dec_val \<equiv> dec_val_from 0"

lemma dec_val_from_simps [simp]:
  "dec_val_from a [] = a"
  "dec_val_from a (c # cs) = dec_val_from (a * 10 + digit_val c) cs"
  by (simp_all add: dec_val_from_def)

lemma dec_val_from_append:
  "dec_val_from a (xs @ ys) = dec_val_from (dec_val_from a xs) ys"
  by (simp add: dec_val_from_def)

lemma dec_val_from_ge: "a \<le> dec_val_from a ds"
proof (induction ds arbitrary: a)
  case (Cons c cs)
  have "a \<le> a * 10 + digit_val c" by simp
  also have "\<dots> \<le> dec_val_from (a * 10 + digit_val c) cs" by (rule Cons.IH)
  finally show ?case by simp
qed simp

lemma dec_val_from_mono: "a \<le> b \<Longrightarrow> dec_val_from a ds \<le> dec_val_from b ds"
  by (induction ds arbitrary: a b) auto

lemma format_nat_not_Nil [simp]: "format_nat n \<noteq> []"
  by (subst format_nat.simps) simp

lemma format_nat_digits: "c \<in> set (format_nat n) \<Longrightarrow> is_digit c"
proof (induction n rule: format_nat.induct)
  case (1 n)
  then show ?case
    by (subst (asm) format_nat.simps) (auto split: if_splits)
qed

lemma dec_val_format_nat [simp]: "dec_val (format_nat n) = n"
proof (induction n rule: format_nat.induct)
  case (1 n)
  show ?case
  proof (cases "n < 10")
    case True
    then show ?thesis by (simp add: format_nat.simps)
  next
    case False
    with "1.IH" show ?thesis
      by (subst format_nat.simps) (simp add: dec_val_from_append)
  qed
qed

lemma format_nat_length: "n < 10 ^ k \<Longrightarrow> 0 < k \<Longrightarrow> length (format_nat n) \<le> k"
proof (induction n arbitrary: k rule: format_nat.induct)
  case (1 n)
  show ?case
  proof (cases "n < 10")
    case True
    with "1.prems" show ?thesis by (simp add: format_nat.simps)
  next
    case False
    with "1.prems" obtain j where j: "k = Suc j" "0 < j"
      by (cases k; cases "k - 1") auto
    with False "1.prems" have "n div 10 < 10 ^ j" by auto
    with "1.IH" [OF False] j have "length (format_nat (n div 10)) \<le> j" by blast
    with False j show ?thesis by (simp add: format_nat.simps [of n])
  qed
qed

lemma not_digit_consts [simp]:
  "\<not> is_digit (CHR ''-'')" "\<not> is_digit (CHR ''+'')" "\<not> is_digit CR" "\<not> is_digit LF"
  "\<not> is_digit (CHR ''$'')" "\<not> is_digit (CHR ''*'')" "\<not> is_digit (CHR '':'')"
  by (simp_all add: is_digit_def)

lemma format_nat_no_sign:
  "LF \<notin> set (format_nat n)" "CR \<notin> set (format_nat n)" "CHR ''-'' \<notin> set (format_nat n)"
  "CHR ''+'' \<notin> set (format_nat n)"
  using format_nat_digits [of _ n] not_digit_consts by blast+

lemma FormatInt_no_eol: "LF \<notin> set (FormatInt i)" "CR \<notin> set (FormatInt i)"
  by (simp_all add: FormatInt_def format_nat_no_sign)

lemma FormatInt_not_Nil [simp]: "FormatInt i \<noteq> []"
  by (simp add: FormatInt_def)

lemma FormatInt_length:
  assumes "in_int64 i"
  shows "length (FormatInt i) \<le> 20"
proof -
  have "nat \<bar>i\<bar> < 10 ^ 19"
    using assms by (simp add: in_int64_def nat_less_iff) linarith
  from format_nat_length [OF this] have "length (format_nat (nat \<bar>i\<bar>)) \<le> 19"
    by simp
  then show ?thesis
    by (simp add: FormatInt_def abs_if split: if_splits)
qed

section \<open>Decimal parsing\<close>

datatype num_error = NumSyntax bytes | NumRange bytes

text \<open>
  The loop of \<open>strconv.ParseUint\<close> with base 10: an invalid byte is a syntax error, and the
  first digit that takes the value past \<open>maxVal\<close> a range error, whatever follows it. The
  code's two tests (the accumulator against \<open>maxUint64/10 + 1\<close>, then the sum against
  \<open>maxVal\<close> with its wrap-around) are one comparison on unbounded numbers.
\<close>

fun parse_uint_loop :: "nat \<Rightarrow> bytes \<Rightarrow> nat \<Rightarrow> bytes \<Rightarrow> num_error + nat" where
  "parse_uint_loop maxv s n [] = Inr n"
| "parse_uint_loop maxv s n (c # cs) =
     (if \<not> is_digit c then Inl (NumSyntax s)
      else if maxv < n * 10 + digit_val c then Inl (NumRange s)
      else parse_uint_loop maxv s (n * 10 + digit_val c) cs)"

definition parse_uint :: "nat \<Rightarrow> bytes \<Rightarrow> num_error + nat" where
  "parse_uint bits s = (if s = [] then Inl (NumSyntax s) else parse_uint_loop (2 ^ bits - 1) s 0 s)"

text \<open>The optional sign \<open>ParseInt\<close> strips.\<close>

definition strip_sign :: "bytes \<Rightarrow> bool \<times> bytes" where
  "strip_sign s = (case s of [] \<Rightarrow> (False, []) | c # cs \<Rightarrow>
     if c = CHR ''-'' then (True, cs) else if c = CHR ''+'' then (False, cs) else (False, s))"

text \<open>\<open>ParseInt(s, 10, bits)\<close>: the value and the error, the value clamped on a range error.\<close>

definition ParseInt :: "nat \<Rightarrow> bytes \<Rightarrow> int \<times> num_error option" where
  "ParseInt bits s =
     (if s = [] then (0, Some (NumSyntax s))
      else let (neg, ds) = strip_sign s; cutoff = (2 :: nat) ^ (bits - 1)
      in case parse_uint bits ds of
           Inl (NumSyntax _) \<Rightarrow> (0, Some (NumSyntax s))
         | Inl (NumRange _) \<Rightarrow> (if neg then - int cutoff else int cutoff - 1, Some (NumRange s))
         | Inr un \<Rightarrow>
             if \<not> neg \<and> cutoff \<le> un then (int cutoff - 1, Some (NumRange s))
             else if neg \<and> cutoff < un then (- int cutoff, Some (NumRange s))
             else (if neg then - int un else int un, None))"

lemma parse_uint_loop_digits:
  assumes "\<forall>c \<in> set ds. is_digit c" "dec_val_from n ds \<le> maxv"
  shows "parse_uint_loop maxv s n ds = Inr (dec_val_from n ds)"
  using assms
proof (induction ds arbitrary: n)
  case (Cons c cs)
  have "n * 10 + digit_val c \<le> dec_val_from (n * 10 + digit_val c) cs"
    by (rule dec_val_from_ge)
  with Cons show ?case by auto
qed simp

lemma parse_uint_loop_range:
  assumes "\<forall>c \<in> set ds. is_digit c" "maxv < dec_val_from n ds" "n \<le> maxv"
  shows "parse_uint_loop maxv s n ds = Inl (NumRange s)"
  using assms by (induction ds arbitrary: n) auto

lemma strip_sign_digits:
  "ds \<noteq> [] \<Longrightarrow> \<forall>c \<in> set ds. is_digit c \<Longrightarrow> strip_sign ds = (False, ds)"
  by (cases ds) (auto simp: strip_sign_def is_digit_def)

lemma ParseInt_FormatInt:
  assumes "in_int64 i"
  shows "ParseInt 64 (FormatInt i) = (i, None)"
proof (cases "i < 0")
  case True
  have "parse_uint 64 (format_nat (nat (- i))) = Inr (nat (- i))"
    using True assms parse_uint_loop_digits [of "format_nat (nat (- i))"]
    by (auto simp: parse_uint_def in_int64_def format_nat_digits)
  with True assms show ?thesis
    by (simp add: ParseInt_def FormatInt_def strip_sign_def in_int64_def)
next
  case False
  have "strip_sign (format_nat (nat i)) = (False, format_nat (nat i))"
    by (rule strip_sign_digits) (auto simp: format_nat_digits)
  moreover have "parse_uint 64 (format_nat (nat i)) = Inr (nat i)"
    using False assms parse_uint_loop_digits [of "format_nat (nat i)"]
    by (auto simp: parse_uint_def in_int64_def format_nat_digits)
  ultimately show ?thesis using False assms
    by (simp add: ParseInt_def FormatInt_def in_int64_def)
qed

lemma ParseInt_in_int64: "in_int64 (fst (ParseInt 64 s))"
  by (auto simp: ParseInt_def in_int64_def split: prod.splits sum.splits num_error.splits)

section \<open>Splitting and case\<close>

text \<open>\<open>strings.Split(s, sep)\<close> for a separator of one byte: at least one field, fields between
  separators kept even when empty.\<close>

fun SplitByte :: "char \<Rightarrow> bytes \<Rightarrow> bytes list" where
  "SplitByte d [] = [[]]"
| "SplitByte d (c # cs) =
     (if c = d then [] # SplitByte d cs
      else case SplitByte d cs of [] \<Rightarrow> [[c]] | f # fs \<Rightarrow> (c # f) # fs)"

lemma SplitByte_not_Nil [simp]: "SplitByte d s \<noteq> []"
  by (cases s) (auto split: list.splits)

lemma SplitByte_no_sep: "d \<notin> set s \<Longrightarrow> SplitByte d s = [s]"
  by (induction s) auto

lemma SplitByte_append: "d \<notin> set s \<Longrightarrow> SplitByte d (s @ d # t) = s # SplitByte d t"
  by (induction s) auto

text \<open>\<open>strings.ToUpper\<close> on ASCII text.\<close>

definition upper_char :: "char \<Rightarrow> char" where
  "upper_char c = (if 97 \<le> (of_char c :: nat) \<and> (of_char c :: nat) \<le> 122 then char_of (of_char c - 32 :: nat) else c)"

definition ToUpper :: "bytes \<Rightarrow> bytes" where
  "ToUpper s = map upper_char s"

definition HasPrefix :: "bytes \<Rightarrow> bytes \<Rightarrow> bool" where
  "HasPrefix s p \<longleftrightarrow> take (length p) s = p"

end
