(* ===== verification/Go_Errors.thy ===== *)
theory Go_Errors
  imports Go_Std
begin

text \<open>
  Error values, and \<open>utils/resparse/errors\<close>: tracing, unwrapping and comparing them. A package
  level \<open>errors.New\<close> value is a \<open>Sentinel\<close> with its message (the modelled packages have no two
  with one message, so the message stands for the pointer), \<open>fmt.Errorf\<close> and a local \<open>errors.New\<close>
  give a \<open>Formatted\<close> message, \<open>strconv\<close> a \<open>NumError\<close>, the operating system an \<open>OSError\<close>, and a
  reply of the server that is an error and is returned as one a \<open>ReplyError\<close>.
\<close>

datatype go_error =
    Sentinel string
  | Formatted string
  | NumError num_error
  | OSError string
  | ReplyError bytes
  | Traced go_error

section \<open>Sentinels of io and bufio\<close>

definition EOF :: go_error where "EOF = Sentinel ''EOF''"
definition ErrNoProgress :: go_error where
  "ErrNoProgress = Sentinel ''multiple Read calls return no data or error''"
definition ErrShortWrite :: go_error where "ErrShortWrite = Sentinel ''short write''"
definition ErrUnexpectedEOF :: go_error where "ErrUnexpectedEOF = Sentinel ''unexpected EOF''"
definition ErrBufferFull :: go_error where "ErrBufferFull = Sentinel ''bufio: buffer full''"

lemmas io_sentinels = EOF_def ErrNoProgress_def ErrShortWrite_def ErrUnexpectedEOF_def ErrBufferFull_def

lemma io_sentinels_distinct [simp]:
  "EOF \<noteq> ErrNoProgress" "EOF \<noteq> ErrBufferFull" "EOF \<noteq> ErrUnexpectedEOF"
  "ErrBufferFull \<noteq> EOF" "ErrBufferFull \<noteq> ErrNoProgress"
  by (simp_all add: io_sentinels)

section \<open>Tracing\<close>

text \<open>\<open>Trace\<close> wraps an error with the call stack once; the stack itself is not modelled.
  The code's \<open>Trace(nil)\<close> is nil, so the model traces only the errors it has.\<close>

fun Trace :: "go_error \<Rightarrow> go_error" where
  "Trace (Traced e) = Traced e"
| "Trace e = Traced e"

text \<open>The package's own \<open>Errorf\<close>, traced.\<close>

definition Errorf :: "string \<Rightarrow> go_error" where
  "Errorf msg = Traced (Formatted msg)"

text \<open>\<open>Cause\<close> unwraps until an error that is not traced; \<open>None\<close> is the nil error.\<close>

fun Cause_err :: "go_error \<Rightarrow> go_error" where
  "Cause_err (Traced e) = Cause_err e"
| "Cause_err e = e"

definition Cause :: "go_error option \<Rightarrow> go_error option" where
  "Cause err = map_option Cause_err err"

fun num_error_msg :: "num_error \<Rightarrow> string" where
  "num_error_msg (NumSyntax s) = ''strconv.ParseInt: parsing '' @ [CHR 0x22] @ s @ [CHR 0x22] @ '': invalid syntax''"
| "num_error_msg (NumRange s) = ''strconv.ParseInt: parsing '' @ [CHR 0x22] @ s @ [CHR 0x22] @ '': value out of range''"

fun Error :: "go_error \<Rightarrow> string" where
  "Error (Sentinel m) = m"
| "Error (Formatted m) = m"
| "Error (NumError e) = num_error_msg e"
| "Error (OSError m) = m"
| "Error (ReplyError m) = m"
| "Error (Traced e) = Error e"

text \<open>\<open>Equal\<close>: the same cause, or causes with the same message. (Two errors that are one and the
  same value have the same message, so the code's first test is subsumed.)\<close>

definition Equal :: "go_error option \<Rightarrow> go_error option \<Rightarrow> bool" where
  "Equal err1 err2 =
     (case (Cause err1, Cause err2) of
        (None, None) \<Rightarrow> True
      | (Some e1, Some e2) \<Rightarrow> Error e1 = Error e2
      | _ \<Rightarrow> False)"

lemma Trace_idem [simp]: "Trace (Trace e) = Trace e"
  by (cases e) simp_all

lemma Error_Trace [simp]: "Error (Trace e) = Error e"
  by (cases e) simp_all

lemma Cause_err_Trace [simp]: "Cause_err (Trace e) = Cause_err e"
  by (cases e) simp_all

lemma Cause_err_not_Traced [simp]: "Cause_err e \<noteq> Traced e'"
  by (induction e) auto

lemma Error_Cause_err [simp]: "Error (Cause_err e) = Error e"
  by (induction e) simp_all

end
