(* ===== verification/Credis_Resp.thy ===== *)
theory Credis_Resp
  imports Go_Errors
begin

text \<open>
  \<open>utils/resparse/credis/resp.go\<close>: the value of the redis protocol. A field that may be nil in
  the code is an option. \<open>wire\<close> is the protocol's own format, the specification the encoder and
  the decoder are compared with, and \<open>wf_resp\<close> says which values have a format at all.
\<close>

datatype resp = Resp (resp_Type: char) (Value: "bytes option") (Array: "resp list option")

definition TypeString :: char where "TypeString = CHR ''+''"
definition TypeError :: char where "TypeError = CHR ''-''"
definition TypeInt :: char where "TypeInt = CHR '':''"
definition TypeBulkBytes :: char where "TypeBulkBytes = CHR ''$''"
definition TypeArray :: char where "TypeArray = CHR ''*''"

lemmas resp_types = TypeString_def TypeError_def TypeInt_def TypeBulkBytes_def TypeArray_def

text \<open>\<open>fmt\<close>'s \<open>%02x\<close> of a byte.\<close>

definition hex_digit :: "nat \<Rightarrow> char" where
  "hex_digit d = (if d < 10 then digit_char d else char_of (87 + d))"

definition hex_byte :: "char \<Rightarrow> string" where
  "hex_byte c = [hex_digit (of_char c div 16), hex_digit (of_char c mod 16)]"

definition RespType_String :: "char \<Rightarrow> string" where
  "RespType_String t =
     (if t = TypeString then ''<string>''
      else if t = TypeError then ''<error>''
      else if t = TypeInt then ''<int>''
      else if t = TypeBulkBytes then ''<bulkbytes>''
      else if t = TypeArray then ''<array>''
      else ''<unknown-0x'' @ hex_byte t @ ''>'')"

definition IsString :: "resp \<Rightarrow> bool" where "IsString r \<longleftrightarrow> resp_Type r = TypeString"
definition IsError :: "resp \<Rightarrow> bool" where "IsError r \<longleftrightarrow> resp_Type r = TypeError"
definition IsInt :: "resp \<Rightarrow> bool" where "IsInt r \<longleftrightarrow> resp_Type r = TypeInt"
definition IsBulkBytes :: "resp \<Rightarrow> bool" where "IsBulkBytes r \<longleftrightarrow> resp_Type r = TypeBulkBytes"
definition IsArray :: "resp \<Rightarrow> bool" where "IsArray r \<longleftrightarrow> resp_Type r = TypeArray"

definition NewString :: "bytes option \<Rightarrow> resp" where "NewString v = Resp TypeString v None"
definition NewError :: "bytes option \<Rightarrow> resp" where "NewError v = Resp TypeError v None"
definition NewInt :: "bytes option \<Rightarrow> resp" where "NewInt v = Resp TypeInt v None"
definition NewBulkBytes :: "bytes option \<Rightarrow> resp" where "NewBulkBytes v = Resp TypeBulkBytes v None"
definition NewArray :: "resp list option \<Rightarrow> resp" where "NewArray rs = Resp TypeArray None rs"

text \<open>\<open>sprintf\<close> is \<open>fmt.Sprintf\<close>.\<close>

definition NewErrorf :: "(string \<Rightarrow> 'a list \<Rightarrow> bytes) \<Rightarrow> string \<Rightarrow> 'a list \<Rightarrow> resp" where
  "NewErrorf sprintf fmt args = NewError (Some (sprintf fmt args))"

section \<open>The format\<close>

abbreviation bytes_of :: "bytes option \<Rightarrow> bytes" where
  "bytes_of v \<equiv> (case v of None \<Rightarrow> [] | Some b \<Rightarrow> b)"

abbreviation text_types :: "char set" where
  "text_types \<equiv> {TypeString, TypeError, TypeInt}"

definition wire_bulk :: "bytes option \<Rightarrow> bytes" where
  "wire_bulk v = (case v of None \<Rightarrow> FormatInt (-1) @ CRLF
     | Some b \<Rightarrow> FormatInt (int (length b)) @ CRLF @ b @ CRLF)"

fun wire :: "resp \<Rightarrow> bytes" where
  "wire (Resp t v a) = t #
     (if t \<in> text_types then bytes_of v @ CRLF
      else if t = TypeBulkBytes then wire_bulk v
      else case a of None \<Rightarrow> FormatInt (-1) @ CRLF
           | Some rs \<Rightarrow> FormatInt (int (length rs)) @ CRLF @ concat (map wire rs))"

section \<open>Well-formed values\<close>

definition MaxBulkBytesLen :: int where "MaxBulkBytesLen = 1024 * 1024 * 512"
definition MaxArrayLen :: int where "MaxArrayLen = 1024 * 1024"

text \<open>A type the protocol has, the field of that type and no other set, a text without line feed,
  and lengths the decoder accepts.\<close>

fun wf_resp :: "resp \<Rightarrow> bool" where
  "wf_resp (Resp t v a) \<longleftrightarrow>
     (if t \<in> text_types then a = None \<and> (\<exists>b. v = Some b \<and> LF \<notin> set b)
      else if t = TypeBulkBytes then
        a = None \<and> (\<forall>b. v = Some b \<longrightarrow> int (length b) \<le> MaxBulkBytesLen)
      else t = TypeArray \<and> v = None \<and>
        (case a of None \<Rightarrow> True | Some rs \<Rightarrow> int (length rs) \<le> MaxArrayLen \<and> (\<forall>r \<in> set rs. wf_resp r)))"

lemma type_distinct [simp]:
  "TypeBulkBytes \<notin> text_types" "TypeArray \<notin> text_types" "TypeBulkBytes \<noteq> TypeArray"
  "TypeArray \<noteq> TypeBulkBytes" "TypeBulkBytes \<noteq> TypeString" "TypeBulkBytes \<noteq> TypeError"
  "TypeBulkBytes \<noteq> TypeInt" "TypeArray \<noteq> TypeString" "TypeArray \<noteq> TypeError" "TypeArray \<noteq> TypeInt"
  by (simp_all add: resp_types)

end
