(* ===== verification/Stream_Spec.thy ===== *)
theory Stream_Spec
  imports Go_Errors
begin

text \<open>
  The two interfaces the protocol code works against: a reader of a byte stream and a writer of
  one. Each is a record of operations (the method set the clients call) and a locale with the laws
  the provider promises, stated over an abstraction: \<open>rest s\<close>, the bytes not yet read, and
  \<open>sent s\<close>, the bytes written so far. A state is \<open>ok\<close> when its representation invariant holds
  and \<open>live\<close> when, besides, no underlying call has failed or will fail before the end of the data.
\<close>

section \<open>Readers\<close>

record 's reader_ops =
  op_ReadByte :: "('s, go_error, char) io"
  op_PeekByte :: "('s, go_error, char) io"
  op_ReadSlice :: "char \<Rightarrow> ('s, go_error, bytes) io"
  op_ReadBytes :: "char \<Rightarrow> ('s, go_error, bytes) io"
  op_ReadFull :: "nat \<Rightarrow> ('s, go_error, bytes) io"

locale byte_reader =
  fixes ops :: "'s reader_ops"
    and ok :: "'s \<Rightarrow> bool"
    and live :: "'s \<Rightarrow> bool"
    and rest :: "'s \<Rightarrow> bytes"
    and window :: "'s \<Rightarrow> nat"
  assumes live_ok: "live s \<Longrightarrow> ok s"
    and ok_ReadByte: "ok s \<Longrightarrow> op_ReadByte ops s = (rc, s') \<Longrightarrow> ok s' \<and> window s' = window s"
    and ok_PeekByte: "ok s \<Longrightarrow> op_PeekByte ops s = (rc, s') \<Longrightarrow> ok s' \<and> window s' = window s"
    and ok_ReadSlice: "ok s \<Longrightarrow> op_ReadSlice ops d s = (rb, s') \<Longrightarrow> ok s' \<and> window s' = window s"
    and ok_ReadBytes: "ok s \<Longrightarrow> op_ReadBytes ops d s = (rb, s') \<Longrightarrow> ok s' \<and> window s' = window s"
    and ok_ReadFull: "ok s \<Longrightarrow> op_ReadFull ops n s = (rb, s') \<Longrightarrow> ok s' \<and> window s' = window s"
    and ReadByte_Inr: "ok s \<Longrightarrow> op_ReadByte ops s = (Inr c, s') \<Longrightarrow> rest s = c # rest s'"
    and PeekByte_Inr: "ok s \<Longrightarrow> op_PeekByte ops s = (Inr c, s') \<Longrightarrow>
      rest s' = rest s \<and> (\<exists>cs. rest s = c # cs)"
    and ReadSlice_Inr: "ok s \<Longrightarrow> op_ReadSlice ops d s = (Inr l, s') \<Longrightarrow>
      rest s = l @ rest s' \<and> l \<noteq> [] \<and> last l = d \<and> d \<notin> set (butlast l)"
    and ReadBytes_Inr: "ok s \<Longrightarrow> op_ReadBytes ops d s = (Inr l, s') \<Longrightarrow>
      rest s = l @ rest s' \<and> l \<noteq> [] \<and> last l = d \<and> d \<notin> set (butlast l)"
    and ReadFull_Inr: "ok s \<Longrightarrow> 0 < n \<Longrightarrow> op_ReadFull ops n s = (Inr l, s') \<Longrightarrow>
      rest s = l @ rest s' \<and> length l = n"
    and ReadByte_live: "live s \<Longrightarrow> rest s = c # cs \<Longrightarrow>
      \<exists>s'. op_ReadByte ops s = (Inr c, s') \<and> live s' \<and> rest s' = cs"
    and PeekByte_live: "live s \<Longrightarrow> rest s = c # cs \<Longrightarrow>
      \<exists>s'. op_PeekByte ops s = (Inr c, s') \<and> live s' \<and> rest s' = c # cs"
    and ReadSlice_live: "live s \<Longrightarrow> rest s = l @ d # t \<Longrightarrow> d \<notin> set l \<Longrightarrow> length l < window s \<Longrightarrow>
      \<exists>s'. op_ReadSlice ops d s = (Inr (l @ [d]), s') \<and> live s' \<and> rest s' = t"
    and ReadBytes_live: "live s \<Longrightarrow> rest s = l @ d # t \<Longrightarrow> d \<notin> set l \<Longrightarrow>
      \<exists>s'. op_ReadBytes ops d s = (Inr (l @ [d]), s') \<and> live s' \<and> rest s' = t"
    and ReadFull_live: "live s \<Longrightarrow> rest s = l @ t \<Longrightarrow> l \<noteq> [] \<Longrightarrow> n = length l \<Longrightarrow>
      \<exists>s'. op_ReadFull ops n s = (Inr l, s') \<and> live s' \<and> rest s' = t"
begin

lemmas ok_ops = ok_ReadByte ok_PeekByte ok_ReadSlice ok_ReadBytes ok_ReadFull

end

section \<open>Writers\<close>

record 's writer_ops =
  op_Write :: "bytes \<Rightarrow> 's \<Rightarrow> go_error option \<times> 's"
  op_WriteByte :: "char \<Rightarrow> 's \<Rightarrow> go_error option \<times> 's"
  op_WriteString :: "bytes \<Rightarrow> 's \<Rightarrow> go_error option \<times> 's"
  op_Flush :: "'s \<Rightarrow> go_error option \<times> 's"

locale byte_writer =
  fixes wops :: "'s writer_ops"
    and wok :: "'s \<Rightarrow> bool"
    and wlive :: "'s \<Rightarrow> bool"
    and sent :: "'s \<Rightarrow> bytes"
    and delivered :: "'s \<Rightarrow> bytes"
  assumes wlive_wok: "wlive s \<Longrightarrow> wok s"
    and Write_sent: "wok s \<Longrightarrow> op_Write wops p s = (None, s') \<Longrightarrow> wok s' \<and> sent s' = sent s @ p"
    and WriteByte_sent:
      "wok s \<Longrightarrow> op_WriteByte wops c s = (None, s') \<Longrightarrow> wok s' \<and> sent s' = sent s @ [c]"
    and WriteString_sent:
      "wok s \<Longrightarrow> op_WriteString wops p s = (None, s') \<Longrightarrow> wok s' \<and> sent s' = sent s @ p"
    and Flush_sent: "wok s \<Longrightarrow> op_Flush wops s = (None, s') \<Longrightarrow>
      wok s' \<and> sent s' = sent s \<and> delivered s' = sent s'"
    and Write_live: "wlive s \<Longrightarrow> \<exists>s'. op_Write wops p s = (None, s') \<and> wlive s'"
    and WriteByte_live: "wlive s \<Longrightarrow> \<exists>s'. op_WriteByte wops c s = (None, s') \<and> wlive s'"
    and WriteString_live: "wlive s \<Longrightarrow> \<exists>s'. op_WriteString wops p s = (None, s') \<and> wlive s'"
    and Flush_live: "wlive s \<Longrightarrow> \<exists>s'. op_Flush wops s = (None, s') \<and> wlive s'"

text \<open>A writer whose first error sticks: after it every call fails. Code that looks at the error of
  the last of several calls relies on this.\<close>

locale sticky_writer = byte_writer +
  fixes broken :: "'s \<Rightarrow> bool"
  assumes Write_breaks: "op_Write wops p s = (Some e, s') \<Longrightarrow> broken s'"
    and WriteString_breaks: "op_WriteString wops p s = (Some e, s') \<Longrightarrow> broken s'"
    and Write_broken: "broken s \<Longrightarrow> op_Write wops p s = (r, s') \<Longrightarrow> r \<noteq> None \<and> broken s'"
    and WriteString_broken: "broken s \<Longrightarrow> op_WriteString wops p s = (r, s') \<Longrightarrow> r \<noteq> None \<and> broken s'"

end
