(* ===== verification/Bufio2.thy ===== *)
theory Bufio2
  imports Stream_Spec
begin

text \<open>
  \<open>utils/resparse/bufio2/bufio.go\<close>: the buffered reader and writer, with their fixed buffers and
  positions as the code has them.

  The underlying \<open>io.Reader\<close> is not code of the repository. It is modelled by the script of what
  it will deliver: a list of chunks, each with the error (if any) its last byte comes with; a read
  of at most \<open>k\<close> bytes takes the front of the first chunk. An exhausted script is end of file.
  The underlying \<open>io.Writer\<close> likewise: the bytes it has accepted, and a script saying for each
  coming \<open>Write\<close> how many bytes it accepts and which error it returns (an exhausted script
  accepts everything).
\<close>

section \<open>The underlying io.Reader\<close>

type_synonym source = "(bytes \<times> go_error option) list"

fun source_Read :: "nat \<Rightarrow> source \<Rightarrow> (bytes \<times> go_error option) \<times> source" where
  "source_Read k [] = (([], Some EOF), [])"
| "source_Read k ((d, e) # cs) =
     (if length d \<le> k then ((d, e), cs) else ((take k d, None), (drop k d, e) # cs))"

definition source_bytes :: "source \<Rightarrow> bytes" where
  "source_bytes src = concat (map fst src)"

lemma source_bytes_simps [simp]:
  "source_bytes [] = []" "source_bytes ((d, e) # cs) = d @ source_bytes cs"
  by (simp_all add: source_bytes_def)

lemma source_Read_bytes:
  "source_Read k src = ((d, e), src') \<Longrightarrow>
     source_bytes src = d @ source_bytes src' \<and> length d \<le> k"
  by (cases "(k, src)" rule: source_Read.cases) (auto split: if_splits)

text \<open>A source that delivers every byte of its script, in non-empty reads, and then ends.\<close>

definition reliable :: "source \<Rightarrow> bool" where
  "reliable src \<longleftrightarrow> (\<forall>(d, e) \<in> set src. d \<noteq> [] \<and> e = None)"

lemma reliable_Read:
  assumes "reliable src" "source_Read k src = ((d, e), src')" "0 < k" "source_bytes src \<noteq> []"
  shows "d \<noteq> [] \<and> e = None \<and> reliable src'"
  using assms by (cases "(k, src)" rule: source_Read.cases) (auto simp: reliable_def split: if_splits)

section \<open>Reader\<close>

definition DefaultBufferSize :: int where "DefaultBufferSize = 1024"

record breader =
  rd_err :: "go_error option"
  rd_buf :: bytes
  rd_src :: source
  rpos :: nat
  wpos :: nat

definition mk_reader :: "source \<Rightarrow> bytes \<Rightarrow> breader" where
  "mk_reader src buf = \<lparr>rd_err = None, rd_buf = buf, rd_src = src, rpos = 0, wpos = 0\<rparr>"

definition zeros :: "int \<Rightarrow> bytes" where
  "zeros n = replicate (nat n) (char_of (0 :: nat))"

definition NewReaderSize :: "source \<Rightarrow> int \<Rightarrow> breader" where
  "NewReaderSize src sz = mk_reader src (zeros (if sz \<le> 0 then DefaultBufferSize else sz))"

definition NewReader :: "source \<Rightarrow> breader" where
  "NewReader src = NewReaderSize src DefaultBufferSize"

text \<open>The buffer a \<open>sync.Pool\<close> hands out is an argument: \<open>None\<close> for one of the wrong type or nil.\<close>

definition NewReaderSizeWithSyncPool :: "source \<Rightarrow> bytes option \<Rightarrow> int \<Rightarrow> breader" where
  "NewReaderSizeWithSyncPool src pooled sz =
     (case pooled of None \<Rightarrow> mk_reader src (zeros sz) | Some buf \<Rightarrow> mk_reader src buf)"

definition NewReaderBuffer :: "source \<Rightarrow> bytes \<Rightarrow> breader" where
  "NewReaderBuffer src buf = mk_reader src (if buf = [] then zeros DefaultBufferSize else buf)"

definition buffered :: "breader \<Rightarrow> nat" where
  "buffered b = wpos b - rpos b"

text \<open>\<open>fill\<close> moves what is buffered to the front and reads once behind it. An error drops the
  bytes the same read delivered.\<close>

definition compact :: "breader \<Rightarrow> breader" where
  "compact b = (if 0 < rpos b
     then b\<lparr>rd_buf := write_at (rd_buf b) 0 (buf_slice (rpos b) (wpos b) (rd_buf b)),
            rpos := 0, wpos := wpos b - rpos b\<rparr>
     else b)"

definition fill :: "breader \<Rightarrow> go_error option \<times> breader" where
  "fill b = (case rd_err b of Some e \<Rightarrow> (Some e, b) | None \<Rightarrow>
     let b = compact b;
         ((d, e), src) = source_Read (length (rd_buf b) - wpos b) (rd_src b);
         b = b\<lparr>rd_src := src, rd_buf := write_at (rd_buf b) (wpos b) d\<rparr>;
         b = (case e of Some err \<Rightarrow> b\<lparr>rd_err := Some err\<rparr>
              | None \<Rightarrow> if d = [] then b\<lparr>rd_err := Some ErrNoProgress\<rparr>
                        else b\<lparr>wpos := wpos b + length d\<rparr>)
     in (rd_err b, b))"

text \<open>\<open>Read(p)\<close> for a \<open>p\<close> of length \<open>n\<close>: the bytes copied into \<open>p\<close> and the error.\<close>

definition Read :: "nat \<Rightarrow> breader \<Rightarrow> (bytes \<times> go_error option) \<times> breader" where
  "Read n b =
     (if rd_err b \<noteq> None \<or> n = 0 then (([], rd_err b), b)
      else if buffered b = 0 \<and> length (rd_buf b) \<le> n then
        let ((d, e), src) = source_Read n (rd_src b);
            b = b\<lparr>rd_src := src, rd_err := (case e of Some err \<Rightarrow> Some err | None \<Rightarrow> rd_err b)\<rparr>
        in ((d, rd_err b), b)
      else
        let (e, b') = (if buffered b = 0 then fill b else (None, b))
        in case e of Some err \<Rightarrow> (([], Some err), b')
           | None \<Rightarrow> let d = take n (buf_slice (rpos b') (wpos b') (rd_buf b'))
                     in ((d, None), b'\<lparr>rpos := rpos b' + length d\<rparr>))"

definition with_byte :: "(char \<Rightarrow> breader \<Rightarrow> (go_error + 'a) \<times> breader) \<Rightarrow> (breader, go_error, 'a) io" where
  "with_byte f b = (case rd_err b of Some e \<Rightarrow> (Inl e, b) | None \<Rightarrow>
     (case (if buffered b = 0 then fill b else (None, b)) of
        (Some e, b') \<Rightarrow> (Inl e, b')
      | (None, b') \<Rightarrow> f (rd_buf b' ! rpos b') b'))"

definition ReadByte :: "(breader, go_error, char) io" where
  "ReadByte = with_byte (\<lambda>c b. (Inr c, b\<lparr>rpos := rpos b + 1\<rparr>))"

definition PeekByte :: "(breader, go_error, char) io" where
  "PeekByte = with_byte (\<lambda>c b. (Inr c, b))"

lemma compact_simps [simp]:
  "rpos (compact b) = 0" "wpos (compact b) = buffered b" "rd_src (compact b) = rd_src b"
  "rd_err (compact b) = rd_err b"
  by (simp_all add: compact_def buffered_def)

lemma length_compact [simp]: "length (rd_buf (compact b)) = length (rd_buf b)"
  by (auto simp: compact_def buf_slice_def write_at_def)

lemma compact_Nil [simp]: "rd_buf (compact b) = [] \<longleftrightarrow> rd_buf b = []"
  by (metis length_compact length_0_conv)

text \<open>What a successful \<open>fill\<close> did: it read a non-empty chunk behind the bytes already buffered.\<close>

lemma fill_NoneD:
  assumes "fill b = (None, b')"
  shows "\<exists>d src'. rd_err b = None \<and> d \<noteq> [] \<and>
     source_Read (length (rd_buf b) - buffered b) (rd_src b) = ((d, None), src') \<and>
     buffered b + length d \<le> length (rd_buf b) \<and>
     b' = (compact b)\<lparr>rd_src := src', rd_buf := write_at (rd_buf (compact b)) (buffered b) d,
                      wpos := buffered b + length d\<rparr>"
proof -
  obtain d e src' where r: "source_Read (length (rd_buf b) - buffered b) (rd_src b) = ((d, e), src')"
    by (metis surj_pair)
  have err: "rd_err b = None"
    using assms by (auto simp: fill_def split: option.splits)
  have *: "d \<noteq> [] \<and> e = None \<and>
      b' = (compact b)\<lparr>rd_src := src', rd_buf := write_at (rd_buf (compact b)) (buffered b) d,
                      wpos := buffered b + length d\<rparr>"
    using assms err r by (auto simp: fill_def Let_def split: option.splits if_splits)
  have "length d \<le> length (rd_buf b) - buffered b" "0 < length d"
    using source_Read_bytes [OF r] * by auto
  then have "buffered b + length d \<le> length (rd_buf b)"
    by linarith
  then show ?thesis
    using err r * by auto
qed

lemma fill_progress:
  assumes "fill b = (None, b')"
  shows "buffered b < buffered b'" "buffered b' \<le> length (rd_buf b')"
    "length (rd_buf b') = length (rd_buf b)"
    "buffered b' + length (source_bytes (rd_src b')) = buffered b + length (source_bytes (rd_src b))"
    "rpos b' = 0"
proof -
  obtain d src' where d: "d \<noteq> []" "buffered b + length d \<le> length (rd_buf b)"
    and r: "source_Read (length (rd_buf b) - buffered b) (rd_src b) = ((d, None), src')"
    and b': "b' = (compact b)\<lparr>rd_src := src',
        rd_buf := write_at (rd_buf (compact b)) (buffered b) d, wpos := buffered b + length d\<rparr>"
    using fill_NoneD [OF assms] by blast
  have "buffered b' = buffered b + length d"
    by (simp add: b' buffered_def)
  then show "buffered b < buffered b'" "buffered b' \<le> length (rd_buf b')"
    "length (rd_buf b') = length (rd_buf b)"
    "buffered b' + length (source_bytes (rd_src b')) = buffered b + length (source_bytes (rd_src b))"
    "rpos b' = 0"
    using d source_Read_bytes [OF r] by (auto simp: b' length_write_at)
qed

lemma fill_shrinks_room:
  assumes "(None, b') = fill b"
  shows "length (rd_buf b') - buffered b' < length (rd_buf b) - buffered b"
  using fill_progress [OF assms [symmetric]] by linarith

text \<open>\<open>ReadSlice\<close> returns the bytes and the error separately: with \<open>ErrBufferFull\<close> come the whole
  buffer's bytes. Each turn of its loop either ends or buffers at least one more byte.\<close>

function ReadSlice_loop :: "char \<Rightarrow> breader \<Rightarrow> (bytes \<times> go_error option) \<times> breader" where
  "ReadSlice_loop d b =
     (case IndexByte (buf_slice (rpos b) (wpos b) (rd_buf b)) d of
        Some i \<Rightarrow> let limit = rpos b + i + 1
                  in ((buf_slice (rpos b) limit (rd_buf b), None), b\<lparr>rpos := limit\<rparr>)
      | None \<Rightarrow>
          if buffered b = length (rd_buf b) then ((rd_buf b, Some ErrBufferFull), b\<lparr>rpos := wpos b\<rparr>)
          else (case fill b of
                  (Some e, b') \<Rightarrow> (([], Some e), b')
                | (None, b') \<Rightarrow> ReadSlice_loop d b'))"
  by pat_completeness auto
termination
  by (relation "measure (\<lambda>(d, b). length (rd_buf b) - buffered b)")
    (auto intro: fill_shrinks_room)

declare ReadSlice_loop.simps [simp del]

definition ReadSlice :: "char \<Rightarrow> breader \<Rightarrow> (bytes \<times> go_error option) \<times> breader" where
  "ReadSlice d b = (case rd_err b of Some e \<Rightarrow> (([], Some e), b) | None \<Rightarrow> ReadSlice_loop d b)"

text \<open>\<open>ReadBytes\<close> collects the whole buffers \<open>ReadSlice\<close> gives up with \<open>ErrBufferFull\<close> and the last
  slice. On a reader whose buffer is empty, or whose source itself answered \<open>ErrBufferFull\<close>, the
  loop of the code does not end; that outcome is the value \<open>NoReturn\<close>. No constructor gives an
  empty buffer, and no source of \<open>net\<close> or \<open>bytes\<close> answers \<open>ErrBufferFull\<close>.\<close>

definition NoReturn :: go_error where "NoReturn = Sentinel ''(the call does not return)''"


definition rd_ok :: "breader \<Rightarrow> bool" where
  "rd_ok b \<longleftrightarrow> rpos b \<le> wpos b \<and> wpos b \<le> length (rd_buf b) \<and> rd_buf b \<noteq> []"

definition rd_window :: "breader \<Rightarrow> bytes" where
  "rd_window b = buf_slice (rpos b) (wpos b) (rd_buf b)"

definition rd_rest :: "breader \<Rightarrow> bytes" where
  "rd_rest b = rd_window b @ source_bytes (rd_src b)"

definition rd_live :: "breader \<Rightarrow> bool" where
  "rd_live b \<longleftrightarrow> rd_ok b \<and> rd_err b = None \<and> reliable (rd_src b)"

abbreviation rd_size :: "breader \<Rightarrow> nat" where "rd_size b \<equiv> length (rd_buf b)"

lemma length_rd_window: "rd_ok b \<Longrightarrow> length (rd_window b) = buffered b"
  by (simp add: rd_ok_def rd_window_def buffered_def byte_simps)

lemma compact_ok:
  assumes "rd_ok b"
  shows "rd_ok (compact b)" "take (buffered b) (rd_buf (compact b)) = rd_window b"
proof -
  show "rd_ok (compact b)"
    using assms by (auto simp: rd_ok_def buffered_def)
  have "length (rd_window b) = buffered b"
    using assms by (rule length_rd_window)
  then show "take (buffered b) (rd_buf (compact b)) = rd_window b"
    by (auto simp: compact_def rd_window_def write_at_def buffered_def byte_simps)
qed

lemma fill_None_ok:
  assumes "rd_ok b" "fill b = (None, b')"
  shows "rd_ok b'" "rd_size b' = rd_size b" "rd_rest b' = rd_rest b" "rd_err b' = None"
    "\<exists>d. d \<noteq> [] \<and> rd_window b' = rd_window b @ d"
proof -
  obtain d src' where d: "d \<noteq> []" "buffered b + length d \<le> rd_size b" "rd_err b = None"
    and r: "source_Read (rd_size b - buffered b) (rd_src b) = ((d, None), src')"
    and b': "b' = (compact b)\<lparr>rd_src := src',
        rd_buf := write_at (rd_buf (compact b)) (buffered b) d, wpos := buffered b + length d\<rparr>"
    using fill_NoneD [OF assms(2)] by blast
  show ok: "rd_ok b'" and sz: "rd_size b' = rd_size b" and "rd_err b' = None"
    using d assms(1) by (auto simp: b' rd_ok_def length_write_at write_at_eq_Nil)
  have win: "rd_window b' = rd_window b @ d"
    using d compact_ok [OF assms(1)]
    by (simp add: b' rd_window_def buf_slice_zero take_write_at)
  show "rd_rest b' = rd_rest b"
    using source_Read_bytes [OF r] by (simp add: rd_rest_def win) (simp add: b')
  show "\<exists>d. d \<noteq> [] \<and> rd_window b' = rd_window b @ d"
    using win d by blast
qed

lemma fill_ok:
  assumes "rd_ok b" "fill b = (e, b')"
  shows "rd_ok b' \<and> rd_size b' = rd_size b \<and> rd_err b' = e"
proof (cases "rd_err b")
  case None
  obtain d e' src' where r: "source_Read (rd_size b - buffered b) (rd_src b) = ((d, e'), src')"
    by (metis surj_pair)
  have "buffered b + length d \<le> rd_size b"
    using source_Read_bytes [OF r] assms(1) by (auto simp: rd_ok_def buffered_def)
  then show ?thesis
    using assms None r
    by (cases e'; cases "d = []")
      (auto simp: fill_def Let_def rd_ok_def length_write_at write_at_eq_Nil)
qed (use assms in \<open>auto simp: fill_def\<close>)

lemma fill_live:
  assumes "rd_live b" "source_bytes (rd_src b) \<noteq> []" "buffered b < rd_size b"
  shows "\<exists>b'. fill b = (None, b') \<and> rd_live b'"
proof -
  obtain d e src' where r: "source_Read (rd_size b - buffered b) (rd_src b) = ((d, e), src')"
    by (metis surj_pair)
  have d: "d \<noteq> []" "e = None" "reliable src'"
    using assms reliable_Read [OF _ r] by (auto simp: rd_live_def)
  then obtain b' where b': "fill b = (None, b')" "reliable (rd_src b')"
    using assms r by (simp add: fill_def Let_def rd_live_def)
  then show ?thesis
    using assms fill_None_ok(1,4) [OF _ b'(1)] by (simp add: rd_live_def)
qed

section \<open>ReadByte, PeekByte, ReadSlice\<close>

text \<open>Everything the byte operations need of the buffer: either it already holds a byte, or a
  successful \<open>fill\<close> makes it hold one.\<close>

definition prepare :: "breader \<Rightarrow> go_error option \<times> breader" where
  "prepare b = (if buffered b = 0 then fill b else (None, b))"

lemma prepare_ok: "rd_ok b \<Longrightarrow> prepare b = (e, b') \<Longrightarrow> rd_ok b' \<and> rd_size b' = rd_size b"
  by (auto simp: prepare_def dest: fill_ok split: if_splits)

lemma prepare_None:
  assumes "rd_ok b" "prepare b = (None, b')"
  shows "rd_rest b' = rd_rest b" "rpos b' < wpos b'"
proof -
  show "rd_rest b' = rd_rest b"
    using assms by (auto simp: prepare_def fill_None_ok(3) split: if_splits)
  show "rpos b' < wpos b'"
    using assms fill_progress(1) [of b b'] by (auto simp: prepare_def buffered_def split: if_splits)
qed

lemma prepare_live:
  assumes "rd_live b" "rd_rest b \<noteq> []"
  shows "\<exists>b'. prepare b = (None, b') \<and> rd_live b'"
proof (cases "buffered b = 0")
  case True
  then have "source_bytes (rd_src b) \<noteq> []" "buffered b < rd_size b"
    using assms length_rd_window [of b] by (auto simp: rd_rest_def rd_live_def rd_ok_def)
  then show ?thesis
    using fill_live [OF assms(1)] True by (simp add: prepare_def)
qed (use assms in \<open>simp add: prepare_def\<close>)

text \<open>Taking \<open>n\<close> bytes off a buffer that holds them.\<close>

lemma advance_ok:
  assumes "rd_ok b" "rpos b + n \<le> wpos b"
  shows "rd_ok (b\<lparr>rpos := rpos b + n\<rparr>)"
    "rd_rest b = buf_slice (rpos b) (rpos b + n) (rd_buf b) @ rd_rest (b\<lparr>rpos := rpos b + n\<rparr>)"
proof -
  show "rd_ok (b\<lparr>rpos := rpos b + n\<rparr>)"
    using assms by (simp add: rd_ok_def)
  have "buf_slice (rpos b) (wpos b) (rd_buf b)
      = take n (buf_slice (rpos b) (wpos b) (rd_buf b)) @ drop n (buf_slice (rpos b) (wpos b) (rd_buf b))"
    by simp
  then show "rd_rest b = buf_slice (rpos b) (rpos b + n) (rd_buf b) @ rd_rest (b\<lparr>rpos := rpos b + n\<rparr>)"
    using assms by (simp add: rd_rest_def rd_window_def byte_simps)
qed

lemma advance_live:
  "rd_live b \<Longrightarrow> rpos b + n \<le> wpos b \<Longrightarrow> rd_live (b\<lparr>rpos := rpos b + n\<rparr>)"
  by (simp add: rd_live_def advance_ok(1))

lemma rest_Cons:
  assumes "rd_ok b" "rpos b < wpos b"
  shows "rd_rest b = rd_buf b ! rpos b # rd_rest (b\<lparr>rpos := rpos b + 1\<rparr>)"
  using assms by (simp add: rd_rest_def rd_window_def buf_slice_Cons_nth rd_ok_def)

lemma with_byte_prepare:
  "with_byte f b = (case rd_err b of Some e \<Rightarrow> (Inl e, b) | None \<Rightarrow>
     (case prepare b of (Some e, b') \<Rightarrow> (Inl e, b') | (None, b') \<Rightarrow> f (rd_buf b' ! rpos b') b'))"
  unfolding with_byte_def prepare_def by (rule refl)

lemma with_byte_Inr:
  assumes "with_byte f b = (Inr x, s)" "rd_ok b"
  obtains b' where "prepare b = (None, b')" "f (rd_buf b' ! rpos b') b' = (Inr x, s)" "rd_ok b'"
    "rd_rest b = rd_buf b' ! rpos b' # rd_rest (b'\<lparr>rpos := rpos b' + 1\<rparr>)" "rd_rest b' = rd_rest b"
    "rpos b' < wpos b'"
proof -
  obtain b' where b': "prepare b = (None, b')" "f (rd_buf b' ! rpos b') b' = (Inr x, s)"
    using assms(1) by (auto simp: with_byte_prepare split: option.splits prod.splits)
  have "rd_ok b'" "rd_rest b' = rd_rest b" "rpos b' < wpos b'"
    using prepare_ok [OF assms(2) b'(1)] prepare_None [OF assms(2) b'(1)] by auto
  then show ?thesis
    using that b' rest_Cons [of b'] by metis
qed

lemma with_byte_live:
  assumes "rd_live b" "rd_rest b = c # cs"
  obtains b' where "with_byte f b = f c b'" "rd_live b'" "rd_rest b' = c # cs" "rpos b' < wpos b'"
    "rd_rest (b'\<lparr>rpos := rpos b' + 1\<rparr>) = cs"
proof -
  obtain b' where b': "prepare b = (None, b')" "rd_live b'"
    using prepare_live assms by fastforce
  have "rd_rest b' = c # cs" "rpos b' < wpos b'"
    using prepare_None [OF _ b'(1)] assms by (auto simp: rd_live_def)
  moreover from this have "rd_buf b' ! rpos b' = c" "rd_rest (b'\<lparr>rpos := rpos b' + 1\<rparr>) = cs"
    using rest_Cons [of b'] b'(2) by (auto simp: rd_live_def)
  ultimately show ?thesis
    using that b' assms(1) by (simp add: with_byte_prepare rd_live_def)
qed

lemma ReadSlice_loop_ok:
  "ReadSlice_loop d b = ((l, e), b') \<Longrightarrow> rd_ok b \<Longrightarrow> rd_ok b' \<and> rd_size b' = rd_size b"
proof (induction d b rule: ReadSlice_loop.induct)
  case (1 d b)
  show ?case
  proof (cases "IndexByte (buf_slice (rpos b) (wpos b) (rd_buf b)) d")
    case (Some i)
    then have "rpos b + i + 1 \<le> wpos b"
      using IndexByte_SomeD [OF Some] 1(3) by (auto simp: rd_ok_def byte_simps)
    then show ?thesis
      using Some 1(2,3) by (auto simp: ReadSlice_loop.simps [of d b] Let_def rd_ok_def)
  next
    case None
    then show ?thesis
      using 1 fill_ok [OF 1(3)] 
      by (fastforce simp: ReadSlice_loop.simps [of d b] rd_ok_def split: if_splits prod.splits option.splits)
  qed
qed

lemma delimited_slice:
  assumes "IndexByte xs d = Some i"
  shows "take (Suc i) xs \<noteq> []" "last (take (Suc i) xs) = d" "d \<notin> set (butlast (take (Suc i) xs))"
  using IndexByte_SomeD [OF assms] by (auto simp: take_Suc_conv_app_nth butlast_append)

text \<open>A successful \<open>ReadSlice\<close> consumed exactly the slice; one that gave up on a full buffer
  consumed exactly that buffer, which has no delimiter.\<close>

lemma ReadSlice_loop_sound:
  "ReadSlice_loop d b = ((l, e), b') \<Longrightarrow> rd_ok b \<Longrightarrow>
     (e = None \<longrightarrow> rd_rest b = l @ rd_rest b' \<and> l \<noteq> [] \<and> last l = d \<and> d \<notin> set (butlast l)) \<and>
     (e = Some ErrBufferFull \<and> rd_err b' = None \<longrightarrow> rd_rest b = l @ rd_rest b' \<and> l \<noteq> [] \<and> d \<notin> set l)"
proof (induction d b rule: ReadSlice_loop.induct)
  case (1 d b)
  show ?case
  proof (cases "IndexByte (rd_window b) d")
    case (Some i)
    have "rpos b + Suc i \<le> wpos b"
      using IndexByte_SomeD [OF Some] 1(3) length_rd_window [of b] by (auto simp: buffered_def)
    moreover have "take (Suc i) (rd_window b) = buf_slice (rpos b) (rpos b + Suc i) (rd_buf b)"
      using calculation by (simp add: rd_window_def byte_simps)
    ultimately show ?thesis
      using 1(2) Some advance_ok(2) [OF 1(3), of "Suc i"] delimited_slice [OF Some]
      by (auto simp: ReadSlice_loop.simps [of d b] rd_window_def)
  next
    case None
    then have no: "d \<notin> set (rd_window b)"
      by (simp add: IndexByte_None_iff)
    show ?thesis
    proof (cases "buffered b = rd_size b")
      case True
      then have pos: "rpos b = 0" "wpos b = rd_size b"
        using 1(3) by (auto simp: rd_ok_def buffered_def)
      then have "rd_window b = rd_buf b"
        by (simp add: rd_window_def byte_simps)
      then show ?thesis
        using 1(2,3) None True no pos advance_ok(2) [OF 1(3), of "rd_size b"]
        by (auto simp: ReadSlice_loop.simps [of d b] rd_window_def byte_simps rd_ok_def)
    next
      case False
      obtain x b1 where f: "fill b = (x, b1)" by (metis surj_pair)
      show ?thesis
      proof (cases x)
        case x: None
        have "ReadSlice_loop d b1 = ((l, e), b')"
          using 1(2) None False f x by (simp add: ReadSlice_loop.simps [of d b] rd_window_def)
        then show ?thesis
          using 1(1) [OF None [unfolded rd_window_def] False f [symmetric] x] 1(3) f x
            fill_None_ok [OF 1(3)]
          by simp
      next
        case (Some err)
        then have "e = Some err" "b' = b1"
          using 1(2) None False f by (auto simp: ReadSlice_loop.simps [of d b] rd_window_def)
        then show ?thesis
          using fill_ok [OF 1(3) f] Some by simp
      qed
    qed
  qed
qed

lemma ReadSlice_loop_live:
  "rd_live b \<Longrightarrow> rd_rest b = l @ d # t \<Longrightarrow> d \<notin> set l \<Longrightarrow>
     (length l < rd_size b \<longrightarrow>
        (\<exists>b'. ReadSlice_loop d b = ((l @ [d], None), b') \<and> rd_live b' \<and> rd_rest b' = t)) \<and>
     (rd_size b \<le> length l \<longrightarrow>
        (\<exists>b'. ReadSlice_loop d b = ((take (rd_size b) l, Some ErrBufferFull), b') \<and> rd_live b' \<and>
              rd_rest b' = drop (rd_size b) l @ d # t))"
proof (induction d b rule: ReadSlice_loop.induct)
  case (1 d b)
  have ok: "rd_ok b" "rd_err b = None"
    using 1(2) by (auto simp: rd_live_def)
  show ?case
  proof (cases "IndexByte (rd_window b) d")
    case (Some i)
    note split = IndexByte_Some_split [OF Some]
    have le: "rpos b + Suc i \<le> wpos b"
      using IndexByte_SomeD [OF Some] length_rd_window [OF ok(1)] by (auto simp: buffered_def)
    then have sl: "buf_slice (rpos b) (rpos b + Suc i) (rd_buf b) = take (Suc i) (rd_window b)"
      by (simp add: rd_window_def byte_simps)
    have "l = take i (rd_window b)"
    proof -
      have "take i (rd_window b) @ d # drop (Suc i) (rd_window b) @ source_bytes (rd_src b) = l @ d # t"
        using 1(3) split by (metis append.assoc append_Cons rd_rest_def)
      then show ?thesis
        using IndexByte_SomeD [OF Some] 1(4) delimited_unique by metis
    qed
    moreover have "take (Suc i) (rd_window b) = take i (rd_window b) @ [d]"
      using IndexByte_SomeD [OF Some] by (simp add: take_Suc_conv_app_nth)
    moreover have "i < rd_size b"
      using IndexByte_SomeD [OF Some] length_rd_window [OF ok(1)] ok(1)
      by (auto simp: buffered_def rd_ok_def)
    ultimately show ?thesis
      using Some advance_ok(2) [OF ok(1) le] advance_live [OF 1(2) le] 1(3) sl
      by (auto simp: ReadSlice_loop.simps [of d b] rd_window_def)
  next
    case None
    then have no: "d \<notin> set (rd_window b)"
      by (simp add: IndexByte_None_iff)
    have src: "source_bytes (rd_src b) \<noteq> []"
      using no 1(3) by (auto simp: rd_rest_def)
    have pre: "\<exists>m. l = rd_window b @ m"
    proof -
      obtain us where "rd_window b @ us = l \<and> source_bytes (rd_src b) = us @ d # t \<or>
          rd_window b = l @ us \<and> us @ source_bytes (rd_src b) = d # t"
        using 1(3) unfolding rd_rest_def append_eq_append_conv2 by blast
      then show ?thesis
        using no by (cases us) auto
    qed
    show ?thesis
    proof (cases "buffered b = rd_size b")
      case True
      then have pos: "rpos b = 0" "wpos b = rd_size b"
        using ok(1) by (auto simp: rd_ok_def buffered_def)
      then have "rd_window b = rd_buf b"
        by (simp add: rd_window_def byte_simps)
      then show ?thesis
        using pre None True 1(3) pos advance_ok(2) [OF ok(1), of "rd_size b"]
          advance_live [OF 1(2), of "rd_size b"]
        by (auto simp: ReadSlice_loop.simps [of d b] rd_window_def byte_simps)
    next
      case False
      then have "buffered b < rd_size b"
        using ok(1) by (auto simp: rd_ok_def buffered_def)
      then obtain b1 where f: "fill b = (None, b1)" "rd_live b1"
        using fill_live [OF 1(2) src] by blast
      then show ?thesis
        using 1(1) [OF None [unfolded rd_window_def] False f(1) [symmetric] refl] 1(3,4) None False
          fill_None_ok [OF ok(1)]
        by (simp add: ReadSlice_loop.simps [of d b] rd_window_def)
    qed
  qed
qed

lemma ReadSlice_ok: "rd_ok b \<Longrightarrow> ReadSlice d b = (r, b') \<Longrightarrow> rd_ok b' \<and> rd_size b' = rd_size b"
  using ReadSlice_loop_ok [of d b] by (cases r) (auto simp: ReadSlice_def split: option.splits)

lemma ReadSlice_sound:
  assumes "rd_ok b" "ReadSlice d b = ((l, e), b')"
  shows "e = None \<Longrightarrow> rd_rest b = l @ rd_rest b' \<and> l \<noteq> [] \<and> last l = d \<and> d \<notin> set (butlast l)"
    "e = Some ErrBufferFull \<Longrightarrow> rd_err b' = None \<Longrightarrow>
       rd_rest b = l @ rd_rest b' \<and> l \<noteq> [] \<and> d \<notin> set l"
  using assms ReadSlice_loop_sound [of d b l e b'] by (auto simp: ReadSlice_def split: option.splits)

lemmas ReadSlice_live = ReadSlice_loop_live [folded ReadSlice_def]

section \<open>ReadBytes\<close>

abbreviation remaining :: "breader \<Rightarrow> nat" where
  "remaining b \<equiv> buffered b + length (source_bytes (rd_src b))"

lemma fill_SomeD:
  assumes "fill b = (Some x, b1)"
  shows "remaining b1 \<le> remaining b" "rd_err b1 = Some x"
proof -
  obtain d e src' where r: "source_Read (rd_size b - buffered b) (rd_src b) = ((d, e), src')"
    by (metis surj_pair)
  have "length (source_bytes src') \<le> length (source_bytes (rd_src b))"
    using source_Read_bytes [OF r] by simp
  then show "remaining b1 \<le> remaining b" "rd_err b1 = Some x"
    using assms r
    by (cases "rd_err b"; cases e; cases "d = []"; auto simp: fill_def Let_def buffered_def)+
qed

lemma ReadSlice_loop_remaining:
  "ReadSlice_loop d b = ((l, e), b') \<Longrightarrow> remaining b' \<le> remaining b \<and>
     (e = Some ErrBufferFull \<and> rd_err b' = None \<and> rd_buf b' \<noteq> [] \<longrightarrow> remaining b' < remaining b)"
proof (induction d b rule: ReadSlice_loop.induct)
  case (1 d b)
  show ?case
  proof (cases "IndexByte (buf_slice (rpos b) (wpos b) (rd_buf b)) d")
    case (Some i)
    then show ?thesis
      using 1(2) by (auto simp: ReadSlice_loop.simps [of d b] buffered_def Let_def)
  next
    case None
    show ?thesis
    proof (cases "buffered b = rd_size b")
      case True
      then show ?thesis
        using 1(2) None by (auto simp: ReadSlice_loop.simps [of d b] buffered_def)
    next
      case False
      obtain x b1 where f: "fill b = (x, b1)" by (metis surj_pair)
      show ?thesis
      proof (cases x)
        case x: None
        then show ?thesis
          using 1(1) [OF None False f [symmetric] x] 1(2) None False f fill_progress(4) [of b b1]
          by (simp add: ReadSlice_loop.simps [of d b])
      next
        case (Some err)
        then show ?thesis
          using 1(2) None False f fill_SomeD [of b err b1] by (auto simp: ReadSlice_loop.simps [of d b])
      qed
    qed
  qed
qed

lemma ReadSlice_remaining:
  assumes "((f, Some ErrBufferFull), b') = ReadSlice d b" "rd_err b' = None" "rd_buf b' \<noteq> []"
  shows "remaining b' < remaining b"
  using assms ReadSlice_loop_remaining [of d b f "Some ErrBufferFull" b']
  by (auto simp: ReadSlice_def split: option.splits)

function ReadBytes_loop :: "bytes list \<Rightarrow> char \<Rightarrow> (breader, go_error, bytes) io" where
  "ReadBytes_loop full d b =
     (case ReadSlice d b of
        ((f, None), b') \<Rightarrow> (Inr (concat full @ f), b')
      | ((f, Some e), b') \<Rightarrow>
          if e \<noteq> ErrBufferFull then (Inl e, b')
          else if rd_err b' \<noteq> None \<or> rd_buf b' = [] then (Inl NoReturn, b')
          else ReadBytes_loop (full @ [f]) d b')"
  by pat_completeness auto
termination
  by (relation "measure (\<lambda>(full, d, b). remaining b)") (auto dest: ReadSlice_remaining)

declare ReadBytes_loop.simps [simp del]

definition ReadBytes :: "char \<Rightarrow> (breader, go_error, bytes) io" where
  "ReadBytes d b = ReadBytes_loop [] d b"

lemma ReadBytes_loop_ok:
  "ReadBytes_loop full d b = (r, b') \<Longrightarrow> rd_ok b \<Longrightarrow> rd_ok b' \<and> rd_size b' = rd_size b"
proof (induction full d b rule: ReadBytes_loop.induct)
  case (1 full d b)
  obtain f e b1 where s: "ReadSlice d b = ((f, e), b1)" by (metis surj_pair)
  then show ?case
    using 1 ReadSlice_ok [OF 1(3) s]
    by (cases e) (auto simp: ReadBytes_loop.simps [of full d b] split: if_splits)
qed

lemma ReadBytes_loop_sound:
  "ReadBytes_loop full d b = (Inr l, b') \<Longrightarrow> rd_ok b \<Longrightarrow> d \<notin> set (concat full) \<Longrightarrow>
     concat full @ rd_rest b = l @ rd_rest b' \<and> l \<noteq> [] \<and> last l = d \<and> d \<notin> set (butlast l)"
proof (induction full d b rule: ReadBytes_loop.induct)
  case (1 full d b)
  obtain f e b1 where s: "ReadSlice d b = ((f, e), b1)" by (metis surj_pair)
  show ?case
  proof (cases e)
    case None
    then show ?thesis
      using 1(2,4) s ReadSlice_sound(1) [OF 1(3) s None]
      by (auto simp: ReadBytes_loop.simps [of full d b] butlast_append)
  next
    case (Some err)
    then have c: "err = ErrBufferFull" "rd_err b1 = None" "rd_buf b1 \<noteq> []"
      "ReadBytes_loop (full @ [f]) d b1 = (Inr l, b')"
      using 1(2) s by (auto simp: ReadBytes_loop.simps [of full d b] split: if_splits)
    have sl: "rd_rest b = f @ rd_rest b1 \<and> f \<noteq> [] \<and> d \<notin> set f"
      using ReadSlice_sound(2) [OF 1(3) s] Some c by blast
    then show ?thesis
      using 1(1) [OF s [symmetric] refl Some] ReadSlice_ok [OF 1(3) s] 1(4) c by simp
  qed
qed

lemma ReadBytes_loop_live:
  "rd_live b \<Longrightarrow> rd_rest b = l @ d # t \<Longrightarrow> d \<notin> set l \<Longrightarrow>
     \<exists>b'. ReadBytes_loop full d b = (Inr (concat full @ l @ [d]), b') \<and> rd_live b' \<and> rd_rest b' = t"
proof (induction l arbitrary: full b rule: measure_induct_rule [where f = length])
  case (less l)
  have sz: "0 < rd_size b" and ne: "rd_err b = None"
    using less.prems(1) by (auto simp: rd_live_def rd_ok_def)
  have sl: "ReadSlice d b = ReadSlice_loop d b"
    by (simp add: ReadSlice_def ne)
  note S = ReadSlice_loop_live [OF less.prems]
  show ?case
  proof (cases "length l < rd_size b")
    case True
    then obtain b' where "ReadSlice_loop d b = ((l @ [d], None), b')" "rd_live b'" "rd_rest b' = t"
      using S by blast
    then show ?thesis
      by (simp add: ReadBytes_loop.simps [of full d b] sl)
  next
    case False
    let ?l = "drop (rd_size b) l"
    obtain b1 where b1: "ReadSlice_loop d b = ((take (rd_size b) l, Some ErrBufferFull), b1)"
      "rd_live b1" "rd_rest b1 = ?l @ d # t"
      using S False by auto
    have "\<exists>b'. ReadBytes_loop (full @ [take (rd_size b) l]) d b1
        = (Inr (concat (full @ [take (rd_size b) l]) @ ?l @ [d]), b') \<and> rd_live b' \<and> rd_rest b' = t"
    proof (rule less.IH [OF _ b1(2,3)])
      show "length ?l < length l"
        using sz False by (simp only: length_drop)
      show "d \<notin> set ?l"
        using less.prems(3) by (auto dest: in_set_dropD)
    qed
    then show ?thesis
      using b1 by (auto simp: ReadBytes_loop.simps [of full d b] sl rd_live_def rd_ok_def)
  qed
qed

section \<open>Read and ReadFull\<close>

text \<open>\<open>io.ReadFull(b, buf)\<close> for a \<open>buf\<close> of length \<open>n\<close>, of which \<open>acc\<close> is filled. A turn that
  changes nothing repeats for ever: \<open>NoReturn\<close>.\<close>

lemma source_Read_no_bytes:
  "source_Read n src = (([], None), src') \<Longrightarrow> 0 < n \<Longrightarrow> length src' < length src"
  by (cases "(n, src)" rule: source_Read.cases) (auto split: if_splits)

lemma Read_remaining:
  assumes "((d, e), b') = Read n b" "0 < n"
  shows "length (rd_src b') < length (rd_src b) \<or> d \<noteq> [] \<or> e \<noteq> None \<or> b' = b"
proof (cases "rd_err b \<noteq> None")
  case True
  then show ?thesis using assms by (simp add: Read_def)
next
  case False
  then have err: "rd_err b = None" by simp
  consider "buffered b = 0" "rd_size b \<le> n" | "buffered b = 0" "n < rd_size b" | "buffered b \<noteq> 0"
    by linarith
  then show ?thesis
  proof cases
    case 1
    obtain d1 e1 src1 where r: "source_Read n (rd_src b) = ((d1, e1), src1)" by (metis surj_pair)
    then show ?thesis
      using assms 1 err source_Read_no_bytes [of n "rd_src b" src1]
      by (cases e1; cases "d1 = []") (auto simp: Read_def)
  next
    case 2
    obtain x b1 where f: "fill b = (x, b1)" by (metis surj_pair)
    have "x = None \<Longrightarrow> buf_slice (rpos b1) (wpos b1) (rd_buf b1) \<noteq> []"
      using fill_progress(1,2,5) [of b b1] f by (auto simp: buf_slice_def buffered_def)
    then show ?thesis
      using assms 2 err f by (cases x) (auto simp: Read_def)
  next
    case 3
    then show ?thesis
      using assms err by (auto simp: Read_def Let_def)
  qed
qed

lemma Read_loop_measure:
  assumes "((d, None), b') = Read (n - k) b" "\<not> n \<le> k" "d \<noteq> [] \<or> b' \<noteq> b"
    "\<not> n - (k + length d) < n - k"
  shows "length (rd_src b') < length (rd_src b)"
  using Read_remaining [OF assms(1)] assms(2-4) by (cases d) auto

function ReadFull_loop :: "nat \<Rightarrow> bytes \<Rightarrow> (breader, go_error, bytes) io" where
  "ReadFull_loop n acc b =
     (if n \<le> length acc then (Inr acc, b)
      else case Read (n - length acc) b of
          ((d, None), b') \<Rightarrow>
            if d = [] \<and> b' = b then (Inl NoReturn, b) else ReadFull_loop n (acc @ d) b'
        | ((d, Some e), b') \<Rightarrow>
            if n \<le> length (acc @ d) then (Inr (acc @ d), b')
            else (Inl (if acc @ d \<noteq> [] \<and> e = EOF then ErrUnexpectedEOF else e), b'))"
  by pat_completeness auto
termination
  by (relation "measures [\<lambda>(n, acc, b). n - length acc, \<lambda>(n, acc, b). length (rd_src b)]")
    (auto dest: Read_loop_measure)

declare ReadFull_loop.simps [simp del]

definition ReadFull :: "nat \<Rightarrow> (breader, go_error, bytes) io" where
  "ReadFull n b = (case rd_err b of Some e \<Rightarrow> (Inl e, b)
     | None \<Rightarrow> if n = 0 then (Inr [], b) else ReadFull_loop n [] b)"

text \<open>The three ways through \<open>Read\<close>: straight from the source into a large \<open>p\<close>, or from the
  buffer, filled first when it is empty.\<close>

lemma Read_direct:
  assumes "rd_err b = None" "0 < n" "buffered b = 0" "rd_size b \<le> n"
    "source_Read n (rd_src b) = ((d, e), src')"
  shows "Read n b = ((d, e), b\<lparr>rd_src := src', rd_err := e\<rparr>)"
  using assms by (cases e) (simp_all add: Read_def)

lemma Read_buffered:
  assumes "rd_err b = None" "0 < n" "buffered b \<noteq> 0 \<or> n < rd_size b" "rd_ok b"
  shows "Read n b = (case prepare b of (Some e, b') \<Rightarrow> (([], Some e), b')
     | (None, b') \<Rightarrow> let m = min n (wpos b' - rpos b') in
         ((buf_slice (rpos b') (rpos b' + m) (rd_buf b'), None), b'\<lparr>rpos := rpos b' + m\<rparr>))"
proof (cases "prepare b")
  case (Pair x b')
  then have ok: "rd_ok b'"
    using prepare_ok assms(4) by blast
  then have "length (buf_slice (rpos b') (wpos b') (rd_buf b')) = wpos b' - rpos b'"
    by (simp add: rd_ok_def byte_simps)
  moreover have "take n (buf_slice (rpos b') (wpos b') (rd_buf b'))
      = buf_slice (rpos b') (rpos b' + min n (wpos b' - rpos b')) (rd_buf b')"
    by (simp add: buf_slice_def)
  ultimately show ?thesis
    using assms Pair
    by (cases x) (auto simp: Read_def prepare_def Let_def min.commute split: if_splits)
qed

lemma Read_sound:
  assumes "rd_ok b" "0 < n" "Read n b = ((d, e), b')"
  shows "rd_ok b' \<and> rd_size b' = rd_size b \<and> length d \<le> n \<and>
    (e = None \<or> d \<noteq> [] \<longrightarrow> rd_rest b = d @ rd_rest b')"
proof (cases "rd_err b")
  case (Some x)
  then show ?thesis using assms by (auto simp: Read_def)
next
  case None
  show ?thesis
  proof (cases "buffered b = 0 \<and> rd_size b \<le> n")
    case True
    obtain d1 e1 src' where r: "source_Read n (rd_src b) = ((d1, e1), src')" by (metis surj_pair)
    have "rd_window b = []"
      using True length_rd_window [OF assms(1)] by simp
    then show ?thesis
      using assms None True r source_Read_bytes [OF r] Read_direct [OF None assms(2) _ _ r]
      by (auto simp: rd_ok_def rd_rest_def rd_window_def)
  next
    case False
    obtain x b1 where p: "prepare b = (x, b1)" by (metis surj_pair)
    have ok: "rd_ok b1" "rd_size b1 = rd_size b"
      using prepare_ok [OF assms(1) p] by auto
    note R = Read_buffered [OF None assms(2) _ assms(1)]
    show ?thesis
    proof (cases x)
      case x: None
      let ?m = "min n (wpos b1 - rpos b1)"
      have m: "rpos b1 + ?m \<le> wpos b1"
        using prepare_None(2) [OF assms(1) p [unfolded x]] by simp
      then show ?thesis
        using assms(3) False p x R advance_ok [OF ok(1) m] ok prepare_None(1) [OF assms(1) p [unfolded x]]
        by (auto simp: Let_def rd_ok_def byte_simps)
    next
      case (Some err)
      then show ?thesis
        using assms(3) False p R ok by auto
    qed
  qed
qed

lemma Read_live:
  assumes "rd_live b" "0 < n" "rd_rest b \<noteq> []"
  shows "\<exists>d b'. Read n b = ((d, None), b') \<and> d \<noteq> [] \<and> rd_live b'"
proof (cases "buffered b = 0 \<and> rd_size b \<le> n")
  case True
  have ok: "rd_ok b" "rd_err b = None" "reliable (rd_src b)"
    using assms(1) by (auto simp: rd_live_def)
  obtain d1 e1 src' where r: "source_Read n (rd_src b) = ((d1, e1), src')" by (metis surj_pair)
  have "source_bytes (rd_src b) \<noteq> []"
    using True length_rd_window [OF ok(1)] assms(3) by (simp add: rd_rest_def)
  then have "d1 \<noteq> [] \<and> e1 = None \<and> reliable src'"
    using reliable_Read [OF ok(3) r assms(2)] by blast
  then show ?thesis
    using True Read_direct [OF ok(2) assms(2) _ _ r] ok by (auto simp: rd_live_def rd_ok_def)
next
  case False
  have ok: "rd_ok b" "rd_err b = None"
    using assms(1) by (auto simp: rd_live_def)
  obtain b1 where p: "prepare b = (None, b1)" "rd_live b1"
    using prepare_live assms by blast
  have lt: "rpos b1 < wpos b1" "wpos b1 \<le> rd_size b1"
    using prepare_None(2) [OF ok(1) p(1)] p(2) by (auto simp: rd_live_def rd_ok_def)
  then have "buf_slice (rpos b1) (rpos b1 + min n (wpos b1 - rpos b1)) (rd_buf b1) \<noteq> []"
    using assms(2) by (simp add: buf_slice_def min_def)
  then show ?thesis
    using Read_buffered [OF ok(2) assms(2) _ ok(1)] False p advance_live [OF p(2)] lt
    by (auto simp: Let_def)
qed

lemma ReadFull_loop_sound:
  "ReadFull_loop n acc b = (r, b') \<Longrightarrow> rd_ok b \<Longrightarrow> length acc \<le> n \<Longrightarrow>
     rd_ok b' \<and> rd_size b' = rd_size b \<and>
     (\<forall>l. r = Inr l \<longrightarrow> acc @ rd_rest b = l @ rd_rest b' \<and> length l = n)"
proof (induction n acc b rule: ReadFull_loop.induct)
  case (1 n acc b)
  show ?case
  proof (cases "n \<le> length acc")
    case True
    then show ?thesis
      using 1(2,3,4) by (auto simp: ReadFull_loop.simps [of _ acc b])
  next
    case False
    obtain d e b1 where R: "Read (n - length acc) b = ((d, e), b1)" by (metis surj_pair)
    note S = Read_sound [OF 1(3) _ R]
    show ?thesis
    proof (cases e)
      case None
      show ?thesis
      proof (cases "d = [] \<and> b1 = b")
        case True
        then show ?thesis
          using 1(2,3) False R None ReadFull_loop.simps [of n acc b] by (auto split: if_splits)
      next
        case prog: False
        then have "ReadFull_loop n (acc @ d) b1 = (r, b')"
          using 1(2) False R None ReadFull_loop.simps [of n acc b] by (auto split: if_splits)
        note IH = 1(1) [OF False R [symmetric] refl None prog this]
        have S': "rd_ok b1" "rd_size b1 = rd_size b" "length (acc @ d) \<le> n" "rd_rest b = d @ rd_rest b1"
          using S False None by auto
        show ?thesis
          using IH [OF S'(1,3)] unfolding S'(2,4) append_assoc .
      qed
    next
      case (Some x)
      then show ?thesis
        using 1(2) False R S by (auto simp: ReadFull_loop.simps [of n acc b] split: if_splits)
    qed
  qed
qed

lemma ReadFull_loop_live:
  "rd_live b \<Longrightarrow> rd_rest b = l @ t \<Longrightarrow> n = length acc + length l \<Longrightarrow>
     \<exists>b'. ReadFull_loop n acc b = (Inr (acc @ l), b') \<and> rd_live b' \<and> rd_rest b' = t"
proof (induction l arbitrary: acc b rule: measure_induct_rule [where f = length])
  case (less l)
  show ?case
  proof (cases "l = []")
    case True
    then show ?thesis
      using less.prems by (simp add: ReadFull_loop.simps [of _ acc b])
  next
    case False
    have ok: "rd_ok b"
      using less.prems(1) by (simp add: rd_live_def)
    have n: "n - length acc = length l" "0 < n - length acc" "\<not> n \<le> length acc"
      using less.prems(3) False by auto
    obtain d b1 where R: "Read (n - length acc) b = ((d, None), b1)" "d \<noteq> []" "rd_live b1"
      using Read_live [OF less.prems(1) n(2)] less.prems(2) False by auto
    have S: "length d \<le> length l" "l @ t = d @ rd_rest b1"
      using Read_sound [OF ok n(2) R(1)] n(1) less.prems(2) by auto
    define m where "m = drop (length d) l"
    have m: "l = d @ m" "rd_rest b1 = m @ t"
    proof -
      have "d = take (length d) (l @ t)" "rd_rest b1 = drop (length d) (l @ t)"
        unfolding S(2) by simp_all
      then show "l = d @ m" "rd_rest b1 = m @ t"
        using S(1) append_take_drop_id [of "length d" l] by (simp_all add: m_def)
    qed
    have "\<exists>b'. ReadFull_loop n (acc @ d) b1 = (Inr ((acc @ d) @ m), b') \<and> rd_live b' \<and> rd_rest b' = t"
      using less.IH [of m b1 "acc @ d"] R m less.prems(3) by simp
    then show ?thesis
      using n R m(1) by (auto simp: ReadFull_loop.simps [of n acc b])
  qed
qed

lemma ReadFull_sound:
  assumes "rd_ok b" "ReadFull n b = (r, b')"
  shows "rd_ok b' \<and> rd_size b' = rd_size b"
    "r = Inr l \<Longrightarrow> 0 < n \<Longrightarrow> rd_rest b = l @ rd_rest b' \<and> length l = n"
  using assms ReadFull_loop_sound [of n "[]" b r b']
  by (auto simp: ReadFull_def split: option.splits if_splits)

section \<open>The reader as a byte stream\<close>

definition bufio_reader :: "breader reader_ops" where
  "bufio_reader = \<lparr>op_ReadByte = ReadByte, op_PeekByte = PeekByte, op_ReadSlice =
     (\<lambda>d b. case ReadSlice d b of ((l, None), b') \<Rightarrow> (Inr l, b') | ((l, Some e), b') \<Rightarrow> (Inl e, b')),
     op_ReadBytes = ReadBytes, op_ReadFull = ReadFull\<rparr>"

lemma ReadByte_ok: "rd_ok b \<Longrightarrow> ReadByte b = (r, b') \<Longrightarrow> rd_ok b' \<and> rd_size b' = rd_size b"
  using prepare_None(2) prepare_ok advance_ok(1) [of _ 1]
  by (fastforce simp: ReadByte_def with_byte_prepare split: option.splits prod.splits)

lemma PeekByte_ok: "rd_ok b \<Longrightarrow> PeekByte b = (r, b') \<Longrightarrow> rd_ok b' \<and> rd_size b' = rd_size b"
  using prepare_ok by (fastforce simp: PeekByte_def with_byte_prepare split: option.splits prod.splits)

interpretation bufio: byte_reader bufio_reader rd_ok rd_live rd_rest "\<lambda>b. rd_size b"
proof
  fix b assume "rd_live b"
  then show "rd_ok b" by (simp add: rd_live_def)
next
  fix b rc b'
  assume "rd_ok b" "op_ReadByte bufio_reader b = (rc, b')"
  then show "rd_ok b' \<and> rd_size b' = rd_size b" by (simp add: bufio_reader_def ReadByte_ok)
next
  fix b rc b'
  assume "rd_ok b" "op_PeekByte bufio_reader b = (rc, b')"
  then show "rd_ok b' \<and> rd_size b' = rd_size b" by (simp add: bufio_reader_def PeekByte_ok)
next
  fix b d rb b'
  assume "rd_ok b" "op_ReadSlice bufio_reader d b = (rb, b')"
  then show "rd_ok b' \<and> rd_size b' = rd_size b"
    using ReadSlice_ok by (fastforce simp: bufio_reader_def split: prod.splits option.splits)
next
  fix b d rb b'
  assume "rd_ok b" "op_ReadBytes bufio_reader d b = (rb, b')"
  then show "rd_ok b' \<and> rd_size b' = rd_size b"
    by (simp add: bufio_reader_def ReadBytes_def ReadBytes_loop_ok)
next
  fix b n rb b'
  assume "rd_ok b" "op_ReadFull bufio_reader n b = (rb, b')"
  then show "rd_ok b' \<and> rd_size b' = rd_size b"
    using ReadFull_sound(1) by (simp add: bufio_reader_def)
next
  fix b c b'
  assume "rd_ok b" "op_ReadByte bufio_reader b = (Inr c, b')"
  then show "rd_rest b = c # rd_rest b'"
    by (auto simp: bufio_reader_def ReadByte_def elim: with_byte_Inr)
next
  fix b c b'
  assume "rd_ok b" "op_PeekByte bufio_reader b = (Inr c, b')"
  then show "rd_rest b' = rd_rest b \<and> (\<exists>cs. rd_rest b = c # cs)"
    by (auto simp: bufio_reader_def PeekByte_def elim: with_byte_Inr)
next
  fix b d l b'
  assume "rd_ok b" "op_ReadSlice bufio_reader d b = (Inr l, b')"
  then show "rd_rest b = l @ rd_rest b' \<and> l \<noteq> [] \<and> last l = d \<and> d \<notin> set (butlast l)"
    using ReadSlice_sound(1) by (auto simp: bufio_reader_def split: prod.splits option.splits)
next
  fix b d l b'
  assume "rd_ok b" "op_ReadBytes bufio_reader d b = (Inr l, b')"
  then show "rd_rest b = l @ rd_rest b' \<and> l \<noteq> [] \<and> last l = d \<and> d \<notin> set (butlast l)"
    using ReadBytes_loop_sound [of "[]" d b l b'] by (simp add: bufio_reader_def ReadBytes_def)
next
  fix b n l b'
  assume "rd_ok b" "0 < n" "op_ReadFull bufio_reader n b = (Inr l, b')"
  then show "rd_rest b = l @ rd_rest b' \<and> length l = n"
    using ReadFull_sound(2) by (simp add: bufio_reader_def)
next
  fix b c cs
  assume "rd_live b" "rd_rest b = c # cs"
  from this obtain b' where "ReadByte b = (Inr c, b'\<lparr>rpos := rpos b' + 1\<rparr>)" "rd_live b'"
    "rpos b' < wpos b'" "rd_rest (b'\<lparr>rpos := rpos b' + 1\<rparr>) = cs"
    unfolding ReadByte_def by (rule with_byte_live)
  then show "\<exists>b'. op_ReadByte bufio_reader b = (Inr c, b') \<and> rd_live b' \<and> rd_rest b' = cs"
    using advance_live [of b' 1] by (simp add: bufio_reader_def)
next
  fix b c cs
  assume "rd_live b" "rd_rest b = c # cs"
  from this obtain b' where "PeekByte b = (Inr c, b')" "rd_live b'" "rd_rest b' = c # cs"
    unfolding PeekByte_def by (rule with_byte_live)
  then show "\<exists>b'. op_PeekByte bufio_reader b = (Inr c, b') \<and> rd_live b' \<and> rd_rest b' = c # cs"
    by (simp add: bufio_reader_def)
next
  fix b l d t
  assume "rd_live b" "rd_rest b = l @ d # t" "d \<notin> set l" "length l < rd_size b"
  then show "\<exists>b'. op_ReadSlice bufio_reader d b = (Inr (l @ [d]), b') \<and> rd_live b' \<and> rd_rest b' = t"
    using ReadSlice_loop_live [of b l d t]
    by (auto simp: bufio_reader_def ReadSlice_def rd_live_def)
next
  fix b l d t
  assume "rd_live b" "rd_rest b = l @ d # t" "d \<notin> set l"
  then show "\<exists>b'. op_ReadBytes bufio_reader d b = (Inr (l @ [d]), b') \<and> rd_live b' \<and> rd_rest b' = t"
    using ReadBytes_loop_live [of b l d t "[]"] by (simp add: bufio_reader_def ReadBytes_def)
next
  fix b l t n
  assume "rd_live b" "rd_rest b = l @ t" "l \<noteq> []" "n = length l"
  then show "\<exists>b'. op_ReadFull bufio_reader n b = (Inr l, b') \<and> rd_live b' \<and> rd_rest b' = t"
    using ReadFull_loop_live [of b l t n "[]"] by (simp add: bufio_reader_def ReadFull_def rd_live_def)
qed

lemma NewReaderSize_ok:
  "rd_ok (NewReaderSize src n)" "rd_rest (NewReaderSize src n) = source_bytes src"
  "rd_size (NewReaderSize src n) = nat (if n \<le> 0 then DefaultBufferSize else n)"
  "reliable src \<Longrightarrow> rd_live (NewReaderSize src n)"
  by (auto simp: NewReaderSize_def mk_reader_def zeros_def rd_ok_def rd_live_def rd_rest_def
      rd_window_def buf_slice_def DefaultBufferSize_def)

section \<open>The underlying io.Writer\<close>

type_synonym sink = "bytes \<times> (nat \<times> go_error option) list"

fun sink_Write :: "bytes \<Rightarrow> sink \<Rightarrow> (nat \<times> go_error option) \<times> sink" where
  "sink_Write p (acc, []) = ((length p, None), (acc @ p, []))"
| "sink_Write p (acc, (n, e) # cs) = ((min n (length p), e), (acc @ take n p, cs))"

text \<open>A sink that accepts every byte of every call.\<close>

definition accepting :: "sink \<Rightarrow> bool" where
  "accepting w \<longleftrightarrow> snd w = []"

section \<open>Writer\<close>

record bwriter =
  wr_err :: "go_error option"
  wr_buf :: bytes
  wr_sink :: sink
  wr_pos :: nat

definition NewWriterSize :: "sink \<Rightarrow> int \<Rightarrow> bwriter" where
  "NewWriterSize w sz = \<lparr>wr_err = None, wr_buf = zeros (if sz \<le> 0 then DefaultBufferSize else sz),
     wr_sink = w, wr_pos = 0\<rparr>"

definition NewWriter :: "sink \<Rightarrow> bwriter" where
  "NewWriter w = NewWriterSize w DefaultBufferSize"

definition NewWriterBuffer :: "sink \<Rightarrow> bytes \<Rightarrow> bwriter" where
  "NewWriterBuffer w buf = \<lparr>wr_err = None,
     wr_buf = (if buf = [] then zeros DefaultBufferSize else buf), wr_sink = w, wr_pos = 0\<rparr>"

definition flush :: "bwriter \<Rightarrow> go_error option \<times> bwriter" where
  "flush b = (case wr_err b of Some e \<Rightarrow> (Some e, b) | None \<Rightarrow>
     if wr_pos b = 0 then (None, b)
     else let ((n, e), w) = sink_Write (take (wr_pos b) (wr_buf b)) (wr_sink b);
              b = b\<lparr>wr_sink := w\<rparr>;
              b = (case e of Some err \<Rightarrow> b\<lparr>wr_err := Some err\<rparr>
                   | None \<Rightarrow> if n < wr_pos b then b\<lparr>wr_err := Some ErrShortWrite\<rparr> else b\<lparr>wr_pos := 0\<rparr>)
          in (wr_err b, b))"

definition Flush :: "bwriter \<Rightarrow> go_error option \<times> bwriter" where
  "Flush b = flush b"

definition available :: "bwriter \<Rightarrow> nat" where
  "available b = length (wr_buf b) - wr_pos b"

text \<open>\<open>n := copy(b.buf[b.wpos:], p); b.wpos += n\<close>\<close>

definition buffer_in :: "bytes \<Rightarrow> bwriter \<Rightarrow> nat \<times> bwriter" where
  "buffer_in p b = (let n = min (available b) (length p) in
     (n, b\<lparr>wr_buf := write_at (wr_buf b) (wr_pos b) (take n p), wr_pos := wr_pos b + n\<rparr>))"

lemma sink_Write_props:
  assumes "sink_Write p w = ((n, e), w')"
  shows "n \<le> length p" "fst w' = fst w @ take n p"
    "length (snd w') < length (snd w) \<or> n = length p \<and> e = None \<and> snd w' = [] \<and> snd w = []"
  using assms by (cases "(p, w)" rule: sink_Write.cases; auto simp: min_def split: if_splits)+

lemma flush_cases:
  assumes "flush b = (r, b')"
  obtains e where "wr_err b = Some e" "r = Some e" "b' = b"
  | "wr_err b = None" "wr_pos b = 0" "r = None" "b' = b"
  | n e w x where "wr_err b = None" "wr_pos b \<noteq> 0" "r = Some x"
      "sink_Write (take (wr_pos b) (wr_buf b)) (wr_sink b) = ((n, e), w)"
      "b' = b\<lparr>wr_sink := w, wr_err := Some x\<rparr>" "e \<noteq> None \<or> n < wr_pos b"
  | n w where "wr_err b = None" "wr_pos b \<noteq> 0" "r = None"
      "sink_Write (take (wr_pos b) (wr_buf b)) (wr_sink b) = ((n, None), w)" "wr_pos b \<le> n"
      "b' = b\<lparr>wr_sink := w, wr_pos := 0\<rparr>"
proof (cases "wr_err b")
  case None
  obtain n e w where r: "sink_Write (take (wr_pos b) (wr_buf b)) (wr_sink b) = ((n, e), w)"
    by (metis surj_pair)
  show ?thesis
  proof (cases "wr_pos b = 0")
    case pos: False
    show ?thesis
    proof (cases e)
      case e: None
      show ?thesis
      proof (cases "n < wr_pos b")
        case True
        then have "flush b = (Some ErrShortWrite, b\<lparr>wr_sink := w, wr_err := Some ErrShortWrite\<rparr>)"
          using None pos r e by (simp add: flush_def)
        then show ?thesis
          using that(3) [OF None pos _ r] assms True by simp
      next
        case False
        then have "flush b = (None, b\<lparr>wr_sink := w, wr_pos := 0\<rparr>)"
          using None pos r e by (simp add: flush_def)
        then show ?thesis
          using that(4) [OF None pos _ r [unfolded e]] assms False by simp
      qed
    next
      case (Some x)
      then have "flush b = (Some x, b\<lparr>wr_sink := w, wr_err := Some x\<rparr>)"
        using None pos r by (simp add: flush_def)
      then show ?thesis
        using that(3) [OF None pos _ r] assms Some by simp
    qed
  qed (use that(2) None assms in \<open>simp add: flush_def\<close>)
qed (use that(1) assms in \<open>simp add: flush_def\<close>)

lemma flush_script:
  assumes "flush b = (r, b')" "wr_err b = None"
  shows "wr_err b' = r"
    "r = None \<Longrightarrow> length (snd (wr_sink b')) < length (snd (wr_sink b)) \<or>
       wr_sink b' = wr_sink b \<and> wr_pos b' = wr_pos b \<and> wr_pos b = 0 \<or>
       snd (wr_sink b') = snd (wr_sink b) \<and> wr_pos b' = 0"
  using assms(1) by (cases rule: flush_cases; use assms(2) sink_Write_props(3) in \<open>fastforce\<close>)+

definition writer_measure :: "(bwriter \<times> bytes) rel" where
  "writer_measure = measures [\<lambda>(b, p). if wr_err b = None then 1 else 0,
     \<lambda>(b, p). length (snd (wr_sink b)), \<lambda>(b, p). if wr_pos b = 0 then 0 else 1, \<lambda>(b, p). length p]"

lemma wf_writer_measure [simp]: "wf writer_measure"
  by (simp add: writer_measure_def)

lemma direct_measure:
  assumes "((n, e), w) = sink_Write p (wr_sink b)" "wr_err b = None" "p \<noteq> []"
  shows "((b\<lparr>wr_sink := w, wr_err := e\<rparr>, drop n p), (b, p)) \<in> writer_measure"
  using sink_Write_props(3) [OF assms(1) [symmetric]] assms(2,3) by (auto simp: writer_measure_def)

lemma buffered_measure:
  assumes "(n, b1) = buffer_in p b" "wr_err b = None" "wr_pos b1 \<noteq> 0" "available b < length p"
  shows "((snd (flush b1), drop n p), (b, p)) \<in> writer_measure"
proof -
  obtain r b' where f: "flush b1 = (r, b')" by (metis surj_pair)
  have b1: "wr_err b1 = None" "wr_sink b1 = wr_sink b" "wr_pos b1 = wr_pos b + n" "n \<le> length p"
    using assms(1,2) by (auto simp: buffer_in_def Let_def)
  have "wr_pos b = 0 \<Longrightarrow> length p - n < length p"
    using assms(3) b1 by simp
  then show ?thesis
    using flush_script [OF f b1(1)] b1 assms(2,3) f
    by (cases r) (auto simp: writer_measure_def)
qed

text \<open>The loops of \<open>Write\<close> and \<open>WriteString\<close> differ in one thing: \<open>Write\<close> hands a large \<open>p\<close>
  straight to the sink when nothing is buffered.\<close>

function Write_loop :: "nat \<Rightarrow> bytes \<Rightarrow> bwriter \<Rightarrow> (nat \<times> bytes) \<times> bwriter" where
  "Write_loop nn p b =
     (if wr_err b = None \<and> available b < length p then
        if wr_pos b = 0 then
          case sink_Write p (wr_sink b) of ((n, e), w) \<Rightarrow>
            Write_loop (nn + n) (drop n p) (b\<lparr>wr_sink := w, wr_err := e\<rparr>)
        else
          case buffer_in p b of (n, b1) \<Rightarrow> Write_loop (nn + n) (drop n p) (snd (flush b1))
      else ((nn, p), b))"
  by pat_completeness auto
termination
  by (relation "inv_image writer_measure (\<lambda>(nn, p, b). (b, p))")
    (auto intro!: direct_measure buffered_measure simp: buffer_in_def Let_def)

declare Write_loop.simps [simp del]

definition Write :: "bytes \<Rightarrow> bwriter \<Rightarrow> (nat \<times> go_error option) \<times> bwriter" where
  "Write p b = (let ((nn, p), b) = Write_loop 0 p b in
     if wr_err b \<noteq> None \<or> p = [] then ((nn, wr_err b), b)
     else let (n, b) = buffer_in p b in ((nn + n, None), b))"

definition WriteByte :: "char \<Rightarrow> bwriter \<Rightarrow> go_error option \<times> bwriter" where
  "WriteByte c b = (case wr_err b of Some e \<Rightarrow> (Some e, b) | None \<Rightarrow>
     (case (if available b = 0 then flush b else (None, b)) of
        (Some e, b') \<Rightarrow> (Some e, b')
      | (None, b') \<Rightarrow> (None, b'\<lparr>wr_buf := write_at (wr_buf b') (wr_pos b') [c], wr_pos := wr_pos b' + 1\<rparr>)))"

text \<open>With nothing buffered and no room, which an empty buffer alone can give, the loop of
  \<open>WriteString\<close> does not end: the error \<open>NoReturn\<close>. No constructor makes such a writer.\<close>

function WriteString_loop :: "nat \<Rightarrow> bytes \<Rightarrow> bwriter \<Rightarrow> (nat \<times> bytes) \<times> bwriter" where
  "WriteString_loop nn p b =
     (if wr_err b = None \<and> available b < length p then
        case buffer_in p b of (n, b1) \<Rightarrow>
          if wr_pos b1 = 0 then ((nn, p), b\<lparr>wr_err := Some NoReturn\<rparr>)
          else WriteString_loop (nn + n) (drop n p) (snd (flush b1))
      else ((nn, p), b))"
  by pat_completeness auto
termination
  by (relation "inv_image writer_measure (\<lambda>(nn, p, b). (b, p))")
    (auto intro: buffered_measure)

declare WriteString_loop.simps [simp del]

definition WriteString :: "bytes \<Rightarrow> bwriter \<Rightarrow> (nat \<times> go_error option) \<times> bwriter" where
  "WriteString p b = (let ((nn, p), b) = WriteString_loop 0 p b in
     if wr_err b \<noteq> None \<or> p = [] then ((nn, wr_err b), b)
     else let (n, b) = buffer_in p b in ((nn + n, None), b))"

definition wr_ok :: "bwriter \<Rightarrow> bool" where
  "wr_ok b \<longleftrightarrow> wr_pos b \<le> length (wr_buf b) \<and> wr_buf b \<noteq> []"

definition wr_sent :: "bwriter \<Rightarrow> bytes" where
  "wr_sent b = fst (wr_sink b) @ take (wr_pos b) (wr_buf b)"

definition wr_live :: "bwriter \<Rightarrow> bool" where
  "wr_live b \<longleftrightarrow> wr_ok b \<and> wr_err b = None \<and> accepting (wr_sink b)"

lemma buffer_in_ok:
  assumes "wr_ok b" "buffer_in p b = (n, b1)"
  shows "n = min (available b) (length p)" "wr_ok b1" "wr_sent b1 = wr_sent b @ take n p"
    "wr_err b1 = wr_err b" "wr_sink b1 = wr_sink b" "wr_pos b1 = wr_pos b + n"
proof -
  have b1: "n = min (available b) (length p)"
    "b1 = b\<lparr>wr_buf := write_at (wr_buf b) (wr_pos b) (take n p), wr_pos := wr_pos b + n\<rparr>"
    using assms(2) by (auto simp: buffer_in_def Let_def)
  then have fit: "wr_pos b + length (take n p) \<le> length (wr_buf b)" "length (take n p) = n"
    using assms(1) by (auto simp: wr_ok_def available_def)
  show "n = min (available b) (length p)" by (rule b1(1))
  show "wr_ok b1" "wr_sent b1 = wr_sent b @ take n p"
    "wr_err b1 = wr_err b" "wr_sink b1 = wr_sink b" "wr_pos b1 = wr_pos b + n"
    using assms(1) fit take_write_at [OF fit(1)]
    by (simp_all add: b1(2) wr_ok_def wr_sent_def length_write_at [OF fit(1)] write_at_eq_Nil [OF fit(1)])
qed

lemma flush_ok:
  assumes "wr_ok b" "flush b = (r, b')"
  shows "wr_ok b'" "wr_err b' = r"
    "r = None \<Longrightarrow> wr_sent b' = wr_sent b \<and> fst (wr_sink b') = wr_sent b \<and> wr_pos b' = 0"
proof -
  have "wr_ok b' \<and> wr_err b' = r \<and>
    (r = None \<longrightarrow> wr_sent b' = wr_sent b \<and> fst (wr_sink b') = wr_sent b \<and> wr_pos b' = 0)"
    using assms(2)
  proof (cases rule: flush_cases)
    case (4 n w)
    then show ?thesis
      using assms(1) sink_Write_props(1,2) [OF 4(4)] by (simp add: wr_ok_def wr_sent_def)
  qed (use assms(1) in \<open>simp_all add: wr_ok_def wr_sent_def\<close>)
  then show "wr_ok b'" "wr_err b' = r"
    "r = None \<Longrightarrow> wr_sent b' = wr_sent b \<and> fst (wr_sink b') = wr_sent b \<and> wr_pos b' = 0"
    by auto
qed

lemma flush_live:
  assumes "wr_live b"
  shows "\<exists>b'. flush b = (None, b') \<and> wr_live b'"
proof -
  have ok: "wr_ok b" "wr_err b = None" "snd (wr_sink b) = []"
    using assms by (auto simp: wr_live_def accepting_def)
  obtain acc where w: "wr_sink b = (acc, [])"
    using ok(3) by (metis prod.collapse)
  then have "\<exists>b'. flush b = (None, b') \<and> accepting (wr_sink b')"
    using ok by (auto simp: flush_def wr_ok_def accepting_def)
  then show ?thesis
    using flush_ok [OF ok(1)] by (auto simp: wr_live_def)
qed

lemma buffer_in_live: "wr_live b \<Longrightarrow> buffer_in p b = (n, b1) \<Longrightarrow> wr_live b1"
  using buffer_in_ok [of b p n b1] by (simp add: wr_live_def)

text \<open>What a write loop did: it consumed the front \<open>q\<close> of \<open>p\<close>, in order, unless it failed, and
  left what fits.\<close>

definition wrote :: "nat \<Rightarrow> bytes \<Rightarrow> bwriter \<Rightarrow> (nat \<times> bytes) \<times> bwriter \<Rightarrow> bool" where
  "wrote nn p b r = (case r of ((nn', p'), b') \<Rightarrow> wr_ok b' \<and> (wr_live b \<longrightarrow> wr_live b') \<and>
     (wr_err b' = None \<longrightarrow> length p' \<le> available b' \<and>
       (\<exists>q. p = q @ p' \<and> wr_sent b' = wr_sent b @ q \<and> nn' = nn + length q)))"

lemma wrote_step:
  assumes "wrote (nn + n) (drop n p) b1 r" "n \<le> length p" "wr_live b \<Longrightarrow> wr_live b1"
    "wr_err (snd r) = None \<Longrightarrow> wr_sent b1 = wr_sent b @ take n p"
  shows "wrote nn p b r"
proof -
  obtain nn' p' b' where r: "r = ((nn', p'), b')" by (metis surj_pair)
  have "\<exists>q. p = q @ p' \<and> wr_sent b' = wr_sent b @ q \<and> nn' = nn + length q" if e: "wr_err b' = None"
  proof -
    obtain q where q: "drop n p = q @ p'" "wr_sent b' = wr_sent b1 @ q" "nn' = nn + n + length q"
      using assms(1) e by (auto simp: wrote_def r)
    then have "p = (take n p @ q) @ p'" 
      by (metis append.assoc append_take_drop_id)
    then show ?thesis
      using q assms(2,4) e r by (intro exI [of _ "take n p @ q"]) simp
  qed
  then show ?thesis
    using assms(1,3) by (auto simp: wrote_def r)
qed

lemma Write_loop_stop:
  "wr_err b \<noteq> None \<Longrightarrow> Write_loop nn p b = ((nn, p), b)"
  "wr_err b \<noteq> None \<Longrightarrow> WriteString_loop nn p b = ((nn, p), b)"
  by (auto simp: Write_loop.simps [of nn p b] WriteString_loop.simps [of nn p b])

lemma flushed_in:
  assumes "wr_ok b" "buffer_in p b = (n, b1)"
  shows "n \<le> length p" "wr_ok (snd (flush b1))" "wr_live b \<Longrightarrow> wr_live (snd (flush b1))"
    "wr_err (snd (flush b1)) = None \<Longrightarrow> wr_sent (snd (flush b1)) = wr_sent b @ take n p"
proof -
  note B = buffer_in_ok [OF assms]
  obtain r b' where f: "flush b1 = (r, b')" by (metis surj_pair)
  show "n \<le> length p" "wr_ok (snd (flush b1))" 
    using B flush_ok [OF B(2) f] f by auto
  show "wr_err (snd (flush b1)) = None \<Longrightarrow> wr_sent (snd (flush b1)) = wr_sent b @ take n p"
    using B flush_ok [OF B(2) f] f by auto
  show "wr_live (snd (flush b1))" if "wr_live b"
    using flush_live [OF buffer_in_live [OF that assms(2)]] by auto
qed

lemma Write_loop_wrote: "wr_ok b \<Longrightarrow> wrote nn p b (Write_loop nn p b)"
proof (induction nn p b rule: Write_loop.induct)
  case (1 nn p b)
  show ?case
  proof (cases "wr_err b = None \<and> available b < length p")
    case False
    then show ?thesis
      using 1(3) by (auto simp: Write_loop.simps [of nn p b] wrote_def)
  next
    case go: True
    show ?thesis
    proof (cases "wr_pos b = 0")
      case True
      obtain n e w where s: "sink_Write p (wr_sink b) = ((n, e), w)" by (metis surj_pair)
      let ?b = "b\<lparr>wr_sink := w, wr_err := e\<rparr>"
      have L: "Write_loop nn p b = Write_loop (nn + n) (drop n p) ?b"
        using go True s by (simp add: Write_loop.simps [of nn p b])
      have "wrote (nn + n) (drop n p) ?b (Write_loop (nn + n) (drop n p) ?b)"
        using 1(1) [OF go True s [symmetric] refl] 1(3) by (simp add: wr_ok_def)
      then show ?thesis
        unfolding L
      proof (rule wrote_step)
        show "n \<le> length p" "wr_sent ?b = wr_sent b @ take n p"
          using sink_Write_props [OF s] True by (simp_all add: wr_sent_def)
        show "wr_live b \<Longrightarrow> wr_live ?b"
          using sink_Write_props(3) [OF s] by (auto simp: wr_live_def wr_ok_def accepting_def)
      qed
    next
      case False
      obtain n b1 where s: "buffer_in p b = (n, b1)" by (metis surj_pair)
      note F = flushed_in [OF 1(3) s]
      have L: "Write_loop nn p b = Write_loop (nn + n) (drop n p) (snd (flush b1))"
        using go False s by (simp add: Write_loop.simps [of nn p b])
      have "wrote (nn + n) (drop n p) (snd (flush b1)) (Write_loop (nn + n) (drop n p) (snd (flush b1)))"
        using 1(2) [OF go False s [symmetric]] F(2) by simp
      then show ?thesis
        unfolding L by (rule wrote_step) (use F Write_loop_stop(1) in fastforce)+
    qed
  qed
qed

lemma WriteString_loop_wrote: "wr_ok b \<Longrightarrow> wrote nn p b (WriteString_loop nn p b)"
proof (induction nn p b rule: WriteString_loop.induct)
  case (1 nn p b)
  show ?case
  proof (cases "wr_err b = None \<and> available b < length p")
    case False
    then show ?thesis
      using 1(2) by (auto simp: WriteString_loop.simps [of nn p b] wrote_def)
  next
    case go: True
    obtain n b1 where s: "buffer_in p b = (n, b1)" by (metis surj_pair)
    note F = flushed_in [OF 1(2) s]
    have pos: "wr_pos b1 \<noteq> 0"
      using buffer_in_ok(1,6) [OF 1(2) s] go 1(2) by (auto simp: wr_ok_def available_def)
    have L: "WriteString_loop nn p b = WriteString_loop (nn + n) (drop n p) (snd (flush b1))"
      using go s pos by (simp add: WriteString_loop.simps [of nn p b])
    have "wrote (nn + n) (drop n p) (snd (flush b1)) (WriteString_loop (nn + n) (drop n p) (snd (flush b1)))"
      using 1(1) [OF go s [symmetric] pos] F(2) by simp
    then show ?thesis
      unfolding L by (rule wrote_step) (use F Write_loop_stop(2) in fastforce)+
  qed
qed

text \<open>What \<open>Write\<close> and \<open>WriteString\<close> do after their loop: buffer what is left.\<close>

definition finish_write :: "(nat \<times> bytes) \<times> bwriter \<Rightarrow> (nat \<times> go_error option) \<times> bwriter" where
  "finish_write r = (let ((nn, p), b) = r in
     if wr_err b \<noteq> None \<or> p = [] then ((nn, wr_err b), b)
     else let (n, b) = buffer_in p b in ((nn + n, None), b))"

lemma Write_finish: "Write p b = finish_write (Write_loop 0 p b)"
  by (simp add: Write_def finish_write_def)

lemma WriteString_finish: "WriteString p b = finish_write (WriteString_loop 0 p b)"
  by (simp add: WriteString_def finish_write_def)

lemma finish_wrote:
  assumes "wrote 0 p b r" "finish_write r = ((nn, e), b')"
  shows "wr_ok b'" "wr_live b \<Longrightarrow> wr_live b' \<and> e = None"
    "e = None \<Longrightarrow> wr_sent b' = wr_sent b @ p \<and> nn = length p"
proof -
  obtain n1 p1 b1 where r: "r = ((n1, p1), b1)" by (metis surj_pair)
  have ok: "wr_ok b1" and live: "wr_live b \<Longrightarrow> wr_live b1"
    using assms(1) by (auto simp: wrote_def r)
  obtain n2 b2 where s: "buffer_in p1 b1 = (n2, b2)" by (metis surj_pair)
  note B = buffer_in_ok [OF ok s]
  have "wr_ok b' \<and> (wr_live b \<longrightarrow> wr_live b' \<and> e = None) \<and>
    (e = None \<longrightarrow> wr_sent b' = wr_sent b @ p \<and> nn = length p)"
  proof (cases "wr_err b1 \<noteq> None \<or> p1 = []")
    case True
    then show ?thesis
      using assms(2) ok live assms(1) by (auto simp: finish_write_def r wrote_def wr_live_def)
  next
    case False
    then have e: "e = None" "b' = b2" "nn = n1 + n2"
      using assms(2) s by (auto simp: finish_write_def r)
    show ?thesis
      using B e False assms(1) live buffer_in_live [OF _ s] by (auto simp: wrote_def r)
  qed
  then show "wr_ok b'" "wr_live b \<Longrightarrow> wr_live b' \<and> e = None"
    "e = None \<Longrightarrow> wr_sent b' = wr_sent b @ p \<and> nn = length p"
    by auto
qed

lemmas Write_wrote = finish_wrote [OF Write_loop_wrote, folded Write_finish]
lemmas WriteString_wrote = finish_wrote [OF WriteString_loop_wrote, folded WriteString_finish]

lemma WriteByte_ok:
  assumes "wr_ok b" "WriteByte c b = (e, b')"
  shows "wr_ok b'" "wr_live b \<Longrightarrow> wr_live b' \<and> e = None" "e = None \<Longrightarrow> wr_sent b' = wr_sent b @ [c]"
proof -
  have put: "wr_ok (x\<lparr>wr_buf := write_at (wr_buf x) (wr_pos x) [c], wr_pos := wr_pos x + 1\<rparr>) \<and>
      wr_sent (x\<lparr>wr_buf := write_at (wr_buf x) (wr_pos x) [c], wr_pos := wr_pos x + 1\<rparr>) = wr_sent x @ [c]"
    if "wr_ok x" "available x \<noteq> 0" for x
    using that take_write_at [of "wr_pos x" "[c]" "wr_buf x"]
    by (auto simp: wr_ok_def wr_sent_def available_def length_write_at write_at_eq_Nil)
  have room: "available x \<noteq> 0" if "wr_ok x" "wr_pos x = 0" for x
    using that by (simp add: wr_ok_def available_def)
  obtain r b1 where f: "(if available b = 0 then flush b else (None, b)) = (r, b1)" by (metis surj_pair)
  have ok: "wr_ok b1" and sent: "r = None \<Longrightarrow> wr_sent b1 = wr_sent b \<and> available b1 \<noteq> 0"
    using f assms(1) flush_ok [OF assms(1), of r b1] room by (auto split: if_splits)
  have live: "wr_live b \<Longrightarrow> r = None \<and> wr_live b1"
    using f flush_live [of b] by (auto split: if_splits)
  show "wr_ok b'" "wr_live b \<Longrightarrow> wr_live b' \<and> e = None" "e = None \<Longrightarrow> wr_sent b' = wr_sent b @ [c]"
    using assms f ok sent live put [OF ok]
    by (cases "wr_err b"; cases r; auto simp: WriteByte_def wr_live_def)+
qed

definition bufio_writer :: "bwriter writer_ops" where
  "bufio_writer = \<lparr>op_Write = (\<lambda>p b. case Write p b of ((n, e), b') \<Rightarrow> (e, b')),
     op_WriteByte = WriteByte,
     op_WriteString = (\<lambda>p b. case WriteString p b of ((n, e), b') \<Rightarrow> (e, b')),
     op_Flush = Flush\<rparr>"

interpretation bufio: byte_writer bufio_writer wr_ok wr_live wr_sent "\<lambda>b. fst (wr_sink b)"
proof
  fix b assume "wr_live b"
  then show "wr_ok b" by (simp add: wr_live_def)
next
  fix b p b'
  assume "wr_ok b" "op_Write bufio_writer p b = (None, b')"
  then show "wr_ok b' \<and> wr_sent b' = wr_sent b @ p"
    using Write_wrote by (auto simp: bufio_writer_def split: prod.splits)
next
  fix b c b'
  assume "wr_ok b" "op_WriteByte bufio_writer c b = (None, b')"
  then show "wr_ok b' \<and> wr_sent b' = wr_sent b @ [c]"
    using WriteByte_ok by (auto simp: bufio_writer_def)
next
  fix b p b'
  assume "wr_ok b" "op_WriteString bufio_writer p b = (None, b')"
  then show "wr_ok b' \<and> wr_sent b' = wr_sent b @ p"
    using WriteString_wrote by (auto simp: bufio_writer_def split: prod.splits)
next
  fix b b'
  assume b: "wr_ok b" "op_Flush bufio_writer b = (None, b')"
  then have "flush b = (None, b')" by (simp add: bufio_writer_def Flush_def)
  then show "wr_ok b' \<and> wr_sent b' = wr_sent b \<and> fst (wr_sink b') = wr_sent b'"
    using flush_ok [OF b(1)] by simp
next
  fix b p
  assume "wr_live b"
  then show "\<exists>b'. op_Write bufio_writer p b = (None, b') \<and> wr_live b'"
    using Write_wrote(2) [of b p] by (auto simp: bufio_writer_def wr_live_def split: prod.splits)
next
  fix b c
  assume "wr_live b"
  then show "\<exists>b'. op_WriteByte bufio_writer c b = (None, b') \<and> wr_live b'"
    using WriteByte_ok(2) [of b c] by (cases "WriteByte c b") (auto simp: bufio_writer_def wr_live_def)
next
  fix b p
  assume "wr_live b"
  then show "\<exists>b'. op_WriteString bufio_writer p b = (None, b') \<and> wr_live b'"
    using WriteString_wrote(2) [of b p] by (auto simp: bufio_writer_def wr_live_def split: prod.splits)
next
  fix b assume "wr_live b"
  then show "\<exists>b'. op_Flush bufio_writer b = (None, b') \<and> wr_live b'"
    using flush_live by (simp add: bufio_writer_def Flush_def)
qed

lemma finish_write_err: "finish_write r = ((n, Some e), b) \<Longrightarrow> wr_err b = Some e"
  by (auto simp: finish_write_def Let_def split: prod.splits if_splits)

lemma finish_write_stop: "wr_err b \<noteq> None \<Longrightarrow> finish_write ((n, p), b) = ((n, wr_err b), b)"
  by (simp add: finish_write_def)

interpretation bufio_sticky: sticky_writer bufio_writer wr_ok wr_live wr_sent "\<lambda>b. fst (wr_sink b)"
    "\<lambda>b. wr_err b \<noteq> None"
proof
  fix p b e b'
  assume "op_Write bufio_writer p b = (Some e, b')"
  then show "wr_err b' \<noteq> None"
    by (auto simp: bufio_writer_def Write_finish dest: finish_write_err split: prod.splits)
next
  fix p b e b'
  assume "op_WriteString bufio_writer p b = (Some e, b')"
  then show "wr_err b' \<noteq> None"
    by (auto simp: bufio_writer_def WriteString_finish dest: finish_write_err split: prod.splits)
next
  fix b p r b'
  assume "wr_err b \<noteq> None" "op_Write bufio_writer p b = (r, b')"
  then show "r \<noteq> None \<and> wr_err b' \<noteq> None"
    by (auto simp: bufio_writer_def Write_finish Write_loop_stop finish_write_stop)
next
  fix b p r b'
  assume "wr_err b \<noteq> None" "op_WriteString bufio_writer p b = (r, b')"
  then show "r \<noteq> None \<and> wr_err b' \<noteq> None"
    by (auto simp: bufio_writer_def WriteString_finish Write_loop_stop finish_write_stop)
qed

lemma NewWriterSize_ok:
  "wr_ok (NewWriterSize w n)" "wr_sent (NewWriterSize w n) = fst w"
  "accepting w \<Longrightarrow> wr_live (NewWriterSize w n)"
  by (auto simp: NewWriterSize_def zeros_def wr_ok_def wr_sent_def wr_live_def DefaultBufferSize_def)

section \<open>Slice allocation\<close>

text \<open>\<open>slice.go\<close>: \<open>Make\<close> cuts small slices off a shared block of 8192 bytes. A negative \<open>n\<close> panics
  in the code (a slice bound out of range). \<open>make([]byte, n)\<close> itself is modelled by \<open>zeros\<close>.\<close>

definition sliceAlloc_Make :: "int \<Rightarrow> bytes \<Rightarrow> (bytes \<times> bytes) outcome" where
  "sliceAlloc_Make n buf =
     (if n = 0 then Ret ([], buf)
      else if 512 \<le> n then Ret (zeros n, buf)
      else let buf = (if int (length buf) < n then zeros 8192 else buf)
           in if n < 0 then Panic ''slice bounds out of range''
              else Ret (take (nat n) buf, drop (nat n) buf))"

lemma sliceAlloc_Make_length:
  assumes "0 \<le> n"
  shows "\<exists>ss buf'. sliceAlloc_Make n buf = Ret (ss, buf') \<and> int (length ss) = n"
  using assms by (auto simp: sliceAlloc_Make_def zeros_def Let_def)

end
