(* ===== verification/Credis_Encoder.thy ===== *)
theory Credis_Encoder
  imports Credis_Resp Bufio2
begin

text \<open>
  \<open>utils/resparse/credis/encoder.go\<close>, over any writer of a byte stream. The table of preformatted
  integers is built the way \<open>init\<close> builds it; \<open>itoa_FormatInt\<close> shows the table is right.
\<close>

section \<open>The itoa table\<close>

definition minItoa :: int where "minItoa = -128"
definition maxItoa :: int where "maxItoa = 32768"

text \<open>After \<open>n\<close> turns of \<open>init\<close>'s loop: the offsets stored so far and the buffer.\<close>

primrec itoa_init :: "nat \<Rightarrow> nat list \<times> bytes" where
  "itoa_init 0 = ([], [])"
| "itoa_init (Suc n) = (case itoa_init n of (offs, buf) \<Rightarrow>
     (offs @ [length buf mod 2 ^ 32], buf @ FormatInt (int n + minItoa)))"

definition itoaOffset :: "nat list" where
  "itoaOffset = fst (itoa_init (nat (maxItoa - minItoa + 1)))"

definition itoaBuffer :: bytes where
  "itoaBuffer = snd (itoa_init (nat (maxItoa - minItoa + 1)))"

definition itoa :: "int \<Rightarrow> bytes" where
  "itoa i =
     (if minItoa \<le> i \<and> i \<le> maxItoa then
        let beg = itoaOffset ! nat (i - minItoa)
        in if i = maxItoa then drop beg itoaBuffer
           else let e = itoaOffset ! nat (i - minItoa + 1) in buf_slice beg e itoaBuffer
      else FormatInt i)"

text \<open>The offset of an entry is the length of all entries before it.\<close>

definition itoa_prefix :: "nat \<Rightarrow> bytes" where
  "itoa_prefix n = concat (map (\<lambda>k. FormatInt (int k + minItoa)) [0..<n])"

lemma itoa_init_buf: "snd (itoa_init n) = itoa_prefix n"
  by (induction n) (auto simp: itoa_prefix_def split: prod.splits)

lemma itoa_init_offs:
  "length (fst (itoa_init n)) = n \<and>
   (\<forall>k < n. fst (itoa_init n) ! k = length (itoa_prefix k) mod 2 ^ 32)"
proof (induction n)
  case (Suc n)
  then show ?case
    using itoa_init_buf [of n]
    by (auto simp: nth_append less_Suc_eq split: prod.splits)
qed simp

lemma itoa_prefix_bound: "int n \<le> maxItoa - minItoa + 1 \<Longrightarrow> length (itoa_prefix n) \<le> 20 * n"
proof (induction n)
  case (Suc n)
  have "in_int64 (int n + minItoa)"
    using Suc.prems by (simp add: in_int64_def maxItoa_def minItoa_def)
  then have "length (FormatInt (int n + minItoa)) \<le> 20"
    by (rule FormatInt_length)
  then show ?case
    using Suc by (simp add: itoa_prefix_def)
qed (simp add: itoa_prefix_def)

lemma itoaOffset_nth:
  assumes "int k \<le> maxItoa - minItoa"
  shows "itoaOffset ! k = length (itoa_prefix k)"
proof -
  have "length (itoa_prefix k) \<le> 20 * k"
    using assms itoa_prefix_bound by simp
  also have "\<dots> < 2 ^ 32"
    using assms by (simp add: maxItoa_def minItoa_def)
  finally show ?thesis
    using assms itoa_init_offs [of "nat (maxItoa - minItoa + 1)"] by (simp add: itoaOffset_def)
qed

lemma itoa_prefix_Suc: "itoa_prefix (Suc k) = itoa_prefix k @ FormatInt (int k + minItoa)"
  by (simp add: itoa_prefix_def)

lemma itoa_prefix_split: "k \<le> n \<Longrightarrow> \<exists>t. itoa_prefix n = itoa_prefix k @ t"
  by (induction n) (auto simp: itoa_prefix_Suc le_Suc_eq)

lemma itoa_table: "itoa i = FormatInt i"
proof (cases "minItoa \<le> i \<and> i \<le> maxItoa")
  case True
  define k where "k = nat (i - minItoa)"
  define n where "n = nat (maxItoa - minItoa + 1)"
  have k: "int k \<le> maxItoa - minItoa" "int k + minItoa = i" "Suc k \<le> n"
    using True by (auto simp: k_def n_def maxItoa_def minItoa_def)
  have buf: "itoaBuffer = itoa_prefix n"
    by (simp add: itoaBuffer_def n_def itoa_init_buf)
  obtain t where t: "itoaBuffer = itoa_prefix k @ FormatInt i @ t"
    using itoa_prefix_split [OF k(3)] k(2) by (auto simp: buf itoa_prefix_Suc)
  show ?thesis
  proof (cases "i = maxItoa")
    case max: True
    then have "n = Suc k"
      using True by (simp add: k_def n_def)
    then have "drop (length (itoa_prefix k)) itoaBuffer = FormatInt i"
      using k(2) by (simp add: buf itoa_prefix_Suc)
    then show ?thesis
      using True max itoaOffset_nth [OF k(1)] by (simp add: itoa_def k_def)
  next
    case False
    then have "int (Suc k) \<le> maxItoa - minItoa" "nat (i - minItoa + 1) = Suc k"
      using True unfolding k_def by linarith+
    moreover from this have "buf_slice (itoaOffset ! k) (itoaOffset ! Suc k) itoaBuffer = FormatInt i"
      using itoaOffset_nth [OF k(1)] itoaOffset_nth [of "Suc k"] k(2)
      by (simp add: itoa_prefix_Suc t buf_slice_def)
    ultimately show ?thesis
      using True False by (simp add: itoa_def k_def Let_def)
  qed
qed (auto simp: itoa_def)

section \<open>Encoding\<close>

text \<open>A call of the writer whose error is traced.\<close>

definition put :: "('s \<Rightarrow> go_error option \<times> 's) \<Rightarrow> ('s, go_error, unit) io" where
  "put w s = (case w s of (None, s') \<Rightarrow> (Inr (), s') | (Some e, s') \<Rightarrow> (Inl (Trace e), s'))"

definition encodeTextBytes :: "'s writer_ops \<Rightarrow> bytes \<Rightarrow> ('s, go_error, unit) io" where
  "encodeTextBytes ops b = bindIO (put (op_Write ops b)) (\<lambda>_. put (op_WriteString ops CRLF))"

definition encodeTextString :: "'s writer_ops \<Rightarrow> bytes \<Rightarrow> ('s, go_error, unit) io" where
  "encodeTextString ops s = bindIO (put (op_WriteString ops s)) (\<lambda>_. put (op_WriteString ops CRLF))"

definition encodeInt :: "'s writer_ops \<Rightarrow> int \<Rightarrow> ('s, go_error, unit) io" where
  "encodeInt ops v = encodeTextString ops (itoa v)"

definition encodeBulkBytes :: "'s writer_ops \<Rightarrow> bytes option \<Rightarrow> ('s, go_error, unit) io" where
  "encodeBulkBytes ops v = (case v of None \<Rightarrow> encodeInt ops (-1)
     | Some b \<Rightarrow> bindIO (encodeInt ops (int (length b))) (\<lambda>_. encodeTextBytes ops b))"

fun encodeResp :: "'s writer_ops \<Rightarrow> resp \<Rightarrow> ('s, go_error, unit) io"
and encode_items :: "'s writer_ops \<Rightarrow> resp list \<Rightarrow> ('s, go_error, unit) io"
where
  "encodeResp ops (Resp t v a) = bindIO (put (op_WriteByte ops t)) (\<lambda>_.
     if t \<in> text_types then encodeTextBytes ops (bytes_of v)
     else if t = TypeBulkBytes then encodeBulkBytes ops v
     else if t = TypeArray then
       (case a of None \<Rightarrow> encodeInt ops (-1)
        | Some rs \<Rightarrow> bindIO (encodeInt ops (int (length rs))) (\<lambda>_. encode_items ops rs))
     else failIO (Errorf (''bad resp type '' @ RespType_String t)))"
| "encode_items ops [] = returnIO ()"
| "encode_items ops (r # rs) = bindIO (encodeResp ops r) (\<lambda>_. encode_items ops rs)"

definition encodeArray :: "'s writer_ops \<Rightarrow> resp list option \<Rightarrow> ('s, go_error, unit) io" where
  "encodeArray ops a = (case a of None \<Rightarrow> encodeInt ops (-1)
     | Some rs \<Rightarrow> bindIO (encodeInt ops (int (length rs))) (\<lambda>_. encode_items ops rs))"

definition encodeMultiBulk :: "'s writer_ops \<Rightarrow> resp list option \<Rightarrow> ('s, go_error, unit) io" where
  "encodeMultiBulk ops multi = bindIO (put (op_WriteByte ops TypeArray)) (\<lambda>_. encodeArray ops multi)"

section \<open>Encoder\<close>

record 's encoder =
  enc_bw :: 's
  enc_Err :: "go_error option"

definition ErrFailedEncoder :: go_error where
  "ErrFailedEncoder = Sentinel ''use of failed encoder''"

definition NewEncoderBuffer :: "'s \<Rightarrow> 's encoder" where
  "NewEncoderBuffer bw = \<lparr>enc_bw = bw, enc_Err = None\<rparr>"

text \<open>\<open>Encode\<close> and \<open>EncodeMultiBulk\<close> share their body: the first error sticks, a later call is
  refused, and a flush follows on demand.\<close>

definition encode_with ::
    "'s writer_ops \<Rightarrow> ('s, go_error, unit) io \<Rightarrow> bool \<Rightarrow> 's encoder \<Rightarrow> go_error option \<times> 's encoder" where
  "encode_with ops m do_flush e =
     (case enc_Err e of Some _ \<Rightarrow> (Some (Trace ErrFailedEncoder), e)
      | None \<Rightarrow> (case m (enc_bw e) of
          (Inl err, s) \<Rightarrow> (Some err, \<lparr>enc_bw = s, enc_Err = Some err\<rparr>)
        | (Inr _, s) \<Rightarrow>
            if do_flush then case op_Flush ops s of
                (r, s') \<Rightarrow> (map_option Trace r, \<lparr>enc_bw = s', enc_Err = map_option Trace r\<rparr>)
            else (None, \<lparr>enc_bw = s, enc_Err = None\<rparr>)))"

definition Encode :: "'s writer_ops \<Rightarrow> resp \<Rightarrow> bool \<Rightarrow> 's encoder \<Rightarrow> go_error option \<times> 's encoder" where
  "Encode ops r = encode_with ops (encodeResp ops r)"

definition EncodeMultiBulk ::
    "'s writer_ops \<Rightarrow> resp list option \<Rightarrow> bool \<Rightarrow> 's encoder \<Rightarrow> go_error option \<times> 's encoder" where
  "EncodeMultiBulk ops multi = encode_with ops (encodeMultiBulk ops multi)"

definition Flush_encoder :: "'s writer_ops \<Rightarrow> 's encoder \<Rightarrow> go_error option \<times> 's encoder" where
  "Flush_encoder ops e = (case enc_Err e of Some _ \<Rightarrow> (Some (Trace ErrFailedEncoder), e)
     | None \<Rightarrow> (case op_Flush ops (enc_bw e) of
         (None, s) \<Rightarrow> (None, \<lparr>enc_bw = s, enc_Err = None\<rparr>)
       | (Some err, s) \<Rightarrow> (Some (Trace err), \<lparr>enc_bw = s, enc_Err = Some (Trace err)\<rparr>)))"

section \<open>What the encoder writes\<close>

text \<open>The types of a value and of everything in it are those of the protocol.\<close>

fun typed_resp :: "resp \<Rightarrow> bool" where
  "typed_resp (Resp t v a) \<longleftrightarrow> t \<in> text_types \<or> t = TypeBulkBytes \<or>
     (t = TypeArray \<and> (case a of None \<Rightarrow> True | Some rs \<Rightarrow> (\<forall>r \<in> set rs. typed_resp r)))"

lemma wf_typed: "wf_resp r \<Longrightarrow> typed_resp r"
proof (induction r)
  case (Resp t v a)
  then show ?case by (cases a) (auto split: if_splits)
qed

text \<open>A value that was encoded was typed: a type the protocol does not have ends in an error.\<close>

lemma encode_items_all:
  "encode_items ops rs s = (Inr u, s') \<Longrightarrow>
     (\<And>r s s'. r \<in> set rs \<Longrightarrow> encodeResp ops r s = (Inr (), s') \<Longrightarrow> P r) \<Longrightarrow> \<forall>r \<in> set rs. P r"
proof (induction rs arbitrary: s)
  case (Cons r rs)
  then obtain t where "encodeResp ops r s = (Inr (), t)" "encode_items ops rs t = (Inr u, s')"
    by (auto elim: bindIO_InrE)
  then show ?case using Cons.IH [of t] Cons.prems(2) by simp
qed simp

lemma encodeResp_typed: "encodeResp ops r s = (Inr (), s') \<Longrightarrow> typed_resp r"
proof (induction r arbitrary: s s')
  case (Resp t v a)
  consider "t \<in> text_types \<or> t = TypeBulkBytes" | "t = TypeArray"
    | "t \<notin> text_types" "t \<noteq> TypeBulkBytes" "t \<noteq> TypeArray"
    by blast
  then show ?case
  proof cases
    case 2
    have "typed_resp r" if a: "a = Some rs" and r: "r \<in> set rs" for rs r
    proof -
      obtain x y where "encode_items ops rs x = (Inr (), y)"
        using Resp.prems 2 a by (auto elim!: bindIO_InrE)
      then have "\<forall>r \<in> set rs. typed_resp r"
        using Resp.IH a by (intro encode_items_all) auto
      then show ?thesis using r by blast
    qed
    then show ?thesis using 2 by (auto split: option.splits)
  next
    case 3
    then show ?thesis
      using Resp.prems by (auto elim!: bindIO_InrE simp: failIO_def)
  qed auto
qed

context byte_writer
begin

definition appends :: "('s, go_error, unit) io \<Rightarrow> bytes \<Rightarrow> bool" where
  "appends m p \<longleftrightarrow> (\<forall>s s'. wok s \<longrightarrow> m s = (Inr (), s') \<longrightarrow> wok s' \<and> sent s' = sent s @ p)"

definition succeeds :: "('s, go_error, unit) io \<Rightarrow> bool" where
  "succeeds m \<longleftrightarrow> (\<forall>s. wlive s \<longrightarrow> (\<exists>s'. m s = (Inr (), s') \<and> wlive s'))"

lemma appends_bind:
  assumes "appends m p" "appends n q"
  shows "appends (bindIO m (\<lambda>_. n)) (p @ q)"
  unfolding appends_def
proof (intro allI impI)
  fix s s' assume s: "wok s" "bindIO m (\<lambda>_. n) s = (Inr (), s')"
  then obtain t where t: "m s = (Inr (), t)" "n t = (Inr (), s')"
    by (auto elim: bindIO_InrE)
  have 1: "wok t \<and> sent t = sent s @ p"
    using assms(1) s(1) t(1) unfolding appends_def by blast
  have "wok s' \<and> sent s' = sent t @ q"
    using assms(2) t(2) 1 unfolding appends_def by blast
  with 1 show "wok s' \<and> sent s' = sent s @ p @ q" by simp
qed

lemma succeeds_bind: "succeeds m \<Longrightarrow> succeeds n \<Longrightarrow> succeeds (bindIO m (\<lambda>_. n))"
  unfolding succeeds_def by (metis bindIO_Inr)

lemma put_iff: "put w s = (Inr (), s') \<longleftrightarrow> w s = (None, s')"
  by (auto simp: put_def split: prod.splits option.splits)

lemma appends_put:
  "appends (put (op_Write wops p)) p" "appends (put (op_WriteString wops p)) p"
  "appends (put (op_WriteByte wops c)) [c]"
  unfolding appends_def put_iff using Write_sent WriteString_sent WriteByte_sent by blast+

lemma succeeds_put:
  "succeeds (put (op_Write wops p))" "succeeds (put (op_WriteString wops p))"
  "succeeds (put (op_WriteByte wops c))"
  unfolding succeeds_def put_iff using Write_live WriteString_live WriteByte_live by blast+

lemma appends_text: "appends (encodeTextBytes wops b) (b @ CRLF)"
  unfolding encodeTextBytes_def by (intro appends_bind appends_put)

lemma appends_int: "appends (encodeInt wops i) (FormatInt i @ CRLF)"
  unfolding encodeInt_def encodeTextString_def itoa_table by (intro appends_bind appends_put)

lemma appends_bulk: "appends (encodeBulkBytes wops v) (wire_bulk v)"
proof (cases v)
  case None
  show ?thesis
    unfolding encodeBulkBytes_def wire_bulk_def None option.case by (rule appends_int)
next
  case (Some b)
  have "appends (encodeBulkBytes wops v) ((FormatInt (int (length b)) @ CRLF) @ b @ CRLF)"
    unfolding encodeBulkBytes_def Some option.case
    by (rule appends_bind [OF appends_int appends_text])
  then show ?thesis by (simp add: Some wire_bulk_def)
qed

lemma succeeds_textual: "succeeds (encodeTextBytes wops b)" "succeeds (encodeInt wops i)"
  unfolding encodeTextBytes_def encodeInt_def encodeTextString_def
  by (intro succeeds_bind succeeds_put)+

lemma succeeds_bulk: "succeeds (encodeBulkBytes wops v)"
  unfolding encodeBulkBytes_def
  by (cases v) (simp_all add: succeeds_textual succeeds_bind)

lemma appends_items:
  "\<forall>r \<in> set rs. appends (encodeResp wops r) (wire r) \<Longrightarrow>
     appends (encode_items wops rs) (concat (map wire rs))"
proof (induction rs)
  case Nil
  show ?case by (simp add: appends_def returnIO_def)
qed (simp add: appends_bind)

lemma succeeds_items:
  "\<forall>r \<in> set rs. succeeds (encodeResp wops r) \<Longrightarrow> succeeds (encode_items wops rs)"
proof (induction rs)
  case Nil
  show ?case by (simp add: succeeds_def returnIO_def)
qed (simp add: succeeds_bind)

definition wire_array :: "resp list option \<Rightarrow> bytes" where
  "wire_array a = (case a of None \<Rightarrow> FormatInt (-1) @ CRLF
     | Some rs \<Rightarrow> FormatInt (int (length rs)) @ CRLF @ concat (map wire rs))"

lemma appends_array:
  assumes "\<And>rs r. a = Some rs \<Longrightarrow> r \<in> set rs \<Longrightarrow> appends (encodeResp wops r) (wire r)"
  shows "appends (encodeArray wops a) (wire_array a)"
proof (cases a)
  case None
  show ?thesis
    unfolding encodeArray_def wire_array_def None option.case by (rule appends_int)
next
  case (Some rs)
  have "appends (encodeArray wops a) ((FormatInt (int (length rs)) @ CRLF) @ concat (map wire rs))"
    unfolding encodeArray_def Some option.case
    using assms [OF Some] by (intro appends_bind [OF appends_int] appends_items) blast
  then show ?thesis by (simp add: Some wire_array_def)
qed

lemma succeeds_array:
  assumes "\<And>rs r. a = Some rs \<Longrightarrow> r \<in> set rs \<Longrightarrow> succeeds (encodeResp wops r)"
  shows "succeeds (encodeArray wops a)"
  using assms unfolding encodeArray_def
  by (cases a) (simp_all add: succeeds_textual succeeds_bind succeeds_items)

lemma encodeResp_array:
  "encodeResp wops (Resp TypeArray v a) = bindIO (put (op_WriteByte wops TypeArray)) (\<lambda>_. encodeArray wops a)"
  by (simp add: encodeArray_def)

lemma appends_resp: "appends (encodeResp wops r) (wire r)"
proof (induction r)
  case (Resp t v a)
  have byte: "appends (bindIO (put (op_WriteByte wops t)) (\<lambda>_. m)) (t # p)" if "appends m p" for m p
    using appends_bind [OF appends_put(3) [of t] that] by simp
  consider "t \<in> text_types" | "t = TypeBulkBytes" | "t = TypeArray"
    | "t \<notin> text_types" "t \<noteq> TypeBulkBytes" "t \<noteq> TypeArray"
    by blast
  then show ?case
  proof cases
    case 1
    then show ?thesis using byte [OF appends_text [of "bytes_of v"]] by auto
  next
    case 2
    then show ?thesis using byte [OF appends_bulk [of v]] by simp
  next
    case 3
    have "appends (encodeArray wops a) (wire_array a)"
      using Resp by (intro appends_array) simp
    from byte [OF this] show ?thesis
      using 3 by (simp add: encodeArray_def wire_array_def)
  next
    case 4
    have "appends (failIO (Errorf (''bad resp type '' @ RespType_String t))) (tl (wire (Resp t v a)))"
      by (simp add: appends_def failIO_def)
    from byte [OF this] show ?thesis
      using 4 by simp
  qed
qed

lemma succeeds_resp: "typed_resp r \<Longrightarrow> succeeds (encodeResp wops r)"
proof (induction r)
  case (Resp t v a)
  consider "t \<in> text_types" | "t = TypeBulkBytes" | "t = TypeArray"
    "\<And>rs r. a = Some rs \<Longrightarrow> r \<in> set rs \<Longrightarrow> typed_resp r"
    using Resp.prems by (auto split: option.splits)
  then show ?case
  proof cases
    case 1
    then show ?thesis
      using succeeds_bind [OF succeeds_put(3) succeeds_textual(1)] by auto
  next
    case 2
    then show ?thesis using succeeds_bind [OF succeeds_put(3) succeeds_bulk] by simp
  next
    case 3
    have "succeeds (encodeArray wops a)"
      using Resp.IH 3(2) by (intro succeeds_array) auto
    then show ?thesis
      unfolding 3(1) encodeResp_array by (rule succeeds_bind [OF succeeds_put(3)])
  qed
qed

lemma encodeMultiBulk_writes:
  "appends (encodeMultiBulk wops multi) (TypeArray # wire_array multi)"
  "(\<And>rs r. multi = Some rs \<Longrightarrow> r \<in> set rs \<Longrightarrow> typed_resp r) \<Longrightarrow> succeeds (encodeMultiBulk wops multi)"
  unfolding encodeMultiBulk_def
  using appends_bind [OF appends_put(3) [of TypeArray] appends_array [of multi]] appends_resp
    succeeds_bind [OF succeeds_put(3) succeeds_array [of multi]] succeeds_resp
  by simp_all

text \<open>An encoding that flushes has delivered everything.\<close>

lemma encode_with_flush:
  assumes "appends m p" "succeeds m" "wlive s"
  shows "\<exists>s'. encode_with wops m True (NewEncoderBuffer s) = (None, \<lparr>enc_bw = s', enc_Err = None\<rparr>) \<and>
    wlive s' \<and> sent s' = sent s @ p \<and> delivered s' = sent s @ p"
proof -
  obtain s1 where s1: "m s = (Inr (), s1)" "wlive s1"
    using assms(2,3) by (auto simp: succeeds_def)
  have sent1: "sent s1 = sent s @ p"
    using assms(1) s1(1) wlive_wok [OF assms(3)] by (simp add: appends_def)
  obtain s2 where s2: "op_Flush wops s1 = (None, s2)" "wlive s2"
    using Flush_live [OF s1(2)] by blast
  have "sent s2 = sent s @ p" "delivered s2 = sent s @ p"
    using Flush_sent [OF wlive_wok [OF s1(2)] s2(1)] sent1 by simp_all
  then show ?thesis
    using s1 s2 by (simp add: encode_with_def NewEncoderBuffer_def)
qed

end

end
