(* ===== verification/Credis_Decoder.thy ===== *)
theory Credis_Decoder
  imports Credis_Resp Bufio2
begin

text \<open>
  \<open>utils/resparse/credis/decoder.go\<close>, over any reader of a byte stream: the operations of the
  reader are the argument \<open>ops\<close>. \<open>decodeResp\<close> recurses as deep as the arrays of the input nest,
  and carries that depth as fuel; each level reads a type byte, so one more than the bytes left
  in the stream is enough, which \<open>decodeResp_fuel\<close> shows.
\<close>

section \<open>Numbers\<close>

fun btoi_scan :: "int \<Rightarrow> bytes \<Rightarrow> int \<times> bytes" where
  "btoi_scan n [] = (n, [])"
| "btoi_scan n (c # cs) =
     (if is_digit c then btoi_scan (int (digit_val c) + n * 10) cs else (n, c # cs))"

definition btoi_slow :: "bytes \<Rightarrow> go_error + int" where
  "btoi_slow b = (case ParseInt 64 b of (n, None) \<Rightarrow> Inr n | (_, Some e) \<Rightarrow> Inl (Trace (NumError e)))"

definition Btoi64 :: "bytes \<Rightarrow> go_error + int" where
  "Btoi64 b =
     (if b \<noteq> [] \<and> length b < 10 then
        let neg = (hd b = CHR ''-'');
            ds = (if hd b = CHR ''-'' \<or> hd b = CHR ''+'' then tl b else b)
        in if ds \<noteq> [] then
             case btoi_scan 0 ds of
               (n, []) \<Rightarrow> Inr (if neg then - n else n)
             | (_, _ # _) \<Rightarrow> btoi_slow b
           else btoi_slow b
      else btoi_slow b)"

lemma btoi_scan_digits:
  "btoi_scan n cs = (m, []) \<longleftrightarrow> (\<forall>c \<in> set cs. is_digit c) \<and> m = foldl (\<lambda>n c. n * 10 + int (digit_val c)) n cs"
  by (induction cs arbitrary: n) (auto simp: add.commute)

lemma foldl_dec_val:
  "foldl (\<lambda>n c. n * 10 + int (digit_val c)) (int a) cs = int (dec_val_from a cs)"
  by (induction cs arbitrary: a) (auto, metis of_nat_add of_nat_mult of_nat_numeral)

text \<open>The fast path gives what \<open>strconv.ParseInt\<close> gives.\<close>

lemma dec_val_bound:
  assumes "\<forall>c \<in> set ds. is_digit c"
  shows "dec_val_from a ds < (a + 1) * 10 ^ length ds"
  using assms
proof (induction ds arbitrary: a)
  case (Cons c cs)
  have "dec_val_from (a * 10 + digit_val c) cs < (a * 10 + digit_val c + 1) * 10 ^ length cs"
    using Cons by simp
  also have "\<dots> \<le> ((a + 1) * 10) * 10 ^ length cs"
    using digit_val_less [of c] Cons.prems by (intro mult_le_mono1) simp
  finally show ?case by (simp add: algebra_simps)
qed simp

lemma ParseInt_short_digits:
  assumes "\<forall>c \<in> set ds. is_digit c" "ds \<noteq> []" "length ds < 10" "strip_sign b = (neg, ds)" "b \<noteq> []"
  shows "ParseInt 64 b = (if neg then - int (dec_val ds) else int (dec_val ds), None)"
proof -
  have "dec_val ds < 10 ^ length ds"
    using dec_val_bound [OF assms(1), of 0] by simp
  also have "\<dots> \<le> 10 ^ 9"
    using assms(3) by (intro power_increasing) auto
  finally have lt: "dec_val ds < 10 ^ 9" .
  then have "parse_uint 64 ds = Inr (dec_val ds)"
    using assms by (simp add: parse_uint_def parse_uint_loop_digits)
  then show ?thesis
    using assms(4,5) lt by (simp add: ParseInt_def)
qed

lemma Btoi64_slow: "Btoi64 b = btoi_slow b"
proof (cases "b \<noteq> [] \<and> length b < 10")
  case True
  define ds where "ds = (if hd b = CHR ''-'' \<or> hd b = CHR ''+'' then tl b else b)"
  have strip: "strip_sign b = (hd b = CHR ''-'', ds)"
    using True by (cases b) (auto simp: strip_sign_def ds_def)
  have len: "length ds < 10"
    using True by (auto simp: ds_def)
  show ?thesis
  proof (cases "ds \<noteq> [] \<and> (\<forall>c \<in> set ds. is_digit c)")
    case dig: True
    have scan: "btoi_scan 0 ds = (int (dec_val ds), [])"
      using dig foldl_dec_val [of 0 ds] by (simp add: btoi_scan_digits)
    have "btoi_slow b = Inr (if hd b = CHR ''-'' then - int (dec_val ds) else int (dec_val ds))"
      using ParseInt_short_digits [OF _ _ len strip] dig True by (simp add: btoi_slow_def)
    then show ?thesis
      using True dig scan by (simp add: Btoi64_def Let_def flip: ds_def)
  next
    case False
    then have "ds \<noteq> [] \<Longrightarrow> \<exists>n c cs. btoi_scan 0 ds = (n, c # cs)"
      using btoi_scan_digits [of 0 ds] by (metis list.exhaust surj_pair)
    then show ?thesis
      using True by (auto simp: Btoi64_def Let_def simp flip: ds_def)
  qed
qed (auto simp: Btoi64_def)

lemma Btoi64_FormatInt: "in_int64 i \<Longrightarrow> Btoi64 (FormatInt i) = Inr i"
  by (simp add: Btoi64_slow btoi_slow_def ParseInt_FormatInt)

lemma Btoi64_in_int64: "Btoi64 b = Inr n \<Longrightarrow> in_int64 n"
  using ParseInt_in_int64 [of b] by (auto simp: Btoi64_slow btoi_slow_def split: prod.splits option.splits)

section \<open>Errors\<close>

definition ErrBadCRLFEnd :: go_error where "ErrBadCRLFEnd = Sentinel ''bad CRLF end''"
definition ErrBadArrayLen :: go_error where "ErrBadArrayLen = Sentinel ''bad array len''"
definition ErrBadArrayLenTooLong :: go_error where
  "ErrBadArrayLenTooLong = Sentinel ''bad array len, too long''"
definition ErrBadBulkBytesLen :: go_error where
  "ErrBadBulkBytesLen = Sentinel ''bad bulk bytes len''"
definition ErrBadBulkBytesLenTooLong :: go_error where
  "ErrBadBulkBytesLenTooLong = Sentinel ''bad bulk bytes len, too long''"
definition ErrBadMultiBulkLen :: go_error where
  "ErrBadMultiBulkLen = Sentinel ''bad multi-bulk len''"
definition ErrBadMultiBulkContent :: go_error where
  "ErrBadMultiBulkContent = Sentinel ''bad multi-bulk content, should be bulkbytes''"
definition ErrFailedDecoder :: go_error where
  "ErrFailedDecoder = Sentinel ''use of failed decoder''"

section \<open>Decoding\<close>

text \<open>A line read up to its line feed must end with CR LF; the line without them is returned.\<close>

definition chop_crlf :: "bytes \<Rightarrow> ('s, go_error, bytes) io" where
  "chop_crlf b = (let n = int (length b) - 2 in
     if n < 0 \<or> b ! nat n \<noteq> CR then failIO (Trace ErrBadCRLFEnd) else returnIO (take (nat n) b))"

definition decodeTextBytes :: "'s reader_ops \<Rightarrow> ('s, go_error, bytes) io" where
  "decodeTextBytes ops = bindIO (mapErrIO Trace (op_ReadBytes ops LF)) chop_crlf"

definition decodeInt :: "'s reader_ops \<Rightarrow> ('s, go_error, int) io" where
  "decodeInt ops = bindIO (mapErrIO Trace (op_ReadSlice ops LF)) (\<lambda>l.
     bindIO (chop_crlf l) (\<lambda>b. case Btoi64 b of Inl e \<Rightarrow> failIO e | Inr n \<Rightarrow> returnIO n))"

definition decodeBulkBytes :: "'s reader_ops \<Rightarrow> ('s, go_error, bytes option) io" where
  "decodeBulkBytes ops = bindIO (decodeInt ops) (\<lambda>n.
     if n < -1 then failIO (Trace ErrBadBulkBytesLen)
     else if n > MaxBulkBytesLen then failIO (Trace ErrBadBulkBytesLenTooLong)
     else if n = -1 then returnIO None
     else bindIO (mapErrIO Trace (op_ReadFull ops (nat n + 2))) (\<lambda>b.
       if b ! nat n \<noteq> CR \<or> b ! (nat n + 1) \<noteq> LF then failIO (Trace ErrBadCRLFEnd)
       else returnIO (Some (take (nat n) b))))"

text \<open>The loop over the elements of an array, for the given way to decode one.\<close>

primrec decode_items :: "('s, go_error, resp) io \<Rightarrow> nat \<Rightarrow> ('s, go_error, resp list) io" where
  "decode_items item 0 = returnIO []"
| "decode_items item (Suc k) =
     bindIO item (\<lambda>r. bindIO (decode_items item k) (\<lambda>rs. returnIO (r # rs)))"

definition decodeArray ::
    "'s reader_ops \<Rightarrow> ('s, go_error, resp) io \<Rightarrow> ('s, go_error, resp list option) io" where
  "decodeArray ops item = bindIO (decodeInt ops) (\<lambda>n.
     if n < -1 then failIO (Trace ErrBadArrayLen)
     else if n > MaxArrayLen then failIO (Trace ErrBadArrayLenTooLong)
     else if n = -1 then returnIO None
     else bindIO (decode_items item (nat n)) (\<lambda>rs. returnIO (Some rs)))"

text \<open>The type byte decides what follows it.\<close>

definition decode_body ::
    "'s reader_ops \<Rightarrow> ('s, go_error, resp) io \<Rightarrow> char \<Rightarrow> ('s, go_error, resp) io" where
  "decode_body ops item t =
     (if t \<in> text_types then bindIO (decodeTextBytes ops) (\<lambda>v. returnIO (Resp t (Some v) None))
      else if t = TypeBulkBytes then bindIO (decodeBulkBytes ops) (\<lambda>v. returnIO (Resp t v None))
      else if t = TypeArray then bindIO (decodeArray ops item) (\<lambda>a. returnIO (Resp t None a))
      else failIO (Errorf (''bad resp type '' @ RespType_String t)))"

definition OutOfFuel :: go_error where "OutOfFuel = Sentinel ''(the fuel of the model is used up)''"

primrec decodeResp :: "nat \<Rightarrow> 's reader_ops \<Rightarrow> ('s, go_error, resp) io" where
  "decodeResp 0 ops = failIO OutOfFuel"
| "decodeResp (Suc k) ops =
     bindIO (mapErrIO Trace (op_ReadByte ops)) (decode_body ops (decodeResp k ops))"

section \<open>Multi-bulk requests\<close>

text \<open>The loop of \<open>decodeSingleLineMultiBulk\<close> over the right end \<open>r\<close>, with the left end \<open>l\<close> of
  the current word.\<close>

function split_words :: "bytes \<Rightarrow> nat \<Rightarrow> nat \<Rightarrow> resp list" where
  "split_words b l r =
     (if length b < r then []
      else if r = length b \<or> b ! r = CHR '' '' then
        (if l < r then [NewBulkBytes (Some (buf_slice l r b))] else []) @ split_words b (r + 1) (r + 1)
      else split_words b l (r + 1))"
  by pat_completeness auto
termination by (relation "measure (\<lambda>(b, l, r). Suc (length b) - r)") auto

declare split_words.simps [simp del]

definition decodeSingleLineMultiBulk :: "'s reader_ops \<Rightarrow> ('s, go_error, resp list option) io" where
  "decodeSingleLineMultiBulk ops = bindIO (decodeTextBytes ops) (\<lambda>b.
     if b = [] then returnIO None
     else let multi = split_words b 0 0
          in if multi = [] then failIO (Trace ErrBadMultiBulkLen) else returnIO (Some multi))"

definition bulk_item :: "('s, go_error, resp) io \<Rightarrow> ('s, go_error, resp) io" where
  "bulk_item item = bindIO item (\<lambda>r.
     if resp_Type r \<noteq> TypeBulkBytes then failIO (Trace ErrBadMultiBulkContent) else returnIO r)"

definition decodeMultiBulk :: "nat \<Rightarrow> 's reader_ops \<Rightarrow> ('s, go_error, resp list option) io" where
  "decodeMultiBulk fuel ops = bindIO (mapErrIO Trace (op_PeekByte ops)) (\<lambda>t.
     if t \<noteq> TypeArray then decodeSingleLineMultiBulk ops
     else bindIO (mapErrIO Trace (op_ReadByte ops)) (\<lambda>_.
       bindIO (mapErrIO Trace (decodeInt ops)) (\<lambda>n.
         if n \<le> 0 then failIO (Trace ErrBadArrayLen)
         else if n > MaxArrayLen then failIO (Trace ErrBadArrayLenTooLong)
         else bindIO (decode_items (bulk_item (decodeResp fuel ops)) (nat n))
                (\<lambda>rs. returnIO (Some rs)))))"

section \<open>Decoder\<close>

text \<open>A decoder remembers its first error and answers every later call with \<open>ErrFailedDecoder\<close>.
  (The code returns the unfinished value beside the error; the model keeps the error.)\<close>

record 's decoder =
  dec_br :: 's
  dec_Err :: "go_error option"

definition NewDecoderBuffer :: "'s \<Rightarrow> 's decoder" where
  "NewDecoderBuffer br = \<lparr>dec_br = br, dec_Err = None\<rparr>"

definition sticky :: "('s, go_error, 'a) io \<Rightarrow> ('s decoder, go_error, 'a) io" where
  "sticky m d = (case dec_Err d of
     Some _ \<Rightarrow> (Inl (Trace ErrFailedDecoder), d)
   | None \<Rightarrow> (case m (dec_br d) of
       (Inl e, s) \<Rightarrow> (Inl e, \<lparr>dec_br = s, dec_Err = Some e\<rparr>)
     | (Inr x, s) \<Rightarrow> (Inr x, \<lparr>dec_br = s, dec_Err = None\<rparr>)))"

definition Decode :: "nat \<Rightarrow> 's reader_ops \<Rightarrow> ('s decoder, go_error, resp) io" where
  "Decode fuel ops = sticky (decodeResp fuel ops)"

definition DecodeMultiBulk :: "nat \<Rightarrow> 's reader_ops \<Rightarrow> ('s decoder, go_error, resp list option) io" where
  "DecodeMultiBulk fuel ops = sticky (decodeMultiBulk fuel ops)"

section \<open>What a decoder keeps of the stream\<close>

text \<open>\<open>sound ok rest m P\<close>: from any good state \<open>m\<close> leads to a good one, and what it returns satisfies
  \<open>P\<close> and was taken off the front of the stream.\<close>

definition sound :: "('s \<Rightarrow> bool) \<Rightarrow> ('s \<Rightarrow> bytes) \<Rightarrow> ('s, 'e, 'a) io \<Rightarrow> ('a \<Rightarrow> bool) \<Rightarrow> bool" where
  "sound ok rest m P \<longleftrightarrow> (\<forall>s r s'. ok s \<longrightarrow> m s = (r, s') \<longrightarrow> ok s' \<and>
     (\<forall>x. r = Inr x \<longrightarrow> P x \<and> (\<exists>c. rest s = c @ rest s')))"

lemma soundI:
  assumes "\<And>s r s'. ok s \<Longrightarrow> m s = (r, s') \<Longrightarrow> ok s'"
    and "\<And>s x s'. ok s \<Longrightarrow> m s = (Inr x, s') \<Longrightarrow> P x \<and> (\<exists>c. rest s = c @ rest s')"
  shows "sound ok rest m P"
  using assms by (simp add: sound_def)

lemma soundD:
  assumes "sound ok rest m P" "ok s" "m s = (r, s')"
  shows "ok s'" "r = Inr x \<Longrightarrow> P x" "r = Inr x \<Longrightarrow> \<exists>c. rest s = c @ rest s'"
    "r = Inr x \<Longrightarrow> length (rest s') \<le> length (rest s)"
  using assms unfolding sound_def by (auto, metis length_append le_add2)

lemma sound_return: "P x \<Longrightarrow> sound ok rest (returnIO x) P"
  by (simp add: sound_def returnIO_def)

lemma sound_fail: "sound ok rest (failIO e) P"
  by (simp add: sound_def failIO_def)

lemma sound_mapErr: "sound ok rest m P \<Longrightarrow> sound ok rest (mapErrIO g m) P"
  unfolding sound_def mapErrIO_def by (auto split: prod.splits sum.splits)

lemma sound_bind:
  assumes m: "sound ok rest m Q" and f: "\<And>x. Q x \<Longrightarrow> sound ok rest (f x) P"
  shows "sound ok rest (bindIO m f) P"
proof (rule soundI)
  fix s r s' assume s: "ok s" "bindIO m f s = (r, s')"
  show "ok s'"
  proof (cases "m s")
    case (Pair q t)
    show ?thesis
      using s Pair soundD [OF m s(1) Pair] soundD(1) [OF f] by (cases q) (auto simp: bindIO_def)
  qed
next
  fix s y s' assume s: "ok s" "bindIO m f s = (Inr y, s')"
  then obtain x t where x: "m s = (Inr x, t)" "f x t = (Inr y, s')"
    by (auto elim: bindIO_InrE)
  note M = soundD [OF m s(1) x(1)]
  note F = soundD [OF f [OF M(2) [OF refl]] M(1) x(2)]
  obtain c d where "rest s = c @ rest t" "rest t = d @ rest s'"
    using M(3) F(3) by blast
  then show "P y \<and> (\<exists>c. rest s = c @ rest s')"
    using F(2) by (metis append.assoc)
qed

lemmas sound_rules = sound_return sound_fail

lemma sound_chop_crlf: "sound ok rest (chop_crlf b) (\<lambda>x. x = take (length b - 2) b)"
proof (cases "length b < 2")
  case True
  then show ?thesis
    by (simp add: chop_crlf_def Let_def sound_fail)
next
  case False
  then have "nat (int (length b) - 2) = length b - 2" by simp
  then show ?thesis
    by (simp add: chop_crlf_def Let_def sound_fail sound_return)
qed

lemma sound_items:
  "sound ok rest item P \<Longrightarrow> sound ok rest (decode_items item k) (\<lambda>rs. length rs = k \<and> (\<forall>r \<in> set rs. P r))"
proof (induction k)
  case (Suc k)
  then show ?case
    by (auto intro!: sound_rules sound_bind [OF Suc.prems] sound_bind [OF Suc.IH [OF Suc.prems]])
qed (simp add: sound_return)

context byte_reader
begin

lemma sound_text: "sound ok rest (decodeTextBytes ops) (\<lambda>v. LF \<notin> set v)"
  unfolding decodeTextBytes_def
proof (rule sound_bind [OF sound_mapErr])
  show "sound ok rest (op_ReadBytes ops LF) (\<lambda>b. LF \<notin> set (butlast b))"
    using ok_ReadBytes ReadBytes_Inr by (intro soundI) blast+
next
  fix b assume b: "LF \<notin> set (butlast b)"
  have "take (length b - 2) b = take (length b - 2) (butlast b)"
    by (simp add: butlast_conv_take min_def)
  then have "LF \<notin> set (take (length b - 2) b)"
    using b in_set_takeD by metis
  then show "sound ok rest (chop_crlf b) (\<lambda>v. LF \<notin> set v)"
    using sound_chop_crlf [of ok rest b] unfolding sound_def by metis
qed

lemma sound_int: "sound ok rest (decodeInt ops) in_int64"
  unfolding decodeInt_def
proof (rule sound_bind [OF sound_mapErr])
  show "sound ok rest (op_ReadSlice ops LF) (\<lambda>b. True)"
    using ok_ReadSlice ReadSlice_Inr by (intro soundI) blast+
  show "sound ok rest (bindIO (chop_crlf l)
     (\<lambda>b. case Btoi64 b of Inl e \<Rightarrow> failIO e | Inr n \<Rightarrow> returnIO n)) in_int64" for l
    using Btoi64_in_int64
    by (intro sound_bind [OF sound_chop_crlf]) (auto intro: sound_rules split: sum.splits)
qed

lemma sound_bulk:
  "sound ok rest (decodeBulkBytes ops) (\<lambda>v. \<forall>b. v = Some b \<longrightarrow> int (length b) \<le> MaxBulkBytesLen)"
  unfolding decodeBulkBytes_def
proof (rule sound_bind [OF sound_int], goal_cases)
  case (1 n)
  have "sound ok rest (op_ReadFull ops (nat n + 2)) (\<lambda>b. length b = nat n + 2)"
    using ok_ReadFull ReadFull_Inr [of _ "nat n + 2"] by (intro soundI) auto
  then show ?case
    by (auto intro!: sound_rules sound_bind [OF sound_mapErr])
qed

lemma sound_array:
  assumes "sound ok rest item P"
  shows "sound ok rest (decodeArray ops item) (\<lambda>a. case a of None \<Rightarrow> True
     | Some rs \<Rightarrow> int (length rs) \<le> MaxArrayLen \<and> (\<forall>r \<in> set rs. P r))"
  unfolding decodeArray_def
proof (rule sound_bind [OF sound_int], goal_cases)
  case (1 n)
  show ?case
    by (auto intro!: sound_rules sound_bind [OF sound_items [OF assms]])
qed

lemma sound_body:
  "sound ok rest item wf_resp \<Longrightarrow> sound ok rest (decode_body ops item t) wf_resp"
  unfolding decode_body_def
  by (auto intro!: sound_rules sound_bind [OF sound_text] sound_bind [OF sound_bulk]
      sound_bind [OF sound_array])

lemma sound_ReadByte: "sound ok rest (op_ReadByte ops) (\<lambda>_. True)"
proof (rule soundI)
  fix s c s' assume "ok s" "op_ReadByte ops s = (Inr c, s')"
  then have "rest s = [c] @ rest s'" using ReadByte_Inr by simp
  then show "True \<and> (\<exists>c. rest s = c @ rest s')" by blast
qed (use ok_ReadByte in blast)

lemma sound_resp: "sound ok rest (decodeResp k ops) wf_resp"
  by (induction k) (auto intro!: sound_rules sound_bind [OF sound_mapErr [OF sound_ReadByte]] sound_body)

end

section \<open>Fuel\<close>

text \<open>Two ways to decode an element agree on the streams of at most \<open>n\<close> bytes.\<close>

definition agree :: "('s \<Rightarrow> bool) \<Rightarrow> ('s \<Rightarrow> bytes) \<Rightarrow> nat \<Rightarrow> ('s, 'e, 'a) io \<Rightarrow> ('s, 'e, 'a) io \<Rightarrow> bool" where
  "agree ok rest n m m' \<longleftrightarrow> (\<forall>s. ok s \<longrightarrow> length (rest s) \<le> n \<longrightarrow> m s = m' s)"

lemma agree_refl: "agree ok rest n m m"
  by (simp add: agree_def)

lemma agree_bind:
  assumes "sound ok rest m Q" "agree ok rest n m m'" "\<And>x. Q x \<Longrightarrow> agree ok rest n (f x) (g x)"
  shows "agree ok rest n (bindIO m f) (bindIO m' g)"
  unfolding agree_def
proof (intro allI impI)
  fix s assume s: "ok s" "length (rest s) \<le> n"
  obtain q t where m: "m s = (q, t)" by (metis surj_pair)
  moreover have "m' s = m s"
    using assms(2) s by (simp add: agree_def)
  moreover have "q = Inr x \<Longrightarrow> f x t = g x t" for x
    using soundD [OF assms(1) s(1) m] assms(3) s(2) by (fastforce simp: agree_def)
  ultimately show "bindIO m f s = bindIO m' g s"
    by (cases q) (simp_all add: bindIO_def)
qed

lemma agree_items:
  assumes "sound ok rest item P" "agree ok rest n item item'"
  shows "agree ok rest n (decode_items item k) (decode_items item' k)"
proof (induction k)
  case (Suc k)
  show ?case
    unfolding decode_items.simps
    by (intro agree_bind [OF assms] agree_bind [OF sound_items [OF assms(1)] Suc] agree_refl)
qed (simp add: agree_refl)

context byte_reader
begin

lemma agree_body:
  assumes "sound ok rest item wf_resp" "agree ok rest n item item'"
  shows "agree ok rest n (decode_body ops item t) (decode_body ops item' t)"
proof -
  have "agree ok rest n (decodeArray ops item) (decodeArray ops item')"
    unfolding decodeArray_def
    by (intro agree_bind [OF sound_int] agree_refl, simp split: if_splits)
       (intro impI conjI agree_refl agree_bind [OF sound_items [OF assms(1)]] agree_items [OF assms])
  then show ?thesis
    unfolding decode_body_def
    by (auto intro!: agree_refl agree_bind [OF sound_array [OF assms(1)]])
qed

text \<open>More fuel than bytes is enough: any two such amounts give the same result.\<close>

lemma decodeResp_fuel:
  "length (rest s) < k \<Longrightarrow> length (rest s) < k' \<Longrightarrow> ok s \<Longrightarrow> decodeResp k ops s = decodeResp k' ops s"
proof (induction k arbitrary: k' s)
  case (Suc k)
  then obtain j where j: "k' = Suc j" by (cases k') auto
  obtain q t where m: "op_ReadByte ops s = (q, t)" by (metis surj_pair)
  show ?case
  proof (cases q)
    case (Inl e)
    then show ?thesis using m j by (simp add: seq_simps)
  next
    case (Inr c)
    have t: "ok t" "rest s = c # rest t"
      using ok_ReadByte ReadByte_Inr Suc.prems(3) m Inr by blast+
    have "agree ok rest (length (rest t)) (decodeResp k ops) (decodeResp j ops)"
      using Suc.IH Suc.prems(1,2) t(2) j by (simp add: agree_def)
    then have "decode_body ops (decodeResp k ops) c t = decode_body ops (decodeResp j ops) c t"
      using agree_body [OF sound_resp] t(1) by (simp add: agree_def)
    then show ?thesis
      using m Inr j by (simp add: seq_simps)
  qed
qed simp

end

section \<open>Decoding what was encoded\<close>

lemma wire_length_element: "r \<in> set rs \<Longrightarrow> length (wire r) \<le> length (concat (map wire rs))"
  by (induction rs) auto

lemma chop_crlf_line: "chop_crlf (b @ CRLF) s = (Inr b, s)"
  by (simp add: chop_crlf_def returnIO_def nth_append)

context byte_reader
begin

text \<open>From a live state, \<open>m\<close> returns \<open>x\<close> and leaves \<open>t\<close> in a live state.\<close>

definition gives :: "('s, go_error, 'a) io \<Rightarrow> 's \<Rightarrow> 'a \<Rightarrow> bytes \<Rightarrow> bool" where
  "gives m s x t \<longleftrightarrow> (\<exists>s'. m s = (Inr x, s') \<and> live s' \<and> window s' = window s \<and> rest s' = t)"

lemma gives_bind:
  assumes "gives m s x t"
    "\<And>s'. live s' \<Longrightarrow> window s' = window s \<Longrightarrow> rest s' = t \<Longrightarrow> gives (f x) s' y u"
  shows "gives (bindIO m f) s y u"
  using assms unfolding gives_def by (metis bindIO_Inr)

lemma gives_return: "live s \<Longrightarrow> rest s = t \<Longrightarrow> gives (returnIO x) s x t"
  by (simp add: gives_def returnIO_def)

lemma gives_mapErr: "gives m s x t \<Longrightarrow> gives (mapErrIO g m) s x t"
  by (auto simp: gives_def mapErrIO_Inr_iff)

lemma gives_ReadByte: "live s \<Longrightarrow> rest s = c # t \<Longrightarrow> gives (op_ReadByte ops) s c t"
  unfolding gives_def using ReadByte_live ok_ReadByte live_ok by metis

lemma gives_PeekByte: "live s \<Longrightarrow> rest s = c # t \<Longrightarrow> gives (op_PeekByte ops) s c (c # t)"
  unfolding gives_def using PeekByte_live ok_PeekByte live_ok by metis

lemma gives_text:
  assumes "live s" "rest s = b @ CRLF @ t" "LF \<notin> set b"
  shows "gives (decodeTextBytes ops) s b t"
  unfolding decodeTextBytes_def
proof (rule gives_bind [OF gives_mapErr])
  have "\<exists>s'. op_ReadBytes ops LF s = (Inr ((b @ [CR]) @ [LF]), s') \<and> live s' \<and> rest s' = t"
    using assms by (intro ReadBytes_live) auto
  then show "gives (op_ReadBytes ops LF) s (b @ CRLF) t"
    unfolding gives_def using ok_ReadBytes live_ok assms(1) by fastforce
qed (simp add: gives_def chop_crlf_line)

lemma gives_int:
  assumes "live s" "rest s = FormatInt i @ CRLF @ t" "in_int64 i" "22 \<le> window s"
  shows "gives (decodeInt ops) s i t"
  unfolding decodeInt_def
proof (rule gives_bind [OF gives_mapErr])
  have "\<exists>s'. op_ReadSlice ops LF s = (Inr ((FormatInt i @ [CR]) @ [LF]), s') \<and> live s' \<and> rest s' = t"
    using assms FormatInt_length [OF assms(3)] FormatInt_no_eol by (intro ReadSlice_live) auto
  then show "gives (op_ReadSlice ops LF) s (FormatInt i @ CRLF) t"
    unfolding gives_def using ok_ReadSlice live_ok assms(1) by fastforce
qed (simp add: gives_def chop_crlf_line bindIO_def Btoi64_FormatInt assms(3) returnIO_def)

lemma gives_bulk:
  assumes "live s" "rest s = wire_bulk v @ t" "22 \<le> window s"
    "\<forall>b. v = Some b \<longrightarrow> int (length b) \<le> MaxBulkBytesLen"
  shows "gives (decodeBulkBytes ops) s v t"
proof (cases v)
  case None
  have "gives (decodeInt ops) s (-1) t"
    using assms None by (intro gives_int) (simp_all add: wire_bulk_def in_int64_def)
  then show ?thesis
    unfolding decodeBulkBytes_def None
    by (rule gives_bind) (simp add: gives_return MaxBulkBytesLen_def)
next
  case (Some b)
  have i: "gives (decodeInt ops) s (int (length b)) (b @ CRLF @ t)"
    using assms Some
    by (intro gives_int) (auto simp: wire_bulk_def in_int64_def MaxBulkBytesLen_def)
  show ?thesis
    unfolding decodeBulkBytes_def Some
  proof (rule gives_bind [OF i])
    fix s1 assume s1: "live s1" "rest s1 = b @ CRLF @ t"
    have "\<exists>s'. op_ReadFull ops (length b + 2) s1 = (Inr (b @ CRLF), s') \<and> live s' \<and> rest s' = t"
      using s1 by (intro ReadFull_live) auto
    then have "gives (op_ReadFull ops (length b + 2)) s1 (b @ CRLF) t"
      unfolding gives_def using ok_ReadFull live_ok s1(1) by fastforce
    then have "gives (mapErrIO Trace (op_ReadFull ops (length b + 2))) s1 (b @ CRLF) t"
      by (rule gives_mapErr)
    then show "gives (if int (length b) < - 1 then failIO (Trace ErrBadBulkBytesLen)
       else if MaxBulkBytesLen < int (length b) then failIO (Trace ErrBadBulkBytesLenTooLong)
       else if int (length b) = - 1 then returnIO None
       else bindIO (mapErrIO Trace (op_ReadFull ops (nat (int (length b)) + 2)))
         (\<lambda>ba. if ba ! nat (int (length b)) \<noteq> CR \<or> ba ! (nat (int (length b)) + 1) \<noteq> LF
               then failIO (Trace ErrBadCRLFEnd)
               else returnIO (Some (take (nat (int (length b))) ba)))) s1 (Some b) t"
      using assms(4) Some
      by (simp add: gives_bind [where x = "b @ CRLF" and t = t] gives_return nth_append)
  qed
qed

lemma gives_items:
  assumes "\<And>r s t. r \<in> set rs \<Longrightarrow> live s \<Longrightarrow> 22 \<le> window s \<Longrightarrow> rest s = wire r @ t \<Longrightarrow> gives item s r t"
    "live s" "22 \<le> window s" "rest s = concat (map wire rs) @ t"
  shows "gives (decode_items item (length rs)) s rs t"
  using assms
proof (induction rs arbitrary: s)
  case Nil
  then show ?case by (simp add: gives_return)
next
  case (Cons r rs)
  have 1: "gives item s r (concat (map wire rs) @ t)"
    using Cons.prems by simp
  show ?case
    unfolding list.size(4) add_0_right add_Suc_right decode_items.simps
  proof (rule gives_bind [OF 1])
    fix s1 assume s1: "live s1" "window s1 = window s" "rest s1 = concat (map wire rs) @ t"
    have "gives (decode_items item (length rs)) s1 rs t"
      using Cons.prems(1,3) s1 by (intro Cons.IH) auto
    then show "gives (bindIO (decode_items item (length rs)) (\<lambda>rs. returnIO (r # rs))) s1 (r # rs) t"
      by (rule gives_bind) (rule gives_return)
  qed
qed

lemma gives_array:
  assumes "\<And>rs r s t. a = Some rs \<Longrightarrow> r \<in> set rs \<Longrightarrow> live s \<Longrightarrow> 22 \<le> window s \<Longrightarrow>
      rest s = wire r @ t \<Longrightarrow> gives item s r t"
    "live s" "22 \<le> window s" "\<forall>rs. a = Some rs \<longrightarrow> int (length rs) \<le> MaxArrayLen"
    "rest s = (case a of None \<Rightarrow> FormatInt (-1) @ CRLF
       | Some rs \<Rightarrow> FormatInt (int (length rs)) @ CRLF @ concat (map wire rs)) @ t"
  shows "gives (decodeArray ops item) s a t"
proof (cases a)
  case None
  have "gives (decodeInt ops) s (-1) t"
    using assms None by (intro gives_int) (simp_all add: in_int64_def)
  then show ?thesis
    unfolding decodeArray_def None
    by (rule gives_bind) (simp add: gives_return MaxArrayLen_def)
next
  case (Some rs)
  have i: "gives (decodeInt ops) s (int (length rs)) (concat (map wire rs) @ t)"
    using assms(2-5) Some by (intro gives_int) (auto simp: in_int64_def MaxArrayLen_def)
  show ?thesis
    unfolding decodeArray_def Some
  proof (rule gives_bind [OF i])
    fix s1 assume s1: "live s1" "window s1 = window s" "rest s1 = concat (map wire rs) @ t"
    have "gives (decode_items item (length rs)) s1 rs t"
      using assms(1,3) Some s1 by (intro gives_items) auto
    then have "gives (bindIO (decode_items item (length rs)) (\<lambda>rs. returnIO (Some rs))) s1 (Some rs) t"
      by (rule gives_bind) (rule gives_return)
    then show "gives (if int (length rs) < - 1 then failIO (Trace ErrBadArrayLen)
       else if MaxArrayLen < int (length rs) then failIO (Trace ErrBadArrayLenTooLong)
       else if int (length rs) = - 1 then returnIO None
       else bindIO (decode_items item (nat (int (length rs)))) (\<lambda>rs. returnIO (Some rs))) s1 (Some rs) t"
      using assms(4) Some by simp
  qed
qed

lemma gives_resp:
  "length (wire r) \<le> k \<Longrightarrow> wf_resp r \<Longrightarrow> live s \<Longrightarrow> 22 \<le> window s \<Longrightarrow> rest s = wire r @ t \<Longrightarrow>
     gives (decodeResp k ops) s r t"
proof (induction k arbitrary: r s t)
  case 0
  then show ?case by (cases r) simp
next
  case (Suc k)
  obtain ty v a where r: "r = Resp ty v a" by (cases r)
  let ?body = "tl (wire r)"
  have b: "gives (mapErrIO Trace (op_ReadByte ops)) s ty (?body @ t)"
    using Suc.prems r by (intro gives_mapErr gives_ReadByte) simp_all
  show ?case
    unfolding decodeResp.simps
  proof (rule gives_bind [OF b])
    fix s1 assume s1: "live s1" "window s1 = window s" "rest s1 = ?body @ t"
    consider (line) b where "ty \<in> text_types" "a = None" "v = Some b" "LF \<notin> set b"
      | (bulk) "ty = TypeBulkBytes" "a = None" "\<forall>b. v = Some b \<longrightarrow> int (length b) \<le> MaxBulkBytesLen"
      | (array) "ty = TypeArray" "v = None" "\<forall>rs. a = Some rs \<longrightarrow> int (length rs) \<le> MaxArrayLen"
          "\<forall>rs. a = Some rs \<longrightarrow> (\<forall>r \<in> set rs. wf_resp r)"
      using Suc.prems(2) unfolding r wf_resp.simps by (auto split: if_splits option.splits)
    then show "gives (decode_body ops (decodeResp k ops) ty) s1 r t"
    proof cases
      case line
      have "gives (decodeTextBytes ops) s1 b t"
        using line s1 r by (intro gives_text) auto
      then have "gives (bindIO (decodeTextBytes ops) (\<lambda>v. returnIO (Resp ty (Some v) None))) s1
          (Resp ty (Some b) None) t"
        by (rule gives_bind) (rule gives_return)
      then show ?thesis
        using line r by (simp add: decode_body_def)
    next
      case bulk
      have "gives (decodeBulkBytes ops) s1 v t"
        using bulk s1 r Suc.prems(4) by (intro gives_bulk) auto
      then have "gives (bindIO (decodeBulkBytes ops) (\<lambda>v. returnIO (Resp ty v None))) s1
          (Resp ty v None) t"
        by (rule gives_bind) (rule gives_return)
      then show ?thesis
        using bulk r by (simp add: decode_body_def)
    next
      case array
      have "gives (decodeResp k ops) s' r' t'"
        if "a = Some rs" "r' \<in> set rs" "live s'" "22 \<le> window s'" "rest s' = wire r' @ t'" for rs r' s' t'
        using that array Suc.prems(1) wire_length_element [of r' rs] r
        by (intro Suc.IH) auto
      then have "gives (decodeArray ops (decodeResp k ops)) s1 a t"
        using array s1 r Suc.prems(4) by (intro gives_array) auto
      then have "gives (bindIO (decodeArray ops (decodeResp k ops)) (\<lambda>a. returnIO (Resp ty None a))) s1
          (Resp ty None a) t"
        by (rule gives_bind) (rule gives_return)
      then show ?thesis
        using array r by (simp add: decode_body_def)
    qed
  qed
qed

end

section \<open>Multi-bulk requests, decoded\<close>

text \<open>The words of an inline request are its non-empty fields between spaces.\<close>

definition words_of :: "bytes \<Rightarrow> bytes list" where
  "words_of b = filter (\<lambda>w. w \<noteq> []) (SplitByte (CHR '' '') b)"

lemma split_words_fields:
  "l \<le> r \<Longrightarrow> r \<le> length b \<Longrightarrow> CHR '' '' \<notin> set (buf_slice l r b) \<Longrightarrow>
     split_words b l r = map (\<lambda>w. NewBulkBytes (Some w)) (words_of (drop l b))"
proof (induction b l r rule: split_words.induct)
  case (1 b l r)
  have split: "drop l b = buf_slice l r b @ drop r b"
    using 1(3) by (metis append_take_drop_id buf_slice_def drop_drop le_add_diff_inverse2)
  have emp: "buf_slice l r b = [] \<longleftrightarrow> l = r"
    using 1(3,4) by (simp add: buf_slice_def) linarith
  consider (finish) "r = length b" | (space) "r < length b" "b ! r = CHR '' ''"
    | (other) "r < length b" "b ! r \<noteq> CHR '' ''"
    using 1(4) by linarith
  then show ?case
  proof cases
    case finish
    have "split_words b (r + 1) (r + 1) = []"
      using finish by (simp add: split_words.simps [of b "Suc (length b)" "Suc (length b)"])
    then show ?thesis
      using finish 1(3,5) emp split
      by (auto simp: split_words.simps [of b _ "length b"] words_of_def SplitByte_no_sep)
  next
    case space
    have "drop r b = CHR '' '' # drop (Suc r) b"
      using space by (simp add: Cons_nth_drop_Suc [symmetric])
    then have "words_of (drop l b) = (if l < r then [buf_slice l r b] else []) @ words_of (drop (Suc r) b)"
      using split emp 1(3,5) by (simp add: words_of_def SplitByte_append)
    moreover have "split_words b (r + 1) (r + 1) = map (\<lambda>w. NewBulkBytes (Some w)) (words_of (drop (r + 1) b))"
      using 1(1) space by (simp add: buf_slice_def)
    ultimately show ?thesis
      using space by (simp add: split_words.simps [of b l r])
  next
    case other
    have "buf_slice l (r + 1) b = buf_slice l r b @ [b ! r]"
      using other 1(3) by (simp add: buf_slice_def Suc_diff_le take_Suc_conv_app_nth)
    then have "split_words b l (r + 1) = map (\<lambda>w. NewBulkBytes (Some w)) (words_of (drop l b))"
      using 1(2-5) other by (simp add: Suc_leI)
    then show ?thesis
      using other by (simp add: split_words.simps [of b l r])
  qed
qed

lemma split_words_words: "split_words b 0 0 = map (\<lambda>w. NewBulkBytes (Some w)) (words_of b)"
  using split_words_fields [of 0 0 b] by (simp add: buf_slice_def)

definition wire_multi :: "bytes list \<Rightarrow> bytes" where
  "wire_multi args = wire (NewArray (Some (map (\<lambda>a. NewBulkBytes (Some a)) args)))"

context byte_reader
begin

lemma gives_inline:
  assumes "live s" "rest s = b @ CRLF @ t" "LF \<notin> set b" "words_of b \<noteq> []"
  shows "gives (decodeSingleLineMultiBulk ops) s (Some (map (\<lambda>w. NewBulkBytes (Some w)) (words_of b))) t"
  unfolding decodeSingleLineMultiBulk_def
proof (rule gives_bind [OF gives_text [OF assms(1-3)]])
  fix s' assume "live s'" "rest s' = t"
  moreover have "b \<noteq> []" using assms(4) by (auto simp: words_of_def)
  ultimately show "gives (if b = [] then returnIO None
      else let multi = split_words b 0 0
           in if multi = [] then failIO (Trace ErrBadMultiBulkLen) else returnIO (Some multi)) s'
      (Some (map (\<lambda>w. NewBulkBytes (Some w)) (words_of b))) t"
    using assms(4) by (simp add: split_words_words gives_return)
qed

lemma gives_multi:
  assumes "live s" "22 \<le> window s" "rest s = wire_multi args @ t" "args \<noteq> []"
    "int (length args) \<le> MaxArrayLen" "\<forall>a \<in> set args. int (length a) \<le> MaxBulkBytesLen"
    "length (wire_multi args) \<le> k"
  shows "gives (decodeMultiBulk k ops) s (Some (map (\<lambda>a. NewBulkBytes (Some a)) args)) t"
proof -
  let ?rs = "map (\<lambda>a. NewBulkBytes (Some a)) args"
  have w: "wire_multi args = TypeArray # FormatInt (int (length args)) @ CRLF @ concat (map wire ?rs)"
    by (simp add: wire_multi_def NewArray_def)
  have item: "gives (bulk_item (decodeResp k ops)) s' r t'"
    if "r \<in> set ?rs" "live s'" "22 \<le> window s'" "rest s' = wire r @ t'" for r s' t'
    unfolding bulk_item_def
  proof (rule gives_bind)
    show "gives (decodeResp k ops) s' r t'"
      using that assms(6,7) wire_length_element [of r ?rs] w
      by (intro gives_resp) (auto simp: NewBulkBytes_def)
    show "gives (if resp_Type r \<noteq> TypeBulkBytes then failIO (Trace ErrBadMultiBulkContent) else returnIO r) u r t'"
      if "live u" "rest u = t'" for u
      using that \<open>r \<in> set ?rs\<close> by (auto simp: NewBulkBytes_def gives_return)
  qed
  let ?n = "int (length args)"
  have peek: "gives (mapErrIO Trace (op_PeekByte ops)) s TypeArray
      (TypeArray # FormatInt ?n @ CRLF @ concat (map wire ?rs) @ t)"
    using assms(1,3) w by (intro gives_mapErr gives_PeekByte) simp_all
  show ?thesis
    unfolding decodeMultiBulk_def
  proof (rule gives_bind [OF peek])
    fix s1 assume s1: "live s1" "window s1 = window s"
      "rest s1 = TypeArray # FormatInt ?n @ CRLF @ concat (map wire ?rs) @ t"
    have byte: "gives (mapErrIO Trace (op_ReadByte ops)) s1 TypeArray (FormatInt ?n @ CRLF @ concat (map wire ?rs) @ t)"
      using s1 by (intro gives_mapErr gives_ReadByte)
    let ?k = "\<lambda>n. if n \<le> 0 then failIO (Trace ErrBadArrayLen)
        else if MaxArrayLen < n then failIO (Trace ErrBadArrayLenTooLong)
        else bindIO (decode_items (bulk_item (decodeResp k ops)) (nat n)) (\<lambda>rs. returnIO (Some rs))"
    have tail: "gives (?k ?n) s3 (Some ?rs) t"
      if "live s3" "window s3 = window s" "rest s3 = concat (map wire ?rs) @ t" for s3
    proof -
      have "gives (decode_items (bulk_item (decodeResp k ops)) (length ?rs)) s3 ?rs t"
        using that assms(2) item by (intro gives_items) auto
      then have "gives (bindIO (decode_items (bulk_item (decodeResp k ops)) (length ?rs)) (\<lambda>rs. returnIO (Some rs)))
          s3 (Some ?rs) t"
        by (rule gives_bind) (rule gives_return)
      then show ?thesis using assms(4,5) by simp
    qed
    have int: "gives (mapErrIO Trace (decodeInt ops)) s2 ?n (concat (map wire ?rs) @ t)"
      if "live s2" "window s2 = window s" "rest s2 = FormatInt ?n @ CRLF @ concat (map wire ?rs) @ t" for s2
      using that assms(2,5) by (intro gives_mapErr gives_int) (auto simp: in_int64_def MaxArrayLen_def)
    show "gives (if TypeArray \<noteq> TypeArray then decodeSingleLineMultiBulk ops
       else bindIO (mapErrIO Trace (op_ReadByte ops)) (\<lambda>_. bindIO (mapErrIO Trace (decodeInt ops)) ?k))
       s1 (Some ?rs) t"
    proof (simp only: simp_thms if_False, rule gives_bind [OF byte])
      fix s2 assume s2: "live s2" "window s2 = window s1"
        "rest s2 = FormatInt ?n @ CRLF @ concat (map wire ?rs) @ t"
      show "gives (bindIO (mapErrIO Trace (decodeInt ops)) ?k) s2 (Some ?rs) t"
        using s1(2) s2 by (intro gives_bind [OF int] tail) simp_all
    qed
  qed
qed

end

end
