(* ===== verification/Credis_Wire.thy ===== *)
theory Credis_Wire
  imports Credis_Encoder Credis_Decoder Bufio2
begin

text \<open>
  The protocol coder of \<open>utils/resparse/credis\<close> on the buffered streams of \<open>bufio2\<close>: the package
  functions \<open>Encode\<close>, \<open>EncodeToBytes\<close>, \<open>Decode\<close>, \<open>DecodeFromBytes\<close> and
  \<open>DecodeMultiBulkFromBytes\<close>, and what holds of encoder, decoder, reader and writer together. The
  facts come from the interpretations of \<open>byte_reader\<close> and \<open>byte_writer\<close> in \<open>Bufio2\<close>.
\<close>

section \<open>Package functions\<close>

definition NewEncoderSize :: "sink \<Rightarrow> int \<Rightarrow> bwriter encoder" where
  "NewEncoderSize w sz = NewEncoderBuffer (NewWriterSize w sz)"

definition NewEncoder :: "sink \<Rightarrow> bwriter encoder" where
  "NewEncoder w = NewEncoderBuffer (NewWriterSize w 8192)"

definition EncodeToBytes :: "resp \<Rightarrow> go_error + bytes" where
  "EncodeToBytes r = (case Encode bufio_writer r True (NewEncoder ([], [])) of
     (Some err, _) \<Rightarrow> Inl err | (None, e) \<Rightarrow> Inr (fst (wr_sink (enc_bw e))))"

definition NewDecoderSize :: "source \<Rightarrow> int \<Rightarrow> breader decoder" where
  "NewDecoderSize src sz = NewDecoderBuffer (NewReaderSize src sz)"

definition NewDecoder :: "source \<Rightarrow> breader decoder" where
  "NewDecoder src = NewDecoderBuffer (NewReaderSize src 8192)"

text \<open>The buffer a pool handed out, \<open>None\<close> when it had none.\<close>

definition NewDecoderWithPoolBuffer :: "source \<Rightarrow> bytes option \<Rightarrow> breader decoder" where
  "NewDecoderWithPoolBuffer src pooled = NewDecoderBuffer (NewReaderSizeWithSyncPool src pooled 1024)"

text \<open>One more unit of fuel than there are bytes to read.\<close>

definition stream_fuel :: "breader decoder \<Rightarrow> nat" where
  "stream_fuel d = Suc (length (rd_rest (dec_br d)))"

definition Decode_bufio :: "(breader decoder, go_error, resp) io" where
  "Decode_bufio d = Decode (stream_fuel d) bufio_reader d"

definition DecodeMultiBulk_bufio :: "(breader decoder, go_error, resp list option) io" where
  "DecodeMultiBulk_bufio d = DecodeMultiBulk (stream_fuel d) bufio_reader d"

text \<open>\<open>bytes.NewReader(p)\<close> delivers as much of \<open>p\<close> as fits, then end of file.\<close>

definition bytes_NewReader :: "bytes \<Rightarrow> source" where
  "bytes_NewReader p = (if p = [] then [] else [(p, None)])"

definition DecodeFromBytes :: "bytes \<Rightarrow> go_error + resp" where
  "DecodeFromBytes p = fst (Decode_bufio (NewDecoder (bytes_NewReader p)))"

definition DecodeMultiBulkFromBytes :: "bytes \<Rightarrow> go_error + resp list option" where
  "DecodeMultiBulkFromBytes p = fst (DecodeMultiBulk_bufio (NewDecoder (bytes_NewReader p)))"

lemma bytes_NewReader_ok [simp]:
  "reliable (bytes_NewReader p)" "source_bytes (bytes_NewReader p) = p"
  by (auto simp: bytes_NewReader_def reliable_def)

lemma NewDecoder_fresh [simp]:
  "dec_Err (NewDecoderSize src sz) = None" "dec_br (NewDecoderSize src sz) = NewReaderSize src sz"
  "NewDecoder src = NewDecoderSize src 8192"
  by (simp_all add: NewDecoderSize_def NewDecoderBuffer_def NewDecoder_def)

lemma sticky_gives:
  assumes "bufio.gives m (dec_br d) x t" "dec_Err d = None"
  shows "\<exists>d'. sticky m d = (Inr x, d') \<and> dec_Err d' = None \<and> rd_live (dec_br d') \<and>
     rd_rest (dec_br d') = t"
  using assms by (auto simp: bufio.gives_def sticky_def)

section \<open>Round trips\<close>

lemma Decode_live:
  assumes "wf_resp r" "dec_Err d = None" "rd_live (dec_br d)" "22 \<le> rd_size (dec_br d)"
    "rd_rest (dec_br d) = wire r @ t"
  shows "\<exists>d'. Decode_bufio d = (Inr r, d') \<and> dec_Err d' = None \<and> rd_live (dec_br d') \<and>
     rd_rest (dec_br d') = t"
proof -
  have "bufio.gives (decodeResp (stream_fuel d) bufio_reader) (dec_br d) r t"
    using assms by (intro bufio.gives_resp) (simp_all add: stream_fuel_def)
  then show ?thesis
    using sticky_gives assms(2) by (simp add: Decode_bufio_def Decode_def)
qed

lemma empty_writer:
  "wr_live (NewWriterSize ([], []) sz)" "wr_sent (NewWriterSize ([], []) sz) = []"
  using NewWriterSize_ok [of "([], [])"] by (simp_all add: accepting_def)

lemma Encode_live:
  assumes "typed_resp r"
  shows "EncodeToBytes r = Inr (wire r)"
proof -
  obtain s' where "encode_with bufio_writer (encodeResp bufio_writer r) True
      (NewEncoderBuffer (NewWriterSize ([], []) 8192)) = (None, \<lparr>enc_bw = s', enc_Err = None\<rparr>)"
    "fst (wr_sink s') = wire r"
    using bufio.encode_with_flush [OF bufio.appends_resp [of r] bufio.succeeds_resp [OF assms] empty_writer(1)]
      empty_writer(2) by auto
  then show ?thesis
    by (simp add: EncodeToBytes_def Encode_def NewEncoder_def)
qed

text \<open>C1. Decoding undoes encoding: for every well-formed value, \<open>EncodeToBytes\<close> succeeds, and
  \<open>DecodeFromBytes\<close> on its output returns the very value.\<close>

theorem decode_encode_roundtrip:
  assumes "wf_resp r"
  shows "\<exists>p. EncodeToBytes r = Inr p \<and> DecodeFromBytes p = Inr r"
proof (intro exI conjI)
  show "EncodeToBytes r = Inr (wire r)"
    by (rule Encode_live [OF wf_typed [OF assms]])
  have "\<exists>d'. Decode_bufio (NewDecoderSize (bytes_NewReader (wire r)) 8192) = (Inr r, d') \<and>
      dec_Err d' = None \<and> rd_live (dec_br d') \<and> rd_rest (dec_br d') = []"
    using assms by (intro Decode_live) (simp_all add: NewReaderSize_ok)
  then show "DecodeFromBytes (wire r) = Inr r"
    by (auto simp: DecodeFromBytes_def)
qed

text \<open>A reply like the ones a server sends: an array with a text, a nil bulk string and an array.\<close>

definition sample_resp :: resp where
  "sample_resp = NewArray (Some [NewString (Some ''OK''), NewBulkBytes None,
     NewArray (Some [NewInt (Some ''42''), NewBulkBytes (Some [CR, LF])])])"

lemma sample_resp_wf: "wf_resp sample_resp"
  by (simp add: sample_resp_def NewArray_def NewString_def NewBulkBytes_def NewInt_def resp_types
      MaxArrayLen_def MaxBulkBytesLen_def)

lemma decode_encode_roundtrip_witness:
  "\<exists>p. EncodeToBytes sample_resp = Inr p \<and> DecodeFromBytes p = Inr sample_resp"
  by (rule decode_encode_roundtrip [OF sample_resp_wf])

text \<open>C12. Chunking does not matter: whatever non-empty reads the network delivers the bytes of a
  value in, and whatever the buffer size of at least 22 bytes, \<open>Decode\<close> returns the value and
  leaves exactly the bytes behind it to be read.\<close>

theorem decode_any_chunking:
  assumes "wf_resp r" "reliable src" "source_bytes src = wire r @ t" "22 \<le> sz"
  shows "\<exists>d'. Decode_bufio (NewDecoderSize src sz) = (Inr r, d') \<and> dec_Err d' = None \<and>
     rd_rest (dec_br d') = t"
proof -
  have "22 \<le> rd_size (dec_br (NewDecoderSize src sz))"
    using assms(4) by (auto simp: NewReaderSize_ok)
  then show ?thesis
    using Decode_live [of r "NewDecoderSize src sz" t] assms by (auto simp: NewReaderSize_ok)
qed

lemma decode_any_chunking_witness:
  "\<exists>d'. Decode_bufio (NewDecoderSize [(''+O'', None), (''K'', None), ([CR], None), (LF # ''*'', None)] 22)
      = (Inr (NewString (Some ''OK'')), d') \<and> dec_Err d' = None \<and> rd_rest (dec_br d') = ''*''"
  by (rule decode_any_chunking)
    (simp_all add: NewString_def resp_types reliable_def)

text \<open>C29. Whatever arrives, from whatever source and through whatever failures before, a value that
  \<open>Decode\<close> returns is well formed (so no bulk string is longer than \<open>MaxBulkBytesLen\<close> and no array
  than \<open>MaxArrayLen\<close>, at any depth), and it was taken off the front of the stream.\<close>

theorem decode_result_wf:
  assumes "rd_ok (dec_br d)" "Decode_bufio d = (Inr r, d')"
  shows "wf_resp r \<and> (\<exists>c. rd_rest (dec_br d) = c @ rd_rest (dec_br d')) \<and> rd_ok (dec_br d')"
  using assms soundD [OF bufio.sound_resp assms(1)]
  by (auto simp: Decode_bufio_def Decode_def sticky_def split: option.splits prod.splits sum.splits)

lemma decode_result_wf_witness:
  "\<exists>d'. Decode_bufio (NewDecoderSize (bytes_NewReader (wire sample_resp)) 64) = (Inr sample_resp, d') \<and>
     wf_resp sample_resp"
proof -
  let ?d = "NewDecoderSize (bytes_NewReader (wire sample_resp)) 64"
  obtain d' where d': "Decode_bufio ?d = (Inr sample_resp, d')"
    using Decode_live [OF sample_resp_wf, of ?d "[]"] by (auto simp: NewReaderSize_ok)
  moreover have "rd_ok (dec_br ?d)" by (simp add: NewReaderSize_ok)
  ultimately show ?thesis
    using decode_result_wf by blast
qed

text \<open>Decoding ends: the recursion of \<open>decodeResp\<close> is no deeper than the stream is long, so
  every amount of fuel above the number of bytes left gives one and the same result, errors
  included.\<close>

theorem decodeResp_terminates:
  assumes "rd_ok b" "length (rd_rest b) < k"
  shows "decodeResp k bufio_reader b = decodeResp (Suc (length (rd_rest b))) bufio_reader b"
  using bufio.decodeResp_fuel assms by blast

lemma decodeResp_terminates_witness:
  "decodeResp 9 bufio_reader (NewReader [(''+OK'', None)])
     = decodeResp (Suc (length (rd_rest (NewReader [(''+OK'', None)])))) bufio_reader (NewReader [(''+OK'', None)])"
  by (rule decodeResp_terminates) (simp_all add: NewReader_def NewReaderSize_ok)

lemma DecodeMultiBulk_wire:
  assumes "args \<noteq> []" "int (length args) \<le> MaxArrayLen"
    "\<forall>a \<in> set args. int (length a) \<le> MaxBulkBytesLen"
  shows "DecodeMultiBulkFromBytes (wire_multi args) = Inr (Some (map (\<lambda>a. NewBulkBytes (Some a)) args))"
proof -
  let ?rs = "map (\<lambda>a. NewBulkBytes (Some a)) args"
  let ?d = "NewDecoderSize (bytes_NewReader (wire_multi args)) 8192"
  have "bufio.gives (decodeMultiBulk (stream_fuel ?d) bufio_reader) (dec_br ?d) (Some ?rs) []"
    using assms by (intro bufio.gives_multi) (simp_all add: NewReaderSize_ok stream_fuel_def)
  from sticky_gives [OF this] show ?thesis
    by (auto simp: DecodeMultiBulkFromBytes_def DecodeMultiBulk_bufio_def DecodeMultiBulk_def)
qed

text \<open>A request survives the trip: what \<open>EncodeMultiBulk\<close> writes for a non-empty command,
  \<open>DecodeMultiBulkFromBytes\<close> reads back, argument by argument.\<close>

theorem multi_bulk_roundtrip:
  assumes "args \<noteq> []" "int (length args) \<le> MaxArrayLen"
    "\<forall>a \<in> set args. int (length a) \<le> MaxBulkBytesLen"
  shows "DecodeMultiBulkFromBytes (wire_multi args) = Inr (Some (map (\<lambda>a. NewBulkBytes (Some a)) args))
    \<and> (\<exists>e. EncodeMultiBulk bufio_writer (Some (map (\<lambda>a. NewBulkBytes (Some a)) args)) True (NewEncoder ([], []))
        = (None, e) \<and> fst (wr_sink (enc_bw e)) = wire_multi args)"
proof (intro conjI)
  let ?rs = "map (\<lambda>a. NewBulkBytes (Some a)) args"
  show "DecodeMultiBulkFromBytes (wire_multi args) = Inr (Some ?rs)"
    using assms by (rule DecodeMultiBulk_wire)
  have wire: "wire_multi args = TypeArray # bufio.wire_array (Some ?rs)"
    by (simp add: wire_multi_def NewArray_def bufio.wire_array_def)
  have "bufio.succeeds (encodeMultiBulk bufio_writer (Some ?rs))"
    by (rule bufio.encodeMultiBulk_writes(2)) (auto simp: NewBulkBytes_def)
  then obtain s' where "encode_with bufio_writer (encodeMultiBulk bufio_writer (Some ?rs)) True
      (NewEncoderBuffer (NewWriterSize ([], []) 8192)) = (None, \<lparr>enc_bw = s', enc_Err = None\<rparr>)"
    "fst (wr_sink s') = wire_multi args"
    using bufio.encode_with_flush [OF bufio.encodeMultiBulk_writes(1) _ empty_writer(1)] empty_writer(2) wire
    by (metis append_Nil)
  then show "\<exists>e. EncodeMultiBulk bufio_writer (Some ?rs) True (NewEncoder ([], [])) = (None, e) \<and>
      fst (wr_sink (enc_bw e)) = wire_multi args"
    by (simp add: EncodeMultiBulk_def NewEncoder_def)
qed

lemma multi_bulk_roundtrip_witness:
  "DecodeMultiBulkFromBytes (wire_multi [''SET'', ''k'', [LF]])
     = Inr (Some (map (\<lambda>a. NewBulkBytes (Some a)) [''SET'', ''k'', [LF]]))"
  using multi_bulk_roundtrip [of "[''SET'', ''k'', [LF]]"]
  by (simp add: MaxArrayLen_def MaxBulkBytesLen_def)

text \<open>An inline request is the list of its words: a line with at least one word decodes to its
  non-empty fields between spaces, whatever the chunking.\<close>

theorem inline_request_words:
  assumes "reliable src" "source_bytes src = b @ CRLF @ t" "LF \<notin> set b" "words_of b \<noteq> []"
    "hd b \<noteq> TypeArray"
  shows "\<exists>d'. DecodeMultiBulk_bufio (NewDecoderSize src sz)
      = (Inr (Some (map (\<lambda>w. NewBulkBytes (Some w)) (words_of b))), d') \<and> rd_rest (dec_br d') = t"
proof -
  let ?d = "NewDecoderSize src sz"
  obtain c cs where c: "b = c # cs" "c \<noteq> TypeArray"
    using assms(4,5) by (cases b) (auto simp: words_of_def)
  have live: "rd_live (dec_br ?d)" "rd_rest (dec_br ?d) = b @ CRLF @ t"
    using assms(1,2) by (simp_all add: NewReaderSize_ok)
  have "bufio.gives (decodeMultiBulk (stream_fuel ?d) bufio_reader) (dec_br ?d)
      (Some (map (\<lambda>w. NewBulkBytes (Some w)) (words_of b))) t"
    unfolding decodeMultiBulk_def
  proof (rule bufio.gives_bind)
    show "bufio.gives (mapErrIO Trace (op_PeekByte bufio_reader)) (dec_br ?d) c (c # cs @ CRLF @ t)"
      using live c by (intro bufio.gives_mapErr bufio.gives_PeekByte) simp_all
    fix s' assume "rd_live s'" "rd_rest s' = c # cs @ CRLF @ t"
    then show "bufio.gives (if c \<noteq> TypeArray then decodeSingleLineMultiBulk bufio_reader
       else bindIO (mapErrIO Trace (op_ReadByte bufio_reader)) (\<lambda>_. bindIO (mapErrIO Trace (decodeInt bufio_reader))
         (\<lambda>n. if n \<le> 0 then failIO (Trace ErrBadArrayLen)
              else if MaxArrayLen < n then failIO (Trace ErrBadArrayLenTooLong)
              else bindIO (decode_items (bulk_item (decodeResp (stream_fuel ?d) bufio_reader)) (nat n))
                     (\<lambda>rs. returnIO (Some rs))))) s' (Some (map (\<lambda>w. NewBulkBytes (Some w)) (words_of b))) t"
      using c assms(3,4) bufio.gives_inline [of s' b t] by simp
  qed
  from sticky_gives [OF this] show ?thesis
    by (auto simp: DecodeMultiBulk_bufio_def DecodeMultiBulk_def)
qed

lemma inline_request_words_witness:
  "\<exists>d'. DecodeMultiBulk_bufio (NewDecoderSize [(''GET  '', None), (''k'', None), (CRLF, None)] 4)
      = (Inr (Some [NewBulkBytes (Some ''GET''), NewBulkBytes (Some ''k'')]), d') \<and> rd_rest (dec_br d') = []"
  using inline_request_words [of "[(''GET  '', None), (''k'', None), (CRLF, None)]" "''GET  k''" "[]" 4]
  by (simp add: reliable_def words_of_def resp_types)

text \<open>A decoder that failed stays failed: it answers every later call with the same error and
  touches nothing.\<close>

theorem failed_decoder_sticks:
  assumes "Decode_bufio d = (Inl e, d')"
  shows "Decode_bufio d' = (Inl (Trace ErrFailedDecoder), d') \<and>
    DecodeMultiBulk_bufio d' = (Inl (Trace ErrFailedDecoder), d')"
  using assms
  by (auto simp: Decode_bufio_def Decode_def DecodeMultiBulk_bufio_def DecodeMultiBulk_def sticky_def
      split: option.splits prod.splits sum.splits)

lemma failed_decoder_sticks_witness:
  "\<exists>e d'. Decode_bufio (NewDecoder []) = (Inl e, d') \<and> Decode_bufio d' = (Inl (Trace ErrFailedDecoder), d')"
proof -
  have r: "fst (Decode_bufio (NewDecoder [])) = Inl (Trace EOF)"
    by (simp add: Decode_bufio_def Decode_def sticky_def bufio_reader_def ReadByte_def with_byte_def
        NewReaderSize_def mk_reader_def buffered_def fill_def compact_def bindIO_def mapErrIO_def
        stream_fuel_def split: prod.splits sum.splits)
  then obtain d' where "Decode_bufio (NewDecoder []) = (Inl (Trace EOF), d')"
    by (metis prod.collapse)
  then show ?thesis
    using failed_decoder_sticks by blast
qed

text \<open>The table of preformatted integers is right, and used in range: \<open>itoa\<close> is
  \<open>strconv.FormatInt\<close> for every integer.\<close>

theorem itoa_FormatInt: "itoa i = FormatInt i"
  by (rule itoa_table)

text \<open>The fast path of \<open>Btoi64\<close> changes nothing: on every input the function returns what
  \<open>strconv.ParseInt(b, 10, 64)\<close> does, its error traced.\<close>

theorem Btoi64_ParseInt:
  "Btoi64 b = (case ParseInt 64 b of (n, None) \<Rightarrow> Inr n | (_, Some e) \<Rightarrow> Inl (Trace (NumError e)))"
  unfolding Btoi64_slow btoi_slow_def ..

text \<open>A value of a type the protocol does not have is refused with an error, at any depth, by
  whatever writer, and an encoder that failed stays failed.\<close>

theorem encode_refuses_untyped:
  assumes "\<not> typed_resp r" "enc_Err e = None"
  shows "\<exists>err e'. Encode bufio_writer r fl e = (Some err, e') \<and>
    Encode bufio_writer r' fl' e' = (Some (Trace ErrFailedEncoder), e')"
proof -
  obtain err s where "encodeResp bufio_writer r (enc_bw e) = (Inl err, s)"
    using assms(1) encodeResp_typed [of bufio_writer r "enc_bw e"]
    by (metis sum.exhaust surj_pair unit.exhaust)
  then show ?thesis
    using assms(2) by (simp add: Encode_def encode_with_def)
qed

lemma encode_refuses_untyped_witness:
  "\<exists>err e'. Encode bufio_writer (NewArray (Some [Resp (CHR ''?'') None None])) True (NewEncoder ([], []))
      = (Some err, e') \<and>
    Encode bufio_writer (NewString None) True e' = (Some (Trace ErrFailedEncoder), e')"
  by (rule encode_refuses_untyped)
    (simp_all add: NewArray_def resp_types NewEncoder_def NewEncoderBuffer_def)

section \<open>Streams\<close>

text \<open>Reading a line is independent of buffer size and chunking: from a reader whose source
  does not fail, \<open>ReadBytes\<close> returns the bytes up to and including the first delimiter, however
  many buffers they span, and leaves what follows.\<close>

theorem ReadBytes_stream:
  assumes "reliable src" "source_bytes src = l @ d # t" "d \<notin> set l"
  shows "\<exists>b'. ReadBytes d (NewReaderSize src sz) = (Inr (l @ [d]), b') \<and> rd_rest b' = t"
  using bufio.ReadBytes_live [of "NewReaderSize src sz" l d t] assms
  by (auto simp: NewReaderSize_ok bufio_reader_def)

lemma ReadBytes_stream_witness:
  "\<exists>b'. ReadBytes (CHR '' '') (NewReaderSize [(''hel'', None), (''lo wor'', None)] 2)
     = (Inr (''hello'' @ '' ''), b') \<and> rd_rest b' = ''wor''"
  by (rule ReadBytes_stream) (simp_all add: reliable_def)

text \<open>Nothing is lost, repeated or reordered by the buffered writer: a \<open>Write\<close> and a \<open>Flush\<close>
  that report success have delivered exactly the bytes delivered and buffered before, then \<open>p\<close>,
  whatever short writes the underlying writer made on the way, and \<open>Write\<close> reports their number.\<close>

theorem Write_Flush_delivers:
  assumes "wr_ok b" "Write p b = ((n, None), b1)" "Flush b1 = (None, b2)"
  shows "n = length p \<and> fst (wr_sink b2) = fst (wr_sink b) @ take (wr_pos b) (wr_buf b) @ p \<and> wr_pos b2 = 0"
proof -
  have "wr_ok b1" "wr_sent b1 = wr_sent b @ p" "n = length p"
    using Write_wrote [OF assms(1,2)] by auto
  moreover from this have "fst (wr_sink b2) = wr_sent b1 \<and> wr_pos b2 = 0"
    using flush_ok(3) [of b1 None b2] assms(3) by (simp add: Flush_def)
  ultimately show ?thesis
    by (simp add: wr_sent_def)
qed

lemma Write_Flush_delivers_witness:
  "\<exists>n b1 b2. Write ''hello world'' (NewWriterSize ([], [(3, None)]) 4) = ((n, None), b1) \<and>
     Flush b1 = (None, b2) \<and> n = 11 \<and> fst (wr_sink b2) = ''hello world''"
proof -
  let ?b = "NewWriterSize ([], [(3, None)]) 4"
  obtain n b1 where w: "Write ''hello world'' ?b = ((n, None), b1)"
    by (simp add: Write_def Write_loop.simps NewWriterSize_def zeros_def available_def)
  moreover have "Flush b1 = (None, b1)"
    using w by (auto simp: Write_def Write_loop.simps NewWriterSize_def zeros_def available_def Flush_def flush_def)
  ultimately show ?thesis
    using Write_Flush_delivers [OF NewWriterSize_ok(1) w, of b1]
    by (intro exI [of _ n] exI [of _ b1]) (simp add: NewWriterSize_def)
qed

end
