(* ===== verification/Credis_Conn.thy ===== *)
theory Credis_Conn
  imports Credis_Encoder Credis_Decoder
begin

text \<open>
  \<open>utils/resparse/credis/conn.go\<close>: making and closing a connection, the deadlines it sets around its reads
  and writes, and the flush policy. The socket is not code of the repository: its operations are the argument \<open>so\<close>,
  over a socket state of any type, and the clock readings are arguments. Times and durations are
  nanosecond counts; the zero time, which clears a deadline, is \<open>None\<close>.
\<close>

section \<open>Deadlines\<close>

record 'n sock_ops =
  so_SetReadDeadline :: "int option \<Rightarrow> 'n \<Rightarrow> go_error option \<times> 'n"
  so_SetWriteDeadline :: "int option \<Rightarrow> 'n \<Rightarrow> go_error option \<times> 'n"
  so_Read :: "nat \<Rightarrow> 'n \<Rightarrow> (bytes \<times> go_error option) \<times> 'n"
  so_Write :: "bytes \<Rightarrow> 'n \<Rightarrow> (nat \<times> go_error option) \<times> 'n"
  so_SetKeepAlive :: "bool \<Rightarrow> 'n \<Rightarrow> go_error option \<times> 'n"
  so_SetKeepAlivePeriod :: "int \<Rightarrow> 'n \<Rightarrow> go_error option \<times> 'n"
  so_Close :: "'n \<Rightarrow> go_error option \<times> 'n"
  so_CloseRead :: "'n \<Rightarrow> go_error option \<times> 'n"
  so_LocalAddr :: "'n \<Rightarrow> string"
  so_RemoteAddr :: "'n \<Rightarrow> string"

record 'n conn =
  Sock :: 'n
  ReaderTimeout :: int
  WriterTimeout :: int
  LastWrite :: int
  rd_hasDeadline :: bool
  wr_hasDeadline :: bool

text \<open>The part \<open>Read\<close> and \<open>Write\<close> share: set the deadline a timeout asks for, or clear the one an
  earlier timeout left. The result is the error, the socket and the flag.\<close>

definition arm_deadline ::
    "(int option \<Rightarrow> 'n \<Rightarrow> go_error option \<times> 'n) \<Rightarrow> int \<Rightarrow> int \<Rightarrow> bool \<Rightarrow> 'n
       \<Rightarrow> go_error option \<times> 'n \<times> bool" where
  "arm_deadline set_deadline now timeout has n =
     (if timeout \<noteq> 0 then case set_deadline (Some (now + timeout)) n of
          (Some e, n') \<Rightarrow> (Some (Trace e), n', has) | (None, n') \<Rightarrow> (None, n', True)
      else if has then case set_deadline None n of
          (Some e, n') \<Rightarrow> (Some (Trace e), n', has) | (None, n') \<Rightarrow> (None, n', False)
      else (None, n, has))"

definition connReader_Read ::
    "'n sock_ops \<Rightarrow> int \<Rightarrow> nat \<Rightarrow> 'n conn \<Rightarrow> (bytes \<times> go_error option) \<times> 'n conn" where
  "connReader_Read so now k c =
     (case arm_deadline (so_SetReadDeadline so) now (ReaderTimeout c) (rd_hasDeadline c) (Sock c) of
        (Some e, n, has) \<Rightarrow> (([], Some e), c\<lparr>Sock := n, rd_hasDeadline := has\<rparr>)
      | (None, n, has) \<Rightarrow> (case so_Read so k n of ((d, e), n') \<Rightarrow>
          ((d, map_option Trace e), c\<lparr>Sock := n', rd_hasDeadline := has\<rparr>)))"

definition connWriter_Write ::
    "'n sock_ops \<Rightarrow> int \<Rightarrow> int \<Rightarrow> bytes \<Rightarrow> 'n conn \<Rightarrow> (nat \<times> go_error option) \<times> 'n conn" where
  "connWriter_Write so now after b c =
     (case arm_deadline (so_SetWriteDeadline so) now (WriterTimeout c) (wr_hasDeadline c) (Sock c) of
        (Some e, n, has) \<Rightarrow> ((0, Some e), c\<lparr>Sock := n, wr_hasDeadline := has\<rparr>)
      | (None, n, has) \<Rightarrow> (case so_Write so b n of ((k, e), n') \<Rightarrow>
          ((k, map_option Trace e), c\<lparr>Sock := n', wr_hasDeadline := has, LastWrite := after\<rparr>)))"

definition SetKeepAlivePeriod ::
    "'n sock_ops \<Rightarrow> bool \<Rightarrow> int \<Rightarrow> 'n conn \<Rightarrow> go_error option \<times> 'n conn" where
  "SetKeepAlivePeriod so is_tcp d c =
     (if is_tcp then case so_SetKeepAlive so (d \<noteq> 0) (Sock c) of
          (Some e, n) \<Rightarrow> (Some (Trace e), c\<lparr>Sock := n\<rparr>)
        | (None, n) \<Rightarrow>
            if d \<noteq> 0 then case so_SetKeepAlivePeriod so d n of
                (Some e, n') \<Rightarrow> (Some (Trace e), c\<lparr>Sock := n'\<rparr>) | (None, n') \<Rightarrow> (None, c\<lparr>Sock := n'\<rparr>)
            else (None, c\<lparr>Sock := n\<rparr>)
      else (None, c))"

text \<open>\<open>is_net_timeout m\<close>: the operating system error \<open>m\<close> is a \<open>net.OpError\<close> that timed out.\<close>

definition IsTimeout :: "(string \<Rightarrow> bool) \<Rightarrow> go_error option \<Rightarrow> bool" where
  "IsTimeout is_net_timeout err =
     (case Cause err of Some (OSError m) \<Rightarrow> is_net_timeout m | _ \<Rightarrow> False)"

definition deadline_tracked :: "('n \<Rightarrow> int option) \<Rightarrow> 'n conn \<Rightarrow> bool" where
  "deadline_tracked dl c \<longleftrightarrow> (rd_hasDeadline c \<longleftrightarrow> dl (Sock c) \<noteq> None)"

text \<open>A deadline does not outlive its timeout: given a socket that keeps the read deadline it is
  told and answers no error to that, the flag of the connection says whether one is set, and a read
  with timeout zero runs with none.\<close>

theorem read_deadline_tracked:
  assumes set: "\<And>d n. fst (so_SetReadDeadline so d n) = None \<and> dl (snd (so_SetReadDeadline so d n)) = d"
    and read: "\<And>k n. dl (snd (so_Read so k n)) = dl n"
    and inv: "deadline_tracked dl c"
    and step: "connReader_Read so now k c = (r, c')"
  shows "deadline_tracked dl c' \<and> ReaderTimeout c' = ReaderTimeout c \<and>
    dl (Sock c') = (if ReaderTimeout c = 0 then None else Some (now + ReaderTimeout c))"
proof -
  obtain e n has where a:
    "arm_deadline (so_SetReadDeadline so) now (ReaderTimeout c) (rd_hasDeadline c) (Sock c) = (e, n, has)"
    by (metis surj_pair)
  have n: "e = None" "dl n = (if ReaderTimeout c = 0 then None else Some (now + ReaderTimeout c))"
    "has \<longleftrightarrow> dl n \<noteq> None"
    using a set [of "Some (now + ReaderTimeout c)" "Sock c"] set [of None "Sock c"] inv
    by (auto simp: arm_deadline_def deadline_tracked_def split: if_splits prod.splits option.splits)
  obtain d x n' where "so_Read so k n = ((d, x), n')" by (metis surj_pair)
  then show ?thesis
    using step a n read [of k n] by (auto simp: connReader_Read_def deadline_tracked_def)
qed

definition toy_sock :: "(int option) sock_ops" where
  "toy_sock = \<lparr>so_SetReadDeadline = (\<lambda>d n. (None, d)), so_SetWriteDeadline = (\<lambda>d n. (None, n)),
     so_Read = (\<lambda>k n. (([], Some EOF), n)), so_Write = (\<lambda>b n. ((length b, None), n)),
     so_SetKeepAlive = (\<lambda>b n. (None, n)), so_SetKeepAlivePeriod = (\<lambda>d n. (None, n)),
     so_Close = (\<lambda>n. (None, n)), so_CloseRead = (\<lambda>n. (None, n)), so_LocalAddr = (\<lambda>n. []), so_RemoteAddr = (\<lambda>n. [])\<rparr>"

lemma read_deadline_tracked_witness:
  "\<exists>r c'. connReader_Read toy_sock 100 1 \<lparr>Sock = Some 7, ReaderTimeout = 0, WriterTimeout = 0, LastWrite = 0,
      rd_hasDeadline = True, wr_hasDeadline = False\<rparr> = (r, c') \<and> Sock c' = None"
proof -
  let ?c = "\<lparr>Sock = Some 7, ReaderTimeout = 0, WriterTimeout = 0, LastWrite = 0,
      rd_hasDeadline = True, wr_hasDeadline = False\<rparr>"
  obtain r c' where "connReader_Read toy_sock 100 1 ?c = (r, c')" by (metis surj_pair)
  then show ?thesis
    using read_deadline_tracked [of toy_sock "\<lambda>n. n" ?c 100 1 r c']
    by (auto simp: toy_sock_def deadline_tracked_def)
qed

section \<open>Making and closing a connection\<close>

text \<open>The decoder reads what \<open>connReader_Read\<close> answers, the encoder writes to \<open>connWriter_Write\<close>; \<open>src\<close> and \<open>snk\<close> are
  the stream of those answers. Both take the size of a buffer and make one of the default size.\<close>

definition newConnDecoder :: "source \<Rightarrow> int \<Rightarrow> breader decoder" where
  "newConnDecoder src bufsize = NewDecoderBuffer (NewReaderBuffer src [])"

definition newConnEncoder :: "sink \<Rightarrow> int \<Rightarrow> bwriter encoder" where
  "newConnEncoder snk bufsize = NewEncoderBuffer (NewWriterBuffer snk [])"

definition NewConn :: "source \<Rightarrow> sink \<Rightarrow> 'n \<Rightarrow> int \<Rightarrow> int \<Rightarrow> 'n conn \<times> breader decoder \<times> bwriter encoder" where
  "NewConn src snk sock rbuf wbuf =
     (\<lparr>Sock = sock, ReaderTimeout = 0, WriterTimeout = 0, LastWrite = 0, rd_hasDeadline = False, wr_hasDeadline = False\<rparr>,
      newConnDecoder src rbuf, newConnEncoder snk wbuf)"

definition conn_DialTimeout :: "(string \<Rightarrow> int \<Rightarrow> go_error + 'n) \<Rightarrow> source \<Rightarrow> sink \<Rightarrow> string \<Rightarrow> int \<Rightarrow> int \<Rightarrow> int
    \<Rightarrow> go_error + 'n conn \<times> breader decoder \<times> bwriter encoder" where
  "conn_DialTimeout dial src snk addr timeout rbuf wbuf = (case dial addr timeout of
     Inl e \<Rightarrow> Inl (Trace e)
   | Inr c \<Rightarrow> Inr (NewConn src snk c rbuf wbuf))"

definition LocalAddr :: "'n sock_ops \<Rightarrow> 'n conn \<Rightarrow> string" where
  "LocalAddr so c = so_LocalAddr so (Sock c)"

definition RemoteAddr :: "'n sock_ops \<Rightarrow> 'n conn \<Rightarrow> string" where
  "RemoteAddr so c = so_RemoteAddr so (Sock c)"

definition conn_Close :: "'n sock_ops \<Rightarrow> 'n conn \<Rightarrow> go_error option \<times> 'n conn" where
  "conn_Close so c = (case so_Close so (Sock c) of (e, n) \<Rightarrow> (e, c\<lparr>Sock := n\<rparr>))"

definition CloseReader :: "'n sock_ops \<Rightarrow> bool \<Rightarrow> 'n conn \<Rightarrow> go_error option \<times> 'n conn" where
  "CloseReader so is_tcp c =
     (if is_tcp then case so_CloseRead so (Sock c) of (e, n) \<Rightarrow> (e, c\<lparr>Sock := n\<rparr>) else conn_Close so c)"

text \<open>The sizes a caller asks for have no effect.\<close>

lemma NewConn_default_sizes:
  "NewConn src snk sock rbuf wbuf = (c, d, e) \<Longrightarrow>
     length (rd_buf (dec_br d)) = 1024 \<and> length (wr_buf (enc_bw e)) = 1024 \<and> (c, d, e) = NewConn src snk sock 0 0"
  by (auto simp: NewConn_def newConnDecoder_def newConnEncoder_def NewReaderBuffer_def NewWriterBuffer_def mk_reader_def
      NewDecoderBuffer_def NewEncoderBuffer_def zeros_def DefaultBufferSize_def)

section \<open>The flush policy\<close>

text \<open>\<open>FlushEncoder\<close>: encode without flushing, and flush when asked, when more than \<open>MaxBuffered\<close>
  values wait, or when the last write is longer ago than \<open>MaxInterval\<close>. The encoder is that of the
  connection, \<open>last_write\<close> its \<open>LastWrite\<close>.\<close>

record 's flush_encoder =
  fe_enc :: "'s encoder"
  MaxInterval :: int
  MaxBuffered :: int
  nbuffered :: int

definition NeedFlush :: "('s \<Rightarrow> int) \<Rightarrow> int \<Rightarrow> 's flush_encoder \<Rightarrow> bool" where
  "NeedFlush last_write now p \<longleftrightarrow> nbuffered p \<noteq> 0 \<and>
     (MaxBuffered p < nbuffered p \<or> MaxInterval p < now - last_write (enc_bw (fe_enc p)))"

definition FlushEncoder_Flush ::
    "'s writer_ops \<Rightarrow> ('s \<Rightarrow> int) \<Rightarrow> int \<Rightarrow> bool \<Rightarrow> 's flush_encoder \<Rightarrow> go_error option \<times> 's flush_encoder" where
  "FlushEncoder_Flush ops last_write now force p =
     (if force \<or> NeedFlush last_write now p then
        case Flush_encoder ops (fe_enc p) of
          (Some e, enc) \<Rightarrow> (Some e, p\<lparr>fe_enc := enc\<rparr>)
        | (None, enc) \<Rightarrow> (None, p\<lparr>fe_enc := enc, nbuffered := 0\<rparr>)
      else (None, p))"

definition FlushEncoder_Encode ::
    "'s writer_ops \<Rightarrow> resp \<Rightarrow> 's flush_encoder \<Rightarrow> go_error option \<times> 's flush_encoder" where
  "FlushEncoder_Encode ops r p = (case Encode ops r False (fe_enc p) of
     (Some e, enc) \<Rightarrow> (Some e, p\<lparr>fe_enc := enc\<rparr>)
   | (None, enc) \<Rightarrow> (None, p\<lparr>fe_enc := enc, nbuffered := nbuffered p + 1\<rparr>))"

definition FlushEncoder_EncodeMultiBulk ::
    "'s writer_ops \<Rightarrow> resp list option \<Rightarrow> 's flush_encoder \<Rightarrow> go_error option \<times> 's flush_encoder" where
  "FlushEncoder_EncodeMultiBulk ops multi p = (case EncodeMultiBulk ops multi False (fe_enc p) of
     (Some e, enc) \<Rightarrow> (Some e, p\<lparr>fe_enc := enc\<rparr>)
   | (None, enc) \<Rightarrow> (None, p\<lparr>fe_enc := enc, nbuffered := nbuffered p + 1\<rparr>))"

text \<open>Encode and then offer to flush, for a whole list of replies: the loop a proxy session runs.\<close>

fun encode_all ::
    "'s writer_ops \<Rightarrow> ('s \<Rightarrow> int) \<Rightarrow> int \<Rightarrow> resp list \<Rightarrow> 's flush_encoder \<Rightarrow> go_error option \<times> 's flush_encoder" where
  "encode_all ops lw now [] p = (None, p)"
| "encode_all ops lw now (r # rs) p = (case FlushEncoder_Encode ops r p of
     (Some e, p') \<Rightarrow> (Some e, p')
   | (None, p') \<Rightarrow> (case FlushEncoder_Flush ops lw now False p' of
       (Some e, p'') \<Rightarrow> (Some e, p'')
     | (None, p'') \<Rightarrow> encode_all ops lw now rs p''))"

lemma Flush_bound:
  assumes "FlushEncoder_Flush ops lw now force p = (None, p')" "0 \<le> nbuffered p" "0 \<le> MaxBuffered p"
  shows "0 \<le> nbuffered p' \<and> nbuffered p' \<le> MaxBuffered p' \<and> MaxBuffered p' = MaxBuffered p"
  using assms
  by (auto simp: FlushEncoder_Flush_def NeedFlush_def split: if_splits prod.splits option.splits)

text \<open>The policy bounds what waits: a session that offers a flush after every reply never has
  more than \<open>MaxBuffered\<close> replies waiting, and when its clock says the last write is too old, none.\<close>

theorem flush_policy_bound:
  assumes "encode_all ops lw now rs p = (None, p')" "0 \<le> nbuffered p" "nbuffered p \<le> MaxBuffered p"
  shows "0 \<le> nbuffered p' \<and> nbuffered p' \<le> MaxBuffered p' \<and> MaxBuffered p' = MaxBuffered p"
  using assms
proof (induction rs arbitrary: p)
  case (Cons r rs)
  then obtain p1 p2 where 1: "FlushEncoder_Encode ops r p = (None, p1)"
    and 2: "FlushEncoder_Flush ops lw now False p1 = (None, p2)"
    and 3: "encode_all ops lw now rs p2 = (None, p')"
    by (auto split: prod.splits option.splits)
  have "0 \<le> nbuffered p1" "0 \<le> MaxBuffered p1" "MaxBuffered p1 = MaxBuffered p"
    using 1 Cons.prems(2,3) by (auto simp: FlushEncoder_Encode_def split: prod.splits option.splits)
  then show ?case
    using Cons.IH [OF 3] Flush_bound [OF 2] by simp
qed simp

definition sample_flush_encoder :: "bwriter flush_encoder" where
  "sample_flush_encoder = \<lparr>fe_enc = NewEncoderBuffer (NewWriterSize ([], []) 8), MaxInterval = 5,
     MaxBuffered = 1, nbuffered = 0\<rparr>"

lemma sample_session:
  "\<exists>p'. encode_all bufio_writer (\<lambda>_. 0) 0 [NewString (Some ''OK''), NewInt (Some ''1'')] sample_flush_encoder
     = (None, p') \<and> nbuffered p' = 0 \<and> fst (wr_sink (enc_bw (fe_enc p'))) = ''+OK'' @ CRLF @ '':1'' @ CRLF"
  by (simp add: sample_flush_encoder_def FlushEncoder_Encode_def FlushEncoder_Flush_def Encode_def
      encode_with_def NewEncoderBuffer_def NewWriterSize_def zeros_def NewString_def NewInt_def resp_types
      put_def bindIO_def bufio_writer_def encodeTextBytes_def WriteByte_def Write_def Write_loop.simps
      WriteString_def WriteString_loop.simps available_def buffer_in_def flush_def Flush_def write_at_def
      NeedFlush_def Flush_encoder_def eval_nat_numeral)

lemma flush_policy_bound_witness:
  "\<exists>p'. encode_all bufio_writer (\<lambda>_. 0) 0 [NewString (Some ''OK''), NewInt (Some ''1'')] sample_flush_encoder
     = (None, p') \<and> nbuffered p' \<le> 1"
proof -
  obtain p' where p': "encode_all bufio_writer (\<lambda>_. 0) 0 [NewString (Some ''OK''), NewInt (Some ''1'')]
      sample_flush_encoder = (None, p')"
    using sample_session by blast
  then show ?thesis
    using flush_policy_bound [OF p'] by (simp add: sample_flush_encoder_def)
qed

end
