(* ===== verification/Cluster_Hash.thy ===== *)
theory Cluster_Hash
  imports Go_Errors
begin

unbundle bit_operations_syntax

text \<open>
  \<open>utils/rediscluster/crc16.go\<close> and the key functions of \<open>cluster.go\<close>: the CRC of a key, the hash
  tag between braces, and the slot. \<open>range buf\<close> over a Go string visits its runes, not its bytes;
  \<open>runes\<close> is that decoding of UTF-8, with the replacement character for an invalid byte.
\<close>

section \<open>Runes of a string\<close>

text \<open>The rune at the front of a non-empty string and its width.\<close>

definition cont_byte :: "nat \<Rightarrow> bool" where
  "cont_byte b \<longleftrightarrow> 0x80 \<le> b \<and> b \<le> 0xBF"

definition second_ok :: "nat \<Rightarrow> nat \<Rightarrow> bool" where
  "second_ok x y \<longleftrightarrow>
     (if x = 0xE0 then 0xA0 \<le> y \<and> y \<le> 0xBF
      else if x = 0xED then 0x80 \<le> y \<and> y \<le> 0x9F
      else if x = 0xF0 then 0x90 \<le> y \<and> y \<le> 0xBF
      else if x = 0xF4 then 0x80 \<le> y \<and> y \<le> 0x8F
      else cont_byte y)"

definition decode_rune :: "nat list \<Rightarrow> nat \<times> nat" where
  "decode_rune bs = (case bs of [] \<Rightarrow> (0xFFFD, 0) | x # r \<Rightarrow>
     if x < 0x80 then (x, 1)
     else if 0xC2 \<le> x \<and> x \<le> 0xDF \<and> 1 \<le> length r \<and> cont_byte (r ! 0) then
       ((x - 0xC0) * 64 + (r ! 0 - 0x80), 2)
     else if 0xE0 \<le> x \<and> x \<le> 0xEF \<and> 2 \<le> length r \<and> second_ok x (r ! 0) \<and> cont_byte (r ! 1) then
       ((x - 0xE0) * 4096 + (r ! 0 - 0x80) * 64 + (r ! 1 - 0x80), 3)
     else if 0xF0 \<le> x \<and> x \<le> 0xF4 \<and> 3 \<le> length r \<and> second_ok x (r ! 0) \<and> cont_byte (r ! 1)
         \<and> cont_byte (r ! 2) then
       ((x - 0xF0) * 262144 + (r ! 0 - 0x80) * 4096 + (r ! 1 - 0x80) * 64 + (r ! 2 - 0x80), 4)
     else (0xFFFD, 1))"

function runes_of :: "nat list \<Rightarrow> nat list" where
  "runes_of bs = (if bs = [] then []
     else case decode_rune bs of (r, w) \<Rightarrow> r # runes_of (drop (max 1 w) bs))"
  by pat_completeness auto
termination by (relation "measure length") auto

declare runes_of.simps [simp del]

definition runes :: "bytes \<Rightarrow> nat list" where
  "runes s = runes_of (map of_char s)"

definition ascii :: "bytes \<Rightarrow> bool" where
  "ascii s \<longleftrightarrow> (\<forall>c \<in> set s. (of_char c :: nat) < 128)"

lemma runes_of_ascii: "\<forall>b \<in> set bs. b < 128 \<Longrightarrow> runes_of bs = bs"
proof (induction bs)
  case (Cons b bs)
  then show ?case by (simp add: runes_of.simps [of "b # bs"] decode_rune_def)
qed (simp add: runes_of.simps)

lemma runes_ascii: "ascii s \<Longrightarrow> runes s = map of_char s"
  by (auto simp: runes_def ascii_def intro!: runes_of_ascii)

section \<open>CRC16\<close>

definition crc16tab :: "16 word list" where
  "crc16tab = [
    0x0000, 0x1021, 0x2042, 0x3063, 0x4084, 0x50a5, 0x60c6, 0x70e7,
    0x8108, 0x9129, 0xa14a, 0xb16b, 0xc18c, 0xd1ad, 0xe1ce, 0xf1ef,
    0x1231, 0x0210, 0x3273, 0x2252, 0x52b5, 0x4294, 0x72f7, 0x62d6,
    0x9339, 0x8318, 0xb37b, 0xa35a, 0xd3bd, 0xc39c, 0xf3ff, 0xe3de,
    0x2462, 0x3443, 0x0420, 0x1401, 0x64e6, 0x74c7, 0x44a4, 0x5485,
    0xa56a, 0xb54b, 0x8528, 0x9509, 0xe5ee, 0xf5cf, 0xc5ac, 0xd58d,
    0x3653, 0x2672, 0x1611, 0x0630, 0x76d7, 0x66f6, 0x5695, 0x46b4,
    0xb75b, 0xa77a, 0x9719, 0x8738, 0xf7df, 0xe7fe, 0xd79d, 0xc7bc,
    0x48c4, 0x58e5, 0x6886, 0x78a7, 0x0840, 0x1861, 0x2802, 0x3823,
    0xc9cc, 0xd9ed, 0xe98e, 0xf9af, 0x8948, 0x9969, 0xa90a, 0xb92b,
    0x5af5, 0x4ad4, 0x7ab7, 0x6a96, 0x1a71, 0x0a50, 0x3a33, 0x2a12,
    0xdbfd, 0xcbdc, 0xfbbf, 0xeb9e, 0x9b79, 0x8b58, 0xbb3b, 0xab1a,
    0x6ca6, 0x7c87, 0x4ce4, 0x5cc5, 0x2c22, 0x3c03, 0x0c60, 0x1c41,
    0xedae, 0xfd8f, 0xcdec, 0xddcd, 0xad2a, 0xbd0b, 0x8d68, 0x9d49,
    0x7e97, 0x6eb6, 0x5ed5, 0x4ef4, 0x3e13, 0x2e32, 0x1e51, 0x0e70,
    0xff9f, 0xefbe, 0xdfdd, 0xcffc, 0xbf1b, 0xaf3a, 0x9f59, 0x8f78,
    0x9188, 0x81a9, 0xb1ca, 0xa1eb, 0xd10c, 0xc12d, 0xf14e, 0xe16f,
    0x1080, 0x00a1, 0x30c2, 0x20e3, 0x5004, 0x4025, 0x7046, 0x6067,
    0x83b9, 0x9398, 0xa3fb, 0xb3da, 0xc33d, 0xd31c, 0xe37f, 0xf35e,
    0x02b1, 0x1290, 0x22f3, 0x32d2, 0x4235, 0x5214, 0x6277, 0x7256,
    0xb5ea, 0xa5cb, 0x95a8, 0x8589, 0xf56e, 0xe54f, 0xd52c, 0xc50d,
    0x34e2, 0x24c3, 0x14a0, 0x0481, 0x7466, 0x6447, 0x5424, 0x4405,
    0xa7db, 0xb7fa, 0x8799, 0x97b8, 0xe75f, 0xf77e, 0xc71d, 0xd73c,
    0x26d3, 0x36f2, 0x0691, 0x16b0, 0x6657, 0x7676, 0x4615, 0x5634,
    0xd94c, 0xc96d, 0xf90e, 0xe92f, 0x99c8, 0x89e9, 0xb98a, 0xa9ab,
    0x5844, 0x4865, 0x7806, 0x6827, 0x18c0, 0x08e1, 0x3882, 0x28a3,
    0xcb7d, 0xdb5c, 0xeb3f, 0xfb1e, 0x8bf9, 0x9bd8, 0xabbb, 0xbb9a,
    0x4a75, 0x5a54, 0x6a37, 0x7a16, 0x0af1, 0x1ad0, 0x2ab3, 0x3a92,
    0xfd2e, 0xed0f, 0xdd6c, 0xcd4d, 0xbdaa, 0xad8b, 0x9de8, 0x8dc9,
    0x7c26, 0x6c07, 0x5c64, 0x4c45, 0x3ca2, 0x2c83, 0x1ce0, 0x0cc1,
    0xef1f, 0xff3e, 0xcf5d, 0xdf7c, 0xaf9b, 0xbfba, 0x8fd9, 0x9ff8,
    0x6e17, 0x7e36, 0x4e55, 0x5e74, 0x2e93, 0x3eb2, 0x0ed1, 0x1ef0]"

definition crc16_step :: "16 word \<Rightarrow> nat \<Rightarrow> 16 word" where
  "crc16_step crc n =
     push_bit 8 crc XOR crc16tab ! unat ((drop_bit 8 crc XOR word_of_nat n) AND (0x00FF :: 16 word))"

definition crc16 :: "bytes \<Rightarrow> 16 word" where
  "crc16 buf = foldl crc16_step 0 (runes buf)"

text \<open>The specification the file's comment gives: width 16, polynomial 1021 (hexadecimal), initial value 0,
  no reflection, no final exclusive or; one bit at a time.\<close>

definition crc_bit :: "16 word \<Rightarrow> 16 word" where
  "crc_bit x = (if bit x 15 then push_bit 1 x XOR 0x1021 else push_bit 1 x)"

definition crc_byte :: "16 word \<Rightarrow> nat \<Rightarrow> 16 word" where
  "crc_byte crc b = (crc_bit ^^ 8) (crc XOR push_bit 8 (word_of_nat b))"

definition crc16_xmodem :: "bytes \<Rightarrow> 16 word" where
  "crc16_xmodem s = foldl crc_byte 0 (map of_char s)"


section \<open>The table is the polynomial\<close>

lemma crc_bit_xor: "crc_bit (x XOR y) = crc_bit x XOR crc_bit y"
  by (auto simp: crc_bit_def bit_xor_iff push_bit_xor ac_simps)

lemma crc_bits_xor: "(crc_bit ^^ k) (x XOR y) = (crc_bit ^^ k) x XOR (crc_bit ^^ k) y"
  by (induction k) (simp_all add: crc_bit_xor)

lemma crc_bits_low:
  assumes "\<And>n. 8 \<le> n \<Longrightarrow> \<not> bit x n"
  shows "k \<le> 8 \<Longrightarrow> (crc_bit ^^ k) x = push_bit k x"
proof (induction k)
  case (Suc k)
  then have "\<not> bit (push_bit k x) 15"
    using assms [of "15 - k"] by (simp add: bit_simps)
  then show ?case
    using Suc by (simp add: crc_bit_def)
qed simp

lemma crc16tab_rows:
  "concat (map (\<lambda>x. [crc_bit x, crc_bit x XOR 0x1021]) (take 128 crc16tab)) = crc16tab"
  by (simp add: crc_bit_def crc16tab_def)

lemma nth_concat_pairs:
  "j < length xs \<Longrightarrow> concat (map (\<lambda>x. [f x, g x]) xs) ! (2 * j) = f (xs ! j) \<and>
     concat (map (\<lambda>x. [f x, g x]) xs) ! (2 * j + 1) = g (xs ! j)"
  by (induction xs arbitrary: j) (auto simp: nth_Cons split: nat.splits)

lemma crc16tab_length: "length crc16tab = 256"
  by (simp add: crc16tab_def)

lemma crc16tab_double:
  assumes "j < 128"
  shows "crc16tab ! (2 * j) = crc_bit (crc16tab ! j)"
    "crc16tab ! (2 * j + 1) = crc_bit (crc16tab ! j) XOR 0x1021"
  using nth_concat_pairs [of j "take 128 crc16tab" crc_bit "\<lambda>x. crc_bit x XOR 0x1021"] assms
  by (simp_all add: crc16tab_rows crc16tab_length)

lemma not_bit_above: "n < 2 ^ m \<Longrightarrow> m \<le> k \<Longrightarrow> \<not> bit (n :: nat) k"
proof -
  assume "n < 2 ^ m" "m \<le> k"
  then have "n < 2 ^ k"
    by (meson less_le_trans one_le_numeral power_increasing)
  then show ?thesis
    by (simp add: bit_iff_odd)
qed

lemma crc_bits_8:
  "(crc_bit ^^ 8) x = crc_bit (crc_bit (crc_bit (crc_bit (crc_bit (crc_bit (crc_bit (crc_bit x)))))))"
  by (simp add: eval_nat_numeral)

lemma crc_entry_double:
  assumes "j < 128"
  shows "crc_bit ((crc_bit ^^ 8) (push_bit 8 (word_of_nat j))) = (crc_bit ^^ 8) (push_bit 8 (word_of_nat (2 * j)))"
proof -
  have "\<not> bit (word_of_nat j :: 16 word) 7"
    using not_bit_above [of j 7 7] assms by (simp add: bit_simps)
  then have "crc_bit (push_bit 8 (word_of_nat j)) = push_bit 1 (push_bit 8 (word_of_nat j))"
    by (simp add: crc_bit_def bit_simps)
  also have "\<dots> = push_bit 8 (word_of_nat (2 * j))"
    by (simp add: push_bit_eq_mult ac_simps)
  finally show ?thesis
    by (simp add: funpow_swap1)
qed

lemma crc_entry_odd:
  "(crc_bit ^^ 8) (push_bit 8 (word_of_nat (2 * j + 1)))
     = (crc_bit ^^ 8) (push_bit 8 (word_of_nat (2 * j))) XOR 0x1021"
proof -
  have "2 * j + 1 = (2 * j) XOR 1"
    by (simp only: xor_one_eq) simp
  then have "(word_of_nat (2 * j + 1) :: 16 word) = word_of_nat (2 * j) XOR 1"
    by (simp only: of_nat_xor_eq of_nat_1)
  moreover have "(crc_bit ^^ 8) (push_bit 8 1) = 0x1021"
    by (simp add: crc_bits_8 crc_bit_def)
  ultimately show ?thesis
    by (simp only: push_bit_xor crc_bits_xor)
qed

lemma crc16tab_nth: "i < 256 \<Longrightarrow> crc16tab ! i = (crc_bit ^^ 8) (push_bit 8 (word_of_nat i))"
proof (induction i rule: less_induct)
  case (less i)
  obtain j where "i = 2 * j \<or> i = 2 * j + 1" by (meson oddE evenE)
  then consider "i = 0" | "i = 2 * j" "j < i" | "i = 2 * j + 1" "j < i"
    by (cases "j = 0") auto
  then show ?case
  proof cases
    case 1
    have "(crc_bit ^^ 8) 0 = 0" by (simp add: crc_bits_8 crc_bit_def)
    then show ?thesis using 1 by (simp add: crc16tab_def)
  next
    case 2
    then show ?thesis
      using less crc16tab_double(1) [of j] crc_entry_double [of j] by simp
  next
    case 3
    then have j: "j < 128" "j < 256" using less.prems by simp_all
    have "crc16tab ! i = crc_bit (crc16tab ! j) XOR 0x1021"
      using crc16tab_double(2) [OF j(1)] 3 by simp
    also have "\<dots> = (crc_bit ^^ 8) (push_bit 8 (word_of_nat (2 * j))) XOR 0x1021"
      using less.IH [OF 3(2) j(2)] crc_entry_double [OF j(1)] by simp
    also have "\<dots> = (crc_bit ^^ 8) (push_bit 8 (word_of_nat i))"
      using crc_entry_odd [of j] 3(1) by simp
    finally show ?thesis .
  qed
qed

lemma crc16_step_byte:
  assumes "n < 256"
  shows "crc16_step crc n = crc_byte crc n"
proof -
  let ?h = "drop_bit 8 crc" and ?l = "take_bit 8 crc"
  let ?n = "word_of_nat n :: 16 word"
  have nbit: "\<not> bit n k" if "8 \<le> k" for k
    using not_bit_above [of n 8 k] assms that by simp
  have cbit: "k < 8" if "bit crc (8 + k)" for k
    using bit_imp_le_length [OF that] by simp
  have idx: "(?h XOR ?n) AND 0x00FF = ?h XOR ?n"
  proof -
    have "(?h XOR ?n) AND 0x00FF = take_bit 8 (?h XOR ?n)"
      by (simp add: take_bit_eq_mask mask_eq_exp_minus_1)
    also have "\<dots> = ?h XOR ?n"
      by (rule bit_word_eqI) (auto simp: bit_simps nbit dest: cbit)
    finally show ?thesis .
  qed
  have lt: "unat (?h XOR ?n) < 256"
  proof -
    have "?h XOR ?n = take_bit 8 (?h XOR ?n)"
      using idx by (simp add: take_bit_eq_mask mask_eq_exp_minus_1)
    then have "unat (?h XOR ?n) = take_bit 8 (unat (?h XOR ?n))"
      by (metis unsigned_take_bit_eq)
    then show ?thesis
      using take_bit_nat_less_exp [of 8 "unat (?h XOR ?n)"] by simp
  qed
  have split: "crc = push_bit 8 ?h XOR ?l"
    by (rule bit_word_eqI) (auto simp: bit_simps)
  have low: "(crc_bit ^^ 8) ?l = push_bit 8 crc"
  proof -
    have "(crc_bit ^^ 8) ?l = push_bit 8 ?l"
      by (rule crc_bits_low) (auto simp: bit_simps)
    also have "\<dots> = push_bit 8 crc"
      by (rule bit_word_eqI) (auto simp: bit_simps)
    finally show ?thesis .
  qed
  have "crc_byte crc n = (crc_bit ^^ 8) ((push_bit 8 (?h XOR ?n)) XOR ?l)"
    unfolding crc_byte_def by (subst split) (simp add: push_bit_xor ac_simps)
  also have "\<dots> = (crc_bit ^^ 8) (push_bit 8 (?h XOR ?n)) XOR push_bit 8 crc"
    by (simp only: crc_bits_xor low)
  also have "\<dots> = crc16_step crc n"
    unfolding crc16_step_def idx using crc16tab_nth [OF lt] by (simp add: ac_simps)
  finally show ?thesis by simp
qed

lemma crc16_ascii: "ascii s \<Longrightarrow> crc16 s = crc16_xmodem s"
proof -
  assume a: "ascii s"
  have "foldl crc16_step c bs = foldl crc_byte c bs" if "\<forall>b \<in> set bs. b < 256" for c bs
    using that by (induction bs arbitrary: c) (simp_all add: crc16_step_byte)
  moreover have "\<forall>b \<in> set (map of_char s). (b :: nat) < 256"
    using a by (auto simp: ascii_def)
  ultimately show ?thesis
    using a by (simp add: crc16_def crc16_xmodem_def runes_ascii)
qed

section \<open>Keys and slots\<close>

text \<open>The values a command's arguments may have; \<open>Other\<close> is any value of another type, with the name
  \<open>%T\<close> prints. A float64 is its 64 bits, and \<open>fmt_float\<close> is \<open>strconv.FormatFloat(x, 'g', -1, 64)\<close>.\<close>

datatype arg =
    AInt int
  | AInt64 int
  | AFloat64 "64 word"
  | AString bytes
  | ABytes bytes
  | Other string

definition kClusterSlots :: nat where "kClusterSlots = 16384"

definition key :: "(64 word \<Rightarrow> bytes) \<Rightarrow> arg \<Rightarrow> go_error + bytes" where
  "key fmt_float a = (case a of
     AInt i \<Rightarrow> Inr (FormatInt i)
   | AInt64 i \<Rightarrow> Inr (FormatInt i)
   | AFloat64 x \<Rightarrow> Inr (fmt_float x)
   | AString s \<Rightarrow> Inr s
   | ABytes s \<Rightarrow> Inr s
   | Other t \<Rightarrow> Inl (Formatted (''key: unknown type '' @ t)))"

text \<open>\<open>for i = i0; i < len(key); i++ { if key[i] == c { break } }\<close>: where the loop stops.\<close>

function scan_for :: "char \<Rightarrow> bytes \<Rightarrow> nat \<Rightarrow> nat" where
  "scan_for c k i = (if i < length k \<and> k ! i \<noteq> c then scan_for c k (i + 1) else i)"
  by pat_completeness auto
termination by (relation "measure (\<lambda>(c, k, i). length k - i)") auto

declare scan_for.simps [simp del]

definition slot_of :: "16 word \<Rightarrow> nat" where
  "slot_of crc = unat (crc AND (word_of_nat (kClusterSlots - 1)))"

definition hash :: "bytes \<Rightarrow> nat" where
  "hash k =
     (let s = scan_for (CHR ''{'') k 0
      in if s = length k then slot_of (crc16 k)
         else let e = scan_for (CHR ''}'') k (s + 1)
              in if e = length k \<or> e = s + 1 then slot_of (crc16 k)
                 else slot_of (crc16 (buf_slice (s + 1) e k)))"

lemma slot_of_mod: "slot_of crc = unat crc mod kClusterSlots"
proof -
  have "slot_of crc = unat (take_bit 14 crc)"
    by (simp add: slot_of_def kClusterSlots_def take_bit_eq_mask mask_eq_exp_minus_1)
  also have "\<dots> = take_bit 14 (unat crc)"
    by (rule unsigned_take_bit_eq)
  finally show ?thesis
    by (simp add: kClusterSlots_def take_bit_eq_mod)
qed

lemma slot_of_less: "slot_of crc < kClusterSlots"
  by (simp add: slot_of_mod kClusterSlots_def)

lemma scan_for_stop: "i + length p < length k \<Longrightarrow> take (length p) (drop i k) = p \<Longrightarrow> c \<notin> set p \<Longrightarrow>
    k ! (i + length p) = c \<Longrightarrow> scan_for c k i = i + length p"
proof (induction p arbitrary: i)
  case Nil
  then show ?case by (simp add: scan_for.simps)
next
  case (Cons a p)
  have a: "drop i k = k ! i # drop (Suc i) k"
    using Cons.prems(1) by (simp add: Cons_nth_drop_Suc)
  then have "k ! i = a" "take (length p) (drop (Suc i) k) = p"
    using Cons.prems(2) by simp_all
  then show ?case
    using Cons by (subst scan_for.simps) auto
qed

lemma hash_tag:
  assumes "CHR ''{'' \<notin> set p" "CHR ''}'' \<notin> set tag" "tag \<noteq> []"
  shows "hash (p @ CHR ''{'' # tag @ CHR ''}'' # q) = slot_of (crc16 tag)"
proof -
  let ?k = "p @ CHR ''{'' # tag @ CHR ''}'' # q"
  have s: "scan_for (CHR ''{'') ?k 0 = length p"
    using scan_for_stop [of 0 p ?k "CHR ''{''"] assms(1) by simp
  have "scan_for (CHR ''}'') ?k (length p + 1) = length p + 1 + length tag"
    using assms(2) by (intro scan_for_stop) (simp_all add: nth_append)
  then have e: "scan_for (CHR ''}'') ?k (Suc (length p)) = Suc (length p + length tag)"
    by simp
  show ?thesis
    using assms(3) by (simp add: hash_def s e Let_def buf_slice_def)
qed

lemma scan_for_none: "c \<notin> set (drop i k) \<Longrightarrow> i \<le> length k \<Longrightarrow> scan_for c k i = length k"
proof (induction c k i rule: scan_for.induct)
  case (1 c k i)
  then show ?case
    by (cases "i < length k")
      (auto simp: scan_for.simps [of c k] Cons_nth_drop_Suc [symmetric] Suc_leI)
qed

lemma hash_no_tag: "CHR ''{'' \<notin> set k \<Longrightarrow> hash k = slot_of (crc16 k)"
  by (simp add: hash_def scan_for_none)

lemma hash_less: "hash k < kClusterSlots"
  by (simp add: hash_def Let_def slot_of_less)

text \<open>The specification of redis: hashed is what stands between the first opening brace and the first closing one
  behind it, if both are there and something stands between them, and else the whole key; the slot is the CRC of
  that modulo 16384.\<close>

definition hashed_part :: "bytes \<Rightarrow> bytes" where
  "hashed_part k = (case dropWhile (\<lambda>c. c \<noteq> CHR ''{'') k of
     [] \<Rightarrow> k
   | _ # r \<Rightarrow> let tag = takeWhile (\<lambda>c. c \<noteq> CHR ''}'') r
       in if CHR ''}'' \<in> set r \<and> tag \<noteq> [] then tag else k)"

definition redis_slot :: "bytes \<Rightarrow> nat" where
  "redis_slot k = unat (crc16_xmodem (hashed_part k)) mod 16384"

lemma scan_for_takeWhile: "i \<le> length k \<Longrightarrow> scan_for c k i = i + length (takeWhile (\<lambda>x. x \<noteq> c) (drop i k))"
proof (induction c k i rule: scan_for.induct)
  case (1 c k i)
  show ?case
  proof (cases "i < length k")
    case True
    then have "drop i k = k ! i # drop (Suc i) k" by (simp add: Cons_nth_drop_Suc)
    then show ?thesis using 1 True by (subst scan_for.simps) simp
  qed (use 1 in \<open>simp add: scan_for.simps [of c k]\<close>)
qed

lemma hash_part: "hash k = slot_of (crc16 (hashed_part k))"
proof (cases "CHR ''{'' \<in> set k")
  case False
  then have "dropWhile (\<lambda>c. c \<noteq> CHR ''{'') k = []" by (auto simp: dropWhile_eq_Nil_conv)
  then show ?thesis by (simp only: hash_no_tag [OF False] hashed_part_def list.case)
next
  case True
  then obtain p r where k: "k = p @ CHR ''{'' # r" "CHR ''{'' \<notin> set p" by (meson split_list_first)
  let ?tag = "takeWhile (\<lambda>c. c \<noteq> CHR ''}'') r"
  have p: "takeWhile (\<lambda>x. x \<noteq> CHR ''{'') k = p" "dropWhile (\<lambda>x. x \<noteq> CHR ''{'') k = CHR ''{'' # r"
    using k(2) by (auto simp: k(1) takeWhile_append dropWhile_append)
  have s: "scan_for (CHR ''{'') k 0 = length p" by (simp add: scan_for_takeWhile p(1))
  have e: "scan_for (CHR ''}'') k (Suc (length p)) = Suc (length p + length ?tag)"
    by (simp add: scan_for_takeWhile k(1))
  have full: "length ?tag = length r \<longleftrightarrow> CHR ''}'' \<notin> set r"
    by (induction r) auto
  have part: "buf_slice (Suc (length p)) (Suc (length p + length ?tag)) k = ?tag"
    by (simp add: buf_slice_def k(1) takeWhile_eq_take [symmetric])
  have len: "length k = Suc (length p + length r)" by (simp add: k(1))
  have hash: "hash k = (if length ?tag = length r \<or> length ?tag = 0 then slot_of (crc16 k) else slot_of (crc16 ?tag))"
    unfolding hash_def Let_def s add.commute [of _ "1 :: nat"] plus_1_eq_Suc e len part by simp
  have "hashed_part k = (if CHR ''}'' \<in> set r \<and> ?tag \<noteq> [] then ?tag else k)"
    by (simp only: hashed_part_def p(2) list.case Let_def)
  then show ?thesis unfolding hash full by (cases "CHR ''}'' \<in> set r \<and> ?tag \<noteq> []") (auto simp only: length_0_conv simp_thms if_True if_False de_Morgan_conj)
qed

text \<open>Every slot a key hashes to is a valid index of the slot table.\<close>

theorem hash_in_range: "hash k < kClusterSlots"
  by (rule hash_less)

text \<open>Keys with the same non-empty hash tag share a slot, whatever stands around the tag.\<close>

theorem hash_tag_colocates:
  assumes "CHR ''{'' \<notin> set p" "CHR ''{'' \<notin> set p'" "CHR ''}'' \<notin> set tag" "tag \<noteq> []"
  shows "hash (p @ CHR ''{'' # tag @ CHR ''}'' # q) = hash (p' @ CHR ''{'' # tag @ CHR ''}'' # q')"
  using assms hash_tag by simp

lemma hash_tag_colocates_witness:
  "hash (''user:'' @ CHR ''{'' # ''1000'' @ CHR ''}'' # ''.name'') = hash ([] @ CHR ''{'' # ''1000'' @ CHR ''}'' # ''x}'')"
  by (rule hash_tag_colocates) simp_all

text \<open>C13. The slot is the one the redis cluster itself computes, for every key whose hashed part is ASCII, so in
  particular for every ASCII key: with a tag, with an empty one, with braces that do not close, and without braces.
  In particular all 256 entries of the table are the polynomial's.\<close>

theorem hash_agrees_with_redis:
  assumes "ascii (hashed_part k)"
  shows "hash k = redis_slot k"
  using crc16_ascii [OF assms] by (simp add: hash_part redis_slot_def slot_of_mod kClusterSlots_def)

lemma hashed_parts:
  "hashed_part ''a{foo}b'' = ''foo''" "hashed_part ''{}k'' = ''{}k''" "hashed_part ''a{b'' = ''a{b''" "hashed_part ''{{a}}'' = ''{a''"
  by (simp_all add: hashed_part_def)

lemma hash_agrees_with_redis_witness:
  "hash ''a{foo}b'' = redis_slot ''a{foo}b'' \<and> hash ''{}k'' = redis_slot ''{}k'' \<and> hash ''a{b'' = redis_slot ''a{b'' \<and>
   hash ''{{a}}'' = redis_slot ''{{a}}'' \<and> hash ''123456789'' = redis_slot ''123456789''"
  by (intro conjI hash_agrees_with_redis) (simp_all add: ascii_def hashed_part_def)

text \<open>The check value of the file's comment.\<close>

lemma crc16_check_value: "crc16_xmodem ''123456789'' = 0x31C3"
  by (simp add: crc16_xmodem_def crc_byte_def crc_bits_8 crc_bit_def)

text \<open>The consequence of visiting runes: a key that is not ASCII, here the two bytes of a small e
  with acute accent, gets another slot than the cluster's.\<close>

theorem hash_non_ascii_differs: "hash [CHR 0xC3, CHR 0xA9] \<noteq> redis_slot [CHR 0xC3, CHR 0xA9]"
proof -
  have "runes [CHR 0xC3, CHR 0xA9] = [0xE9]"
    by (simp add: runes_def runes_of.simps decode_rune_def cont_byte_def)
  then have "crc16 [CHR 0xC3, CHR 0xA9] = crc_byte 0 0xE9"
    by (simp add: crc16_def crc16_step_byte)
  then show ?thesis
    by (simp add: hash_no_tag redis_slot_def hashed_part_def slot_of_mod crc16_xmodem_def crc_byte_def crc_bits_8 crc_bit_def
        kClusterSlots_def)
qed

end
