(* ===== verification/Cluster_Reply.thy ===== *)
theory Cluster_Reply
  imports Go_Errors
begin

text \<open>
  \<open>utils/rediscluster/reply.go\<close>: the values a redis reply may have, and their conversions. A
  function that returns a value and an error returns both here, since some set a value beside an
  error. \<open>int\<close> has 64 bits. \<open>parse_float bits s\<close> stands for \<open>strconv.ParseFloat\<close>, which gives
  the bits of a float64 and an error.
\<close>

section \<open>Replies\<close>

datatype reply =
    RNil
  | RInt int
  | RBulk bytes
  | RString bytes
  | RArray "reply list"
  | RError bytes

fun type_name :: "reply \<Rightarrow> string" where
  "type_name RNil = ''<nil>''"
| "type_name (RInt _) = ''int64''"
| "type_name (RBulk _) = ''[]uint8''"
| "type_name (RString _) = ''string''"
| "type_name (RArray _) = ''[]interface {}''"
| "type_name (RError _) = ''rediscluster.redisError''"

text \<open>Integers of a reply are int64 values.\<close>

fun reply_wf :: "reply \<Rightarrow> bool" where
  "reply_wf (RInt i) \<longleftrightarrow> in_int64 i"
| "reply_wf (RArray rs) \<longleftrightarrow> (\<forall>r \<in> set rs. reply_wf r)"
| "reply_wf _ \<longleftrightarrow> True"

definition ErrNil :: go_error where "ErrNil = Sentinel ''nil reply''"
definition ErrRange :: go_error where "ErrRange = Sentinel ''value out of range''"

definition unexpected_type :: "reply \<Rightarrow> string \<Rightarrow> go_error" where
  "unexpected_type r f = Formatted (''unexpected type '' @ type_name r @ '' for '' @ f)"

section \<open>strconv\<close>

definition parse_int :: "nat \<Rightarrow> bytes \<Rightarrow> int \<times> go_error option" where
  "parse_int bits s = (case ParseInt bits s of (n, e) \<Rightarrow> (n, map_option NumError e))"

definition ParseUint :: "nat \<Rightarrow> bytes \<Rightarrow> nat \<times> go_error option" where
  "ParseUint bits s = (case parse_uint bits s of
     Inr n \<Rightarrow> (n, None)
   | Inl (NumSyntax _) \<Rightarrow> (0, Some (NumError (NumSyntax s)))
   | Inl (NumRange _) \<Rightarrow> (2 ^ bits - 1, Some (NumError (NumRange s))))"

definition ParseBool :: "bytes \<Rightarrow> bool \<times> go_error option" where
  "ParseBool s =
     (if s \<in> {''1'', ''t'', ''T'', ''TRUE'', ''true'', ''True''} then (True, None)
      else if s \<in> {''0'', ''f'', ''F'', ''FALSE'', ''false'', ''False''} then (False, None)
      else (False, Some (NumError (NumSyntax s))))"

type_synonym float_parser = "nat \<Rightarrow> bytes \<Rightarrow> 64 word \<times> go_error option"

section \<open>Conversion of one reply\<close>

definition reply_Int :: "reply \<Rightarrow> go_error option \<Rightarrow> int \<times> go_error option" where
  "reply_Int r err = (case err of Some e \<Rightarrow> (0, Some e) | None \<Rightarrow> (case r of
     RInt i \<Rightarrow> (let x = int64 i in if x \<noteq> i then (0, Some ErrRange) else (x, None))
   | RBulk s \<Rightarrow> parse_int 64 s
   | RNil \<Rightarrow> (0, Some ErrNil)
   | RError m \<Rightarrow> (0, Some (ReplyError m))
   | _ \<Rightarrow> (0, Some (unexpected_type r ''Int''))))"

definition reply_Int64 :: "reply \<Rightarrow> go_error option \<Rightarrow> int \<times> go_error option" where
  "reply_Int64 r err = (case err of Some e \<Rightarrow> (0, Some e) | None \<Rightarrow> (case r of
     RInt i \<Rightarrow> (i, None)
   | RBulk s \<Rightarrow> parse_int 64 s
   | RNil \<Rightarrow> (0, Some ErrNil)
   | RError m \<Rightarrow> (0, Some (ReplyError m))
   | _ \<Rightarrow> (0, Some (unexpected_type r ''Int64''))))"

definition reply_Float64 :: "float_parser \<Rightarrow> reply \<Rightarrow> go_error option \<Rightarrow> 64 word \<times> go_error option" where
  "reply_Float64 parse_float r err = (case err of Some e \<Rightarrow> (0, Some e) | None \<Rightarrow> (case r of
     RBulk s \<Rightarrow> parse_float 64 s
   | RNil \<Rightarrow> (0, Some ErrNil)
   | RError m \<Rightarrow> (0, Some (ReplyError m))
   | _ \<Rightarrow> (0, Some (unexpected_type r ''Float64''))))"

definition reply_String :: "reply \<Rightarrow> go_error option \<Rightarrow> bytes \<times> go_error option" where
  "reply_String r err = (case err of Some e \<Rightarrow> ([], Some e) | None \<Rightarrow> (case r of
     RBulk s \<Rightarrow> (s, None)
   | RString s \<Rightarrow> (s, None)
   | RNil \<Rightarrow> ([], Some ErrNil)
   | RError m \<Rightarrow> ([], Some (ReplyError m))
   | _ \<Rightarrow> ([], Some (unexpected_type r ''String''))))"

definition reply_Bytes :: "reply \<Rightarrow> go_error option \<Rightarrow> bytes option \<times> go_error option" where
  "reply_Bytes r err = (case err of Some e \<Rightarrow> (None, Some e) | None \<Rightarrow> (case r of
     RBulk s \<Rightarrow> (Some s, None)
   | RString s \<Rightarrow> (Some s, None)
   | RNil \<Rightarrow> (None, Some ErrNil)
   | RError m \<Rightarrow> (None, Some (ReplyError m))
   | _ \<Rightarrow> (None, Some (unexpected_type r ''Bytes''))))"

definition reply_Bool :: "reply \<Rightarrow> go_error option \<Rightarrow> bool \<times> go_error option" where
  "reply_Bool r err = (case err of Some e \<Rightarrow> (False, Some e) | None \<Rightarrow> (case r of
     RInt i \<Rightarrow> (i \<noteq> 0, None)
   | RBulk s \<Rightarrow> ParseBool s
   | RNil \<Rightarrow> (False, Some ErrNil)
   | RError m \<Rightarrow> (False, Some (ReplyError m))
   | _ \<Rightarrow> (False, Some (unexpected_type r ''Bool''))))"

definition Values :: "reply \<Rightarrow> go_error option \<Rightarrow> reply list option \<times> go_error option" where
  "Values r err = (case err of Some e \<Rightarrow> (None, Some e) | None \<Rightarrow> (case r of
     RArray rs \<Rightarrow> (Some rs, None)
   | RNil \<Rightarrow> (None, Some ErrNil)
   | RError m \<Rightarrow> (None, Some (ReplyError m))
   | _ \<Rightarrow> (None, Some (unexpected_type r ''Values''))))"

section \<open>Destinations\<close>

text \<open>\<open>rval\<close> is a variable reached by reflection, by the kind of its type: its width and its value;
  a slice has the zero value of its elements, its backing array and its length. \<open>dest\<close> is what a caller of \<open>Scan\<close> passes: a pointer to one of the types the code
  names, a pointer to a variable of another type, a value that is no pointer, or nil; \<open>PBytes\<close> has
  the bytes of the slice and those between its length and its capacity.\<close>

datatype rval =
    RvFloat nat "64 word"
  | RvInt nat int
  | RvUint nat nat
  | RvBool bool
  | RvString bytes
  | RvSlice rval "rval list" nat
  | RvOther string

datatype dest =
    PString bytes
  | PInt int
  | PInt64 int
  | PBool bool
  | PBytes bytes bytes
  | PAny reply
  | PAnys "reply list"
  | PReflect rval
  | NoPtr string
  | DNil

fun rval_type :: "rval \<Rightarrow> string" where
  "rval_type (RvFloat b _) = ''float'' @ format_nat b"
| "rval_type (RvInt b _) = ''int'' @ format_nat b"
| "rval_type (RvUint b _) = ''uint'' @ format_nat b"
| "rval_type (RvBool _) = ''bool''"
| "rval_type (RvString _) = ''string''"
| "rval_type (RvSlice z _ _) = ''[]'' @ rval_type z"
| "rval_type (RvOther t) = t"

fun dest_type :: "dest \<Rightarrow> string" where
  "dest_type (PString _) = ''*string''"
| "dest_type (PInt _) = ''*int''"
| "dest_type (PInt64 _) = ''*int64''"
| "dest_type (PBool _) = ''*bool''"
| "dest_type (PBytes _ _) = ''*[]uint8''"
| "dest_type (PAny _) = ''*interface {}''"
| "dest_type (PAnys _) = ''*[]interface {}''"
| "dest_type (PReflect v) = ''*'' @ rval_type v"
| "dest_type (NoPtr t) = t"
| "dest_type DNil = ''<nil>''"

definition cannotConvert :: "string \<Rightarrow> reply \<Rightarrow> go_error" where
  "cannotConvert dtype s =
     Formatted (''redigo: Scan cannot convert from '' @ type_name s @ '' to '' @ dtype)"

text \<open>\<open>reflect.Value\<close>'s \<open>SetInt\<close> and \<open>SetUint\<close> keep the low bits.\<close>

definition set_int :: "nat \<Rightarrow> int \<Rightarrow> int" where
  "set_int bits x = signed_take_bit (bits - 1) x"

definition set_uint :: "nat \<Rightarrow> nat \<Rightarrow> nat" where
  "set_uint bits x = take_bit bits x"

definition byte_rval :: "char \<Rightarrow> rval" where
  "byte_rval c = RvUint 8 (of_char c)"

definition rval_byte :: "rval \<Rightarrow> char" where
  "rval_byte v = (case v of RvUint _ n \<Rightarrow> char_of n | _ \<Rightarrow> char_of (0 :: nat))"

fun convertAssignBytes :: "float_parser \<Rightarrow> rval \<Rightarrow> bytes \<Rightarrow> rval \<times> go_error option" where
  "convertAssignBytes pf (RvFloat b v) s = (case pf b s of (x, e) \<Rightarrow> (RvFloat b x, e))"
| "convertAssignBytes pf (RvInt b v) s = (case parse_int b s of (x, e) \<Rightarrow> (RvInt b (set_int b x), e))"
| "convertAssignBytes pf (RvUint b v) s = (case ParseUint b s of (x, e) \<Rightarrow> (RvUint b (set_uint b x), e))"
| "convertAssignBytes pf (RvBool v) s = (case ParseBool s of (x, e) \<Rightarrow> (RvBool x, e))"
| "convertAssignBytes pf (RvString v) s = (RvString s, None)"
| "convertAssignBytes pf (RvSlice z backing n) s = (case z of
     RvUint b _ \<Rightarrow> if b = 8 then (RvSlice z (map byte_rval s) (length s), None)
                   else (RvSlice z backing n, Some (cannotConvert (rval_type (RvSlice z backing n)) (RBulk s)))
   | _ \<Rightarrow> (RvSlice z backing n, Some (cannotConvert (rval_type (RvSlice z backing n)) (RBulk s))))"
| "convertAssignBytes pf d s = (d, Some (cannotConvert (rval_type d) (RBulk s)))"

fun convertAssignInt :: "rval \<Rightarrow> int \<Rightarrow> rval \<times> go_error option" where
  "convertAssignInt (RvInt b v) s =
     (if set_int b s \<noteq> s then (RvInt b 0, Some ErrRange) else (RvInt b (set_int b s), None))"
| "convertAssignInt (RvUint b v) s =
     (if s < 0 then (RvUint b v, Some ErrRange)
      else let x = nat s in
        if set_uint b x \<noteq> x then (RvUint b 0, Some ErrRange) else (RvUint b (set_uint b x), None))"
| "convertAssignInt (RvBool v) s = (RvBool (s \<noteq> 0), None)"
| "convertAssignInt d s = (d, Some (cannotConvert (rval_type d) (RInt s)))"

definition convertAssignValue :: "float_parser \<Rightarrow> rval \<Rightarrow> reply \<Rightarrow> rval \<times> go_error option" where
  "convertAssignValue pf d s = (case s of
     RBulk b \<Rightarrow> convertAssignBytes pf d b
   | RInt i \<Rightarrow> convertAssignInt d i
   | _ \<Rightarrow> (d, Some (cannotConvert (rval_type d) s)))"

text \<open>\<open>ensureLen\<close>: a backing array that is too short is replaced by one of zeros; another keeps its
  elements.\<close>

definition ensureLen :: "rval \<Rightarrow> rval list \<Rightarrow> nat \<Rightarrow> rval list" where
  "ensureLen z backing n = (if length backing < n then replicate n z else backing)"

text \<open>The loop of \<open>convertAssignValues\<close>, from element \<open>i\<close>: it stops at the first error.\<close>

fun assign_elements ::
    "float_parser \<Rightarrow> rval list \<Rightarrow> nat \<Rightarrow> reply list \<Rightarrow> rval list \<times> go_error option" where
  "assign_elements pf bk i [] = (bk, None)"
| "assign_elements pf bk i (s # ss) = (case convertAssignValue pf (bk ! i) s of
     (v, Some e) \<Rightarrow> (bk[i := v], Some e)
   | (v, None) \<Rightarrow> assign_elements pf (bk[i := v]) (i + 1) ss)"

fun convertAssignValues :: "float_parser \<Rightarrow> rval \<Rightarrow> reply list \<Rightarrow> rval \<times> go_error option" where
  "convertAssignValues pf (RvSlice z backing n) s =
     (case assign_elements pf (ensureLen z backing (length s)) 0 s of
        (bk, e) \<Rightarrow> (RvSlice z bk (length s), e))"
| "convertAssignValues pf d s = (d, Some (cannotConvert (rval_type d) (RArray s)))"

text \<open>\<open>reflect.ValueOf(d).Elem()\<close>, and the destination with that variable changed.\<close>

definition elem_of :: "dest \<Rightarrow> rval option" where
  "elem_of d = (case d of
     PString v \<Rightarrow> Some (RvString v)
   | PInt v \<Rightarrow> Some (RvInt 64 v)
   | PInt64 v \<Rightarrow> Some (RvInt 64 v)
   | PBool v \<Rightarrow> Some (RvBool v)
   | PBytes v spare \<Rightarrow> Some (RvSlice (RvUint 8 0) (map byte_rval (v @ spare)) (length v))
   | PAny _ \<Rightarrow> Some (RvOther ''interface {}'')
   | PAnys _ \<Rightarrow> Some (RvOther ''[]interface {}'')
   | PReflect v \<Rightarrow> Some v
   | NoPtr _ \<Rightarrow> None
   | DNil \<Rightarrow> None)"

definition set_elem :: "dest \<Rightarrow> rval \<Rightarrow> dest" where
  "set_elem d v = (case (d, v) of
     (PReflect _, _) \<Rightarrow> PReflect v
   | (PString _, RvString s) \<Rightarrow> PString s
   | (PInt _, RvInt _ i) \<Rightarrow> PInt i
   | (PInt64 _, RvInt _ i) \<Rightarrow> PInt64 i
   | (PBool _, RvBool b) \<Rightarrow> PBool b
   | (PBytes _ _, RvSlice _ bk n) \<Rightarrow> PBytes (map rval_byte (take n bk)) (map rval_byte (drop n bk))
   | _ \<Rightarrow> d)"

definition reflect_assign ::
    "(rval \<Rightarrow> rval \<times> go_error option) \<Rightarrow> dest \<Rightarrow> reply \<Rightarrow> dest \<times> go_error option" where
  "reflect_assign f d s = (case elem_of d of
     None \<Rightarrow> (d, Some (cannotConvert (dest_type d) s))
   | Some v \<Rightarrow> (case f v of (v', e) \<Rightarrow> (set_elem d v', e)))"

text \<open>\<open>convertAssign\<close>: what the destination holds afterwards, and the error. A status reply is a
  Go string and is never converted; with a nil destination the error message itself panics.\<close>

definition convertAssign :: "float_parser \<Rightarrow> dest \<Rightarrow> reply \<Rightarrow> (dest \<times> go_error option) outcome" where
  "convertAssign pf d s = (case s of
     RNil \<Rightarrow> Ret (d, None)
   | RBulk b \<Rightarrow> Ret (case d of
        PString _ \<Rightarrow> (PString b, None)
      | PInt _ \<Rightarrow> (case parse_int 64 b of (n, e) \<Rightarrow> (PInt n, e))
      | PInt64 _ \<Rightarrow> (case parse_int 64 b of (n, e) \<Rightarrow> (PInt64 n, e))
      | PBool _ \<Rightarrow> (case ParseBool b of (v, e) \<Rightarrow> (PBool v, e))
      | PBytes _ _ \<Rightarrow> (PBytes b [], None)
      | PAny _ \<Rightarrow> (PAny s, None)
      | DNil \<Rightarrow> (DNil, None)
      | _ \<Rightarrow> reflect_assign (\<lambda>v. convertAssignBytes pf v b) d s)
   | RInt i \<Rightarrow> Ret (case d of
        PInt _ \<Rightarrow> (let x = int64 i in if x \<noteq> i then (PInt 0, Some ErrRange) else (PInt x, None))
      | PInt64 _ \<Rightarrow> (PInt64 i, None)
      | PBool _ \<Rightarrow> (PBool (i \<noteq> 0), None)
      | PAny _ \<Rightarrow> (PAny s, None)
      | DNil \<Rightarrow> (DNil, None)
      | _ \<Rightarrow> reflect_assign (\<lambda>v. convertAssignInt v i) d s)
   | RArray rs \<Rightarrow> Ret (case d of
        PAnys _ \<Rightarrow> (PAnys rs, None)
      | PAny _ \<Rightarrow> (PAny s, None)
      | DNil \<Rightarrow> (DNil, None)
      | _ \<Rightarrow> reflect_assign (\<lambda>v. convertAssignValues pf v rs) d s)
   | RError m \<Rightarrow> Ret (d, Some (ReplyError m))
   | RString _ \<Rightarrow> if d = DNil then Panic ''invalid memory address or nil pointer dereference''
       else Ret (d, Some (cannotConvert (dest_type d) s)))"

text \<open>The loop of \<open>Scan\<close>: the destinations after it, and the error it broke off with.\<close>

fun scan_loop :: "float_parser \<Rightarrow> reply list \<Rightarrow> dest list \<Rightarrow> (dest list \<times> go_error option) outcome" where
  "scan_loop pf (s # ss) (d # ds) = bind_outcome (convertAssign pf d s) (\<lambda>(d', e).
     case e of Some x \<Rightarrow> Ret (d' # ds, Some x)
     | None \<Rightarrow> bind_outcome (scan_loop pf ss ds) (\<lambda>(ds', e'). Ret (d' # ds', e')))"
| "scan_loop pf ss ds = Ret (ds, None)"

text \<open>\<open>Scan\<close>: the sources behind those copied, the destinations, the error.\<close>

definition Scan :: "float_parser \<Rightarrow> reply list \<Rightarrow> dest list
    \<Rightarrow> (reply list option \<times> dest list \<times> go_error option) outcome" where
  "Scan pf src dst =
     (if length src < length dst then Ret (None, dst, Some (Formatted ''mismatch length of source and dest''))
      else bind_outcome (scan_loop pf src dst) (\<lambda>(ds, e). Ret (Some (drop (length dst) src), ds, e)))"

section \<open>Conversion of an array\<close>

definition dest_int :: "dest \<Rightarrow> int" where
  "dest_int d = (case d of PInt i \<Rightarrow> i | _ \<Rightarrow> 0)"

definition dest_string :: "dest \<Rightarrow> bytes" where
  "dest_string d = (case d of PString s \<Rightarrow> s | _ \<Rightarrow> [])"

definition scan_values :: "float_parser \<Rightarrow> dest \<Rightarrow> (dest \<Rightarrow> 'a) \<Rightarrow> reply \<Rightarrow> go_error option
    \<Rightarrow> ('a list option \<times> go_error option) outcome" where
  "scan_values pf zero out r err = (case Values r err of
     (_, Some e) \<Rightarrow> Ret (None, Some e)
   | (vs, None) \<Rightarrow> (let values = (case vs of None \<Rightarrow> [] | Some l \<Rightarrow> l) in
       bind_outcome (Scan pf values (replicate (length values) zero)) (\<lambda>(_, ds, e).
         case e of Some x \<Rightarrow> Ret (None, Some x) | None \<Rightarrow> Ret (Some (map out ds), None))))"

definition Ints :: "float_parser \<Rightarrow> reply \<Rightarrow> go_error option \<Rightarrow> (int list option \<times> go_error option) outcome" where
  "Ints pf = scan_values pf (PInt 0) dest_int"

definition Strings :: "float_parser \<Rightarrow> reply \<Rightarrow> go_error option \<Rightarrow> (bytes list option \<times> go_error option) outcome" where
  "Strings pf = scan_values pf (PString []) dest_string"

text \<open>The loop of \<open>StringMap\<close> over pairs of values.\<close>

fun string_map_loop :: "reply list \<Rightarrow> (bytes \<rightharpoonup> bytes) \<Rightarrow> (bytes \<rightharpoonup> bytes) option" where
  "string_map_loop (k # v # rest) m = (case (k, v) of
     (RBulk a, RBulk b) \<Rightarrow> string_map_loop rest (m(a \<mapsto> b))
   | _ \<Rightarrow> None)"
| "string_map_loop _ m = Some m"

definition StringMap :: "reply \<Rightarrow> go_error option \<Rightarrow> (bytes \<rightharpoonup> bytes) option \<times> go_error option" where
  "StringMap r err = (case Values r err of
     (_, Some e) \<Rightarrow> (None, Some e)
   | (vs, None) \<Rightarrow> (let values = (case vs of None \<Rightarrow> [] | Some l \<Rightarrow> l) in
       if length values mod 2 \<noteq> 0 then (None, Some (Formatted ''expect even number elements for StringMap''))
       else case string_map_loop values Map.empty of
           None \<Rightarrow> (None, Some (Formatted ''expect bulk string for StringMap''))
         | Some m \<Rightarrow> (Some m, None)))"

section \<open>Laws\<close>

lemma set_int_range: "0 < b \<Longrightarrow> set_int b x = x \<longleftrightarrow> - (2 ^ (b - 1)) \<le> x \<and> x < 2 ^ (b - 1)"
  by (simp add: set_int_def signed_take_bit_int_eq_self_iff)

lemma set_uint_range: "set_uint b x = x \<longleftrightarrow> x < 2 ^ b"
  by (simp add: set_uint_def take_bit_nat_eq_self_iff)

text \<open>No integer is truncated on its way into a variable of a smaller type: \<open>convertAssignInt\<close>
  succeeds on a signed or unsigned variable exactly when the value is in its range, the variable
  then holds that value, and otherwise the error is the range error.\<close>

theorem no_silent_truncation:
  assumes "0 < b"
  shows "convertAssignInt (RvInt b v) s =
      (if - (2 ^ (b - 1)) \<le> s \<and> s < 2 ^ (b - 1) then (RvInt b s, None) else (RvInt b 0, Some ErrRange)) \<and>
    (snd (convertAssignInt (RvUint b u) s) = None \<longleftrightarrow> 0 \<le> s \<and> s < 2 ^ b) \<and>
    (snd (convertAssignInt (RvUint b u) s) = None \<longrightarrow> fst (convertAssignInt (RvUint b u) s) = RvUint b (nat s)) \<and>
    snd (convertAssignInt (RvUint b u) s) \<in> {None, Some ErrRange}"
proof -
  have "nat s < 2 ^ b \<longleftrightarrow> s < 2 ^ b" if "0 \<le> s"
    using that by (metis nat_less_iff of_nat_numeral of_nat_power)
  then show ?thesis
    using set_int_range [OF assms, of s] by (auto simp: set_uint_range Let_def)
qed

lemma no_silent_truncation_witness:
  "convertAssignInt (RvInt 8 7) 300 = (RvInt 8 0, Some ErrRange) \<and>
   snd (convertAssignInt (RvUint 8 0) 300) \<noteq> None"
  using no_silent_truncation [of 8 7 300 0] by simp

definition int_element :: "reply \<Rightarrow> int option" where
  "int_element r = (case r of RInt i \<Rightarrow> Some i | RNil \<Rightarrow> Some 0 | _ \<Rightarrow> None)"

lemma scan_ints:
  "\<forall>r \<in> set rs. reply_wf r \<and> int_element r \<noteq> None \<Longrightarrow>
     scan_loop pf rs (replicate (length rs) (PInt 0)) = Ret (map (\<lambda>r. PInt (the (int_element r))) rs, None)"
proof (induction rs)
  case (Cons r rs)
  then show ?case
    by (cases r) (auto simp: convertAssign_def int_element_def)
qed simp

text \<open>The conversion of an array of integer replies: \<open>Ints\<close> of an array of int64 values is those
  values, nil elements counting as zero; of a nil reply it is \<open>ErrNil\<close>.\<close>

theorem Ints_array:
  assumes "\<forall>r \<in> set rs. reply_wf r \<and> int_element r \<noteq> None"
  shows "Ints pf (RArray rs) None = Ret (Some (map (\<lambda>r. the (int_element r)) rs), None) \<and>
    Ints pf RNil None = Ret (None, Some ErrNil)"
  using scan_ints [OF assms]
  by (simp add: Ints_def scan_values_def Values_def Scan_def dest_int_def comp_def)

lemma Ints_array_witness:
  "Ints (\<lambda>b s. (0, None)) (RArray [RInt 7, RNil, RInt (-1)]) None = Ret (Some [7, 0, -1], None)"
  using Ints_array [of "[RInt 7, RNil, RInt (-1)]"] by (simp add: int_element_def in_int64_def)

text \<open>\<open>StringMap\<close> of the alternating keys and values redis sends for a hash is that hash: every key
  has its last value, and no other key has one.\<close>

theorem StringMap_pairs:
  "StringMap (RArray (concat (map (\<lambda>(k, v). [RBulk k, RBulk v]) kvs))) None = (Some (map_of (rev kvs)), None)"
proof -
  have "string_map_loop (concat (map (\<lambda>(k, v). [RBulk k, RBulk v]) kvs)) m = Some (m ++ map_of (rev kvs))" for m
    by (induction kvs arbitrary: m) (auto simp: map_add_assoc)
  moreover have "even (length (concat (map (\<lambda>(k, v). [RBulk k, RBulk v]) kvs)))"
    by (induction kvs) auto
  ultimately show ?thesis
    by (simp add: StringMap_def Values_def)
qed

end
