(* ===== verification/Cluster_Node.thy ===== *)
theory Cluster_Node
  imports Cluster_Hash Cluster_Reply Credis_Decoder
begin

text \<open>
  \<open>utils/rediscluster/node.go\<close>: the protocol coder of a connection, a connection's pending replies,
  and the pool of idle connections of a node. The coder works over any reader and writer of a byte
  stream (in the code those of \<open>bufio\<close>); \<open>readLine\<close> and \<open>readReply\<close> carry fuel, for which more
  than the bytes left in the stream is enough. Lengths and integers are parsed in 64 bits, with the
  wrap-around the code has. A bulk length that exceeds the memory makes the code panic; memory is
  not modelled.
\<close>

section \<open>Writing commands\<close>

definition CR_LF_scratch :: "bytes \<Rightarrow> bytes" where
  "CR_LF_scratch s = s[length s - 1 := LF, length s - 2 := CR]"

text \<open>The loop of \<open>writeLen\<close> from index \<open>i\<close> down: the index before the last digit, the scratch.\<close>

fun len_digits :: "bytes \<Rightarrow> nat \<Rightarrow> nat \<Rightarrow> nat \<times> bytes" where
  "len_digits s i n =
     (let s = s[i := char_of (48 + n mod 10)]; i = i - 1; n = n div 10
      in if n = 0 then (i, s) else len_digits s i n)"

declare len_digits.simps [simp del]

definition len_bytes :: "char \<Rightarrow> nat \<Rightarrow> bytes \<Rightarrow> bytes \<times> bytes" where
  "len_bytes pre n scratch =
     (let s = CR_LF_scratch scratch; (i, s) = len_digits s (length s - 3) n; s = s[i := pre]
      in (drop i s, s))"

text \<open>A writer together with the connection's scratch space.\<close>

type_synonym 'w out = "bytes \<times> 'w"

definition wr_call :: "('w \<Rightarrow> go_error option \<times> 'w) \<Rightarrow> 'w out \<Rightarrow> go_error option \<times> 'w out" where
  "wr_call f o1 = (case f (snd o1) of (e, w) \<Rightarrow> (e, (fst o1, w)))"

definition writeLen :: "'w writer_ops \<Rightarrow> char \<Rightarrow> nat \<Rightarrow> 'w out \<Rightarrow> go_error option \<times> 'w out" where
  "writeLen ops pre n o1 = (case len_bytes pre n (fst o1) of (p, s) \<Rightarrow>
     wr_call (op_Write ops p) (s, snd o1))"

text \<open>\<open>writeString\<close> and \<open>writeBytes\<close> look at the error of their last call only.\<close>

definition writeString :: "'w writer_ops \<Rightarrow> bytes \<Rightarrow> 'w out \<Rightarrow> go_error option \<times> 'w out" where
  "writeString ops s o1 =
     (let (_, o1) = writeLen ops (CHR ''$'') (length s) o1;
          (_, o1) = wr_call (op_WriteString ops s) o1
      in wr_call (op_WriteString ops CRLF) o1)"

definition writeBytes :: "'w writer_ops \<Rightarrow> bytes \<Rightarrow> 'w out \<Rightarrow> go_error option \<times> 'w out" where
  "writeBytes ops p o1 =
     (let (_, o1) = writeLen ops (CHR ''$'') (length p) o1;
          (_, o1) = wr_call (op_Write ops p) o1
      in wr_call (op_WriteString ops CRLF) o1)"

definition writeInt64 :: "'w writer_ops \<Rightarrow> int \<Rightarrow> 'w out \<Rightarrow> go_error option \<times> 'w out" where
  "writeInt64 ops n = writeBytes ops (FormatInt n)"

definition writeFloat64 ::
    "(64 word \<Rightarrow> bytes) \<Rightarrow> 'w writer_ops \<Rightarrow> 64 word \<Rightarrow> 'w out \<Rightarrow> go_error option \<times> 'w out" where
  "writeFloat64 fmt_float ops x = writeBytes ops (fmt_float x)"

definition writeArg ::
    "(64 word \<Rightarrow> bytes) \<Rightarrow> 'w writer_ops \<Rightarrow> arg \<Rightarrow> 'w out \<Rightarrow> go_error option \<times> 'w out" where
  "writeArg fmt_float ops a = (case a of
     AInt i \<Rightarrow> writeInt64 ops i
   | AInt64 i \<Rightarrow> writeInt64 ops i
   | AFloat64 x \<Rightarrow> writeFloat64 fmt_float ops x
   | AString s \<Rightarrow> writeString ops s
   | ABytes p \<Rightarrow> writeBytes ops p
   | Other t \<Rightarrow> (\<lambda>o1. (Some (Formatted (''unknown type '' @ t)), o1)))"

fun writeArgs ::
    "(64 word \<Rightarrow> bytes) \<Rightarrow> 'w writer_ops \<Rightarrow> arg list \<Rightarrow> 'w out \<Rightarrow> go_error option \<times> 'w out" where
  "writeArgs ff ops [] o1 = (None, o1)"
| "writeArgs ff ops (a # args) o1 = (case writeArg ff ops a o1 of
     (Some e, o1) \<Rightarrow> (Some e, o1) | (None, o1) \<Rightarrow> writeArgs ff ops args o1)"

definition writeCommand ::
    "(64 word \<Rightarrow> bytes) \<Rightarrow> 'w writer_ops \<Rightarrow> bytes \<Rightarrow> arg list \<Rightarrow> 'w out \<Rightarrow> go_error option \<times> 'w out" where
  "writeCommand ff ops cmd args o1 =
     (let (_, o1) = writeLen ops (CHR ''*'') (length args + 1) o1
      in case writeString ops cmd o1 of
           (Some e, o1) \<Rightarrow> (Some e, o1) | (None, o1) \<Rightarrow> writeArgs ff ops args o1)"

section \<open>Parsing numbers\<close>

definition parse_error :: "string \<Rightarrow> go_error" where
  "parse_error m = Formatted (''invalid response : '' @ m)"

text \<open>\<open>n *= 10; ...; n += b - '0'\<close> over the bytes, in 64 bits.\<close>

fun digits_loop :: "int \<Rightarrow> bytes \<Rightarrow> int option" where
  "digits_loop n [] = Some n"
| "digits_loop n (b # bs) =
     (let n = int64 (n * 10)
      in if \<not> is_digit b then None else digits_loop (int64 (n + int (digit_val b))) bs)"

definition parseLen :: "bytes \<Rightarrow> go_error + int" where
  "parseLen p =
     (if p = [] then Inl (parse_error ''parseLen-> the length of Len data is nil.'')
      else if p = ''-1'' then Inr (-1)
      else case digits_loop 0 p of
          None \<Rightarrow> Inl (parse_error ''parseLen-> byte is not a numeric type.'')
        | Some n \<Rightarrow> Inr n)"

definition parseInt :: "bytes \<Rightarrow> go_error + int" where
  "parseInt p =
     (if p = [] then Inl (parse_error ''parseInt-> the length of Len data is nil.'')
      else let negate = (hd p = CHR ''-''); p = (if negate then tl p else p)
      in if p = [] then Inl (parse_error ''parseInt-> the length of Len data2 is nil.'')
         else case digits_loop 0 p of
             None \<Rightarrow> Inl (parse_error ''parseInt-> byte is not a numeric type.'')
           | Some n \<Rightarrow> Inr (if negate then int64 (- n) else n))"

section \<open>Reading replies\<close>

text \<open>\<open>readLine\<close>: a line that does not end in CR LF is continued; \<open>line\<close> is nil at first.\<close>

fun readLine :: "nat \<Rightarrow> 'r reader_ops \<Rightarrow> bytes option \<Rightarrow> ('r, go_error, bytes) io" where
  "readLine 0 ops line = failIO OutOfFuel"
| "readLine (Suc k) ops line = bindIO (op_ReadBytes ops LF) (\<lambda>p.
     let n = int (length p) - 2
     in if n < 0 then failIO (Formatted ''invalid response: readLine->the length of readLine is wrong.'')
        else if p ! nat n \<noteq> CR then readLine k ops (Some (bytes_of line @ p))
        else returnIO (bytes_of line @ take (nat n) p))"

definition bad_bulk :: go_error where
  "bad_bulk = Formatted ''invalid reponse $:bad bulk string format.''"

text \<open>A bulk string of \<open>n\<close> bytes and the rest of its line, which must be empty.\<close>

definition readBulk :: "nat \<Rightarrow> 'r reader_ops \<Rightarrow> nat \<Rightarrow> ('r, go_error, reply) io" where
  "readBulk fuel ops n = bindIO (if n = 0 then returnIO [] else op_ReadFull ops n) (\<lambda>p.
     bindIO (readLine fuel ops None) (\<lambda>line.
       if line \<noteq> [] then failIO bad_bulk else returnIO (RBulk p)))"

primrec read_items :: "('r, go_error, reply) io \<Rightarrow> nat \<Rightarrow> ('r, go_error, reply list) io" where
  "read_items item 0 = returnIO []"
| "read_items item (Suc k) =
     bindIO item (\<lambda>r. bindIO (read_items item k) (\<lambda>rs. returnIO (r # rs)))"

definition reply_of_line ::
    "nat \<Rightarrow> 'r reader_ops \<Rightarrow> ('r, go_error, reply) io \<Rightarrow> bytes \<Rightarrow> ('r, go_error, reply) io" where
  "reply_of_line fuel ops item line =
     (if line = [] then failIO (Formatted ''invalid reponse: the length of reponse first line is zero. '')
      else let t = hd line; body = tl line in
        if t = CHR ''+'' then returnIO (RString body)
        else if t = CHR ''-'' then returnIO (RError body)
        else if t = CHR '':'' then (case parseInt body of Inl e \<Rightarrow> failIO e | Inr n \<Rightarrow> returnIO (RInt n))
        else if t = CHR ''$'' then
          (case parseLen body of Inl e \<Rightarrow> failIO e
           | Inr n \<Rightarrow> if n < 0 then returnIO RNil else readBulk fuel ops (nat n))
        else if t = CHR ''*'' then
          (case parseLen body of Inl e \<Rightarrow> failIO e
           | Inr n \<Rightarrow> if n < 0 then returnIO RNil
               else bindIO (read_items item (nat n)) (\<lambda>rs. returnIO (RArray rs)))
        else failIO (Formatted ''invalid response : unexpected response line.''))"

primrec readReply :: "nat \<Rightarrow> 'r reader_ops \<Rightarrow> ('r, go_error, reply) io" where
  "readReply 0 ops = failIO OutOfFuel"
| "readReply (Suc k) ops =
     bindIO (readLine (Suc k) ops None) (reply_of_line (Suc k) ops (readReply k ops))"

section \<open>What a command writes\<close>

lemma len_digits_format:
  "length (format_nat n) \<le> i \<Longrightarrow> i < length s \<Longrightarrow>
     \<exists>s'. len_digits s i n = (i - length (format_nat n), s') \<and> length s' = length s \<and>
       drop (Suc (i - length (format_nat n))) s' = format_nat n @ drop (Suc i) s"
proof (induction s i n rule: len_digits.induct)
  case (1 s i n)
  let ?s = "s[i := char_of (48 + n mod 10)]"
  have at: "drop i ?s = digit_char (n mod 10) # drop (Suc i) s"
    using 1(3) by (simp add: Cons_nth_drop_Suc [symmetric] digit_char_def)
  show ?case
  proof (cases "n div 10 = 0")
    case True
    then have n: "n < 10" "format_nat n = [digit_char (n mod 10)]"
      by (auto simp: format_nat.simps [of n])
    then show ?thesis
      using True at 1(2,3) by (simp add: len_digits.simps [of s i n])
  next
    case False
    then have "\<not> n < 10" by auto
    then have f: "format_nat n = format_nat (n div 10) @ [digit_char (n mod 10)]"
      by (simp add: format_nat.simps [of n])
    have i: "length (format_nat (n div 10)) \<le> i - 1" "i - 1 < length ?s" "Suc (i - 1) = i"
      using 1(2,3) f by auto
    obtain s' where "len_digits ?s (i - 1) (n div 10) = (i - 1 - length (format_nat (n div 10)), s')"
      "length s' = length s"
      "drop (Suc (i - 1 - length (format_nat (n div 10)))) s' = format_nat (n div 10) @ drop i ?s"
      using 1(1) [OF refl refl refl False i(1,2)] i(3) by auto
    then show ?thesis
      using False at by (simp add: len_digits.simps [of s i n] f)
  qed
qed

lemma len_bytes_format:
  assumes "length s = 32" "n < 10 ^ 20"
  shows "\<exists>s'. len_bytes pre n s = (pre # format_nat n @ CRLF, s') \<and> length s' = 32"
proof -
  have len: "length (format_nat n) \<le> 20"
    using assms(2) by (intro format_nat_length) simp_all
  have sc: "length (CR_LF_scratch s) = 32" "drop 30 (CR_LF_scratch s) = CRLF"
    using assms(1) by (simp_all add: CR_LF_scratch_def Cons_nth_drop_Suc [symmetric])
  obtain s' where s': "len_digits (CR_LF_scratch s) 29 n = (29 - length (format_nat n), s')" "length s' = 32"
    "drop (Suc (29 - length (format_nat n))) s' = format_nat n @ CRLF"
    using len_digits_format [of n 29 "CR_LF_scratch s"] len sc by auto
  then show ?thesis
    using sc(1) by (simp add: len_bytes_def Let_def Cons_nth_drop_Suc [symmetric])
qed

definition arg_bytes :: "(64 word \<Rightarrow> bytes) \<Rightarrow> arg \<Rightarrow> bytes" where
  "arg_bytes ff a = (case a of AInt i \<Rightarrow> FormatInt i | AInt64 i \<Rightarrow> FormatInt i | AFloat64 x \<Rightarrow> ff x
     | AString s \<Rightarrow> s | ABytes p \<Rightarrow> p | Other _ \<Rightarrow> [])"

fun supported :: "arg \<Rightarrow> bool" where
  "supported (Other _) \<longleftrightarrow> False"
| "supported _ \<longleftrightarrow> True"

text \<open>Lengths are Go ints.\<close>

definition small :: "nat \<Rightarrow> bool" where "small n \<longleftrightarrow> n < 2 ^ 63"

lemma small_digits: "small n \<Longrightarrow> n < 10 ^ 20"
  by (simp add: small_def)

definition bulk_of :: "bytes \<Rightarrow> bytes" where
  "bulk_of p = CHR ''$'' # format_nat (length p) @ CRLF @ p @ CRLF"

context sticky_writer
begin

text \<open>\<open>emits b m p\<close>: a call that reports no error, from a good writer, wrote exactly \<open>p\<close>; one that
  reports an error broke the writer; and, when \<open>b\<close>, on a broken writer it fails.\<close>

definition emits :: "bool \<Rightarrow> ('s out \<Rightarrow> go_error option \<times> 's out) \<Rightarrow> bytes \<Rightarrow> bool" where
  "emits b m p \<longleftrightarrow> (\<forall>sc w e sc' w'. length sc = 32 \<longrightarrow> m (sc, w) = (e, (sc', w')) \<longrightarrow> length sc' = 32 \<and>
     (b \<longrightarrow> broken w \<longrightarrow> broken w' \<and> e \<noteq> None) \<and> (e \<noteq> None \<longrightarrow> broken w') \<and>
     (e = None \<longrightarrow> wok w \<longrightarrow> wok w' \<and> sent w' = sent w @ p))"

definition works :: "('s out \<Rightarrow> go_error option \<times> 's out) \<Rightarrow> bool" where
  "works m \<longleftrightarrow> (\<forall>sc w. length sc = 32 \<longrightarrow> wlive w \<longrightarrow>
     (\<exists>sc' w'. m (sc, w) = (None, (sc', w')) \<and> length sc' = 32 \<and> wlive w'))"

lemma emits_wr_call:
  assumes "\<And>s e s'. f s = (Some e, s') \<Longrightarrow> broken s'"
    "\<And>s r s'. broken s \<Longrightarrow> f s = (r, s') \<Longrightarrow> r \<noteq> None \<and> broken s'"
    "\<And>s s'. wok s \<Longrightarrow> f s = (None, s') \<Longrightarrow> wok s' \<and> sent s' = sent s @ p"
  shows "emits True (wr_call f) p"
  unfolding emits_def
proof (intro allI impI)
  fix sc w e sc' w'
  assume "length (sc :: bytes) = 32" "wr_call f (sc, w) = (e, (sc', w'))"
  then have "f w = (e, w')" "length sc' = 32"
    by (auto simp: wr_call_def split: prod.splits)
  then show "length sc' = 32 \<and> (True \<longrightarrow> broken w \<longrightarrow> broken w' \<and> e \<noteq> None) \<and> (e \<noteq> None \<longrightarrow> broken w') \<and>
    (e = None \<longrightarrow> wok w \<longrightarrow> wok w' \<and> sent w' = sent w @ p)"
    using assms by blast
qed

lemma emits_call:
  "emits True (wr_call (op_Write wops p)) p" "emits True (wr_call (op_WriteString wops p)) p"
  by (rule emits_wr_call; fact Write_breaks Write_broken Write_sent)
    (rule emits_wr_call; fact WriteString_breaks WriteString_broken WriteString_sent)

lemma works_wr_call: "(\<And>s. wlive s \<Longrightarrow> \<exists>s'. f s = (None, s') \<and> wlive s') \<Longrightarrow> works (wr_call f)"
  unfolding works_def wr_call_def by fastforce

lemma works_call: "works (wr_call (op_Write wops p))" "works (wr_call (op_WriteString wops p))"
  by (rule works_wr_call, erule Write_live) (rule works_wr_call, erule WriteString_live)

text \<open>A call whose error is ignored, then another.\<close>

lemma emits_then:
  assumes "emits True m p" "emits True n q"
  shows "emits True (\<lambda>o1. case m o1 of (_, o2) \<Rightarrow> n o2) (p @ q)"
  unfolding emits_def
proof (intro allI impI)
  fix sc w e sc' w'
  assume sc: "length sc = 32" and r: "(case m (sc, w) of (_, o2) \<Rightarrow> n o2) = (e, (sc', w'))"
  obtain e1 sc1 w1 where m: "m (sc, w) = (e1, (sc1, w1))" by (metis surj_pair)
  have M: "length sc1 = 32" "broken w \<Longrightarrow> broken w1" "e1 \<noteq> None \<Longrightarrow> broken w1"
    "e1 = None \<Longrightarrow> wok w \<Longrightarrow> wok w1 \<and> sent w1 = sent w @ p"
    using assms(1) sc m unfolding emits_def by blast+
  have "n (sc1, w1) = (e, (sc', w'))" using r m by simp
  then have N: "length sc' = 32" "broken w1 \<Longrightarrow> broken w' \<and> e \<noteq> None" "e \<noteq> None \<Longrightarrow> broken w'"
    "e = None \<Longrightarrow> wok w1 \<Longrightarrow> wok w' \<and> sent w' = sent w1 @ q"
    using assms(2) M(1) unfolding emits_def by blast+
  show "length sc' = 32 \<and> (True \<longrightarrow> broken w \<longrightarrow> broken w' \<and> e \<noteq> None) \<and> (e \<noteq> None \<longrightarrow> broken w') \<and>
    (e = None \<longrightarrow> wok w \<longrightarrow> wok w' \<and> sent w' = sent w @ p @ q)"
  proof -
    have "e = None \<Longrightarrow> e1 = None" using M(3) N(2) by blast
    then show ?thesis using M N by auto
  qed
qed

lemma works_then:
  assumes "works m" "works n"
  shows "works (\<lambda>o1. case m o1 of (_, o2) \<Rightarrow> n o2)"
  unfolding works_def
proof (intro allI impI)
  fix sc w assume "length (sc :: bytes) = 32" "wlive w"
  then obtain sc1 w1 where "m (sc, w) = (None, (sc1, w1))" "length sc1 = 32" "wlive w1"
    using assms(1) unfolding works_def by blast
  moreover from this obtain sc2 w2 where "n (sc1, w1) = (None, (sc2, w2))" "length sc2 = 32" "wlive w2"
    using assms(2) unfolding works_def by blast
  ultimately show "\<exists>sc' w'. (case m (sc, w) of (_, o2) \<Rightarrow> n o2) = (None, (sc', w')) \<and> length sc' = 32 \<and> wlive w'"
    by simp
qed

text \<open>A call whose error is returned at once, then another.\<close>

lemma emits_and:
  assumes "emits b m p" "emits False n q"
  shows "emits b (\<lambda>o1. case m o1 of (Some e, o2) \<Rightarrow> (Some e, o2) | (None, o2) \<Rightarrow> n o2) (p @ q)"
  unfolding emits_def
proof (intro allI impI)
  fix sc w e sc' w'
  assume sc: "length sc = 32"
    and r: "(case m (sc, w) of (Some e, o2) \<Rightarrow> (Some e, o2) | (None, o2) \<Rightarrow> n o2) = (e, (sc', w'))"
  obtain e1 sc1 w1 where m: "m (sc, w) = (e1, (sc1, w1))" by (metis surj_pair)
  have M: "length sc1 = 32" "b \<Longrightarrow> broken w \<Longrightarrow> broken w1 \<and> e1 \<noteq> None" "e1 \<noteq> None \<Longrightarrow> broken w1"
    "e1 = None \<Longrightarrow> wok w \<Longrightarrow> wok w1 \<and> sent w1 = sent w @ p"
    using assms(1) sc m unfolding emits_def by blast+
  show "length sc' = 32 \<and> (b \<longrightarrow> broken w \<longrightarrow> broken w' \<and> e \<noteq> None) \<and> (e \<noteq> None \<longrightarrow> broken w') \<and>
    (e = None \<longrightarrow> wok w \<longrightarrow> wok w' \<and> sent w' = sent w @ p @ q)"
  proof (cases e1)
    case None
    then have "n (sc1, w1) = (e, (sc', w'))" using r m by simp
    then have N: "length sc' = 32" "e \<noteq> None \<Longrightarrow> broken w'"
      "e = None \<Longrightarrow> wok w1 \<Longrightarrow> wok w' \<and> sent w' = sent w1 @ q"
      using assms(2) M(1) unfolding emits_def by blast+
    then show ?thesis using M None by auto
  next
    case (Some x)
    then show ?thesis using r m M by auto
  qed
qed

lemma works_and:
  assumes "works m" "works n"
  shows "works (\<lambda>o1. case m o1 of (Some e, o2) \<Rightarrow> (Some e, o2) | (None, o2) \<Rightarrow> n o2)"
  unfolding works_def
proof (intro allI impI)
  fix sc w assume "length (sc :: bytes) = 32" "wlive w"
  then obtain sc1 w1 where "m (sc, w) = (None, (sc1, w1))" "length sc1 = 32" "wlive w1"
    using assms(1) unfolding works_def by blast
  moreover from this obtain sc2 w2 where "n (sc1, w1) = (None, (sc2, w2))" "length sc2 = 32" "wlive w2"
    using assms(2) unfolding works_def by blast
  ultimately show "\<exists>sc' w'. (case m (sc, w) of (Some e, o2) \<Rightarrow> (Some e, o2) | (None, o2) \<Rightarrow> n o2)
      = (None, (sc', w')) \<and> length sc' = 32 \<and> wlive w'"
    by simp
qed

lemma writeLen_call:
  assumes "small n" "length sc = 32"
  shows "\<exists>sc'. length sc' = 32 \<and>
    writeLen wops pre n (sc, w) = wr_call (op_Write wops (pre # format_nat n @ CRLF)) (sc', w)"
  using len_bytes_format [OF assms(2) small_digits [OF assms(1)], of pre] by (auto simp: writeLen_def)

lemma emits_writeLen: "small n \<Longrightarrow> emits True (writeLen wops pre n) (pre # format_nat n @ CRLF)"
  using writeLen_call emits_call(1) [of "pre # format_nat n @ CRLF"] unfolding emits_def by metis

lemma works_writeLen: "small n \<Longrightarrow> works (writeLen wops pre n)"
  using writeLen_call works_call(1) [of "pre # format_nat n @ CRLF"] unfolding works_def by metis

lemma emits_writeString: "small (length s) \<Longrightarrow> emits True (writeString wops s) (bulk_of s)"
  using emits_then [OF emits_writeLen [of "length s" "CHR ''$''"] emits_then [OF emits_call(2) [of s] emits_call(2) [of CRLF]]]
  by (simp add: writeString_def [abs_def] bulk_of_def Let_def case_prod_beta)

lemma emits_writeBytes: "small (length p) \<Longrightarrow> emits True (writeBytes wops p) (bulk_of p)"
  using emits_then [OF emits_writeLen [of "length p" "CHR ''$''"] emits_then [OF emits_call(1) [of p] emits_call(2) [of CRLF]]]
  by (simp add: writeBytes_def [abs_def] bulk_of_def Let_def case_prod_beta)

lemma works_bulk: "small (length p) \<Longrightarrow> works (writeString wops p)" "small (length p) \<Longrightarrow> works (writeBytes wops p)"
  using works_then [OF works_writeLen [of "length p" "CHR ''$''"] works_then [OF works_call(2) [of p] works_call(2) [of CRLF]]]
    works_then [OF works_writeLen [of "length p" "CHR ''$''"] works_then [OF works_call(1) [of p] works_call(2) [of CRLF]]]
  by (simp_all add: writeString_def [abs_def] writeBytes_def [abs_def] Let_def case_prod_beta)

lemma emits_writeArg:
  "supported a \<Longrightarrow> small (length (arg_bytes ff a)) \<Longrightarrow>
     emits True (writeArg ff wops a) (bulk_of (arg_bytes ff a)) \<and> works (writeArg ff wops a)"
  by (cases a) (auto simp: writeArg_def arg_bytes_def writeInt64_def writeFloat64_def emits_writeBytes
      emits_writeString works_bulk)

lemma emits_weaken: "emits True m p \<Longrightarrow> emits False m p"
  unfolding emits_def by blast

lemma writeArgs_Cons:
  "writeArgs ff wops (a # args) = (\<lambda>o1. case writeArg ff wops a o1 of
     (Some e, o2) \<Rightarrow> (Some e, o2) | (None, o2) \<Rightarrow> writeArgs ff wops args o2)"
  by (rule ext) simp

lemma emits_writeArgs:
  "\<forall>a \<in> set args. supported a \<and> small (length (arg_bytes ff a)) \<Longrightarrow>
     emits False (writeArgs ff wops args) (concat (map (\<lambda>a. bulk_of (arg_bytes ff a)) args)) \<and>
     works (writeArgs ff wops args)"
proof (induction args)
  case Nil
  have "writeArgs ff wops [] = (\<lambda>o1. (None, o1))" by (rule ext) simp
  then show ?case by (simp add: works_def emits_def)
next
  case (Cons a args)
  then show ?case
    using emits_and [OF emits_weaken] works_and [of "writeArg ff wops a"] emits_writeArg [of a ff]
    by (simp add: writeArgs_Cons)
qed

end

text \<open>A command is the multi-bulk request of its name and its arguments' texts.\<close>

definition request :: "(64 word \<Rightarrow> bytes) \<Rightarrow> bytes \<Rightarrow> arg list \<Rightarrow> bytes" where
  "request ff cmd args = wire_multi (cmd # map (arg_bytes ff) args)"

definition sendable :: "(64 word \<Rightarrow> bytes) \<Rightarrow> bytes \<Rightarrow> arg list \<Rightarrow> bool" where
  "sendable ff cmd args \<longleftrightarrow> small (length args + 1) \<and> small (length cmd) \<and>
     (\<forall>a \<in> set args. supported a \<and> small (length (arg_bytes ff a)))"

lemma FormatInt_nat: "FormatInt (int n) = format_nat n"
  by (simp add: FormatInt_def)

lemma wire_bulk_of: "wire (NewBulkBytes (Some p)) = bulk_of p"
  by (simp add: NewBulkBytes_def wire_bulk_def bulk_of_def FormatInt_nat resp_types)

lemma request_bytes:
  "request ff cmd args = CHR ''*'' # format_nat (length args + 1) @ CRLF @ bulk_of cmd @
     concat (map (\<lambda>a. bulk_of (arg_bytes ff a)) args)"
  using FormatInt_nat [of "length args + 1"]
  by (simp add: request_def wire_multi_def NewArray_def wire_bulk_of comp_def resp_types ac_simps)

context sticky_writer
begin

lemma emits_writeCommand:
  assumes "sendable ff cmd args"
  shows "emits True (writeCommand ff wops cmd args) (request ff cmd args) \<and> works (writeCommand ff wops cmd args)"
proof -
  let ?len = "writeLen wops (CHR ''*'') (length args + 1)"
  let ?rest = "\<lambda>o1. case writeString wops cmd o1 of (Some e, o2) \<Rightarrow> (Some e, o2)
      | (None, o2) \<Rightarrow> writeArgs ff wops args o2"
  have eq: "writeCommand ff wops cmd args = (\<lambda>o1. case ?len o1 of (_, o2) \<Rightarrow> ?rest o2)"
    by (rule ext) (simp add: writeCommand_def Let_def case_prod_beta)
  have args: "emits False (writeArgs ff wops args) (concat (map (\<lambda>a. bulk_of (arg_bytes ff a)) args)) \<and>
      works (writeArgs ff wops args)"
    using assms by (intro emits_writeArgs) (auto simp: sendable_def)
  have cmd: "small (length cmd)" "small (length args + 1)"
    using assms by (auto simp: sendable_def)
  show ?thesis
    unfolding eq request_bytes
    using emits_then [OF emits_writeLen [OF cmd(2), of "CHR ''*''"] emits_and [OF emits_writeString [OF cmd(1)] conjunct1 [OF args]]]
      works_then [OF works_writeLen [OF cmd(2), of "CHR ''*''"] works_and [OF works_bulk(1) [OF cmd(1)] conjunct2 [OF args]]]
    by simp
qed

end

section \<open>What the number parsers compute\<close>

lemma digits_loop_digits:
  "\<forall>c \<in> set ds. is_digit c \<Longrightarrow> digits_loop (int64 a) ds = Some (int64 (foldl (\<lambda>n c. n * 10 + int (digit_val c)) a ds))"
proof (induction ds arbitrary: a)
  case (Cons c ds)
  have "int64 (int64 (int64 a * 10) + int (digit_val c)) = int64 (a * 10 + int (digit_val c))"
    by (simp only: int64_arith)
  then show ?case
    using Cons.IH [of "a * 10 + int (digit_val c)"] Cons.prems by (simp add: Let_def)
qed simp

lemma digits_loop_value:
  assumes "\<forall>c \<in> set ds. is_digit c"
  shows "digits_loop 0 ds = Some (int64 (int (dec_val ds)))"
proof -
  have "int64 0 = 0" by (simp add: in_int64_def)
  then show ?thesis
    using digits_loop_digits [OF assms, of 0] foldl_dec_val [of 0 ds] by simp
qed

lemma digits_loop_bad: "\<not> (\<forall>c \<in> set ds. is_digit c) \<Longrightarrow> digits_loop n ds = None"
  by (induction ds arbitrary: n) (auto simp: Let_def)

lemma format_digits: "\<forall>c \<in> set (format_nat n). is_digit c"
  using format_nat_digits by blast

lemma hd_format_nat: "hd (format_nat n) \<noteq> CHR ''-''"
  using format_nat_no_sign(3) [of n] format_nat_not_Nil [of n] by (metis hd_in_set)

lemma parseInt_format: "parseInt (FormatInt i) = Inr (int64 i)"
proof (cases "i < 0")
  case True
  then show ?thesis
    by (simp add: parseInt_def FormatInt_def digits_loop_value [OF format_digits] int64_arith)
next
  case False
  then show ?thesis
    using hd_format_nat by (simp add: parseInt_def FormatInt_def digits_loop_value [OF format_digits])
qed

lemma parseLen_format:
  assumes "small n"
  shows "parseLen (format_nat n) = Inr (int n)"
proof -
  have "format_nat n \<noteq> ''-1''"
    using hd_format_nat [of n] by auto
  then show ?thesis
    using assms by (simp add: parseLen_def digits_loop_value [OF format_digits] in_int64_def small_def)
qed

section \<open>Reading what a server writes\<close>

fun reply_wire :: "reply \<Rightarrow> bytes" where
  "reply_wire RNil = ''$-1'' @ CRLF"
| "reply_wire (RInt i) = CHR '':'' # FormatInt i @ CRLF"
| "reply_wire (RBulk p) = bulk_of p"
| "reply_wire (RString s) = CHR ''+'' # s @ CRLF"
| "reply_wire (RError s) = CHR ''-'' # s @ CRLF"
| "reply_wire (RArray rs) = CHR ''*'' # format_nat (length rs) @ CRLF @ concat (map reply_wire rs)"

fun sendable_reply :: "reply \<Rightarrow> bool" where
  "sendable_reply RNil \<longleftrightarrow> True"
| "sendable_reply (RInt i) \<longleftrightarrow> in_int64 i"
| "sendable_reply (RBulk p) \<longleftrightarrow> small (length p)"
| "sendable_reply (RString s) \<longleftrightarrow> LF \<notin> set s"
| "sendable_reply (RError s) \<longleftrightarrow> LF \<notin> set s"
| "sendable_reply (RArray rs) \<longleftrightarrow> small (length rs) \<and> (\<forall>r \<in> set rs. sendable_reply r)"

lemma reply_wire_element: "r \<in> set rs \<Longrightarrow> length (reply_wire r) \<le> length (concat (map reply_wire rs))"
  by (induction rs) auto

context byte_reader
begin

lemma gives_ReadFull:
  "live s \<Longrightarrow> rest s = p @ t \<Longrightarrow> p \<noteq> [] \<Longrightarrow> gives (op_ReadFull ops (length p)) s p t"
  unfolding gives_def using ReadFull_live ok_ReadFull live_ok by metis

lemma gives_line:
  assumes "live s" "rest s = l @ CRLF @ t" "LF \<notin> set l"
  shows "gives (readLine (Suc k) ops None) s l t"
proof -
  have "\<exists>s'. op_ReadBytes ops LF s = (Inr ((l @ [CR]) @ [LF]), s') \<and> live s' \<and> rest s' = t"
    using assms by (intro ReadBytes_live) auto
  then have "gives (op_ReadBytes ops LF) s (l @ CRLF) t"
    unfolding gives_def using ok_ReadBytes live_ok assms(1) by fastforce
  then show ?thesis
    by (simp, rule gives_bind) (simp_all add: gives_return nth_append)
qed

lemma gives_bulk_reply:
  assumes "live s" "rest s = p @ CRLF @ t"
  shows "gives (readBulk (Suc k) ops (length p)) s (RBulk p) t"
  unfolding readBulk_def
proof (rule gives_bind)
  show "gives (if length p = 0 then returnIO [] else op_ReadFull ops (length p)) s p (CRLF @ t)"
    using assms gives_ReadFull [of s p "CRLF @ t"] by (simp add: gives_return)
  fix s' assume "live s'" "rest s' = CRLF @ t"
  then have "gives (readLine (Suc k) ops None) s' [] t"
    by (intro gives_line) simp_all
  then show "gives (bindIO (readLine (Suc k) ops None) (\<lambda>line. if line \<noteq> [] then failIO bad_bulk else returnIO (RBulk p)))
      s' (RBulk p) t"
    by (rule gives_bind) (simp add: gives_return)
qed

lemma gives_reply_items:
  assumes "\<And>r s t. r \<in> set rs \<Longrightarrow> live s \<Longrightarrow> rest s = reply_wire r @ t \<Longrightarrow> gives item s r t"
    "live s" "rest s = concat (map reply_wire rs) @ t"
  shows "gives (read_items item (length rs)) s rs t"
  using assms
proof (induction rs arbitrary: s)
  case Nil
  then show ?case by (simp add: gives_return)
next
  case (Cons r rs)
  have 1: "gives item s r (concat (map reply_wire rs) @ t)"
    using Cons.prems by simp
  show ?case
    unfolding list.size(4) add_0_right add_Suc_right read_items.simps
  proof (rule gives_bind [OF 1])
    fix s1 assume s1: "live s1" "rest s1 = concat (map reply_wire rs) @ t"
    have "gives (read_items item (length rs)) s1 rs t"
      using Cons.prems(1) s1 by (intro Cons.IH) auto
    then show "gives (bindIO (read_items item (length rs)) (\<lambda>rs. returnIO (r # rs))) s1 (r # rs) t"
      by (rule gives_bind) (rule gives_return)
  qed
qed

lemma gives_reply:
  "length (reply_wire r) \<le> k \<Longrightarrow> sendable_reply r \<Longrightarrow> live s \<Longrightarrow> rest s = reply_wire r @ t \<Longrightarrow>
     gives (readReply k ops) s r t"
proof (induction k arbitrary: r s t)
  case 0
  then show ?case by (cases r) (simp_all add: bulk_of_def)
next
  case (Suc k)
  have step: "gives (readReply (Suc k) ops) s r t"
    if "rest s = l @ CRLF @ u" "LF \<notin> set l"
      "\<And>s'. live s' \<Longrightarrow> rest s' = u \<Longrightarrow> gives (reply_of_line (Suc k) ops (readReply k ops) l) s' r t" for l u
    unfolding readReply.simps using gives_line [OF Suc.prems(3) that(1,2)] that(3) by (rule gives_bind)
  show ?case
  proof (cases r)
    case RNil
    have "parseLen ''-1'' = Inr (-1)" by (simp add: parseLen_def)
    then show ?thesis
      using Suc.prems(4) RNil
      by (intro step [of "''$-1''" t]) (simp_all add: reply_of_line_def gives_return)
  next
    case (RInt i)
    then show ?thesis
      using Suc.prems(2,4) FormatInt_no_eol
      by (intro step [of "CHR '':'' # FormatInt i" t]) (simp_all add: reply_of_line_def parseInt_format gives_return)
  next
    case (RBulk p)
    then show ?thesis
      using Suc.prems(2,4) format_nat_no_sign gives_bulk_reply [of _ p t k]
      by (intro step [of "CHR ''$'' # format_nat (length p)" "p @ CRLF @ t"])
        (simp_all add: reply_of_line_def parseLen_format bulk_of_def)
  next
    case (RString b)
    then show ?thesis
      using Suc.prems(2,4)
      by (intro step [of "CHR ''+'' # b" t]) (simp_all add: reply_of_line_def gives_return)
  next
    case (RError b)
    then show ?thesis
      using Suc.prems(2,4)
      by (intro step [of "CHR ''-'' # b" t]) (simp_all add: reply_of_line_def gives_return)
  next
    case (RArray rs)
    have items: "gives (bindIO (read_items (readReply k ops) (length rs)) (\<lambda>rs. returnIO (RArray rs))) s' (RArray rs) t"
      if "live s'" "rest s' = concat (map reply_wire rs) @ t" for s'
    proof (rule gives_bind)
      show "gives (read_items (readReply k ops) (length rs)) s' rs t"
      proof (rule gives_reply_items [OF _ that])
        fix r' u v assume "r' \<in> set rs" "live u" "rest u = reply_wire r' @ v"
        then show "gives (readReply k ops) u r' v"
          using Suc.prems(1,2) RArray reply_wire_element [of r' rs] by (intro Suc.IH) auto
      qed
    qed (rule gives_return)
    show ?thesis
      using Suc.prems(2,4) RArray format_nat_no_sign items
      by (intro step [of "CHR ''*'' # format_nat (length rs)" "concat (map reply_wire rs) @ t"])
        (simp_all add: reply_of_line_def parseLen_format)
  qed
qed

end

end
