(* ===== verification/Cluster_Pool.thy ===== *)
theory Cluster_Pool
  imports Cluster_Node
begin

text \<open>
  The connections of a node and its pool of idle ones (\<open>utils/rediscluster/node.go\<close>), and the
  commands a node executes. What the operating system does is the argument \<open>net\<close>: the clock,
  dialling (which gives a new connection's number, reader and writer), closing by number, and the
  stream operations. A command locks the pool only inside \<open>getConn\<close> and \<open>releaseConn\<close>, so these two
  are the atomic steps of a pool many goroutines share.
\<close>

record ('e, 'r, 'w) net =
  net_now :: "'e \<Rightarrow> int \<times> 'e"
  net_dial :: "bytes \<Rightarrow> int \<Rightarrow> 'e \<Rightarrow> (go_error + nat \<times> 'r \<times> 'w) \<times> 'e"
  net_close :: "nat \<Rightarrow> 'e \<Rightarrow> 'e"
  net_rd :: "'r reader_ops"
  net_wr :: "'w writer_ops"
  net_left :: "'r \<Rightarrow> nat"
  net_float :: "64 word \<Rightarrow> bytes"

text \<open>\<open>net_left\<close> bounds the bytes a reader has left; it is the fuel of \<open>readReply\<close>.\<close>

section \<open>State\<close>

record ('r, 'w) redis_conn =
  rc_id :: nat
  rc_t :: int
  rc_br :: 'r
  rc_bw :: 'w
  rc_readTimeout :: int
  rc_writeTimeout :: int
  rc_pending :: int
  rc_lenScratch :: bytes
  rc_readDeadline :: "int option"
  rc_writeDeadline :: "int option"

datatype node_type = UNKNOWN_NODE | MASTER_NODE | SLAVE_NODE

record ('r, 'w) redis_node =
  address :: bytes
  conns :: "('r, 'w) redis_conn list"
  keepAlive :: int
  aliveTime :: int
  connTimeout :: int
  readTimeout :: int
  writeTimeout :: int
  updateTime :: int
  closed :: bool
  NodeType :: node_type

section \<open>The pool\<close>

text \<open>The idle connections are kept front to back; the loop of \<open>getConn\<close> looks at the back, here the
  head of the reversed list, and removes it until it finds one that is still fresh.\<close>

fun drop_expired ::
    "('e, 'r, 'w) net \<Rightarrow> int \<Rightarrow> ('r, 'w) redis_conn list \<Rightarrow> 'e \<Rightarrow> ('r, 'w) redis_conn list \<times> 'e" where
  "drop_expired net alive [] e = ([], e)"
| "drop_expired net alive (c # cs) e = (case net_now net e of (now, e) \<Rightarrow>
     if rc_t c + alive > now then (c # cs, e) else drop_expired net alive cs e)"

definition new_conn :: "('r, 'w) redis_node \<Rightarrow> nat \<Rightarrow> 'r \<Rightarrow> 'w \<Rightarrow> ('r, 'w) redis_conn" where
  "new_conn node i r w = \<lparr>rc_id = i, rc_t = 0, rc_br = r, rc_bw = w, rc_readTimeout = readTimeout node,
     rc_writeTimeout = writeTimeout node, rc_pending = 0, rc_lenScratch = zeros 32,
     rc_readDeadline = None, rc_writeDeadline = None\<rparr>"

definition getConn :: "('e, 'r, 'w) net \<Rightarrow> ('r, 'w) redis_node \<Rightarrow> 'e
    \<Rightarrow> (go_error + ('r, 'w) redis_conn) \<times> ('r, 'w) redis_node \<times> 'e" where
  "getConn net node e =
     (if closed node then (Inl (Formatted ''getConn: connection has been closed''), node, e)
      else let (bk, e) = (if aliveTime node > 0 then drop_expired net (aliveTime node) (rev (conns node)) e
                            else (rev (conns node), e))
      in case bk of
           [] \<Rightarrow> (case net_dial net (address node) (connTimeout node) e of
               (Inl err, e) \<Rightarrow> (Inl err, node\<lparr>conns := []\<rparr>, e)
             | (Inr (i, r, w), e) \<Rightarrow> (Inr (new_conn node i r w), node\<lparr>conns := []\<rparr>, e))
         | c # cs \<Rightarrow> (Inr c, node\<lparr>conns := rev cs\<rparr>, e))"

definition conn_shutdown :: "('e, 'r, 'w) net \<Rightarrow> ('r, 'w) redis_conn \<Rightarrow> 'e \<Rightarrow> 'e" where
  "conn_shutdown net c e = net_close net (rc_id c) e"

definition releaseConn :: "('e, 'r, 'w) net \<Rightarrow> ('r, 'w) redis_conn \<Rightarrow> ('r, 'w) redis_node \<Rightarrow> 'e
    \<Rightarrow> ('r, 'w) redis_node \<times> 'e" where
  "releaseConn net c node e =
     (if rc_pending c > 0 \<or> closed node then (node, conn_shutdown net c e)
      else if int (length (conns node)) \<ge> keepAlive node \<or> aliveTime node \<le> 0 then (node, conn_shutdown net c e)
      else case net_now net e of (now, e) \<Rightarrow> (node\<lparr>conns := c\<lparr>rc_t := now\<rparr> # conns node\<rparr>, e))"

text \<open>\<open>shutdown\<close> closes the idle connections from the back.\<close>

definition node_shutdown :: "('e, 'r, 'w) net \<Rightarrow> ('r, 'w) redis_node \<Rightarrow> 'e \<Rightarrow> ('r, 'w) redis_node \<times> 'e" where
  "node_shutdown net node e =
     (node\<lparr>conns := [], closed := True\<rparr>, foldl (\<lambda>e c. net_close net (rc_id c) e) e (rev (conns node)))"

section \<open>A connection's commands\<close>

definition set_write_deadline :: "('e, 'r, 'w) net \<Rightarrow> ('r, 'w) redis_conn \<Rightarrow> 'e \<Rightarrow> ('r, 'w) redis_conn \<times> 'e" where
  "set_write_deadline net c e =
     (if rc_writeTimeout c > 0 then case net_now net e of (now, e) \<Rightarrow>
        (c\<lparr>rc_writeDeadline := Some (now + rc_writeTimeout c)\<rparr>, e)
      else (c, e))"

definition send :: "('e, 'r, 'w) net \<Rightarrow> bytes \<Rightarrow> arg list \<Rightarrow> ('r, 'w) redis_conn \<Rightarrow> 'e
    \<Rightarrow> go_error option \<times> ('r, 'w) redis_conn \<times> 'e" where
  "send net cmd args c e =
     (let (c, e) = set_write_deadline net (c\<lparr>rc_pending := rc_pending c + 1\<rparr>) e;
          (r, s, w) = writeCommand (net_float net) (net_wr net) cmd args (rc_lenScratch c, rc_bw c)
      in (r, c\<lparr>rc_lenScratch := s, rc_bw := w\<rparr>, e))"

definition flush_conn :: "('e, 'r, 'w) net \<Rightarrow> ('r, 'w) redis_conn \<Rightarrow> 'e
    \<Rightarrow> go_error option \<times> ('r, 'w) redis_conn \<times> 'e" where
  "flush_conn net c e =
     (let (c, e) = set_write_deadline net c e; (r, w) = op_Flush (net_wr net) (rc_bw c)
      in (r, c\<lparr>rc_bw := w\<rparr>, e))"

definition receive :: "('e, 'r, 'w) net \<Rightarrow> ('r, 'w) redis_conn \<Rightarrow> 'e
    \<Rightarrow> (go_error + reply) \<times> ('r, 'w) redis_conn \<times> 'e" where
  "receive net c e =
     (let (c, e) = (if rc_readTimeout c > 0 then case net_now net e of (now, e) \<Rightarrow>
                      (c\<lparr>rc_readDeadline := Some (now + rc_readTimeout c)\<rparr>, e)
                    else (c, e))
      in if rc_pending c \<le> 0 then (Inl (Formatted ''no more pending reply''), c, e)
         else let (r, br) = readReply (Suc (net_left net (rc_br c))) (net_rd net) (rc_br c)
              in (r, c\<lparr>rc_pending := rc_pending c - 1, rc_br := br\<rparr>, e))"

text \<open>The reply a failed connection gives in place of the server's.\<close>

definition conn_timeout_reply :: reply where
  "conn_timeout_reply = RError ''ECONNTIMEOUT''"

type_synonym result = "reply \<times> go_error option"

definition node_do :: "('e, 'r, 'w) net \<Rightarrow> bytes \<Rightarrow> arg list \<Rightarrow> ('r, 'w) redis_node \<Rightarrow> 'e
    \<Rightarrow> result \<times> ('r, 'w) redis_node \<times> 'e" where
  "node_do net cmd args node e = (case getConn net node e of
     (Inl _, node, e) \<Rightarrow> ((conn_timeout_reply, None), node, e)
   | (Inr c, node, e) \<Rightarrow> (case send net cmd args c e of
       (Some err, c, e) \<Rightarrow> ((RNil, Some err), node, conn_shutdown net c e)
     | (None, c, e) \<Rightarrow> (case flush_conn net c e of
         (Some err, c, e) \<Rightarrow> ((RNil, Some err), node, conn_shutdown net c e)
       | (None, c, e) \<Rightarrow> (case receive net c e of
           (Inl err, c, e) \<Rightarrow> ((RNil, Some err), node, conn_shutdown net c e)
         | (Inr reply, c, e) \<Rightarrow> (case releaseConn net c node e of
             (node, e) \<Rightarrow> ((reply, None), node, e))))))"

text \<open>\<open>doRpushExpire\<close> sends the push and an expiry, and panics with fewer than two arguments.\<close>

definition doRpushExpire :: "('e, 'r, 'w) net \<Rightarrow> bytes \<Rightarrow> arg list \<Rightarrow> ('r, 'w) redis_node \<Rightarrow> 'e
    \<Rightarrow> (result \<times> ('r, 'w) redis_node \<times> 'e) outcome" where
  "doRpushExpire net cmd args node e = (case getConn net node e of
     (Inl _, node, e) \<Rightarrow> Ret ((conn_timeout_reply, None), node, e)
   | (Inr c, node, e) \<Rightarrow>
     if length args < 2 then Panic ''index out of range''
     else Ret (case send net cmd [args ! 0, args ! 1] c e of
       (Some err, c, e) \<Rightarrow> ((RNil, Some err), node, conn_shutdown net c e)
     | (None, c, e) \<Rightarrow>
       let expire = (if length args \<le> 2 then AInt 600 else args ! 2)
       in case send net ''expire'' [args ! 0, expire] c e of
         (Some err, c, e) \<Rightarrow> ((RNil, Some err), node, conn_shutdown net c e)
       | (None, c, e) \<Rightarrow> (case flush_conn net c e of
           (Some err, c, e) \<Rightarrow> ((RNil, Some err), node, conn_shutdown net c e)
         | (None, c, e) \<Rightarrow> (case receive net c e of
             (Inl err, c, e) \<Rightarrow> ((RNil, Some err), node, conn_shutdown net c e)
           | (Inr rpush, c, e) \<Rightarrow> (case receive net c e of
               (Inl err, c, e) \<Rightarrow> ((RNil, Some err), node, conn_shutdown net c e)
             | (Inr _, c, e) \<Rightarrow> (case releaseConn net c node e of
                 (node, e) \<Rightarrow> ((rpush, None), node, e)))))))"

section \<open>A command over good streams\<close>

lemma set_write_deadline_keeps:
  "\<exists>wd e'. set_write_deadline net c e = (c\<lparr>rc_writeDeadline := wd\<rparr>, e')"
  by (cases "net_now net e") (auto simp: set_write_deadline_def intro: exI [of _ "rc_writeDeadline c"])

text \<open>A connection on which a command can be sent, with nothing lost so far.\<close>

definition ready :: "('w \<Rightarrow> bool) \<Rightarrow> ('r, 'w) redis_conn \<Rightarrow> bool" where
  "ready wlive c \<longleftrightarrow> length (rc_lenScratch c) = 32 \<and> wlive (rc_bw c)"

context sticky_writer
begin

lemma send_ready:
  assumes "net_wr net = wops" "sendable (net_float net) cmd args" "ready wlive c"
  shows "\<exists>c' e'. send net cmd args c e = (None, c', e') \<and> ready wlive c' \<and> rc_pending c' = rc_pending c + 1 \<and>
    sent (rc_bw c') = sent (rc_bw c) @ request (net_float net) cmd args \<and> rc_br c' = rc_br c \<and> rc_id c' = rc_id c"
proof -
  obtain wd e1 where d: "set_write_deadline net (c\<lparr>rc_pending := rc_pending c + 1\<rparr>) e
      = (c\<lparr>rc_pending := rc_pending c + 1, rc_writeDeadline := wd\<rparr>, e1)"
    using set_write_deadline_keeps [of net "c\<lparr>rc_pending := rc_pending c + 1\<rparr>" e] by auto
  obtain sc w where w: "writeCommand (net_float net) wops cmd args (rc_lenScratch c, rc_bw c) = (None, sc, w)"
      "length sc = 32" "wlive w"
    using emits_writeCommand [OF assms(2)] assms(3) unfolding works_def ready_def by blast
  then have "sent w = sent (rc_bw c) @ request (net_float net) cmd args"
    using emits_writeCommand [OF assms(2)] assms(3) wlive_wok unfolding emits_def ready_def by blast
  then show ?thesis using d w assms(1) by (simp add: send_def ready_def)
qed

lemma flush_ready:
  assumes "net_wr net = wops" "ready wlive c"
  shows "\<exists>c' e'. flush_conn net c e = (None, c', e') \<and> ready wlive c' \<and> rc_pending c' = rc_pending c \<and>
    delivered (rc_bw c') = sent (rc_bw c) \<and> sent (rc_bw c') = sent (rc_bw c) \<and> rc_br c' = rc_br c \<and> rc_id c' = rc_id c"
proof -
  obtain wd e1 where d: "set_write_deadline net c e = (c\<lparr>rc_writeDeadline := wd\<rparr>, e1)"
    using set_write_deadline_keeps [of net c e] by blast
  obtain w where w: "op_Flush wops (rc_bw c) = (None, w)" "wlive w"
    using Flush_live assms(2) unfolding ready_def by blast
  then have "delivered w = sent w" "sent w = sent (rc_bw c)"
    using Flush_sent [OF wlive_wok] assms(2) unfolding ready_def by auto
  then show ?thesis using d w assms by (simp add: flush_conn_def ready_def)
qed

end

context byte_reader
begin

lemma receive_ready:
  assumes "net_rd net = ops" "\<And>s. length (rest s) \<le> net_left net s" "0 < rc_pending c" "live (rc_br c)"
    "sendable_reply r" "rest (rc_br c) = reply_wire r @ t"
  shows "\<exists>c' e'. receive net c e = (Inr r, c', e') \<and> rc_pending c' = rc_pending c - 1 \<and> live (rc_br c') \<and>
    rest (rc_br c') = t \<and> rc_bw c' = rc_bw c \<and> rc_lenScratch c' = rc_lenScratch c \<and> rc_id c' = rc_id c"
proof -
  have "length (reply_wire r) \<le> Suc (net_left net (rc_br c))"
    using assms(2) [of "rc_br c"] assms(6) by simp
  then have "gives (readReply (Suc (net_left net (rc_br c))) ops) (rc_br c) r t"
    using assms(4-6) by (intro gives_reply)
  then obtain br where "readReply (Suc (net_left net (rc_br c))) ops (rc_br c) = (Inr r, br)" "live br" "rest br = t"
    unfolding gives_def by blast
  then show ?thesis
    using assms(1,3) by (cases "net_now net e") (auto simp: receive_def Let_def)
qed

end

section \<open>A shared pool\<close>

text \<open>What is assumed of the operating system: \<open>open_ids e\<close> are the connections open in \<open>e\<close>; a dialled
  one is new, closing closes that one alone, and reading the clock changes none.\<close>

definition net_laws :: "('e, 'r, 'w) net \<Rightarrow> ('e \<Rightarrow> nat set) \<Rightarrow> bool" where
  "net_laws net open_ids \<longleftrightarrow>
     (\<forall>e. open_ids (snd (net_now net e)) = open_ids e) \<and>
     (\<forall>i e. open_ids (net_close net i e) = open_ids e - {i}) \<and>
     (\<forall>a t e i r w e'. net_dial net a t e = (Inr (i, r, w), e') \<longrightarrow>
        i \<notin> open_ids e \<and> open_ids e' = insert i (open_ids e)) \<and>
     (\<forall>a t e err e'. net_dial net a t e = (Inl err, e') \<longrightarrow> open_ids e' = open_ids e)"

text \<open>The pool of one node and the connections its users hold. A user may do anything with a
  connection it holds (send, receive, let deadlines pass), which leaves its number; it then
  releases it or shuts it down.\<close>

inductive pool_step :: "('e, 'r, 'w) net \<Rightarrow> ('e \<Rightarrow> nat set)
    \<Rightarrow> ('r, 'w) redis_node \<times> ('r, 'w) redis_conn list \<times> 'e
    \<Rightarrow> ('r, 'w) redis_node \<times> ('r, 'w) redis_conn list \<times> 'e \<Rightarrow> bool"
  for net :: "('e, 'r, 'w) net" and open_ids :: "'e \<Rightarrow> nat set" where
  acquire: "getConn net node e = (Inr c, node', e') \<Longrightarrow>
    pool_step net open_ids (node, us, e) (node', c # us, e')"
| dial_failed: "getConn net node e = (Inl err, node', e') \<Longrightarrow>
    pool_step net open_ids (node, us, e) (node', us, e')"
| work: "rc_id c' = rc_id c \<Longrightarrow> open_ids e' = open_ids e \<Longrightarrow>
    pool_step net open_ids (node, us @ c # vs, e) (node, us @ c' # vs, e')"
| release: "releaseConn net c node e = (node', e') \<Longrightarrow>
    pool_step net open_ids (node, us @ c # vs, e) (node', us @ vs, e')"
| abandon: "pool_step net open_ids (node, us @ c # vs, e) (node, us @ vs, conn_shutdown net c e)"
| close_node: "node_shutdown net node e = (node', e') \<Longrightarrow>
    pool_step net open_ids (node, us, e) (node', us, e')"

inductive_cases pool_stepE: "pool_step net open_ids st st'"

definition conn_ids :: "('r, 'w) redis_conn list \<Rightarrow> nat list" where
  "conn_ids cs = map rc_id cs"

text \<open>Every connection is held once, by the pool or by one user, and is open; an idle connection has
  no pending reply; there are at most \<open>keepAlive\<close> idle ones, none without an alive time, and none
  on a closed node.\<close>

definition pool_inv :: "('e \<Rightarrow> nat set) \<Rightarrow> ('r, 'w) redis_node \<times> ('r, 'w) redis_conn list \<times> 'e \<Rightarrow> bool" where
  "pool_inv open_ids st = (case st of (node, us, e) \<Rightarrow>
     distinct (conn_ids (conns node) @ conn_ids us) \<and>
     set (conn_ids (conns node) @ conn_ids us) \<subseteq> open_ids e \<and>
     (\<forall>c \<in> set (conns node). rc_pending c \<le> 0) \<and>
     int (length (conns node)) \<le> max 0 (keepAlive node) \<and>
     (closed node \<or> aliveTime node \<le> 0 \<longrightarrow> conns node = []))"

lemma conn_ids_simps [simp]:
  "conn_ids [] = []" "conn_ids (c # cs) = rc_id c # conn_ids cs" "conn_ids (cs @ ds) = conn_ids cs @ conn_ids ds"
  "conn_ids (rev cs) = rev (conn_ids cs)" "length (conn_ids cs) = length cs"
  by (simp_all add: conn_ids_def rev_map)

lemma drop_expired_suffix:
  assumes "net_laws net open_ids" "drop_expired net alive cs e = (ds, e')"
  shows "\<exists>xs. cs = xs @ ds" "open_ids e' = open_ids e"
proof -
  have "(\<exists>xs. cs = xs @ ds) \<and> open_ids e' = open_ids e"
    using assms(2)
  proof (induction cs arbitrary: e)
    case (Cons c cs)
    obtain now e1 where n: "net_now net e = (now, e1)" by (metis surj_pair)
    have e1: "open_ids e1 = open_ids e"
      using assms(1) n by (metis net_laws_def snd_conv)
    show ?case
    proof (cases "rc_t c + alive > now")
      case True
      then show ?thesis using Cons.prems n e1 by auto
    next
      case False
      then have "drop_expired net alive cs e1 = (ds, e')"
        using Cons.prems n by simp
      from Cons.IH [OF this] obtain xs where "cs = xs @ ds" "open_ids e' = open_ids e1" by blast
      then show ?thesis using e1 by (metis append_Cons)
    qed
  qed simp
  then show "\<exists>xs. cs = xs @ ds" "open_ids e' = open_ids e" by auto
qed

text \<open>What \<open>getConn\<close> does to an open node: the idle connections it keeps are a front part of the list,
  followed by the one it hands out unless it had to dial.\<close>

lemma getConn_cases:
  assumes "net_laws net open_ids" "getConn net node e = (r, node', e')"
  obtains (is_closed) err where "closed node" "r = Inl err" "node' = node" "e' = e"
  | (pooled) c ks xs where "\<not> closed node" "r = Inr c" "conns node = ks @ c # xs" "node' = node\<lparr>conns := ks\<rparr>"
      "open_ids e' = open_ids e"
  | (failed) err where "\<not> closed node" "r = Inl err" "node' = node\<lparr>conns := []\<rparr>" "open_ids e' = open_ids e"
  | (dialled) i br bw where "\<not> closed node" "r = Inr (new_conn node i br bw)" "node' = node\<lparr>conns := []\<rparr>"
      "i \<notin> open_ids e" "open_ids e' = insert i (open_ids e)"
proof (cases "closed node")
  case True
  then show ?thesis using that(1) assms(2) by (auto simp: getConn_def)
next
  case False
  obtain bk e1 where b: "(if aliveTime node > 0 then drop_expired net (aliveTime node) (rev (conns node)) e
      else (rev (conns node), e)) = (bk, e1)" by (metis surj_pair)
  have suf: "\<exists>xs. rev (conns node) = xs @ bk" and o1: "open_ids e1 = open_ids e"
    using b drop_expired_suffix [OF assms(1), of "aliveTime node" "rev (conns node)" e bk e1]
    by (auto split: if_splits)
  show ?thesis
  proof (cases bk)
    case Nil
    show ?thesis
    proof (cases "net_dial net (address node) (connTimeout node) e1")
      case (Pair q e2)
      show ?thesis
      proof (cases q)
        case (Inl err)
        then have "open_ids e2 = open_ids e1"
          using assms(1) Pair unfolding net_laws_def by blast
        then show ?thesis
          using that(3) [of err] assms(2) False b Nil Pair Inl o1 by (auto simp: getConn_def)
      next
        case (Inr p)
        obtain i br bw where p: "p = (i, br, bw)" by (metis surj_pair)
        then have "i \<notin> open_ids e1 \<and> open_ids e2 = insert i (open_ids e1)"
          using assms(1) Pair Inr unfolding net_laws_def by blast
        then show ?thesis
          using that(4) [of i br bw] assms(2) False b Nil Pair Inr p o1 by (auto simp: getConn_def)
      qed
    qed
  next
    case (Cons c cs)
    obtain xs where "rev (conns node) = xs @ c # cs" using suf Cons by blast
    then have "conns node = rev cs @ c # rev xs"
      by (metis rev_append rev_rev_ident rev.simps(2) append.assoc append_Cons append_Nil)
    then show ?thesis
      using that(2) [of c "rev cs" "rev xs"] assms(2) False b Cons o1 by (auto simp: getConn_def)
  qed
qed

lemma foldl_close:
  "net_laws net open_ids \<Longrightarrow> open_ids (foldl (\<lambda>e c. net_close net (rc_id c) e) e cs) = open_ids e - set (conn_ids cs)"
  by (induction cs arbitrary: e) (auto simp: net_laws_def)

lemma releaseConn_cases:
  assumes "net_laws net open_ids" "releaseConn net c node e = (node', e')"
  obtains (kept) now where "rc_pending c \<le> 0" "\<not> closed node" "int (length (conns node)) < keepAlive node"
      "0 < aliveTime node" "node' = node\<lparr>conns := c\<lparr>rc_t := now\<rparr> # conns node\<rparr>" "open_ids e' = open_ids e"
  | (shut) "node' = node" "open_ids e' = open_ids e - {rc_id c}"
proof (cases "rc_pending c > 0 \<or> closed node \<or> int (length (conns node)) \<ge> keepAlive node \<or> aliveTime node \<le> 0")
  case True
  then have "node' = node" "e' = net_close net (rc_id c) e"
    using assms(2) by (auto simp: releaseConn_def conn_shutdown_def split: if_splits)
  then show ?thesis using that(2) assms(1) by (simp add: net_laws_def)
next
  case False
  obtain now e1 where n: "net_now net e = (now, e1)" by (metis surj_pair)
  have "open_ids e1 = open_ids e"
    using assms(1) n by (metis net_laws_def snd_conv)
  then show ?thesis
    using that(1) [of now] assms(2) False n by (auto simp: releaseConn_def)
qed

lemma pool_step_inv:
  assumes "net_laws net open_ids" "pool_step net open_ids st st'" "pool_inv open_ids st"
  shows "pool_inv open_ids st'"
  using assms(2)
proof (cases rule: pool_step.cases)
  case (acquire node e c node' e' us)
  show ?thesis
    using assms(1) acquire(3)
  proof (cases rule: getConn_cases)
    case (pooled c' ks xs)
    then show ?thesis
      using assms(3) acquire(1,2) by (auto simp: pool_inv_def)
  next
    case (dialled i br bw)
    then show ?thesis
      using assms(3) acquire(1,2) by (auto simp: pool_inv_def new_conn_def)
  qed simp_all
next
  case (dial_failed node e err node' e' us)
  show ?thesis
    using assms(1) dial_failed(3)
    by (cases rule: getConn_cases) (use assms(3) dial_failed(1,2) in \<open>auto simp: pool_inv_def\<close>)
next
  case (work c' c e' e node us vs)
  then show ?thesis using assms(3) by (simp add: pool_inv_def)
next
  case (release c node e node' e' us vs)
  show ?thesis
    using assms(1) release(3)
    by (cases rule: releaseConn_cases) (use assms(3) release(1,2) in \<open>auto simp: pool_inv_def\<close>)
next
  case (abandon node us c vs e)
  then show ?thesis
    using assms(1,3) by (auto simp: pool_inv_def conn_shutdown_def net_laws_def)
next
  case (close_node node e node' e' us)
  then have "node' = node\<lparr>conns := [], closed := True\<rparr>"
    "open_ids e' = open_ids e - set (conn_ids (conns node))"
    using foldl_close [OF assms(1), of e "rev (conns node)"] by (auto simp: node_shutdown_def)
  then show ?thesis
    using assms(3) close_node(1,2) by (auto simp: pool_inv_def)
qed

text \<open>A network for examples: a clock and the list of open connections; the next one dialled gets a
  number above them, an empty script to read and a sink that accepts everything.\<close>

definition sample_net :: "(int \<times> nat list, breader, bwriter) net" where
  "sample_net = \<lparr>net_now = (\<lambda>e. (fst e, e)),
     net_dial = (\<lambda>a t e. let i = Suc (foldr max (snd e) 0)
                 in (Inr (i, NewReader [], NewWriter ([], [])), (fst e, i # snd e))),
     net_close = (\<lambda>i e. (fst e, removeAll i (snd e))),
     net_rd = bufio_reader, net_wr = bufio_writer, net_left = (\<lambda>r. length (rd_rest r)), net_float = (\<lambda>_. ''0'')\<rparr>"

lemma foldr_max_upper: "n \<in> set ns \<Longrightarrow> n \<le> foldr max ns (0 :: nat)"
  by (induction ns) auto

lemma sample_net_laws: "net_laws sample_net (\<lambda>e. set (snd e))"
proof -
  have "Suc (foldr max ns 0) \<notin> set ns" for ns :: "nat list"
    using foldr_max_upper [of "Suc (foldr max ns 0)" ns] by auto
  then show ?thesis
    by (auto simp: net_laws_def sample_net_def Let_def)
qed

definition sample_node :: "('r, 'w) redis_conn list \<Rightarrow> ('r, 'w) redis_node" where
  "sample_node cs = \<lparr>address = ''h:1'', conns = cs, keepAlive = 2, aliveTime = 10, connTimeout = 0, readTimeout = 0,
     writeTimeout = 0, updateTime = 0, closed = False, NodeType = MASTER_NODE\<rparr>"

section \<open>Properties of the pool\<close>

text \<open>C3. The pool is safe under any interleaving: from a node without idle connections, whatever its
  users do in whatever order, every connection is held exactly once (by the pool or by one user)
  and is open, idle connections have no pending reply, there are at most \<open>keepAlive\<close> of them, and
  none after the node is shut down.\<close>

theorem pool_safe:
  assumes "net_laws net open_ids" "(pool_step net open_ids)\<^sup>*\<^sup>* (node, [], e) st" "conns node = []"
  shows "pool_inv open_ids st"
  using assms(2)
proof (induction rule: rtranclp_induct)
  case base
  show ?case using assms(3) by (simp add: pool_inv_def)
next
  case (step y z)
  then show ?case using pool_step_inv [OF assms(1)] by blast
qed

lemma pool_safe_witness:
  "\<exists>(c :: (breader, bwriter) redis_conn) node' (e' :: int \<times> nat list).
     pool_inv (\<lambda>e. set (snd e)) (node', [c], e') \<and> rc_id c = 1"
proof -
  let ?n = "sample_node [] :: (breader, bwriter) redis_node"
  let ?c = "new_conn ?n 1 (NewReader []) (NewWriter ([], []))"
  have "getConn sample_net ?n (0, []) = (Inr ?c, ?n, (0, [1]))"
    by (simp add: getConn_def sample_node_def sample_net_def)
  then have s: "pool_step sample_net (\<lambda>e. set (snd e)) (?n, [], (0, [])) (?n, [?c], (0, [1]))"
    by (rule pool_step.acquire)
  have z: "conns ?n = []" by (simp add: sample_node_def)
  have "(pool_step sample_net (\<lambda>e. set (snd e)))\<^sup>*\<^sup>* (?n, [], (0, [])) (?n, [?c], (0, [1]))"
    using s by (rule r_into_rtranclp)
  from pool_safe [OF sample_net_laws this z]
  have "pool_inv (\<lambda>e. set (snd e)) (?n, [?c], (0 :: int, [1 :: nat]))" .
  moreover have "rc_id ?c = 1" by (simp add: new_conn_def)
  ultimately show ?thesis by blast
qed

text \<open>A connection is never handed to two users: in every reachable state, the connection \<open>getConn\<close>
  hands out is held by no user and is no longer in the pool, and it is open.\<close>

theorem getConn_exclusive:
  assumes "net_laws net open_ids" "(pool_step net open_ids)\<^sup>*\<^sup>* (node0, [], e0) (node, us, e)" "conns node0 = []"
    "getConn net node e = (Inr c, node', e')"
  shows "rc_id c \<notin> set (conn_ids us) \<and> rc_id c \<notin> set (conn_ids (conns node')) \<and> rc_id c \<in> open_ids e'"
proof -
  have "(pool_step net open_ids)\<^sup>*\<^sup>* (node0, [], e0) (node', c # us, e')"
    using assms(2) pool_step.acquire [OF assms(4)] by (rule rtranclp.rtrancl_into_rtrancl)
  from pool_safe [OF assms(1) this assms(3)] show ?thesis
    by (auto simp: pool_inv_def)
qed

lemma getConn_exclusive_witness:
  "\<exists>c node' e'. getConn sample_net (sample_node []) (5, [3]) = (Inr c, node', e') \<and> rc_id c \<notin> set (conn_ids (conns node'))"
proof -
  obtain r node' e' where g: "getConn sample_net (sample_node []) (5, [3]) = (r, node', e')"
    by (metis surj_pair)
  moreover obtain c where "r = Inr c"
    using g by (auto simp: getConn_def sample_node_def sample_net_def)
  ultimately show ?thesis
    using getConn_exclusive [OF sample_net_laws rtranclp.rtrancl_refl, of "sample_node []" "(5, [3])" c node' e']
    by (auto simp: sample_node_def)
qed

lemma drop_expired_head:
  "drop_expired net alive cs e = (c # ds, e') \<Longrightarrow> (\<And>e. t \<le> fst (net_now net e)) \<Longrightarrow> t < rc_t c + alive"
proof (induction cs arbitrary: e)
  case (Cons a cs)
  have "t \<le> fst (net_now net e)" by (rule Cons.prems(2))
  then show ?case
    using Cons.prems(1) Cons.IH [OF _ Cons.prems(2)]
    by (auto split: prod.splits if_splits)
qed simp

text \<open>An expired connection is not used: when the node has an alive time, a connection taken from
  the pool was released less than that time before the clock \<open>getConn\<close> read.\<close>

theorem getConn_fresh:
  assumes "getConn net node e = (Inr c, node', e')" "0 < aliveTime node" "c \<in> set (conns node)"
    "distinct (conn_ids (conns node))" "net_laws net open_ids" "set (conn_ids (conns node)) \<subseteq> open_ids e"
    "\<And>e. t \<le> fst (net_now net e)"
  shows "t < rc_t c + aliveTime node"
proof -
  obtain bk e1 where b: "drop_expired net (aliveTime node) (rev (conns node)) e = (bk, e1)"
    by (metis surj_pair)
  show ?thesis
  proof (cases bk)
    case Nil
    then obtain i br bw where "c = new_conn node i br bw" "i \<notin> open_ids e1"
      using assms(1,2,5) b unfolding net_laws_def
      by (auto simp: getConn_def split: if_splits prod.splits sum.splits)
    moreover have "open_ids e1 = open_ids e"
      using drop_expired_suffix(2) [OF assms(5) b] .
    moreover have "rc_id c \<in> set (conn_ids (conns node))"
      using assms(3) by (simp add: conn_ids_def)
    ultimately show ?thesis using assms(6) by (auto simp: new_conn_def)
  next
    case (Cons d ds)
    then have "c = d"
      using assms(1,2) b by (auto simp: getConn_def split: if_splits)
    then show ?thesis
      using drop_expired_head [of net "aliveTime node" "rev (conns node)" e d ds e1 t] b Cons assms(7) by simp
  qed
qed

definition aged_conn :: "nat \<Rightarrow> int \<Rightarrow> (breader, bwriter) redis_conn" where
  "aged_conn i t = (new_conn (sample_node []) i (NewReader []) (NewWriter ([], [])))\<lparr>rc_t := t\<rparr>"

lemma getConn_aged: "getConn (sample_net\<lparr>net_now := \<lambda>e. (100, e)\<rparr>) (sample_node [aged_conn 2 95, aged_conn 1 80]) (100, [1, 2])
    = (Inr (aged_conn 2 95), sample_node [], (100, [1, 2]))"
  by (simp add: getConn_def sample_node_def sample_net_def aged_conn_def)

lemma getConn_fresh_witness:
  "100 < rc_t (aged_conn 2 95) + aliveTime (sample_node [aged_conn 2 95, aged_conn 1 80])"
proof (rule getConn_fresh [OF getConn_aged])
  show "net_laws (sample_net\<lparr>net_now := \<lambda>e. (100, e)\<rparr>) (\<lambda>e. set (snd e))"
    using sample_net_laws by (simp add: net_laws_def sample_net_def)
qed (auto simp: sample_node_def aged_conn_def new_conn_def)

text \<open>Expired connections leak: \<open>getConn\<close> takes an expired idle connection out of the pool without
  closing it, so it stays open and nothing refers to it any more.\<close>

theorem expired_conn_leaks:
  assumes "net_laws net open_ids" "getConn net node e = (r, node', e')" "\<not> closed node" "0 < aliveTime node"
    "c \<in> set (conns node)" "rc_id c \<in> open_ids e" "c \<notin> set (conns node')" "r \<noteq> Inr c"
  shows "rc_id c \<in> open_ids e'"
  using assms(1,2) by (cases rule: getConn_cases) (use assms(3,6) in auto)

lemma expired_conn_leaks_witness:
  "rc_id (aged_conn 1 80) \<in> set (snd (100 :: int, [1, 2 :: nat])) \<and>
   getConn (sample_net\<lparr>net_now := \<lambda>e. (100, e)\<rparr>) (sample_node [aged_conn 2 95, aged_conn 1 80]) (100, [1, 2])
     = (Inr (aged_conn 2 95), sample_node [], (100, [1, 2]))"
proof
  show "rc_id (aged_conn 1 80) \<in> set (snd (100 :: int, [1, 2 :: nat]))"
  proof (rule expired_conn_leaks [OF _ getConn_aged])
    show "net_laws (sample_net\<lparr>net_now := \<lambda>e. (100, e)\<rparr>) (\<lambda>e. set (snd e))"
      using sample_net_laws by (simp add: net_laws_def sample_net_def)
  qed (auto simp: sample_node_def aged_conn_def new_conn_def)
qed (rule getConn_aged)

section \<open>Properties of commands\<close>

lemma node_do_ready:
  assumes "sticky_writer (net_wr net) wok wlive sent delivered broken" "byte_reader (net_rd net) rok rlive rest bufsize"
    "\<And>s. length (rest s) \<le> net_left net s" "getConn net node e = (Inr c, node1, e1)" "rc_pending c = 0"
    "ready wlive c" "rlive (rc_br c)" "sendable (net_float net) cmd args" "sendable_reply r"
    "rest (rc_br c) = reply_wire r @ t"
  shows "\<exists>c' e' node2 e2. node_do net cmd args node e = ((r, None), node2, e2) \<and>
    releaseConn net c' node1 e' = (node2, e2) \<and> delivered (rc_bw c') = sent (rc_bw c) @ request (net_float net) cmd args \<and>
    rest (rc_br c') = t \<and> rc_pending c' = 0 \<and> rc_id c' = rc_id c \<and> ready wlive c' \<and> rlive (rc_br c')"
proof -
  obtain c1 f1 where 1: "send net cmd args c e1 = (None, c1, f1)" "ready wlive c1" "rc_pending c1 = 1"
    "sent (rc_bw c1) = sent (rc_bw c) @ request (net_float net) cmd args" "rc_br c1 = rc_br c" "rc_id c1 = rc_id c"
    using sticky_writer.send_ready [OF assms(1) refl assms(8) assms(6), of e1] assms(5) by auto
  obtain c2 f2 where 2: "flush_conn net c1 f1 = (None, c2, f2)" "ready wlive c2" "rc_pending c2 = 1"
    "delivered (rc_bw c2) = sent (rc_bw c1)" "rc_br c2 = rc_br c" "rc_id c2 = rc_id c"
    using sticky_writer.flush_ready [OF assms(1) refl 1(2), of f1] 1 by auto
  obtain c3 f3 where 3: "receive net c2 f2 = (Inr r, c3, f3)" "rc_pending c3 = 0" "rlive (rc_br c3)"
    "rest (rc_br c3) = t" "rc_bw c3 = rc_bw c2" "rc_lenScratch c3 = rc_lenScratch c2" "rc_id c3 = rc_id c"
    using byte_reader.receive_ready [OF assms(2) refl assms(3), of c2 r t f2] assms(7,9,10) 2 by auto
  obtain node2 e2 where 4: "releaseConn net c3 node1 f3 = (node2, e2)" by (metis surj_pair)
  have "node_do net cmd args node e = ((r, None), node2, e2)"
    using assms(4) 1(1) 2(1) 3(1) 4 by (simp add: node_do_def)
  then show ?thesis
    using 1 2 3 4 by (intro exI [of _ c3] exI) (auto simp: ready_def)
qed

text \<open>A command on a connection from the pool: the server gets exactly the request behind what was
  written before, the caller gets the reply the server sent, byte for byte, the bytes behind it are
  kept, and the connection goes back through \<open>releaseConn\<close> without a pending reply.\<close>

theorem node_do_exchanges:
  assumes "sticky_writer (net_wr net) wok wlive sent delivered broken" "byte_reader (net_rd net) rok rlive rest bufsize"
    "\<And>s. length (rest s) \<le> net_left net s" "getConn net node e = (Inr c, node1, e1)" "rc_pending c = 0"
    "ready wlive c" "rlive (rc_br c)" "sendable (net_float net) cmd args" "sendable_reply r"
    "rest (rc_br c) = reply_wire r @ t"
  shows "\<exists>c' e' node2 e2. node_do net cmd args node e = ((r, None), node2, e2) \<and>
    releaseConn net c' node1 e' = (node2, e2) \<and> delivered (rc_bw c') = sent (rc_bw c) @ request (net_float net) cmd args \<and>
    rest (rc_br c') = t \<and> rc_pending c' = 0 \<and> rc_id c' = rc_id c \<and> ready wlive c' \<and> rlive (rc_br c')"
  by (rule node_do_ready [OF assms])

lemma bufio_sticky_writer:
  "sticky_writer bufio_writer wr_ok wr_live wr_sent (\<lambda>b. fst (wr_sink b)) (\<lambda>b. wr_err b \<noteq> None)"
  by (rule bufio_sticky.sticky_writer_axioms)

lemma bufio_byte_reader: "byte_reader bufio_reader rd_ok rd_live rd_rest (\<lambda>b. rd_size b)"
  by (rule bufio.byte_reader_axioms)

text \<open>A server that answers what it is told to.\<close>

definition scripted_net :: "bytes \<Rightarrow> (int \<times> nat list, breader, bwriter) net" where
  "scripted_net p = sample_net\<lparr>net_dial := \<lambda>a t e. (Inr (7, NewReader [(p, None)], NewWriter ([], [])), e)\<rparr>"

lemma scripted_net_simps:
  "net_wr (scripted_net p) = bufio_writer" "net_rd (scripted_net p) = bufio_reader"
  "net_left (scripted_net p) = (\<lambda>r. length (rd_rest r))" "net_float (scripted_net p) = (\<lambda>_. ''0'')"
  by (simp_all add: scripted_net_def sample_net_def)

lemma scripted_conn:
  "getConn (scripted_net p) (sample_node []) e = (Inr (new_conn (sample_node []) 7 (NewReader [(p, None)])
     (NewWriter ([], []))), sample_node [], e)"
  by (simp add: getConn_def sample_node_def scripted_net_def sample_net_def)

lemma scripted_streams:
  "p \<noteq> [] \<Longrightarrow> rd_live (NewReader [(p, None)])" "p \<noteq> [] \<Longrightarrow> rd_rest (NewReader [(p, None)]) = p"
  "wr_live (NewWriter ([], []))" "wr_sent (NewWriter ([], [])) = []"
  using NewReaderSize_ok [of "[(p, None)]"] NewWriterSize_ok [of "([], [])"]
  by (auto simp: NewReader_def NewWriter_def reliable_def accepting_def)

lemma node_do_exchanges_witness:
  "\<exists>node' e'. node_do (scripted_net (reply_wire (RBulk ''v''))) ''GET'' [AString ''k''] (sample_node []) (5, [])
     = ((RBulk ''v'', None), node', e')"
proof -
  let ?p = "reply_wire (RBulk ''v'')"
  have p: "?p \<noteq> []" by (simp add: bulk_of_def)
  note s = scripted_streams(1,2) [OF p] scripted_streams(3,4)
  show ?thesis
    using node_do_exchanges [where net = "scripted_net ?p" and cmd = "''GET''" and args = "[AString ''k'']"
        and r = "RBulk ''v''" and t = "[]" and e = "(5, [])", unfolded scripted_net_simps,
        OF bufio_sticky_writer bufio_byte_reader order_refl scripted_conn] s
    by (auto simp: new_conn_def ready_def sendable_def small_def arg_bytes_def zeros_def)
qed

lemma doRpushExpire_ready:
  assumes "sticky_writer (net_wr net) wok wlive sent delivered broken" "byte_reader (net_rd net) rok rlive rest bufsize"
    "\<And>s. length (rest s) \<le> net_left net s" "getConn net node e = (Inr c, node1, e1)" "rc_pending c = 0"
    "ready wlive c" "rlive (rc_br c)" "args = k # v # ex"
    "expire = [k, if ex = [] then AInt 600 else hd ex]"
    "sendable (net_float net) cmd [k, v]" "sendable (net_float net) ''expire'' expire"
    "sendable_reply pushed" "sendable_reply expired" "rest (rc_br c) = reply_wire pushed @ reply_wire expired @ t"
  shows "\<exists>c' e' node2 e2. doRpushExpire net cmd args node e = Ret ((pushed, None), node2, e2) \<and>
    releaseConn net c' node1 e' = (node2, e2) \<and> rest (rc_br c') = t \<and> rc_pending c' = 0 \<and>
    delivered (rc_bw c') = sent (rc_bw c) @ request (net_float net) cmd [k, v] @ request (net_float net) ''expire'' expire"
proof -
  obtain c0 f0 where 0: "send net cmd [k, v] c e1 = (None, c0, f0)" "ready wlive c0" "rc_pending c0 = 1"
    "sent (rc_bw c0) = sent (rc_bw c) @ request (net_float net) cmd [k, v]" "rc_br c0 = rc_br c"
    using sticky_writer.send_ready [OF assms(1) refl assms(10) assms(6), of e1] assms(5) by auto
  obtain c1 f1 where 1: "send net ''expire'' expire c0 f0 = (None, c1, f1)" "ready wlive c1" "rc_pending c1 = 2"
    "sent (rc_bw c1) = sent (rc_bw c0) @ request (net_float net) ''expire'' expire" "rc_br c1 = rc_br c"
    using sticky_writer.send_ready [OF assms(1) refl assms(11) 0(2), of f0] 0 by auto
  obtain c2 f2 where 2: "flush_conn net c1 f1 = (None, c2, f2)" "ready wlive c2" "rc_pending c2 = 2"
    "delivered (rc_bw c2) = sent (rc_bw c1)" "rc_br c2 = rc_br c"
    using sticky_writer.flush_ready [OF assms(1) refl 1(2), of f1] 1 by auto
  obtain c3 f3 where 3: "receive net c2 f2 = (Inr pushed, c3, f3)" "rc_pending c3 = 1" "rlive (rc_br c3)"
    "rest (rc_br c3) = reply_wire expired @ t" "rc_bw c3 = rc_bw c2"
    using byte_reader.receive_ready [OF assms(2) refl assms(3), of c2 pushed "reply_wire expired @ t" f2] assms(7,12,14) 2 by auto
  obtain c4 f4 where 4: "receive net c3 f3 = (Inr expired, c4, f4)" "rc_pending c4 = 0"
    "rest (rc_br c4) = t" "rc_bw c4 = rc_bw c2"
    using byte_reader.receive_ready [OF assms(2) refl assms(3), of c3 expired t f3] assms(13) 3 by auto
  obtain node2 e2 where 5: "releaseConn net c4 node1 f4 = (node2, e2)" by (metis surj_pair)
  have n: "\<not> length args < 2" "[args ! 0, args ! 1] = [k, v]"
    "[args ! 0, if length args \<le> 2 then AInt 600 else args ! 2] = expire"
    using assms(8,9) by (cases ex; simp)+
  have "doRpushExpire net cmd args node e = Ret ((pushed, None), node2, e2)"
    using assms(4) 0(1) 1(1) 2(1) 3(1) 4(1) 5 n by (simp add: doRpushExpire_def Let_def)
  then show ?thesis
    using 0 1 2 3 4 5 by (intro exI [of _ c4] exI) auto
qed

text \<open>A push with expiry: the two requests leave in one write, \<open>expire\<close> with the third argument or 600
  seconds, both replies are read, and the caller gets the one of the push.\<close>

theorem doRpushExpire_exchanges:
  assumes "sticky_writer (net_wr net) wok wlive sent delivered broken" "byte_reader (net_rd net) rok rlive rest bufsize"
    "\<And>s. length (rest s) \<le> net_left net s" "getConn net node e = (Inr c, node1, e1)" "rc_pending c = 0"
    "ready wlive c" "rlive (rc_br c)" "args = k # v # ex"
    "expire = [k, if ex = [] then AInt 600 else hd ex]"
    "sendable (net_float net) cmd [k, v]" "sendable (net_float net) ''expire'' expire"
    "sendable_reply pushed" "sendable_reply expired" "rest (rc_br c) = reply_wire pushed @ reply_wire expired @ t"
  shows "\<exists>c' e' node2 e2. doRpushExpire net cmd args node e = Ret ((pushed, None), node2, e2) \<and>
    releaseConn net c' node1 e' = (node2, e2) \<and> rest (rc_br c') = t \<and> rc_pending c' = 0 \<and>
    delivered (rc_bw c') = sent (rc_bw c) @ request (net_float net) cmd [k, v] @ request (net_float net) ''expire'' expire"
  by (rule doRpushExpire_ready [OF assms])

lemma doRpushExpire_exchanges_witness:
  "\<exists>node' e'. doRpushExpire (scripted_net (reply_wire (RInt 1) @ reply_wire (RInt 1))) ''RPUSH''
     [AString ''k'', AString ''v''] (sample_node []) (5, []) = Ret ((RInt 1, None), node', e')"
proof -
  let ?p = "reply_wire (RInt 1) @ reply_wire (RInt 1)"
  have p: "?p \<noteq> []" by simp
  note s = scripted_streams(1,2) [OF p] scripted_streams(3,4)
  have ten: "length (format_nat 600) \<le> 3"
    by (rule format_nat_length) simp_all
  show ?thesis
    using doRpushExpire_exchanges [where net = "scripted_net ?p" and cmd = "''RPUSH''"
        and args = "[AString ''k'', AString ''v'']" and ex = "[]" and pushed = "RInt 1" and expired = "RInt 1"
        and k = "AString ''k''" and v = "AString ''v''" and expire = "[AString ''k'', AInt 600]"
        and t = "[]" and e = "(5, [])", unfolded scripted_net_simps,
        OF bufio_sticky_writer bufio_byte_reader order_refl scripted_conn] s ten
    by (auto simp: new_conn_def ready_def sendable_def small_def arg_bytes_def zeros_def FormatInt_def in_int64_def)
qed

text \<open>A push over the scripted connection of the samples.\<close>

lemma scripted_push:
  assumes "small (length k)" "small (length v)"
  shows "\<exists>node' e'. doRpushExpire (scripted_net (reply_wire (RInt 1) @ reply_wire (RInt 1))) ''RPUSH''
     [AString k, ABytes v, AInt 600] (sample_node []) e = Ret ((RInt 1, None), node', e')"
proof -
  let ?p = "reply_wire (RInt 1) @ reply_wire (RInt 1)"
  have p: "?p \<noteq> []" by simp
  note s = scripted_streams(1,2) [OF p] scripted_streams(3,4)
  have ten: "length (format_nat 600) \<le> 3"
    by (rule format_nat_length) simp_all
  show ?thesis
    using doRpushExpire_ready [where net = "scripted_net ?p" and cmd = "''RPUSH''"
        and args = "[AString k, ABytes v, AInt 600]" and ex = "[AInt 600]" and pushed = "RInt 1" and expired = "RInt 1"
        and k = "AString k" and v = "ABytes v" and expire = "[AString k, AInt 600]"
        and t = "[]" and e = e, unfolded scripted_net_simps,
        OF bufio_sticky_writer bufio_byte_reader order_refl scripted_conn] s ten assms
    by (auto simp: new_conn_def ready_def sendable_def small_def arg_bytes_def zeros_def FormatInt_def in_int64_def)
qed

lemma net_now_open: "net_laws net open_ids \<Longrightarrow> net_now net e = (now, e') \<Longrightarrow> open_ids e' = open_ids e"
  by (metis net_laws_def snd_conv)

lemma set_write_deadline_open:
  "net_laws net open_ids \<Longrightarrow> set_write_deadline net c e = (c', e') \<Longrightarrow> rc_id c' = rc_id c \<and> open_ids e' = open_ids e"
  using net_now_open [of net open_ids e] by (auto simp: set_write_deadline_def split: prod.splits if_splits)

lemma send_open:
  "net_laws net open_ids \<Longrightarrow> send net cmd args c e = (r, c', e') \<Longrightarrow> rc_id c' = rc_id c \<and> open_ids e' = open_ids e"
  by (auto simp: send_def dest!: set_write_deadline_open split: prod.splits)

lemma flush_open:
  "net_laws net open_ids \<Longrightarrow> flush_conn net c e = (r, c', e') \<Longrightarrow> rc_id c' = rc_id c \<and> open_ids e' = open_ids e"
  by (auto simp: flush_conn_def dest!: set_write_deadline_open split: prod.splits)

lemma receive_open:
  assumes "net_laws net open_ids" "receive net c e = (r, c', e')"
  shows "rc_id c' = rc_id c \<and> open_ids e' = open_ids e"
proof -
  obtain now e1 where n: "net_now net e = (now, e1)" by (metis surj_pair)
  then have "open_ids e1 = open_ids e" using assms(1) by (metis net_laws_def snd_conv)
  then show ?thesis
    using assms(2) n by (auto simp: receive_def Let_def split: prod.splits if_splits)
qed

text \<open>The steps of a pool between taking a connection and giving it back or shutting it down.\<close>

lemma hold_then:
  assumes "getConn net node e = (Inr c, node1, e1)" "rc_id c' = rc_id c" "open_ids e2 = open_ids e1"
    "pool_step net open_ids (node1, [] @ c' # us, e2) (node', [] @ us, e')"
  shows "(pool_step net open_ids)\<^sup>*\<^sup>* (node, us, e) (node', us, e')"
proof -
  have "pool_step net open_ids (node, us, e) (node1, [] @ c # us, e1)"
    using pool_step.acquire [OF assms(1)] by simp
  moreover have "pool_step net open_ids (node1, [] @ c # us, e1) (node1, [] @ c' # us, e2)"
    using assms(2,3) by (rule pool_step.work)
  moreover have "pool_step net open_ids (node1, [] @ c' # us, e2) (node', us, e')"
    using assms(4) by simp
  ultimately show ?thesis
    by (meson rtranclp.rtrancl_into_rtrancl rtranclp.rtrancl_refl)
qed

text \<open>A command only takes the steps of the pool discipline: it acquires a connection, uses it, and
  releases it or shuts it down on every path, so it leaves no connection behind, whatever fails.\<close>

theorem node_do_disciplined:
  assumes "net_laws net open_ids" "node_do net cmd args node e = (res, node', e')"
  shows "(pool_step net open_ids)\<^sup>*\<^sup>* (node, us, e) (node', us, e')"
proof (cases "getConn net node e")
  case (fields q node1 e1)
  show ?thesis
  proof (cases q)
    case (Inl err)
    then have "node' = node1" "e' = e1" using assms(2) fields by (auto simp: node_do_def)
    then show ?thesis
      using pool_step.dial_failed [of net node e err node1 e1] fields Inl by (simp add: r_into_rtranclp)
  next
    case (Inr c)
    note got = fields [unfolded Inr]
    obtain r1 c1 f1 where 1: "send net cmd args c e1 = (r1, c1, f1)" by (metis surj_pair)
    obtain r2 c2 f2 where 2: "flush_conn net c1 f1 = (r2, c2, f2)" by (metis surj_pair)
    obtain r3 c3 f3 where 3: "receive net c2 f2 = (r3, c3, f3)" by (metis surj_pair)
    note keep = send_open [OF assms(1) 1] flush_open [OF assms(1) 2] receive_open [OF assms(1) 3]
    have shut: ?thesis if "e' = conn_shutdown net c' f" "node' = node1" "rc_id c' = rc_id c" "open_ids f = open_ids e1" for c' f
      using hold_then [OF got that(3,4)] pool_step.abandon [of net open_ids node1 "[]" c' us f] that by simp
    show ?thesis
    proof (cases "r1 = None \<and> r2 = None \<and> (\<exists>x. r3 = Inr x)")
      case True
      then obtain x where "releaseConn net c3 node1 f3 = (node', e')"
        using assms(2) got 1 2 3 by (auto simp: node_do_def split: prod.splits)
      then show ?thesis
        using hold_then [OF got _ _ pool_step.release, of c3 open_ids f3 node' e' us] keep by simp
    next
      case False
      then have "node' = node1 \<and> (e' = conn_shutdown net c1 f1 \<or> e' = conn_shutdown net c2 f2 \<or> e' = conn_shutdown net c3 f3)"
        using assms(2) got 1 2 3 by (cases r1; cases r2; cases r3) (auto simp: node_do_def)
      then show ?thesis using shut [of c1 f1] shut [of c2 f2] shut [of c3 f3] keep by auto
    qed
  qed
qed

lemma node_do_disciplined_witness:
  "\<exists>res node' e'. node_do sample_net ''PING'' [] (sample_node []) (5, []) = (res, node', e') \<and>
     (pool_step sample_net (\<lambda>e. set (snd e)))\<^sup>*\<^sup>* (sample_node [], [], (5, [])) (node', [], e')"
proof -
  obtain res node' e' where n: "node_do sample_net ''PING'' [] (sample_node []) (5, []) = (res, node', e')"
    by (metis surj_pair)
  then show ?thesis
    using node_do_disciplined [OF sample_net_laws n, of "[]"] by blast
qed

end
