(* ===== verification/Cluster_Wire.thy ===== *)
theory Cluster_Wire
  imports Cluster_Pool Credis_Wire
begin

text \<open>
  The cluster client's own coder (\<open>utils/rediscluster/node.go\<close>) against the server side of the same
  repository (\<open>utils/resparse/credis\<close>): what a node writes, the credis decoder reads as the same
  command. And what the client's number parsers compute, their missing overflow checks included. The
  client is run over \<open>bufio2\<close>'s streams, which have the operations and the laws of the standard
  library's \<open>bufio\<close> that \<open>node.go\<close> calls.
\<close>

text \<open>C31. A command reaches a server unchanged: the bytes \<open>writeCommand\<close> puts behind those written
  before decode, by the credis decoder, to the command's name and the texts of its arguments.\<close>

theorem command_understood:
  assumes "wr_live w" "length sc = 32" "sendable ff cmd args" "int (length args) < MaxArrayLen"
    "\<forall>a \<in> set (cmd # map (arg_bytes ff) args). int (length a) \<le> MaxBulkBytesLen"
  shows "\<exists>p sc' w'. writeCommand ff bufio_writer cmd args (sc, w) = (None, sc', w') \<and> wr_sent w' = wr_sent w @ p \<and>
    DecodeMultiBulkFromBytes p = Inr (Some (map (\<lambda>a. NewBulkBytes (Some a)) (cmd # map (arg_bytes ff) args)))"
proof -
  obtain sc' w' where w: "writeCommand ff bufio_writer cmd args (sc, w) = (None, sc', w')"
    using bufio_sticky.emits_writeCommand [OF assms(3)] assms(1,2) unfolding bufio_sticky.works_def by blast
  moreover from this have "wr_sent w' = wr_sent w @ request ff cmd args"
    using bufio_sticky.emits_writeCommand [OF assms(3)] assms(1,2) wr_live_def unfolding bufio_sticky.emits_def by blast
  moreover have "DecodeMultiBulkFromBytes (request ff cmd args)
      = Inr (Some (map (\<lambda>a. NewBulkBytes (Some a)) (cmd # map (arg_bytes ff) args)))"
    unfolding request_def using assms(4,5) by (intro DecodeMultiBulk_wire) simp_all
  ultimately show ?thesis by blast
qed

lemma command_understood_witness:
  "\<exists>p sc' w'. writeCommand (\<lambda>_. ''0'') bufio_writer ''SET'' [AString ''k'', ABytes [LF]] (zeros 32, NewWriter ([], []))
      = (None, sc', w') \<and> wr_sent w' = p \<and>
     DecodeMultiBulkFromBytes p = Inr (Some (map (\<lambda>a. NewBulkBytes (Some a)) [''SET'', ''k'', [LF]]))"
  using command_understood [of "NewWriter ([], [])" "zeros 32" "\<lambda>_. ''0''" "''SET''" "[AString ''k'', ABytes [LF]]"]
    scripted_streams(3,4)
  by (simp add: zeros_def sendable_def small_def arg_bytes_def MaxArrayLen_def MaxBulkBytesLen_def)

text \<open>C30. Replies of any nesting are read back: \<open>readReply\<close>, on a reader of any buffer size over any
  chunking, returns the reply whose wire form is at the front and leaves the bytes behind it; the
  number of bytes left is enough fuel.\<close>

theorem readReply_roundtrip:
  assumes "rd_live s" "rd_rest s = reply_wire r @ t" "sendable_reply r" "length (rd_rest s) \<le> k"
  shows "\<exists>s'. readReply k bufio_reader s = (Inr r, s') \<and> rd_live s' \<and> rd_rest s' = t"
proof -
  have "bufio.gives (readReply k bufio_reader) s r t"
    using assms by (intro bufio.gives_reply) simp_all
  then show ?thesis unfolding bufio.gives_def by blast
qed

lemma readReply_roundtrip_witness:
  "\<exists>s'. readReply 99 bufio_reader (NewReader [(''$3'', None), ([CR], None), (LF # ''a'' @ [CR], None), (LF # CRLF, None)])
      = (Inr (RBulk (''a'' @ CRLF)), s') \<and> rd_live s' \<and> rd_rest s' = []"
proof (rule readReply_roundtrip)
  have f: "format_nat 3 = ''3''" by (simp add: format_nat.simps digit_char_def char_of_def bit_0 bit_Suc)
  then have f': "format_nat (Suc (Suc (Suc 0))) = ''3''" by (simp add: numeral_3_eq_3)
  let ?src = "[(''$3'', None), ([CR], None), (LF # ''a'' @ [CR], None), (LF # CRLF, None)] :: source"
  have ok: "rd_live (NewReader ?src)" "rd_rest (NewReader ?src) = source_bytes ?src"
    using NewReaderSize_ok [of ?src] by (simp_all add: NewReader_def reliable_def)
  then show "rd_live (NewReader ?src)" "rd_rest (NewReader ?src) = reply_wire (RBulk (''a'' @ CRLF)) @ []"
    "length (rd_rest (NewReader ?src)) \<le> 99"
    by (simp_all add: bulk_of_def f')
qed (simp add: small_def)

text \<open>Lengths wrap silently: \<open>parseLen\<close> returns the value of any digits modulo \<open>2 ^ 64\<close>, as a signed
  number, with no error, so a bulk string whose announced length is \<open>2 ^ 63\<close> is taken for nil.\<close>

theorem parseLen_wraps:
  assumes "ds \<noteq> []" "\<forall>c \<in> set ds. is_digit c"
  shows "parseLen ds = Inr (int64 (int (dec_val ds)))"
proof -
  have "ds \<noteq> ''-1''" using assms by (auto simp: is_digit_def)
  then show ?thesis
    using assms by (simp add: parseLen_def digits_loop_value)
qed

lemma parseLen_wraps_witness:
  "parseLen ''9223372036854775808'' = Inr (- 9223372036854775808)"
proof -
  have v: "dec_val ''9223372036854775808'' = 9223372036854775808"
    by (simp add: digit_val_def)
  have "parseLen ''9223372036854775808'' = Inr (int64 (int (dec_val ''9223372036854775808'')))"
    by (rule parseLen_wraps) (auto simp: is_digit_def)
  then show ?thesis
    by (simp only: v) (simp add: int64_def)
qed

text \<open>\<open>parseInt\<close> inverts formatting for every 64 bit integer and accepts nothing but an optional
  minus sign and digits.\<close>

theorem parseInt_exact:
  "(in_int64 i \<longrightarrow> parseInt (FormatInt i) = Inr i) \<and>
   ((\<exists>e. parseInt p = Inl e) \<longleftrightarrow> (let q = (if p \<noteq> [] \<and> hd p = CHR ''-'' then tl p else p)
      in q = [] \<or> (\<exists>c \<in> set q. \<not> is_digit c)))"
proof
  show "in_int64 i \<longrightarrow> parseInt (FormatInt i) = Inr i"
    by (simp add: parseInt_format)
  let ?q = "if p \<noteq> [] \<and> hd p = CHR ''-'' then tl p else p"
  show "(\<exists>e. parseInt p = Inl e) \<longleftrightarrow> (let q = ?q in q = [] \<or> (\<exists>c \<in> set q. \<not> is_digit c))"
  proof (cases "\<forall>c \<in> set ?q. is_digit c")
    case True
    then show ?thesis
      using digits_loop_value [OF True] by (auto simp: parseInt_def Let_def)
  next
    case False
    then show ?thesis
      using digits_loop_bad [OF False, of 0] by (auto simp: parseInt_def Let_def)
  qed
qed

lemma parseInt_exact_witness: "parseInt (FormatInt (- 42)) = Inr (- 42)"
  using parseInt_exact [of "- 42" "''1''"] by (simp add: in_int64_def)

end
