(* ===== verification/Cluster_Core.thy ===== *)
theory Cluster_Core
  imports Cluster_Pool "HOL-Library.AList"
begin

text \<open>
  The cluster client's routing table (\<open>utils/rediscluster/cluster.go\<close>): its state, the update from
  \<open>CLUSTER SLOTS\<close>, the lookups of nodes by key and address, and the handling of redirections. Nodes
  are pointers in the code, shared by the slot arrays and the maps; here they are indices into a
  heap. A Go map is an association list, and what is not determined by the program is in the
  argument \<open>w\<close>: the network and clock, the order in which a loop visits a map, random numbers, and
  whether the update routine is waiting on its channel. The lookups and updates take the cluster's
  lock; a command runs here without other commands between its steps.
\<close>

section \<open>State\<close>

type_synonym node_ptr = nat

record ('e, 'r, 'w) world =
  w_net :: "('e, 'r, 'w) net"
  w_iter :: "bytes list \<Rightarrow> 'e \<Rightarrow> bytes list \<times> 'e"
  w_perm :: "nat \<Rightarrow> 'e \<Rightarrow> nat list \<times> 'e"
  w_uint32n :: "nat \<Rightarrow> 'e \<Rightarrow> nat \<times> 'e"
  w_listening :: "'e \<Rightarrow> bool \<times> 'e"
  w_parse_float :: float_parser

record cluster_options =
  StartNodes :: "bytes list"
  ConnTimeout :: int
  ReadTimeout :: int
  WriteTimeout :: int
  KeepAlive :: int
  AliveTime :: int
  SlaveOperateRate :: int
  ClusterUpdateHeartbeat :: int

text \<open>\<open>updateList\<close> holds the messages the update routine has received and not yet handled.\<close>

record ('r, 'w) cluster =
  heap :: "('r, 'w) redis_node list"
  slots :: "nat \<Rightarrow> node_ptr option"
  slaveslots :: "nat \<Rightarrow> node_ptr list"
  nodes :: "(bytes \<times> node_ptr) list"
  slaveNodes :: "(bytes \<times> node_ptr) list"
  cl_connTimeout :: int
  cl_readTimeout :: int
  cl_writeTimeout :: int
  cl_keepAlive :: int
  cl_aliveTime :: int
  cl_updateTime :: int
  updateList :: "(node_ptr option \<times> int) list"
  cl_closed :: bool
  isSlaveReadAble :: bool
  slaveOperateRate :: int
  clusterUpdateHeartbeat :: int

type_synonym ('e, 'r, 'w) cst = "('r, 'w) cluster \<times> 'e"

definition env_call :: "('e \<Rightarrow> 'a \<times> 'e) \<Rightarrow> ('e, 'r, 'w) cst \<Rightarrow> 'a \<times> ('e, 'r, 'w) cst" where
  "env_call f s = (case f (snd s) of (x, e) \<Rightarrow> (x, fst s, e))"

text \<open>An operation of the node behind a pointer.\<close>

definition node_call :: "node_ptr \<Rightarrow> (('r, 'w) redis_node \<Rightarrow> 'e \<Rightarrow> 'a \<times> ('r, 'w) redis_node \<times> 'e)
    \<Rightarrow> ('e, 'r, 'w) cst \<Rightarrow> 'a \<times> ('e, 'r, 'w) cst" where
  "node_call p f s = (case f (heap (fst s) ! p) (snd s) of
     (x, n, e) \<Rightarrow> (x, (fst s)\<lparr>heap := (heap (fst s))[p := n]\<rparr>, e))"

text \<open>The entries of a map in the order a loop visits them.\<close>

definition map_range :: "('e, 'r, 'w) world \<Rightarrow> (bytes \<times> 'v) list \<Rightarrow> 'e \<Rightarrow> (bytes \<times> 'v) list \<times> 'e" where
  "map_range w m e = (case w_iter w (map fst m) e of (ks, e) \<Rightarrow>
     (concat (map (\<lambda>k. case map_of m k of None \<Rightarrow> [] | Some v \<Rightarrow> [(k, v)]) ks), e))"

section \<open>Replies of a cluster\<close>

datatype resp_type = kRespOK | kRespMove | kRespAsk | kRespConnTimeout | kRespError | kRespClusterDown

definition checkReply :: "reply \<Rightarrow> resp_type" where
  "checkReply r = (case r of
     RError m \<Rightarrow>
       if take 3 m = ''ASK'' then kRespAsk
       else if take 5 m = ''MOVED'' then kRespMove
       else if take 12 m = ''ECONNTIMEOUT'' then kRespConnTimeout
       else if take 11 m = ''CLUSTERDOWN'' then kRespClusterDown
       else kRespError
   | _ \<Rightarrow> kRespOK)"

definition reply_msg :: "reply \<Rightarrow> bytes" where
  "reply_msg r = (case r of RError m \<Rightarrow> m | _ \<Rightarrow> [])"

definition Cluster_Down_Error :: go_error where
  "Cluster_Down_Error = Sentinel ''CLUSTERDOWN''"

section \<open>Lookups\<close>

definition getNodeByAddr :: "bytes \<Rightarrow> ('r, 'w) cluster \<Rightarrow> go_error + node_ptr" where
  "getNodeByAddr addr cl =
     (if cl_closed cl then Inl (Formatted ''getNodeByAddr: cluster has been closed'')
      else case map_of (nodes cl) addr of
          None \<Rightarrow> Inl (Formatted (''getNodeByAddr: '' @ addr @ '' not found''))
        | Some p \<Rightarrow> Inr p)"

definition no_node :: "string \<Rightarrow> bytes \<Rightarrow> nat \<Rightarrow> go_error" where
  "no_node f k slot = Formatted (f @ '': '' @ k @ ''['' @ format_nat slot @ ''] no node found'')"

definition getNodeByKey :: "(64 word \<Rightarrow> bytes) \<Rightarrow> arg \<Rightarrow> ('r, 'w) cluster \<Rightarrow> go_error + node_ptr" where
  "getNodeByKey ff arg cl = (case key ff arg of
     Inl _ \<Rightarrow> Inl (Formatted ''getNodeByKey: invalid key '')
   | Inr k \<Rightarrow>
       let slot = hash k
       in if cl_closed cl then Inl (Formatted ''getNodeByKey: cluster has been closed'')
          else case slots cl slot of None \<Rightarrow> Inl (no_node ''getNodeByKey'' k slot) | Some p \<Rightarrow> Inr p)"

definition GetNodeAddrByKey :: "(64 word \<Rightarrow> bytes) \<Rightarrow> arg \<Rightarrow> ('r, 'w) cluster \<Rightarrow> go_error + bytes" where
  "GetNodeAddrByKey ff arg cl = (case key ff arg of
     Inl _ \<Rightarrow> Inl (Formatted ''getNodeByKey: invalid key '')
   | Inr k \<Rightarrow>
       let slot = hash k
       in if cl_closed cl then Inl (Formatted ''getNodeByKey: cluster has been closed'')
          else case slots cl slot of None \<Rightarrow> Inl (no_node ''getNodeByKey'' k slot)
             | Some p \<Rightarrow> Inr (address (heap cl ! p)))"

definition IsSlaveOperate :: "('e, 'r, 'w) world \<Rightarrow> ('e, 'r, 'w) cst \<Rightarrow> bool \<times> ('e, 'r, 'w) cst" where
  "IsSlaveOperate w s =
     (if length (slaveNodes (fst s)) = 0 then (False, s)
      else if \<not> isSlaveReadAble (fst s) then (False, s)
      else let (r, s) = env_call (w_uint32n w 100) s
           in (int (r + 1) \<le> slaveOperateRate (fst s) mod 2 ^ 32, s))"

definition no_slave :: "string \<Rightarrow> bytes \<Rightarrow> nat \<Rightarrow> ('r, 'w) cluster \<Rightarrow> go_error" where
  "no_slave f k slot cl = Formatted (f @ '': '' @ k @ ''['' @ format_nat slot @ ''] no alive slave of ''
     @ (case slots cl slot of None \<Rightarrow> [] | Some p \<Rightarrow> address (heap cl ! p)) @ '' master found'')"

definition getAnRandomSlaveNodeByKey :: "('e, 'r, 'w) world \<Rightarrow> arg \<Rightarrow> ('e, 'r, 'w) cst
    \<Rightarrow> ((go_error + node_ptr) \<times> ('e, 'r, 'w) cst) outcome" where
  "getAnRandomSlaveNodeByKey w arg s = (case key (net_float (w_net w)) arg of
     Inl _ \<Rightarrow> Ret (Inl (Formatted ''getAnRandomSlaveNodeByKey: invalid key ''), s)
   | Inr k \<Rightarrow>
       let slot = hash k; ns = slaveslots (fst s) slot
       in if cl_closed (fst s) then Ret (Inl (Formatted ''getAnRandomSlaveNodeByKey: cluster has been closed''), s)
          else if length ns = 0 then Ret (Inl (no_slave ''getAnRandomSlaveNodeByKey'' k slot (fst s)), s)
          else let (i, s) = (if length ns = 1 then (0, s) else env_call (w_uint32n w (length ns)) s)
               in if i < length ns then Ret (Inr (ns ! i), s) else Panic ''index out of range'')"

text \<open>The slave and the master; the master is nil when the slot has none.\<close>

definition getAnSlaveNodeByNumSeed :: "(64 word \<Rightarrow> bytes) \<Rightarrow> arg \<Rightarrow> 64 word \<Rightarrow> ('r, 'w) cluster
    \<Rightarrow> go_error + node_ptr \<times> node_ptr option" where
  "getAnSlaveNodeByNumSeed ff arg numSeed cl = (case key ff arg of
     Inl _ \<Rightarrow> Inl (Formatted ''getAnSlaveNodeByNumSeed: invalid key '')
   | Inr k \<Rightarrow>
       let slot = hash k; ns = slaveslots cl slot
       in if cl_closed cl then Inl (Formatted ''getAnSlaveNodeByNumSeed: cluster has been closed'')
          else if length ns = 0 then Inl (no_slave ''getAnSlaveNodeByNumSeed'' k slot cl)
          else let i = (if length ns = 1 then 0 else unat numSeed mod length ns)
               in Inr (ns ! i, slots cl slot))"

section \<open>Informing the update routine\<close>

text \<open>The channel has no buffer: the message is dropped unless the routine is waiting.\<close>

definition Inform :: "('e, 'r, 'w) world \<Rightarrow> node_ptr option \<Rightarrow> ('e, 'r, 'w) cst \<Rightarrow> ('e, 'r, 'w) cst" where
  "Inform w node s =
     (let (t, s) = env_call (net_now (w_net w)) s; (ready, s) = env_call (w_listening w) s
      in if ready then ((fst s)\<lparr>updateList := updateList (fst s) @ [(node, t)]\<rparr>, snd s) else s)"

text \<open>\<open>for _, x = range m { if ok(x) break }\<close>: the variable afterwards, nil after an empty map.\<close>

fun range_until :: "('a \<Rightarrow> bool) \<Rightarrow> 'a option \<Rightarrow> 'a list \<Rightarrow> 'a option" where
  "range_until ok x [] = x"
| "range_until ok x (y # ys) = (if ok y then Some y else range_until ok (Some y) ys)"

definition other_node :: "('e, 'r, 'w) world \<Rightarrow> node_ptr \<Rightarrow> ('e, 'r, 'w) cst \<Rightarrow> node_ptr option \<times> ('e, 'r, 'w) cst" where
  "other_node w p s =
     (let (ns, s) = env_call (map_range w (nodes (fst s))) s; h = heap (fst s)
      in (range_until (\<lambda>q. address (h ! q) \<noteq> address (h ! p)) None (map snd ns), s))"

definition UpdateSlotsInfoByRandomNode :: "('e, 'r, 'w) world \<Rightarrow> node_ptr \<Rightarrow> ('e, 'r, 'w) cst \<Rightarrow> ('e, 'r, 'w) cst" where
  "UpdateSlotsInfoByRandomNode w p s = (case other_node w p s of (q, s) \<Rightarrow> Inform w q s)"

text \<open>The loop counts along the random permutation and stops at its zero.\<close>

definition UpdateSlotsByRandomMasterNode :: "('e, 'r, 'w) world \<Rightarrow> ('e, 'r, 'w) cst \<Rightarrow> ('e, 'r, 'w) cst" where
  "UpdateSlotsByRandomMasterNode w s =
     (let (pm, s) = env_call (w_perm w (length (nodes (fst s)))) s;
          (ns, s) = env_call (map_range w (nodes (fst s))) s
      in Inform w (map_option snd (range_until (\<lambda>x. fst x = 0) None (zip pm (map snd ns)))) s)"

section \<open>Redirections\<close>

definition wrap_err :: "string \<Rightarrow> go_error \<Rightarrow> go_error" where
  "wrap_err pre e = Formatted (pre @ '': '' @ Error e)"

definition handleMove :: "('e, 'r, 'w) world \<Rightarrow> node_ptr \<Rightarrow> bytes \<Rightarrow> bytes \<Rightarrow> arg list \<Rightarrow> ('e, 'r, 'w) cst
    \<Rightarrow> result \<times> ('e, 'r, 'w) cst" where
  "handleMove w node msg cmd args s =
     (let fields = SplitByte (CHR '' '') msg
      in if length fields \<noteq> 3
         then ((RNil, Some (Formatted (''handleMove: invalid response '' @ [CHR 0x22] @ msg @ [CHR 0x22]))), s)
         else let s = Inform w (Some node) s
              in case getNodeByAddr (fields ! 2) (fst s) of
                   Inl e \<Rightarrow> ((RNil, Some (wrap_err ''handleMove'' e)), s)
                 | Inr p \<Rightarrow> node_call p (node_do (w_net w) cmd args) s)"

text \<open>\<open>handleAsk\<close> ignores the errors of its two \<open>send\<close>s. When the reply to \<open>ASKING\<close> is a text other
  than \<open>OK\<close>, the error it formats is nil.\<close>

definition ask_err :: "go_error option \<Rightarrow> go_error" where
  "ask_err e = (case e of None \<Rightarrow> Formatted ''handleAsk: <nil>'' | Some e \<Rightarrow> wrap_err ''handleAsk'' e)"

definition ask_node :: "('e, 'r, 'w) net \<Rightarrow> bytes \<Rightarrow> arg list \<Rightarrow> ('r, 'w) redis_node \<Rightarrow> 'e
    \<Rightarrow> result \<times> ('r, 'w) redis_node \<times> 'e" where
  "ask_node net cmd args node e = (case getConn net node e of
     (Inl err, node, e) \<Rightarrow> ((RNil, Some (wrap_err ''handleAsk'' err)), node, e)
   | (Inr c, node, e) \<Rightarrow>
       (case send net ''ASKING'' [] c e of (_, c, e) \<Rightarrow> (case send net cmd args c e of (_, c, e) \<Rightarrow>
        (case flush_conn net c e of
          (Some err, c, e) \<Rightarrow> ((RNil, Some (wrap_err ''handleAsk'' err)), node, conn_shutdown net c e)
        | (None, c, e) \<Rightarrow> (case receive net c e of (r, c, e) \<Rightarrow>
            let (re, err) = (case r of Inl err \<Rightarrow> reply_String RNil (Some err) | Inr x \<Rightarrow> reply_String x None)
            in if err \<noteq> None \<or> re \<noteq> ''OK''
               then ((RNil, Some (ask_err err)), node, conn_shutdown net c e)
               else (case receive net c e of
                   (Inl err, c, e) \<Rightarrow> ((RNil, Some (wrap_err ''handleAsk'' err)), node, conn_shutdown net c e)
                 | (Inr reply, c, e) \<Rightarrow> (case releaseConn net c node e of
                     (node, e) \<Rightarrow> ((reply, None), node, e))))))))"

definition handleAsk :: "('e, 'r, 'w) world \<Rightarrow> node_ptr \<Rightarrow> bytes \<Rightarrow> bytes \<Rightarrow> arg list \<Rightarrow> ('e, 'r, 'w) cst
    \<Rightarrow> result \<times> ('e, 'r, 'w) cst" where
  "handleAsk w node msg cmd args s =
     (let fields = SplitByte (CHR '' '') msg
      in if length fields \<noteq> 3
         then ((RNil, Some (Formatted (''handleAsk: invalid response '' @ [CHR 0x22] @ msg @ [CHR 0x22]))), s)
         else case getNodeByAddr (fields ! 2) (fst s) of
             Inl e \<Rightarrow> ((RNil, Some (wrap_err ''handleAsk'' e)), s)
           | Inr p \<Rightarrow> node_call p (ask_node (w_net w) cmd args) s)"

text \<open>After a connection timeout some other node is asked; without any node the code dereferences nil.\<close>

definition timeout_moved :: "('e, 'r, 'w) world \<Rightarrow> node_ptr \<Rightarrow> node_ptr \<Rightarrow> bytes \<Rightarrow> bytes \<Rightarrow> arg list
    \<Rightarrow> ('e, 'r, 'w) cst \<Rightarrow> result \<times> ('e, 'r, 'w) cst" where
  "timeout_moved w node q msg cmd args s =
     (let fields = SplitByte (CHR '' '') msg; addr = address (heap (fst s) ! node)
      in if length fields \<noteq> 3
         then ((RNil, Some (Formatted (''handleConnTimeout: invalid response '' @ [CHR 0x22] @ msg @ [CHR 0x22]))), s)
         else if fields ! 2 = addr
         then ((RNil, Some (Formatted (''handleConnTimeout: '' @ addr @ '' connection timeout''))), s)
         else let s = Inform w (Some q) s
              in case getNodeByAddr (fields ! 2) (fst s) of
                   Inl e \<Rightarrow> ((RNil, Some (wrap_err ''handleConnTimeout'' e)), s)
                 | Inr p \<Rightarrow> node_call p (node_do (w_net w) cmd args) s)"

definition handleConnTimeout :: "('e, 'r, 'w) world \<Rightarrow> node_ptr \<Rightarrow> bytes \<Rightarrow> arg list \<Rightarrow> ('e, 'r, 'w) cst
    \<Rightarrow> (result \<times> ('e, 'r, 'w) cst) outcome" where
  "handleConnTimeout w node cmd args s = (case other_node w node s of
     (None, s) \<Rightarrow> Panic nil_deref
   | (Some q, s) \<Rightarrow> Ret (case node_call q (node_do (w_net w) cmd args) s of
       ((_, Some e), s) \<Rightarrow> ((RNil, Some (wrap_err ''handleConnTimeout'' e)), s)
     | ((reply, None), s) \<Rightarrow> (case reply of
         RError msg \<Rightarrow>
           if take 5 msg \<noteq> ''MOVED'' then ((RNil, Some (Formatted msg)), s)
           else timeout_moved w node q msg cmd args s
       | _ \<Rightarrow> ((reply, None), Inform w (Some q) s))))"

text \<open>The loop that follows chains of \<open>MOVED\<close>; it has no bound, so not returning is \<open>None\<close>.\<close>

partial_function (option) move_loop :: "('e, 'r, 'w) world \<Rightarrow> node_ptr \<Rightarrow> bytes \<Rightarrow> arg list \<Rightarrow> reply
    \<Rightarrow> ('e, 'r, 'w) cst \<Rightarrow> (result \<times> ('e, 'r, 'w) cst) option" where
  "move_loop w node cmd args reply s = (case handleMove w node (reply_msg reply) cmd args s of
     ((reply, err), s) \<Rightarrow> if checkReply reply \<noteq> kRespMove then Some ((reply, err), s)
       else move_loop w node cmd args reply s)"

text \<open>What \<open>Do\<close>, \<open>SlaveDo\<close> and \<open>handleSetTask\<close> do with a reply that is not \<open>MOVED\<close>, and with any reply:
  \<open>None\<close> is not returning.\<close>

definition finish_reply :: "('e, 'r, 'w) world \<Rightarrow> node_ptr \<Rightarrow> bytes \<Rightarrow> arg list \<Rightarrow> reply \<Rightarrow> ('e, 'r, 'w) cst
    \<Rightarrow> (result \<times> ('e, 'r, 'w) cst) outcome" where
  "finish_reply w node cmd args reply s = (case checkReply reply of
     kRespAsk \<Rightarrow> Ret (handleAsk w node (reply_msg reply) cmd args s)
   | kRespConnTimeout \<Rightarrow> handleConnTimeout w node cmd args s
   | kRespClusterDown \<Rightarrow> Ret ((reply, Some Cluster_Down_Error), UpdateSlotsInfoByRandomNode w node s)
   | _ \<Rightarrow> Ret ((reply, None), s))"

definition follow :: "('e, 'r, 'w) world \<Rightarrow> node_ptr \<Rightarrow> bytes \<Rightarrow> arg list \<Rightarrow> reply \<Rightarrow> ('e, 'r, 'w) cst
    \<Rightarrow> (result \<times> ('e, 'r, 'w) cst) outcome option" where
  "follow w node cmd args reply s =
     (if checkReply reply = kRespMove
      then case move_loop w node cmd args reply s of
          None \<Rightarrow> None
        | Some ((reply, _), s) \<Rightarrow> Some (finish_reply w node cmd args reply s)
      else Some (finish_reply w node cmd args reply s))"

definition bind_run :: "'a outcome option \<Rightarrow> ('a \<Rightarrow> 'b outcome option) \<Rightarrow> 'b outcome option" where
  "bind_run m f = (case m of None \<Rightarrow> None | Some (Panic p) \<Rightarrow> Some (Panic p) | Some (Ret x) \<Rightarrow> f x)"

section \<open>Invariant\<close>

text \<open>Nodes never move and keep their address.\<close>

definition extends :: "('r, 'w) redis_node list \<Rightarrow> ('r, 'w) redis_node list \<Rightarrow> bool" where
  "extends h h' \<longleftrightarrow> length h \<le> length h' \<and> (\<forall>p < length h. address (h' ! p) = address (h ! p))"

definition node_map_ok :: "('r, 'w) redis_node list \<Rightarrow> (bytes \<times> node_ptr) list \<Rightarrow> bool" where
  "node_map_ok h m \<longleftrightarrow> distinct (map fst m) \<and> (\<forall>(a, p) \<in> set m. p < length h \<and> address (h ! p) = a)"

text \<open>The two maps: they give the node of the address, their nodes are not shut down, and none is in
  both.\<close>

definition maps_ok :: "('r, 'w) redis_node list \<Rightarrow> (bytes \<times> node_ptr) list \<Rightarrow> (bytes \<times> node_ptr) list \<Rightarrow> bool" where
  "maps_ok h m m' \<longleftrightarrow> node_map_ok h m \<and> node_map_ok h m' \<and> snd ` set m \<inter> snd ` set m' = {} \<and>
     (\<forall>p \<in> snd ` set m \<union> snd ` set m'. \<not> closed (h ! p))"

text \<open>And every other pointer is to a node.\<close>

definition cluster_inv :: "('r, 'w) cluster \<Rightarrow> bool" where
  "cluster_inv cl \<longleftrightarrow> maps_ok (heap cl) (nodes cl) (slaveNodes cl) \<and>
     (\<forall>j p. slots cl j = Some p \<longrightarrow> p < length (heap cl)) \<and>
     (\<forall>j. \<forall>p \<in> set (slaveslots cl j). p < length (heap cl)) \<and>
     (\<forall>(q, t) \<in> set (updateList cl). \<forall>p. q = Some p \<longrightarrow> p < length (heap cl))"

text \<open>What a command leaves: everything but node states and messages to the update routine.\<close>

definition routes where
  "routes cl = (slots cl, slaveslots cl, nodes cl, slaveNodes cl, cl_closed cl, cl_updateTime cl,
     (cl_connTimeout cl, cl_readTimeout cl, cl_writeTimeout cl, cl_keepAlive cl, cl_aliveTime cl),
     (isSlaveReadAble cl, slaveOperateRate cl, clusterUpdateHeartbeat cl))"

definition identity where
  "identity n = (address n, NodeType n, closed n, updateTime n)"

definition same_routes :: "('r, 'w) cluster \<Rightarrow> ('r, 'w) cluster \<Rightarrow> bool" where
  "same_routes cl cl' \<longleftrightarrow> routes cl' = routes cl \<and> map identity (heap cl') = map identity (heap cl) \<and>
     (\<forall>q t p. (q, t) \<in> set (updateList cl') \<longrightarrow> (q, t) \<notin> set (updateList cl) \<longrightarrow> q = Some p \<longrightarrow> p < length (heap cl))"

lemma extends_refl [simp]: "extends h h"
  by (simp add: extends_def)

lemma extends_trans: "extends h h' \<Longrightarrow> extends h' h'' \<Longrightarrow> extends h h''"
  by (auto simp: extends_def)

lemma extends_update: "address n = address (h ! p) \<Longrightarrow> extends h (h[p := n])"
  by (auto simp: extends_def) (metis nth_list_update_eq nth_list_update_neq)

lemma extends_append: "extends h (h @ ns)"
  by (auto simp: extends_def nth_append)

lemma node_map_ok_extends: "node_map_ok h m \<Longrightarrow> extends h h' \<Longrightarrow> node_map_ok h' m"
  by (fastforce simp: node_map_ok_def extends_def)

lemma node_map_ok_lookup:
  "node_map_ok h m \<Longrightarrow> map_of m a = Some p \<Longrightarrow> p < length h \<and> address (h ! p) = a"
  by (auto simp: node_map_ok_def dest: map_of_SomeD)

lemma same_routes_refl [simp]: "same_routes cl cl"
  by (auto simp: same_routes_def)

lemma same_identity:
  "map identity h' = map identity h \<Longrightarrow> length h' = length h \<and> (\<forall>p < length h. address (h' ! p) = address (h ! p) \<and>
     NodeType (h' ! p) = NodeType (h ! p) \<and> closed (h' ! p) = closed (h ! p) \<and> updateTime (h' ! p) = updateTime (h ! p))"
  by (auto simp: list_eq_iff_nth_eq identity_def)

lemma same_routes_length: "same_routes cl cl' \<Longrightarrow> length (heap cl') = length (heap cl)"
  using same_identity by (auto simp: same_routes_def)

lemma same_routes_trans:
  assumes "same_routes a b" "same_routes b c"
  shows "same_routes a c"
  using assms same_routes_length [OF assms(1)] unfolding same_routes_def
  by (metis (no_types, lifting))

lemma maps_ok_sym: "maps_ok h m m' \<longleftrightarrow> maps_ok h m' m"
  by (auto simp: maps_ok_def)

lemma maps_ok_valid: "maps_ok h m m' \<Longrightarrow> p \<in> snd ` set m \<union> snd ` set m' \<Longrightarrow> p < length h"
  by (auto simp: maps_ok_def node_map_ok_def)

lemma maps_ok_extends:
  assumes "maps_ok h m m'" "extends h h'" "\<And>p. p < length h \<Longrightarrow> closed (h' ! p) = closed (h ! p)"
  shows "maps_ok h' m m'"
  using assms(1,3) node_map_ok_extends [OF _ assms(2)] maps_ok_valid [OF assms(1)] by (simp add: maps_ok_def)

lemma cluster_inv_same_routes:
  assumes "cluster_inv cl" "same_routes cl cl'"
  shows "cluster_inv cl'"
proof -
  have r: "slots cl' = slots cl" "slaveslots cl' = slaveslots cl" "nodes cl' = nodes cl" "slaveNodes cl' = slaveNodes cl"
    "length (heap cl') = length (heap cl)" "extends (heap cl) (heap cl')"
    "\<And>p. p < length (heap cl) \<Longrightarrow> closed (heap cl' ! p) = closed (heap cl ! p)"
    using assms(2) same_identity [of "heap cl'" "heap cl"] by (auto simp: same_routes_def routes_def extends_def)
  have "p < length (heap cl)" if "(q, t) \<in> set (updateList cl')" "q = Some p" for q t p
  proof (cases "(q, t) \<in> set (updateList cl)")
    case True
    then show ?thesis using assms(1) that by (fastforce simp: cluster_inv_def)
  next
    case False
    then show ?thesis using assms(2) that unfolding same_routes_def by blast
  qed
  moreover have "maps_ok (heap cl') (nodes cl) (slaveNodes cl)"
    using assms(1) r(7) by (intro maps_ok_extends [OF _ r(6)]) (auto simp: cluster_inv_def)
  ultimately show ?thesis
    using assms(1) r(1-5) unfolding cluster_inv_def by auto
qed

text \<open>Operations on one node.\<close>

definition keeps_identity :: "(('r, 'w) redis_node \<Rightarrow> 'e \<Rightarrow> 'a \<times> ('r, 'w) redis_node \<times> 'e) \<Rightarrow> bool" where
  "keeps_identity f \<longleftrightarrow> (\<forall>n e x n' e'. f n e = (x, n', e') \<longrightarrow> identity n' = identity n)"

lemma getConn_identity: "getConn net n e = (r, n', e') \<Longrightarrow> identity n' = identity n"
  by (auto simp: identity_def getConn_def Let_def split: if_splits prod.splits list.splits sum.splits)

lemma releaseConn_identity: "releaseConn net c n e = (n', e') \<Longrightarrow> identity n' = identity n"
  by (auto simp: identity_def releaseConn_def split: if_splits prod.splits)

lemma node_do_identity: "keeps_identity (node_do net cmd args)"
  unfolding keeps_identity_def
  by (auto simp: node_do_def dest!: getConn_identity releaseConn_identity
      split: prod.splits sum.splits option.splits)

lemma ask_node_identity: "keeps_identity (ask_node net cmd args)"
  unfolding keeps_identity_def
  by (auto simp: ask_node_def Let_def dest!: getConn_identity releaseConn_identity
      split: prod.splits sum.splits option.splits if_splits)

lemma node_call_same:
  assumes "keeps_identity f" "node_call p f s = (x, s')"
  shows "same_routes (fst s) (fst s')"
proof -
  obtain y n e where f: "f (heap (fst s) ! p) (snd s) = (y, n, e)" by (metis surj_pair)
  then have "identity n = identity (heap (fst s) ! p)"
    using assms(1) unfolding keeps_identity_def by blast
  moreover have "fst s' = (fst s)\<lparr>heap := (heap (fst s))[p := n]\<rparr>"
    using assms(2) f by (auto simp: node_call_def)
  ultimately show ?thesis
    by (simp add: same_routes_def routes_def map_update list_update_same_conv [symmetric])
      (metis length_map list_update_id map_update nth_map)
qed

lemma env_call_same: "env_call f s = (x, s') \<Longrightarrow> fst s' = fst s"
  by (auto simp: env_call_def split: prod.splits)

lemma Inform_same:
  assumes "\<And>p. q = Some p \<Longrightarrow> p < length (heap (fst s))"
  shows "same_routes (fst s) (fst (Inform w q s))"
proof -
  obtain t s1 where 1: "env_call (net_now (w_net w)) s = (t, s1)" by (metis surj_pair)
  obtain b s2 where 2: "env_call (w_listening w) s1 = (b, s2)" by (metis surj_pair)
  have "fst s2 = fst s" using env_call_same [OF 1] env_call_same [OF 2] by simp
  then show ?thesis
    using 1 2 assms by (auto simp: Inform_def same_routes_def routes_def)
qed

lemma getNodeByAddr_valid:
  "cluster_inv cl \<Longrightarrow> getNodeByAddr addr cl = Inr p \<Longrightarrow> p < length (heap cl) \<and> address (heap cl ! p) = addr"
  by (auto simp: getNodeByAddr_def cluster_inv_def maps_ok_def dest: node_map_ok_lookup split: if_splits option.splits)

lemma range_until_in: "range_until ok x ys = Some y \<Longrightarrow> y \<in> set ys \<or> x = Some y"
  by (induction ok x ys rule: range_until.induct) (auto split: if_splits)

lemma map_range_sub: "map_range w m e = (m', e') \<Longrightarrow> set m' \<subseteq> set m"
  by (auto simp: map_range_def dest!: map_of_SomeD [OF sym] split: prod.splits option.splits)

lemma other_node_valid:
  assumes "cluster_inv (fst s)" "other_node w p s = (q, s')"
  shows "fst s' = fst s" "q = Some r \<Longrightarrow> r < length (heap (fst s))"
proof -
  obtain ns s1 where 1: "env_call (map_range w (nodes (fst s))) s = (ns, s1)" by (metis surj_pair)
  show f: "fst s' = fst s"
    using assms(2) 1 env_call_same [OF 1] by (auto simp: other_node_def Let_def)
  assume "q = Some r"
  then have "r \<in> set (map snd ns)"
    using assms(2) 1 range_until_in by (fastforce simp: other_node_def Let_def)
  moreover have "set ns \<subseteq> set (nodes (fst s))"
    using 1 map_range_sub by (fastforce simp: env_call_def split: prod.splits)
  ultimately show "r < length (heap (fst s))"
    using assms(1) by (auto simp: cluster_inv_def maps_ok_def node_map_ok_def)
qed

lemma UpdateSlotsInfo_same:
  assumes "cluster_inv (fst s)"
  shows "same_routes (fst s) (fst (UpdateSlotsInfoByRandomNode w p s))"
proof -
  obtain q s1 where 1: "other_node w p s = (q, s1)" by (metis surj_pair)
  show ?thesis
    using other_node_valid [OF assms 1] Inform_same [of q s1 w] 1 by (simp add: UpdateSlotsInfoByRandomNode_def)
qed

lemma handleMove_same:
  assumes "cluster_inv (fst s)" "p < length (heap (fst s))" "handleMove w p msg cmd args s = (r, s')"
  shows "same_routes (fst s) (fst s')"
proof -
  have i: "same_routes (fst s) (fst (Inform w (Some p) s))"
    using assms(2) by (intro Inform_same) simp
  then show ?thesis
    using assms(3) same_routes_trans [OF i node_call_same [OF node_do_identity]]
    by (auto simp: handleMove_def Let_def split: if_splits sum.splits)
qed

lemma handleAsk_same: "handleAsk w p msg cmd args s = (r, s') \<Longrightarrow> same_routes (fst s) (fst s')"
  by (auto simp: handleAsk_def Let_def dest: node_call_same [OF ask_node_identity] split: if_splits sum.splits)

lemma timeout_moved_same:
  assumes "q < length (heap (fst s))" "timeout_moved w p q msg cmd args s = (r, s')"
  shows "same_routes (fst s) (fst s')"
proof -
  have i: "same_routes (fst s) (fst (Inform w (Some q) s))"
    using assms(1) by (intro Inform_same) simp
  then show ?thesis
    using assms(2) same_routes_trans [OF i node_call_same [OF node_do_identity]]
    by (auto simp: timeout_moved_def Let_def split: if_splits sum.splits)
qed

lemma handleConnTimeout_same:
  assumes "cluster_inv (fst s)" "handleConnTimeout w p cmd args s = Ret (r, s')"
  shows "same_routes (fst s) (fst s')"
proof -
  obtain q s1 where 1: "other_node w p s = (Some q, s1)"
    using assms(2) by (auto simp: handleConnTimeout_def split: prod.splits option.splits)
  have q: "fst s1 = fst s" "q < length (heap (fst s))"
    using other_node_valid [OF assms(1) 1] by auto
  obtain reply err s2 where 2: "node_call q (node_do (w_net w) cmd args) s1 = ((reply, err), s2)"
    by (metis surj_pair)
  have s: "same_routes (fst s) (fst s2)"
    using node_call_same [OF node_do_identity 2] q(1) by simp
  then have q2: "q < length (heap (fst s2))"
    using q(2) same_routes_length [OF s] by simp
  have i: "same_routes (fst s) (fst (Inform w (Some q) s2))"
    using same_routes_trans [OF s Inform_same [of "Some q" s2 w]] q2 by simp
  show ?thesis
    using assms(2) 1 2 s i same_routes_trans [OF s timeout_moved_same [OF q2]]
    by (auto simp: handleConnTimeout_def split: option.splits reply.splits if_splits)
qed

lemma move_loop_same:
  fixes w :: "('e, 'r, 'w) world" and s s' :: "('e, 'r, 'w) cst"
  assumes "move_loop w p cmd args reply s = Some (r, s')" "cluster_inv (fst s)" "p < length (heap (fst s))"
  shows "same_routes (fst s) (fst s')"
proof -
  have "move_loop w p cmd args reply s = Some y \<Longrightarrow> cluster_inv (fst s) \<longrightarrow> p < length (heap (fst s)) \<longrightarrow>
      same_routes (fst s) (fst (snd y))" for y :: "result \<times> ('e, 'r, 'w) cst"
  proof (rule move_loop.raw_induct [where P = "\<lambda>w p cmd args reply s y. cluster_inv (fst s) \<longrightarrow>
      p < length (heap (fst s)) \<longrightarrow> same_routes (fst s) (fst (snd y))"], intro impI)
    fix rec :: "('e, 'r, 'w) world \<Rightarrow> nat \<Rightarrow> bytes \<Rightarrow> arg list \<Rightarrow> reply \<Rightarrow> ('e, 'r, 'w) cst \<Rightarrow> (result \<times> ('e, 'r, 'w) cst) option"
    fix w :: "('e, 'r, 'w) world" and p cmd args reply and s :: "('e, 'r, 'w) cst" and y
    assume IH: "\<And>w p cmd args reply s y. rec w p cmd args reply s = Some y \<Longrightarrow>
        cluster_inv (fst s) \<longrightarrow> p < length (heap (fst s)) \<longrightarrow> same_routes (fst s) (fst (snd y))"
      and body: "(case handleMove w p (reply_msg reply) cmd args s of ((reply, err), s) \<Rightarrow>
        if checkReply reply \<noteq> kRespMove then Some ((reply, err), s) else rec w p cmd args reply s) = Some y"
      and inv: "cluster_inv (fst s)" "p < length (heap (fst s))"
    obtain re err s1 where h: "handleMove w p (reply_msg reply) cmd args s = ((re, err), s1)" by (metis surj_pair)
    have 1: "same_routes (fst s) (fst s1)" by (rule handleMove_same [OF inv h])
    then have "cluster_inv (fst s1)" "p < length (heap (fst s1))"
      using cluster_inv_same_routes [OF inv(1) 1] same_routes_length [OF 1] inv by simp_all
    then show "same_routes (fst s) (fst (snd y))"
    proof (cases "checkReply re = kRespMove")
      case True
      then have "rec w p cmd args re s1 = Some y" using body h by simp
      then show ?thesis
        using IH [of w p cmd args re s1 y] \<open>cluster_inv (fst s1)\<close> \<open>p < length (heap (fst s1))\<close> same_routes_trans [OF 1] by blast
    next
      case False
      then have "y = ((re, err), s1)" using body h by simp
      then show ?thesis using 1 by simp
    qed
  qed
  then show ?thesis using assms by fastforce
qed

lemma finish_reply_same:
  assumes "cluster_inv (fst s)" "finish_reply w p cmd args reply s = Ret (r, s')"
  shows "same_routes (fst s) (fst s')"
proof (cases "checkReply reply")
  case kRespAsk
  then show ?thesis using assms(2) handleAsk_same [of w p _ cmd args s r s'] by (simp add: finish_reply_def)
next
  case kRespConnTimeout
  then show ?thesis using assms(2) handleConnTimeout_same [OF assms(1), of w p cmd args r s'] by (simp add: finish_reply_def)
next
  case kRespClusterDown
  then show ?thesis using assms(2) UpdateSlotsInfo_same [OF assms(1), of w p] by (auto simp: finish_reply_def)
qed (use assms(2) in \<open>auto simp: finish_reply_def\<close>)

lemma follow_same:
  assumes "cluster_inv (fst s)" "p < length (heap (fst s))" "follow w p cmd args reply s = Some (Ret (r, s'))"
  shows "same_routes (fst s) (fst s')"
proof (cases "checkReply reply = kRespMove")
  case False
  then show ?thesis using finish_reply_same [OF assms(1)] assms(3) by (simp add: follow_def)
next
  case True
  then obtain r1 s1 where m: "move_loop w p cmd args reply s = Some (r1, s1)" "finish_reply w p cmd args (fst r1) s1 = Ret (r, s')"
    using assms(3) by (auto simp: follow_def split: option.splits)
  have 1: "same_routes (fst s) (fst s1)" by (rule move_loop_same [OF m(1) assms(1,2)])
  show ?thesis
    by (rule same_routes_trans [OF 1 finish_reply_same [OF cluster_inv_same_routes [OF assms(1) 1] m(2)]])
qed

end
