(* ===== verification/Cluster_Update.thy ===== *)
theory Cluster_Update
  imports Cluster_Core
begin

text \<open>
  Creating and closing a cluster and keeping its routing table up to date
  (\<open>utils/rediscluster/cluster.go\<close>: \<open>NewCluster\<close>, \<open>Close\<close>, \<open>Update\<close>, \<open>handleUpdate\<close>). \<open>Update\<close> is
  split as the code is by its comments: reading the reply of \<open>CLUSTER SLOTS\<close> into two maps from
  addresses to slot ranges, and installing them under the lock. Slot numbers are cut to 16 bits and
  index arrays of 16384 elements; an index out of range is a \<open>Panic\<close>. The endless loop of the update
  routine is one step per message.
\<close>

section \<open>Reading CLUSTER SLOTS\<close>

definition u16 :: "int \<Rightarrow> nat" where
  "u16 i = nat (i mod 2 ^ 16)"

text \<open>A node's entry: host and port, \<open>None\<close> for a malformed one.\<close>

definition node_addr :: "float_parser \<Rightarrow> reply \<Rightarrow> bytes option outcome" where
  "node_addr pf r = (case Values r None of
     (Some t, None) \<Rightarrow>
       if length t < 2 then Ret None
       else bind_outcome (Scan pf t [PString [], PInt 0]) (\<lambda>(_, ds, e). Ret (case e of
           Some _ \<Rightarrow> None
         | None \<Rightarrow> Some (dest_string (ds ! 0) @ '':'' @ FormatInt (dest_int (ds ! 1)))))
   | _ \<Rightarrow> Ret None)"

type_synonym ranges = "(bytes \<times> nat list) list"

definition add_range :: "bytes \<Rightarrow> nat \<Rightarrow> nat \<Rightarrow> ranges \<Rightarrow> ranges" where
  "add_range addr a b m =
     AList.update addr ((case map_of m addr of None \<Rightarrow> [] | Some l \<Rightarrow> l) @ [a, b]) m"

fun slave_entries :: "float_parser \<Rightarrow> nat \<Rightarrow> nat \<Rightarrow> reply list \<Rightarrow> ranges \<Rightarrow> ranges option outcome" where
  "slave_entries pf a b [] m = Ret (Some m)"
| "slave_entries pf a b (r # rs) m = bind_outcome (node_addr pf r) (\<lambda>addr. case addr of
     None \<Rightarrow> Ret None
   | Some addr \<Rightarrow> slave_entries pf a b rs (add_range addr a b m))"

definition slot_entry :: "float_parser \<Rightarrow> reply \<Rightarrow> int \<times> ranges \<times> ranges \<Rightarrow> (int \<times> ranges \<times> ranges) option outcome" where
  "slot_entry pf r acc = (case acc of (nslots, sl, sv) \<Rightarrow> (case Values r None of
     (Some m, None) \<Rightarrow>
       if length m < 3 then Ret None
       else (case reply_Int (m ! 0) None of
         (start, None) \<Rightarrow> (case reply_Int (m ! 1) None of
           (end1, None) \<Rightarrow> bind_outcome (node_addr pf (m ! 2)) (\<lambda>addr. case addr of
               None \<Rightarrow> Ret None
             | Some addr \<Rightarrow>
                 let n = int64 (nslots + int64 (int64 (end1 - start) + 1));
                     sl = add_range addr (u16 start) (u16 end1) sl
                 in bind_outcome (slave_entries pf (u16 start) (u16 end1) (drop 3 m) sv) (\<lambda>sv.
                      Ret (map_option (\<lambda>sv. (n, sl, sv)) sv)))
         | _ \<Rightarrow> Ret None)
       | _ \<Rightarrow> Ret None)
   | _ \<Rightarrow> Ret None))"

fun slot_table :: "float_parser \<Rightarrow> reply list \<Rightarrow> int \<times> ranges \<times> ranges \<Rightarrow> (int \<times> ranges \<times> ranges) option outcome" where
  "slot_table pf [] acc = Ret (Some acc)"
| "slot_table pf (r # rs) acc = bind_outcome (slot_entry pf r acc) (\<lambda>x. case x of
     None \<Rightarrow> Ret None | Some acc \<Rightarrow> slot_table pf rs acc)"

section \<open>Installing the table\<close>

text \<open>\<open>for j := start; j <= end; j++\<close> with an array access at \<open>j\<close>.\<close>

function range_loop :: "(nat \<Rightarrow> 'c \<Rightarrow> 'c) \<Rightarrow> nat \<Rightarrow> nat \<Rightarrow> 'c \<Rightarrow> 'c outcome" where
  "range_loop f j hi c =
     (if j > hi then Ret c
      else if j \<ge> kClusterSlots then Panic ''index out of range''
      else range_loop f (Suc j) hi (f j c))"
  by pat_completeness auto
termination by (relation "measure (\<lambda>(f, j, hi, c). Suc hi - j)") auto

declare range_loop.simps [simp del]

fun fill_ranges :: "(nat \<Rightarrow> 'c \<Rightarrow> 'c) \<Rightarrow> nat list \<Rightarrow> 'c \<Rightarrow> 'c outcome" where
  "fill_ranges f (a # b # rest) c = bind_outcome (range_loop f a b c) (fill_ranges f rest)"
| "fill_ranges f _ c = Ret c"

definition new_node :: "('r, 'w) cluster \<Rightarrow> bytes \<Rightarrow> node_type \<Rightarrow> ('r, 'w) redis_node" where
  "new_node cl addr ty = \<lparr>address = addr, conns = [], keepAlive = cl_keepAlive cl, aliveTime = cl_aliveTime cl,
     connTimeout = cl_connTimeout cl, readTimeout = cl_readTimeout cl, writeTimeout = cl_writeTimeout cl,
     updateTime = 0, closed = False, NodeType = ty\<rparr>"

text \<open>The node of an address in a map, or a new one.\<close>

definition find_node :: "(bytes \<times> node_ptr) list \<Rightarrow> bytes \<Rightarrow> node_type \<Rightarrow> ('r, 'w) cluster
    \<Rightarrow> node_ptr \<times> ('r, 'w) cluster" where
  "find_node m addr ty cl = (case map_of m addr of
     Some p \<Rightarrow> (p, cl)
   | None \<Rightarrow> (length (heap cl), cl\<lparr>heap := heap cl @ [new_node cl addr ty]\<rparr>))"

definition touch :: "int \<Rightarrow> node_ptr \<Rightarrow> ('r, 'w) cluster \<Rightarrow> ('r, 'w) cluster" where
  "touch t p cl = cl\<lparr>heap := (heap cl)[p := (heap cl ! p)\<lparr>updateTime := t\<rparr>]\<rparr>"

definition install_master :: "int \<Rightarrow> bytes \<times> nat list \<Rightarrow> ('r, 'w) cluster \<Rightarrow> ('r, 'w) cluster outcome" where
  "install_master t entry cl = (case entry of (addr, rgs) \<Rightarrow>
     case find_node (nodes cl) addr MASTER_NODE cl of (p, cl) \<Rightarrow>
     bind_outcome (fill_ranges (\<lambda>j sl. sl(j := Some p)) rgs (slots cl)) (\<lambda>sl.
       Ret (touch t p (cl\<lparr>slots := sl, nodes := AList.update addr p (nodes cl)\<rparr>))))"

definition install_slave :: "int \<Rightarrow> bytes \<times> nat list \<Rightarrow> ('r, 'w) cluster \<Rightarrow> ('r, 'w) cluster outcome" where
  "install_slave t entry cl = (case entry of (addr, rgs) \<Rightarrow>
     case find_node (slaveNodes cl) addr SLAVE_NODE cl of (p, cl) \<Rightarrow>
     bind_outcome (fill_ranges (\<lambda>j sl. sl(j := sl j @ [p])) rgs (slaveslots cl)) (\<lambda>sl.
       Ret (touch t p (cl\<lparr>slaveslots := sl, slaveNodes := AList.update addr p (slaveNodes cl)\<rparr>))))"

fun fold_outcome :: "('a \<Rightarrow> 'c \<Rightarrow> 'c outcome) \<Rightarrow> 'a list \<Rightarrow> 'c \<Rightarrow> 'c outcome" where
  "fold_outcome f [] c = Ret c"
| "fold_outcome f (x # xs) c = bind_outcome (f x c) (fold_outcome f xs)"

text \<open>Nodes the update did not touch are shut down and dropped from the map.\<close>

definition stale :: "int \<Rightarrow> ('r, 'w) cluster \<Rightarrow> node_ptr \<Rightarrow> bool" where
  "stale t cl p \<longleftrightarrow> updateTime (heap cl ! p) \<noteq> t"

fun shutdown_stale :: "('e, 'r, 'w) net \<Rightarrow> int \<Rightarrow> node_ptr list \<Rightarrow> ('e, 'r, 'w) cst \<Rightarrow> ('e, 'r, 'w) cst" where
  "shutdown_stale net t [] s = s"
| "shutdown_stale net t (p # ps) s = shutdown_stale net t ps
     (if stale t (fst s) p then snd (node_call p (\<lambda>n e. ((), node_shutdown net n e)) s) else s)"

definition prune :: "int \<Rightarrow> ('r, 'w) cluster \<Rightarrow> (bytes \<times> node_ptr) list \<Rightarrow> (bytes \<times> node_ptr) list" where
  "prune t cl m = filter (\<lambda>x. \<not> stale t cl (snd x)) m"

definition prune_masters :: "('e, 'r, 'w) world \<Rightarrow> int \<Rightarrow> ('e, 'r, 'w) cst \<Rightarrow> ('e, 'r, 'w) cst" where
  "prune_masters w t s =
     (let (ns, s) = env_call (map_range w (nodes (fst s))) s;
          s = shutdown_stale (w_net w) t (map snd ns) s
      in ((fst s)\<lparr>nodes := prune t (fst s) (nodes (fst s))\<rparr>, snd s))"

definition prune_slaves :: "('e, 'r, 'w) world \<Rightarrow> int \<Rightarrow> ('e, 'r, 'w) cst \<Rightarrow> ('e, 'r, 'w) cst" where
  "prune_slaves w t s =
     (let (ns, s) = env_call (map_range w (slaveNodes (fst s))) s;
          s = shutdown_stale (w_net w) t (map snd ns) s
      in ((fst s)\<lparr>slaveNodes := prune t (fst s) (slaveNodes (fst s))\<rparr>, snd s))"

definition install_table :: "('e, 'r, 'w) world \<Rightarrow> ranges \<Rightarrow> ranges \<Rightarrow> ('e, 'r, 'w) cst \<Rightarrow> ('e, 'r, 'w) cst outcome" where
  "install_table w sl sv s =
     (let (t, s) = env_call (net_now (w_net w)) s;
          (sl, s) = env_call (map_range w sl) s
      in bind_outcome (fold_outcome (install_master t) sl ((fst s)\<lparr>cl_updateTime := t\<rparr>)) (\<lambda>cl.
         let s = prune_masters w t (cl, snd s);
             (sv, s) = env_call (map_range w sv) s
         in bind_outcome (fold_outcome (install_slave t) sv ((fst s)\<lparr>slaveslots := \<lambda>_. []\<rparr>)) (\<lambda>cl.
              Ret (prune_slaves w t (cl, snd s)))))"

section \<open>Update\<close>

definition Update :: "('e, 'r, 'w) world \<Rightarrow> node_ptr option \<Rightarrow> ('e, 'r, 'w) cst
    \<Rightarrow> (go_error option \<times> ('e, 'r, 'w) cst) outcome" where
  "Update w node s = (case node of
     None \<Rightarrow> Ret (Some (Formatted ''Cluster Update error.''), s)
   | Some p \<Rightarrow> (case node_call p (node_do (w_net w) ''CLUSTER'' [AString ''SLOTS'']) s of ((reply, err), s) \<Rightarrow>
       (case Values reply err of
         (_, Some e) \<Rightarrow> Ret (Some e, s)
       | (info, None) \<Rightarrow>
           let addr = address (heap (fst s) ! p)
           in bind_outcome (slot_table (w_parse_float w) (case info of None \<Rightarrow> [] | Some l \<Rightarrow> l) (0, [], [])) (\<lambda>r.
              case r of
                None \<Rightarrow> Ret (Some (Formatted (''update: '' @ addr @ '' invalid response'')), s)
              | Some (nslots, sl, sv) \<Rightarrow>
                  if nslots \<noteq> int kClusterSlots
                  then Ret (Some (Formatted (''update: '' @ addr @ '' slots not full covered'')), s)
                  else bind_outcome (install_table w sl sv s) (\<lambda>s. Ret (None, s))))))"

text \<open>One message of the update routine; an error is only logged.\<close>

definition second :: int where "second = 1000000000"

definition handleUpdate :: "('e, 'r, 'w) world \<Rightarrow> ('e, 'r, 'w) cst \<Rightarrow> ('e, 'r, 'w) cst outcome" where
  "handleUpdate w s = (case updateList (fst s) of
     [] \<Rightarrow> Ret s
   | (node, movedTime) # rest \<Rightarrow>
       let s = ((fst s)\<lparr>updateList := rest\<rparr>, snd s)
       in if cl_updateTime (fst s) + second < movedTime
          then bind_outcome (Update w node s) (\<lambda>(_, s). Ret s)
          else Ret s)"

section \<open>Creation and closing\<close>

definition make_cluster :: "cluster_options \<Rightarrow> ('r, 'w) cluster" where
  "make_cluster opt = \<lparr>heap = [], slots = \<lambda>_. None, slaveslots = \<lambda>_. [], nodes = [], slaveNodes = [],
     cl_connTimeout = ConnTimeout opt, cl_readTimeout = ReadTimeout opt, cl_writeTimeout = WriteTimeout opt,
     cl_keepAlive = KeepAlive opt, cl_aliveTime = AliveTime opt, cl_updateTime = 0, updateList = [],
     cl_closed = False, isSlaveReadAble = SlaveOperateRate opt > 0,
     slaveOperateRate = (if SlaveOperateRate opt > 0 then SlaveOperateRate opt else 0),
     clusterUpdateHeartbeat = ClusterUpdateHeartbeat opt\<rparr>"

text \<open>The start nodes are tried in turn, each through a node object that is in no map.\<close>

fun try_start_nodes :: "('e, 'r, 'w) world \<Rightarrow> bytes list \<Rightarrow> ('e, 'r, 'w) cst \<Rightarrow> (bool \<times> ('e, 'r, 'w) cst) outcome" where
  "try_start_nodes w [] s = Ret (False, s)"
| "try_start_nodes w (a # as) s =
     (let cl = fst s; s = (cl\<lparr>heap := heap cl @ [new_node cl a UNKNOWN_NODE]\<rparr>, snd s)
      in bind_outcome (Update w (Some (length (heap cl))) s) (\<lambda>(err, s).
           if err \<noteq> None then try_start_nodes w as s else Ret (True, s)))"

text \<open>On success the code also starts the update routine, whose step is \<open>handleUpdate\<close>, and, with slave
  reads, the heartbeat routine, whose step is \<open>UpdateSlotsByRandomMasterNode\<close>.\<close>

fun spaced :: "bytes list \<Rightarrow> bytes" where
  "spaced (a # b # as) = a @ '' '' @ spaced (b # as)"
| "spaced as = concat as"

definition NewCluster :: "('e, 'r, 'w) world \<Rightarrow> cluster_options \<Rightarrow> 'e
    \<Rightarrow> ((go_error + ('r, 'w) cluster) \<times> 'e) outcome" where
  "NewCluster w opt e = bind_outcome (try_start_nodes w (StartNodes opt) (make_cluster opt, e)) (\<lambda>(ok, s).
     Ret (if ok then (Inr (fst s), snd s)
          else (Inl (Formatted (''NewCluster: no valid node in '' @ ''['' @ spaced (StartNodes opt) @ '']'')), snd s)))"

fun shutdown_all :: "('e, 'r, 'w) net \<Rightarrow> node_ptr list \<Rightarrow> ('e, 'r, 'w) cst \<Rightarrow> ('e, 'r, 'w) cst" where
  "shutdown_all net [] s = s"
| "shutdown_all net (p # ps) s = shutdown_all net ps (snd (node_call p (\<lambda>n e. ((), node_shutdown net n e)) s))"

definition Close :: "('e, 'r, 'w) world \<Rightarrow> ('e, 'r, 'w) cst \<Rightarrow> ('e, 'r, 'w) cst" where
  "Close w s =
     (let (ns, s) = env_call (map_range w (nodes (fst s))) s;
          s = shutdown_all (w_net w) (map snd ns) s
      in ((fst s)\<lparr>nodes := [], cl_closed := True\<rparr>, snd s))"

section \<open>What filling the slot arrays does\<close>

fun covers :: "nat list \<Rightarrow> nat \<Rightarrow> bool" where
  "covers (a # b # rest) j \<longleftrightarrow> a \<le> j \<and> j \<le> b \<or> covers rest j"
| "covers _ j \<longleftrightarrow> False"

fun in_bounds :: "nat list \<Rightarrow> bool" where
  "in_bounds (a # b # rest) \<longleftrightarrow> (a \<le> b \<longrightarrow> b < kClusterSlots) \<and> in_bounds rest"
| "in_bounds _ \<longleftrightarrow> True"

lemma range_loop_pointwise:
  "f = (\<lambda>j c. c(j := g (c j))) \<Longrightarrow> range_loop f a b c =
     (if a \<le> b \<and> kClusterSlots \<le> b then Panic ''index out of range''
      else Ret (\<lambda>j. if a \<le> j \<and> j \<le> b then g (c j) else c j))"
proof (induction f a b c rule: range_loop.induct)
  case (1 f j hi c)
  show ?case
  proof (cases "j > hi \<or> j \<ge> kClusterSlots")
    case True
    then show ?thesis by (auto simp: range_loop.simps [of _ j] fun_eq_iff)
  next
    case False
    then have "range_loop f j hi c = range_loop f (Suc j) hi (f j c)"
      by (simp add: range_loop.simps [of _ j])
    then show ?thesis
      using False 1 by (auto simp: fun_eq_iff)
  qed
qed

lemma fill_ranges_const:
  "fill_ranges (\<lambda>j c. c(j := x)) rgs c =
     (if in_bounds rgs then Ret (\<lambda>j. if covers rgs j then x else c j) else Panic ''index out of range'')"
proof (induction rgs arbitrary: c rule: induct_list012)
  case (3 a b rest)
  have "range_loop (\<lambda>j c. c(j := x)) a b c = (if a \<le> b \<and> kClusterSlots \<le> b then Panic ''index out of range''
      else Ret (\<lambda>j. if a \<le> j \<and> j \<le> b then x else c j))"
    by (rule range_loop_pointwise) (simp add: fun_eq_iff)
  then show ?case
    using 3(1) [of "\<lambda>j. if a \<le> j \<and> j \<le> b then x else c j"] by (auto simp: fun_eq_iff simp del: fun_upd_apply)
qed simp_all

lemma fill_ranges_append:
  "fill_ranges (\<lambda>j c. c(j := c j @ [x])) rgs c = Ret c' \<Longrightarrow>
     set (c' j) = set (c j) \<union> (if covers rgs j then {x} else {})"
proof (induction rgs arbitrary: c rule: induct_list012)
  case (3 a b rest)
  have "range_loop (\<lambda>j c. c(j := c j @ [x])) a b c = (if a \<le> b \<and> kClusterSlots \<le> b then Panic ''index out of range''
      else Ret (\<lambda>j. if a \<le> j \<and> j \<le> b then c j @ [x] else c j))"
    by (rule range_loop_pointwise) (simp add: fun_eq_iff)
  then have "fill_ranges (\<lambda>j c. c(j := c j @ [x])) rest (\<lambda>j. if a \<le> j \<and> j \<le> b then c j @ [x] else c j) = Ret c'"
    using 3(3) by (simp split: if_splits del: fun_upd_apply)
  from 3(1) [OF this] show ?case by auto
qed simp_all

section \<open>The invariant\<close>

lemma make_cluster_inv: "cluster_inv (make_cluster opt)"
  by (simp add: make_cluster_def cluster_inv_def maps_ok_def node_map_ok_def)

lemma map_of_update_alist: "map_of (AList.update a p m) = (map_of m)(a \<mapsto> p)"
  by (rule update_conv')

lemma node_map_ok_lookup_iff:
  "node_map_ok h m \<Longrightarrow> (a, p) \<in> set m \<longleftrightarrow> map_of m a = Some p"
  by (simp add: node_map_ok_def)

lemma node_map_ok_iff:
  "node_map_ok h m \<longleftrightarrow> distinct (map fst m) \<and> (\<forall>a p. map_of m a = Some p \<longrightarrow> p < length h \<and> address (h ! p) = a)"
  by (auto simp: node_map_ok_def)

lemma snd_set_lookup: "distinct (map fst m) \<Longrightarrow> snd ` set m = ran (map_of m)"
  by (simp add: ran_distinct)

text \<open>Finding or creating a node.\<close>

lemma find_node_spec:
  assumes "node_map_ok (heap cl) m" "find_node m addr ty cl = (p, cl')"
  shows "p < length (heap cl')" "address (heap cl' ! p) = addr" "\<exists>ns. heap cl' = heap cl @ ns" "routes cl' = routes cl"
    "updateList cl' = updateList cl" "map_of m addr = Some p \<or> map_of m addr = None \<and> p = length (heap cl) \<and> \<not> closed (heap cl' ! p)"
  using assms node_map_ok_lookup [OF assms(1), of addr]
  by (auto simp: find_node_def routes_def new_node_def split: option.splits)

text \<open>The pointers of a map before and after an entry is set.\<close>

lemma node_map_ok_update:
  assumes "node_map_ok h m" "p < length h'" "address (h' ! p) = a" "extends h h'"
  shows "node_map_ok h' (AList.update a p m)"
  using assms node_map_ok_extends [OF assms(1,4)]
  by (auto simp: node_map_ok_iff map_of_update_alist distinct_update split: if_splits)

lemma update_pointers:
  assumes "distinct (map fst m)" "map_of m a = Some p \<or> map_of m a = None"
  shows "snd ` set (AList.update a p m) = insert p (snd ` set m)"
proof -
  have "ran ((map_of m)(a \<mapsto> p)) = insert p (ran (map_of m))"
    using assms(2) by (auto simp: ran_def) (metis option.distinct(1) option.inject)+
  then show ?thesis
    using assms(1) by (simp add: snd_set_lookup distinct_update map_of_update_alist)
qed

text \<open>A node that was found or created is touched and entered into its map: this is what masters and
  slaves have in common.\<close>

lemma touched_heap:
  assumes "p < length h"
  shows "extends h (h[p := (h ! p)\<lparr>updateTime := t\<rparr>])"
    "closed (h[p := (h ! p)\<lparr>updateTime := t\<rparr>] ! q) = closed (h ! q)"
    "updateTime (h[p := (h ! p)\<lparr>updateTime := t\<rparr>] ! p) = t"
    "updateTime (h ! q) = t \<Longrightarrow> updateTime (h[p := (h ! p)\<lparr>updateTime := t\<rparr>] ! q) = t"
  using assms by (auto simp: extends_def nth_list_update)

lemma register_node:
  assumes "maps_ok (heap cl) m m'" "find_node m a ty cl = (p, c1)"
    "h' = (heap c1)[p := (heap c1 ! p)\<lparr>updateTime := t\<rparr>]"
  shows "maps_ok h' (AList.update a p m) m'" "extends (heap cl) h'" "p < length h'" "updateTime (h' ! p) = t"
    "\<forall>q < length (heap cl). updateTime (heap cl ! q) = t \<longrightarrow> updateTime (h' ! q) = t"
proof -
  have ok: "node_map_ok (heap cl) m" "node_map_ok (heap cl) m'"
    using assms(1) by (simp_all add: maps_ok_def)
  note F = find_node_spec [OF ok(1) assms(2)]
  obtain ns where ns: "heap c1 = heap cl @ ns" using F(3) by blast
  note T = touched_heap [OF F(1), where t = t, folded assms(3)]
  have e1: "extends (heap cl) (heap c1)" by (simp add: ns extends_append)
  show e: "extends (heap cl) h'" by (rule extends_trans [OF e1 T(1)])
  show p: "p < length h'" using F(1) assms(3) by simp
  show "updateTime (h' ! p) = t" by (rule T(3))
  show "\<forall>q < length (heap cl). updateTime (heap cl ! q) = t \<longrightarrow> updateTime (h' ! q) = t"
    using T(4) ns by (simp add: nth_append)
  have pc: "p \<in> snd ` set m \<or> p = length (heap cl) \<and> \<not> closed (heap c1 ! p)"
    using F(6) map_of_SomeD [of m a p] by (metis image_eqI snd_conv)
  have cl: "closed (h' ! q) = closed (heap cl ! q)" if "q < length (heap cl)" for q
    using T(2) ns that by (simp add: nth_append)
  have mm: "maps_ok h' m m'" by (rule maps_ok_extends [OF assms(1) e cl])
  moreover have "node_map_ok h' (AList.update a p m)"
    by (rule node_map_ok_update [OF ok(1) p _ e]) (use F(1,2) T(1) in \<open>simp add: extends_def\<close>)
  moreover have "snd ` set (AList.update a p m) = insert p (snd ` set m)"
    using update_pointers [of m a p] ok(1) F(6) by (auto simp: node_map_ok_def)
  moreover have "p \<notin> snd ` set m'"
    using pc
  proof
    assume "p \<in> snd ` set m"
    then show ?thesis using assms(1) unfolding maps_ok_def by (metis IntI empty_iff)
  next
    assume "p = length (heap cl) \<and> \<not> closed (heap c1 ! p)"
    then show ?thesis using maps_ok_valid [OF assms(1), of p] by (metis UnI2 less_irrefl)
  qed
  moreover have "\<not> closed (h' ! p)"
    using pc
  proof
    assume "p \<in> snd ` set m"
    then show ?thesis using mm by (auto simp: maps_ok_def)
  qed (auto simp: T(2))
  ultimately show "maps_ok h' (AList.update a p m) m'"
    by (auto simp: maps_ok_def)
qed

lemma touch_facts:
  "heap (touch t p cl) = (heap cl)[p := (heap cl ! p)\<lparr>updateTime := t\<rparr>]" "slots (touch t p cl) = slots cl"
  "slaveslots (touch t p cl) = slaveslots cl" "nodes (touch t p cl) = nodes cl" "slaveNodes (touch t p cl) = slaveNodes cl"
  "updateList (touch t p cl) = updateList cl" "cl_closed (touch t p cl) = cl_closed cl"
  by (simp_all add: touch_def)

lemma extends_length: "extends h h' \<Longrightarrow> p < length h \<Longrightarrow> p < length h'"
  by (simp add: extends_def)

text \<open>What every step of an installation keeps: the invariant, the identity of nodes, the entries of the
  maps, and the time of the nodes it has touched.\<close>

definition grows :: "int \<Rightarrow> ('r, 'w) cluster \<Rightarrow> ('r, 'w) cluster \<Rightarrow> bool" where
  "grows t cl cl' \<longleftrightarrow> cluster_inv cl' \<and> extends (heap cl) (heap cl') \<and> cl_closed cl' = cl_closed cl \<and>
     (\<forall>a p. map_of (nodes cl) a = Some p \<longrightarrow> map_of (nodes cl') a = Some p) \<and>
     (\<forall>a p. map_of (slaveNodes cl) a = Some p \<longrightarrow> map_of (slaveNodes cl') a = Some p) \<and>
     (\<forall>q < length (heap cl). updateTime (heap cl ! q) = t \<longrightarrow> updateTime (heap cl' ! q) = t)"

lemma grows_refl: "cluster_inv cl \<Longrightarrow> grows t cl cl"
  by (simp add: grows_def)

lemma grows_trans: "grows t a b \<Longrightarrow> grows t b c \<Longrightarrow> grows t a c"
  using extends_trans extends_length unfolding grows_def by metis

lemma grows_time:
  assumes "grows t cl cl'" "cluster_inv cl" "map_of (nodes cl) a = Some p" "updateTime (heap cl ! p) = t"
  shows "map_of (nodes cl') a = Some p \<and> updateTime (heap cl' ! p) = t"
proof -
  have "p < length (heap cl)"
    using assms(2,3) node_map_ok_lookup unfolding cluster_inv_def maps_ok_def by metis
  then show ?thesis using assms unfolding grows_def by blast
qed

lemma install_master_step:
  assumes "cluster_inv cl" "install_master t (a, rgs) cl = Ret cl'"
  obtains p where "in_bounds rgs" "map_of (nodes cl') a = Some p" "updateTime (heap cl' ! p) = t"
    "slots cl' = (\<lambda>j. if covers rgs j then Some p else slots cl j)" "grows t cl cl'"
proof -
  obtain p c1 where f: "find_node (nodes cl) a MASTER_NODE cl = (p, c1)" by (metis surj_pair)
  have maps: "maps_ok (heap cl) (nodes cl) (slaveNodes cl)" using assms(1) by (simp add: cluster_inv_def)
  then have F: "routes c1 = routes cl" "updateList c1 = updateList cl" "map_of (nodes cl) a = Some p \<or> map_of (nodes cl) a = None"
    using find_node_spec(4,5,6) [OF _ f] by (auto simp: maps_ok_def)
  have b: "in_bounds rgs" and cl': "cl' = touch t p (c1\<lparr>slots := (\<lambda>j. if covers rgs j then Some p else slots c1 j),
      nodes := AList.update a p (nodes c1)\<rparr>)"
    using assms(2) f fill_ranges_const [of "Some p" rgs "slots c1"]
    by (auto simp: install_master_def simp del: fun_upd_apply split: if_splits)
  have h: "heap cl' = (heap c1)[p := (heap c1 ! p)\<lparr>updateTime := t\<rparr>]"
    by (simp add: cl' touch_facts)
  note R = register_node [OF maps f h]
  have m: "nodes cl' = AList.update a p (nodes cl)" "slaveNodes cl' = slaveNodes cl" "slaveslots cl' = slaveslots cl"
    "updateList cl' = updateList cl" "cl_closed cl' = cl_closed cl"
    "slots cl' = (\<lambda>j. if covers rgs j then Some p else slots cl j)"
    using F by (simp_all add: cl' touch_facts routes_def cong: if_cong)
  have "cluster_inv cl'"
    using assms(1) R(1,3) m extends_length [OF R(2)] unfolding cluster_inv_def
    by (auto split: if_splits)
  then have "grows t cl cl'"
    using R(2,5) m F(3) by (auto simp: grows_def map_of_update_alist)
  then show ?thesis
    by (intro that [OF b, of p]) (use R m in \<open>simp_all add: map_of_update_alist\<close>)
qed

lemma install_slave_step:
  assumes "cluster_inv cl" "install_slave t (a, rgs) cl = Ret cl'"
  obtains p where "map_of (slaveNodes cl') a = Some p" "updateTime (heap cl' ! p) = t" "slots cl' = slots cl"
    "\<forall>j. set (slaveslots cl' j) = set (slaveslots cl j) \<union> (if covers rgs j then {p} else {})"
    "nodes cl' = nodes cl" "grows t cl cl'"
proof -
  obtain p c1 where f: "find_node (slaveNodes cl) a SLAVE_NODE cl = (p, c1)" by (metis surj_pair)
  have maps: "maps_ok (heap cl) (slaveNodes cl) (nodes cl)"
    using assms(1) maps_ok_sym by (auto simp: cluster_inv_def)
  then have F: "routes c1 = routes cl" "updateList c1 = updateList cl"
      "map_of (slaveNodes cl) a = Some p \<or> map_of (slaveNodes cl) a = None"
    using find_node_spec(4,5,6) [OF _ f] by (auto simp: maps_ok_def)
  obtain sl where sl: "fill_ranges (\<lambda>j sl. sl(j := sl j @ [p])) rgs (slaveslots c1) = Ret sl"
    and cl': "cl' = touch t p (c1\<lparr>slaveslots := sl, slaveNodes := AList.update a p (slaveNodes c1)\<rparr>)"
    using assms(2) f by (auto simp: install_slave_def bind_outcome_Ret_iff simp del: fun_upd_apply)
  have h: "heap cl' = (heap c1)[p := (heap c1 ! p)\<lparr>updateTime := t\<rparr>]"
    by (simp add: cl' touch_facts)
  note R = register_node [OF maps f h]
  have m: "slaveNodes cl' = AList.update a p (slaveNodes cl)" "nodes cl' = nodes cl" "slots cl' = slots cl"
    "updateList cl' = updateList cl" "cl_closed cl' = cl_closed cl" "slaveslots c1 = slaveslots cl"
    using F by (simp_all add: cl' touch_facts routes_def)
  have s: "\<forall>j. set (slaveslots cl' j) = set (slaveslots cl j) \<union> (if covers rgs j then {p} else {})"
    using fill_ranges_append [OF sl] m(6) by (simp add: cl' touch_facts)
  have "cluster_inv cl'"
    using assms(1) R(3) m s extends_length [OF R(2)] iffD1 [OF maps_ok_sym R(1)] unfolding cluster_inv_def
    by (auto split: if_splits)
  then have "grows t cl cl'"
    using R(2,5) m F(3) by (auto simp: grows_def map_of_update_alist)
  then show ?thesis
    by (intro that [of p]) (use R m s in \<open>simp_all add: map_of_update_alist\<close>)
qed

text \<open>Installing a whole map.\<close>

lemma masters_grow:
  "fold_outcome (install_master t) es cl = Ret cl' \<Longrightarrow> cluster_inv cl \<Longrightarrow> grows t cl cl'"
proof (induction es arbitrary: cl)
  case (Cons x es)
  obtain c1 where 1: "install_master t x cl = Ret c1" "fold_outcome (install_master t) es c1 = Ret cl'"
    using Cons.prems(1) by (auto simp: bind_outcome_Ret_iff)
  have "grows t cl c1"
    using 1(1) Cons.prems(2) by (cases x) (auto elim: install_master_step)
  moreover from this have "grows t c1 cl'" using Cons.IH 1(2) by (simp add: grows_def)
  ultimately show ?case by (rule grows_trans)
qed (simp add: grows_refl)

lemma slaves_grow:
  "fold_outcome (install_slave t) es cl = Ret cl' \<Longrightarrow> cluster_inv cl \<Longrightarrow>
     grows t cl cl' \<and> nodes cl' = nodes cl \<and> slots cl' = slots cl"
proof (induction es arbitrary: cl)
  case (Cons x es)
  obtain c1 where 1: "install_slave t x cl = Ret c1" "fold_outcome (install_slave t) es c1 = Ret cl'"
    using Cons.prems(1) by (auto simp: bind_outcome_Ret_iff)
  have g: "grows t cl c1 \<and> nodes c1 = nodes cl \<and> slots c1 = slots cl"
    using 1(1) Cons.prems(2) by (cases x) (auto elim: install_slave_step)
  then have "grows t c1 cl' \<and> nodes cl' = nodes c1 \<and> slots cl' = slots c1"
    using Cons.IH 1(2) by (simp add: grows_def)
  then show ?case using g grows_trans by metis
qed (simp add: grows_refl)

lemma masters_registered:
  "fold_outcome (install_master t) es cl = Ret cl' \<Longrightarrow> cluster_inv cl \<Longrightarrow> a \<in> fst ` set es \<Longrightarrow>
     \<exists>p. map_of (nodes cl') a = Some p \<and> updateTime (heap cl' ! p) = t"
proof (induction es arbitrary: cl)
  case (Cons x es)
  obtain b rgs where x: "x = (b, rgs)" by (metis surj_pair)
  obtain c1 where 1: "install_master t (b, rgs) cl = Ret c1" "fold_outcome (install_master t) es c1 = Ret cl'"
    using Cons.prems(1) by (auto simp: x bind_outcome_Ret_iff)
  obtain p where p: "map_of (nodes c1) b = Some p" "updateTime (heap c1 ! p) = t" "cluster_inv c1"
    using install_master_step [OF Cons.prems(2) 1(1)] by (metis grows_def)
  show ?case
  proof (cases "a \<in> fst ` set es")
    case False
    then have "a = b" using Cons.prems(3) x by simp
    then show ?thesis using grows_time [OF masters_grow [OF 1(2) p(3)] p(3) p(1,2)] by blast
  qed (use Cons.IH 1(2) p(3) in blast)
qed simp

lemma masters_in_bounds:
  "fold_outcome (install_master t) es cl = Ret cl' \<Longrightarrow> cluster_inv cl \<Longrightarrow> (a, rgs) \<in> set es \<Longrightarrow> in_bounds rgs"
proof (induction es arbitrary: cl)
  case (Cons x es)
  obtain c1 where 1: "install_master t x cl = Ret c1" "fold_outcome (install_master t) es c1 = Ret cl'"
    using Cons.prems(1) by (auto simp: bind_outcome_Ret_iff)
  obtain b rs where x: "x = (b, rs)" by (metis surj_pair)
  have "in_bounds rs \<and> cluster_inv c1"
    using install_master_step [OF Cons.prems(2)] 1(1) x by (metis grows_def)
  then show ?case using Cons.IH [OF 1(2)] Cons.prems(3) x by auto
qed simp

text \<open>A slot covered by the ranges of a single address is given to its node.\<close>

definition owned_by :: "ranges \<Rightarrow> nat \<Rightarrow> bytes \<Rightarrow> bool" where
  "owned_by sl j a \<longleftrightarrow> (\<exists>rgs. (a, rgs) \<in> set sl \<and> covers rgs j) \<and> (\<forall>(b, rgs) \<in> set sl. covers rgs j \<longrightarrow> b = a)"

lemma masters_uncovered:
  "fold_outcome (install_master t) es cl = Ret cl' \<Longrightarrow> cluster_inv cl \<Longrightarrow> \<forall>(b, rgs) \<in> set es. \<not> covers rgs j \<Longrightarrow>
     slots cl' j = slots cl j"
proof (induction es arbitrary: cl)
  case (Cons x es)
  obtain c1 where 1: "install_master t x cl = Ret c1" "fold_outcome (install_master t) es c1 = Ret cl'"
    using Cons.prems(1) by (auto simp: bind_outcome_Ret_iff)
  obtain b rs where x: "x = (b, rs)" by (metis surj_pair)
  obtain p where "slots c1 = (\<lambda>j. if covers rs j then Some p else slots cl j)" "cluster_inv c1"
    using install_master_step [OF Cons.prems(2) 1(1) [unfolded x]] by (metis grows_def)
  then show ?case using Cons.IH [OF 1(2)] Cons.prems(3) x by simp
qed simp

lemma masters_owned:
  "fold_outcome (install_master t) es cl = Ret cl' \<Longrightarrow> cluster_inv cl \<Longrightarrow> owned_by es j a \<Longrightarrow>
     slots cl' j = map_of (nodes cl') a"
proof (induction es arbitrary: cl)
  case (Cons x es)
  obtain c1 where 1: "install_master t x cl = Ret c1" "fold_outcome (install_master t) es c1 = Ret cl'"
    using Cons.prems(1) by (auto simp: bind_outcome_Ret_iff)
  obtain b rs where x: "x = (b, rs)" by (metis surj_pair)
  obtain p where p: "map_of (nodes c1) b = Some p" "updateTime (heap c1 ! p) = t" "cluster_inv c1"
    "slots c1 j = (if covers rs j then Some p else slots cl j)"
    using install_master_step [OF Cons.prems(2) 1(1) [unfolded x]] by (metis grows_def)
  show ?case
  proof (cases "\<forall>(b, rgs) \<in> set es. \<not> covers rgs j")
    case True
    then have "covers rs j" "b = a" using Cons.prems(3) x by (auto simp: owned_by_def)
    then show ?thesis
      using masters_uncovered [OF 1(2) p(3) True] grows_time [OF masters_grow [OF 1(2) p(3)] p(3) p(1,2)] p(4) by simp
  next
    case False
    then have "owned_by es j a" using Cons.prems(3) by (auto simp: owned_by_def)
    then show ?thesis using Cons.IH [OF 1(2) p(3)] by simp
  qed
qed (simp add: owned_by_def)

section \<open>Dropping stale nodes\<close>

text \<open>\<open>stops t ps h h'\<close>: the nodes keep their identity but that some of \<open>ps\<close> not touched at \<open>t\<close> are
  closed.\<close>

definition stops :: "int \<Rightarrow> node_ptr set \<Rightarrow> ('r, 'w) redis_node list \<Rightarrow> ('r, 'w) redis_node list \<Rightarrow> bool" where
  "stops t ps h h' \<longleftrightarrow> length h' = length h \<and> extends h h' \<and>
     (\<forall>p < length h. updateTime (h' ! p) = updateTime (h ! p) \<and>
        (closed (h' ! p) \<longrightarrow> closed (h ! p) \<or> p \<in> ps \<and> updateTime (h ! p) \<noteq> t))"

lemma stops_trans: "stops t ps h h' \<Longrightarrow> stops t ps h' h'' \<Longrightarrow> stops t ps h h''"
  using extends_trans [of h h' h''] by (auto simp: stops_def)

lemma nth_update: "q < length xs \<Longrightarrow> xs[p := x] ! q = (if p = q then x else xs ! q)"
  by simp

lemma shutdown_call:
  "fst (snd (node_call p (\<lambda>n e. ((), node_shutdown net n e)) s)) =
     (fst s)\<lparr>heap := (heap (fst s))[p := (heap (fst s) ! p)\<lparr>conns := [], closed := True\<rparr>]\<rparr>"
  by (simp add: node_call_def node_shutdown_def)

lemma shutdown_stale_stops:
  "set qs \<subseteq> ps \<Longrightarrow> stops t ps (heap (fst s)) (heap (fst (shutdown_stale net t qs s))) \<and>
     routes (fst (shutdown_stale net t qs s)) = routes (fst s) \<and>
     updateList (fst (shutdown_stale net t qs s)) = updateList (fst s)"
proof (induction qs arbitrary: s)
  case Nil
  then show ?case by (simp add: stops_def)
next
  case (Cons p qs)
  let ?s = "if stale t (fst s) p then snd (node_call p (\<lambda>n e. ((), node_shutdown net n e)) s) else s"
  have "stops t ps (heap (fst s)) (heap (fst ?s))"
    using Cons.prems by (auto simp: shutdown_call stops_def extends_def nth_update stale_def split: if_splits)
  moreover have "routes (fst ?s) = routes (fst s)" "updateList (fst ?s) = updateList (fst s)"
    by (auto simp: shutdown_call routes_def)
  ultimately show ?case
    using Cons.IH [of ?s] Cons.prems stops_trans by auto
qed

lemma maps_ok_prune:
  assumes "maps_ok (heap cl) m m'" "stops t (snd ` set m) (heap cl) h'" "heap cl' = h'"
  shows "maps_ok h' (prune t cl' m) m'"
proof -
  have sub: "set (prune t cl' m) \<subseteq> set m" by (auto simp: prune_def)
  have "\<not> closed (h' ! p)" if "p \<in> snd ` set (prune t cl' m) \<union> snd ` set m'" for p
  proof -
    have p: "p \<in> snd ` set m \<union> snd ` set m'" using that sub by auto
    then have l: "p < length (heap cl)" "\<not> closed (heap cl ! p)"
      using maps_ok_valid [OF assms(1)] assms(1) by (auto simp: maps_ok_def)
    have "p \<notin> snd ` set m \<or> updateTime (heap cl ! p) = t"
      using that assms(1,2,3) l(1) by (auto simp: prune_def stale_def stops_def maps_ok_def)
    then show ?thesis using assms(2) l by (auto simp: stops_def)
  qed
  moreover have "node_map_ok h' m" "node_map_ok h' m'"
    using assms(1,2) node_map_ok_extends by (auto simp: maps_ok_def stops_def)
  then have "node_map_ok h' (prune t cl' m)"
    using sub by (auto simp: node_map_ok_def prune_def distinct_map_filter)
  ultimately show ?thesis
    using \<open>node_map_ok h' m'\<close> assms(1) sub by (auto simp: maps_ok_def)
qed

lemma prune_lookup:
  "map_of m a = Some p \<Longrightarrow> distinct (map fst m) \<Longrightarrow> updateTime (heap cl ! p) = t \<Longrightarrow> map_of (prune t cl m) a = Some p"
  by (induction m) (auto simp: prune_def stale_def dest: map_of_SomeD split: if_splits)

lemma prune_masters_spec:
  fixes w :: "('e, 'r, 'w) world" and s :: "('e, 'r, 'w) cst" and t :: int
  assumes "cluster_inv (fst s)"
  defines "cl \<equiv> fst s" and "cl' \<equiv> fst (prune_masters w t s)"
  shows "cluster_inv cl'" "slots cl' = slots cl" "cl_closed cl' = cl_closed cl"
    "map_of (nodes cl) a = Some p \<Longrightarrow> updateTime (heap cl ! p) = t \<Longrightarrow>
       map_of (nodes cl') a = Some p \<and> updateTime (heap cl' ! p) = t"
proof -
  obtain ns s1 where 1: "env_call (map_range w (nodes cl)) s = (ns, s1)" by (metis surj_pair)
  have f: "fst s1 = cl" using env_call_same [OF 1] by (simp add: cl_def)
  have "set ns \<subseteq> set (nodes cl)"
    using 1 map_range_sub by (fastforce simp: env_call_def split: prod.splits)
  then have sub: "set (map snd ns) \<subseteq> snd ` set (nodes cl)" by auto
  define s2 where "s2 = shutdown_stale (w_net w) t (map snd ns) s1"
  note S = shutdown_stale_stops [OF sub, of t s1 "w_net w", folded s2_def, unfolded f]
  have cl': "cl' = (fst s2)\<lparr>nodes := prune t (fst s2) (nodes (fst s2))\<rparr>"
    using 1 by (simp add: cl'_def prune_masters_def s2_def cl_def Let_def)
  have r: "nodes (fst s2) = nodes cl" "slaveNodes cl' = slaveNodes cl" "slots cl' = slots cl"
    "slaveslots cl' = slaveslots cl" "cl_closed cl' = cl_closed cl" "updateList cl' = updateList cl" "heap cl' = heap (fst s2)"
    using S by (simp_all add: cl' routes_def)
  show "slots cl' = slots cl" "cl_closed cl' = cl_closed cl" using r by simp_all
  have maps: "maps_ok (heap cl) (nodes cl) (slaveNodes cl)" using assms(1) by (simp add: cluster_inv_def cl_def)
  have "maps_ok (heap cl') (nodes cl') (slaveNodes cl')"
    using maps_ok_prune [OF maps conjunct1 [OF S] refl] r cl' by simp
  then show "cluster_inv cl'"
    using assms(1) r S by (simp add: cluster_inv_def cl_def stops_def)
  assume a: "map_of (nodes cl) a = Some p" "updateTime (heap cl ! p) = t"
  then have "p < length (heap cl)" using maps node_map_ok_lookup unfolding maps_ok_def by metis
  then have u: "updateTime (heap cl' ! p) = t" using S a(2) r(7) by (simp add: stops_def)
  then show "map_of (nodes cl') a = Some p \<and> updateTime (heap cl' ! p) = t"
    using prune_lookup [OF a(1), of "fst s2" t] maps r cl' by (simp add: maps_ok_def node_map_ok_def)
qed

lemma prune_slaves_spec:
  fixes w :: "('e, 'r, 'w) world" and s :: "('e, 'r, 'w) cst" and t :: int
  assumes "cluster_inv (fst s)"
  defines "cl \<equiv> fst s" and "cl' \<equiv> fst (prune_slaves w t s)"
  shows "cluster_inv cl'" "slots cl' = slots cl" "cl_closed cl' = cl_closed cl" "nodes cl' = nodes cl"
proof -
  obtain ns s1 where 1: "env_call (map_range w (slaveNodes cl)) s = (ns, s1)" by (metis surj_pair)
  have f: "fst s1 = cl" using env_call_same [OF 1] by (simp add: cl_def)
  have "set ns \<subseteq> set (slaveNodes cl)"
    using 1 map_range_sub by (fastforce simp: env_call_def split: prod.splits)
  then have sub: "set (map snd ns) \<subseteq> snd ` set (slaveNodes cl)" by auto
  define s2 where "s2 = shutdown_stale (w_net w) t (map snd ns) s1"
  note S = shutdown_stale_stops [OF sub, of t s1 "w_net w", folded s2_def, unfolded f]
  have cl': "cl' = (fst s2)\<lparr>slaveNodes := prune t (fst s2) (slaveNodes (fst s2))\<rparr>"
    using 1 by (simp add: cl'_def prune_slaves_def s2_def cl_def Let_def)
  have r: "slaveNodes (fst s2) = slaveNodes cl" "nodes cl' = nodes cl" "slots cl' = slots cl"
    "slaveslots cl' = slaveslots cl" "cl_closed cl' = cl_closed cl" "updateList cl' = updateList cl" "heap cl' = heap (fst s2)"
    using S by (simp_all add: cl' routes_def)
  show "slots cl' = slots cl" "cl_closed cl' = cl_closed cl" "nodes cl' = nodes cl" using r by simp_all
  have maps: "maps_ok (heap cl) (slaveNodes cl) (nodes cl)"
    using assms(1) maps_ok_sym by (auto simp: cluster_inv_def cl_def)
  have "maps_ok (heap cl') (slaveNodes cl') (nodes cl')"
    using maps_ok_prune [OF maps conjunct1 [OF S] refl] r cl' by simp
  then show "cluster_inv cl'"
    using assms(1) r S maps_ok_sym by (auto simp: cluster_inv_def cl_def stops_def)
qed

section \<open>The installed table\<close>

text \<open>A loop over a map visits every entry.\<close>

definition iter_law :: "('e, 'r, 'w) world \<Rightarrow> bool" where
  "iter_law w \<longleftrightarrow> (\<forall>ks e. set (fst (w_iter w ks e)) = set ks)"

lemma map_range_set:
  assumes "iter_law w" "distinct (map fst m)" "map_range w m e = (m', e')"
  shows "set m' = set m"
proof -
  obtain ks e1 where k: "w_iter w (map fst m) e = (ks, e1)" by (metis surj_pair)
  then have ks: "set ks = fst ` set m" using assms(1) unfolding iter_law_def by (metis fst_conv set_map)
  have "x \<in> set m' \<longleftrightarrow> fst x \<in> set ks \<and> map_of m (fst x) = Some (snd x)" for x
    using assms(3) k by (cases x) (auto simp: map_range_def split: option.splits)
  then show ?thesis
    using ks assms(2) by (auto simp: image_iff)
qed

lemma owned_by_set: "set m' = set m \<Longrightarrow> owned_by m' j a = owned_by m j a"
  by (simp add: owned_by_def)

lemma install_table_spec:
  assumes "iter_law w" "distinct (map fst sl)" "cluster_inv (fst s)" "install_table w sl sv s = Ret s'"
  shows "cluster_inv (fst s')" "cl_closed (fst s') = cl_closed (fst s)" "\<forall>(a, rgs) \<in> set sl. in_bounds rgs"
    "owned_by sl j a \<Longrightarrow> \<exists>p. slots (fst s') j = Some p \<and> map_of (nodes (fst s')) a = Some p"
    "\<forall>(a, rgs) \<in> set sl. \<not> covers rgs j \<Longrightarrow> slots (fst s') j = slots (fst s) j"
proof -
  obtain t s1 where 1: "env_call (net_now (w_net w)) s = (t, s1)" by (metis surj_pair)
  obtain es s2 where 2: "env_call (map_range w sl) s1 = (es, s2)" by (metis surj_pair)
  have f: "fst s1 = fst s" "fst s2 = fst s" using env_call_same [OF 1] env_call_same [OF 2] by simp_all
  have es: "set es = set sl"
    using 2 map_range_set [OF assms(1,2)] by (auto simp: env_call_def split: prod.splits)
  define c0 where "c0 = (fst s)\<lparr>cl_updateTime := t\<rparr>"
  have i0: "cluster_inv c0" using assms(3) by (simp add: c0_def cluster_inv_def)
  obtain c1 where 3: "fold_outcome (install_master t) es c0 = Ret c1"
    using assms(4) 1 2 f by (auto simp: install_table_def Let_def c0_def bind_outcome_Ret_iff)
  have g1: "grows t c0 c1" by (rule masters_grow [OF 3 i0])
  then have i1: "cluster_inv c1" by (simp add: grows_def)
  define s3 where "s3 = prune_masters w t (c1, snd s2)"
  have P: "cluster_inv (fst s3)" "slots (fst s3) = slots c1" "cl_closed (fst s3) = cl_closed c1"
    "\<And>a p. map_of (nodes c1) a = Some p \<Longrightarrow> updateTime (heap c1 ! p) = t \<Longrightarrow> map_of (nodes (fst s3)) a = Some p"
    using prune_masters_spec [where s = "(c1, snd s2)" and w = w and t = t] i1 by (simp_all add: s3_def)
  obtain vs s4 where 4: "env_call (map_range w sv) s3 = (vs, s4)" by (metis surj_pair)
  have f4: "fst s4 = fst s3" by (rule env_call_same [OF 4])
  define c2 where "c2 = (fst s3)\<lparr>slaveslots := \<lambda>_. []\<rparr>"
  have i2: "cluster_inv c2" using P(1) by (simp add: c2_def cluster_inv_def)
  obtain c3 where 5: "fold_outcome (install_slave t) vs c2 = Ret c3" "s' = prune_slaves w t (c3, snd s4)"
    using assms(4) 1 2 3 4 f f4
    by (auto simp: install_table_def Let_def c0_def c2_def s3_def bind_outcome_Ret_iff)
  have g3: "grows t c2 c3" "nodes c3 = nodes c2" "slots c3 = slots c2"
    using slaves_grow [OF 5(1) i2] by simp_all
  have Q: "cluster_inv (fst s')" "slots (fst s') = slots c3" "cl_closed (fst s') = cl_closed c3" "nodes (fst s') = nodes c3"
    using prune_slaves_spec [where s = "(c3, snd s4)" and w = w and t = t] g3(1) 5(2) by (simp_all add: grows_def)
  have e: "slots (fst s') = slots c1" "nodes (fst s') = nodes (fst s3)"
    using Q g3 P by (simp_all add: c2_def)
  show "cluster_inv (fst s')" by (rule Q)
  show "cl_closed (fst s') = cl_closed (fst s)"
    using Q(3) g3(1) g1 P(3) by (simp add: grows_def c2_def c0_def)
  show "\<forall>(a, rgs) \<in> set sl. in_bounds rgs"
    using masters_in_bounds [OF 3 i0] es by auto
  show "\<exists>p. slots (fst s') j = Some p \<and> map_of (nodes (fst s')) a = Some p" if "owned_by sl j a"
  proof -
    have o: "owned_by es j a" using that owned_by_set [OF es] by simp
    then have "a \<in> fst ` set es" by (force simp: owned_by_def)
    then obtain p where "map_of (nodes c1) a = Some p" "updateTime (heap c1 ! p) = t"
      using masters_registered [OF 3 i0] by blast
    then show ?thesis using masters_owned [OF 3 i0 o] P(4) e by simp
  qed
  show "slots (fst s') j = slots (fst s) j" if "\<forall>(a, rgs) \<in> set sl. \<not> covers rgs j"
    using masters_uncovered [OF 3 i0, of j] that es e by (simp add: c0_def)
qed

text \<open>Installing succeeds when every range is in bounds.\<close>

lemma fill_ranges_append_ok:
  "in_bounds rgs \<Longrightarrow> \<exists>c'. fill_ranges (\<lambda>j c. c(j := c j @ [x])) rgs c = Ret c'"
proof (induction rgs arbitrary: c rule: induct_list012)
  case (3 a b rest)
  have "range_loop (\<lambda>j c. c(j := c j @ [x])) a b c = (if a \<le> b \<and> kClusterSlots \<le> b then Panic ''index out of range''
      else Ret (\<lambda>j. if a \<le> j \<and> j \<le> b then c j @ [x] else c j))"
    by (rule range_loop_pointwise) (simp add: fun_eq_iff)
  then show ?case
    using 3(1,3) by (auto simp del: fun_upd_apply)
qed simp_all

lemma install_ok:
  "in_bounds rgs \<Longrightarrow> \<exists>c. install_master t (a, rgs) cl = Ret c" "in_bounds rgs \<Longrightarrow> \<exists>c. install_slave t (a, rgs) cl = Ret c"
proof -
  assume "in_bounds rgs"
  then show "\<exists>c. install_master t (a, rgs) cl = Ret c"
    by (auto simp: install_master_def fill_ranges_const simp del: fun_upd_apply split: prod.splits)
  from \<open>in_bounds rgs\<close> show "\<exists>c. install_slave t (a, rgs) cl = Ret c"
    using fill_ranges_append_ok [of rgs] by (fastforce simp: install_slave_def bind_outcome_Ret_iff split: prod.splits)
qed

lemma fold_outcome_ok:
  "(\<And>x c. x \<in> set xs \<Longrightarrow> \<exists>c'. f x c = Ret c') \<Longrightarrow> \<exists>c'. fold_outcome f xs c = Ret c'"
proof (induction xs arbitrary: c)
  case (Cons x xs)
  obtain c1 where "f x c = Ret c1" using Cons.prems by (meson list.set_intros(1))
  then show ?case using Cons by simp
qed simp

lemma install_table_ok:
  assumes "\<forall>(a, rgs) \<in> set sl \<union> set sv. in_bounds rgs"
  shows "\<exists>s'. install_table w sl sv s = Ret s'"
proof -
  obtain t s1 where 1: "env_call (net_now (w_net w)) s = (t, s1)" by (metis surj_pair)
  obtain es s2 where 2: "env_call (map_range w sl) s1 = (es, s2)" by (metis surj_pair)
  have es: "set es \<subseteq> set sl"
    using 2 map_range_sub by (fastforce simp: env_call_def split: prod.splits)
  obtain c1 where 3: "fold_outcome (install_master t) es ((fst s2)\<lparr>cl_updateTime := t\<rparr>) = Ret c1"
    using fold_outcome_ok [of es "install_master t"] install_ok(1) assms es by fastforce
  obtain vs s4 where 4: "env_call (map_range w sv) (prune_masters w t (c1, snd s2)) = (vs, s4)" by (metis surj_pair)
  have "set vs \<subseteq> set sv"
    using 4 map_range_sub by (fastforce simp: env_call_def split: prod.splits)
  then obtain c2 where "fold_outcome (install_slave t) vs ((fst s4)\<lparr>slaveslots := \<lambda>_. []\<rparr>) = Ret c2"
    using fold_outcome_ok [of vs "install_slave t"] install_ok(2) assms by fastforce
  then show ?thesis using 1 2 3 4 by (simp add: install_table_def Let_def)
qed

section \<open>The reply of a server\<close>

text \<open>One line of \<open>CLUSTER SLOTS\<close>: a range, the master and the slaves, each with host, port and id.\<close>

record server_node =
  host :: bytes
  port :: int
  ident :: bytes

record slot_line =
  lo :: nat
  hi :: nat
  master :: server_node
  slaves :: "server_node list"

definition node_reply :: "server_node \<Rightarrow> reply" where
  "node_reply n = RArray [RBulk (host n), RInt (port n), RBulk (ident n)]"

definition line_reply :: "slot_line \<Rightarrow> reply" where
  "line_reply l = RArray (RInt (int (lo l)) # RInt (int (hi l)) # node_reply (master l) # map node_reply (slaves l))"

definition server_addr :: "server_node \<Rightarrow> bytes" where
  "server_addr n = host n @ '':'' @ FormatInt (port n)"

text \<open>A table a healthy cluster sends: ranges of slots that overlap nowhere and are 16384 in all.\<close>

definition valid_slots :: "slot_line list \<Rightarrow> bool" where
  "valid_slots ls \<longleftrightarrow> (\<forall>l \<in> set ls. lo l \<le> hi l \<and> hi l < kClusterSlots \<and> (\<forall>n \<in> set (master l # slaves l). in_int64 (port n))) \<and>
     sorted_wrt (\<lambda>l m. {lo l..hi l} \<inter> {lo m..hi m} = {}) ls \<and> (\<Sum>l\<leftarrow>ls. hi l - lo l + 1) = kClusterSlots"

lemma node_addr_reply: "in_int64 (port n) \<Longrightarrow> node_addr pf (node_reply n) = Ret (Some (server_addr n))"
  by (simp add: node_addr_def node_reply_def server_addr_def Values_def Scan_def convertAssign_def dest_string_def
      dest_int_def Let_def)

lemma covers_append: "even (length xs) \<Longrightarrow> covers (xs @ ys) j \<longleftrightarrow> covers xs j \<or> covers ys j"
  by (induction xs rule: induct_list012) auto

lemma in_bounds_covers: "in_bounds rgs \<longleftrightarrow> (\<forall>j. covers rgs j \<longrightarrow> j < kClusterSlots)"
proof (induction rgs rule: induct_list012)
  case (3 a b rest)
  have "(a \<le> b \<longrightarrow> b < kClusterSlots) \<longleftrightarrow> (\<forall>j. a \<le> j \<and> j \<le> b \<longrightarrow> j < kClusterSlots)" by force
  then show ?case using 3(1) by auto
qed simp_all

text \<open>A map of ranges: distinct addresses, complete pairs.\<close>

definition ranges_ok :: "ranges \<Rightarrow> bool" where
  "ranges_ok m \<longleftrightarrow> distinct (map fst m) \<and> (\<forall>(a, rgs) \<in> set m. even (length rgs))"

definition covered :: "ranges \<Rightarrow> bytes \<Rightarrow> nat \<Rightarrow> bool" where
  "covered m a j \<longleftrightarrow> (\<exists>rgs. (a, rgs) \<in> set m \<and> covers rgs j)"

lemma add_range_ok:
  assumes "ranges_ok m"
  shows "ranges_ok (add_range a x y m)"
    "covered (add_range a x y m) b j \<longleftrightarrow> covered m b j \<or> b = a \<and> x \<le> j \<and> j \<le> y"
proof -
  let ?r = "(case map_of m a of None \<Rightarrow> [] | Some l \<Rightarrow> l) @ [x, y]"
  have d: "distinct (map fst m)" "distinct (map fst (add_range a x y m))"
    using assms(1) by (simp_all add: ranges_ok_def add_range_def distinct_update)
  have old: "even (length (case map_of m a of None \<Rightarrow> [] | Some l \<Rightarrow> l))"
    using assms(1) by (auto simp: ranges_ok_def split: option.splits dest!: map_of_SomeD)
  have mem: "(b, rgs) \<in> set (add_range a x y m) \<longleftrightarrow> (if b = a then rgs = ?r else (b, rgs) \<in> set m)" for b rgs
  proof -
    have "(b, rgs) \<in> set (add_range a x y m) \<longleftrightarrow> ((map_of m)(a \<mapsto> ?r)) b = Some rgs"
      using map_of_eq_Some_iff [OF d(2), of b rgs] by (simp add: add_range_def map_of_update_alist)
    then show ?thesis using map_of_eq_Some_iff [OF d(1), of b rgs] by auto
  qed
  show "ranges_ok (add_range a x y m)"
    using assms old d(2) mem unfolding ranges_ok_def
    by (auto split: if_splits)
  have "covered m a j \<longleftrightarrow> covers (case map_of m a of None \<Rightarrow> [] | Some l \<Rightarrow> l) j"
    unfolding covered_def map_of_eq_Some_iff [OF d(1), symmetric] by (auto split: option.splits)
  then show "covered (add_range a x y m) b j \<longleftrightarrow> covered m b j \<or> b = a \<and> x \<le> j \<and> j \<le> y"
    using mem covers_append [OF old, of "[x, y]" j] by (auto simp: covered_def)
qed

text \<open>The slots the nodes of a line are announced for.\<close>

definition announces :: "server_node \<Rightarrow> slot_line \<Rightarrow> bytes \<Rightarrow> nat \<Rightarrow> bool" where
  "announces n l a j \<longleftrightarrow> server_addr n = a \<and> lo l \<le> j \<and> j \<le> hi l"

lemma slave_entries_reply:
  "\<forall>n \<in> set ns. in_int64 (port n) \<Longrightarrow> ranges_ok sv \<Longrightarrow>
     \<exists>sv'. slave_entries pf (lo l) (hi l) (map node_reply ns) sv = Ret (Some sv') \<and> ranges_ok sv' \<and>
       (\<forall>a j. covered sv' a j \<longleftrightarrow> covered sv a j \<or> (\<exists>n \<in> set ns. announces n l a j))"
proof (induction ns arbitrary: sv)
  case (Cons n ns)
  note A = add_range_ok [OF Cons.prems(2), of "server_addr n" "lo l" "hi l"]
  show ?case
    using Cons.IH [OF _ A(1)] A(2) Cons.prems(1) by (auto simp: node_addr_reply announces_def)
qed simp

text \<open>Reading a table: its size, and which address is announced for which slot. Slot numbers fit 16
  bits.\<close>

definition width :: "slot_line \<Rightarrow> nat" where
  "width l = hi l - lo l + 1"

definition line_ok :: "slot_line \<Rightarrow> bool" where
  "line_ok l \<longleftrightarrow> lo l \<le> hi l \<and> hi l < 2 ^ 16 \<and> (\<forall>n \<in> set (master l # slaves l). in_int64 (port n))"

lemma slot_entry_reply:
  assumes "line_ok l" "ranges_ok sl" "ranges_ok sv" "n + width l \<le> 2 ^ 62"
  shows "\<exists>sv'. slot_entry pf (line_reply l) (int n, sl, sv)
      = Ret (Some (int (n + width l), add_range (server_addr (master l)) (lo l) (hi l) sl, sv')) \<and> ranges_ok sv' \<and>
      (\<forall>a j. covered sv' a j \<longleftrightarrow> covered sv a j \<or> (\<exists>n \<in> set (slaves l). announces n l a j))"
proof -
  have b: "lo l < 65536" "hi l < 65536" "lo l \<le> hi l"
    using assms(1) by (auto simp: line_ok_def)
  then have u: "u16 (int (lo l)) = lo l" "u16 (int (hi l)) = hi l"
    by (simp_all add: u16_def nat_mod_as_int [symmetric])
  have i: "reply_Int (RInt (int (lo l))) None = (int (lo l), None)" "reply_Int (RInt (int (hi l))) None = (int (hi l), None)"
    using b by (auto simp: reply_Int_def Let_def in_int64_def)
  have n: "int64 (int n + int64 (int64 (int (hi l) - int (lo l)) + 1)) = int (n + width l)"
    using b assms(4) by (simp add: in_int64_def width_def)
  obtain sv' where sv': "slave_entries pf (lo l) (hi l) (map node_reply (slaves l)) sv = Ret (Some sv')" "ranges_ok sv'"
    "\<forall>a j. covered sv' a j \<longleftrightarrow> covered sv a j \<or> (\<exists>n \<in> set (slaves l). announces n l a j)"
    using slave_entries_reply [of "slaves l" sv pf l] assms(1,3) by (auto simp: line_ok_def)
  have "node_addr pf (node_reply (master l)) = Ret (Some (server_addr (master l)))"
    using assms(1) by (intro node_addr_reply) (simp add: line_ok_def)
  then show ?thesis
    using i n sv' u by (simp add: slot_entry_def line_reply_def Values_def Let_def)
qed

lemma slot_table_reply:
  assumes "\<forall>l \<in> set ls. line_ok l" "ranges_ok sl" "ranges_ok sv" "n + (\<Sum>l\<leftarrow>ls. width l) \<le> 2 ^ 62"
  shows "\<exists>sl' sv'. slot_table pf (map line_reply ls) (int n, sl, sv) = Ret (Some (int (n + (\<Sum>l\<leftarrow>ls. width l)), sl', sv')) \<and>
    ranges_ok sl' \<and> ranges_ok sv' \<and>
    (\<forall>a j. covered sl' a j \<longleftrightarrow> covered sl a j \<or> (\<exists>l \<in> set ls. announces (master l) l a j)) \<and>
    (\<forall>a j. covered sv' a j \<longleftrightarrow> covered sv a j \<or> (\<exists>l \<in> set ls. \<exists>n \<in> set (slaves l). announces n l a j))"
  using assms
proof (induction ls arbitrary: n sl sv)
  case (Cons l ls)
  let ?sl = "add_range (server_addr (master l)) (lo l) (hi l) sl"
  obtain sv1 where 1: "slot_entry pf (line_reply l) (int n, sl, sv) = Ret (Some (int (n + width l), ?sl, sv1))" "ranges_ok sv1"
    "\<forall>a j. covered sv1 a j \<longleftrightarrow> covered sv a j \<or> (\<exists>n \<in> set (slaves l). announces n l a j)"
    using slot_entry_reply [of l sl sv n pf] Cons.prems by auto
  note A = add_range_ok [OF Cons.prems(2), of "server_addr (master l)" "lo l" "hi l"]
  obtain sl' sv' where 2: "slot_table pf (map line_reply ls) (int (n + width l), ?sl, sv1)
      = Ret (Some (int (n + width l + (\<Sum>l\<leftarrow>ls. width l)), sl', sv'))" "ranges_ok sl'" "ranges_ok sv'"
    "\<forall>a j. covered sl' a j \<longleftrightarrow> covered ?sl a j \<or> (\<exists>l \<in> set ls. announces (master l) l a j)"
    "\<forall>a j. covered sv' a j \<longleftrightarrow> covered sv1 a j \<or> (\<exists>l \<in> set ls. \<exists>n \<in> set (slaves l). announces n l a j)"
    using Cons.IH [of ?sl sv1 "n + width l"] A(1) 1(2) Cons.prems(1,4) by (auto simp: add.assoc)
  show ?case
    using 1(1,3) 2 A(2) by (intro exI [of _ sl'] exI [of _ sv']) (auto simp: add.assoc announces_def)
qed simp

text \<open>Ranges that overlap nowhere and are as many as there are slots leave none out.\<close>

lemma disjoint_ranges_card:
  "sorted_wrt (\<lambda>l m. {lo l..hi l} \<inter> {lo m..hi m} = {}) ls \<Longrightarrow> \<forall>l \<in> set ls. lo l \<le> hi l \<Longrightarrow>
     card (\<Union>l \<in> set ls. {lo l..hi l}) = (\<Sum>l\<leftarrow>ls. width l)"
proof (induction ls)
  case (Cons l ls)
  have "{lo l..hi l} \<inter> (\<Union>m \<in> set ls. {lo m..hi m}) = {}" using Cons.prems(1) by auto
  then have "card ({lo l..hi l} \<union> (\<Union>m \<in> set ls. {lo m..hi m})) = card {lo l..hi l} + card (\<Union>m \<in> set ls. {lo m..hi m})"
    by (intro card_Un_disjoint) auto
  moreover have "card {lo l..hi l} = width l" using Cons.prems(2) by (simp add: width_def Suc_diff_le)
  ultimately show ?case using Cons by simp
qed simp

lemma valid_slots_cover:
  assumes "valid_slots ls" "j < kClusterSlots"
  obtains l where "l \<in> set ls" "lo l \<le> j" "j \<le> hi l"
proof -
  let ?U = "\<Union>l \<in> set ls. {lo l..hi l}"
  have "card ?U = card {..<kClusterSlots}"
    using disjoint_ranges_card [of ls] assms(1) by (simp add: valid_slots_def width_def)
  moreover have "?U \<subseteq> {..<kClusterSlots}" using assms(1) by (fastforce simp: valid_slots_def)
  ultimately have "?U = {..<kClusterSlots}" by (intro card_subset_eq) auto
  then have "j \<in> ?U" using assms(2) by blast
  then show ?thesis using that by auto
qed

lemma valid_slots_unique:
  assumes "valid_slots ls" "l \<in> set ls" "m \<in> set ls" "lo l \<le> j" "j \<le> hi l" "lo m \<le> j" "j \<le> hi m"
  shows "l = m"
proof (rule ccontr)
  assume "l \<noteq> m"
  obtain i k where "i < length ls" "k < length ls" "ls ! i = l" "ls ! k = m" using assms(2,3) by (auto simp: in_set_conv_nth)
  moreover from this \<open>l \<noteq> m\<close> have "i < k \<or> k < i" by (metis linorder_neqE_nat)
  ultimately have "{lo l..hi l} \<inter> {lo m..hi m} = {}"
    using assms(1) unfolding valid_slots_def sorted_wrt_iff_nth_less by (metis inf_commute)
  then show False using assms(4-7) by auto
qed

section \<open>Properties\<close>

definition slots_reply :: "slot_line list \<Rightarrow> reply" where
  "slots_reply ls = RArray (map line_reply ls)"

lemma maps_ok_lookup:
  assumes "maps_ok h m m'" "map_of m a = Some p"
  shows "p < length h" "address (h ! p) = a" "\<not> closed (h ! p)"
proof -
  have "p \<in> snd ` set m" using map_of_SomeD [OF assms(2)] by (metis image_eqI snd_conv)
  then show "p < length h" "address (h ! p) = a" "\<not> closed (h ! p)"
    using assms node_map_ok_lookup [of h m a p] by (auto simp: maps_ok_def)
qed

text \<open>The node a call asked is still there, and the invariant holds after the call.\<close>

lemma update_call:
  assumes "cluster_inv cl" "node_call p (node_do net cmd args) (cl, e) = (x, s)"
  shows "cluster_inv (fst s)" "cl_closed (fst s) = cl_closed cl"
  using node_call_same [OF node_do_identity assms(2)] cluster_inv_same_routes [OF assms(1)]
  by (simp_all add: same_routes_def routes_def)

text \<open>An update from a table whose ranges add up to 16384 slots.\<close>

definition full_table :: "slot_line list \<Rightarrow> bool" where
  "full_table ls \<longleftrightarrow> (\<forall>l \<in> set ls. line_ok l) \<and> (\<Sum>l\<leftarrow>ls. width l) = kClusterSlots"

lemma Update_table:
  assumes "full_table ls"
    "node_call p (node_do (w_net w) ''CLUSTER'' [AString ''SLOTS'']) (cl, e) = ((slots_reply ls, None), s)"
  obtains sl sv where "Update w (Some p) (cl, e) = bind_outcome (install_table w sl sv s) (\<lambda>s. Ret (None, s))"
    "distinct (map fst sl)" "\<forall>a j. covered sl a j \<longleftrightarrow> (\<exists>l \<in> set ls. announces (master l) l a j)"
    "\<forall>a j. covered sv a j \<longleftrightarrow> (\<exists>l \<in> set ls. \<exists>n \<in> set (slaves l). announces n l a j)"
proof -
  have emp: "ranges_ok []" "\<And>a j. \<not> covered [] a j" by (simp_all add: ranges_ok_def covered_def)
  obtain sl sv where t: "slot_table (w_parse_float w) (map line_reply ls) (0, [], []) = Ret (Some (int kClusterSlots, sl, sv))"
    "ranges_ok sl" "\<forall>a j. covered sl a j \<longleftrightarrow> (\<exists>l \<in> set ls. announces (master l) l a j)"
    "\<forall>a j. covered sv a j \<longleftrightarrow> (\<exists>l \<in> set ls. \<exists>n \<in> set (slaves l). announces n l a j)"
    using slot_table_reply [OF _ emp(1) emp(1), of ls 0 "w_parse_float w"] assms(1) emp(2)
    by (auto simp: full_table_def kClusterSlots_def)
  moreover have "Update w (Some p) (cl, e) = bind_outcome (install_table w sl sv s) (\<lambda>s. Ret (None, s))"
    using assms(2) t(1) by (simp add: Update_def slots_reply_def Values_def Let_def)
  ultimately show ?thesis using that by (auto simp: ranges_ok_def)
qed

text \<open>Every announced slot is an index of the slot arrays.\<close>

definition in_range_table :: "slot_line list \<Rightarrow> bool" where
  "in_range_table ls \<longleftrightarrow> (\<forall>l \<in> set ls. hi l < kClusterSlots)"

lemma Update_in_range:
  assumes "iter_law w" "cluster_inv cl" "full_table ls" "in_range_table ls"
    "node_call p (node_do (w_net w) ''CLUSTER'' [AString ''SLOTS'']) (cl, e) = ((slots_reply ls, None), s)"
  obtains s' sl where "Update w (Some p) (cl, e) = Ret (None, s')" "cluster_inv (fst s')" "cl_closed (fst s') = cl_closed cl"
    "\<forall>a j. covered sl a j \<longleftrightarrow> (\<exists>l \<in> set ls. announces (master l) l a j)"
    "\<forall>j a. owned_by sl j a \<longrightarrow> (\<exists>q. slots (fst s') j = Some q \<and> map_of (nodes (fst s')) a = Some q)"
    "\<forall>j. (\<forall>a. \<not> covered sl a j) \<longrightarrow> slots (fst s') j = slots cl j"
proof -
  obtain sl sv where T: "Update w (Some p) (cl, e) = bind_outcome (install_table w sl sv s) (\<lambda>s. Ret (None, s))"
    "distinct (map fst sl)" "\<forall>a j. covered sl a j \<longleftrightarrow> (\<exists>l \<in> set ls. announces (master l) l a j)"
    "\<forall>a j. covered sv a j \<longleftrightarrow> (\<exists>l \<in> set ls. \<exists>n \<in> set (slaves l). announces n l a j)"
    using Update_table [OF assms(3,5)] by metis
  have inv: "cluster_inv (fst s)" "cl_closed (fst s) = cl_closed cl" by (rule update_call [OF assms(2,5)])+
  have slots: "slots (fst s) = slots cl"
    using node_call_same [OF node_do_identity assms(5)] by (simp add: same_routes_def routes_def)
  have "covers rgs j \<longrightarrow> j < kClusterSlots" if "(a, rgs) \<in> set sl \<union> set sv" for a rgs j
  proof
    assume "covers rgs j"
    then have "covered sl a j \<or> covered sv a j" using that by (auto simp: covered_def)
    then obtain l where "l \<in> set ls" "j \<le> hi l" using T(3,4) unfolding announces_def by blast
    then show "j < kClusterSlots" using assms(4) by (auto simp: in_range_table_def)
  qed
  then have "\<forall>(a, rgs) \<in> set sl \<union> set sv. in_bounds rgs" by (auto simp: in_bounds_covers)
  from install_table_ok [OF this] obtain s' where s': "install_table w sl sv s = Ret s'" by blast
  note I = install_table_spec [OF assms(1) T(2) inv(1) s']
  show ?thesis
  proof (rule that [of s' sl])
    show "\<forall>j. (\<forall>a. \<not> covered sl a j) \<longrightarrow> slots (fst s') j = slots cl j"
      using I(5) slots by (auto simp: covered_def)
    show "\<forall>j a. owned_by sl j a \<longrightarrow> (\<exists>q. slots (fst s') j = Some q \<and> map_of (nodes (fst s')) a = Some q)"
      using I(4) by blast
  qed (use T(1,3) s' I(1,2) inv(2) in simp_all)
qed

lemma valid_slots_full: "valid_slots ls \<Longrightarrow> full_table ls \<and> in_range_table ls"
  by (fastforce simp: valid_slots_def full_table_def in_range_table_def line_ok_def width_def kClusterSlots_def)

text \<open>C2. Routing after an update: when the node that is asked replies with a table of ranges that overlap
  nowhere and add up to 16384 slots, \<open>Update\<close> succeeds, and afterwards every key is routed to an open
  node whose address is the master's in the table line that has the key's slot.\<close>

theorem update_then_route:
  assumes "iter_law w" "cluster_inv cl" "\<not> cl_closed cl" "valid_slots ls"
    "node_call p (node_do (w_net w) ''CLUSTER'' [AString ''SLOTS'']) (cl, e) = ((slots_reply ls, None), s)"
  shows "\<exists>s'. Update w (Some p) (cl, e) = Ret (None, s') \<and> cluster_inv (fst s') \<and>
    (\<forall>ff arg k. key ff arg = Inr k \<longrightarrow> (\<exists>q l. l \<in> set ls \<and> lo l \<le> hash k \<and> hash k \<le> hi l \<and>
       getNodeByKey ff arg (fst s') = Inr q \<and> address (heap (fst s') ! q) = server_addr (master l) \<and>
       \<not> closed (heap (fst s') ! q)))"
proof -
  note full = valid_slots_full [OF assms(4)]
  obtain s' sl where U: "Update w (Some p) (cl, e) = Ret (None, s')" "cluster_inv (fst s')" "cl_closed (fst s') = cl_closed cl"
    "\<forall>a j. covered sl a j \<longleftrightarrow> (\<exists>l \<in> set ls. announces (master l) l a j)"
    "\<forall>j a. owned_by sl j a \<longrightarrow> (\<exists>q. slots (fst s') j = Some q \<and> map_of (nodes (fst s')) a = Some q)"
    "\<forall>j. (\<forall>a. \<not> covered sl a j) \<longrightarrow> slots (fst s') j = slots cl j"
    by (rule Update_in_range [OF assms(1,2) conjunct1 [OF full] conjunct2 [OF full] assms(5)])
  have "\<exists>q l. l \<in> set ls \<and> lo l \<le> hash k \<and> hash k \<le> hi l \<and> getNodeByKey ff arg (fst s') = Inr q \<and>
      address (heap (fst s') ! q) = server_addr (master l) \<and> \<not> closed (heap (fst s') ! q)"
    if k: "key ff arg = Inr k" for ff arg k
  proof -
    obtain l where l: "l \<in> set ls" "lo l \<le> hash k" "hash k \<le> hi l"
      using valid_slots_cover [OF assms(4), of "hash k"] hash_less by blast
    have "covered sl b (hash k) \<longleftrightarrow> b = server_addr (master l)" for b
    proof
      assume "covered sl b (hash k)"
      then obtain m where "m \<in> set ls" "server_addr (master m) = b" "lo m \<le> hash k" "hash k \<le> hi m"
        using U(4) unfolding announces_def by metis
      then show "b = server_addr (master l)" using valid_slots_unique [OF assms(4) _ l(1) _ _ l(2,3)] by metis
    qed (use U(4) l in \<open>unfold announces_def, metis\<close>)
    then have "owned_by sl (hash k) (server_addr (master l))"
      unfolding owned_by_def covered_def by blast
    then obtain q where q: "slots (fst s') (hash k) = Some q" "map_of (nodes (fst s')) (server_addr (master l)) = Some q"
      using U(5) by blast
    have mp: "maps_ok (heap (fst s')) (nodes (fst s')) (slaveNodes (fst s'))"
      using U(2) by (simp add: cluster_inv_def)
    have "address (heap (fst s') ! q) = server_addr (master l)" "\<not> closed (heap (fst s') ! q)"
      by (rule maps_ok_lookup(2,3) [OF mp q(2)])+
    then show ?thesis using l q(1) k U(3) assms(3) by (auto simp: getNodeByKey_def Let_def)
  qed
  then show ?thesis using U(1,2) by blast
qed

text \<open>A cluster that has one node and does not know its slots yet, and a server that gives it all of
  them.\<close>

definition scripted_world :: "bytes \<Rightarrow> (int \<times> nat list, breader, bwriter) world" where
  "scripted_world p = \<lparr>w_net = scripted_net p, w_iter = Pair, w_perm = (\<lambda>n e. ([0..<n], e)), w_uint32n = (\<lambda>n e. (0, e)),
     w_listening = Pair True, w_parse_float = (\<lambda>_ _. (0, None))\<rparr>"

definition sample_options :: "bytes list \<Rightarrow> cluster_options" where
  "sample_options as = \<lparr>StartNodes = as, ConnTimeout = 0, ReadTimeout = 0, WriteTimeout = 0, KeepAlive = 2,
     AliveTime = 10, SlaveOperateRate = 0, ClusterUpdateHeartbeat = 0\<rparr>"

definition sample_cluster :: "(breader, bwriter) cluster" where
  "sample_cluster = (make_cluster (sample_options []))\<lparr>heap := [sample_node []]\<rparr>"

definition sample_lines :: "slot_line list" where
  "sample_lines = [\<lparr>lo = 0, hi = 16383, master = \<lparr>host = ''h'', port = 1, ident = ''a''\<rparr>, slaves = []\<rparr>]"

lemma sample_cluster_inv: "cluster_inv sample_cluster" "\<not> cl_closed sample_cluster" "heap sample_cluster = [sample_node []]"
  "nodes sample_cluster = []"
  by (simp_all add: sample_cluster_def make_cluster_def cluster_inv_def maps_ok_def node_map_ok_def)

lemma sample_lines_valid: "valid_slots sample_lines"
  by (simp add: sample_lines_def valid_slots_def kClusterSlots_def in_int64_def)

lemma scripted_call:
  assumes "sendable_reply r" "sendable (\<lambda>_. ''0'') cmd args" "heap cl ! p = sample_node []"
  shows "\<exists>s. node_call p (node_do (scripted_net (reply_wire r)) cmd args) (cl, e) = ((r, None), s) \<and>
    fst s = cl\<lparr>heap := heap (fst s)\<rparr>"
proof -
  let ?p = "reply_wire r"
  have p: "?p \<noteq> []" by (cases r) (simp_all add: bulk_of_def)
  note s = scripted_streams(1,2) [OF p] scripted_streams(3,4)
  obtain n e' where "node_do (scripted_net ?p) cmd args (sample_node []) e = ((r, None), n, e')"
    using node_do_ready [where net = "scripted_net ?p" and cmd = cmd and args = args
        and r = r and t = "[]" and e = e, unfolded scripted_net_simps,
        OF bufio_sticky_writer bufio_byte_reader order_refl scripted_conn] s assms
    by (auto simp: new_conn_def ready_def zeros_def)
  then show ?thesis using assms(3) by (simp add: node_call_def)
qed

lemma update_then_route_witness:
  "\<exists>s' q. Update (scripted_world (reply_wire (slots_reply sample_lines))) (Some 0) (sample_cluster, (5, [])) = Ret (None, s') \<and>
     getNodeByKey (\<lambda>_. []) (AString ''k'') (fst s') = Inr q \<and> address (heap (fst s') ! q) = ''h:'' @ FormatInt 1"
proof -
  let ?w = "scripted_world (reply_wire (slots_reply sample_lines))"
  have net: "w_net ?w = scripted_net (reply_wire (slots_reply sample_lines))" by (simp add: scripted_world_def)
  have r: "sendable_reply (slots_reply sample_lines)"
    by (simp add: slots_reply_def sample_lines_def line_reply_def node_reply_def in_int64_def small_def)
  have c: "sendable (\<lambda>_. ''0'') ''CLUSTER'' [AString ''SLOTS'']"
    by (simp add: sendable_def small_def arg_bytes_def)
  obtain s where s: "node_call 0 (node_do (w_net ?w) ''CLUSTER'' [AString ''SLOTS'']) (sample_cluster, (5, []))
      = ((slots_reply sample_lines, None), s)"
    using scripted_call [OF r c, of sample_cluster 0 "(5, [])"] sample_cluster_inv(3) net by auto
  have i: "iter_law ?w" by (simp add: iter_law_def scripted_world_def)
  obtain s' where s': "Update ?w (Some 0) (sample_cluster, (5, [])) = Ret (None, s')"
    "\<forall>ff arg k. key ff arg = Inr k \<longrightarrow> (\<exists>q l. l \<in> set sample_lines \<and> lo l \<le> hash k \<and> hash k \<le> hi l \<and>
       getNodeByKey ff arg (fst s') = Inr q \<and> address (heap (fst s') ! q) = server_addr (master l) \<and>
       \<not> closed (heap (fst s') ! q))"
    using update_then_route [OF i sample_cluster_inv(1,2) sample_lines_valid s] by blast
  have "key (\<lambda>_. []) (AString ''k'') = Inr ''k''" by (simp add: key_def)
  then show ?thesis using s' by (fastforce simp: sample_lines_def server_addr_def)
qed

text \<open>The test of \<open>Update\<close> counts slots and does not check that all are covered: a table whose ranges
  add up to 16384 by announcing some slots twice is accepted, and a slot no line has keeps the node
  it had before (or none).\<close>

theorem update_accepts_gaps:
  assumes "iter_law w" "cluster_inv cl" "full_table ls" "in_range_table ls"
    "node_call p (node_do (w_net w) ''CLUSTER'' [AString ''SLOTS'']) (cl, e) = ((slots_reply ls, None), s)"
    "\<forall>l \<in> set ls. \<not> (lo l \<le> j \<and> j \<le> hi l)"
  shows "\<exists>s'. Update w (Some p) (cl, e) = Ret (None, s') \<and> slots (fst s') j = slots cl j"
proof -
  obtain s' sl where U: "Update w (Some p) (cl, e) = Ret (None, s')" "cluster_inv (fst s')" "cl_closed (fst s') = cl_closed cl"
    "\<forall>a j. covered sl a j \<longleftrightarrow> (\<exists>l \<in> set ls. announces (master l) l a j)"
    "\<forall>j a. owned_by sl j a \<longrightarrow> (\<exists>q. slots (fst s') j = Some q \<and> map_of (nodes (fst s')) a = Some q)"
    "\<forall>j. (\<forall>a. \<not> covered sl a j) \<longrightarrow> slots (fst s') j = slots cl j"
    by (rule Update_in_range [OF assms(1-5)])
  moreover have "\<not> covered sl a j" for a
    using U(4) assms(6) unfolding announces_def by blast
  ultimately show ?thesis using U(6) by blast
qed

definition doubled_lines :: "slot_line list" where
  "doubled_lines = [\<lparr>lo = 0, hi = 8191, master = \<lparr>host = ''h'', port = 1, ident = ''a''\<rparr>, slaves = []\<rparr>,
     \<lparr>lo = 0, hi = 8191, master = \<lparr>host = ''h'', port = 2, ident = ''b''\<rparr>, slaves = []\<rparr>]"

lemma scripted_update_call:
  assumes "\<forall>l \<in> set ls. line_ok l \<and> small (Suc (Suc (Suc (length (slaves l))))) \<and>
      (\<forall>n \<in> set (master l # slaves l). small (length (host n)) \<and> small (length (ident n)))" "small (length ls)"
  shows "\<exists>s. node_call 0 (node_do (w_net (scripted_world (reply_wire (slots_reply ls)))) ''CLUSTER'' [AString ''SLOTS''])
    (sample_cluster, e) = ((slots_reply ls, None), s)"
proof -
  have "sendable_reply (slots_reply ls)"
    using assms by (auto simp: slots_reply_def line_reply_def node_reply_def line_ok_def in_int64_def small_def)
  moreover have "sendable (\<lambda>_. ''0'') ''CLUSTER'' [AString ''SLOTS'']"
    by (simp add: sendable_def small_def arg_bytes_def)
  ultimately show ?thesis
    using scripted_call [of "slots_reply ls" "''CLUSTER''" "[AString ''SLOTS'']" sample_cluster 0 e] sample_cluster_inv(3)
    by (auto simp: scripted_world_def)
qed

lemma scripted_iter: "iter_law (scripted_world p)"
  by (simp add: iter_law_def scripted_world_def)

lemma update_accepts_gaps_witness:
  "\<exists>s'. Update (scripted_world (reply_wire (slots_reply doubled_lines))) (Some 0) (sample_cluster, (5, [])) = Ret (None, s') \<and>
     slots (fst s') 16383 = None"
proof -
  have ok: "full_table doubled_lines" "in_range_table doubled_lines"
    by (simp_all add: doubled_lines_def full_table_def in_range_table_def line_ok_def width_def kClusterSlots_def in_int64_def)
  obtain s where s: "node_call 0 (node_do (w_net (scripted_world (reply_wire (slots_reply doubled_lines)))) ''CLUSTER''
      [AString ''SLOTS'']) (sample_cluster, (5, [])) = ((slots_reply doubled_lines, None), s)"
    using scripted_update_call [of doubled_lines "(5, [])"]
    by (auto simp: doubled_lines_def line_ok_def in_int64_def small_def)
  have "slots sample_cluster 16383 = None" by (simp add: sample_cluster_def make_cluster_def)
  then show ?thesis
    using update_accepts_gaps [OF scripted_iter sample_cluster_inv(1) ok s, of 16383] by (simp add: doubled_lines_def)
qed

text \<open>The slot numbers of a table are not checked: when the ranges add up to 16384 and one of them
  ends beyond the last slot, \<open>Update\<close> panics with an index out of range, in the goroutine that
  updates.\<close>

theorem update_out_of_range_panics:
  assumes "iter_law w" "cluster_inv cl" "full_table ls" "\<not> in_range_table ls"
    "node_call p (node_do (w_net w) ''CLUSTER'' [AString ''SLOTS'']) (cl, e) = ((slots_reply ls, None), s)"
  shows "\<exists>m. Update w (Some p) (cl, e) = Panic m"
proof -
  obtain sl sv where T: "Update w (Some p) (cl, e) = bind_outcome (install_table w sl sv s) (\<lambda>s. Ret (None, s))"
    "distinct (map fst sl)" "\<forall>a j. covered sl a j \<longleftrightarrow> (\<exists>l \<in> set ls. announces (master l) l a j)"
    using Update_table [OF assms(3,5)] by metis
  have inv: "cluster_inv (fst s)" by (rule update_call [OF assms(2,5)])
  obtain l where l: "l \<in> set ls" "kClusterSlots \<le> hi l" "lo l \<le> hi l"
    using assms(3,4) by (auto simp: in_range_table_def full_table_def line_ok_def not_less)
  then have "covered sl (server_addr (master l)) (hi l)" using T(3) unfolding announces_def by blast
  then have "\<not> (\<forall>(a, rgs) \<in> set sl. in_bounds rgs)"
    using l(2) by (fastforce simp: covered_def in_bounds_covers)
  then have "install_table w sl sv s \<noteq> Ret s'" for s'
    using install_table_spec(3) [OF assms(1) T(2) inv] by blast
  then show ?thesis using T(1) by (cases "install_table w sl sv s") auto
qed

definition shifted_lines :: "slot_line list" where
  "shifted_lines = [\<lparr>lo = 1, hi = 16384, master = \<lparr>host = ''h'', port = 1, ident = ''a''\<rparr>, slaves = []\<rparr>]"

lemma update_out_of_range_panics_witness:
  "\<exists>m. Update (scripted_world (reply_wire (slots_reply shifted_lines))) (Some 0) (sample_cluster, (5, [])) = Panic m"
proof -
  have ok: "full_table shifted_lines" "\<not> in_range_table shifted_lines"
    by (simp_all add: shifted_lines_def full_table_def in_range_table_def line_ok_def width_def kClusterSlots_def in_int64_def)
  obtain s where s: "node_call 0 (node_do (w_net (scripted_world (reply_wire (slots_reply shifted_lines)))) ''CLUSTER''
      [AString ''SLOTS'']) (sample_cluster, (5, [])) = ((slots_reply shifted_lines, None), s)"
    using scripted_update_call [of shifted_lines "(5, [])"]
    by (auto simp: shifted_lines_def line_ok_def in_int64_def small_def)
  show ?thesis by (rule update_out_of_range_panics [OF scripted_iter sample_cluster_inv(1) ok s])
qed

text \<open>A failed update changes no route: when \<open>Update\<close> returns an error, whatever the server sent, the
  slot arrays, both maps and the update time are as before.\<close>

theorem update_failure_keeps_routes:
  assumes "Update w q s = Ret (Some err, s')"
  shows "routes (fst s') = routes (fst s)"
proof (cases q)
  case None
  then show ?thesis using assms by (simp add: Update_def)
next
  case (Some p)
  obtain x s1 where c: "node_call p (node_do (w_net w) ''CLUSTER'' [AString ''SLOTS'']) s = (x, s1)" by (metis surj_pair)
  have "routes (fst s1) = routes (fst s)"
    using node_call_same [OF node_do_identity c] by (simp add: same_routes_def)
  moreover have "s' = s1"
    using assms Some c
    by (auto simp: Update_def Let_def bind_outcome_Ret_iff split: prod.splits option.splits if_splits)
  ultimately show ?thesis by simp
qed

lemma update_failure_keeps_routes_witness:
  "\<exists>err s'. Update (scripted_world []) None (sample_cluster, (5, [])) = Ret (Some err, s') \<and> routes (fst s') = routes sample_cluster"
proof -
  have "Update (scripted_world []) None (sample_cluster, (5, [])) = Ret (Some (Formatted ''Cluster Update error.''), (sample_cluster, (5, [])))"
    by (simp add: Update_def)
  from update_failure_keeps_routes [OF this] this show ?thesis by auto
qed

end
