(* ===== verification/Cluster_Multi.thy ===== *)
theory Cluster_Multi
  imports Cluster_Update
begin

text \<open>
  \<open>MSET\<close>, \<open>MSETNX\<close> and \<open>MGET\<close> over a cluster (\<open>utils/rediscluster/multi.go\<close>): the arguments are
  grouped into one task per slot, the tasks run as goroutines, and the results are put together.
  The tasks run here one after the other, in any order the world chooses (a permutation of their
  indices). Where the code prints an argument with \<open>%v\<close> the model leaves the text out.
\<close>

section \<open>Tasks\<close>

record multi_task =
  mt_node :: node_ptr
  mt_slot :: nat
  mt_cmd :: bytes
  mt_args :: "arg list"

text \<open>The first task of a slot: \<open>for j = 0; j < len(tasks); j++\<close>.\<close>

fun find_task :: "nat \<Rightarrow> multi_task list \<Rightarrow> nat" where
  "find_task slot [] = 0"
| "find_task slot (t # ts) = (if mt_slot t = slot then 0 else Suc (find_task slot ts))"

text \<open>The arguments of one key go to the task of its slot, which is made when there is none. The result
  also gives the task's index.\<close>

definition add_task :: "(64 word \<Rightarrow> bytes) \<Rightarrow> ('r, 'w) cluster \<Rightarrow> string \<Rightarrow> bytes \<Rightarrow> arg \<Rightarrow> arg list \<Rightarrow> multi_task list
    \<Rightarrow> go_error + nat \<times> multi_task list" where
  "add_task ff cl f cmd a new tasks = (case key ff a of
     Inl _ \<Rightarrow> Inl (Formatted (f @ '': invalid key''))
   | Inr k \<Rightarrow>
       let slot = hash k; j = find_task slot tasks
       in if j < length tasks then Inr (j, tasks[j := (tasks ! j)\<lparr>mt_args := mt_args (tasks ! j) @ new\<rparr>])
          else case slots cl slot of
              None \<Rightarrow> Inl (no_node f k slot)
            | Some p \<Rightarrow> Inr (j, tasks @ [\<lparr>mt_node = p, mt_slot = slot, mt_cmd = cmd, mt_args = new\<rparr>]))"

fun set_tasks :: "(64 word \<Rightarrow> bytes) \<Rightarrow> ('r, 'w) cluster \<Rightarrow> bytes \<Rightarrow> arg list \<Rightarrow> multi_task list
    \<Rightarrow> go_error + multi_task list" where
  "set_tasks ff cl cmd (a # v # rest) tasks = (case add_task ff cl ''multiSet'' cmd a [a, v] tasks of
     Inl e \<Rightarrow> Inl e | Inr (_, tasks) \<Rightarrow> set_tasks ff cl cmd rest tasks)"
| "set_tasks ff cl cmd _ tasks = Inr tasks"

text \<open>For \<open>MGET\<close> the task of every argument is remembered.\<close>

fun get_tasks :: "(64 word \<Rightarrow> bytes) \<Rightarrow> ('r, 'w) cluster \<Rightarrow> bytes \<Rightarrow> arg list \<Rightarrow> multi_task list \<Rightarrow> nat list
    \<Rightarrow> go_error + multi_task list \<times> nat list" where
  "get_tasks ff cl cmd [] tasks index = Inr (tasks, index)"
| "get_tasks ff cl cmd (a # rest) tasks index = (case add_task ff cl ''multiGet'' cmd a [a] tasks of
     Inl e \<Rightarrow> Inl e | Inr (j, tasks) \<Rightarrow> get_tasks ff cl cmd rest tasks (index @ [j]))"

section \<open>Running the tasks\<close>

definition handleSetTask :: "('e, 'r, 'w) world \<Rightarrow> multi_task \<Rightarrow> ('e, 'r, 'w) cst \<Rightarrow> (result \<times> ('e, 'r, 'w) cst) outcome option" where
  "handleSetTask w t s = (case node_call (mt_node t) (node_do (w_net w) (mt_cmd t) (mt_args t)) s of
     ((reply, Some err), s) \<Rightarrow> Some (Ret ((reply, Some err), s))
   | ((reply, None), s) \<Rightarrow> follow w (mt_node t) (mt_cmd t) (mt_args t) reply s)"

definition handleGetTask :: "('e, 'r, 'w) world \<Rightarrow> multi_task \<Rightarrow> ('e, 'r, 'w) cst
    \<Rightarrow> (reply list option \<times> go_error option) \<times> ('e, 'r, 'w) cst" where
  "handleGetTask w t s = (case node_call (mt_node t) (node_do (w_net w) (mt_cmd t) (mt_args t)) s of
     ((reply, err), s) \<Rightarrow> (Values reply err, s))"

fun run_set_tasks :: "('e, 'r, 'w) world \<Rightarrow> multi_task list \<Rightarrow> nat list \<Rightarrow> result list \<Rightarrow> ('e, 'r, 'w) cst
    \<Rightarrow> (result list \<times> ('e, 'r, 'w) cst) outcome option" where
  "run_set_tasks w tasks [] rs s = Some (Ret (rs, s))"
| "run_set_tasks w tasks (i # order) rs s = bind_run (handleSetTask w (tasks ! i) s) (\<lambda>(r, s).
     run_set_tasks w tasks order (rs[i := r]) s)"

type_synonym get_result = "reply list option \<times> go_error option"

fun run_get_tasks :: "('e, 'r, 'w) world \<Rightarrow> multi_task list \<Rightarrow> nat list \<Rightarrow> get_result list \<Rightarrow> ('e, 'r, 'w) cst
    \<Rightarrow> get_result list \<times> ('e, 'r, 'w) cst" where
  "run_get_tasks w tasks [] rs s = (rs, s)"
| "run_get_tasks w tasks (i # order) rs s = (case handleGetTask w (tasks ! i) s of (r, s) \<Rightarrow>
     run_get_tasks w tasks order (rs[i := r]) s)"

section \<open>The commands\<close>

fun first_error :: "result list \<Rightarrow> go_error option" where
  "first_error [] = None"
| "first_error ((reply, err) # rs) = (case reply_String reply err of
     (_, Some e) \<Rightarrow> Some e | (_, None) \<Rightarrow> first_error rs)"

definition multiSet :: "('e, 'r, 'w) world \<Rightarrow> bytes \<Rightarrow> arg list \<Rightarrow> ('e, 'r, 'w) cst
    \<Rightarrow> (result \<times> ('e, 'r, 'w) cst) outcome option" where
  "multiSet w cmd args s =
     (if odd (length args) then Some (Ret ((RNil, Some (Formatted ''multiSet: invalid args'')), s))
      else case set_tasks (net_float (w_net w)) (fst s) cmd args [] of
          Inl e \<Rightarrow> Some (Ret ((RNil, Some e), s))
        | Inr tasks \<Rightarrow>
            let (order, s) = env_call (w_perm w (length tasks)) s
            in bind_run (run_set_tasks w tasks order (replicate (length tasks) (RNil, None)) s) (\<lambda>(rs, s).
                 Some (Ret (case first_error rs of
                     Some e \<Rightarrow> ((RNil, Some e), s) | None \<Rightarrow> ((RString ''OK'', None), s)))))"

text \<open>The replies of a task are consumed from the front; the test of the code for too few is never true
  (\<open>len(...) < 0\<close>), so the index panics.\<close>

fun collect :: "nat list \<Rightarrow> get_result list \<Rightarrow> (go_error + reply list) outcome" where
  "collect [] rs = Ret (Inr [])"
| "collect (i # index) rs = (case rs ! i of
     (_, Some e) \<Rightarrow> Ret (Inl e)
   | (Some (r # left), None) \<Rightarrow> bind_outcome (collect index (rs[i := (Some left, None)])) (\<lambda>x.
       Ret (case x of Inl e \<Rightarrow> Inl e | Inr l \<Rightarrow> Inr (r # l)))
   | (_, None) \<Rightarrow> Panic ''index out of range'')"

definition multiGet :: "('e, 'r, 'w) world \<Rightarrow> bytes \<Rightarrow> arg list \<Rightarrow> ('e, 'r, 'w) cst
    \<Rightarrow> (result \<times> ('e, 'r, 'w) cst) outcome" where
  "multiGet w cmd args s = (case get_tasks (net_float (w_net w)) (fst s) cmd args [] [] of
     Inl e \<Rightarrow> Ret ((RNil, Some e), s)
   | Inr (tasks, index) \<Rightarrow>
       let (order, s) = env_call (w_perm w (length tasks)) s;
           (rs, s) = run_get_tasks w tasks order (replicate (length tasks) (None, None)) s
       in bind_outcome (collect index rs) (\<lambda>x. Ret (case x of
            Inl e \<Rightarrow> ((RNil, Some e), s) | Inr l \<Rightarrow> ((RArray l, None), s))))"

section \<open>Grouping\<close>

definition arg_slot :: "(64 word \<Rightarrow> bytes) \<Rightarrow> arg \<Rightarrow> nat option" where
  "arg_slot ff a = (case key ff a of Inl _ \<Rightarrow> None | Inr k \<Rightarrow> Some (hash k))"

text \<open>The part of the items that belongs to a slot, in their order.\<close>

definition for_slot :: "(64 word \<Rightarrow> bytes) \<Rightarrow> (arg \<times> arg list) list \<Rightarrow> nat \<Rightarrow> arg list" where
  "for_slot ff items slot = concat (map snd (filter (\<lambda>x. arg_slot ff (fst x) = Some slot) items))"

definition grouped :: "(64 word \<Rightarrow> bytes) \<Rightarrow> ('r, 'w) cluster \<Rightarrow> (arg \<times> arg list) list \<Rightarrow> multi_task list \<Rightarrow> bool" where
  "grouped ff cl items tasks \<longleftrightarrow> distinct (map mt_slot tasks) \<and>
     (\<forall>x \<in> set items. arg_slot ff (fst x) \<in> Some ` mt_slot ` set tasks) \<and>
     (\<forall>t \<in> set tasks. slots cl (mt_slot t) = Some (mt_node t) \<and> mt_args t = for_slot ff items (mt_slot t))"

lemma find_task_less: "find_task slot tasks < length tasks \<Longrightarrow> mt_slot (tasks ! find_task slot tasks) = slot"
  by (induction tasks) (auto split: if_splits)

lemma find_task_none: "\<not> find_task slot tasks < length tasks \<Longrightarrow> slot \<notin> mt_slot ` set tasks \<and> find_task slot tasks = length tasks"
  by (induction tasks) (auto split: if_splits)

lemma for_slot_none: "\<forall>x \<in> set items. arg_slot ff (fst x) \<noteq> Some slot \<Longrightarrow> for_slot ff items slot = []"
  by (induction items) (auto simp: for_slot_def)

lemma add_task_grouped:
  assumes "grouped ff cl items tasks" "add_task ff cl f cmd a new tasks = Inr (j, tasks')"
  shows "grouped ff cl (items @ [(a, new)]) tasks' \<and> j < length tasks' \<and> arg_slot ff a = Some (mt_slot (tasks' ! j)) \<and>
    (\<exists>ss. map mt_slot tasks' = map mt_slot tasks @ ss)"
proof -
  obtain k where k: "key ff a = Inr k" using assms(2) by (auto simp: add_task_def split: sum.splits)
  then have slot: "arg_slot ff a = Some (hash k)" by (simp add: arg_slot_def)
  have fs: "for_slot ff (items @ [(a, new)]) s = for_slot ff items s @ (if s = hash k then new else [])" for s
    using slot by (auto simp: for_slot_def)
  note G = assms(1) [unfolded grouped_def]
  show ?thesis
  proof (cases "find_task (hash k) tasks < length tasks")
    case True
    let ?j = "find_task (hash k) tasks"
    have j: "j = ?j" "tasks' = tasks[?j := (tasks ! ?j)\<lparr>mt_args := mt_args (tasks ! ?j) @ new\<rparr>]"
      using assms(2) k True by (auto simp: add_task_def Let_def)
    have s: "mt_slot (tasks ! ?j) = hash k" by (rule find_task_less [OF True])
    have gj: "slots cl (mt_slot (tasks ! ?j)) = Some (mt_node (tasks ! ?j))" using G nth_mem [OF True] by blast
    have slots': "map mt_slot tasks' = map mt_slot tasks"
      using True by (simp add: j(2) map_update list_update_same_conv)
    have "slots cl (mt_slot t) = Some (mt_node t) \<and> mt_args t = for_slot ff (items @ [(a, new)]) (mt_slot t)"
      if t: "t \<in> set tasks'" for t
    proof -
      have "length tasks' = length tasks" by (simp add: j(2))
      moreover obtain i where "i < length tasks'" "tasks' ! i = t"
        using t unfolding in_set_conv_nth by blast
      ultimately have i: "i < length tasks" "t = tasks' ! i" by simp_all
      have "i \<noteq> ?j \<longrightarrow> mt_slot (tasks ! i) \<noteq> hash k"
        using G i(1) True s nth_eq_iff_index_eq [of "map mt_slot tasks" i ?j] by auto
      then show ?thesis
        using G i True s gj by (auto simp: fs j(2) nth_list_update)
    qed
    moreover have "Some (hash k) \<in> Some ` mt_slot ` set tasks"
      using s True nth_mem by (metis imageI)
    ultimately have "grouped ff cl (items @ [(a, new)]) tasks'"
      using G slot slots' by (auto simp: grouped_def simp flip: set_map)
    then show ?thesis using slot slots' j True s by (intro conjI exI [of _ "[]"]) simp_all
  next
    case False
    then obtain p where p: "slots cl (hash k) = Some p"
        "tasks' = tasks @ [\<lparr>mt_node = p, mt_slot = hash k, mt_cmd = cmd, mt_args = new\<rparr>]" "j = length tasks"
      using assms(2) k find_task_none [OF False] by (auto simp: add_task_def Let_def split: option.splits)
    have n: "hash k \<notin> mt_slot ` set tasks" using find_task_none [OF False] by simp
    then have "for_slot ff items (hash k) = []"
      using G by (intro for_slot_none) (metis image_iff option.inject)
    then have "grouped ff cl (items @ [(a, new)]) tasks'"
      using G n slot p by (auto simp: grouped_def fs image_iff)
    then show ?thesis using p slot by simp
  qed
qed

lemma grouped_Nil: "grouped ff cl [] []"
  by (simp add: grouped_def)

text \<open>The pairs of \<open>MSET\<close> as items.\<close>

fun pair_items :: "arg list \<Rightarrow> (arg \<times> arg list) list" where
  "pair_items (a # v # rest) = (a, [a, v]) # pair_items rest"
| "pair_items _ = []"

lemma set_tasks_grouped:
  "grouped ff cl items tasks \<Longrightarrow> set_tasks ff cl cmd args tasks = Inr tasks' \<Longrightarrow> grouped ff cl (items @ pair_items args) tasks'"
proof (induction args arbitrary: items tasks rule: induct_list012)
  case (3 a v rest)
  then obtain j t1 where "add_task ff cl ''multiSet'' cmd a [a, v] tasks = Inr (j, t1)" "set_tasks ff cl cmd rest t1 = Inr tasks'"
    by (auto split: sum.splits)
  then show ?case using 3(1) add_task_grouped [OF 3(3)] by fastforce
qed simp_all

lemma get_tasks_grouped:
  "grouped ff cl items tasks \<Longrightarrow> list_all2 (\<lambda>x i. i < length tasks \<and> arg_slot ff (fst x) = Some (mt_slot (tasks ! i))) items index \<Longrightarrow>
     get_tasks ff cl cmd args tasks index = Inr (tasks', index') \<Longrightarrow>
     grouped ff cl (items @ map (\<lambda>a. (a, [a])) args) tasks' \<and>
     list_all2 (\<lambda>x i. i < length tasks' \<and> arg_slot ff (fst x) = Some (mt_slot (tasks' ! i))) (items @ map (\<lambda>a. (a, [a])) args) index'"
proof (induction args arbitrary: items tasks index)
  case (Cons a args)
  obtain j t1 where 1: "add_task ff cl ''multiGet'' cmd a [a] tasks = Inr (j, t1)" "get_tasks ff cl cmd args t1 (index @ [j]) = Inr (tasks', index')"
    using Cons.prems(3) by (auto split: sum.splits)
  note A = add_task_grouped [OF Cons.prems(1) 1(1)]
  have keep: "i < length tasks \<Longrightarrow> i < length t1 \<and> mt_slot (t1 ! i) = mt_slot (tasks ! i)" for i
    using A by (metis (no_types, lifting) length_append length_map nth_append nth_map trans_less_add1)
  have "list_all2 (\<lambda>x i. i < length t1 \<and> arg_slot ff (fst x) = Some (mt_slot (t1 ! i))) (items @ [(a, [a])]) (index @ [j])"
    using Cons.prems(2) A keep by (intro list_all2_appendI) (auto elim!: list_all2_mono)
  from Cons.IH [OF _ this 1(2)] A show ?case by simp
qed simp

lemma collect_results:
  assumes "distinct ss" "length rs = length ss"
    "\<forall>j < length ss. rs ! j = (Some (map val (filter (\<lambda>a. arg_slot ff a = Some (ss ! j)) args)), None)"
    "list_all2 (\<lambda>a j. j < length ss \<and> arg_slot ff a = Some (ss ! j)) args index"
  shows "collect index rs = Ret (Inr (map val args))"
  using assms(2-)
proof (induction args arbitrary: index rs)
  case (Cons a args)
  obtain j js where j: "index = j # js" "j < length ss" "arg_slot ff a = Some (ss ! j)"
    "list_all2 (\<lambda>a j. j < length ss \<and> arg_slot ff a = Some (ss ! j)) args js"
    using Cons.prems(3) by (auto simp: list_all2_Cons1)
  let ?left = "map val (filter (\<lambda>a. arg_slot ff a = Some (ss ! j)) args)"
  have r: "rs ! j = (Some (val a # ?left), None)"
    using Cons.prems(2) j(2,3) by simp
  have "collect js (rs[j := (Some ?left, None)]) = Ret (Inr (map val args))"
  proof (rule Cons.IH [OF _ _ j(4)])
    show "\<forall>i < length ss. rs[j := (Some ?left, None)] ! i = (Some (map val (filter (\<lambda>a. arg_slot ff a = Some (ss ! i)) args)), None)"
    proof (intro allI impI)
      fix i assume i: "i < length ss"
      show "rs[j := (Some ?left, None)] ! i = (Some (map val (filter (\<lambda>a. arg_slot ff a = Some (ss ! i)) args)), None)"
      proof (cases "i = j")
        case False
        then have "ss ! i \<noteq> ss ! j" using assms(1) i j(2) nth_eq_iff_index_eq by blast
        then show ?thesis using Cons.prems(2) i j(3) False by simp
      qed (use Cons.prems(1) i in simp)
    qed
  qed (use Cons.prems(1) in simp)
  then show ?case using r j(1) by simp
qed simp

section \<open>Properties\<close>

text \<open>\<open>MSET\<close> splits its pairs by slot: every task is for the node of its slot, no slot has two tasks,
  every pair is in the task of its key's slot, and the pairs of a task are in the order of the
  command.\<close>

theorem multiSet_splits_by_slot:
  assumes "set_tasks ff cl cmd args [] = Inr tasks"
  shows "distinct (map mt_slot tasks) \<and> (\<forall>x \<in> set (pair_items args). arg_slot ff (fst x) \<in> Some ` mt_slot ` set tasks) \<and>
    (\<forall>t \<in> set tasks. slots cl (mt_slot t) = Some (mt_node t) \<and> mt_args t = for_slot ff (pair_items args) (mt_slot t))"
  using set_tasks_grouped [OF grouped_Nil assms] by (simp add: grouped_def)

definition routed_cluster :: "(breader, bwriter) cluster" where
  "routed_cluster = sample_cluster\<lparr>slots := \<lambda>_. Some 0\<rparr>"

lemma multiSet_splits_by_slot_witness:
  "\<exists>tasks. set_tasks (\<lambda>_. []) routed_cluster ''MSET'' [AString ''a'', AInt 1] [] = Inr tasks \<and> distinct (map mt_slot tasks)"
proof -
  obtain tasks where t: "set_tasks (\<lambda>_. []) routed_cluster ''MSET'' [AString ''a'', AInt 1] [] = Inr tasks"
    by (simp add: add_task_def key_def Let_def routed_cluster_def)
  from multiSet_splits_by_slot [OF t] t show ?thesis by blast
qed

text \<open>C28. \<open>MGET\<close> returns the values in the order of its keys: whatever the order in which the tasks run,
  when the node of each task answers its keys with their values, the reply is the array of the values
  of the keys of the command, key by key.\<close>

theorem multiGet_in_order:
  assumes "get_tasks (net_float (w_net w)) (fst s) cmd args [] [] = Inr (tasks, index)"
    "env_call (w_perm w (length tasks)) s = (order, s1)"
    "run_get_tasks w tasks order (replicate (length tasks) (None, None)) s1
       = (map (\<lambda>t. (Some (map val (mt_args t)), None)) tasks, s2)"
  shows "multiGet w cmd args s = Ret ((RArray (map val args), None), s2)"
proof -
  let ?ff = "net_float (w_net w)" and ?items = "map (\<lambda>a. (a, [a])) args"
  have G: "grouped ?ff (fst s) ?items tasks"
    "list_all2 (\<lambda>x i. i < length tasks \<and> arg_slot ?ff (fst x) = Some (mt_slot (tasks ! i))) ?items index"
    using get_tasks_grouped [OF grouped_Nil _ assms(1)] by simp_all
  have "for_slot ?ff ?items slot = filter (\<lambda>a. arg_slot ?ff a = Some slot) args" for slot
    by (induction args) (auto simp: for_slot_def)
  then have "mt_args (tasks ! j) = filter (\<lambda>a. arg_slot ?ff a = Some (mt_slot (tasks ! j))) args" if "j < length tasks" for j
    using G(1) nth_mem [OF that] by (simp add: grouped_def)
  moreover have "distinct (map mt_slot tasks)" using G(1) by (simp add: grouped_def)
  moreover have "list_all2 (\<lambda>a j. j < length (map mt_slot tasks) \<and> arg_slot ?ff a = Some (map mt_slot tasks ! j)) args index"
    using G(2) by (auto simp: list_all2_map1 elim!: list_all2_mono)
  ultimately have "collect index (map (\<lambda>t. (Some (map val (mt_args t)), None)) tasks) = Ret (Inr (map val args))"
    by (intro collect_results [where ss = "map mt_slot tasks" and ff = ?ff]) simp_all
  then show ?thesis using assms by (simp add: multiGet_def)
qed

lemma multiGet_in_order_witness:
  "\<exists>s2. multiGet (scripted_world (reply_wire (RArray [RBulk ''v'']))) ''MGET'' [AString ''k''] (routed_cluster, (5, []))
     = Ret ((RArray [RBulk ''v''], None), s2)"
proof -
  let ?w = "scripted_world (reply_wire (RArray [RBulk ''v'']))"
  have net: "w_net ?w = scripted_net (reply_wire (RArray [RBulk ''v'']))" by (simp add: scripted_world_def)
  let ?t = "\<lparr>mt_node = 0, mt_slot = hash ''k'', mt_cmd = ''MGET'', mt_args = [AString ''k'']\<rparr>"
  have tasks: "get_tasks (net_float (w_net ?w)) (fst (routed_cluster, (5, []))) ''MGET'' [AString ''k''] [] [] = Inr ([?t], [0])"
    by (simp add: add_task_def key_def Let_def routed_cluster_def)
  have order: "env_call (w_perm ?w (length [?t])) (routed_cluster, (5, [])) = ([0], (routed_cluster, (5, [])))"
    by (simp add: env_call_def scripted_world_def)
  have "heap routed_cluster ! 0 = sample_node []" by (simp add: routed_cluster_def sample_cluster_inv)
  then obtain s2 where "node_call 0 (node_do (w_net ?w) ''MGET'' [AString ''k'']) (routed_cluster, (5, []))
      = ((RArray [RBulk ''v''], None), s2)"
    using scripted_call [of "RArray [RBulk ''v'']" "''MGET''" "[AString ''k'']" routed_cluster 0 "(5, [])"] net
    by (auto simp: sendable_def small_def arg_bytes_def)
  then have "run_get_tasks ?w [?t] [0] (replicate (length [?t]) (None, None)) (routed_cluster, (5, []))
      = (map (\<lambda>t. (Some (map (\<lambda>_. RBulk ''v'') (mt_args t)), None)) [?t], s2)"
    by (simp add: handleGetTask_def Values_def)
  from multiGet_in_order [OF tasks order this] show ?thesis unfolding list.map by (rule exI)
qed

text \<open>\<open>MGET\<close> panics on a short reply: the test meant to catch it compares a length with \<open>< 0\<close>, so when
  a node answers a task with fewer values than the task has keys, and no earlier value is missing,
  the goroutine of the caller panics.\<close>

theorem multiGet_short_reply_panics:
  assumes "get_tasks (net_float (w_net w)) (fst s) cmd [a] [] [] = Inr (tasks, index)"
    "env_call (w_perm w (length tasks)) s = (order, s1)"
    "run_get_tasks w tasks order (replicate (length tasks) (None, None)) s1 = ([(Some [], None)], s2)"
  shows "\<exists>m. multiGet w cmd [a] s = Panic m"
proof -
  obtain j t where "add_task (net_float (w_net w)) (fst s) ''multiGet'' cmd a [a] [] = Inr (j, t)" "index = [j]"
    using assms(1) by (auto split: sum.splits)
  then have "index = [0]" by (auto simp: add_task_def Let_def split: sum.splits option.splits)
  then show ?thesis using assms by (simp add: multiGet_def)
qed

lemma multiGet_short_reply_panics_witness:
  "\<exists>m. multiGet (scripted_world (reply_wire (RArray []))) ''MGET'' [AString ''k''] (routed_cluster, (5, [])) = Panic m"
proof -
  let ?w = "scripted_world (reply_wire (RArray []))"
  have net: "w_net ?w = scripted_net (reply_wire (RArray []))" by (simp add: scripted_world_def)
  let ?t = "\<lparr>mt_node = 0, mt_slot = hash ''k'', mt_cmd = ''MGET'', mt_args = [AString ''k'']\<rparr>"
  have tasks: "get_tasks (net_float (w_net ?w)) (fst (routed_cluster, (5, []))) ''MGET'' [AString ''k''] [] [] = Inr ([?t], [0])"
    by (simp add: add_task_def key_def Let_def routed_cluster_def)
  have order: "env_call (w_perm ?w (length [?t])) (routed_cluster, (5, [])) = ([0], (routed_cluster, (5, [])))"
    by (simp add: env_call_def scripted_world_def)
  have "heap routed_cluster ! 0 = sample_node []" by (simp add: routed_cluster_def sample_cluster_inv)
  then obtain s2 where "node_call 0 (node_do (w_net ?w) ''MGET'' [AString ''k'']) (routed_cluster, (5, []))
      = ((RArray [], None), s2)"
    using scripted_call [of "RArray []" "''MGET''" "[AString ''k'']" routed_cluster 0 "(5, [])"] net
    by (auto simp: sendable_def small_def arg_bytes_def)
  then have "run_get_tasks ?w [?t] [0] (replicate (length [?t]) (None, None)) (routed_cluster, (5, []))
      = ([(Some [], None)], s2)"
    by (simp add: handleGetTask_def Values_def)
  from multiGet_short_reply_panics [OF tasks order this] show ?thesis by auto
qed

end
