(* ===== verification/Cluster_Do.thy ===== *)
theory Cluster_Do
  imports Cluster_Multi Cluster_Update
begin

text \<open>
  The commands of a cluster (\<open>utils/rediscluster/cluster.go\<close>: \<open>Do\<close> and \<open>SlaveDo\<close>). A result is \<open>None\<close>
  when the loop that follows redirections does not return, and a \<open>Panic\<close> where the code panics.
\<close>

definition Do :: "('e, 'r, 'w) world \<Rightarrow> bytes \<Rightarrow> arg list \<Rightarrow> ('e, 'r, 'w) cst
    \<Rightarrow> (result \<times> ('e, 'r, 'w) cst) outcome option" where
  "Do w cmd args s =
     (if args = [] then Some (Ret ((RNil, Some (Formatted ''Do: no key found in args'')), s))
      else if cmd = ''MSET'' \<or> cmd = ''MSETNX'' then multiSet w cmd args s
      else if cmd = ''MGET'' then Some (multiGet w cmd args s)
      else case getNodeByKey (net_float (w_net w)) (hd args) (fst s) of
          Inl e \<Rightarrow> Some (Ret ((RNil, Some (Formatted (''Do->cluster.getNodeByKey() '' @ Error e))), s))
        | Inr p \<Rightarrow>
            bind_run (if cmd = ''RPUSH''
              then Some (case doRpushExpire (w_net w) cmd args (heap (fst s) ! p) (snd s) of
                  Panic m \<Rightarrow> Panic m
                | Ret (r, n, e) \<Rightarrow> Ret (node_call p (\<lambda>_ _. (r, n, e)) s))
              else Some (Ret (node_call p (node_do (w_net w) cmd args) s))) (\<lambda>((reply, err), s).
            case err of
              Some e \<Rightarrow> Some (Ret ((RNil, Some (Formatted (''Do->node.do('' @ cmd @ '') '' @ Error e))), s))
            | None \<Rightarrow> follow w p cmd args reply s))"

text \<open>The node a slave command goes to: a slave, or the master when there is none; then the update
  routine is informed by a goroutine of its own, here at once.\<close>

definition slave_target :: "('e, 'r, 'w) world \<Rightarrow> arg \<Rightarrow> ('e, 'r, 'w) cst
    \<Rightarrow> ((go_error + node_ptr) \<times> ('e, 'r, 'w) cst) outcome" where
  "slave_target w arg s = bind_outcome (getAnRandomSlaveNodeByKey w arg s) (\<lambda>(r, s). Ret (case r of
     Inr p \<Rightarrow> (Inr p, s)
   | Inl _ \<Rightarrow> (let s = UpdateSlotsByRandomMasterNode w s in (getNodeByKey (net_float (w_net w)) arg (fst s), s))))"

definition slave_err :: "string \<Rightarrow> go_error \<Rightarrow> result" where
  "slave_err f e = (RNil, Some (Formatted (''SlaveDo->'' @ f @ '' '' @ Error e)))"

text \<open>The exchange over a connection: a slave is sent \<open>READONLY\<close> before a \<open>GET\<close>, in the same write.
  \<open>ro\<close> says whether, and the left result is what \<open>SlaveDo\<close> returns after shutting the connection down.\<close>

definition slave_talk :: "('e, 'r, 'w) net \<Rightarrow> bool \<Rightarrow> bytes \<Rightarrow> arg list \<Rightarrow> ('r, 'w) redis_conn \<Rightarrow> 'e
    \<Rightarrow> (result + reply) \<times> ('r, 'w) redis_conn \<times> 'e" where
  "slave_talk net ro cmd args c e = (case (if ro then send net ''READONLY'' [] c e else (None, c, e)) of
       (Some err, c, e) \<Rightarrow> (Inl (slave_err ''node.send->READONLY()'' err), c, e)
     | (None, c, e) \<Rightarrow> (case send net cmd args c e of
       (Some err, c, e) \<Rightarrow> (Inl (slave_err (''conn.send('' @ cmd @ '')'') err), c, e)
     | (None, c, e) \<Rightarrow> (case flush_conn net c e of
       (Some err, c, e) \<Rightarrow> (Inl (slave_err (''conn.flush('' @ cmd @ '')'') err), c, e)
     | (None, c, e) \<Rightarrow> (case (if ro then receive net c e else (Inr RNil, c, e)) of
       (Inl err, c, e) \<Rightarrow> (Inl (slave_err ''node.receive->READONLY()'' err), c, e)
     | (Inr ok, c, e) \<Rightarrow>
       if checkReply ok \<noteq> kRespOK
       then (Inl (RNil, Some (Formatted ''SlaveDo->node.receive->READONLY() :[READONLY command] -> Reply is not OK.'')), c, e)
       else (case receive net c e of
         (Inl err, c, e) \<Rightarrow> (Inl (slave_err ''node.receive->READONLY()'' err), c, e)
       | (Inr reply, c, e) \<Rightarrow> (Inr reply, c, e))))))"

definition slave_exchange :: "('e, 'r, 'w) net \<Rightarrow> bytes \<Rightarrow> arg list \<Rightarrow> ('r, 'w) redis_node \<Rightarrow> 'e
    \<Rightarrow> result \<times> ('r, 'w) redis_node \<times> 'e" where
  "slave_exchange net cmd args node e = (case getConn net node e of
     (Inl err, node, e) \<Rightarrow> (slave_err ''node.getConn()'' err, node, e)
   | (Inr c, node, e) \<Rightarrow>
       (case slave_talk net (cmd = ''GET'' \<and> NodeType node = SLAVE_NODE) cmd args c e of
         (Inl res, c, e) \<Rightarrow> (res, node, conn_shutdown net c e)
       | (Inr reply, c, e) \<Rightarrow> (case releaseConn net c node e of (node, e) \<Rightarrow> ((reply, None), node, e))))"

definition SlaveDo :: "('e, 'r, 'w) world \<Rightarrow> bytes \<Rightarrow> arg list \<Rightarrow> ('e, 'r, 'w) cst
    \<Rightarrow> (result \<times> ('e, 'r, 'w) cst) outcome option" where
  "SlaveDo w cmd args s =
     (if args = [] then Some (Ret ((RNil, Some (Formatted ''Do: no key found in args'')), s))
      else if cmd = ''MSET'' \<or> cmd = ''MSETNX'' then multiSet w cmd args s
      else if cmd = ''MGET'' then Some (multiGet w cmd args s)
      else bind_run (Some (slave_target w (hd args) s)) (\<lambda>(t, s). case t of
          Inl e \<Rightarrow> Some (Ret ((RNil, Some (Formatted (''SlaveDo->cluster.getNodeByKey() '' @ Error e))), s))
        | Inr p \<Rightarrow> (case node_call p (slave_exchange (w_net w) cmd args) s of
            ((reply, Some err), s) \<Rightarrow> Some (Ret ((reply, Some err), s))
          | ((reply, None), s) \<Rightarrow> follow w p cmd args reply s)))"

section \<open>The cluster as a state machine\<close>

lemma slot_table_distinct:
  assumes "slot_table pf rs (n, sl, sv) = Ret (Some (n', sl', sv'))" "distinct (map fst sl)"
  shows "distinct (map fst sl')"
  using assms
proof (induction rs arbitrary: n sl sv)
  case (Cons r rs)
  obtain n1 sl1 sv1 where 1: "slot_entry pf r (n, sl, sv) = Ret (Some (n1, sl1, sv1))"
    "slot_table pf rs (n1, sl1, sv1) = Ret (Some (n', sl', sv'))"
    using Cons.prems(1) by (auto simp: bind_outcome_Ret_iff split: option.splits)
  have "\<exists>a x y. sl1 = add_range a x y sl"
    using 1(1) by (auto simp: slot_entry_def bind_outcome_Ret_iff Let_def split: prod.splits option.splits if_splits)
  then have "distinct (map fst sl1)" using Cons.prems(2) by (auto simp: add_range_def distinct_update)
  then show ?case using Cons.IH 1(2) by blast
qed simp

lemma Update_inv:
  assumes "iter_law w" "cluster_inv (fst s)" "Update w q s = Ret (r, s')"
  shows "cluster_inv (fst s')"
proof (cases q)
  case None
  then show ?thesis using assms by (simp add: Update_def)
next
  case (Some p)
  obtain reply err s1 where c: "node_call p (node_do (w_net w) ''CLUSTER'' [AString ''SLOTS'']) s = ((reply, err), s1)"
    by (metis surj_pair)
  have i: "cluster_inv (fst s1)"
    by (rule cluster_inv_same_routes [OF assms(2) node_call_same [OF node_do_identity c]])
  obtain v ve where V: "Values reply err = (v, ve)" by (metis surj_pair)
  let ?info = "case v of None \<Rightarrow> [] | Some l \<Rightarrow> l"
  have eq: "Update w q s = (case ve of Some e \<Rightarrow> Ret (Some e, s1) | None \<Rightarrow>
      bind_outcome (slot_table (w_parse_float w) ?info (0, [], [])) (\<lambda>r. case r of
        None \<Rightarrow> Ret (Some (Formatted (''update: '' @ address (heap (fst s1) ! p) @ '' invalid response'')), s1)
      | Some (nslots, sl, sv) \<Rightarrow> if nslots \<noteq> int kClusterSlots
          then Ret (Some (Formatted (''update: '' @ address (heap (fst s1) ! p) @ '' slots not full covered'')), s1)
          else bind_outcome (install_table w sl sv s1) (\<lambda>s. Ret (None, s))))"
    using Some c V by (cases ve) (simp_all add: Update_def Let_def)
  show ?thesis
  proof (cases ve)
    case None
    obtain t where t: "slot_table (w_parse_float w) ?info (0, [], []) = Ret t"
      using assms(3) eq None by (cases "slot_table (w_parse_float w) ?info (0, [], [])") auto
    show ?thesis
    proof (cases t)
      case (Some acc)
      obtain n sl sv where acc: "acc = (n, sl, sv)" by (metis surj_pair)
      have d: "distinct (map fst sl)" using slot_table_distinct [OF t [unfolded Some acc]] by simp
      show ?thesis
      proof (cases "n = int kClusterSlots")
        case True
        then have "install_table w sl sv s1 = Ret s'"
          using assms(3) eq None t Some acc by (auto simp: bind_outcome_Ret_iff)
        then show ?thesis by (rule install_table_spec(1) [OF assms(1) d i])
      qed (use assms(3) eq None t Some acc i in simp)
    qed (use assms(3) eq None t i in simp)
  qed (use assms(3) eq i in simp)
qed

lemma handleUpdate_inv:
  assumes "iter_law w" "cluster_inv (fst s)" "handleUpdate w s = Ret s'"
  shows "cluster_inv (fst s')"
proof (cases "updateList (fst s)")
  case Nil
  then show ?thesis using assms by (simp add: handleUpdate_def)
next
  case (Cons m rest)
  have i: "cluster_inv ((fst s)\<lparr>updateList := rest\<rparr>)"
    using assms(2) Cons by (auto simp: cluster_inv_def)
  then show ?thesis
    using assms(3) Cons Update_inv [OF assms(1), of "((fst s)\<lparr>updateList := rest\<rparr>, snd s)"]
    by (auto simp: handleUpdate_def Let_def bind_outcome_Ret_iff split: prod.splits if_splits)
qed

lemma heartbeat_same:
  assumes "cluster_inv (fst s)"
  shows "same_routes (fst s) (fst (UpdateSlotsByRandomMasterNode w s))"
proof -
  obtain pm s1 where 1: "env_call (w_perm w (length (nodes (fst s)))) s = (pm, s1)" by (metis surj_pair)
  have f1: "fst s1 = fst s" by (rule env_call_same [OF 1])
  obtain ns s2 where 2: "env_call (map_range w (nodes (fst s1))) s1 = (ns, s2)" by (metis surj_pair)
  have f2: "fst s2 = fst s" using env_call_same [OF 2] f1 by simp
  have sub: "set ns \<subseteq> set (nodes (fst s))"
    using 2 f1 map_range_sub by (fastforce simp: env_call_def split: prod.splits)
  let ?q = "map_option snd (range_until (\<lambda>x. fst x = 0) None (zip pm (map snd ns)))"
  have "p < length (heap (fst s2))" if q: "?q = Some p" for p
  proof -
    obtain y where "range_until (\<lambda>x. fst x = 0) None (zip pm (map snd ns)) = Some y" "snd y = p" using q by auto
    then have "y \<in> set (zip pm (map snd ns))" using range_until_in by fastforce
    then have "snd y \<in> set (map snd ns)" by (metis prod.collapse set_zip_rightD)
    then have "p \<in> snd ` set ns" using \<open>snd y = p\<close> by simp
    then show ?thesis
      using sub assms maps_ok_valid [of "heap (fst s)" "nodes (fst s)" "slaveNodes (fst s)" p] f2
      by (auto simp: cluster_inv_def)
  qed
  from Inform_same [of ?q s2 w, OF this] show ?thesis
    using 1 2 f1 f2 by (simp add: UpdateSlotsByRandomMasterNode_def Let_def)
qed

lemma shutdown_all_facts:
  "map address (heap (fst (shutdown_all net qs s))) = map address (heap (fst s)) \<and>
     routes (fst (shutdown_all net qs s)) = routes (fst s) \<and> updateList (fst (shutdown_all net qs s)) = updateList (fst s) \<and>
     (\<forall>p < length (heap (fst s)). closed (heap (fst (shutdown_all net qs s)) ! p) \<longleftrightarrow> closed (heap (fst s) ! p) \<or> p \<in> set qs)"
proof (induction qs arbitrary: s)
  case (Cons q qs)
  let ?s = "snd (node_call q (\<lambda>n e. ((), node_shutdown net n e)) s)"
  have h: "heap (fst ?s) = (heap (fst s))[q := (heap (fst s) ! q)\<lparr>conns := [], closed := True\<rparr>]"
    by (simp add: shutdown_call)
  have "map address (heap (fst ?s)) = map address (heap (fst s))"
    unfolding h by (rule nth_equalityI) (auto simp: nth_update)
  moreover have "routes (fst ?s) = routes (fst s)" "updateList (fst ?s) = updateList (fst s)"
    by (simp_all add: shutdown_call routes_def)
  moreover have "\<forall>p < length (heap (fst s)). closed (heap (fst ?s) ! p) \<longleftrightarrow> closed (heap (fst s) ! p) \<or> p = q"
    unfolding h by (auto simp: nth_update)
  ultimately show ?case
    using Cons.IH [of ?s] h by auto
qed simp

lemma Close_facts:
  assumes "iter_law w" "cluster_inv (fst s)"
  shows "cluster_inv (fst (Close w s))" "nodes (fst (Close w s)) = []" "cl_closed (fst (Close w s))"
    "slaveNodes (fst (Close w s)) = slaveNodes (fst s)" "map address (heap (fst (Close w s))) = map address (heap (fst s))"
    "p < length (heap (fst s)) \<Longrightarrow>
       closed (heap (fst (Close w s)) ! p) \<longleftrightarrow> closed (heap (fst s) ! p) \<or> p \<in> snd ` set (nodes (fst s))"
proof -
  obtain ns s1 where 1: "env_call (map_range w (nodes (fst s))) s = (ns, s1)" by (metis surj_pair)
  have f: "fst s1 = fst s" by (rule env_call_same [OF 1])
  have maps: "maps_ok (heap (fst s)) (nodes (fst s)) (slaveNodes (fst s))" using assms(2) by (simp add: cluster_inv_def)
  have "set ns = set (nodes (fst s))"
    using map_range_set [OF assms(1)] maps 1 by (fastforce simp: env_call_def maps_ok_def node_map_ok_def split: prod.splits)
  then have ns: "set (map snd ns) = snd ` set (nodes (fst s))" by simp
  define s2 where "s2 = shutdown_all (w_net w) (map snd ns) s1"
  note S = shutdown_all_facts [of "w_net w" "map snd ns" s1, folded s2_def, unfolded f ns]
  have c: "fst (Close w s) = (fst s2)\<lparr>nodes := [], cl_closed := True\<rparr>"
    using 1 by (simp add: Close_def s2_def Let_def)
  have len: "length (heap (fst s2)) = length (heap (fst s))" using S by (metis length_map)
  show "nodes (fst (Close w s)) = []" "cl_closed (fst (Close w s))" "slaveNodes (fst (Close w s)) = slaveNodes (fst s)"
    "map address (heap (fst (Close w s))) = map address (heap (fst s))"
    using S by (simp_all add: c routes_def)
  show "p < length (heap (fst s)) \<Longrightarrow>
       closed (heap (fst (Close w s)) ! p) \<longleftrightarrow> closed (heap (fst s) ! p) \<or> p \<in> snd ` set (nodes (fst s))"
    using S by (simp add: c)
  have e: "extends (heap (fst s)) (heap (fst s2))"
    using S len by (auto simp: extends_def list_eq_iff_nth_eq)
  have "\<not> closed (heap (fst s2) ! p)" if p: "p \<in> snd ` set (slaveNodes (fst s))" for p
  proof -
    have "p < length (heap (fst s))" "\<not> closed (heap (fst s) ! p)" "p \<notin> snd ` set (nodes (fst s))"
      using maps_ok_valid [OF maps, of p] maps p by (auto simp: maps_ok_def)
    then show ?thesis using S by blast
  qed
  moreover have "node_map_ok (heap (fst s2)) (slaveNodes (fst s))"
    using maps by (intro node_map_ok_extends [OF _ e]) (simp add: maps_ok_def)
  ultimately have "maps_ok (heap (fst s2)) [] (slaveNodes (fst s))"
    by (simp add: maps_ok_def) (simp add: node_map_ok_def)
  then show "cluster_inv (fst (Close w s))"
    using assms(2) S len by (simp add: c cluster_inv_def routes_def)
qed

text \<open>Commands change no route.\<close>

lemma run_set_tasks_same:
  "cluster_inv (fst s) \<Longrightarrow> \<forall>i \<in> set order. mt_node (tasks ! i) < length (heap (fst s)) \<Longrightarrow>
     run_set_tasks w tasks order rs s = Some (Ret (r, s')) \<Longrightarrow> same_routes (fst s) (fst s')"
proof (induction order arbitrary: rs s)
  case (Cons i order)
  let ?t = "tasks ! i"
  obtain x s1 where 1: "handleSetTask w ?t s = Some (Ret (x, s1))" "run_set_tasks w tasks order (rs[i := x]) s1 = Some (Ret (r, s'))"
    using Cons.prems(3) by (auto simp: bind_run_def split: option.splits outcome.splits)
  obtain reply err s0 where c: "node_call (mt_node ?t) (node_do (w_net w) (mt_cmd ?t) (mt_args ?t)) s = ((reply, err), s0)"
    by (metis surj_pair)
  have s0: "same_routes (fst s) (fst s0)" by (rule node_call_same [OF node_do_identity c])
  have p: "mt_node ?t < length (heap (fst s0))" using same_routes_length [OF s0] Cons.prems(2) by simp
  have a: "same_routes (fst s) (fst s1)"
  proof (cases err)
    case None
    then have "follow w (mt_node ?t) (mt_cmd ?t) (mt_args ?t) reply s0 = Some (Ret (x, s1))"
      using 1(1) c by (simp add: handleSetTask_def)
    from same_routes_trans [OF s0 follow_same [OF cluster_inv_same_routes [OF Cons.prems(1) s0] p this]] show ?thesis .
  next
    case (Some e)
    then show ?thesis using 1(1) c s0 by (simp add: handleSetTask_def)
  qed
  have "same_routes (fst s1) (fst s')"
    using Cons.IH [OF cluster_inv_same_routes [OF Cons.prems(1) a] _ 1(2)] same_routes_length [OF a] Cons.prems(2) by simp
  then show ?case by (rule same_routes_trans [OF a])
qed simp

lemma run_get_tasks_same:
  "run_get_tasks w tasks order rs s = (r, s') \<Longrightarrow> same_routes (fst s) (fst s')"
proof (induction order arbitrary: rs s)
  case (Cons i order)
  obtain x s1 where 1: "handleGetTask w (tasks ! i) s = (x, s1)" by (metis surj_pair)
  have "same_routes (fst s) (fst s1)"
    using 1 node_call_same [OF node_do_identity, of "mt_node (tasks ! i)" "w_net w"]
    by (auto simp: handleGetTask_def split: prod.splits)
  moreover have "same_routes (fst s1) (fst s')"
    using Cons.IH [of "rs[i := x]" s1] Cons.prems 1 by simp
  ultimately show ?case by (rule same_routes_trans)
qed simp

text \<open>The permutation of a list's indices names only its elements.\<close>

definition perm_law :: "('e, 'r, 'w) world \<Rightarrow> bool" where
  "perm_law w \<longleftrightarrow> (\<forall>n e. set (fst (w_perm w n e)) = {..<n})"

lemma perm_order: "perm_law w \<Longrightarrow> env_call (w_perm w n) s = (order, s1) \<Longrightarrow> set order = {..<n} \<and> fst s1 = fst s"
  by (auto simp: env_call_def perm_law_def split: prod.splits) (metis fst_conv lessThan_iff)+

lemma multiSet_same:
  assumes "perm_law w" "cluster_inv (fst s)" "multiSet w cmd args s = Some (Ret (r, s'))"
  shows "same_routes (fst s) (fst s')"
proof (cases "odd (length args)")
  case True
  then show ?thesis using assms(3) by (simp add: multiSet_def)
next
  case False
  show ?thesis
  proof (cases "set_tasks (net_float (w_net w)) (fst s) cmd args []")
    case (Inl e)
    then show ?thesis using assms(3) False by (simp add: multiSet_def)
  next
    case (Inr tasks)
    obtain order s1 where o: "env_call (w_perm w (length tasks)) s = (order, s1)" by (metis surj_pair)
    note P = perm_order [OF assms(1) o]
    obtain rs s2 where 1: "run_set_tasks w tasks order (replicate (length tasks) (RNil, None)) s1 = Some (Ret (rs, s2))"
      using assms(3) False Inr o by (auto simp: multiSet_def bind_run_def split: option.splits outcome.splits)
    have s2: "fst s' = fst s2"
      using assms(3) False Inr o 1 by (auto simp: multiSet_def bind_run_def split: option.splits)
    have "mt_node (tasks ! i) < length (heap (fst s1))" if "i \<in> set order" for i
    proof -
      have "tasks ! i \<in> set tasks" using that P by simp
      then have "slots (fst s) (mt_slot (tasks ! i)) = Some (mt_node (tasks ! i))"
        using set_tasks_grouped [OF grouped_Nil Inr] by (auto simp: grouped_def)
      then show ?thesis using assms(2) P by (auto simp: cluster_inv_def)
    qed
    then have "same_routes (fst s1) (fst s2)" using run_set_tasks_same [OF _ _ 1] assms(2) P by simp
    then show ?thesis using P s2 by simp
  qed
qed

lemma multiGet_same:
  assumes "multiGet w cmd args s = Ret (r, s')"
  shows "same_routes (fst s) (fst s')"
proof (cases "get_tasks (net_float (w_net w)) (fst s) cmd args [] []")
  case (Inl e)
  then show ?thesis using assms by (simp add: multiGet_def)
next
  case (Inr ti)
  obtain tasks index where ti: "ti = (tasks, index)" by (metis surj_pair)
  obtain order s1 where o: "env_call (w_perm w (length tasks)) s = (order, s1)" by (metis surj_pair)
  obtain rs s2 where 1: "run_get_tasks w tasks order (replicate (length tasks) (None, None)) s1 = (rs, s2)" by (metis surj_pair)
  have "fst s' = fst s2"
    using assms Inr ti o 1 by (cases "collect index rs") (auto simp: multiGet_def split: sum.splits)
  then show ?thesis using run_get_tasks_same [OF 1] env_call_same [OF o] by simp
qed

lemma doRpushExpire_identity:
  "doRpushExpire net cmd args n e = Ret (r, n', e') \<Longrightarrow> identity n' = identity n"
  by (auto simp: doRpushExpire_def Let_def dest!: getConn_identity releaseConn_identity
      split: prod.splits sum.splits option.splits if_splits)

lemma getNodeByKey_valid: "cluster_inv cl \<Longrightarrow> getNodeByKey ff a cl = Inr p \<Longrightarrow> p < length (heap cl)"
  by (auto simp: getNodeByKey_def cluster_inv_def Let_def split: sum.splits if_splits option.splits)

lemma follow_result_same:
  assumes "cluster_inv (fst s)" "p < length (heap (fst s))" "same_routes (fst s) (fst s0)"
    "follow w p cmd args reply s0 = Some (Ret (r, s'))"
  shows "same_routes (fst s) (fst s')"
  using same_routes_trans [OF assms(3) follow_same [OF cluster_inv_same_routes [OF assms(1,3)] _ assms(4)]]
    assms(2) same_routes_length [OF assms(3)] by simp

text \<open>The first exchange of \<open>Do\<close>.\<close>

definition first_call :: "('e, 'r, 'w) world \<Rightarrow> bytes \<Rightarrow> arg list \<Rightarrow> node_ptr \<Rightarrow> ('e, 'r, 'w) cst
    \<Rightarrow> (result \<times> ('e, 'r, 'w) cst) outcome" where
  "first_call w cmd args p s =
     (if cmd = ''RPUSH''
      then case doRpushExpire (w_net w) cmd args (heap (fst s) ! p) (snd s) of
          Panic m \<Rightarrow> Panic m | Ret (r, n, e) \<Rightarrow> Ret (node_call p (\<lambda>_ _. (r, n, e)) s)
      else Ret (node_call p (node_do (w_net w) cmd args) s))"

lemma first_call_same:
  assumes "first_call w cmd args p s = Ret (r, s')"
  shows "same_routes (fst s) (fst s')"
proof (cases "cmd = ''RPUSH''")
  case True
  then obtain q n e where d: "doRpushExpire (w_net w) cmd args (heap (fst s) ! p) (snd s) = Ret (q, n, e)"
      "s' = ((fst s)\<lparr>heap := (heap (fst s))[p := n]\<rparr>, e)"
    using assms by (auto simp: first_call_def node_call_def split: outcome.splits)
  have "map identity ((heap (fst s))[p := n]) = map identity (heap (fst s))"
    using doRpushExpire_identity [OF d(1)] by (intro nth_equalityI) (auto simp: nth_update)
  then show ?thesis by (simp add: d(2) same_routes_def routes_def)
next
  case False
  then show ?thesis
    using assms node_call_same [OF node_do_identity, of p "w_net w" cmd args s r s'] by (simp add: first_call_def)
qed

lemma Do_simple:
  assumes "args \<noteq> []" "cmd \<notin> {''MSET'', ''MSETNX'', ''MGET''}" "getNodeByKey (net_float (w_net w)) (hd args) (fst s) = Inr p"
  shows "Do w cmd args s = bind_run (Some (first_call w cmd args p s)) (\<lambda>((reply, err), s). case err of
      Some e \<Rightarrow> Some (Ret ((RNil, Some (Formatted (''Do->node.do('' @ cmd @ '') '' @ Error e))), s))
    | None \<Rightarrow> follow w p cmd args reply s)"
  using assms by (auto simp: Do_def first_call_def)

lemma Do_same:
  assumes "perm_law w" "cluster_inv (fst s)" "Do w cmd args s = Some (Ret (r, s'))"
  shows "same_routes (fst s) (fst s')"
proof (cases "args = [] \<or> cmd \<in> {''MSET'', ''MSETNX'', ''MGET''}")
  case True
  then show ?thesis
    using assms(3) multiSet_same [OF assms(1,2), of cmd args r s'] multiGet_same [of w cmd args s r s']
    by (auto simp: Do_def split: if_splits)
next
  case False
  show ?thesis
  proof (cases "getNodeByKey (net_float (w_net w)) (hd args) (fst s)")
    case (Inl e)
    then show ?thesis using assms(3) False by (simp add: Do_def)
  next
    case (Inr p)
    then obtain reply err s0 where c: "first_call w cmd args p s = Ret ((reply, err), s0)"
      using assms(3) False Do_simple [of args cmd w s p]
      by (cases "first_call w cmd args p s") (auto simp: bind_run_def)
    have s0: "same_routes (fst s) (fst s0)" by (rule first_call_same [OF c])
    show ?thesis
    proof (cases err)
      case None
      then have "follow w p cmd args reply s0 = Some (Ret (r, s'))"
        using assms(3) False Inr Do_simple [of args cmd w s p] c by (simp add: bind_run_def)
      then show ?thesis by (rule follow_result_same [OF assms(2) getNodeByKey_valid [OF assms(2) Inr] s0])
    next
      case (Some e)
      then show ?thesis using assms(3) False Inr Do_simple [of args cmd w s p] c s0 by (auto simp: bind_run_def)
    qed
  qed
qed

lemma slave_exchange_identity: "keeps_identity (slave_exchange net cmd args)"
  unfolding keeps_identity_def
  by (auto simp: slave_exchange_def Let_def dest!: getConn_identity releaseConn_identity
      split: prod.splits sum.splits option.splits if_splits)

lemma random_slave_valid:
  assumes "cluster_inv (fst s)" "getAnRandomSlaveNodeByKey w a s = Ret (q, s1)"
  shows "fst s1 = fst s" "q = Inr p \<Longrightarrow> p < length (heap (fst s))"
proof -
  have "fst s1 = fst s \<and> (\<forall>p. q = Inr p \<longrightarrow> p < length (heap (fst s)))"
  proof (cases "key (net_float (w_net w)) a")
    case (Inr k)
    let ?ns = "slaveslots (fst s) (hash k)"
    obtain i s2 where i: "(if length ?ns = 1 then (0, s) else env_call (w_uint32n w (length ?ns)) s) = (i, s2)" by (metis surj_pair)
    have f: "fst s2 = fst s"
      using i env_call_same [of "w_uint32n w (length ?ns)" s i s2] by (auto split: if_splits)
    have "\<forall>q \<in> set ?ns. q < length (heap (fst s))" using assms(1) unfolding cluster_inv_def by blast
    then have "\<forall>j < length ?ns. ?ns ! j < length (heap (fst s))" by simp
    then show ?thesis
      using assms(2) Inr i f by (auto simp: getAnRandomSlaveNodeByKey_def Let_def split: if_splits)
  qed (use assms(2) in \<open>auto simp: getAnRandomSlaveNodeByKey_def\<close>)
  then show "fst s1 = fst s" "q = Inr p \<Longrightarrow> p < length (heap (fst s))" by auto
qed

lemma slave_target_same:
  assumes "cluster_inv (fst s)" "slave_target w a s = Ret (t, s')"
  shows "same_routes (fst s) (fst s')" "t = Inr p \<Longrightarrow> p < length (heap (fst s'))"
proof -
  obtain q s1 where 1: "getAnRandomSlaveNodeByKey w a s = Ret (q, s1)"
    using assms(2) by (auto simp: slave_target_def bind_outcome_Ret_iff)
  note f = random_slave_valid [OF assms(1) 1]
  have h: "same_routes (fst s) (fst (UpdateSlotsByRandomMasterNode w s1))"
    using heartbeat_same [of s1 w] assms(1) f(1) by simp
  show "same_routes (fst s) (fst s')"
    using assms(2) 1 f h by (auto simp: slave_target_def Let_def split: sum.splits)
  show "t = Inr p \<Longrightarrow> p < length (heap (fst s'))"
    using assms(2) 1 f h getNodeByKey_valid [OF cluster_inv_same_routes [OF assms(1) h]]
    by (auto simp: slave_target_def Let_def split: sum.splits)
qed

lemma SlaveDo_same:
  assumes "perm_law w" "cluster_inv (fst s)" "SlaveDo w cmd args s = Some (Ret (r, s'))"
  shows "same_routes (fst s) (fst s')"
proof (cases "args = [] \<or> cmd \<in> {''MSET'', ''MSETNX'', ''MGET''}")
  case True
  then show ?thesis
    using assms(3) multiSet_same [OF assms(1,2), of cmd args r s'] multiGet_same [of w cmd args s r s']
    by (auto simp: SlaveDo_def split: if_splits)
next
  case False
  then obtain t s0 where t: "slave_target w (hd args) s = Ret (t, s0)"
    using assms(3) by (auto simp: SlaveDo_def bind_run_def split: if_splits outcome.splits)
  have s0: "same_routes (fst s) (fst s0)" by (rule slave_target_same(1) [OF assms(2) t])
  show ?thesis
  proof (cases t)
    case (Inl e)
    then show ?thesis using assms(3) False t s0 by (auto simp: SlaveDo_def bind_run_def)
  next
    case (Inr p)
    obtain reply err s1 where c: "node_call p (slave_exchange (w_net w) cmd args) s0 = ((reply, err), s1)" by (metis surj_pair)
    have s1: "same_routes (fst s) (fst s1)"
      by (rule same_routes_trans [OF s0 node_call_same [OF slave_exchange_identity c]])
    show ?thesis
    proof (cases err)
      case None
      then have "follow w p cmd args reply s1 = Some (Ret (r, s'))"
        using assms(3) False t Inr c by (auto simp: SlaveDo_def bind_run_def)
      then show ?thesis
        using follow_result_same [OF assms(2) _ s1] slave_target_same(2) [OF assms(2) t Inr] same_routes_length [OF s0] by simp
    next
      case (Some e)
      then show ?thesis using assms(3) False t Inr c s1 by (auto simp: SlaveDo_def bind_run_def)
    qed
  qed
qed

end
