(* ===== verification/Cluster_Batch.thy ===== *)
theory Cluster_Batch
  imports Cluster_Do
begin

text \<open>
  Batches of commands (\<open>utils/rediscluster/batch.go\<close>): \<open>Put\<close> groups the commands by node, \<open>RunBatch\<close>
  sends the commands of each node at once and hands the replies out in the order of the \<open>Put\<close>s. The
  goroutines of the nodes run here one after the other, in an order the environment picks. Each node
  gives its replies in the order of its commands, which the loop of \<open>RunBatch\<close> relies on when it takes
  the first command left of a node.
\<close>

record node_command =
  nc_cmd :: bytes
  nc_args :: "arg list"
  nc_reply :: reply
  nc_err :: "go_error option"

record node_batch =
  nb_node :: node_ptr
  nb_master :: "node_ptr option"
  nb_cmds :: "node_command list"
  nb_err :: "go_error option"

record batch =
  bt_batches :: "node_batch list"
  bt_index :: "nat list"
  isSlaveOperate :: bool
  bt_numSeed :: "64 word"

definition NewBatch :: "64 word \<Rightarrow> batch" where
  "NewBatch seed = \<lparr>bt_batches = [], bt_index = [], isSlaveOperate = False, bt_numSeed = seed\<rparr>"

definition SetIsSlaveOperate :: "('e, 'r, 'w) world \<Rightarrow> batch \<Rightarrow> ('e, 'r, 'w) cst \<Rightarrow> batch \<times> ('e, 'r, 'w) cst" where
  "SetIsSlaveOperate w bat s = (case IsSlaveOperate w s of (b, s) \<Rightarrow> (bat\<lparr>isSlaveOperate := b\<rparr>, s))"

definition GetIsSlaveOperate :: "batch \<Rightarrow> bool" where
  "GetIsSlaveOperate bat = isSlaveOperate bat"

section \<open>Put\<close>

text \<open>The node of a command, and its master when the node is a slave. Without a slave the update routine
  is informed by a goroutine of its own, here at once.\<close>

definition put_target :: "('e, 'r, 'w) world \<Rightarrow> bool \<Rightarrow> 64 word \<Rightarrow> bytes \<Rightarrow> arg \<Rightarrow> ('e, 'r, 'w) cst
    \<Rightarrow> (go_error + node_ptr \<times> node_ptr option) \<times> ('e, 'r, 'w) cst" where
  "put_target w slave seed cmd a s =
     (let master = (\<lambda>s. (case getNodeByKey (net_float (w_net w)) a (fst s) of Inl e \<Rightarrow> Inl e | Inr p \<Rightarrow> Inr (p, None), s))
      in if ToUpper cmd = ''GET'' \<and> slave
         then case getAnSlaveNodeByNumSeed (net_float (w_net w)) a seed (fst s) of
             Inr q \<Rightarrow> (Inr q, s)
           | Inl _ \<Rightarrow> master (UpdateSlotsByRandomMasterNode w s)
         else master s)"

fun find_batch :: "node_ptr \<Rightarrow> node_batch list \<Rightarrow> nat" where
  "find_batch p [] = 0"
| "find_batch p (b # bs) = (if nb_node b = p then 0 else Suc (find_batch p bs))"

definition add_command :: "node_ptr \<Rightarrow> node_ptr option \<Rightarrow> bytes \<Rightarrow> arg list \<Rightarrow> batch \<Rightarrow> batch" where
  "add_command p m cmd args bat =
     (let c = \<lparr>nc_cmd = cmd, nc_args = args, nc_reply = RNil, nc_err = None\<rparr>; bs = bt_batches bat; i = find_batch p bs;
          bs' = (if i < length bs then bs[i := (bs ! i)\<lparr>nb_cmds := nb_cmds (bs ! i) @ [c]\<rparr>]
                 else bs @ [\<lparr>nb_node = p, nb_master = m, nb_cmds = [c], nb_err = None\<rparr>])
      in bat\<lparr>bt_batches := bs', bt_index := bt_index bat @ [i]\<rparr>)"

definition Put :: "('e, 'r, 'w) world \<Rightarrow> bool \<Rightarrow> bytes \<Rightarrow> arg list \<Rightarrow> batch \<Rightarrow> ('e, 'r, 'w) cst
    \<Rightarrow> (go_error option \<times> batch) \<times> ('e, 'r, 'w) cst" where
  "Put w slave cmd args bat s =
     (if args = [] then ((Some (Formatted ''Put: no key found in args''), bat), s)
      else if cmd = ''MGET'' \<or> cmd = ''MSET'' \<or> cmd = ''MSETNX''
      then ((Some (Formatted (''Put: '' @ cmd @ '' not supported'')), bat), s)
      else case put_target w slave (bt_numSeed bat) cmd (hd args) s of
          (Inl e, s) \<Rightarrow> ((Some (Formatted (''Put: '' @ Error e)), bat), s)
        | (Inr (p, m), s) \<Rightarrow> ((None, add_command p m cmd args bat), s))"

section \<open>The commands of a node\<close>

text \<open>A connection to the node, or to the master when the slave cannot be reached.\<close>

definition batch_conn :: "('e, 'r, 'w) world \<Rightarrow> node_batch \<Rightarrow> ('e, 'r, 'w) cst
    \<Rightarrow> (go_error + node_ptr \<times> ('r, 'w) redis_conn) \<times> ('e, 'r, 'w) cst" where
  "batch_conn w nb s = (case node_call (nb_node nb) (getConn (w_net w)) s of
     (Inr c, s) \<Rightarrow> (Inr (nb_node nb, c), s)
   | (Inl err, s) \<Rightarrow>
       let s = UpdateSlotsByRandomMasterNode w s
       in case nb_master nb of
           Some m \<Rightarrow>
             if NodeType (heap (fst s) ! nb_node nb) = SLAVE_NODE
             then (case node_call m (getConn (w_net w)) s of
                 (Inl err, s) \<Rightarrow> (Inl err, s) | (Inr c, s) \<Rightarrow> (Inr (m, c), s))
             else (Inl err, s)
         | None \<Rightarrow> (Inl err, s))"

fun send_commands :: "('e, 'r, 'w) net \<Rightarrow> node_command list \<Rightarrow> ('r, 'w) redis_conn \<Rightarrow> 'e
    \<Rightarrow> go_error option \<times> ('r, 'w) redis_conn \<times> 'e" where
  "send_commands net [] c e = (None, c, e)"
| "send_commands net (x # xs) c e = (case send net (nc_cmd x) (nc_args x) c e of
     (Some err, c, e) \<Rightarrow> (Some err, c, e)
   | (None, c, e) \<Rightarrow> send_commands net xs c e)"

text \<open>Everything that is sent before the first reply to a command is read; a slave also confirms
  \<open>READONLY\<close>.\<close>

definition batch_send :: "('e, 'r, 'w) net \<Rightarrow> bool \<Rightarrow> node_command list \<Rightarrow> ('r, 'w) redis_conn \<Rightarrow> 'e
    \<Rightarrow> go_error option \<times> ('r, 'w) redis_conn \<times> 'e" where
  "batch_send net ro cmds c e = (case (if ro then send net ''READONLY'' [] c e else (None, c, e)) of
     (Some err, c, e) \<Rightarrow> (Some err, c, e)
   | (None, c, e) \<Rightarrow> (case send_commands net cmds c e of
     (Some err, c, e) \<Rightarrow> (Some err, c, e)
   | (None, c, e) \<Rightarrow> (case flush_conn net c e of
     (Some err, c, e) \<Rightarrow> (Some err, c, e)
   | (None, c, e) \<Rightarrow> if \<not> ro then (None, c, e) else (case receive net c e of
     (Inl err, c, e) \<Rightarrow> (Some err, c, e)
   | (Inr ok, c, e) \<Rightarrow>
       if checkReply ok \<noteq> kRespOK then (Some (Formatted ''doBatch : [READONLY command] -> Reply is not OK.''), c, e)
       else (None, c, e)))))"

text \<open>What becomes of one reply.\<close>

definition batch_final :: "('e, 'r, 'w) world \<Rightarrow> node_ptr \<Rightarrow> bytes \<Rightarrow> arg list \<Rightarrow> reply \<Rightarrow> ('e, 'r, 'w) cst
    \<Rightarrow> (result \<times> ('e, 'r, 'w) cst) outcome" where
  "batch_final w p cmd args reply s = (case checkReply reply of
     kRespAsk \<Rightarrow> Ret (handleAsk w p (reply_msg reply) cmd args s)
   | kRespConnTimeout \<Rightarrow> handleConnTimeout w p cmd args s
   | kRespClusterDown \<Rightarrow> Ret ((reply, Some Cluster_Down_Error), s)
   | _ \<Rightarrow> Ret ((reply, None), s))"

definition batch_settle :: "('e, 'r, 'w) world \<Rightarrow> node_ptr \<Rightarrow> bytes \<Rightarrow> arg list \<Rightarrow> reply \<Rightarrow> ('e, 'r, 'w) cst
    \<Rightarrow> (result \<times> ('e, 'r, 'w) cst) outcome option" where
  "batch_settle w p cmd args reply s =
     (if checkReply reply = kRespMove
      then case move_loop w p cmd args reply s of
          None \<Rightarrow> None
        | Some ((reply, _), s) \<Rightarrow> Some (batch_final w p cmd args reply s)
      else Some (batch_final w p cmd args reply s))"

fun batch_receive :: "('e, 'r, 'w) world \<Rightarrow> node_ptr \<Rightarrow> node_command list \<Rightarrow> ('r, 'w) redis_conn \<Rightarrow> ('e, 'r, 'w) cst
    \<Rightarrow> ((go_error option \<times> node_command list \<times> ('r, 'w) redis_conn) \<times> ('e, 'r, 'w) cst) outcome option" where
  "batch_receive w p [] c s = Some (Ret ((None, [], c), s))"
| "batch_receive w p (x # xs) c s = (case receive (w_net w) c (snd s) of
     (Inl err, c, e) \<Rightarrow> Some (Ret ((Some err, x # xs, c), (fst s, e)))
   | (Inr reply, c, e) \<Rightarrow>
       bind_run (batch_settle w p (nc_cmd x) (nc_args x) reply (fst s, e)) (\<lambda>((reply, err), s).
       bind_run (batch_receive w p xs c s) (\<lambda>((berr, ys, c), s).
         Some (Ret ((berr, x\<lparr>nc_reply := reply, nc_err := err\<rparr> # ys, c), s)))))"

definition doBatch :: "('e, 'r, 'w) world \<Rightarrow> node_batch \<Rightarrow> ('e, 'r, 'w) cst
    \<Rightarrow> (node_batch \<times> ('e, 'r, 'w) cst) outcome option" where
  "doBatch w nb s = (case batch_conn w nb s of
     (Inl err, s) \<Rightarrow> Some (Ret (nb\<lparr>nb_err := Some err\<rparr>, s))
   | (Inr (p, c), s) \<Rightarrow>
       (case batch_send (w_net w) (NodeType (heap (fst s) ! p) = SLAVE_NODE) (nb_cmds nb) c (snd s) of
         (Some err, c, e) \<Rightarrow> Some (Ret (nb\<lparr>nb_err := Some err\<rparr>, (fst s, conn_shutdown (w_net w) c e)))
       | (None, c, e) \<Rightarrow> bind_run (batch_receive w p (nb_cmds nb) c (fst s, e)) (\<lambda>((berr, cmds, c), s). Some (Ret (case berr of
             Some err \<Rightarrow> (nb\<lparr>nb_cmds := cmds, nb_err := Some err\<rparr>, (fst s, conn_shutdown (w_net w) c (snd s)))
           | None \<Rightarrow> (nb\<lparr>nb_cmds := cmds\<rparr>, snd (node_call p (\<lambda>n e. ((), releaseConn (w_net w) c n e)) s)))))))"

section \<open>RunBatch\<close>

fun run_batches :: "('e, 'r, 'w) world \<Rightarrow> nat list \<Rightarrow> node_batch list \<Rightarrow> ('e, 'r, 'w) cst
    \<Rightarrow> (node_batch list \<times> ('e, 'r, 'w) cst) outcome option" where
  "run_batches w [] bs s = Some (Ret (bs, s))"
| "run_batches w (i # order) bs s =
     bind_run (doBatch w (bs ! i) s) (\<lambda>(nb, s). run_batches w order (bs[i := nb]) s)"

text \<open>The replies in the order of the \<open>Put\<close>s: every turn takes the first command left of its node.\<close>

fun batch_replies :: "('e, 'r, 'w) world \<Rightarrow> nat list \<Rightarrow> reply list \<Rightarrow> node_batch list \<Rightarrow> ('e, 'r, 'w) cst
    \<Rightarrow> ((reply list \<times> go_error option) \<times> node_batch list \<times> ('e, 'r, 'w) cst) outcome" where
  "batch_replies w [] acc bs s = Ret ((acc, None), bs, s)"
| "batch_replies w (i # is) acc bs s =
     (if length bs \<le> i then Panic ''index out of range'' else case nb_cmds (bs ! i) of
        [] \<Rightarrow> Panic ''index out of range''
      | c # cs \<Rightarrow>
          if checkReply (nc_reply c) = kRespClusterDown
          then Ret (([], Some Cluster_Down_Error), bs[i := (bs ! i)\<lparr>nb_cmds := c\<lparr>nc_reply := RNil\<rparr> # cs\<rparr>],
                 UpdateSlotsInfoByRandomNode w (nb_node (bs ! i)) s)
          else let failed = (nb_err (bs ! i) \<noteq> None)
               in batch_replies w is (acc @ [if failed then RNil else nc_reply c]) (bs[i := (bs ! i)\<lparr>nb_cmds := cs\<rparr>])
                    (if failed then UpdateSlotsInfoByRandomNode w (nb_node (bs ! i)) s else s))"

definition RunBatch :: "('e, 'r, 'w) world \<Rightarrow> batch \<Rightarrow> ('e, 'r, 'w) cst
    \<Rightarrow> ((reply list \<times> go_error option) \<times> batch \<times> ('e, 'r, 'w) cst) outcome option" where
  "RunBatch w bat s = (case env_call (w_perm w (length (bt_batches bat))) s of (order, s) \<Rightarrow>
     bind_run (run_batches w order (bt_batches bat) s) (\<lambda>(bs, s).
       Some (bind_outcome (batch_replies w (bt_index bat) [] bs s) (\<lambda>(r, bs, s). Ret (r, bat\<lparr>bt_batches := bs\<rparr>, s)))))"

section \<open>What a batch holds\<close>

definition asked :: "node_command \<Rightarrow> bytes \<times> arg list" where
  "asked c = (nc_cmd c, nc_args c)"

text \<open>The batch of the commands \<open>log\<close>: every node has its commands in the order of \<open>log\<close>.\<close>

definition batch_ok :: "(bytes \<times> arg list) list \<Rightarrow> batch \<Rightarrow> bool" where
  "batch_ok log bat \<longleftrightarrow> length (bt_index bat) = length log \<and>
     (\<forall>i \<in> set (bt_index bat). i < length (bt_batches bat)) \<and> distinct (map nb_node (bt_batches bat)) \<and>
     (\<forall>i < length (bt_batches bat). map asked (nb_cmds (bt_batches bat ! i)) =
        map fst (filter (\<lambda>x. snd x = i) (zip log (bt_index bat))))"

lemma NewBatch_ok: "batch_ok [] (NewBatch seed)"
  by (simp add: batch_ok_def NewBatch_def)

lemma find_batch_le: "find_batch p bs \<le> length bs"
  by (induction bs) auto

lemma find_batch_node: "find_batch p bs < length bs \<Longrightarrow> nb_node (bs ! find_batch p bs) = p"
  by (induction bs) auto

lemma find_batch_absent: "find_batch p bs = length bs \<Longrightarrow> p \<notin> nb_node ` set bs"
  by (induction bs) (auto split: if_splits)

lemma zip_filter_fresh: "\<forall>i \<in> set is. i < (n :: nat) \<Longrightarrow> filter (\<lambda>x. snd x = n) (zip xs is) = []"
  by (auto simp: filter_empty_conv) (metis less_irrefl set_zip_rightD)

lemma add_command_ok:
  assumes "batch_ok log bat"
  shows "batch_ok (log @ [(cmd, args)]) (add_command p m cmd args bat)"
proof -
  let ?bs = "bt_batches bat" and ?c = "\<lparr>nc_cmd = cmd, nc_args = args, nc_reply = RNil, nc_err = None\<rparr>"
  have len: "length (bt_index bat) = length log" using assms by (simp add: batch_ok_def)
  show ?thesis
  proof (cases "find_batch p ?bs < length ?bs")
    case True
    let ?i = "find_batch p ?bs"
    have "map nb_node (?bs[?i := (?bs ! ?i)\<lparr>nb_cmds := nb_cmds (?bs ! ?i) @ [?c]\<rparr>]) = map nb_node ?bs"
      by (rule nth_equalityI) (auto simp: nth_update)
    then show ?thesis
      using assms True len by (auto simp: batch_ok_def add_command_def Let_def asked_def nth_update)
  next
    case False
    then have n: "find_batch p ?bs = length ?bs" using find_batch_le [of p ?bs] by simp
    then show ?thesis
      using assms len find_batch_absent [OF n] zip_filter_fresh [of "bt_index bat" "length ?bs" log]
      by (auto simp: batch_ok_def add_command_def Let_def asked_def nth_append less_Suc_eq)
  qed
qed

lemma Put_ok:
  assumes "batch_ok log bat" "Put w slave cmd args bat s = ((err, bat'), s')"
  shows "batch_ok (if err = None then log @ [(cmd, args)] else log) bat'"
  using assms add_command_ok [OF assms(1)] by (auto simp: Put_def split: if_splits prod.splits sum.splits)

text \<open>Running a node's commands changes none of them.\<close>

lemma bind_run_Ret_iff:
  "bind_run m f = Some (Ret y) \<longleftrightarrow> (\<exists>x. m = Some (Ret x) \<and> f x = Some (Ret y))"
  by (auto simp: bind_run_def split: option.splits outcome.splits)

lemma bind_run_Ret:
  assumes "bind_run m f = Some (Ret y)"
  obtains x where "m = Some (Ret x)" "f x = Some (Ret y)"
  using assms by (auto simp: bind_run_Ret_iff)

lemma batch_receive_asked:
  "batch_receive w p cmds c s = Some (Ret ((err, cmds', c'), s')) \<Longrightarrow> map asked cmds' = map asked cmds"
proof (induction cmds arbitrary: c s err cmds' c' s')
  case (Cons x xs)
  show ?case
  proof (cases "receive (w_net w) c (snd s)")
    case (fields q c1 e1)
    show ?thesis
    proof (cases q)
      case (Inl e)
      then show ?thesis using Cons.prems fields by simp
    next
      case (Inr reply)
      then show ?thesis using Cons.prems fields by (auto simp: bind_run_Ret_iff asked_def dest!: Cons.IH)
    qed
  qed
qed simp

lemma doBatch_asked:
  assumes "doBatch w nb s = Some (Ret (nb', s'))"
  shows "map asked (nb_cmds nb') = map asked (nb_cmds nb) \<and> nb_node nb' = nb_node nb \<and> nb_master nb' = nb_master nb"
  using assms
  by (auto simp: doBatch_def bind_run_Ret_iff dest!: batch_receive_asked split: prod.splits sum.splits option.splits)

lemma run_batches_asked:
  "run_batches w order bs s = Some (Ret (bs', s')) \<Longrightarrow> length bs' = length bs \<and>
     (\<forall>i < length bs. map asked (nb_cmds (bs' ! i)) = map asked (nb_cmds (bs ! i)) \<and> nb_node (bs' ! i) = nb_node (bs ! i))"
proof (induction order arbitrary: bs s)
  case (Cons j order)
  obtain nb s1 where 1: "doBatch w (bs ! j) s = Some (Ret (nb, s1))"
    "run_batches w order (bs[j := nb]) s1 = Some (Ret (bs', s'))"
    using Cons.prems by (auto simp: bind_run_Ret_iff)
  show ?case using Cons.IH [OF 1(2)] doBatch_asked [OF 1(1)] by (auto simp: nth_update)
qed simp

text \<open>The command of the \<open>k\<close>th \<open>Put\<close>: as many commands of its node come before it as earlier \<open>Put\<close>s went to
  that node.\<close>

definition command_at :: "node_batch list \<Rightarrow> nat list \<Rightarrow> nat \<Rightarrow> node_command" where
  "command_at bs is k = nb_cmds (bs ! (is ! k)) ! count_list (take k is) (is ! k)"

lemma nth_filter_zip:
  "length xs = length is \<Longrightarrow> k < length is \<Longrightarrow>
     count_list (take k is) (is ! k) < length (filter (\<lambda>x. snd x = is ! k) (zip xs is)) \<and>
     fst (filter (\<lambda>x. snd x = is ! k) (zip xs is) ! count_list (take k is) (is ! k)) = xs ! k"
  by (induction xs "is" arbitrary: k rule: list_induct2) (auto simp: nth_Cons split: nat.splits)

lemma command_at_asked:
  assumes "batch_ok log bat" "k < length log"
    "\<forall>i < length (bt_batches bat). map asked (nb_cmds (bs ! i)) = map asked (nb_cmds (bt_batches bat ! i))"
  shows "asked (command_at bs (bt_index bat) k) = log ! k"
proof -
  let ?i = "bt_index bat ! k"
  have i: "?i < length (bt_batches bat)" and len: "length log = length (bt_index bat)"
    using assms(1,2) by (auto simp: batch_ok_def)
  have eq: "map asked (nb_cmds (bs ! ?i)) = map fst (filter (\<lambda>x. snd x = ?i) (zip log (bt_index bat)))"
    using assms(1,3) i by (auto simp: batch_ok_def)
  note n = nth_filter_zip [OF len, of k]
  have "count_list (take k (bt_index bat)) ?i < length (nb_cmds (bs ! ?i))"
    using n assms(2) len by (metis eq length_map)
  then show ?thesis
    using n assms(2) len eq by (metis command_at_def nth_map)
qed

lemma count_zip:
  "length xs = length is \<Longrightarrow> length (filter (\<lambda>x. snd x = i) (zip xs is)) = count_list is i"
  by (induction xs "is" rule: list_induct2) auto

text \<open>The loop over the replies.\<close>

definition answer_at :: "node_batch list \<Rightarrow> nat list \<Rightarrow> nat \<Rightarrow> reply" where
  "answer_at bs is k = (if nb_err (bs ! (is ! k)) = None then nc_reply (command_at bs is k) else RNil)"

lemma command_at_Cons:
  assumes "k < length is" "i < length bs" "nb_cmds (bs ! i) = c # cs"
  shows "command_at (bs[i := (bs ! i)\<lparr>nb_cmds := cs\<rparr>]) is k = command_at bs (i # is) (Suc k)"
    "answer_at (bs[i := (bs ! i)\<lparr>nb_cmds := cs\<rparr>]) is k = answer_at bs (i # is) (Suc k)"
  using assms by (auto simp: answer_at_def command_at_def nth_update nth_list_update)

lemma batch_replies_spec:
  assumes "\<forall>i \<in> set is. i < length bs" "\<forall>i < length bs. length (nb_cmds (bs ! i)) = count_list is i"
  shows "\<exists>r bs' s'. batch_replies w is acc bs s = Ret (r, bs', s') \<and>
    (r = ([], Some Cluster_Down_Error) \<and> (\<exists>k < length is. checkReply (nc_reply (command_at bs is k)) = kRespClusterDown) \<or>
     r = (acc @ map (answer_at bs is) [0..<length is], None) \<and> (\<forall>i < length bs. nb_cmds (bs' ! i) = []))"
  using assms
proof (induction "is" arbitrary: acc bs s)
  case (Cons i "is")
  have i: "i < length bs" using Cons.prems(1) by simp
  then obtain c cs where c: "nb_cmds (bs ! i) = c # cs"
    using Cons.prems(2) by (cases "nb_cmds (bs ! i)") auto
  have at0: "command_at bs (i # is) 0 = c" by (simp add: command_at_def c)
  show ?case
  proof (cases "checkReply (nc_reply c) = kRespClusterDown")
    case True
    then show ?thesis using i c at0 by auto
  next
    case False
    let ?bs = "bs[i := (bs ! i)\<lparr>nb_cmds := cs\<rparr>]"
    let ?s = "if nb_err (bs ! i) \<noteq> None then UpdateSlotsInfoByRandomNode w (nb_node (bs ! i)) s else s"
    let ?acc = "acc @ [answer_at bs (i # is) 0]"
    have eq: "batch_replies w (i # is) acc bs s = batch_replies w is ?acc ?bs ?s"
      using i c False at0 by (simp add: answer_at_def Let_def)
    have lens: "\<forall>j < length ?bs. length (nb_cmds (?bs ! j)) = count_list is j"
      using Cons.prems(2) i c by (auto simp: nth_update nth_list_update)
    have bound: "\<forall>j \<in> set is. j < length ?bs" using Cons.prems(1) by simp
    obtain r bs' s' where r: "batch_replies w is ?acc ?bs ?s = Ret (r, bs', s')"
      "r = ([], Some Cluster_Down_Error) \<and> (\<exists>k < length is. checkReply (nc_reply (command_at ?bs is k)) = kRespClusterDown) \<or>
       r = (?acc @ map (answer_at ?bs is) [0..<length is], None) \<and> (\<forall>i < length ?bs. nb_cmds (bs' ! i) = [])"
      using Cons.IH [OF bound lens, of ?acc ?s] by blast
    have "map (answer_at ?bs is) [0..<length is] = map (\<lambda>k. answer_at bs (i # is) (Suc k)) [0..<length is]"
      using command_at_Cons(2) [OF _ i c] by simp
    then have shift: "?acc @ map (answer_at ?bs is) [0..<length is] = acc @ map (answer_at bs (i # is)) [0..<length (i # is)]"
      by (simp add: upt_conv_Cons map_Suc_upt [symmetric] del: upt_Suc)
    have "(\<exists>k < length is. checkReply (nc_reply (command_at ?bs is k)) = kRespClusterDown) \<Longrightarrow>
        \<exists>k < length (i # is). checkReply (nc_reply (command_at bs (i # is) k)) = kRespClusterDown"
      using command_at_Cons(1) [OF _ i c] by auto
    then show ?thesis using eq r shift by auto
  qed
qed simp

text \<open>C4. A batch returns its replies in the order of the \<open>Put\<close>s: once the nodes have run their commands,
  in whatever order, \<open>RunBatch\<close> returns normally; the reply of every \<open>Put\<close> is the one its node gave to
  the command of that \<open>Put\<close>, or nil when the commands of that node failed. Only when some command got
  \<open>CLUSTERDOWN\<close> does it return that error instead.\<close>

theorem RunBatch_in_order:
  assumes "batch_ok log bat" "env_call (w_perm w (length (bt_batches bat))) s = (order, s1)"
    "run_batches w order (bt_batches bat) s1 = Some (Ret (bs, s2))"
  shows "\<exists>replies err bat' s'. RunBatch w bat s = Some (Ret ((replies, err), bat', s')) \<and>
    (\<forall>k < length log. asked (command_at bs (bt_index bat) k) = log ! k) \<and>
    (err = None \<and> replies = map (answer_at bs (bt_index bat)) [0..<length log] \<or>
     err = Some Cluster_Down_Error \<and> replies = [] \<and>
       (\<exists>k < length log. checkReply (nc_reply (command_at bs (bt_index bat) k)) = kRespClusterDown))"
proof -
  let ?i = "bt_index bat"
  have len: "length ?i = length log" using assms(1) by (simp add: batch_ok_def)
  note a = run_batches_asked [OF assms(3)]
  have "\<forall>i < length bs. length (nb_cmds (bs ! i)) = count_list ?i i"
  proof (intro allI impI)
    fix i assume i: "i < length bs"
    then have "map asked (nb_cmds (bs ! i)) = map fst (filter (\<lambda>x. snd x = i) (zip log ?i))"
      using a assms(1) by (auto simp: batch_ok_def)
    then have "length (nb_cmds (bs ! i)) = length (filter (\<lambda>x. snd x = i) (zip log ?i))" by (metis length_map)
    then show "length (nb_cmds (bs ! i)) = count_list ?i i" using len by (simp add: count_zip)
  qed
  moreover have "\<forall>i \<in> set ?i. i < length bs" using a assms(1) by (simp add: batch_ok_def)
  ultimately obtain r bs' s' where r: "batch_replies w ?i [] bs s2 = Ret (r, bs', s')"
    "r = ([], Some Cluster_Down_Error) \<and> (\<exists>k < length ?i. checkReply (nc_reply (command_at bs ?i k)) = kRespClusterDown) \<or>
     r = (map (answer_at bs ?i) [0..<length ?i], None)"
    using batch_replies_spec [of ?i bs w "[]" s2] unfolding append_Nil by blast
  have "RunBatch w bat s = Some (Ret (r, bat\<lparr>bt_batches := bs'\<rparr>, s'))"
    using assms(2,3) r(1) by (simp add: RunBatch_def bind_run_def)
  moreover have "\<forall>k < length log. asked (command_at bs ?i k) = log ! k"
    using command_at_asked [OF assms(1)] a by blast
  ultimately show ?thesis using r(2) len by auto
qed

section \<open>Pipelining\<close>

lemma send_commands_ready:
  assumes "sticky_writer (net_wr net) wok wlive sent delivered broken"
  shows "\<forall>x \<in> set xs. sendable (net_float net) (nc_cmd x) (nc_args x) \<Longrightarrow> ready wlive c \<Longrightarrow>
    \<exists>c' e'. send_commands net xs c e = (None, c', e') \<and> ready wlive c' \<and> rc_pending c' = rc_pending c + int (length xs) \<and>
      sent (rc_bw c') = sent (rc_bw c) @ concat (map (\<lambda>x. request (net_float net) (nc_cmd x) (nc_args x)) xs) \<and> rc_br c' = rc_br c"
proof (induction xs arbitrary: c e)
  case (Cons x xs)
  obtain c1 e1 where 1: "send net (nc_cmd x) (nc_args x) c e = (None, c1, e1)" "ready wlive c1" "rc_pending c1 = rc_pending c + 1"
    "sent (rc_bw c1) = sent (rc_bw c) @ request (net_float net) (nc_cmd x) (nc_args x)" "rc_br c1 = rc_br c"
    using sticky_writer.send_ready [OF assms refl _ Cons.prems(2), of "nc_cmd x" "nc_args x" e] Cons.prems(1) by auto
  show ?case using Cons.IH [OF _ 1(2), of e1] Cons.prems(1) 1 by auto
qed simp

definition answered :: "node_command \<Rightarrow> reply \<Rightarrow> node_command" where
  "answered x r = x\<lparr>nc_reply := r, nc_err := None\<rparr>"

lemma batch_receive_ready:
  assumes "byte_reader (net_rd (w_net w)) rok rlive rest bufsize" "\<And>s. length (rest s) \<le> net_left (w_net w) s"
  shows "length xs = length rs \<Longrightarrow> \<forall>r \<in> set rs. sendable_reply r \<and> checkReply r \<in> {kRespOK, kRespError} \<Longrightarrow>
    rlive (rc_br c) \<Longrightarrow> rest (rc_br c) = concat (map reply_wire rs) @ t \<Longrightarrow> rc_pending c = int (length xs) \<Longrightarrow>
    \<exists>c' e'. batch_receive w p xs c (cl, e) = Some (Ret ((None, map2 answered xs rs, c'), (cl, e'))) \<and>
      rest (rc_br c') = t \<and> rc_pending c' = 0 \<and> rc_bw c' = rc_bw c"
proof (induction xs rs arbitrary: c e rule: list_induct2)
  case (Cons x xs r rs)
  obtain c1 e1 where 1: "receive (w_net w) c e = (Inr r, c1, e1)" "rc_pending c1 = int (length xs)" "rlive (rc_br c1)"
    "rest (rc_br c1) = concat (map reply_wire rs) @ t" "rc_bw c1 = rc_bw c"
    using byte_reader.receive_ready [OF assms(1) refl assms(2), of c r "concat (map reply_wire rs) @ t" e] Cons.prems by auto
  have "batch_settle w p (nc_cmd x) (nc_args x) r (cl, e1) = Some (Ret ((r, None), (cl, e1)))"
    using Cons.prems(1) by (auto simp: batch_settle_def batch_final_def)
  then show ?case
    using Cons.IH [of c1 e1] Cons.prems(1) 1 by (auto simp: bind_run_def answered_def)
qed simp

lemma doBatch_ready:
  assumes "sticky_writer (net_wr (w_net w)) wok wlive sent delivered broken"
    "byte_reader (net_rd (w_net w)) rok rlive rest bufsize" "\<And>s. length (rest s) \<le> net_left (w_net w) s"
    "p < length (heap cl)" "nb_node nb = p" "getConn (w_net w) (heap cl ! p) e = (Inr c, node1, e1)" "rc_pending c = 0"
    "ready wlive c" "rlive (rc_br c)" "ro \<longleftrightarrow> NodeType (heap cl ! p) = SLAVE_NODE"
    "\<forall>x \<in> set (nb_cmds nb). sendable (net_float (w_net w)) (nc_cmd x) (nc_args x)"
    "length rs = length (nb_cmds nb)" "\<forall>r \<in> set rs. sendable_reply r \<and> checkReply r \<in> {kRespOK, kRespError}"
    "sendable_reply ok" "checkReply ok = kRespOK"
    "rest (rc_br c) = (if ro then reply_wire ok else []) @ concat (map reply_wire rs) @ t"
  shows "\<exists>c1 f1 c' e' node2 e2. batch_send (w_net w) ro (nb_cmds nb) c e1 = (None, c1, f1) \<and>
    rest (rc_br c1) = concat (map reply_wire rs) @ t \<and> rc_bw c' = rc_bw c1 \<and>
    doBatch w nb (cl, e) =
      Some (Ret (nb\<lparr>nb_cmds := map2 answered (nb_cmds nb) rs\<rparr>, (cl\<lparr>heap := (heap cl)[p := node2]\<rparr>, e2))) \<and>
    releaseConn (w_net w) c' node1 e' = (node2, e2) \<and> rest (rc_br c') = t \<and> rc_pending c' = 0 \<and>
    delivered (rc_bw c') = sent (rc_bw c) @ (if ro then request (net_float (w_net w)) ''READONLY'' [] else []) @
      concat (map (\<lambda>x. request (net_float (w_net w)) (nc_cmd x) (nc_args x)) (nb_cmds nb))"
proof -
  let ?net = "w_net w" and ?xs = "nb_cmds nb"
  let ?pre = "if ro then request (net_float ?net) ''READONLY'' [] else []"
  let ?reqs = "concat (map (\<lambda>x. request (net_float ?net) (nc_cmd x) (nc_args x)) ?xs)"
  have sro: "sendable (net_float ?net) ''READONLY'' []" by (simp add: sendable_def small_def)
  obtain c0 f0 where 0: "(if ro then send ?net ''READONLY'' [] c e1 else (None, c, e1)) = (None, c0, f0)" "ready wlive c0"
    "rc_pending c0 = (if ro then 1 else 0)" "sent (rc_bw c0) = sent (rc_bw c) @ ?pre" "rc_br c0 = rc_br c"
    using sticky_writer.send_ready [OF assms(1) refl sro assms(8), of e1] assms(7,8) by (cases ro) auto
  obtain c1 f1 where 1: "send_commands ?net ?xs c0 f0 = (None, c1, f1)" "ready wlive c1"
    "rc_pending c1 = rc_pending c0 + int (length ?xs)" "sent (rc_bw c1) = sent (rc_bw c0) @ ?reqs" "rc_br c1 = rc_br c"
    using send_commands_ready [OF assms(1,11) 0(2), of f0] 0(5) by auto
  obtain c2 f2 where 2: "flush_conn ?net c1 f1 = (None, c2, f2)" "rc_pending c2 = rc_pending c1"
    "delivered (rc_bw c2) = sent (rc_bw c1)" "rc_br c2 = rc_br c"
    using sticky_writer.flush_ready [OF assms(1) refl 1(2), of f1] 1 by auto
  obtain c3 f3 where 3: "batch_send ?net ro ?xs c e1 = (None, c3, f3)" "rc_pending c3 = int (length ?xs)" "rlive (rc_br c3)"
    "rest (rc_br c3) = concat (map reply_wire rs) @ t" "rc_bw c3 = rc_bw c2"
  proof (cases ro)
    case True
    then show ?thesis
      using byte_reader.receive_ready [OF assms(2) refl assms(3), of c2 ok "concat (map reply_wire rs) @ t" f2]
        assms(9,14-16) 0 1 2 that by (auto simp: batch_send_def)
  next
    case False
    then show ?thesis using 0 1 2 assms(9,16) that by (auto simp: batch_send_def)
  qed
  let ?cl = "cl\<lparr>heap := (heap cl)[p := node1]\<rparr>"
  obtain c4 f4 where 4: "batch_receive w p ?xs c3 (?cl, f3) = Some (Ret ((None, map2 answered ?xs rs, c4), (?cl, f4)))"
    "rest (rc_br c4) = t" "rc_pending c4 = 0" "rc_bw c4 = rc_bw c3"
    using batch_receive_ready [OF assms(2,3) assms(12) [symmetric] assms(13) 3(3,4,2), of p ?cl f3] by blast
  obtain node2 e2 where 5: "releaseConn ?net c4 node1 f4 = (node2, e2)" by (metis surj_pair)
  have type: "NodeType node1 = NodeType (heap cl ! p)"
    using getConn_identity [OF assms(6)] by (simp add: identity_def)
  have conn: "batch_conn w nb (cl, e) = (Inr (p, c), (?cl, e1))"
    using assms(5,6) by (simp add: batch_conn_def node_call_def)
  have "doBatch w nb (cl, e) = Some (Ret (nb\<lparr>nb_cmds := map2 answered ?xs rs\<rparr>, (cl\<lparr>heap := (heap cl)[p := node2]\<rparr>, e2)))"
    using conn 3(1) 4(1) 5 type assms(4,10) by (simp add: doBatch_def bind_run_def node_call_def)
  moreover have "delivered (rc_bw c4) = sent (rc_bw c) @ ?pre @ ?reqs"
    using 4(4) 3(5) 2(3) 1(4) 0(4) by simp
  ultimately show ?thesis using 5 4(2-4) 3(1,4) by blast
qed

text \<open>A writer that counts the calls of \<open>Flush\<close>.\<close>

definition counting :: "'s writer_ops \<Rightarrow> (nat \<times> 's) writer_ops" where
  "counting ops = \<lparr>op_Write = (\<lambda>p (n, s). case op_Write ops p s of (e, s) \<Rightarrow> (e, (n, s))),
     op_WriteByte = (\<lambda>b (n, s). case op_WriteByte ops b s of (e, s) \<Rightarrow> (e, (n, s))),
     op_WriteString = (\<lambda>p (n, s). case op_WriteString ops p s of (e, s) \<Rightarrow> (e, (n, s))),
     op_Flush = (\<lambda>(n, s). case op_Flush ops s of (e, s) \<Rightarrow> (e, (Suc n, s)))\<rparr>"

lemma counting_results:
  "op_Write (counting ops) p x = (e, y) \<longleftrightarrow> op_Write ops p (snd x) = (e, snd y) \<and> fst y = fst x"
  "op_WriteByte (counting ops) b x = (e, y) \<longleftrightarrow> op_WriteByte ops b (snd x) = (e, snd y) \<and> fst y = fst x"
  "op_WriteString (counting ops) p x = (e, y) \<longleftrightarrow> op_WriteString ops p (snd x) = (e, snd y) \<and> fst y = fst x"
  "op_Flush (counting ops) x = (e, y) \<longleftrightarrow> op_Flush ops (snd x) = (e, snd y) \<and> fst y = Suc (fst x)"
  by (cases x; cases y; auto simp: counting_def split: prod.splits)+

lemma counting_sticky:
  fixes ops :: "'s writer_ops"
  assumes "sticky_writer ops wok wlive sent delivered broken"
  shows "sticky_writer (counting ops) (\<lambda>x. wok (snd x)) (\<lambda>x. wlive (snd x)) (\<lambda>x. sent (snd x)) (\<lambda>x. delivered (snd x)) (\<lambda>x. broken (snd x))"
proof -
  have b: "byte_writer ops wok wlive sent delivered" by (rule sticky_writer.axioms(1) [OF assms])
  note laws = byte_writer.wlive_wok [OF b] byte_writer.Write_sent [OF b] byte_writer.WriteByte_sent [OF b]
    byte_writer.WriteString_sent [OF b] byte_writer.Flush_sent [OF b]
  note lives = byte_writer.Write_live [OF b] byte_writer.WriteByte_live [OF b] byte_writer.WriteString_live [OF b] byte_writer.Flush_live [OF b]
  note breaks = sticky_writer.Write_breaks [OF assms] sticky_writer.WriteString_breaks [OF assms]
    sticky_writer.Write_broken [OF assms] sticky_writer.WriteString_broken [OF assms]
  have "\<exists>s'. op_Write (counting ops) p s = (None, s') \<and> wlive (snd s')" if live: "wlive (snd s)" for p s
  proof -
    obtain t where "op_Write ops p (snd s) = (None, t) \<and> wlive t" using lives(1) [OF live] by blast
    then show ?thesis by (intro exI [of _ "(fst s, t)"]) (simp add: counting_results)
  qed
  moreover have "\<exists>s'. op_WriteByte (counting ops) b s = (None, s') \<and> wlive (snd s')" if live: "wlive (snd s)" for b s
  proof -
    obtain t where "op_WriteByte ops b (snd s) = (None, t) \<and> wlive t" using lives(2) [OF live] by blast
    then show ?thesis by (intro exI [of _ "(fst s, t)"]) (simp add: counting_results)
  qed
  moreover have "\<exists>s'. op_WriteString (counting ops) p s = (None, s') \<and> wlive (snd s')" if live: "wlive (snd s)" for p s
  proof -
    obtain t where "op_WriteString ops p (snd s) = (None, t) \<and> wlive t" using lives(3) [OF live] by blast
    then show ?thesis by (intro exI [of _ "(fst s, t)"]) (simp add: counting_results)
  qed
  moreover have "\<exists>s'. op_Flush (counting ops) s = (None, s') \<and> wlive (snd s')" if live: "wlive (snd s)" for s
  proof -
    obtain t where "op_Flush ops (snd s) = (None, t) \<and> wlive t" using lives(4) [OF live] by blast
    then show ?thesis by (intro exI [of _ "(Suc (fst s), t)"]) (simp add: counting_results)
  qed
  ultimately show ?thesis
    by (unfold_locales, unfold counting_results(1-4)) (blast dest: laws breaks)+
qed

text \<open>Sending does not flush: none of the writing routines does.\<close>

lemma count_calls [simp]:
  "fst (snd (snd (wr_call (op_Write (counting ops) p) x))) = fst (snd x)"
  "fst (snd (snd (wr_call (op_WriteString (counting ops) p) x))) = fst (snd x)"
  by (simp_all add: wr_call_def counting_def split_beta)

lemma count_Len [simp]: "fst (snd (snd (writeLen (counting ops) pre n x))) = fst (snd x)"
  by (simp add: writeLen_def split_beta)

lemma count_strings [simp]:
  "fst (snd (snd (writeString (counting ops) b x))) = fst (snd x)" "fst (snd (snd (writeBytes (counting ops) b x))) = fst (snd x)"
  by (simp_all add: writeString_def writeBytes_def Let_def split_beta)

lemma count_Arg [simp]: "fst (snd (snd (writeArg ff (counting ops) a x))) = fst (snd x)"
  by (cases a) (simp_all add: writeArg_def writeInt64_def writeFloat64_def)

lemma count_Args [simp]: "fst (snd (snd (writeArgs ff (counting ops) args x))) = fst (snd x)"
proof (induction args arbitrary: x)
  case (Cons a args)
  obtain q y where w: "writeArg ff (counting ops) a x = (q, y)" by (metis surj_pair)
  then have "fst (snd y) = fst (snd x)" using count_Arg [of ff ops a x] by simp
  then show ?case using w Cons.IH [of y] by (cases q) simp_all
qed simp

lemma count_Command [simp]: "fst (snd (snd (writeCommand ff (counting ops) cmd args x))) = fst (snd x)"
proof -
  obtain q y where w: "writeString (counting ops) cmd (snd (writeLen (counting ops) (CHR ''*'') (length args + 1) x)) = (q, y)" by (metis surj_pair)
  then have "fst (snd y) = fst (snd x)"
    using count_strings(1) [of ops cmd "snd (writeLen (counting ops) (CHR ''*'') (length args + 1) x)"] by simp
  then show ?thesis using w by (cases q) (simp_all add: writeCommand_def split_beta)
qed

lemma send_count:
  assumes "net_wr net = counting ops" "send net cmd args c e = (r, c', e')"
  shows "fst (rc_bw c') = fst (rc_bw c)"
proof -
  obtain wd e1 where d: "set_write_deadline net (c\<lparr>rc_pending := rc_pending c + 1\<rparr>) e
      = (c\<lparr>rc_pending := rc_pending c + 1, rc_writeDeadline := wd\<rparr>, e1)"
    using set_write_deadline_keeps [of net "c\<lparr>rc_pending := rc_pending c + 1\<rparr>" e] by auto
  obtain q sc n b where w: "writeCommand (net_float net) (counting ops) cmd args (rc_lenScratch c, rc_bw c) = (q, sc, n, b)"
    by (metis surj_pair)
  then have "n = fst (rc_bw c)" using count_Command [of "net_float net" ops cmd args "(rc_lenScratch c, rc_bw c)"] by simp
  then show ?thesis using assms d w by (auto simp: send_def)
qed

lemma send_commands_count:
  "net_wr net = counting ops \<Longrightarrow> send_commands net xs c e = (r, c', e') \<Longrightarrow> fst (rc_bw c') = fst (rc_bw c)"
proof (induction xs arbitrary: c e)
  case (Cons x xs)
  obtain q c1 e1 where s: "send net (nc_cmd x) (nc_args x) c e = (q, c1, e1)" by (metis surj_pair)
  show ?case using Cons.IH [of c1 e1] Cons.prems s send_count [OF Cons.prems(1) s] by (cases q) auto
qed simp

lemma flush_count:
  assumes "net_wr net = counting ops" "flush_conn net c e = (r, c', e')"
  shows "fst (rc_bw c') = Suc (fst (rc_bw c))"
proof -
  obtain wd e1 where d: "set_write_deadline net c e = (c\<lparr>rc_writeDeadline := wd\<rparr>, e1)"
    using set_write_deadline_keeps [of net c e] by blast
  obtain q y where f: "op_Flush (counting ops) (rc_bw c) = (q, y)" by (metis surj_pair)
  then show ?thesis using assms d counting_results(4) [of ops "rc_bw c" q y] by (auto simp: flush_conn_def)
qed

lemma receive_count: "receive net c e = (r, c', e') \<Longrightarrow> rc_bw c' = rc_bw c"
  by (auto simp: receive_def Let_def split: prod.splits if_splits)

lemma batch_send_count:
  assumes "net_wr net = counting ops" "batch_send net ro xs c e = (None, c', e')"
  shows "fst (rc_bw c') = Suc (fst (rc_bw c))"
proof -
  obtain q0 c0 e0 where 0: "(if ro then send net ''READONLY'' [] c e else (None, c, e)) = (q0, c0, e0)" by (metis surj_pair)
  obtain q1 c1 e1 where 1: "send_commands net xs c0 e0 = (q1, c1, e1)" by (metis surj_pair)
  obtain q2 c2 e2 where 2: "flush_conn net c1 e1 = (q2, c2, e2)" by (metis surj_pair)
  obtain q3 c3 e3 where 3: "receive net c2 e2 = (q3, c3, e3)" by (metis surj_pair)
  have "fst (rc_bw c0) = fst (rc_bw c)" using 0 send_count [OF assms(1), of "''READONLY''" "[]" c e] by (cases ro) auto
  moreover have "fst (rc_bw c1) = fst (rc_bw c0)" by (rule send_commands_count [OF assms(1) 1])
  moreover have "fst (rc_bw c2) = Suc (fst (rc_bw c1))" by (rule flush_count [OF assms(1) 2])
  moreover have "rc_bw c' = rc_bw c2"
    using assms(2) 0 1 2 3 receive_count [OF 3] by (auto simp: batch_send_def split: option.splits if_splits sum.splits)
  ultimately show ?thesis by simp
qed

text \<open>C24. The commands of a node travel together: over a working connection, whose writer counts its flushes, \<open>doBatch\<close>
  writes all the requests (behind \<open>READONLY\<close> on a slave), and flushes exactly once; when it has, before it reads
  the first reply to a command, everything is delivered, and all those replies are still to be read. The replies the
  server sent are given to the commands in the order in which they were written, none is left pending, and the
  connection goes back through \<open>releaseConn\<close>.\<close>

theorem doBatch_pipelines:
  assumes "sticky_writer ops wok wlive sent delivered broken" "net_wr (w_net w) = counting ops"
    "byte_reader (net_rd (w_net w)) rok rlive rest bufsize" "\<And>s. length (rest s) \<le> net_left (w_net w) s"
    "p < length (heap cl)" "nb_node nb = p" "getConn (w_net w) (heap cl ! p) e = (Inr c, node1, e1)" "rc_pending c = 0"
    "ready (\<lambda>x. wlive (snd x)) c" "rlive (rc_br c)" "ro \<longleftrightarrow> NodeType (heap cl ! p) = SLAVE_NODE"
    "\<forall>x \<in> set (nb_cmds nb). sendable (net_float (w_net w)) (nc_cmd x) (nc_args x)"
    "length rs = length (nb_cmds nb)" "\<forall>r \<in> set rs. sendable_reply r \<and> checkReply r \<in> {kRespOK, kRespError}"
    "sendable_reply ok" "checkReply ok = kRespOK"
    "rest (rc_br c) = (if ro then reply_wire ok else []) @ concat (map reply_wire rs) @ t"
    "out = sent (snd (rc_bw c)) @ (if ro then request (net_float (w_net w)) ''READONLY'' [] else []) @
      concat (map (\<lambda>x. request (net_float (w_net w)) (nc_cmd x) (nc_args x)) (nb_cmds nb))"
  shows "\<exists>c1 f1 c' e' node2 e2. batch_send (w_net w) ro (nb_cmds nb) c e1 = (None, c1, f1) \<and>
    delivered (snd (rc_bw c1)) = out \<and> rest (rc_br c1) = concat (map reply_wire rs) @ t \<and>
    doBatch w nb (cl, e) =
      Some (Ret (nb\<lparr>nb_cmds := map2 answered (nb_cmds nb) rs\<rparr>, (cl\<lparr>heap := (heap cl)[p := node2]\<rparr>, e2))) \<and>
    releaseConn (w_net w) c' node1 e' = (node2, e2) \<and> rest (rc_br c') = t \<and> rc_pending c' = 0 \<and>
    delivered (snd (rc_bw c')) = out \<and> fst (rc_bw c') = Suc (fst (rc_bw c))"
proof -
  have "sticky_writer (net_wr (w_net w)) (\<lambda>x. wok (snd x)) (\<lambda>x. wlive (snd x)) (\<lambda>x. sent (snd x)) (\<lambda>x. delivered (snd x)) (\<lambda>x. broken (snd x))"
    unfolding assms(2) by (rule counting_sticky [OF assms(1)])
  from doBatch_ready [OF this assms(3-17)] obtain c1 f1 c' e' node2 e2 where
    b: "batch_send (w_net w) ro (nb_cmds nb) c e1 = (None, c1, f1)" "rest (rc_br c1) = concat (map reply_wire rs) @ t" "rc_bw c' = rc_bw c1"
      "doBatch w nb (cl, e) = Some (Ret (nb\<lparr>nb_cmds := map2 answered (nb_cmds nb) rs\<rparr>, (cl\<lparr>heap := (heap cl)[p := node2]\<rparr>, e2)))"
      "releaseConn (w_net w) c' node1 e' = (node2, e2)" "rest (rc_br c') = t" "rc_pending c' = 0" "delivered (snd (rc_bw c')) = out"
    unfolding assms(18) by blast
  have "fst (rc_bw c') = Suc (fst (rc_bw c))" using batch_send_count [OF assms(2) b(1)] b(3) by simp
  then show ?thesis using b
    by (intro exI [of _ c1] exI [of _ f1] exI [of _ c'] exI [of _ e'] exI [of _ node2] exI [of _ e2]) simp
qed

definition two_gets :: node_batch where
  "two_gets = \<lparr>nb_node = 0, nb_master = None, nb_cmds = [\<lparr>nc_cmd = ''GET'', nc_args = [AString ''a''], nc_reply = RNil, nc_err = None\<rparr>,
     \<lparr>nc_cmd = ''GET'', nc_args = [AString ''b''], nc_reply = RNil, nc_err = None\<rparr>], nb_err = None\<rparr>"

abbreviation two_replies :: "reply list" where
  "two_replies \<equiv> [RInt 1, RBulk ''v'']"

lemma two_gets_ready:
  fixes w defines "w \<equiv> scripted_world (concat (map reply_wire two_replies))"
  shows "getConn (w_net w) (heap routed_cluster ! 0) (5, []) = (Inr (new_conn (sample_node []) 7
      (NewReader [(concat (map reply_wire two_replies), None)]) (NewWriter ([], []))), sample_node [], (5, []))"
    "\<forall>x \<in> set (nb_cmds two_gets). sendable (net_float (w_net w)) (nc_cmd x) (nc_args x)"
    "\<forall>r \<in> set two_replies. sendable_reply r \<and> checkReply r \<in> {kRespOK, kRespError}"
    "NodeType (heap routed_cluster ! 0) = MASTER_NODE" "length (heap routed_cluster) = 1"
    "length two_replies = length (nb_cmds two_gets)"
  using scripted_conn [of "concat (map reply_wire two_replies)" "(5, [])"]
  by (simp_all add: assms scripted_world_def routed_cluster_def sample_cluster_inv two_gets_def sendable_def small_def
      arg_bytes_def scripted_net_simps in_int64_def checkReply_def) (simp add: sample_node_def)

text \<open>The same server behind a connection whose flushes are counted.\<close>

definition counted_world :: "bytes \<Rightarrow> (int \<times> nat list, breader, nat \<times> bwriter) world" where
  "counted_world p = \<lparr>w_net = \<lparr>net_now = (\<lambda>e. (fst e, e)), net_dial = (\<lambda>a t e. (Inr (7, NewReader [(p, None)], (0, NewWriter ([], []))), e)),
       net_close = (\<lambda>i e. e), net_rd = bufio_reader, net_wr = counting bufio_writer, net_left = (\<lambda>r. length (rd_rest r)),
       net_float = (\<lambda>_. ''0'')\<rparr>,
     w_iter = Pair, w_perm = (\<lambda>n e. ([0..<n], e)), w_uint32n = (\<lambda>n e. (0, e)), w_listening = Pair True, w_parse_float = (\<lambda>_ _. (0, None))\<rparr>"

definition counted_node :: "(breader, nat \<times> bwriter) redis_node" where
  "counted_node = \<lparr>address = ''h:1'', conns = [], keepAlive = 2, aliveTime = 10, connTimeout = 0, readTimeout = 0,
     writeTimeout = 0, updateTime = 0, closed = False, NodeType = MASTER_NODE\<rparr>"

definition counted_cluster :: "(breader, nat \<times> bwriter) cluster" where
  "counted_cluster = (make_cluster (sample_options []))\<lparr>heap := [counted_node]\<rparr>"

lemma counted_world_simps:
  "net_wr (w_net (counted_world p)) = counting bufio_writer" "net_rd (w_net (counted_world p)) = bufio_reader"
  "net_left (w_net (counted_world p)) = (\<lambda>r. length (rd_rest r))" "net_float (w_net (counted_world p)) = (\<lambda>_. ''0'')"
  "heap counted_cluster ! 0 = counted_node" "length (heap counted_cluster) = 1" "NodeType counted_node = MASTER_NODE"
  by (simp_all add: counted_world_def counted_cluster_def counted_node_def)

lemma counted_conn:
  "getConn (w_net (counted_world p)) counted_node e =
     (Inr (new_conn counted_node 7 (NewReader [(p, None)]) (0, NewWriter ([], []))), counted_node, e)"
  by (simp add: getConn_def counted_node_def counted_world_def)

lemma doBatch_pipelines_witness:
  "\<exists>s' c' e' node2. doBatch (counted_world (concat (map reply_wire two_replies))) two_gets (counted_cluster, (5, [])) =
       Some (Ret (two_gets\<lparr>nb_cmds := map2 answered (nb_cmds two_gets) two_replies\<rparr>, s')) \<and>
     releaseConn (w_net (counted_world (concat (map reply_wire two_replies)))) c' counted_node e' = node2 \<and> fst (rc_bw c') = 1"
proof -
  let ?p = "concat (map reply_wire two_replies)" and ?w = "counted_world (concat (map reply_wire two_replies))"
  let ?c = "new_conn counted_node 7 (NewReader [(?p, None)]) (0 :: nat, NewWriter ([], []))"
  have p: "?p \<noteq> []" by (simp add: bulk_of_def)
  note s = scripted_streams(1,2) [OF p] scripted_streams(3,4)
  have c: "getConn (w_net ?w) (heap counted_cluster ! 0) (5, []) = (Inr ?c, counted_node, (5, []))"
    unfolding counted_world_simps by (rule counted_conn)
  have r: "ready (\<lambda>x. wr_live (snd x)) ?c" "rc_pending ?c = 0" "rd_live (rc_br ?c)" "rd_rest (rc_br ?c) = ?p @ []" "fst (rc_bw ?c) = 0"
    using s by (simp_all add: new_conn_def ready_def zeros_def)
  have x: "\<forall>x \<in> set (nb_cmds two_gets). sendable (net_float (w_net ?w)) (nc_cmd x) (nc_args x)"
    by (simp add: counted_world_simps two_gets_def sendable_def small_def arg_bytes_def)
  have b: "byte_reader (net_rd (w_net ?w)) rd_ok rd_live rd_rest (\<lambda>b. rd_size b)"
    unfolding counted_world_simps by (rule bufio_byte_reader)
  have n: "length (rd_rest q) \<le> net_left (w_net ?w) q" for q by (simp add: counted_world_simps)
  have ok: "sendable_reply (RString ''OK'')" "checkReply (RString ''OK'') = kRespOK" by (simp_all add: checkReply_def)
  have i: "0 < length (heap counted_cluster)" "nb_node two_gets = 0"
      "False \<longleftrightarrow> NodeType (heap counted_cluster ! 0) = SLAVE_NODE"
    by (simp_all add: counted_world_simps two_gets_def)
  have t: "rd_rest (rc_br ?c) = (if False then reply_wire (RString ''OK'') else []) @ concat (map reply_wire two_replies) @ []"
    using r(4) by simp
  from doBatch_pipelines [OF bufio_sticky_writer counted_world_simps(1) b n i(1,2) c r(2,1,3) i(3) x two_gets_ready(6,3) ok t refl]
  obtain c' e' node2 e2 where
    "doBatch ?w two_gets (counted_cluster, (5, [])) =
       Some (Ret (two_gets\<lparr>nb_cmds := map2 answered (nb_cmds two_gets) two_replies\<rparr>, (counted_cluster\<lparr>heap := (heap counted_cluster)[0 := node2]\<rparr>, e2)))"
    "releaseConn (w_net ?w) c' counted_node e' = (node2, e2)" "fst (rc_bw c') = Suc (fst (rc_bw ?c))"
    by (elim exE conjE) (rule that)
  moreover from this(3) have "fst (rc_bw c') = 1" using r(5) by (simp only: One_nat_def)
  ultimately show ?thesis by blast
qed

text \<open>The batch of two \<open>Put\<close>s, run.\<close>

definition two_puts :: batch where
  "two_puts = \<lparr>bt_batches = [two_gets], bt_index = [0, 0], isSlaveOperate = False, bt_numSeed = 0\<rparr>"

lemma two_puts_put:
  "Put (scripted_world p) False ''GET'' [AString ''b''] (snd (fst (Put (scripted_world p) False ''GET'' [AString ''a''] (NewBatch 0) (routed_cluster, e))))
     (routed_cluster, e) = ((None, two_puts), (routed_cluster, e))"
  by (simp add: Put_def put_target_def Let_def ToUpper_def upper_char_def getNodeByKey_def key_def routed_cluster_def
      sample_cluster_inv(2) add_command_def NewBatch_def two_puts_def two_gets_def)

lemma RunBatch_in_order_witness:
  "\<exists>bat' s'. RunBatch (scripted_world (concat (map reply_wire two_replies))) two_puts (routed_cluster, (5, [])) =
     Some (Ret ((two_replies, None), bat', s'))"
proof -
  let ?p = "concat (map reply_wire two_replies)" and ?w = "scripted_world (concat (map reply_wire two_replies))"
  let ?nb = "two_gets\<lparr>nb_cmds := map2 answered (nb_cmds two_gets) two_replies\<rparr>"
  have p: "?p \<noteq> []" by (simp add: bulk_of_def)
  note s = scripted_streams(1,2) [OF p] scripted_streams(3,4)
  have net: "w_net ?w = scripted_net ?p" by (simp add: scripted_world_def)
  note t = two_gets_ready
  obtain s' where "doBatch ?w two_gets (routed_cluster, (5, [])) = Some (Ret (?nb, s'))"
    using doBatch_ready [where w = ?w and cl = routed_cluster and p = 0 and nb = two_gets and e = "(5, [])" and ro = False
        and ok = "RString ''OK''" and t = "[]", OF _ _ _ _ _ t(1) _ _ _ _ t(2) t(6) t(3),
        unfolded net scripted_net_simps, OF bufio_sticky_writer bufio_byte_reader order_refl] s t(4,5)
    by (auto simp: new_conn_def ready_def zeros_def two_gets_def checkReply_def)
  then have run: "run_batches ?w [0] (bt_batches two_puts) (routed_cluster, (5, [])) = Some (Ret ([?nb], s'))"
    by (simp add: two_puts_def bind_run_def)
  have order: "env_call (w_perm ?w (length (bt_batches two_puts))) (routed_cluster, (5, [])) = ([0], (routed_cluster, (5, [])))"
    by (simp add: env_call_def scripted_world_def two_puts_def)
  have ok: "batch_ok [(''GET'', [AString ''a'']), (''GET'', [AString ''b''])] two_puts"
    by (simp add: batch_ok_def two_puts_def two_gets_def asked_def)
  have ans: "map (answer_at [?nb] (bt_index two_puts)) [0..<2] = two_replies"
    by (simp add: upt_rec two_puts_def two_gets_def answer_at_def command_at_def answered_def)
  have "checkReply (nc_reply (command_at [?nb] (bt_index two_puts) k)) \<noteq> kRespClusterDown" if "k < 2" for k
    using that by (auto simp: less_2_cases_iff two_puts_def two_gets_def command_at_def answered_def checkReply_def)
  moreover have two: "length [(''GET'', [AString ''a'']), (''GET'', [AString ''b''])] = 2" by simp
  ultimately show ?thesis using RunBatch_in_order [OF ok order run, unfolded two ans] by blast
qed

section \<open>Routes\<close>

text \<open>Batches change no route either.\<close>

definition batch_nodes_valid :: "('r, 'w) cluster \<Rightarrow> batch \<Rightarrow> bool" where
  "batch_nodes_valid cl bat \<longleftrightarrow> (\<forall>b \<in> set (bt_batches bat). nb_node b < length (heap cl) \<and>
     (\<forall>m. nb_master b = Some m \<longrightarrow> m < length (heap cl)))"

lemma getConn_keeps: "keeps_identity (getConn net)"
  unfolding keeps_identity_def by (intro allI impI) (rule getConn_identity)

lemma batch_conn_same:
  assumes "cluster_inv (fst s)" "batch_conn w nb s = (r, s')"
  shows "same_routes (fst s) (fst s')" "r = Inr (p, c) \<Longrightarrow> p = nb_node nb \<or> nb_master nb = Some p"
proof -
  obtain q s1 where 1: "node_call (nb_node nb) (getConn (w_net w)) s = (q, s1)" by (metis surj_pair)
  have s1: "same_routes (fst s) (fst s1)" by (rule node_call_same [OF getConn_keeps 1])
  have h: "same_routes (fst s) (fst (UpdateSlotsByRandomMasterNode w s1))"
    by (rule same_routes_trans [OF s1 heartbeat_same [OF cluster_inv_same_routes [OF assms(1) s1]]])
  show "same_routes (fst s) (fst s')"
    using assms(2) 1 s1 h same_routes_trans [OF h node_call_same [OF getConn_keeps]]
    by (auto simp: batch_conn_def Let_def split: sum.splits option.splits if_splits prod.splits)
  show "r = Inr (p, c) \<Longrightarrow> p = nb_node nb \<or> nb_master nb = Some p"
    using assms(2) 1 by (auto simp: batch_conn_def Let_def split: sum.splits option.splits if_splits prod.splits)
qed

lemma batch_final_same:
  assumes "cluster_inv (fst s)" "batch_final w p cmd args reply s = Ret (r, s')"
  shows "same_routes (fst s) (fst s')"
proof (cases "checkReply reply")
  case kRespAsk
  then show ?thesis using assms(2) handleAsk_same [of w p _ cmd args s r s'] by (simp add: batch_final_def)
next
  case kRespConnTimeout
  then show ?thesis using assms(2) handleConnTimeout_same [OF assms(1), of w p cmd args r s'] by (simp add: batch_final_def)
qed (use assms(2) in \<open>auto simp: batch_final_def\<close>)

lemma batch_settle_same:
  assumes "cluster_inv (fst s)" "p < length (heap (fst s))" "batch_settle w p cmd args reply s = Some (Ret (r, s'))"
  shows "same_routes (fst s) (fst s')"
proof (cases "checkReply reply = kRespMove")
  case False
  then show ?thesis using batch_final_same [OF assms(1)] assms(3) by (simp add: batch_settle_def)
next
  case True
  then obtain r1 s1 where m: "move_loop w p cmd args reply s = Some (r1, s1)" "batch_final w p cmd args (fst r1) s1 = Ret (r, s')"
    using assms(3) by (auto simp: batch_settle_def split: option.splits)
  have 1: "same_routes (fst s) (fst s1)" by (rule move_loop_same [OF m(1) assms(1,2)])
  show ?thesis
    by (rule same_routes_trans [OF 1 batch_final_same [OF cluster_inv_same_routes [OF assms(1) 1] m(2)]])
qed

lemma batch_receive_same:
  "cluster_inv (fst s) \<Longrightarrow> p < length (heap (fst s)) \<Longrightarrow> batch_receive w p cmds c s = Some (Ret ((err, cmds', c'), s')) \<Longrightarrow>
     same_routes (fst s) (fst s')"
proof (induction cmds arbitrary: c s err cmds' c')
  case (Cons x xs)
  obtain q c1 e1 where 1: "receive (w_net w) c (snd s) = (q, c1, e1)" by (metis surj_pair)
  show ?case
  proof (cases q)
    case (Inl e)
    then show ?thesis using Cons.prems 1 by auto
  next
    case (Inr reply)
    then obtain r s1 berr ys c2 where 2: "batch_settle w p (nc_cmd x) (nc_args x) reply (fst s, e1) = Some (Ret (r, s1))"
      "batch_receive w p xs c1 s1 = Some (Ret ((berr, ys, c2), s'))"
      using Cons.prems(3) 1 by (auto simp: bind_run_Ret_iff)
    have s1: "same_routes (fst s) (fst s1)" using batch_settle_same [OF _ _ 2(1)] Cons.prems(1,2) by simp
    show ?thesis
      using same_routes_trans [OF s1] Cons.IH [OF cluster_inv_same_routes [OF Cons.prems(1) s1] _ 2(2)]
        same_routes_length [OF s1] Cons.prems(2) by simp
  qed
qed simp

lemma doBatch_same:
  assumes "cluster_inv (fst s)" "nb_node nb < length (heap (fst s))" "\<forall>m. nb_master nb = Some m \<longrightarrow> m < length (heap (fst s))"
    "doBatch w nb s = Some (Ret (nb', s'))"
  shows "same_routes (fst s) (fst s')"
proof -
  obtain q s1 where 1: "batch_conn w nb s = (q, s1)" by (metis surj_pair)
  have s1: "same_routes (fst s) (fst s1)" by (rule batch_conn_same(1) [OF assms(1) 1])
  show ?thesis
  proof (cases q)
    case (Inl e)
    then show ?thesis using assms(4) 1 s1 by (simp add: doBatch_def)
  next
    case (Inr pc)
    obtain p c where pc: "pc = (p, c)" by (metis surj_pair)
    have p: "p < length (heap (fst s1))"
      using batch_conn_same(2) [OF assms(1) 1, of p c] assms(2,3) same_routes_length [OF s1] Inr pc by auto
    obtain err c2 e2 where 2: "batch_send (w_net w) (NodeType (heap (fst s1) ! p) = SLAVE_NODE) (nb_cmds nb) c (snd s1) = (err, c2, e2)"
      by (metis surj_pair)
    show ?thesis
    proof (cases err)
      case (Some x)
      then show ?thesis using assms(4) 1 2 Inr pc s1 by (auto simp: doBatch_def)
    next
      case None
      then obtain berr cmds c3 s3 where 3: "batch_receive w p (nb_cmds nb) c2 (fst s1, e2) = Some (Ret ((berr, cmds, c3), s3))"
        "fst s' = fst s3 \<or> s' = snd (node_call p (\<lambda>n e. ((), releaseConn (w_net w) c3 n e)) s3)"
        using assms(4) 1 2 Inr pc by (fastforce simp: doBatch_def bind_run_Ret_iff split: option.splits)
      have s3: "same_routes (fst s) (fst s3)"
        using same_routes_trans [OF s1] batch_receive_same [OF _ _ 3(1)] cluster_inv_same_routes [OF assms(1) s1] p by simp
      have keeps: "keeps_identity (\<lambda>n e. ((), releaseConn (w_net w) c3 n e))"
        using releaseConn_identity by (auto simp: keeps_identity_def)
      let ?r = "node_call p (\<lambda>n e. ((), releaseConn (w_net w) c3 n e)) s3"
      have "?r = ((), snd ?r)" by (simp add: prod_eq_iff)
      then show ?thesis
        using 3(2) s3 same_routes_trans [OF s3 node_call_same [OF keeps]] by metis
    qed
  qed
qed

lemma run_batches_same:
  "cluster_inv (fst s) \<Longrightarrow> \<forall>i \<in> set order. i < length bs \<Longrightarrow>
     \<forall>b \<in> set bs. nb_node b < length (heap (fst s)) \<and> (\<forall>m. nb_master b = Some m \<longrightarrow> m < length (heap (fst s))) \<Longrightarrow>
     run_batches w order bs s = Some (Ret (bs', s')) \<Longrightarrow>
     same_routes (fst s) (fst s') \<and> (\<forall>b \<in> set bs'. nb_node b < length (heap (fst s')))"
proof (induction order arbitrary: bs s)
  case (Cons j order)
  obtain nb s1 where 1: "doBatch w (bs ! j) s = Some (Ret (nb, s1))"
    "run_batches w order (bs[j := nb]) s1 = Some (Ret (bs', s'))"
    using Cons.prems(4) by (auto simp: bind_run_Ret_iff)
  have j: "bs ! j \<in> set bs" using Cons.prems(2) by simp
  have s1: "same_routes (fst s) (fst s1)" by (rule doBatch_same [OF Cons.prems(1) _ _ 1(1)]) (use Cons.prems(3) j in auto)
  have "\<forall>b \<in> set bs. nb_node b < length (heap (fst s1)) \<and> (\<forall>m. nb_master b = Some m \<longrightarrow> m < length (heap (fst s1)))"
    using Cons.prems(3) same_routes_length [OF s1] by simp
  moreover have "nb_node nb = nb_node (bs ! j)" "nb_master nb = nb_master (bs ! j)" using doBatch_asked [OF 1(1)] by simp_all
  ultimately have "\<forall>b \<in> set (bs[j := nb]). nb_node b < length (heap (fst s1)) \<and> (\<forall>m. nb_master b = Some m \<longrightarrow> m < length (heap (fst s1)))"
    using j set_update_subset_insert [of bs j nb] by (metis insertE subsetD)
  then show ?case
    using Cons.IH [OF cluster_inv_same_routes [OF Cons.prems(1) s1] _ _ 1(2)] Cons.prems(2) same_routes_trans [OF s1] by simp
qed simp

lemma batch_replies_same:
  "cluster_inv (fst s) \<Longrightarrow> batch_replies w is acc bs s = Ret (r, bs', s') \<Longrightarrow> same_routes (fst s) (fst s')"
proof (induction w "is" acc bs s rule: batch_replies.induct)
  case (2 w i "is" acc bs s)
  let ?u = "UpdateSlotsInfoByRandomNode w (nb_node (bs ! i)) s"
  have u: "same_routes (fst s) (fst ?u)" by (rule UpdateSlotsInfo_same [OF 2(2)])
  obtain c cs where c: "i < length bs" "nb_cmds (bs ! i) = c # cs"
    using 2(3) by (auto split: if_splits list.splits)
  show ?case
  proof (cases "checkReply (nc_reply c) = kRespClusterDown")
    case True
    then show ?thesis using 2(3) c u by auto
  next
    case False
    let ?s = "if nb_err (bs ! i) \<noteq> None then ?u else s"
    have "same_routes (fst s) (fst ?s)" using u by simp
    moreover have "same_routes (fst ?s) (fst s')"
      using 2(1) [OF _ c(2) False refl] 2(3) c False cluster_inv_same_routes [OF 2(2) \<open>same_routes (fst s) (fst ?s)\<close>]
      by (simp add: Let_def)
    ultimately show ?thesis by (rule same_routes_trans)
  qed
qed simp

lemma RunBatch_same:
  assumes "perm_law w" "cluster_inv (fst s)" "batch_nodes_valid (fst s) bat" "RunBatch w bat s = Some (Ret (r, bat', s'))"
  shows "same_routes (fst s) (fst s')"
proof -
  obtain order s1 where o: "env_call (w_perm w (length (bt_batches bat))) s = (order, s1)" by (metis surj_pair)
  note P = perm_order [OF assms(1) o]
  obtain bs s2 where 1: "run_batches w order (bt_batches bat) s1 = Some (Ret (bs, s2))"
    "\<exists>r bs'. batch_replies w (bt_index bat) [] bs s2 = Ret (r, bs', s')"
    using assms(4) o by (fastforce simp: RunBatch_def bind_run_Ret_iff bind_outcome_Ret_iff)
  have "same_routes (fst s1) (fst s2)"
    using run_batches_same [OF _ _ _ 1(1)] P assms(2,3) by (simp add: batch_nodes_valid_def)
  then have s2: "same_routes (fst s) (fst s2)" using P by simp
  show ?thesis
    using 1(2) same_routes_trans [OF s2] batch_replies_same [OF cluster_inv_same_routes [OF assms(2) s2]] by blast
qed

lemma put_target_same:
  assumes "cluster_inv (fst s)" "put_target w slave seed cmd a s = (r, s')"
  shows "same_routes (fst s) (fst s')"
  using assms(2) heartbeat_same [OF assms(1), of w] by (auto simp: put_target_def Let_def split: if_splits sum.splits)

lemma put_target_valid:
  assumes "cluster_inv (fst s)" "put_target w slave seed cmd a s = (Inr (p, m), s')"
  shows "p < length (heap (fst s')) \<and> (\<forall>q. m = Some q \<longrightarrow> q < length (heap (fst s')))"
proof -
  note h = heartbeat_same [OF assms(1), of w]
  have "p < length (heap (fst s)) \<and> (\<forall>q. m = Some q \<longrightarrow> q < length (heap (fst s)))"
    if t: "getAnSlaveNodeByNumSeed ff a seed (fst s) = Inr (p, m)" for ff
  proof -
    obtain k where k: "key ff a = Inr k" using t by (auto simp: getAnSlaveNodeByNumSeed_def split: sum.splits)
    let ?ns = "slaveslots (fst s) (hash k)"
    have "\<forall>q \<in> set ?ns. q < length (heap (fst s))" using assms(1) unfolding cluster_inv_def by blast
    moreover have "p \<in> set ?ns" using t k by (auto simp: getAnSlaveNodeByNumSeed_def Let_def split: if_splits)
    ultimately show ?thesis
      using t k assms(1) by (auto simp: getAnSlaveNodeByNumSeed_def Let_def cluster_inv_def split: if_splits)
  qed
  then show ?thesis
    using assms getNodeByKey_valid [OF assms(1)] getNodeByKey_valid [OF cluster_inv_same_routes [OF assms(1) h]]
    by (auto simp: put_target_def Let_def split: if_splits sum.splits)
qed

lemma Put_same:
  assumes "cluster_inv (fst s)" "Put w slave cmd args bat s = (r, s')"
  shows "same_routes (fst s) (fst s')"
  using assms(2) by (auto simp: Put_def dest: put_target_same [OF assms(1)] split: if_splits prod.splits sum.splits)

end
