(* ===== verification/Cluster_Run.thy ===== *)
theory Cluster_Run
  imports Cluster_Batch
begin

text \<open>
  Commands as a whole: chains of redirections, the state machine of a cluster client that starts with
  \<open>NewCluster\<close> and runs commands, updates, heartbeats and \<open>Close\<close>, and what holds of every state it reaches.
\<close>

section \<open>Chains of redirections\<close>

text \<open>One turn of the loop: what is asked next is decided by the last reply.\<close>

definition hop :: "('e, 'r, 'w) world \<Rightarrow> node_ptr \<Rightarrow> bytes \<Rightarrow> arg list \<Rightarrow> reply \<times> ('e, 'r, 'w) cst \<Rightarrow> reply \<times> ('e, 'r, 'w) cst" where
  "hop w p cmd args = (\<lambda>(reply, s). case handleMove w p (reply_msg reply) cmd args s of ((reply, err), s) \<Rightarrow> (reply, s))"

definition hops :: "('e, 'r, 'w) world \<Rightarrow> node_ptr \<Rightarrow> bytes \<Rightarrow> arg list \<Rightarrow> reply \<times> ('e, 'r, 'w) cst \<Rightarrow> nat \<Rightarrow> reply \<times> ('e, 'r, 'w) cst" where
  "hops w p cmd args x n = (hop w p cmd args ^^ n) x"

definition settled :: "reply \<times> ('e, 'r, 'w) cst \<Rightarrow> bool" where
  "settled x \<longleftrightarrow> checkReply (fst x) \<noteq> kRespMove"

lemma hops_0 [simp]: "hops w p cmd args x 0 = x"
  by (simp add: hops_def)

lemma hops_Suc: "hops w p cmd args x (Suc n) = hop w p cmd args (hops w p cmd args x n)"
  by (simp add: hops_def)

lemma hops_Suc_shift: "hops w p cmd args x (Suc n) = hops w p cmd args (hop w p cmd args x) n"
  by (simp add: hops_def funpow_swap1)

text \<open>The loop gives the error of the last exchange too, which its callers ignore.\<close>

lemma move_loop_hop:
  "map_option (\<lambda>((r, _), s). (r, s)) (move_loop w p cmd args reply s) =
     (let y = hop w p cmd args (reply, s) in if settled y then Some y
      else map_option (\<lambda>((r, _), s). (r, s)) (move_loop w p cmd args (fst y) (snd y)))"
  by (subst move_loop.simps) (auto simp: hop_def settled_def split: prod.splits)

lemma move_loop_chain:
  assumes "\<And>k. k < n \<Longrightarrow> \<not> settled (hops w p cmd args x (Suc k))" "settled (hops w p cmd args x (Suc n))"
  shows "map_option (\<lambda>((r, _), s). (r, s)) (move_loop w p cmd args (fst x) (snd x)) = Some (hops w p cmd args x (Suc n))"
  using assms
proof (induction n arbitrary: x)
  case 0
  then show ?case by (simp add: move_loop_hop Let_def hops_Suc)
next
  case (Suc n)
  let ?y = "hop w p cmd args x"
  have "\<not> settled ?y" using Suc.prems(1) [of 0] by (simp add: hops_Suc)
  moreover have "map_option (\<lambda>((r, _), s). (r, s)) (move_loop w p cmd args (fst ?y) (snd ?y)) = Some (hops w p cmd args ?y (Suc n))"
    using Suc.prems(1) [of "Suc k" for k] Suc.prems(2)
    by (intro Suc.IH) (simp_all add: hops_Suc_shift [of w p cmd args x])
  ultimately show ?case
    by (simp add: move_loop_hop Let_def hops_Suc_shift [of w p cmd args x])
qed

lemma move_loop_ends:
  fixes w :: "('e, 'r, 'w) world" and s :: "('e, 'r, 'w) cst"
  assumes "move_loop w p cmd args reply s = Some y"
  shows "\<exists>n. settled (hops w p cmd args (reply, s) (Suc n))"
proof (rule move_loop.raw_induct [OF _ assms, where P = "\<lambda>w p cmd args reply s y.
    \<exists>n. settled (hops w p cmd args (reply, s) (Suc n))"])
  fix rec :: "('e, 'r, 'w) world \<Rightarrow> nat \<Rightarrow> bytes \<Rightarrow> arg list \<Rightarrow> reply \<Rightarrow> ('e, 'r, 'w) cst \<Rightarrow> (result \<times> ('e, 'r, 'w) cst) option"
  fix w :: "('e, 'r, 'w) world" and p cmd args reply and s :: "('e, 'r, 'w) cst" and y
  assume IH: "\<And>w p cmd args reply s y. rec w p cmd args reply s = Some y \<Longrightarrow>
        \<exists>n. settled (hops w p cmd args (reply, s) (Suc n))"
    and body: "(case handleMove w p (reply_msg reply) cmd args s of ((reply, err), s) \<Rightarrow>
        if checkReply reply \<noteq> kRespMove then Some ((reply, err), s) else rec w p cmd args reply s) = Some y"
  obtain re err s1 where h: "handleMove w p (reply_msg reply) cmd args s = ((re, err), s1)" by (metis surj_pair)
  have hop: "hop w p cmd args (reply, s) = (re, s1)" by (simp add: hop_def h)
  show "\<exists>n. settled (hops w p cmd args (reply, s) (Suc n))"
  proof (cases "checkReply re = kRespMove")
    case True
    then have "rec w p cmd args re s1 = Some y" using body h by simp
    from IH [OF this] obtain n where "settled (hops w p cmd args (re, s1) (Suc n))" by blast
    then have "settled (hops w p cmd args (reply, s) (Suc (Suc n)))"
      using hops_Suc_shift [of w p cmd args "(reply, s)" "Suc n"] hop by simp
    then show ?thesis by blast
  next
    case False
    then have "settled (hops w p cmd args (reply, s) (Suc 0))" by (simp add: hops_Suc hop settled_def)
    then show ?thesis by blast
  qed
qed

lemma follow_chain:
  "follow w p cmd args reply s =
     (if \<exists>n. settled (hops w p cmd args (reply, s) n)
      then (case hops w p cmd args (reply, s) (LEAST n. settled (hops w p cmd args (reply, s) n)) of
          (reply, s) \<Rightarrow> Some (finish_reply w p cmd args reply s))
      else None)"
proof (cases "settled (reply, s)")
  case True
  then have "(LEAST n. settled (hops w p cmd args (reply, s) n)) = 0" by (intro Least_equality) simp_all
  then show ?thesis using True by (auto simp: follow_def settled_def intro: exI [of _ 0])
next
  case move: False
  let ?h = "hops w p cmd args (reply, s)"
  show ?thesis
  proof (cases "\<exists>n. settled (?h n)")
    case True
    define n where "n = (LEAST n. settled (?h n))"
    have n: "settled (?h n)" "\<And>k. k < n \<Longrightarrow> \<not> settled (?h k)"
      unfolding n_def using True by (auto intro: LeastI_ex dest: not_less_Least)
    then obtain m where m: "n = Suc m" using move by (cases n) auto
    have "map_option (\<lambda>((r, _), s). (r, s)) (move_loop w p cmd args reply s) = Some (?h (Suc m))"
      using move_loop_chain [of m w p cmd args "(reply, s)"] n m by simp
    then obtain e where "move_loop w p cmd args reply s = Some ((fst (?h n), e), snd (?h n))"
      using m by (cases "move_loop w p cmd args reply s"; cases "?h (Suc m)") (auto split: prod.splits)
    then have "follow w p cmd args reply s = Some (finish_reply w p cmd args (fst (?h n)) (snd (?h n)))"
      using move by (simp add: follow_def settled_def)
    then show ?thesis using True by (simp add: n_def split_def)
  next
    case False
    then have "move_loop w p cmd args reply s = None"
      by (cases "move_loop w p cmd args reply s") (auto dest: move_loop_ends)
    then show ?thesis using False move by (simp add: follow_def settled_def)
  qed
qed

lemma Do_first:
  assumes "args \<noteq> []" "cmd \<notin> {''MSET'', ''MSETNX'', ''MGET''}"
    "getNodeByKey (net_float (w_net w)) (hd args) (fst s) = Inr p" "first_call w cmd args p s = Ret ((reply, None), s1)"
  shows "Do w cmd args s = follow w p cmd args reply s1"
  using assms(4) Do_simple [OF assms(1-3)] by (simp add: bind_run_def)

text \<open>C26. Redirections are followed to their end: after a first reply, \<open>Do\<close> returns what it makes of the
  first reply of the chain that is not \<open>MOVED\<close>, in the state the chain has reached; when every reply
  of the chain is \<open>MOVED\<close> it never returns, as the loop has no bound.\<close>

theorem Do_follows_redirections:
  assumes "args \<noteq> []" "cmd \<notin> {''MSET'', ''MSETNX'', ''MGET''}"
    "getNodeByKey (net_float (w_net w)) (hd args) (fst s) = Inr p" "first_call w cmd args p s = Ret ((reply, None), s1)"
    "h = hops w p cmd args (reply, s1)"
  shows "(\<forall>n. settled (h n) \<longrightarrow> (\<forall>k < n. \<not> settled (h k)) \<longrightarrow>
       Do w cmd args s = Some (finish_reply w p cmd args (fst (h n)) (snd (h n)))) \<and>
     ((\<forall>n. \<not> settled (h n)) \<longrightarrow> Do w cmd args s = None)"
proof (intro conjI allI impI)
  fix n assume n: "settled (h n)" "\<forall>k < n. \<not> settled (h k)"
  then have "(LEAST n. settled (h n)) = n" by (intro Least_equality) (auto simp: not_le [symmetric])
  then show "Do w cmd args s = Some (finish_reply w p cmd args (fst (h n)) (snd (h n)))"
    using Do_first [OF assms(1-4)] follow_chain [of w p cmd args reply s1] n(1) by (auto simp: assms(5) split_def)
next
  assume "\<forall>n. \<not> settled (h n)"
  then show "Do w cmd args s = None"
    using Do_first [OF assms(1-4)] follow_chain [of w p cmd args reply s1] by (auto simp: assms(5))
qed

text \<open>A server for each address, that gives every connection its reply; connections are not kept.\<close>

definition routing_world :: "(bytes \<Rightarrow> reply) \<Rightarrow> (int \<times> nat list, breader, bwriter) world" where
  "routing_world pf = (scripted_world [])\<lparr>w_listening := Pair False,
     w_net := sample_net\<lparr>net_dial := \<lambda>a t e. (Inr (7, NewReader [(reply_wire (pf a), None)], NewWriter ([], [])), e)\<rparr>\<rparr>"

definition short_lived :: "bytes \<Rightarrow> (breader, bwriter) redis_node" where
  "short_lived a = (sample_node [])\<lparr>address := a, aliveTime := 0\<rparr>"

definition pair_cluster :: "(breader, bwriter) cluster" where
  "pair_cluster = sample_cluster\<lparr>heap := [short_lived ''a'', short_lived ''b''], nodes := [(''a'', 0), (''b'', 1)], slots := \<lambda>_. Some 0\<rparr>"

lemma short_lived_do:
  assumes "sendable_reply (pf a)" "sendable (\<lambda>_. ''0'') cmd args"
  shows "\<exists>e'. node_do (w_net (routing_world pf)) cmd args (short_lived a) e = ((pf a, None), short_lived a, e')"
proof -
  let ?net = "w_net (routing_world pf)" and ?p = "reply_wire (pf a)"
  have p: "?p \<noteq> []" by (cases "pf a") (simp_all add: bulk_of_def)
  note s = scripted_streams(1,2) [OF p] scripted_streams(3,4)
  have net: "net_wr ?net = bufio_writer" "net_rd ?net = bufio_reader" "net_left ?net = (\<lambda>r. length (rd_rest r))"
      "net_float ?net = (\<lambda>_. ''0'')"
    by (simp_all add: routing_world_def sample_net_def)
  have c: "getConn ?net (short_lived a) e = (Inr (new_conn (short_lived a) 7 (NewReader [(?p, None)]) (NewWriter ([], []))), short_lived a, e)"
    by (simp add: getConn_def short_lived_def sample_node_def routing_world_def)
  obtain c' e' n e2 where d: "node_do ?net cmd args (short_lived a) e = ((pf a, None), n, e2)"
      "releaseConn ?net c' (short_lived a) e' = (n, e2)"
    using node_do_ready [where net = ?net and cmd = cmd and args = args and r = "pf a" and t = "[]" and e = e,
        unfolded net, OF bufio_sticky_writer bufio_byte_reader order_refl c] s assms
    by (auto simp: new_conn_def ready_def zeros_def)
  have "n = short_lived a" using d(2) by (auto simp: releaseConn_def short_lived_def split: if_splits)
  then show ?thesis using d(1) by blast
qed

lemma pair_call:
  assumes "p < 2" "sendable_reply (pf ([''a'', ''b''] ! p))" "sendable (\<lambda>_. ''0'') cmd args"
  shows "\<exists>e'. node_call p (node_do (w_net (routing_world pf)) cmd args) (pair_cluster, e) =
    ((pf ([''a'', ''b''] ! p), None), (pair_cluster, e'))"
proof -
  have h: "heap pair_cluster ! p = short_lived ([''a'', ''b''] ! p)"
    using assms(1) by (auto simp: pair_cluster_def less_2_cases_iff)
  obtain e' where e': "node_do (w_net (routing_world pf)) cmd args (heap pair_cluster ! p) e =
      ((pf ([''a'', ''b''] ! p), None), heap pair_cluster ! p, e')"
    using short_lived_do [of pf "[''a'', ''b''] ! p", OF assms(2,3)] h by metis
  have "pair_cluster\<lparr>heap := (heap pair_cluster)[p := heap pair_cluster ! p]\<rparr> = pair_cluster" by simp
  then show ?thesis using e' by (simp add: node_call_def)
qed

lemma pair_move:
  assumes "a = [''a'', ''b''] ! q" "q < 2" "sendable_reply (pf a)" "sendable (\<lambda>_. ''0'') cmd args"
  shows "\<exists>e'. hop (routing_world pf) p cmd args (RError (''MOVED 1 '' @ a), (pair_cluster, e)) = (pf a, (pair_cluster, e'))"
proof -
  have i: "\<exists>f. Inform (routing_world pf) (Some p) (pair_cluster, e) = (pair_cluster, f)"
    by (simp add: Inform_def routing_world_def env_call_def sample_net_def split: prod.splits)
  then obtain f where f: "Inform (routing_world pf) (Some p) (pair_cluster, e) = (pair_cluster, f)" by blast
  obtain e' where "node_call q (node_do (w_net (routing_world pf)) cmd args) (pair_cluster, f) = ((pf a, None), (pair_cluster, e'))"
    using pair_call [of q pf cmd args f] assms by auto
  moreover have "getNodeByAddr a pair_cluster = Inr q"
    using assms(1,2) by (auto simp: getNodeByAddr_def pair_cluster_def sample_cluster_inv less_2_cases_iff)
  moreover have "SplitByte (CHR '' '') (''MOVED 1 '' @ a) = [''MOVED'', ''1'', a]"
    using assms(1,2) by (auto simp: less_2_cases_iff)
  ultimately show ?thesis using f by (simp add: hop_def handleMove_def reply_msg_def Let_def)
qed

abbreviation far_reply :: "bytes \<Rightarrow> reply" where
  "far_reply a \<equiv> (if a = ''a'' then RError (''MOVED 1 '' @ ''b'') else RBulk ''v'')"

abbreviation circular_reply :: "bytes \<Rightarrow> reply" where
  "circular_reply a \<equiv> (if a = ''a'' then RError (''MOVED 1 '' @ ''b'') else RError (''MOVED 1 '' @ ''a''))"

lemma pair_first:
  assumes "sendable_reply (pf ''a'')"
  shows "\<exists>e'. first_call (routing_world pf) ''GET'' [AString ''k''] 0 (pair_cluster, e) = Ret ((pf ''a'', None), (pair_cluster, e'))"
    "getNodeByKey (net_float (w_net (routing_world pf))) (hd [AString ''k'']) (fst (pair_cluster, e)) = Inr 0"
  using pair_call [of 0 pf "''GET''" "[AString ''k'']" e] assms
  by (auto simp: first_call_def sendable_def small_def arg_bytes_def getNodeByKey_def key_def pair_cluster_def sample_cluster_inv(2))

lemma circular_hops:
  "\<exists>e'. hops (routing_world circular_reply) 0 ''GET'' [AString ''k''] (RError ''MOVED 1 b'', (pair_cluster, e)) n
     \<in> {(RError ''MOVED 1 a'', (pair_cluster, e')), (RError ''MOVED 1 b'', (pair_cluster, e'))}"
proof (induction n)
  case (Suc n)
  have c: "sendable (\<lambda>_. ''0'') ''GET'' [AString ''k'']" by (simp add: sendable_def small_def arg_bytes_def)
  obtain e1 where 1: "hops (routing_world circular_reply) 0 ''GET'' [AString ''k''] (RError ''MOVED 1 b'', (pair_cluster, e)) n
     \<in> {(RError ''MOVED 1 a'', (pair_cluster, e1)), (RError ''MOVED 1 b'', (pair_cluster, e1))}"
    using Suc by blast
  then show ?case
    using pair_move [of "''b''" 1 circular_reply "''GET''" "[AString ''k'']" 0 e1]
      pair_move [of "''a''" 0 circular_reply "''GET''" "[AString ''k'']" 0 e1] c by (auto simp: hops_Suc)
qed auto

lemma Do_follows_redirections_witness:
  "(\<exists>s'. Do (routing_world far_reply) ''GET'' [AString ''k''] (pair_cluster, (5, [])) = Some (Ret ((RBulk ''v'', None), s'))) \<and>
   Do (routing_world circular_reply) ''GET'' [AString ''k''] (pair_cluster, (5, [])) = None"
proof
  have c: "sendable (\<lambda>_. ''0'') ''GET'' [AString ''k'']" by (simp add: sendable_def small_def arg_bytes_def)
  have r: "sendable_reply (far_reply ''a'')" by simp
  obtain e1 where f: "first_call (routing_world far_reply) ''GET'' [AString ''k''] 0 (pair_cluster, (5, [])) =
      Ret ((far_reply ''a'', None), (pair_cluster, e1))"
    using pair_first(1) [of far_reply, OF r] by blast
  let ?h = "hops (routing_world far_reply) 0 ''GET'' [AString ''k''] (far_reply ''a'', (pair_cluster, e1))"
  obtain e2 where h: "?h 1 = (RBulk ''v'', (pair_cluster, e2))"
    using pair_move [of "''b''" 1 far_reply "''GET''" "[AString ''k'']" 0 e1] c by (auto simp: hops_Suc small_def)
  have "settled (?h 1)" unfolding h by (simp add: settled_def checkReply_def)
  moreover have "\<forall>k < 1. \<not> settled (?h k)" by (simp add: settled_def checkReply_def)
  ultimately have "Do (routing_world far_reply) ''GET'' [AString ''k''] (pair_cluster, (5, [])) =
      Some (finish_reply (routing_world far_reply) 0 ''GET'' [AString ''k''] (fst (?h 1)) (snd (?h 1)))"
    using Do_follows_redirections [OF _ _ pair_first(2) [of far_reply, OF r] f refl] by blast
  then show "\<exists>s'. Do (routing_world far_reply) ''GET'' [AString ''k''] (pair_cluster, (5, [])) = Some (Ret ((RBulk ''v'', None), s'))"
    unfolding h by (simp add: finish_reply_def checkReply_def)
next
  have r: "sendable_reply (circular_reply ''a'')" by simp
  obtain e1 where f: "first_call (routing_world circular_reply) ''GET'' [AString ''k''] 0 (pair_cluster, (5, [])) =
      Ret ((RError ''MOVED 1 b'', None), (pair_cluster, e1))"
    using pair_first(1) [of circular_reply, OF r, of "(5, [])"] by auto
  have "\<not> settled (hops (routing_world circular_reply) 0 ''GET'' [AString ''k''] (RError ''MOVED 1 b'', (pair_cluster, e1)) n)" for n
    using circular_hops [of e1 n] by (auto simp: settled_def checkReply_def)
  then show "Do (routing_world circular_reply) ''GET'' [AString ''k''] (pair_cluster, (5, [])) = None"
    using Do_follows_redirections [OF _ _ pair_first(2) [of circular_reply, OF r] f refl] by auto
qed

text \<open>\<open>Do\<close> loses the error of a redirection: when the node that a \<open>MOVED\<close> names is not known, or the text
  of the \<open>MOVED\<close> is malformed, \<open>handleMove\<close> reports it, and \<open>Do\<close> returns a nil reply and no error.\<close>

theorem Do_loses_move_error:
  assumes "args \<noteq> []" "cmd \<notin> {''MSET'', ''MSETNX'', ''MGET''}"
    "getNodeByKey (net_float (w_net w)) (hd args) (fst s) = Inr p" "first_call w cmd args p s = Ret ((RError m, None), s1)"
    "take 5 m = ''MOVED''" "length (SplitByte (CHR '' '') m) \<noteq> 3 \<or> map_of (nodes (fst s1)) (SplitByte (CHR '' '') m ! 2) = None"
  shows "\<exists>s'. Do w cmd args s = Some (Ret ((RNil, None), s'))"
proof -
  have move: "checkReply (RError m) = kRespMove"
  proof -
    have "take 3 m = take 3 (take 5 m)" by simp
    then show ?thesis using assms(5) by (simp add: checkReply_def)
  qed
  obtain t s2 where i: "env_call (net_now (w_net w)) s1 = (t, s2)" by (metis surj_pair)
  obtain b s3 where l: "env_call (w_listening w) s2 = (b, s3)" by (metis surj_pair)
  have "nodes (fst (Inform w (Some p) s1)) = nodes (fst s1)"
    using i l env_call_same [OF i] env_call_same [OF l] by (simp add: Inform_def)
  then have "\<exists>e s'. handleMove w p m cmd args s1 = ((RNil, Some e), s')"
    using assms(6) by (cases "length (SplitByte (CHR '' '') m) = 3") (simp_all add: handleMove_def Let_def getNodeByAddr_def)
  then obtain e s' where "handleMove w p m cmd args s1 = ((RNil, Some e), s')" by blast
  then have "move_loop w p cmd args (RError m) s1 = Some ((RNil, Some e), s')"
    by (subst move_loop.simps) (simp add: reply_msg_def checkReply_def)
  then show ?thesis
    using Do_first [OF assms(1-4)] move by (simp add: follow_def finish_reply_def checkReply_def)
qed

lemma Do_loses_move_error_witness:
  "\<exists>s'. Do (routing_world (\<lambda>_. RError ''MOVED 1 c'')) ''GET'' [AString ''k''] (pair_cluster, (5, [])) = Some (Ret ((RNil, None), s'))"
proof -
  let ?w = "routing_world (\<lambda>_. RError ''MOVED 1 c'')"
  obtain e1 where f: "first_call ?w ''GET'' [AString ''k''] 0 (pair_cluster, (5, [])) = Ret ((RError ''MOVED 1 c'', None), (pair_cluster, e1))"
    using pair_first(1) [of "\<lambda>_. RError ''MOVED 1 c''" "(5, [])"] by auto
  have k: "getNodeByKey (net_float (w_net ?w)) (hd [AString ''k'']) (fst (pair_cluster, (5 :: int, [] :: nat list))) = Inr 0"
    by (rule pair_first(2)) simp
  show ?thesis
    by (rule Do_loses_move_error [OF _ _ k f]) (simp_all add: pair_cluster_def)
qed

section \<open>The cluster as a state machine\<close>

text \<open>What happens to a running client: commands, batches, the two background routines and \<open>Close\<close>. A
  command that does not return or that panics has no successor state.\<close>

datatype cluster_event =
    EvDo bytes "arg list"
  | EvSlaveDo bytes "arg list"
  | EvPut bool bytes "arg list" batch
  | EvRunBatch batch
  | EvUpdate
  | EvHeartbeat
  | EvClose

definition after_run :: "('a \<times> ('e, 'r, 'w) cst) outcome option \<Rightarrow> ('e, 'r, 'w) cst option" where
  "after_run m = (case m of Some (Ret (_, s)) \<Rightarrow> Some s | _ \<Rightarrow> None)"

fun run_event :: "('e, 'r, 'w) world \<Rightarrow> cluster_event \<Rightarrow> ('e, 'r, 'w) cst \<Rightarrow> ('e, 'r, 'w) cst option" where
  "run_event w (EvDo cmd args) s = after_run (Do w cmd args s)"
| "run_event w (EvSlaveDo cmd args) s = after_run (SlaveDo w cmd args s)"
| "run_event w (EvPut slave cmd args bat) s = Some (snd (Put w slave cmd args bat s))"
| "run_event w (EvRunBatch bat) s =
     (case RunBatch w bat s of Some (Ret (_, _, s)) \<Rightarrow> Some s | _ \<Rightarrow> None)"
| "run_event w EvUpdate s = (case handleUpdate w s of Ret s \<Rightarrow> Some s | _ \<Rightarrow> None)"
| "run_event w EvHeartbeat s = Some (UpdateSlotsByRandomMasterNode w s)"
| "run_event w EvClose s = Some (Close w s)"

text \<open>A batch that is run has been filled by \<open>Put\<close>, whose nodes are nodes of the cluster.\<close>

fun event_ok :: "('r, 'w) cluster \<Rightarrow> cluster_event \<Rightarrow> bool" where
  "event_ok cl (EvRunBatch bat) \<longleftrightarrow> batch_nodes_valid cl bat"
| "event_ok cl _ \<longleftrightarrow> True"

inductive reachable :: "('e, 'r, 'w) world \<Rightarrow> cluster_options \<Rightarrow> ('e, 'r, 'w) cst \<Rightarrow> bool" for w opt where
  start: "NewCluster w opt e = Ret (Inr cl, e') \<Longrightarrow> reachable w opt (cl, e')"
| event: "reachable w opt s \<Longrightarrow> event_ok (fst s) ev \<Longrightarrow> run_event w ev s = Some s' \<Longrightarrow> reachable w opt s'"

lemma append_node_inv:
  assumes "cluster_inv cl"
  shows "cluster_inv (cl\<lparr>heap := heap cl @ [n]\<rparr>)"
proof -
  have "maps_ok (heap cl @ [n]) (nodes cl) (slaveNodes cl)"
    using assms by (intro maps_ok_extends [OF _ extends_append]) (auto simp: cluster_inv_def nth_append)
  then show ?thesis using assms by (fastforce simp: cluster_inv_def less_SucI)
qed

lemma try_start_nodes_inv:
  "iter_law w \<Longrightarrow> cluster_inv (fst s) \<Longrightarrow> try_start_nodes w as s = Ret (ok, s') \<Longrightarrow> cluster_inv (fst s')"
proof (induction "as" arbitrary: s)
  case (Cons a "as")
  let ?s = "((fst s)\<lparr>heap := heap (fst s) @ [new_node (fst s) a UNKNOWN_NODE]\<rparr>, snd s)"
  obtain err s1 where u: "Update w (Some (length (heap (fst s)))) ?s = Ret (err, s1)"
    using Cons.prems(3) by (auto simp: Let_def bind_outcome_Ret_iff)
  have i: "cluster_inv (fst s1)"
    by (rule Update_inv [OF Cons.prems(1) _ u]) (simp add: append_node_inv Cons.prems(2))
  show ?case
  proof (cases err)
    case None
    then show ?thesis using Cons.prems(3) u i by (auto simp: Let_def)
  next
    case (Some e)
    then show ?thesis using Cons.prems u by (auto simp: Let_def intro: Cons.IH [OF _ i])
  qed
qed simp

lemma run_event_inv:
  assumes "iter_law w" "perm_law w" "cluster_inv (fst s)" "event_ok (fst s) ev" "run_event w ev s = Some s'"
  shows "cluster_inv (fst s')"
proof (cases ev)
  case (EvDo cmd args)
  then show ?thesis
    using assms(5) Do_same [OF assms(2,3)] cluster_inv_same_routes [OF assms(3)]
    by (auto simp: after_run_def split: option.splits outcome.splits)
next
  case (EvSlaveDo cmd args)
  then show ?thesis
    using assms(5) SlaveDo_same [OF assms(2,3)] cluster_inv_same_routes [OF assms(3)]
    by (auto simp: after_run_def split: option.splits outcome.splits)
next
  case (EvPut slave cmd args bat)
  obtain r s1 where "Put w slave cmd args bat s = (r, s1)" by (metis surj_pair)
  then show ?thesis
    using assms(5) EvPut Put_same [OF assms(3)] cluster_inv_same_routes [OF assms(3)] by auto
next
  case (EvRunBatch bat)
  then show ?thesis
    using assms(4,5) RunBatch_same [OF assms(2,3)] cluster_inv_same_routes [OF assms(3)]
    by (auto split: option.splits outcome.splits)
next
  case EvUpdate
  then show ?thesis using assms(5) handleUpdate_inv [OF assms(1,3)] by (auto split: outcome.splits)
next
  case EvHeartbeat
  then show ?thesis using assms(5) cluster_inv_same_routes [OF assms(3) heartbeat_same [OF assms(3)]] by auto
next
  case EvClose
  then show ?thesis using assms(5) Close_facts(1) [OF assms(1,3)] by auto
qed

lemma reachable_cluster_inv:
  assumes "reachable w opt s" "iter_law w" "perm_law w"
  shows "cluster_inv (fst s)"
  using assms(1)
proof (induction rule: reachable.induct)
  case (start e cl e')
  have "cluster_inv (fst (make_cluster opt, e))"
    by (simp add: make_cluster_def cluster_inv_def maps_ok_def node_map_ok_def)
  moreover obtain s' where "try_start_nodes w (StartNodes opt) (make_cluster opt, e) = Ret (True, s')" "cl = fst s'"
    using start by (auto simp: NewCluster_def bind_outcome_Ret_iff split: if_splits)
  ultimately show ?case using try_start_nodes_inv [OF assms(2), of "(make_cluster opt, e)" "StartNodes opt" True s'] by simp
next
  case (event s ev s')
  show ?case by (rule run_event_inv [OF assms(2,3) event.IH event.hyps(2,3)])
qed

section \<open>Which table a client routes by\<close>

text \<open>The node \<open>p\<close>, asked in state \<open>s\<close>, answers with the table \<open>ls\<close>.\<close>

definition served :: "('e, 'r, 'w) world \<Rightarrow> node_ptr \<Rightarrow> slot_line list \<Rightarrow> ('e, 'r, 'w) cst \<Rightarrow> bool" where
  "served w p ls s \<longleftrightarrow> fst (node_call p (node_do (w_net w) ''CLUSTER'' [AString ''SLOTS'']) s) = (slots_reply ls, None)"

text \<open>The first start node whose update succeeds served \<open>ls\<close>.\<close>

fun first_table :: "('e, 'r, 'w) world \<Rightarrow> bytes list \<Rightarrow> slot_line list \<Rightarrow> ('e, 'r, 'w) cst \<Rightarrow> bool" where
  "first_table w [] ls s \<longleftrightarrow> False"
| "first_table w (a # as) ls s \<longleftrightarrow>
     (let p = length (heap (fst s)); s = ((fst s)\<lparr>heap := heap (fst s) @ [new_node (fst s) a UNKNOWN_NODE]\<rparr>, snd s)
      in case Update w (Some p) s of Ret (Some _, s') \<Rightarrow> first_table w as ls s' | Ret (None, _) \<Rightarrow> served w p ls s | Panic _ \<Rightarrow> False)"

text \<open>The message the update routine will act on, and the state in which it does; \<open>no_table\<close>: it will not act, or the
  update will fail.\<close>

definition due_message :: "('r, 'w) cluster \<Rightarrow> node_ptr option option" where
  "due_message cl = (case updateList cl of [] \<Rightarrow> None | (node, moved) # _ \<Rightarrow> if cl_updateTime cl + second < moved then Some node else None)"

definition taken :: "('e, 'r, 'w) cst \<Rightarrow> ('e, 'r, 'w) cst" where
  "taken s = ((fst s)\<lparr>updateList := tl (updateList (fst s))\<rparr>, snd s)"

definition no_table :: "('e, 'r, 'w) world \<Rightarrow> ('e, 'r, 'w) cst \<Rightarrow> bool" where
  "no_table w s \<longleftrightarrow> (case due_message (fst s) of None \<Rightarrow> True
     | Some node \<Rightarrow> (case Update w node (taken s) of Ret (Some _, _) \<Rightarrow> True | _ \<Rightarrow> False))"

text \<open>The client is in a state \<open>s\<close> it can reach, and \<open>ls\<close> is the last table it has taken.\<close>

inductive routed :: "('e, 'r, 'w) world \<Rightarrow> cluster_options \<Rightarrow> slot_line list \<Rightarrow> ('e, 'r, 'w) cst \<Rightarrow> bool" for w opt ls where
  boot: "NewCluster w opt e = Ret (Inr cl, e') \<Longrightarrow> first_table w (StartNodes opt) ls (make_cluster opt, e) \<Longrightarrow> routed w opt ls (cl, e')"
| update: "reachable w opt s \<Longrightarrow> due_message (fst s) = Some (Some p) \<Longrightarrow> served w p ls (taken s) \<Longrightarrow> run_event w EvUpdate s = Some s' \<Longrightarrow>
     routed w opt ls s'"
| keep: "routed w opt ls s \<Longrightarrow> event_ok (fst s) ev \<Longrightarrow> run_event w ev s = Some s' \<Longrightarrow> (ev = EvUpdate \<Longrightarrow> no_table w s) \<Longrightarrow>
     routed w opt ls s'"

lemma routed_reachable: "routed w opt ls s \<Longrightarrow> reachable w opt s"
proof (induction rule: routed.induct)
  case (update s p s')
  show ?case by (rule reachable.event [OF update(1) _ update(4)]) simp
qed (blast intro: reachable.intros)+

text \<open>Every slot of the table leads to the node of its master, which is in the map of nodes.\<close>

definition follows :: "slot_line list \<Rightarrow> ('r, 'w) cluster \<Rightarrow> bool" where
  "follows ls cl \<longleftrightarrow> (\<forall>l \<in> set ls. \<forall>j. lo l \<le> j \<and> j \<le> hi l \<longrightarrow>
     (\<exists>q. slots cl j = Some q \<and> map_of (nodes cl) (server_addr (master l)) = Some q))"

lemma Update_served:
  assumes "iter_law w" "cluster_inv (fst s)" "valid_slots ls" "served w p ls s"
  shows "\<exists>s'. Update w (Some p) s = Ret (None, s') \<and> follows ls (fst s')"
proof -
  obtain s2 where c: "node_call p (node_do (w_net w) ''CLUSTER'' [AString ''SLOTS'']) (fst s, snd s) = ((slots_reply ls, None), s2)"
    using assms(4) unfolding served_def by (metis prod.collapse)
  note full = valid_slots_full [OF assms(3)]
  obtain s' sl where U: "Update w (Some p) (fst s, snd s) = Ret (None, s')"
    "\<forall>a j. covered sl a j \<longleftrightarrow> (\<exists>l \<in> set ls. announces (master l) l a j)"
    "\<forall>j a. owned_by sl j a \<longrightarrow> (\<exists>q. slots (fst s') j = Some q \<and> map_of (nodes (fst s')) a = Some q)"
    by (rule Update_in_range [OF assms(1,2) conjunct1 [OF full] conjunct2 [OF full] c])
  have "owned_by sl j (server_addr (master l))" if l: "l \<in> set ls" "lo l \<le> j" "j \<le> hi l" for l j
  proof -
    have "covered sl b j \<longleftrightarrow> b = server_addr (master l)" for b
    proof
      assume "covered sl b j"
      then obtain m where "m \<in> set ls" "server_addr (master m) = b" "lo m \<le> j" "j \<le> hi m"
        using U(2) unfolding announces_def by metis
      then show "b = server_addr (master l)" using valid_slots_unique [OF assms(3) _ l(1) _ _ l(2,3)] by metis
    qed (use U(2) l in \<open>unfold announces_def, metis\<close>)
    then show ?thesis unfolding owned_by_def covered_def by blast
  qed
  then show ?thesis using U(1,3) by (auto simp: follows_def)
qed

text \<open>An update that fails has only asked.\<close>

lemma Update_fails:
  assumes "Update w node s = Ret (Some err, s')"
  shows "routes (fst s') = routes (fst s)"
proof (cases node)
  case None
  then show ?thesis using assms by (simp add: Update_def)
next
  case (Some p)
  obtain reply e s1 where c: "node_call p (node_do (w_net w) ''CLUSTER'' [AString ''SLOTS'']) s = ((reply, e), s1)"
    by (metis surj_pair)
  have "s' = s1" using assms Some c by (auto simp: Update_def Let_def bind_outcome_Ret_iff split: prod.splits option.splits if_splits)
  then show ?thesis using node_call_same [OF node_do_identity c] by (simp add: same_routes_def)
qed

lemma handleUpdate_due:
  "handleUpdate w s = (case due_message (fst s) of
     None \<Rightarrow> Ret (if updateList (fst s) = [] then s else taken s)
   | Some node \<Rightarrow> bind_outcome (Update w node (taken s)) (\<lambda>(_, s). Ret s))"
  by (auto simp: handleUpdate_def due_message_def taken_def Let_def split: list.split)

lemma run_event_routes:
  assumes "perm_law w" "cluster_inv (fst s)" "iter_law w" "event_ok (fst s) ev" "run_event w ev s = Some s'" "ev = EvUpdate \<Longrightarrow> no_table w s"
  shows "routes (fst s') = routes (fst s) \<or> cl_closed (fst s')"
proof (cases ev)
  case (EvDo cmd args)
  then obtain x where "Do w cmd args s = Some (Ret (x, s'))" using assms(5) by (auto simp: after_run_def split: option.splits outcome.splits)
  from Do_same [OF assms(1,2) this] show ?thesis by (simp add: same_routes_def)
next
  case (EvSlaveDo cmd args)
  then obtain x where "SlaveDo w cmd args s = Some (Ret (x, s'))" using assms(5) by (auto simp: after_run_def split: option.splits outcome.splits)
  from SlaveDo_same [OF assms(1,2) this] show ?thesis by (simp add: same_routes_def)
next
  case (EvPut slave cmd args bat)
  obtain r s1 where "Put w slave cmd args bat s = (r, s1)" by (metis surj_pair)
  then show ?thesis using assms(5) EvPut Put_same [OF assms(2)] by (auto simp: same_routes_def)
next
  case (EvRunBatch bat)
  then obtain x bat' where r: "RunBatch w bat s = Some (Ret (x, bat', s'))" using assms(5) by (auto split: option.splits outcome.splits)
  have "batch_nodes_valid (fst s) bat" using assms(4) EvRunBatch by simp
  from RunBatch_same [OF assms(1,2) this r] show ?thesis by (simp add: same_routes_def)
next
  case EvUpdate
  then have h: "handleUpdate w s = Ret s'" using assms(5) by (auto split: outcome.splits)
  have r: "routes (fst (taken s)) = routes (fst s)" by (simp add: taken_def routes_def)
  show ?thesis
  proof (cases "due_message (fst s)")
    case None
    then show ?thesis using h r by (auto simp: handleUpdate_due split: if_splits)
  next
    case (Some node)
    then obtain err where "Update w node (taken s) = Ret (Some err, s')"
      using h assms(6) EvUpdate by (auto simp: handleUpdate_due no_table_def bind_outcome_Ret_iff split: outcome.split_asm option.split_asm)
    then show ?thesis using Update_fails r by metis
  qed
next
  case EvHeartbeat
  then show ?thesis using assms(5) heartbeat_same [OF assms(2)] by (auto simp: same_routes_def)
next
  case EvClose
  then show ?thesis using assms(5) Close_facts(3) [OF assms(3,2)] by auto
qed

lemma first_table_follows:
  "iter_law w \<Longrightarrow> cluster_inv (fst s) \<Longrightarrow> valid_slots ls \<Longrightarrow> first_table w as ls s \<Longrightarrow> try_start_nodes w as s = Ret (ok, s') \<Longrightarrow> follows ls (fst s')"
proof (induction "as" arbitrary: s)
  case (Cons a "as")
  let ?p = "length (heap (fst s))"
  let ?s = "((fst s)\<lparr>heap := heap (fst s) @ [new_node (fst s) a UNKNOWN_NODE]\<rparr>, snd s)"
  have i: "cluster_inv (fst ?s)" by (simp add: append_node_inv Cons.prems(2))
  obtain err s1 where u: "Update w (Some ?p) ?s = Ret (err, s1)"
    using Cons.prems(5) by (auto simp: Let_def bind_outcome_Ret_iff)
  show ?case
  proof (cases err)
    case None
    then have "served w ?p ls ?s" "s' = s1" using Cons.prems(4,5) u by (simp_all add: Let_def)
    then show ?thesis using Update_served [OF Cons.prems(1) i Cons.prems(3), of ?p] u None by auto
  next
    case (Some e)
    have "first_table w as ls s1" "try_start_nodes w as s1 = Ret (ok, s')" using Some Cons.prems(4,5) u by (simp_all add: Let_def)
    then show ?thesis using Cons.IH [OF Cons.prems(1) Update_inv [OF Cons.prems(1) i u] Cons.prems(3)] by simp
  qed
qed simp

lemma routed_follows:
  assumes "routed w opt ls s" "iter_law w" "perm_law w" "valid_slots ls"
  shows "cl_closed (fst s) \<or> follows ls (fst s)"
  using assms(1)
proof (induction rule: routed.induct)
  case (boot e cl e')
  obtain s' where t: "try_start_nodes w (StartNodes opt) (make_cluster opt, e) = Ret (True, s')" "cl = fst s'"
    using boot by (auto simp: NewCluster_def bind_outcome_Ret_iff split: if_splits)
  have "cluster_inv (fst (make_cluster opt, e))"
    by (simp add: make_cluster_def cluster_inv_def maps_ok_def node_map_ok_def)
  then have "follows ls (fst s')" by (rule first_table_follows [OF assms(2) _ assms(4) boot(2) t(1)])
  then show ?case using t(2) by simp
next
  case (update s p s')
  have i: "cluster_inv (fst s)" by (rule reachable_cluster_inv [OF update(1) assms(2,3)])
  then have "cluster_inv (fst (taken s))" by (cases "updateList (fst s)") (auto simp: cluster_inv_def taken_def)
  from Update_served [OF assms(2) this assms(4) update(3)] obtain s1 where s1: "Update w (Some p) (taken s) = Ret (None, s1)" "follows ls (fst s1)"
    by blast
  moreover have "handleUpdate w s = Ret s'" using update(4) by (auto split: outcome.splits)
  ultimately show ?case using update(2) by (simp add: handleUpdate_due)
next
  case (keep s ev s')
  have "cluster_inv (fst s)" by (rule reachable_cluster_inv [OF routed_reachable [OF keep(1)] assms(2,3)])
  from run_event_routes [OF assms(3) this assms(2) keep(2,3,4)] show ?case
    using keep.IH by (auto simp: routes_def follows_def)
qed

text \<open>C11. The routing of every reachable client is sound, whatever commands, batches, updates and heartbeats ran. A
  lookup by address gives the node of that address, one that was not shut down; no node is kept as master and as
  slave; a lookup by key gives a node of the client. And as long as the last table the client has taken, from a
  start node or in an update, is a valid one (its ranges are within the slots, disjoint, and cover them all), a
  lookup by key gives the node of the master that table names for the slot of the key: it has that master's address,
  it is the node kept under it, and it was not shut down.\<close>

theorem reachable_routes:
  assumes "reachable w opt (cl, e)" "iter_law w" "perm_law w"
  shows "(\<forall>ff a p. getNodeByKey ff a cl = Inr p \<longrightarrow> p < length (heap cl)) \<and>
    (\<forall>ls ff a p. routed w opt ls (cl, e) \<and> valid_slots ls \<and> getNodeByKey ff a cl = Inr p \<longrightarrow>
       (\<exists>k l. key ff a = Inr k \<and> l \<in> set ls \<and> lo l \<le> hash k \<and> hash k \<le> hi l \<and> address (heap cl ! p) = server_addr (master l) \<and>
          map_of (nodes cl) (server_addr (master l)) = Some p \<and> \<not> closed (heap cl ! p))) \<and>
    (\<forall>addr p. getNodeByAddr addr cl = Inr p \<longrightarrow> p < length (heap cl) \<and> address (heap cl ! p) = addr \<and> \<not> closed (heap cl ! p)) \<and>
    snd ` set (nodes cl) \<inter> snd ` set (slaveNodes cl) = {}"
proof -
  have inv: "cluster_inv cl" using reachable_cluster_inv [OF assms] by simp
  then have maps: "maps_ok (heap cl) (nodes cl) (slaveNodes cl)" by (simp add: cluster_inv_def)
  have o: "\<not> closed (heap cl ! p)" if a: "getNodeByAddr addr cl = Inr p" for addr p
    using a maps_ok_lookup(3) [OF maps, of addr p] by (auto simp: getNodeByAddr_def split: if_splits option.splits)
  have by_key: "\<exists>k l. key ff a = Inr k \<and> l \<in> set ls \<and> lo l \<le> hash k \<and> hash k \<le> hi l \<and> address (heap cl ! p) = server_addr (master l) \<and>
      map_of (nodes cl) (server_addr (master l)) = Some p \<and> \<not> closed (heap cl ! p)"
    if r: "routed w opt ls (cl, e)" "valid_slots ls" and p: "getNodeByKey ff a cl = Inr p" for ls ff a p
  proof -
    obtain k where k: "key ff a = Inr k" "\<not> cl_closed cl" "slots cl (hash k) = Some p"
      using p by (auto simp: getNodeByKey_def Let_def split: sum.splits if_splits option.splits)
    obtain l where l: "l \<in> set ls" "lo l \<le> hash k" "hash k \<le> hi l"
      using valid_slots_cover [OF r(2), of "hash k"] hash_less by blast
    have "map_of (nodes cl) (server_addr (master l)) = Some p"
      using routed_follows [OF r(1) assms(2,3) r(2)] k(2,3) l by (fastforce simp: follows_def)
    then show ?thesis using k(1) l maps_ok_lookup(2,3) [OF maps] by blast
  qed
  show ?thesis
  proof (intro conjI allI impI)
    show "snd ` set (nodes cl) \<inter> snd ` set (slaveNodes cl) = {}" using inv by (simp add: cluster_inv_def maps_ok_def)
  qed (use by_key o getNodeByKey_valid [OF inv] getNodeByAddr_valid [OF inv] in simp_all)
qed

lemma fresh_call:
  assumes "sendable_reply r" "sendable (\<lambda>_. ''0'') cmd args" "conns (heap cl ! p) = []" "\<not> closed (heap cl ! p)"
  shows "\<exists>s. node_call p (node_do (scripted_net (reply_wire r)) cmd args) (cl, e) = ((r, None), s)"
proof -
  let ?p = "reply_wire r" and ?n = "heap cl ! p"
  have p: "?p \<noteq> []" by (cases r) (simp_all add: bulk_of_def)
  note s = scripted_streams(1,2) [OF p] scripted_streams(3,4)
  have "?n\<lparr>conns := []\<rparr> = ?n" using assms(3) by simp
  then have c: "getConn (scripted_net ?p) ?n e = (Inr (new_conn ?n 7 (NewReader [(?p, None)]) (NewWriter ([], []))), ?n, e)"
    using assms(3,4) by (simp add: getConn_def scripted_net_def sample_net_def)
  obtain n e' where "node_do (scripted_net ?p) cmd args ?n e = ((r, None), n, e')"
    using node_do_ready [where net = "scripted_net ?p" and cmd = cmd and args = args
        and r = r and t = "[]" and e = e, unfolded scripted_net_simps,
        OF bufio_sticky_writer bufio_byte_reader order_refl c] s assms
    by (auto simp: new_conn_def ready_def zeros_def)
  then show ?thesis by (simp add: node_call_def)
qed

lemma scripted_NewCluster:
  assumes "StartNodes opt = [''h:1'']"
  shows "\<exists>cl e'. NewCluster (scripted_world (reply_wire (slots_reply sample_lines))) opt (5, []) = Ret (Inr cl, e') \<and>
    \<not> cl_closed cl \<and> first_table (scripted_world (reply_wire (slots_reply sample_lines))) (StartNodes opt) sample_lines (make_cluster opt, (5, []))"
proof -
  let ?w = "scripted_world (reply_wire (slots_reply sample_lines))"
  have net: "w_net ?w = scripted_net (reply_wire (slots_reply sample_lines))" by (simp add: scripted_world_def)
  let ?cl = "(make_cluster opt)\<lparr>heap := [new_node (make_cluster opt) ''h:1'' UNKNOWN_NODE]\<rparr> :: (breader, bwriter) cluster"
  have r: "sendable_reply (slots_reply sample_lines)"
    by (simp add: slots_reply_def sample_lines_def line_reply_def node_reply_def in_int64_def small_def)
  have c: "sendable (\<lambda>_. ''0'') ''CLUSTER'' [AString ''SLOTS'']"
    by (simp add: sendable_def small_def arg_bytes_def)
  have n0: "conns (heap ?cl ! 0) = []" "\<not> closed (heap ?cl ! 0)" by (simp_all add: new_node_def)
  obtain s where s: "node_call 0 (node_do (w_net ?w) ''CLUSTER'' [AString ''SLOTS'']) (?cl, (5, [])) = ((slots_reply sample_lines, None), s)"
    unfolding net using fresh_call [OF r c n0, of "(5, [])"] by blast
  have inv: "cluster_inv ?cl" by (simp add: cluster_inv_def maps_ok_def node_map_ok_def make_cluster_def)
  note full = valid_slots_full [OF sample_lines_valid]
  obtain s' where u: "Update ?w (Some 0) (?cl, (5, [])) = Ret (None, s')" "cl_closed (fst s') = cl_closed ?cl"
    by (rule Update_in_range [OF scripted_iter inv conjunct1 [OF full] conjunct2 [OF full] s]) (rule that)
  then have "NewCluster ?w opt (5, []) = Ret (Inr (fst s'), snd s')"
    using assms by (simp add: NewCluster_def) (simp add: make_cluster_def)
  moreover have "first_table ?w (StartNodes opt) sample_lines (make_cluster opt, (5, []))"
  proof -
    have "heap (make_cluster opt :: (breader, bwriter) cluster) = []" by (simp add: make_cluster_def)
    moreover have "served ?w 0 sample_lines (?cl, (5, []))" using s by (simp add: served_def)
    ultimately show ?thesis using u(1) assms by (simp add: Let_def)
  qed
  moreover have "\<not> cl_closed (fst s')" using u(2) by (simp add: make_cluster_def)
  ultimately show ?thesis by blast
qed

lemma reachable_routes_witness:
  "\<exists>cl e' p. NewCluster (scripted_world (reply_wire (slots_reply sample_lines))) (sample_options [''h:1'']) (5, []) = Ret (Inr cl, e') \<and>
     snd ` set (nodes cl) \<inter> snd ` set (slaveNodes cl) = {} \<and>
     getNodeByKey (\<lambda>_. []) (AString ''k'') cl = Inr p \<and> address (heap cl ! p) = ''h:'' @ FormatInt 1 \<and> \<not> closed (heap cl ! p)"
proof -
  let ?w = "scripted_world (reply_wire (slots_reply sample_lines))" and ?opt = "sample_options [''h:1'']"
  obtain cl e' where n: "NewCluster ?w ?opt (5, []) = Ret (Inr cl, e')" "\<not> cl_closed cl"
      "first_table ?w (StartNodes ?opt) sample_lines (make_cluster ?opt, (5, []))"
    using scripted_NewCluster [of ?opt] by (auto simp: sample_options_def)
  have perm: "perm_law ?w" by (auto simp: perm_law_def scripted_world_def)
  have r: "routed ?w ?opt sample_lines (cl, e')" by (rule routed.boot [OF n(1,3)])
  have k: "key (\<lambda>_. []) (AString ''k'') = Inr ''k''" by (simp add: key_def)
  obtain l where l: "l \<in> set sample_lines" "lo l \<le> hash ''k''" "hash ''k'' \<le> hi l"
    using valid_slots_cover [OF sample_lines_valid, of "hash ''k''"] hash_less by blast
  then obtain p where "slots cl (hash ''k'') = Some p"
    using routed_follows [OF r scripted_iter perm sample_lines_valid] n(2) by (fastforce simp: follows_def)
  then have p: "getNodeByKey (\<lambda>_. []) (AString ''k'') cl = Inr p" using k n(2) by (simp add: getNodeByKey_def)
  have "server_addr (master m) = ''h:'' @ FormatInt 1" if "m \<in> set sample_lines" for m
    using that by (simp add: sample_lines_def server_addr_def)
  then show ?thesis
    using reachable_routes [OF reachable.start [OF n(1)] scripted_iter perm] r sample_lines_valid p n(1) by metis
qed

text \<open>\<open>Close\<close> ends the routing and shuts down the masters, but not the slaves: afterwards every lookup
  of a node fails, every master node is closed, and every slave node stays open in its map, with its
  idle connections.\<close>

theorem Close_leaves_slaves:
  assumes "iter_law w" "cluster_inv (fst s)" "cl' = fst (Close w s)"
  shows "(\<forall>ff a. \<exists>err. getNodeByKey ff a cl' = Inl err) \<and> (\<forall>addr. \<exists>err. getNodeByAddr addr cl' = Inl err) \<and>
    (\<forall>(a, p) \<in> set (nodes (fst s)). closed (heap cl' ! p)) \<and>
    slaveNodes cl' = slaveNodes (fst s) \<and> (\<forall>(a, p) \<in> set (slaveNodes (fst s)). \<not> closed (heap cl' ! p))"
proof -
  note F = Close_facts [OF assms(1,2), folded assms(3)]
  have maps: "maps_ok (heap (fst s)) (nodes (fst s)) (slaveNodes (fst s))" using assms(2) by (simp add: cluster_inv_def)
  have "closed (heap cl' ! p)" if p: "(a, p) \<in> set (nodes (fst s))" for a p
    using F(6) [of p] maps_ok_valid [OF maps, of p] p by (force simp: image_iff)
  moreover have "\<not> closed (heap cl' ! p)" if p: "(a, p) \<in> set (slaveNodes (fst s))" for a p
  proof -
    have "p \<in> snd ` set (slaveNodes cl')" using p F(4) by force
    then show ?thesis using F(1) by (auto simp: cluster_inv_def maps_ok_def)
  qed
  ultimately show ?thesis
    using F(3,4) by (auto simp: getNodeByKey_def getNodeByAddr_def Let_def split: sum.splits)
qed

lemma Close_leaves_slaves_witness:
  "\<not> closed (heap (fst (Close (scripted_world []) (pair_cluster\<lparr>nodes := [(''a'', 0)], slaveNodes := [(''b'', 1)]\<rparr>, (5, [])))) ! 1)"
proof -
  let ?cl = "pair_cluster\<lparr>nodes := [(''a'', 0)], slaveNodes := [(''b'', 1)]\<rparr>"
  have "cluster_inv (fst (?cl, (5 :: int, [] :: nat list)))"
    by (simp add: pair_cluster_def sample_cluster_def make_cluster_def cluster_inv_def maps_ok_def node_map_ok_def
        short_lived_def sample_node_def)
  from Close_leaves_slaves [OF scripted_iter this refl] show ?thesis by simp
qed

end
