(* ===== verification/Timed_Store.thy ===== *)
theory Timed_Store
  imports Prelude
begin

text \<open>
  What a store of values with expiration times promises: a map from keys to a value and a deadline, read
  at a time. The locale \<open>timed_store\<close> states the laws of its operations and derives from them that any
  history of operations leaves the store reading as the map does. The cache and its sharded variant are
  interpretations. A store with a bound drops what it is given while it is full.
\<close>

datatype 'v store_op =
    OpPut int bytes 'v int
  | OpDelete bytes
  | OpClean int

text \<open>A deadline of 0 is none.\<close>

type_synonym 'v timed_map = "bytes \<rightharpoonup> 'v \<times> int"

definition read_timed :: "int \<Rightarrow> 'v timed_map \<Rightarrow> bytes \<Rightarrow> 'v option" where
  "read_timed t m k = (case m k of None \<Rightarrow> None | Some (x, dl) \<Rightarrow> if dl > 0 \<and> t > dl then None else Some x)"

fun spec_op :: "(int \<Rightarrow> int \<Rightarrow> int) \<Rightarrow> 'v store_op \<Rightarrow> 'v timed_map \<Rightarrow> 'v timed_map" where
  "spec_op dl (OpPut now k x d) m = m(k \<mapsto> (x, dl now d))"
| "spec_op dl (OpDelete k) m = m(k := None)"
| "spec_op dl (OpClean now) m = m"

definition spec_store :: "(int \<Rightarrow> int \<Rightarrow> int) \<Rightarrow> 'v store_op list \<Rightarrow> 'v timed_map \<Rightarrow> 'v timed_map" where
  "spec_store dl ops m = fold (spec_op dl) ops m"

text \<open>Cleaning only happens before the time of the reading.\<close>

fun op_before :: "int \<Rightarrow> 'v store_op \<Rightarrow> bool" where
  "op_before t (OpClean now) \<longleftrightarrow> now \<le> t"
| "op_before t _ \<longleftrightarrow> True"

text \<open>A store with a bound takes a value only while it has room, even when it has the key; cleaning makes room.\<close>

definition expire_map :: "int \<Rightarrow> 'v timed_map \<Rightarrow> 'v timed_map" where
  "expire_map now m k = (case m k of None \<Rightarrow> None | Some (x, dl) \<Rightarrow> if dl > 0 \<and> now > dl then None else Some (x, dl))"

definition full_map :: "int \<Rightarrow> 'v timed_map \<Rightarrow> bool" where
  "full_map bound m \<longleftrightarrow> bound \<le> int (card (dom m))"

fun bounded_op :: "int \<Rightarrow> (int \<Rightarrow> int \<Rightarrow> int) \<Rightarrow> 'v store_op \<Rightarrow> 'v timed_map \<Rightarrow> 'v timed_map" where
  "bounded_op bound dl (OpPut now k x d) m = (if full_map bound m then m else m(k \<mapsto> (x, dl now d)))"
| "bounded_op bound dl (OpDelete k) m = m(k := None)"
| "bounded_op bound dl (OpClean now) m = expire_map now m"

definition bounded_store :: "int \<Rightarrow> (int \<Rightarrow> int \<Rightarrow> int) \<Rightarrow> 'v store_op list \<Rightarrow> 'v timed_map \<Rightarrow> 'v timed_map" where
  "bounded_store bound dl ops m = fold (bounded_op bound dl) ops m"

text \<open>Whether the store is given a value while it is full.\<close>

fun overfull :: "int \<Rightarrow> (int \<Rightarrow> int \<Rightarrow> int) \<Rightarrow> 'v store_op list \<Rightarrow> 'v timed_map \<Rightarrow> bool" where
  "overfull bound dl [] m \<longleftrightarrow> False"
| "overfull bound dl (q # ops) m \<longleftrightarrow>
     (case q of OpPut _ _ _ _ \<Rightarrow> full_map bound m | _ \<Rightarrow> False) \<or> overfull bound dl ops (bounded_op bound dl q m)"

text \<open>Until then the bound cannot be seen.\<close>

lemma bounded_unseen:
  "\<not> overfull bound dl ops m \<Longrightarrow> list_all (op_before t) ops \<Longrightarrow> (\<And>k. read_timed t m k = read_timed t m' k) \<Longrightarrow>
     read_timed t (bounded_store bound dl ops m) k = read_timed t (spec_store dl ops m') k"
proof (induction ops arbitrary: m m')
  case (Cons q ops)
  have "read_timed t (bounded_op bound dl q m) j = read_timed t (spec_op dl q m') j" for j
    using Cons.prems(1,2) Cons.prems(3) [of j]
    by (cases q) (auto simp: read_timed_def expire_map_def split: option.splits if_splits)
  then show ?case
    using Cons.IH [of "bounded_op bound dl q m" "spec_op dl q m'"] Cons.prems(1,2)
    by (simp add: bounded_store_def spec_store_def)
qed (simp add: bounded_store_def spec_store_def)

text \<open>A history on a store; \<open>None\<close> when the store refuses a value.\<close>

fun exec_store :: "(int \<Rightarrow> bytes \<Rightarrow> 'v \<Rightarrow> int \<Rightarrow> 's \<Rightarrow> 's option) \<Rightarrow> (bytes \<Rightarrow> 's \<Rightarrow> 's) \<Rightarrow> (int \<Rightarrow> 's \<Rightarrow> 's)
    \<Rightarrow> 'v store_op list \<Rightarrow> 's \<Rightarrow> 's option" where
  "exec_store put del clean [] s = Some s"
| "exec_store put del clean (OpPut now k x d # ops) s =
     (case put now k x d s of None \<Rightarrow> None | Some s \<Rightarrow> exec_store put del clean ops s)"
| "exec_store put del clean (OpDelete k # ops) s = exec_store put del clean ops (del k s)"
| "exec_store put del clean (OpClean now # ops) s = exec_store put del clean ops (clean now s)"

locale timed_store =
  fixes inv :: "'s \<Rightarrow> bool" and dl :: "int \<Rightarrow> int \<Rightarrow> int"
    and get :: "int \<Rightarrow> bytes \<Rightarrow> 's \<Rightarrow> 'v option" and put :: "int \<Rightarrow> bytes \<Rightarrow> 'v \<Rightarrow> int \<Rightarrow> 's \<Rightarrow> 's option"
    and del :: "bytes \<Rightarrow> 's \<Rightarrow> 's" and clean :: "int \<Rightarrow> 's \<Rightarrow> 's"
  assumes inv_put: "inv s \<Longrightarrow> put now k x d s = Some s' \<Longrightarrow> inv s'"
    and get_put: "inv s \<Longrightarrow> put now k x d s = Some s' \<Longrightarrow>
      get t k' s' = (if k' = k then (if dl now d > 0 \<and> t > dl now d then None else Some x) else get t k' s)"
    and inv_del: "inv s \<Longrightarrow> inv (del k s)"
    and get_del: "inv s \<Longrightarrow> get t k' (del k s) = (if k' = k then None else get t k' s)"
    and inv_clean: "inv s \<Longrightarrow> inv (clean now s)"
    and get_clean: "inv s \<Longrightarrow> now \<le> t \<Longrightarrow> get t k (clean now s) = get t k s"
begin

lemma history:
  "inv s \<Longrightarrow> exec_store put del clean ops s = Some s' \<Longrightarrow> list_all (op_before t) ops \<Longrightarrow>
     (\<And>k. get t k s = read_timed t m k) \<Longrightarrow> inv s' \<and> get t k s' = read_timed t (spec_store dl ops m) k"
proof (induction ops arbitrary: s m)
  case Nil
  then show ?case by (simp add: spec_store_def)
next
  case (Cons op ops)
  show ?case
  proof (cases op)
    case (OpPut now j x d)
    then obtain s1 where 1: "put now j x d s = Some s1" "exec_store put del clean ops s1 = Some s'"
      using Cons.prems(2) by (auto split: option.splits)
    have "get t k s1 = read_timed t (m(j \<mapsto> (x, dl now d))) k" for k
      using get_put [OF Cons.prems(1) 1(1)] Cons.prems(4) by (simp add: read_timed_def)
    then show ?thesis
      using Cons.IH [OF inv_put [OF Cons.prems(1) 1(1)] 1(2)] Cons.prems(3) OpPut by (simp add: spec_store_def)
  next
    case (OpDelete j)
    have "get t k (del j s) = read_timed t (m(j := None)) k" for k
      using get_del [OF Cons.prems(1)] Cons.prems(4) by (simp add: read_timed_def)
    then show ?thesis
      using Cons.IH [OF inv_del [OF Cons.prems(1)]] Cons.prems(2,3) OpDelete by (simp add: spec_store_def)
  next
    case (OpClean now)
    then have "get t k (clean now s) = read_timed t m k" for k
      using get_clean [OF Cons.prems(1)] Cons.prems(3,4) by simp
    then show ?thesis
      using Cons.IH [OF inv_clean [OF Cons.prems(1)]] Cons.prems(2,3) OpClean by (simp add: spec_store_def)
  qed
qed

end

end
