(* ===== verification/Memory_Cache.thy ===== *)
theory Memory_Cache
  imports Go_Errors Timed_Store "HOL-Library.AList"
begin

text \<open>
  The in-memory cache (\<open>utils/memorycacher/cache.go\<close>): items with expiration times in a map with a
  bound on its size, and a background routine that removes what has expired. The map is an
  association list; the time of each reading of the clock, in nanoseconds, is an argument, as is the
  order in which a loop visits the map and whether the background routine is waiting for its signal.
  Every operation runs under the cache's lock, but the test of the size does not: see
  \<open>setter_step\<close>. Not modelled: the \<open>gob\<close> format and the files of \<open>Save\<close>, \<open>SaveFile\<close> and \<open>LoadFile\<close>.
\<close>

section \<open>State\<close>

text \<open>A stored value, by its Go type. A float is its bit pattern, with the arithmetic of the machine in
  \<open>float_ops\<close>; a value of any other type, which the cache never looks into, is a \<open>OOther\<close>.\<close>

datatype obj =
    ONil
  | OInt "64 word"
  | OInt8 "8 word"
  | OInt16 "16 word"
  | OInt32 "32 word"
  | OInt64 "64 word"
  | OUint "64 word"
  | OUintptr "64 word"
  | OUint8 "8 word"
  | OUint16 "16 word"
  | OUint32 "32 word"
  | OUint64 "64 word"
  | OFloat32 "32 word"
  | OFloat64 "64 word"
  | OOther bytes

record float_ops =
  f32_add :: "32 word \<Rightarrow> 32 word \<Rightarrow> 32 word"
  f32_sub :: "32 word \<Rightarrow> 32 word \<Rightarrow> 32 word"
  f64_add :: "64 word \<Rightarrow> 64 word \<Rightarrow> 64 word"
  f64_sub :: "64 word \<Rightarrow> 64 word \<Rightarrow> 64 word"
  f32_of_int64 :: "64 word \<Rightarrow> 32 word"
  f64_of_int64 :: "64 word \<Rightarrow> 64 word"
  f32_of_f64 :: "64 word \<Rightarrow> 32 word"

record item =
  it_Object :: obj
  it_Expiration :: int

text \<open>Of the background routine the state is its interval and whether it has taken a signal to clean that
  it has not handled yet; of the callback for evicted items, whether there is one.\<close>

record janitor =
  j_Interval :: int
  j_signalled :: bool

record cache =
  defaultExpiration :: int
  maxItemsCount :: int
  items :: "(bytes \<times> item) list"
  onEvicted :: bool
  lastCleanTime :: int
  c_janitor :: "janitor option"

definition maxItemsCountErr :: go_error where
  "maxItemsCountErr = Sentinel ''reach max items count.''"

definition Expired :: "item \<Rightarrow> int \<Rightarrow> bool" where
  "Expired it now \<longleftrightarrow> it_Expiration it \<noteq> 0 \<and> now > it_Expiration it"

definition ItemCount :: "cache \<Rightarrow> int" where
  "ItemCount c = int (length (items c))"

definition IsReachMaxItemsCount :: "cache \<Rightarrow> bool" where
  "IsReachMaxItemsCount c \<longleftrightarrow> ItemCount c \<ge> maxItemsCount c"

text \<open>The signal is dropped unless the background routine is waiting for one. Without a background routine
  its pointer is nil.\<close>

definition ShoudClean :: "bool \<Rightarrow> cache \<Rightarrow> cache outcome" where
  "ShoudClean listening c = (case c_janitor c of
     None \<Rightarrow> Panic nil_deref
   | Some j \<Rightarrow> Ret (if listening \<and> \<not> j_signalled j then c\<lparr>c_janitor := Some (j\<lparr>j_signalled := True\<rparr>)\<rparr> else c))"

section \<open>Writing and reading\<close>

definition expiry :: "int \<Rightarrow> int \<Rightarrow> cache \<Rightarrow> int" where
  "expiry now d c = (let d = (if d = 0 then defaultExpiration c else d) in if d > 0 then int64 (now + d) else 0)"

definition cache_set :: "int \<Rightarrow> bytes \<Rightarrow> obj \<Rightarrow> int \<Rightarrow> cache \<Rightarrow> cache" where
  "cache_set now k x d c =
     c\<lparr>items := AList.update k \<lparr>it_Object = x, it_Expiration = expiry now d c\<rparr> (items c)\<rparr>"

definition Set :: "int \<Rightarrow> bool \<Rightarrow> bytes \<Rightarrow> obj \<Rightarrow> int \<Rightarrow> cache \<Rightarrow> cache outcome" where
  "Set now listening k x d c =
     (if IsReachMaxItemsCount c then ShoudClean listening c
      else let e = expiry now d c in Ret (c\<lparr>items := AList.update k \<lparr>it_Object = x, it_Expiration = e\<rparr> (items c)\<rparr>))"

definition SetDefault :: "int \<Rightarrow> bool \<Rightarrow> bytes \<Rightarrow> obj \<Rightarrow> cache \<Rightarrow> cache outcome" where
  "SetDefault now listening k x c = Set now listening k x 0 c"

definition cache_get :: "int \<Rightarrow> bytes \<Rightarrow> cache \<Rightarrow> obj option" where
  "cache_get now k c = (case map_of (items c) k of
     None \<Rightarrow> None
   | Some it \<Rightarrow> if it_Expiration it > 0 \<and> now > it_Expiration it then None else Some (it_Object it))"

definition Get :: "int \<Rightarrow> bytes \<Rightarrow> cache \<Rightarrow> obj option" where
  "Get now k c = (case map_of (items c) k of
     None \<Rightarrow> None
   | Some it \<Rightarrow> if it_Expiration it > 0 \<and> now > it_Expiration it then None else Some (it_Object it))"

text \<open>With the expiration time; \<open>None\<close> is the zero time of an item that does not expire.\<close>

definition GetWithExpiration :: "int \<Rightarrow> bytes \<Rightarrow> cache \<Rightarrow> (obj \<times> int option) option" where
  "GetWithExpiration now k c = (case map_of (items c) k of
     None \<Rightarrow> None
   | Some it \<Rightarrow>
       if it_Expiration it > 0
       then if now > it_Expiration it then None else Some (it_Object it, Some (it_Expiration it))
       else Some (it_Object it, None))"

definition Add :: "int \<Rightarrow> bool \<Rightarrow> bytes \<Rightarrow> obj \<Rightarrow> int \<Rightarrow> cache \<Rightarrow> (go_error option \<times> cache) outcome" where
  "Add now listening k x d c =
     (if IsReachMaxItemsCount c then bind_outcome (ShoudClean listening c) (\<lambda>c. Ret (Some maxItemsCountErr, c))
      else if cache_get now k c \<noteq> None then Ret (Some (Formatted (''Item '' @ k @ '' already exists'')), c)
      else Ret (None, cache_set now k x d c))"

definition Replace :: "int \<Rightarrow> bytes \<Rightarrow> obj \<Rightarrow> int \<Rightarrow> cache \<Rightarrow> go_error option \<times> cache" where
  "Replace now k x d c =
     (if cache_get now k c = None then (Some (Formatted (''Item '' @ k @ '' doesn't exist'')), c)
      else (None, cache_set now k x d c))"

section \<open>Arithmetic on stored values\<close>

text \<open>The operand is an \<open>int64\<close>, converted to the type of the value: truncated to a narrower integer.\<close>

fun add_obj :: "float_ops \<Rightarrow> 64 word \<Rightarrow> obj \<Rightarrow> obj option" where
  "add_obj fo n (OInt v) = Some (OInt (v + n))"
| "add_obj fo n (OInt8 v) = Some (OInt8 (v + ucast n))"
| "add_obj fo n (OInt16 v) = Some (OInt16 (v + ucast n))"
| "add_obj fo n (OInt32 v) = Some (OInt32 (v + ucast n))"
| "add_obj fo n (OInt64 v) = Some (OInt64 (v + n))"
| "add_obj fo n (OUint v) = Some (OUint (v + n))"
| "add_obj fo n (OUintptr v) = Some (OUintptr (v + n))"
| "add_obj fo n (OUint8 v) = Some (OUint8 (v + ucast n))"
| "add_obj fo n (OUint16 v) = Some (OUint16 (v + ucast n))"
| "add_obj fo n (OUint32 v) = Some (OUint32 (v + ucast n))"
| "add_obj fo n (OUint64 v) = Some (OUint64 (v + n))"
| "add_obj fo n (OFloat32 v) = Some (OFloat32 (f32_add fo v (f32_of_int64 fo n)))"
| "add_obj fo n (OFloat64 v) = Some (OFloat64 (f64_add fo v (f64_of_int64 fo n)))"
| "add_obj fo n ONil = None"
| "add_obj fo n (OOther v) = None"

fun sub_obj :: "float_ops \<Rightarrow> 64 word \<Rightarrow> obj \<Rightarrow> obj option" where
  "sub_obj fo n (OInt v) = Some (OInt (v - n))"
| "sub_obj fo n (OInt8 v) = Some (OInt8 (v - ucast n))"
| "sub_obj fo n (OInt16 v) = Some (OInt16 (v - ucast n))"
| "sub_obj fo n (OInt32 v) = Some (OInt32 (v - ucast n))"
| "sub_obj fo n (OInt64 v) = Some (OInt64 (v - n))"
| "sub_obj fo n (OUint v) = Some (OUint (v - n))"
| "sub_obj fo n (OUintptr v) = Some (OUintptr (v - n))"
| "sub_obj fo n (OUint8 v) = Some (OUint8 (v - ucast n))"
| "sub_obj fo n (OUint16 v) = Some (OUint16 (v - ucast n))"
| "sub_obj fo n (OUint32 v) = Some (OUint32 (v - ucast n))"
| "sub_obj fo n (OUint64 v) = Some (OUint64 (v - n))"
| "sub_obj fo n (OFloat32 v) = Some (OFloat32 (f32_sub fo v (f32_of_int64 fo n)))"
| "sub_obj fo n (OFloat64 v) = Some (OFloat64 (f64_sub fo v (f64_of_int64 fo n)))"
| "sub_obj fo n ONil = None"
| "sub_obj fo n (OOther v) = None"

fun add_float_obj :: "float_ops \<Rightarrow> 64 word \<Rightarrow> obj \<Rightarrow> obj option" where
  "add_float_obj fo n (OFloat32 v) = Some (OFloat32 (f32_add fo v (f32_of_f64 fo n)))"
| "add_float_obj fo n (OFloat64 v) = Some (OFloat64 (f64_add fo v n))"
| "add_float_obj fo n _ = None"

fun sub_float_obj :: "float_ops \<Rightarrow> 64 word \<Rightarrow> obj \<Rightarrow> obj option" where
  "sub_float_obj fo n (OFloat32 v) = Some (OFloat32 (f32_sub fo v (f32_of_f64 fo n)))"
| "sub_float_obj fo n (OFloat64 v) = Some (OFloat64 (f64_sub fo v n))"
| "sub_float_obj fo n _ = None"

definition live_item :: "int \<Rightarrow> bytes \<Rightarrow> cache \<Rightarrow> item option" where
  "live_item now k c = (case map_of (items c) k of None \<Rightarrow> None | Some it \<Rightarrow> if Expired it now then None else Some it)"

definition not_found :: "bytes \<Rightarrow> go_error" where
  "not_found k = Formatted (''Item '' @ k @ '' not found'')"

text \<open>What the untyped operations share: the item, the change of its value, the item stored back.\<close>

definition change_item :: "go_error \<Rightarrow> go_error \<Rightarrow> (obj \<Rightarrow> obj option) \<Rightarrow> int \<Rightarrow> bytes \<Rightarrow> cache \<Rightarrow> go_error option \<times> cache" where
  "change_item missing wrong f now k c = (case live_item now k c of
     None \<Rightarrow> (Some missing, c)
   | Some it \<Rightarrow> (case f (it_Object it) of
       None \<Rightarrow> (Some wrong, c)
     | Some x \<Rightarrow> (None, c\<lparr>items := AList.update k (it\<lparr>it_Object := x\<rparr>) (items c)\<rparr>)))"

definition Increment :: "float_ops \<Rightarrow> int \<Rightarrow> bytes \<Rightarrow> 64 word \<Rightarrow> cache \<Rightarrow> go_error option \<times> cache" where
  "Increment fo now k n = change_item (not_found k) (Formatted (''The value for '' @ k @ '' is not an integer'')) (add_obj fo n) now k"

definition IncrementFloat :: "float_ops \<Rightarrow> int \<Rightarrow> bytes \<Rightarrow> 64 word \<Rightarrow> cache \<Rightarrow> go_error option \<times> cache" where
  "IncrementFloat fo now k n = change_item (not_found k)
     (Formatted (''The value for '' @ k @ '' does not have type float32 or float64'')) (add_float_obj fo n) now k"

definition Decrement :: "float_ops \<Rightarrow> int \<Rightarrow> bytes \<Rightarrow> 64 word \<Rightarrow> cache \<Rightarrow> go_error option \<times> cache" where
  "Decrement fo now k n = change_item (Formatted ''Item not found'')
     (Formatted (''The value for '' @ k @ '' is not an integer'')) (sub_obj fo n) now k"

definition DecrementFloat :: "float_ops \<Rightarrow> int \<Rightarrow> bytes \<Rightarrow> 64 word \<Rightarrow> cache \<Rightarrow> go_error option \<times> cache" where
  "DecrementFloat fo now k n = change_item (not_found k)
     (Formatted (''The value for '' @ k @ '' does not have type float32 or float64'')) (sub_float_obj fo n) now k"

text \<open>The typed operations also return the new value. \<open>sel\<close> is the code's type assertion.\<close>

definition typed_op :: "string \<Rightarrow> (obj \<Rightarrow> 'a option) \<Rightarrow> ('a \<Rightarrow> obj) \<Rightarrow> ('a \<Rightarrow> 'a) \<Rightarrow> int \<Rightarrow> bytes \<Rightarrow> cache
    \<Rightarrow> (go_error + 'a) \<times> cache" where
  "typed_op ty sel con f now k c = (case live_item now k c of
     None \<Rightarrow> (Inl (not_found k), c)
   | Some it \<Rightarrow> (case sel (it_Object it) of
       None \<Rightarrow> (Inl (Formatted (''The value for '' @ k @ '' is not an '' @ ty)), c)
     | Some rv \<Rightarrow> let nv = f rv in (Inr nv, c\<lparr>items := AList.update k (it\<lparr>it_Object := con nv\<rparr>) (items c)\<rparr>)))"

fun as_int :: "obj \<Rightarrow> 64 word option" where
  "as_int (OInt v) = Some v"
| "as_int _ = None"

fun as_int8 :: "obj \<Rightarrow> 8 word option" where
  "as_int8 (OInt8 v) = Some v"
| "as_int8 _ = None"

fun as_int16 :: "obj \<Rightarrow> 16 word option" where
  "as_int16 (OInt16 v) = Some v"
| "as_int16 _ = None"

fun as_int32 :: "obj \<Rightarrow> 32 word option" where
  "as_int32 (OInt32 v) = Some v"
| "as_int32 _ = None"

fun as_int64 :: "obj \<Rightarrow> 64 word option" where
  "as_int64 (OInt64 v) = Some v"
| "as_int64 _ = None"

fun as_uint :: "obj \<Rightarrow> 64 word option" where
  "as_uint (OUint v) = Some v"
| "as_uint _ = None"

fun as_uintptr :: "obj \<Rightarrow> 64 word option" where
  "as_uintptr (OUintptr v) = Some v"
| "as_uintptr _ = None"

fun as_uint8 :: "obj \<Rightarrow> 8 word option" where
  "as_uint8 (OUint8 v) = Some v"
| "as_uint8 _ = None"

fun as_uint16 :: "obj \<Rightarrow> 16 word option" where
  "as_uint16 (OUint16 v) = Some v"
| "as_uint16 _ = None"

fun as_uint32 :: "obj \<Rightarrow> 32 word option" where
  "as_uint32 (OUint32 v) = Some v"
| "as_uint32 _ = None"

fun as_uint64 :: "obj \<Rightarrow> 64 word option" where
  "as_uint64 (OUint64 v) = Some v"
| "as_uint64 _ = None"

fun as_float32 :: "obj \<Rightarrow> 32 word option" where
  "as_float32 (OFloat32 v) = Some v"
| "as_float32 _ = None"

fun as_float64 :: "obj \<Rightarrow> 64 word option" where
  "as_float64 (OFloat64 v) = Some v"
| "as_float64 _ = None"

definition IncrementInt :: "int \<Rightarrow> bytes \<Rightarrow> 64 word \<Rightarrow> cache \<Rightarrow> (go_error + 64 word) \<times> cache" where
  "IncrementInt now k n = typed_op ''int'' as_int OInt (\<lambda>v. v + n) now k"

definition IncrementInt8 :: "int \<Rightarrow> bytes \<Rightarrow> 8 word \<Rightarrow> cache \<Rightarrow> (go_error + 8 word) \<times> cache" where
  "IncrementInt8 now k n = typed_op ''int8'' as_int8 OInt8 (\<lambda>v. v + n) now k"

definition IncrementInt16 :: "int \<Rightarrow> bytes \<Rightarrow> 16 word \<Rightarrow> cache \<Rightarrow> (go_error + 16 word) \<times> cache" where
  "IncrementInt16 now k n = typed_op ''int16'' as_int16 OInt16 (\<lambda>v. v + n) now k"

definition IncrementInt32 :: "int \<Rightarrow> bytes \<Rightarrow> 32 word \<Rightarrow> cache \<Rightarrow> (go_error + 32 word) \<times> cache" where
  "IncrementInt32 now k n = typed_op ''int32'' as_int32 OInt32 (\<lambda>v. v + n) now k"

definition IncrementInt64 :: "int \<Rightarrow> bytes \<Rightarrow> 64 word \<Rightarrow> cache \<Rightarrow> (go_error + 64 word) \<times> cache" where
  "IncrementInt64 now k n = typed_op ''int64'' as_int64 OInt64 (\<lambda>v. v + n) now k"

definition IncrementUint :: "int \<Rightarrow> bytes \<Rightarrow> 64 word \<Rightarrow> cache \<Rightarrow> (go_error + 64 word) \<times> cache" where
  "IncrementUint now k n = typed_op ''uint'' as_uint OUint (\<lambda>v. v + n) now k"

definition IncrementUintptr :: "int \<Rightarrow> bytes \<Rightarrow> 64 word \<Rightarrow> cache \<Rightarrow> (go_error + 64 word) \<times> cache" where
  "IncrementUintptr now k n = typed_op ''uintptr'' as_uintptr OUintptr (\<lambda>v. v + n) now k"

definition IncrementUint8 :: "int \<Rightarrow> bytes \<Rightarrow> 8 word \<Rightarrow> cache \<Rightarrow> (go_error + 8 word) \<times> cache" where
  "IncrementUint8 now k n = typed_op ''uint8'' as_uint8 OUint8 (\<lambda>v. v + n) now k"

definition IncrementUint16 :: "int \<Rightarrow> bytes \<Rightarrow> 16 word \<Rightarrow> cache \<Rightarrow> (go_error + 16 word) \<times> cache" where
  "IncrementUint16 now k n = typed_op ''uint16'' as_uint16 OUint16 (\<lambda>v. v + n) now k"

definition IncrementUint32 :: "int \<Rightarrow> bytes \<Rightarrow> 32 word \<Rightarrow> cache \<Rightarrow> (go_error + 32 word) \<times> cache" where
  "IncrementUint32 now k n = typed_op ''uint32'' as_uint32 OUint32 (\<lambda>v. v + n) now k"

definition IncrementUint64 :: "int \<Rightarrow> bytes \<Rightarrow> 64 word \<Rightarrow> cache \<Rightarrow> (go_error + 64 word) \<times> cache" where
  "IncrementUint64 now k n = typed_op ''uint64'' as_uint64 OUint64 (\<lambda>v. v + n) now k"

definition IncrementFloat32 :: "float_ops \<Rightarrow> int \<Rightarrow> bytes \<Rightarrow> 32 word \<Rightarrow> cache \<Rightarrow> (go_error + 32 word) \<times> cache" where
  "IncrementFloat32 fo now k n = typed_op ''float32'' as_float32 OFloat32 (\<lambda>v. f32_add fo v n) now k"

definition IncrementFloat64 :: "float_ops \<Rightarrow> int \<Rightarrow> bytes \<Rightarrow> 64 word \<Rightarrow> cache \<Rightarrow> (go_error + 64 word) \<times> cache" where
  "IncrementFloat64 fo now k n = typed_op ''float64'' as_float64 OFloat64 (\<lambda>v. f64_add fo v n) now k"

definition DecrementInt :: "int \<Rightarrow> bytes \<Rightarrow> 64 word \<Rightarrow> cache \<Rightarrow> (go_error + 64 word) \<times> cache" where
  "DecrementInt now k n = typed_op ''int'' as_int OInt (\<lambda>v. v - n) now k"

definition DecrementInt8 :: "int \<Rightarrow> bytes \<Rightarrow> 8 word \<Rightarrow> cache \<Rightarrow> (go_error + 8 word) \<times> cache" where
  "DecrementInt8 now k n = typed_op ''int8'' as_int8 OInt8 (\<lambda>v. v - n) now k"

definition DecrementInt16 :: "int \<Rightarrow> bytes \<Rightarrow> 16 word \<Rightarrow> cache \<Rightarrow> (go_error + 16 word) \<times> cache" where
  "DecrementInt16 now k n = typed_op ''int16'' as_int16 OInt16 (\<lambda>v. v - n) now k"

definition DecrementInt32 :: "int \<Rightarrow> bytes \<Rightarrow> 32 word \<Rightarrow> cache \<Rightarrow> (go_error + 32 word) \<times> cache" where
  "DecrementInt32 now k n = typed_op ''int32'' as_int32 OInt32 (\<lambda>v. v - n) now k"

definition DecrementInt64 :: "int \<Rightarrow> bytes \<Rightarrow> 64 word \<Rightarrow> cache \<Rightarrow> (go_error + 64 word) \<times> cache" where
  "DecrementInt64 now k n = typed_op ''int64'' as_int64 OInt64 (\<lambda>v. v - n) now k"

definition DecrementUint :: "int \<Rightarrow> bytes \<Rightarrow> 64 word \<Rightarrow> cache \<Rightarrow> (go_error + 64 word) \<times> cache" where
  "DecrementUint now k n = typed_op ''uint'' as_uint OUint (\<lambda>v. v - n) now k"

definition DecrementUintptr :: "int \<Rightarrow> bytes \<Rightarrow> 64 word \<Rightarrow> cache \<Rightarrow> (go_error + 64 word) \<times> cache" where
  "DecrementUintptr now k n = typed_op ''uintptr'' as_uintptr OUintptr (\<lambda>v. v - n) now k"

definition DecrementUint8 :: "int \<Rightarrow> bytes \<Rightarrow> 8 word \<Rightarrow> cache \<Rightarrow> (go_error + 8 word) \<times> cache" where
  "DecrementUint8 now k n = typed_op ''uint8'' as_uint8 OUint8 (\<lambda>v. v - n) now k"

definition DecrementUint16 :: "int \<Rightarrow> bytes \<Rightarrow> 16 word \<Rightarrow> cache \<Rightarrow> (go_error + 16 word) \<times> cache" where
  "DecrementUint16 now k n = typed_op ''uint16'' as_uint16 OUint16 (\<lambda>v. v - n) now k"

definition DecrementUint32 :: "int \<Rightarrow> bytes \<Rightarrow> 32 word \<Rightarrow> cache \<Rightarrow> (go_error + 32 word) \<times> cache" where
  "DecrementUint32 now k n = typed_op ''uint32'' as_uint32 OUint32 (\<lambda>v. v - n) now k"

definition DecrementUint64 :: "int \<Rightarrow> bytes \<Rightarrow> 64 word \<Rightarrow> cache \<Rightarrow> (go_error + 64 word) \<times> cache" where
  "DecrementUint64 now k n = typed_op ''uint64'' as_uint64 OUint64 (\<lambda>v. v - n) now k"

definition DecrementFloat32 :: "float_ops \<Rightarrow> int \<Rightarrow> bytes \<Rightarrow> 32 word \<Rightarrow> cache \<Rightarrow> (go_error + 32 word) \<times> cache" where
  "DecrementFloat32 fo now k n = typed_op ''float32'' as_float32 OFloat32 (\<lambda>v. f32_sub fo v n) now k"

definition DecrementFloat64 :: "float_ops \<Rightarrow> int \<Rightarrow> bytes \<Rightarrow> 64 word \<Rightarrow> cache \<Rightarrow> (go_error + 64 word) \<times> cache" where
  "DecrementFloat64 fo now k n = typed_op ''float64'' as_float64 OFloat64 (\<lambda>v. f64_sub fo v n) now k"

lemmas Increment_typed = IncrementInt_def IncrementInt8_def IncrementInt16_def IncrementInt32_def IncrementInt64_def
  IncrementUint_def IncrementUintptr_def IncrementUint8_def IncrementUint16_def IncrementUint32_def IncrementUint64_def
  IncrementFloat32_def IncrementFloat64_def
lemmas Decrement_typed = DecrementInt_def DecrementInt8_def DecrementInt16_def DecrementInt32_def DecrementInt64_def
  DecrementUint_def DecrementUintptr_def DecrementUint8_def DecrementUint16_def DecrementUint32_def DecrementUint64_def
  DecrementFloat32_def DecrementFloat64_def

section \<open>Deleting\<close>

text \<open>Deleting gives the value for the callback, when there is one to call.\<close>

definition cache_delete :: "bytes \<Rightarrow> cache \<Rightarrow> obj option \<times> cache" where
  "cache_delete k c =
     (let c' = c\<lparr>items := AList.delete k (items c)\<rparr>
      in if onEvicted c then (map_option it_Object (map_of (items c) k), c') else (None, c'))"

text \<open>The calls of the callback, in order, and the cache.\<close>

definition Delete :: "bytes \<Rightarrow> cache \<Rightarrow> (bytes \<times> obj) list \<times> cache" where
  "Delete k c = (case cache_delete k c of (v, c) \<Rightarrow> (case v of None \<Rightarrow> [] | Some x \<Rightarrow> [(k, x)], c))"

text \<open>\<open>visited\<close> is the items in the order in which the loop visits them.\<close>

fun delete_expired_loop :: "int \<Rightarrow> (bytes \<times> item) list \<Rightarrow> (bytes \<times> obj) list \<times> cache \<Rightarrow> (bytes \<times> obj) list \<times> cache" where
  "delete_expired_loop now [] (ev, c) = (ev, c)"
| "delete_expired_loop now ((k, v) # rest) (ev, c) =
     delete_expired_loop now rest (if it_Expiration v > 0 \<and> now > it_Expiration v
       then (case cache_delete k c of (ov, c) \<Rightarrow> (case ov of None \<Rightarrow> ev | Some x \<Rightarrow> ev @ [(k, x)], c))
       else (ev, c))"

definition DeleteExpired :: "int \<Rightarrow> (bytes \<times> item) list \<Rightarrow> cache \<Rightarrow> (bytes \<times> obj) list \<times> cache" where
  "DeleteExpired now visited c =
     (case delete_expired_loop now visited ([], c) of (ev, c) \<Rightarrow> (ev, c\<lparr>lastCleanTime := now\<rparr>))"

definition OnEvicted :: "bool \<Rightarrow> cache \<Rightarrow> cache" where
  "OnEvicted f c = c\<lparr>onEvicted := f\<rparr>"

definition Flush :: "cache \<Rightarrow> cache" where
  "Flush c = c\<lparr>items := []\<rparr>"

text \<open>\<open>Load\<close> after the decoding, which is \<open>gob\<close>'s: the decoded items as the loop visits them.\<close>

fun load_loop :: "int \<Rightarrow> (bytes \<times> item) list \<Rightarrow> cache \<Rightarrow> cache" where
  "load_loop now [] c = c"
| "load_loop now ((k, v) # rest) c = load_loop now rest (case map_of (items c) k of
     None \<Rightarrow> c\<lparr>items := AList.update k v (items c)\<rparr>
   | Some ov \<Rightarrow> if Expired ov now then c\<lparr>items := AList.update k v (items c)\<rparr> else c)"

definition Load :: "int \<Rightarrow> go_error + (bytes \<times> item) list \<Rightarrow> cache \<Rightarrow> go_error option \<times> cache" where
  "Load now decoded c = (case decoded of Inl e \<Rightarrow> (Some e, c) | Inr its \<Rightarrow> (None, load_loop now its c))"

definition Items :: "int \<Rightarrow> cache \<Rightarrow> (bytes \<times> item) list" where
  "Items now c = filter (\<lambda>(k, v). \<not> (it_Expiration v > 0 \<and> now > it_Expiration v)) (items c)"

section \<open>Creating, and the background routine\<close>

definition newCache :: "int \<Rightarrow> int \<Rightarrow> int \<Rightarrow> (bytes \<times> item) list \<Rightarrow> cache" where
  "newCache now de maxItems m =
     \<lparr>defaultExpiration = (if de = 0 then -1 else de), maxItemsCount = maxItems, items = m, onEvicted = False,
       lastCleanTime = now, c_janitor = None\<rparr>"

definition newCacheWithJanitor :: "int \<Rightarrow> int \<Rightarrow> int \<Rightarrow> int \<Rightarrow> (bytes \<times> item) list \<Rightarrow> cache" where
  "newCacheWithJanitor now de ci maxItems m =
     (let c = newCache now de maxItems m
      in if ci > 0 then c\<lparr>c_janitor := Some \<lparr>j_Interval = ci, j_signalled = False\<rparr>\<rparr> else c)"

definition New :: "int \<Rightarrow> int \<Rightarrow> int \<Rightarrow> int \<Rightarrow> cache" where
  "New now de ci maxItems = newCacheWithJanitor now de ci maxItems []"

definition NewFrom :: "int \<Rightarrow> int \<Rightarrow> int \<Rightarrow> int \<Rightarrow> (bytes \<times> item) list \<Rightarrow> cache" where
  "NewFrom now de ci maxItems m = newCacheWithJanitor now de ci maxItems m"

text \<open>A turn of the background routine, on its ticker or on a signal it has taken: the signal is ignored
  within a second of the last cleaning.\<close>

datatype janitor_event = Tick | Signal

definition janitor_turn :: "janitor_event \<Rightarrow> int \<Rightarrow> (bytes \<times> item) list \<Rightarrow> cache \<Rightarrow> (bytes \<times> obj) list \<times> cache" where
  "janitor_turn ev now visited c = (case ev of
     Tick \<Rightarrow> DeleteExpired now visited c
   | Signal \<Rightarrow>
       let c' = c\<lparr>c_janitor := map_option (\<lambda>j. j\<lparr>j_signalled := False\<rparr>) (c_janitor c)\<rparr>
       in if lastCleanTime c + 1000000000 < now then DeleteExpired now visited c' else ([], c'))"

section \<open>Reading after writing\<close>

definition cache_inv :: "int \<Rightarrow> cache \<Rightarrow> bool" where
  "cache_inv de c \<longleftrightarrow> distinct (map fst (items c)) \<and> defaultExpiration c = de"

definition deadline :: "int \<Rightarrow> int \<Rightarrow> int \<Rightarrow> int" where
  "deadline de now d = (let d = (if d = 0 then de else d) in if d > 0 then int64 (now + d) else 0)"

text \<open>Expired items are hidden, so what cleaning removes cannot be read anyway.\<close>

definition fresh :: "int \<Rightarrow> bytes \<times> item \<Rightarrow> bool" where
  "fresh now kv \<longleftrightarrow> \<not> (it_Expiration (snd kv) > 0 \<and> now > it_Expiration (snd kv))"

lemma New_inv: "cache_inv (if de = 0 then -1 else de) (New now de ci n)"
  by (simp add: cache_inv_def New_def newCacheWithJanitor_def newCache_def Let_def)

lemma expiry_deadline: "defaultExpiration c = de \<Longrightarrow> expiry now d c = deadline de now d"
  by (simp add: expiry_def deadline_def Let_def)

lemma Get_update:
  "Get t k' (c\<lparr>items := AList.update k it (items c)\<rparr>) =
     (if k' = k then (if it_Expiration it > 0 \<and> t > it_Expiration it then None else Some (it_Object it)) else Get t k' c)"
  by (simp add: Get_def update_conv')

lemma Set_put:
  assumes "\<not> IsReachMaxItemsCount c"
  shows "Set now listening k x d c = Ret (cache_set now k x d c)"
  using assms by (simp add: Set_def cache_set_def Let_def)

lemma cache_set_inv: "cache_inv de c \<Longrightarrow> cache_inv de (cache_set now k x d c)"
  by (simp add: cache_inv_def cache_set_def distinct_update)

lemma cache_set_get:
  "cache_inv de c \<Longrightarrow> Get t k' (cache_set now k x d c) =
     (if k' = k then (if deadline de now d > 0 \<and> t > deadline de now d then None else Some x) else Get t k' c)"
  by (simp add: cache_inv_def cache_set_def Get_update expiry_deadline)

lemma cache_delete_snd: "snd (cache_delete k c) = c\<lparr>items := AList.delete k (items c)\<rparr>"
  by (simp add: cache_delete_def Let_def)

lemma Delete_snd: "snd (Delete k c) = c\<lparr>items := AList.delete k (items c)\<rparr>"
  by (simp add: Delete_def cache_delete_snd [symmetric] split: prod.splits)

lemma Delete_get: "Get t k' (snd (Delete k c)) = (if k' = k then None else Get t k' c)"
  by (simp add: Delete_snd Get_def delete_conv')

text \<open>The loop of \<open>DeleteExpired\<close>, for any order of the items.\<close>

definition evictions :: "int \<Rightarrow> (bytes \<times> item) list \<Rightarrow> (bytes \<times> obj) list" where
  "evictions now its = map (\<lambda>(k, v). (k, it_Object v)) (filter (\<lambda>kv. \<not> fresh now kv) its)"

lemma delete_map_of_eq: "AList.delete k al = filter (\<lambda>kv. fst kv \<noteq> k) al"
  by (induction al) auto

lemma delete_expired_loop_spec:
  assumes "distinct (map fst its)" "\<forall>(k, v) \<in> set its. map_of (items c) k = Some v"
  shows "delete_expired_loop now its (ev, c) = (ev @ (if onEvicted c then evictions now its else []),
    c\<lparr>items := filter (\<lambda>kv. fst kv \<notin> fst ` set (filter (\<lambda>kv. \<not> fresh now kv) its)) (items c)\<rparr>)"
  using assms
proof (induction its arbitrary: ev c)
  case (Cons kv its)
  obtain k v where kv: "kv = (k, v)" by (metis surj_pair)
  show ?case
  proof (cases "fresh now kv")
    case True
    then have e: "(it_Expiration v > 0 \<and> now > it_Expiration v) = False" by (simp add: fresh_def kv)
    show ?thesis
      using Cons.IH [of c ev] Cons.prems True unfolding kv delete_expired_loop.simps e by (simp add: evictions_def)
  next
    case False
    then have e: "(it_Expiration v > 0 \<and> now > it_Expiration v) = True" by (simp add: fresh_def kv)
    let ?c = "c\<lparr>items := AList.delete k (items c)\<rparr>"
    have k: "map_of (items c) k = Some v" using Cons.prems(2) kv by simp
    have "\<forall>(j, u) \<in> set its. map_of (items ?c) j = Some u"
      using Cons.prems kv by (force simp: delete_conv')
    note IH = Cons.IH [OF _ this]
    have f: "filter (\<lambda>kv. fst kv \<notin> fst ` set (filter (\<lambda>kv. \<not> fresh now kv) its)) (AList.delete k (items c)) =
        filter (\<lambda>kv. fst kv \<notin> insert k (fst ` set (filter (\<lambda>kv. \<not> fresh now kv) its))) (items c)"
      by (auto simp: delete_map_of_eq intro: filter_cong)
    show ?thesis
      using k f False Cons.prems(1) IH [of "ev @ [(k, it_Object v)]"] IH [of ev]
      unfolding kv delete_expired_loop.simps e
      by (cases "onEvicted c") (simp_all add: cache_delete_def Let_def evictions_def)
  qed
qed (simp add: evictions_def)

lemma DeleteExpired_spec:
  assumes "distinct (map fst (items c))" "distinct (map fst visited)" "set visited = set (items c)"
  shows "DeleteExpired now visited c = (if onEvicted c then evictions now visited else [],
    c\<lparr>items := filter (fresh now) (items c), lastCleanTime := now\<rparr>)"
proof -
  have "\<forall>(k, v) \<in> set visited. map_of (items c) k = Some v"
    using assms(1,3) by (auto intro: map_of_is_SomeI)
  moreover have "fst kv \<notin> fst ` set (filter (\<lambda>kv. \<not> fresh now kv) visited) \<longleftrightarrow> fresh now kv" if kv: "kv \<in> set (items c)" for kv
  proof -
    have unique: "kv' = kv" if "kv' \<in> set (items c)" "fst kv' = fst kv" for kv'
      using that kv eq_key_imp_eq_value [OF assms(1)] by (metis prod.collapse)
    show ?thesis
    proof (cases "fresh now kv")
      case True
      have "kv' \<notin> set visited" if "fst kv' = fst kv" "\<not> fresh now kv'" for kv'
        using unique [of kv'] that True assms(3) by blast
      then show ?thesis using True by fastforce
    next
      case False
      then have "kv \<in> set (filter (\<lambda>kv. \<not> fresh now kv) visited)" using kv assms(3) by simp
      then show ?thesis using False by blast
    qed
  qed
  ultimately show ?thesis
    using delete_expired_loop_spec [OF assms(2), of c now "[]"]
    by (simp add: DeleteExpired_def cong: filter_cong)
qed

lemma map_of_filter_fresh:
  "distinct (map fst its) \<Longrightarrow> map_of (filter (fresh now) its) k =
     (case map_of its k of None \<Rightarrow> None | Some it \<Rightarrow> if fresh now (k, it) then Some it else None)"
proof (induction its)
  case (Cons kv its)
  obtain j v where kv: "kv = (j, v)" by (metis surj_pair)
  have "map_of its j = None" using Cons.prems kv by (auto simp: map_of_eq_None_iff)
  then show ?case using Cons kv by (auto split: option.splits)
qed simp

lemma Get_filter_fresh:
  assumes "distinct (map fst (items c))" "now \<le> t"
  shows "Get t k (c\<lparr>items := filter (fresh now) (items c), lastCleanTime := l\<rparr>) = Get t k c"
  using assms by (auto simp: Get_def map_of_filter_fresh fresh_def split: option.splits)

section \<open>The cache keeps the promise of a store\<close>

text \<open>\<open>Set\<close> as an operation that a full cache refuses, and cleaning at a time, for which the order of the
  loop does not matter.\<close>

definition cache_put :: "int \<Rightarrow> bytes \<Rightarrow> obj \<Rightarrow> int \<Rightarrow> cache \<Rightarrow> cache option" where
  "cache_put now k x d c = (if IsReachMaxItemsCount c then None
     else case Set now False k x d c of Ret c' \<Rightarrow> Some c' | Panic _ \<Rightarrow> None)"

definition cache_remove :: "bytes \<Rightarrow> cache \<Rightarrow> cache" where
  "cache_remove k c = snd (Delete k c)"

definition cache_clean :: "int \<Rightarrow> cache \<Rightarrow> cache" where
  "cache_clean now c = snd (DeleteExpired now (items c) c)"

lemma cache_put_Some: "cache_put now k x d c = Some c' \<longleftrightarrow> \<not> IsReachMaxItemsCount c \<and> c' = cache_set now k x d c"
  by (auto simp: cache_put_def Set_put)

lemma cache_clean_spec:
  "cache_inv de c \<Longrightarrow> cache_clean now c = c\<lparr>items := filter (fresh now) (items c), lastCleanTime := now\<rparr>"
  by (simp add: cache_clean_def cache_inv_def DeleteExpired_spec)

lemma cache_clean_inv: "cache_inv de c \<Longrightarrow> cache_inv de (cache_clean now c)"
  by (simp add: cache_clean_spec) (simp add: cache_inv_def distinct_map_filter)

interpretation cs: timed_store "cache_inv de" "deadline de" Get cache_put cache_remove cache_clean for de
proof
  show "cache_inv de c \<Longrightarrow> cache_put now k x d c = Some c' \<Longrightarrow> cache_inv de c'" for c now k x d c'
    by (auto simp: cache_put_Some cache_set_inv)
  show "cache_inv de c \<Longrightarrow> cache_put now k x d c = Some c' \<Longrightarrow> Get t k' c' =
      (if k' = k then (if deadline de now d > 0 \<and> t > deadline de now d then None else Some x) else Get t k' c)" for c now k x d c' t k'
    by (simp add: cache_put_Some cache_set_get)
  show "cache_inv de c \<Longrightarrow> cache_inv de (cache_remove k c)" for c k
    by (simp add: cache_remove_def Delete_snd cache_inv_def distinct_delete)
  show "Get t k' (cache_remove k c) = (if k' = k then None else Get t k' c)" for t k' k c
    by (simp add: cache_remove_def Delete_get)
  show "cache_inv de c \<Longrightarrow> cache_inv de (cache_clean now c)" for c now by (rule cache_clean_inv)
  show "cache_inv de c \<Longrightarrow> now \<le> t \<Longrightarrow> Get t k (cache_clean now c) = Get t k c" for c now t k
    by (simp add: cache_clean_spec) (simp add: cache_inv_def Get_filter_fresh)
qed

text \<open>The cache as a map. \<open>dl\<close> of a cache are the deadlines its default expiration gives.\<close>

definition cache_abs :: "cache \<Rightarrow> obj timed_map" where
  "cache_abs c k = map_option (\<lambda>it. (it_Object it, it_Expiration it)) (map_of (items c) k)"

lemma Get_abs: "Get t k c = read_timed t (cache_abs c) k"
  by (simp add: Get_def read_timed_def cache_abs_def split: option.split)

lemma full_abs:
  assumes "cache_inv de c"
  shows "full_map (maxItemsCount c) (cache_abs c) \<longleftrightarrow> IsReachMaxItemsCount c"
proof -
  have "dom (cache_abs c) = fst ` set (items c)"
    using dom_map_of_conv_image_fst [of "items c"] by (auto simp: cache_abs_def dom_def)
  then have "card (dom (cache_abs c)) = length (items c)"
    using assms distinct_card [of "map fst (items c)"] by (simp add: cache_inv_def)
  then show ?thesis by (simp add: full_map_def IsReachMaxItemsCount_def ItemCount_def)
qed

lemma abs_set: "cache_inv de c \<Longrightarrow> cache_abs (cache_set now k x d c) = (cache_abs c)(k \<mapsto> (x, deadline de now d))"
  by (auto simp: cache_abs_def cache_set_def update_conv' expiry_deadline cache_inv_def fun_eq_iff)

lemma abs_remove: "cache_abs (cache_remove k c) = (cache_abs c)(k := None)"
  by (auto simp: cache_abs_def cache_remove_def Delete_snd delete_conv' fun_eq_iff)

lemma abs_clean: "cache_inv de c \<Longrightarrow> cache_abs (cache_clean now c) = expire_map now (cache_abs c)"
  by (auto simp: cache_clean_spec, auto simp: cache_abs_def cache_inv_def map_of_filter_fresh expire_map_def fresh_def fun_eq_iff
      split: option.split)

text \<open>What an operation leaves alone.\<close>

lemma same_bound [simp]:
  "maxItemsCount (cache_set now k x d c) = maxItemsCount c" "maxItemsCount (cache_remove k c) = maxItemsCount c"
  "c_janitor (cache_set now k x d c) = c_janitor c" "c_janitor (cache_remove k c) = c_janitor c"
  by (simp_all add: cache_set_def cache_remove_def Delete_snd)

lemma same_bound_clean [simp]:
  "cache_inv de c \<Longrightarrow> maxItemsCount (cache_clean now c) = maxItemsCount c" "cache_inv de c \<Longrightarrow> c_janitor (cache_clean now c) = c_janitor c"
  by (simp_all add: cache_clean_spec)

text \<open>A history on the cache itself: the calls of \<open>Set\<close>, \<open>Delete\<close> and \<open>DeleteExpired\<close>. Whether the background routine
  is waiting for its signal at the time of a \<open>Set\<close> is \<open>listening\<close>.\<close>

fun cache_run :: "(int \<Rightarrow> bool) \<Rightarrow> obj store_op list \<Rightarrow> cache \<Rightarrow> cache outcome" where
  "cache_run listening [] c = Ret c"
| "cache_run listening (OpPut now k x d # ops) c = bind_outcome (Set now (listening now) k x d c) (cache_run listening ops)"
| "cache_run listening (OpDelete k # ops) c = cache_run listening ops (snd (Delete k c))"
| "cache_run listening (OpClean now # ops) c = cache_run listening ops (snd (DeleteExpired now (items c) c))"

lemma cache_run_remove: "cache_run listening (OpDelete k # ops) c = cache_run listening ops (cache_remove k c)"
  by (simp add: cache_remove_def)

lemma cache_run_clean: "cache_run listening (OpClean now # ops) c = cache_run listening ops (cache_clean now c)"
  by (simp add: cache_clean_def)

lemma Set_full:
  assumes "IsReachMaxItemsCount c"
  shows "(case Set now l k x d c of Panic _ \<Rightarrow> c_janitor c = None
    | Ret c' \<Rightarrow> c_janitor c \<noteq> None \<and> c_janitor c' \<noteq> None \<and> maxItemsCount c' = maxItemsCount c \<and> (\<forall>de. cache_inv de c' = cache_inv de c) \<and>
        cache_abs c' = cache_abs c)"
  using assms by (simp add: Set_def ShoudClean_def cache_inv_def cache_abs_def fun_eq_iff split: option.split)

text \<open>What the result of a history should be, on a cache with the bound \<open>n\<close> that reads as \<open>m\<close>.\<close>

definition agrees :: "bool \<Rightarrow> int \<Rightarrow> (int \<Rightarrow> int \<Rightarrow> int) \<Rightarrow> obj store_op list \<Rightarrow> obj timed_map \<Rightarrow> cache outcome \<Rightarrow> bool" where
  "agrees routine n dl ops m r \<longleftrightarrow> (case r of
     Panic _ \<Rightarrow> \<not> routine \<and> overfull n dl ops m
   | Ret c \<Rightarrow> (overfull n dl ops m \<longrightarrow> routine) \<and> cache_abs c = bounded_store n dl ops m)"

lemma agrees_step:
  "agrees routine n dl ops (bounded_op n dl q m) r \<Longrightarrow> (\<And>now k x d. q = OpPut now k x d \<Longrightarrow> full_map n m \<Longrightarrow> routine) \<Longrightarrow>
     agrees routine n dl (q # ops) m r"
  by (cases q) (auto simp: agrees_def bounded_store_def split: outcome.splits)

lemma cache_run_bounded:
  assumes "cache_inv de c" "maxItemsCount c = n" "cache_abs c = m"
  shows "agrees (c_janitor c \<noteq> None) n (deadline de) ops m (cache_run listening ops c)"
  using assms
proof (induction ops arbitrary: c m)
  case (Cons q ops)
  show ?case
  proof (cases q)
    case (OpPut now k x d)
    have full: "full_map n m \<longleftrightarrow> IsReachMaxItemsCount c" using full_abs Cons.prems by blast
    show ?thesis
    proof (cases "IsReachMaxItemsCount c")
      case True
      note f = Set_full [OF True, of now "listening now" k x d]
      show ?thesis
      proof (cases "Set now (listening now) k x d c")
        case (Ret c1)
        then have "agrees (c_janitor c1 \<noteq> None) n (deadline de) ops m (cache_run listening ops c1)" "c_janitor c \<noteq> None" "c_janitor c1 \<noteq> None"
          using f Cons.IH [of c1 m] Cons.prems by simp_all
        then show ?thesis using agrees_step [of True n "deadline de" ops q m] OpPut Ret full True by simp
      next
        case (Panic msg)
        then show ?thesis using f full True OpPut by (simp add: agrees_def)
      qed
    next
      case False
      have e: "cache_abs (cache_set now k x d c) = bounded_op n (deadline de) q m"
        using abs_set [OF Cons.prems(1)] Cons.prems(3) full False OpPut by simp
      have "agrees (c_janitor c \<noteq> None) n (deadline de) ops (bounded_op n (deadline de) q m) (cache_run listening ops (cache_set now k x d c))"
        using Cons.IH [OF cache_set_inv [OF Cons.prems(1)] _ e] Cons.prems(2) by simp
      then show ?thesis using agrees_step full False OpPut Set_put [OF False] by fastforce
    qed
  next
    case (OpDelete k)
    have e: "cache_abs (cache_remove k c) = bounded_op n (deadline de) q m" using abs_remove [of k c] Cons.prems(3) OpDelete by simp
    have "agrees (c_janitor c \<noteq> None) n (deadline de) ops (bounded_op n (deadline de) q m) (cache_run listening ops (cache_remove k c))"
      using Cons.IH [OF cs.inv_del [OF Cons.prems(1), of k] _ e] Cons.prems(2) by simp
    then show ?thesis using agrees_step OpDelete unfolding OpDelete cache_run_remove by blast
  next
    case (OpClean now)
    have e: "cache_abs (cache_clean now c) = bounded_op n (deadline de) q m" using abs_clean [OF Cons.prems(1)] Cons.prems(3) OpClean by simp
    have "agrees (c_janitor c \<noteq> None) n (deadline de) ops (bounded_op n (deadline de) q m) (cache_run listening ops (cache_clean now c))"
      using Cons.IH [OF cs.inv_clean [OF Cons.prems(1), of now] _ e] Cons.prems(1,2) by simp
    then show ?thesis using agrees_step OpClean unfolding OpClean cache_run_clean by blast
  qed
qed (simp add: agrees_def bounded_store_def)

text \<open>Whether the store refuses, likewise.\<close>

lemma exec_refuses:
  assumes "cache_inv de c"
  shows "exec_store cache_put cache_remove cache_clean ops c = None \<longleftrightarrow> overfull (maxItemsCount c) (deadline de) ops (cache_abs c)"
  using assms
proof (induction ops arbitrary: c)
  case (Cons q ops)
  show ?case
  proof (cases q)
    case (OpPut now k x d)
    show ?thesis
    proof (cases "IsReachMaxItemsCount c")
      case True
      then show ?thesis using OpPut full_abs [OF Cons.prems] by (simp add: cache_put_def)
    next
      case False
      then have "cache_put now k x d c = Some (cache_set now k x d c)" by (simp add: cache_put_Some)
      moreover have e: "cache_abs (cache_set now k x d c) = bounded_op (maxItemsCount c) (deadline de) q (cache_abs c)"
        using abs_set [OF Cons.prems] full_abs [OF Cons.prems] False OpPut by simp
      moreover have "overfull (maxItemsCount c) (deadline de) (q # ops) (cache_abs c) \<longleftrightarrow>
          overfull (maxItemsCount c) (deadline de) ops (bounded_op (maxItemsCount c) (deadline de) q (cache_abs c))"
        using full_abs [OF Cons.prems] False OpPut by simp
      moreover note Cons.IH [OF cache_set_inv [OF Cons.prems], of now k x d]
      ultimately show ?thesis by (simp only: OpPut exec_store.simps option.case same_bound)
    qed
  next
    case (OpDelete k)
    have e: "cache_abs (cache_remove k c) = bounded_op (maxItemsCount c) (deadline de) q (cache_abs c)" using abs_remove [of k c] OpDelete by simp
    have "overfull (maxItemsCount c) (deadline de) (q # ops) (cache_abs c) \<longleftrightarrow>
        overfull (maxItemsCount c) (deadline de) ops (bounded_op (maxItemsCount c) (deadline de) q (cache_abs c))"
      using OpDelete by simp
    then show ?thesis using Cons.IH [OF cs.inv_del [OF Cons.prems], of k] e by (simp only: OpDelete exec_store.simps same_bound)
  next
    case (OpClean now)
    then show ?thesis using Cons.IH [OF cs.inv_clean [OF Cons.prems], of now] abs_clean [OF Cons.prems, of now] Cons.prems by simp
  qed
qed simp

lemma New_abs: "cache_abs (New t0 de ci n) = Map.empty" "maxItemsCount (New t0 de ci n) = n" "c_janitor (New t0 de ci n) = None \<longleftrightarrow> ci \<le> 0"
  by (auto simp: cache_abs_def New_def newCacheWithJanitor_def newCache_def Let_def)

text \<open>C10. After any history of \<open>Set\<close>, \<open>Delete\<close> and cleaning on a new cache, \<open>Get\<close> reads what a map with deadlines and a
  bound on its size has: a \<open>Set\<close> on a full cache is dropped, even for a key the cache has, and panics when there is
  no background routine, and only then. As long as no \<open>Set\<close> meets a full cache, \<open>Get\<close> after the cleanings gives the
  value of the last \<open>Set\<close> of the key, unless the key was deleted since or the deadline of that \<open>Set\<close> has passed.\<close>

theorem cache_history:
  assumes "dl = deadline (if de = 0 then -1 else de)" "r = cache_run listening ops (New t0 de ci n)"
  shows "((\<exists>m. r = Panic m) \<longleftrightarrow> ci \<le> 0 \<and> overfull n dl ops Map.empty) \<and>
    (\<forall>c t k. r = Ret c \<longrightarrow> Get t k c = read_timed t (bounded_store n dl ops Map.empty) k \<and>
       (\<not> overfull n dl ops Map.empty \<and> list_all (op_before t) ops \<longrightarrow> Get t k c = read_timed t (spec_store dl ops Map.empty) k))"
proof -
  have "agrees (\<not> ci \<le> 0) n dl ops Map.empty r"
    using cache_run_bounded [OF New_inv [of de t0 ci n] New_abs(2,1), of ops listening] New_abs(3) [of t0 de ci n]
    unfolding assms by simp
  then show ?thesis
    using bounded_unseen [of n dl ops Map.empty _ Map.empty] by (cases r) (auto simp: Get_abs agrees_def)
qed

text \<open>One cache with a background routine and room for one item, and one without it and room for two.\<close>

lemma cache_history_witness:
  "(\<exists>c. cache_run (\<lambda>_. True) [OpPut 0 ''k'' (OInt 1) 10, OpPut 5 ''k'' (OInt 2) 0, OpClean 11] (New 0 0 1 1) = Ret c \<and> Get 9 ''k'' c = None) \<and>
   (\<exists>c. cache_run (\<lambda>_. True) [OpPut 0 ''k'' (OInt 1) 10, OpPut 5 ''k'' (OInt 2) 0, OpClean 11] (New 0 0 0 2) = Ret c \<and> Get 20 ''k'' c = Some (OInt 2))"
proof -
  let ?ops = "[OpPut 0 ''k'' (OInt 1) 10, OpPut 5 ''k'' (OInt 2) 0, OpClean 11]"
  have d: "deadline (-1) 0 10 = 10" "deadline (-1) 5 0 = 0" by (simp_all add: deadline_def int64_def)
  have 1: "bounded_store 1 (deadline (-1)) ?ops Map.empty ''k'' = None"
    by (simp add: bounded_store_def full_map_def expire_map_def d)
  have 2: "\<not> overfull 2 (deadline (-1)) ?ops Map.empty" "list_all (op_before 20) ?ops"
      "spec_store (deadline (-1)) ?ops Map.empty ''k'' = Some (OInt 2, 0)"
    by (simp_all add: full_map_def spec_store_def d)
  have dl: "deadline (-1) = deadline (if (0 :: int) = 0 then -1 else 0)" by simp
  note h = cache_history [OF dl refl, of "\<lambda>_. True" ?ops 0]
  have "\<not> (\<exists>m. cache_run (\<lambda>_. True) ?ops (New 0 0 1 1) = Panic m)" using conjunct1 [OF h, of 1 1] by simp
  then obtain c where c: "cache_run (\<lambda>_. True) ?ops (New 0 0 1 1) = Ret c" by (meson outcome.exhaust)
  have "\<not> (\<exists>m. cache_run (\<lambda>_. True) ?ops (New 0 0 0 2) = Panic m)" using conjunct1 [OF h, of 0 2] 2(1) by blast
  then obtain c' where c': "cache_run (\<lambda>_. True) ?ops (New 0 0 0 2) = Ret c'" by (meson outcome.exhaust)
  have "Get 9 ''k'' c = read_timed 9 (bounded_store 1 (deadline (-1)) ?ops Map.empty) ''k''" using conjunct2 [OF h, of 1 1] c by blast
  moreover have "Get 20 ''k'' c' = read_timed 20 (spec_store (deadline (-1)) ?ops Map.empty) ''k''"
    using conjunct2 [OF h, of 0 2] c' 2(1,2) by blast
  ultimately show ?thesis using c c' 1 2(3) by (simp add: read_timed_def)
qed

text \<open>\<open>DeleteExpired\<close> removes exactly the items that have expired, whatever the order in which it visits
  the map, calls the callback once for each of them, with its value, in that order, and changes no
  later reading.\<close>

theorem DeleteExpired_exact:
  assumes "cache_inv de c" "distinct (map fst visited)" "set visited = set (items c)" "DeleteExpired now visited c = (ev, c')"
  shows "set (items c') = {(k, v) \<in> set (items c). \<not> (it_Expiration v > 0 \<and> now > it_Expiration v)} \<and>
    ev = (if onEvicted c then map (\<lambda>(k, v). (k, it_Object v))
            (filter (\<lambda>(k, v). it_Expiration v > 0 \<and> now > it_Expiration v) visited) else []) \<and>
    lastCleanTime c' = now \<and> (\<forall>t k. now \<le> t \<longrightarrow> Get t k c' = Get t k c)"
proof -
  have d: "distinct (map fst (items c))" using assms(1) by (simp add: cache_inv_def)
  have c': "c' = c\<lparr>items := filter (fresh now) (items c), lastCleanTime := now\<rparr>"
    and ev: "ev = (if onEvicted c then evictions now visited else [])"
    using DeleteExpired_spec [OF d assms(2,3), of now] assms(4) by simp_all
  have "evictions now visited = map (\<lambda>(k, v). (k, it_Object v))
      (filter (\<lambda>(k, v). it_Expiration v > 0 \<and> now > it_Expiration v) visited)"
    by (simp add: evictions_def fresh_def split_def)
  then show ?thesis
    using c' ev Get_filter_fresh [OF d] by (auto simp: fresh_def)
qed

lemma DeleteExpired_exact_witness:
  "Get 9 ''a'' (snd (DeleteExpired 7 [(''b'', \<lparr>it_Object = ONil, it_Expiration = 5\<rparr>), (''a'', \<lparr>it_Object = OInt 1, it_Expiration = 0\<rparr>)]
     (NewFrom 0 0 1 9 [(''a'', \<lparr>it_Object = OInt 1, it_Expiration = 0\<rparr>), (''b'', \<lparr>it_Object = ONil, it_Expiration = 5\<rparr>)])))
   = Some (OInt 1)"
proof -
  let ?a = "(''a'', \<lparr>it_Object = OInt 1, it_Expiration = 0\<rparr>)" and ?b = "(''b'', \<lparr>it_Object = ONil, it_Expiration = 5\<rparr>)"
  let ?c = "NewFrom 0 0 1 9 [?a, ?b]"
  have i: "cache_inv (-1) ?c" "distinct (map fst [?b, ?a])" "set [?b, ?a] = set (items ?c)"
    by (auto simp: cache_inv_def NewFrom_def newCacheWithJanitor_def newCache_def Let_def)
  obtain ev c' where d: "DeleteExpired 7 [?b, ?a] ?c = (ev, c')" by (metis surj_pair)
  have "Get 9 ''a'' c' = Get 9 ''a'' ?c" using DeleteExpired_exact [OF i d] by simp
  then show ?thesis
    unfolding d by (simp add: Get_def NewFrom_def newCacheWithJanitor_def newCache_def Let_def)
qed

section \<open>The bound on the size\<close>

text \<open>A full cache does not take a new value even for a key it has, against the comment of \<open>Set\<close>: without
  a background routine \<open>Set\<close> panics with a nil pointer, and with one it keeps the old value.\<close>

theorem full_cache_keeps_old:
  assumes "ItemCount c \<ge> maxItemsCount c"
  shows "(c_janitor c = None \<longrightarrow> (\<exists>m. Set now listening k x d c = Panic m)) \<and>
    (c_janitor c \<noteq> None \<longrightarrow> (\<exists>c'. Set now listening k x d c = Ret c' \<and> items c' = items c \<and> (\<forall>t j. Get t j c' = Get t j c)))"
  using assms by (auto simp: Set_def IsReachMaxItemsCount_def ShoudClean_def Get_def)

lemma full_cache_keeps_old_witness:
  "\<exists>m. Set 0 True ''k'' (OInt 2) 0 (NewFrom 0 0 0 1 [(''k'', \<lparr>it_Object = OInt 1, it_Expiration = 0\<rparr>)]) = Panic m"
proof -
  let ?c = "NewFrom 0 0 0 1 [(''k'', \<lparr>it_Object = OInt 1, it_Expiration = 0\<rparr>)]"
  have "ItemCount ?c \<ge> maxItemsCount ?c" "c_janitor ?c = None"
    by (simp_all add: ItemCount_def NewFrom_def newCacheWithJanitor_def newCache_def Let_def)
  then show ?thesis using full_cache_keeps_old by blast
qed

text \<open>The goroutines that call \<open>Set\<close>: the size is tested before the lock is taken, so others may write
  between the test and the write of one of them. A goroutine that has passed the test is in \<open>writing\<close>,
  with the item it will store.\<close>

record setters =
  shared :: cache
  writing :: "(bytes \<times> item) list"

inductive setter_step :: "nat \<Rightarrow> setters \<Rightarrow> setters \<Rightarrow> bool" for n where
  pass_test: "\<not> IsReachMaxItemsCount (shared s) \<Longrightarrow> length (writing s) < n \<Longrightarrow>
     setter_step n s (s\<lparr>writing := (k, \<lparr>it_Object = x, it_Expiration = expiry now d (shared s)\<rparr>) # writing s\<rparr>)"
| store: "writing s = us @ (k, it) # vs \<Longrightarrow>
     setter_step n s (s\<lparr>shared := (shared s)\<lparr>items := AList.update k it (items (shared s))\<rparr>, writing := us @ vs\<rparr>)"
| remove: "setter_step n s (s\<lparr>shared := snd (Delete k (shared s))\<rparr>)"

inductive setters_run :: "nat \<Rightarrow> setters \<Rightarrow> setters \<Rightarrow> bool" for n where
  stop: "setters_run n s s"
| go: "setters_run n s s' \<Longrightarrow> setter_step n s' s'' \<Longrightarrow> setters_run n s s''"

text \<open>A goroutine alone does what \<open>Set\<close> does.\<close>

lemma setter_alone:
  assumes "\<not> IsReachMaxItemsCount c" "n > 0"
  shows "\<exists>s. setters_run n \<lparr>shared = c, writing = []\<rparr> s \<and> writing s = [] \<and> Set now l k x d c = Ret (shared s)"
proof -
  let ?it = "\<lparr>it_Object = x, it_Expiration = expiry now d c\<rparr>"
  have 1: "setter_step n \<lparr>shared = c, writing = []\<rparr> \<lparr>shared = c, writing = [(k, ?it)]\<rparr>"
    using setter_step.pass_test [of "\<lparr>shared = c, writing = []\<rparr>" n k x now d] assms by simp
  have 2: "setter_step n \<lparr>shared = c, writing = [(k, ?it)]\<rparr> \<lparr>shared = cache_set now k x d c, writing = []\<rparr>"
    using setter_step.store [of "\<lparr>shared = c, writing = [(k, ?it)]\<rparr>" "[]" k ?it "[]" n] by (simp add: cache_set_def)
  show ?thesis
    using setters_run.go [OF setters_run.go [OF setters_run.stop 1] 2] assms(1)
    by (intro exI [of _ "\<lparr>shared = cache_set now k x d c, writing = []\<rparr>"]) (simp add: Set_put)
qed

lemma length_update_le: "length (AList.update k v al) \<le> Suc (length al)"
  by (induction al) auto

lemma setter_step_bound:
  assumes "setter_step n s s'" "maxItemsCount (shared s) = mx"
    "int (length (items (shared s)) + length (writing s)) \<le> max b (mx + int n - 1)"
  shows "maxItemsCount (shared s') = mx \<and> int (length (items (shared s')) + length (writing s')) \<le> max b (mx + int n - 1)"
  using assms(1)
proof cases
  case (pass_test k x now d)
  then have "int (length (items (shared s))) < mx" "length (writing s) < n"
    using assms(2) by (auto simp: IsReachMaxItemsCount_def ItemCount_def)
  then show ?thesis using pass_test assms(2) by simp
next
  case (store us k it vs)
  then show ?thesis using assms(2,3) length_update_le [of k it "items (shared s)"] by simp
next
  case (remove k)
  then show ?thesis
    using assms(2,3) length_delete_le [of k "items (shared s)"] by (simp add: Delete_snd)
qed

text \<open>C27. How far the bound on the size is exceeded: with \<open>n\<close> goroutines in \<open>Set\<close> at a time, in any
  interleaving with each other and with deletions, a cache that starts within its bound never holds
  more than \<open>n - 1\<close> items beyond it.\<close>

theorem capacity_overshoot:
  assumes "setters_run n \<lparr>shared = c, writing = []\<rparr> s" "ItemCount c \<le> maxItemsCount c" "n > 0"
  shows "ItemCount (shared s) \<le> maxItemsCount c + int n - 1"
proof -
  have "maxItemsCount (shared s) = maxItemsCount c \<and>
      int (length (items (shared s)) + length (writing s)) \<le> max (maxItemsCount c) (maxItemsCount c + int n - 1)"
    using assms(1)
  proof (induction "\<lparr>shared = c, writing = []\<rparr>" s rule: setters_run.induct)
    case stop
    then show ?case using assms(2) by (simp add: ItemCount_def)
  next
    case (go s' s'')
    then show ?case using setter_step_bound [of n s' s'' "maxItemsCount c" "maxItemsCount c"] by blast
  qed
  then show ?thesis using assms(3) by (simp add: ItemCount_def)
qed

lemma capacity_overshoot_witness:
  "\<exists>s. setters_run 2 \<lparr>shared = New 0 0 1 1, writing = []\<rparr> s \<and> ItemCount (shared s) = 2 \<and> ItemCount (shared s) \<le> 1 + int 2 - 1"
proof -
  let ?c = "New 0 0 1 1" and ?it = "\<lparr>it_Object = ONil, it_Expiration = expiry 0 0 (New 0 0 1 1)\<rparr>"
  let ?c1 = "?c\<lparr>items := [(''a'', ?it)]\<rparr>" and ?c2 = "?c\<lparr>items := [(''a'', ?it), (''b'', ?it)]\<rparr>"
  have i: "items ?c = []" "maxItemsCount ?c = 1" "\<not> IsReachMaxItemsCount ?c"
    by (simp_all add: New_def newCacheWithJanitor_def newCache_def Let_def IsReachMaxItemsCount_def ItemCount_def)
  have 1: "setter_step 2 \<lparr>shared = ?c, writing = []\<rparr> \<lparr>shared = ?c, writing = [(''a'', ?it)]\<rparr>"
    using setter_step.pass_test [of "\<lparr>shared = ?c, writing = []\<rparr>" 2 "''a''" ONil 0 0] i by simp
  have 2: "setter_step 2 \<lparr>shared = ?c, writing = [(''a'', ?it)]\<rparr> \<lparr>shared = ?c, writing = [(''b'', ?it), (''a'', ?it)]\<rparr>"
    using setter_step.pass_test [of "\<lparr>shared = ?c, writing = [(''a'', ?it)]\<rparr>" 2 "''b''" ONil 0 0] i by simp
  have 3: "setter_step 2 \<lparr>shared = ?c, writing = [(''b'', ?it), (''a'', ?it)]\<rparr> \<lparr>shared = ?c1, writing = [(''b'', ?it)]\<rparr>"
    using setter_step.store [of "\<lparr>shared = ?c, writing = [(''b'', ?it), (''a'', ?it)]\<rparr>" "[(''b'', ?it)]" "''a''" ?it "[]" 2] i by simp
  have 4: "setter_step 2 \<lparr>shared = ?c1, writing = [(''b'', ?it)]\<rparr> \<lparr>shared = ?c2, writing = []\<rparr>"
    using setter_step.store [of "\<lparr>shared = ?c1, writing = [(''b'', ?it)]\<rparr>" "[]" "''b''" ?it "[]" 2] by simp
  have run: "setters_run 2 \<lparr>shared = ?c, writing = []\<rparr> \<lparr>shared = ?c2, writing = []\<rparr>"
    by (rule setters_run.go [OF setters_run.go [OF setters_run.go [OF setters_run.go [OF setters_run.stop 1] 2] 3] 4])
  have "ItemCount (shared \<lparr>shared = ?c2, writing = []\<rparr>) \<le> maxItemsCount ?c + int 2 - 1"
    by (rule capacity_overshoot [OF run]) (simp_all add: i ItemCount_def)
  then show ?thesis using run i by (intro exI [of _ "\<lparr>shared = ?c2, writing = []\<rparr>"]) (simp add: ItemCount_def)
qed

section \<open>Increments\<close>

definition integer_obj :: "obj \<Rightarrow> bool" where
  "integer_obj x \<longleftrightarrow> (case x of ONil \<Rightarrow> False | OFloat32 v \<Rightarrow> False | OFloat64 v \<Rightarrow> False | OOther v \<Rightarrow> False | _ \<Rightarrow> True)"

lemma sub_add_obj:
  "integer_obj x \<Longrightarrow> \<exists>y. add_obj fo n x = Some y \<and> integer_obj y \<and> sub_obj fo n y = Some x"
  by (cases x) (auto simp: integer_obj_def)

lemma update_update_same: "AList.update k v (AList.update k u al) = AList.update k v al"
  by (induction al) auto

lemma update_same: "map_of al k = Some v \<Longrightarrow> AList.update k v al = al"
  by (induction al) auto

text \<open>Adding to a stored integer is exact modulo its width, for every integer type and every operand:
  taking the same amount away again gives back the very cache, whatever wrapped in between.\<close>

theorem increment_decrement:
  assumes "map_of (items c) k = Some it" "\<not> Expired it now" "integer_obj (it_Object it)"
  shows "\<exists>c'. Increment fo now k n c = (None, c') \<and> Decrement fo now k n c' = (None, c)"
proof -
  obtain y where y: "add_obj fo n (it_Object it) = Some y" "sub_obj fo n y = Some (it_Object it)"
    using sub_add_obj [OF assms(3)] by blast
  let ?c = "c\<lparr>items := AList.update k (it\<lparr>it_Object := y\<rparr>) (items c)\<rparr>"
  have "Increment fo now k n c = (None, ?c)"
    using assms(1,2) y(1) by (simp add: Increment_def change_item_def live_item_def)
  moreover have "Decrement fo now k n ?c = (None, c)"
    using assms(1,2) y(2) by (simp add: Decrement_def change_item_def live_item_def update_conv' Expired_def
        update_update_same update_same)
  ultimately show ?thesis by blast
qed

lemma increment_decrement_witness:
  "\<forall>fo. \<exists>c'. Increment fo 0 ''k'' 100 (NewFrom 0 0 1 9 [(''k'', \<lparr>it_Object = OInt8 100, it_Expiration = 0\<rparr>)]) = (None, c') \<and>
    Decrement fo 0 ''k'' 100 c' = (None, NewFrom 0 0 1 9 [(''k'', \<lparr>it_Object = OInt8 100, it_Expiration = 0\<rparr>)])"
  by (rule allI, rule increment_decrement [where it = "\<lparr>it_Object = OInt8 100, it_Expiration = 0\<rparr>"])
    (simp_all add: NewFrom_def newCacheWithJanitor_def newCache_def Let_def Expired_def integer_obj_def)

lemma typed_op_change_item:
  assumes "live_item now k c = Some it" "sel (it_Object it) = Some v" "f (it_Object it) = Some (con (g v))"
  shows "typed_op ty sel con g now k c = (Inr (g v), snd (change_item e1 e2 f now k c))"
  using assms by (simp add: typed_op_def change_item_def Let_def)

text \<open>The typed operations do what \<open>Increment\<close> and \<open>Decrement\<close> do on a value of their type, with the
  operand truncated to the type, and return the new value.\<close>

theorem typed_increments:
  assumes "live_item now k c = Some it"
  shows "(\<forall>v. it_Object it = OInt v \<longrightarrow> IncrementInt now k n c = (Inr (v + n), snd (Increment fo now k n c))) \<and>
    (\<forall>v. it_Object it = OInt8 v \<longrightarrow> IncrementInt8 now k (ucast n) c = (Inr (v + ucast n), snd (Increment fo now k n c))) \<and>
    (\<forall>v. it_Object it = OInt16 v \<longrightarrow> IncrementInt16 now k (ucast n) c = (Inr (v + ucast n), snd (Increment fo now k n c))) \<and>
    (\<forall>v. it_Object it = OInt32 v \<longrightarrow> IncrementInt32 now k (ucast n) c = (Inr (v + ucast n), snd (Increment fo now k n c))) \<and>
    (\<forall>v. it_Object it = OInt64 v \<longrightarrow> IncrementInt64 now k n c = (Inr (v + n), snd (Increment fo now k n c))) \<and>
    (\<forall>v. it_Object it = OUint v \<longrightarrow> IncrementUint now k n c = (Inr (v + n), snd (Increment fo now k n c))) \<and>
    (\<forall>v. it_Object it = OUintptr v \<longrightarrow> IncrementUintptr now k n c = (Inr (v + n), snd (Increment fo now k n c))) \<and>
    (\<forall>v. it_Object it = OUint8 v \<longrightarrow> IncrementUint8 now k (ucast n) c = (Inr (v + ucast n), snd (Increment fo now k n c))) \<and>
    (\<forall>v. it_Object it = OUint16 v \<longrightarrow> IncrementUint16 now k (ucast n) c = (Inr (v + ucast n), snd (Increment fo now k n c))) \<and>
    (\<forall>v. it_Object it = OUint32 v \<longrightarrow> IncrementUint32 now k (ucast n) c = (Inr (v + ucast n), snd (Increment fo now k n c))) \<and>
    (\<forall>v. it_Object it = OUint64 v \<longrightarrow> IncrementUint64 now k n c = (Inr (v + n), snd (Increment fo now k n c))) \<and>
    (\<forall>v. it_Object it = OInt v \<longrightarrow> DecrementInt now k n c = (Inr (v - n), snd (Decrement fo now k n c))) \<and>
    (\<forall>v. it_Object it = OInt8 v \<longrightarrow> DecrementInt8 now k (ucast n) c = (Inr (v - ucast n), snd (Decrement fo now k n c))) \<and>
    (\<forall>v. it_Object it = OInt16 v \<longrightarrow> DecrementInt16 now k (ucast n) c = (Inr (v - ucast n), snd (Decrement fo now k n c))) \<and>
    (\<forall>v. it_Object it = OInt32 v \<longrightarrow> DecrementInt32 now k (ucast n) c = (Inr (v - ucast n), snd (Decrement fo now k n c))) \<and>
    (\<forall>v. it_Object it = OInt64 v \<longrightarrow> DecrementInt64 now k n c = (Inr (v - n), snd (Decrement fo now k n c))) \<and>
    (\<forall>v. it_Object it = OUint v \<longrightarrow> DecrementUint now k n c = (Inr (v - n), snd (Decrement fo now k n c))) \<and>
    (\<forall>v. it_Object it = OUintptr v \<longrightarrow> DecrementUintptr now k n c = (Inr (v - n), snd (Decrement fo now k n c))) \<and>
    (\<forall>v. it_Object it = OUint8 v \<longrightarrow> DecrementUint8 now k (ucast n) c = (Inr (v - ucast n), snd (Decrement fo now k n c))) \<and>
    (\<forall>v. it_Object it = OUint16 v \<longrightarrow> DecrementUint16 now k (ucast n) c = (Inr (v - ucast n), snd (Decrement fo now k n c))) \<and>
    (\<forall>v. it_Object it = OUint32 v \<longrightarrow> DecrementUint32 now k (ucast n) c = (Inr (v - ucast n), snd (Decrement fo now k n c))) \<and>
    (\<forall>v. it_Object it = OUint64 v \<longrightarrow> DecrementUint64 now k n c = (Inr (v - n), snd (Decrement fo now k n c)))"
  unfolding Increment_typed Decrement_typed Increment_def Decrement_def
  by (intro conjI allI impI; rule typed_op_change_item [OF assms]; simp)

lemma typed_increments_witness:
  "IncrementInt8 0 ''k'' 100 (NewFrom 0 0 1 9 [(''k'', \<lparr>it_Object = OInt8 100, it_Expiration = 0\<rparr>)]) =
     (Inr 200, snd (Increment undefined 0 ''k'' 100 (NewFrom 0 0 1 9 [(''k'', \<lparr>it_Object = OInt8 100, it_Expiration = 0\<rparr>)])))"
proof -
  let ?it = "\<lparr>it_Object = OInt8 100, it_Expiration = 0\<rparr>"
  have "live_item 0 ''k'' (NewFrom 0 0 1 9 [(''k'', ?it)]) = Some ?it"
    by (simp add: live_item_def NewFrom_def newCacheWithJanitor_def newCache_def Let_def Expired_def)
  from typed_increments [OF this, of 100 undefined] show ?thesis by simp
qed

end
