(* ===== verification/Sharded_Cache.thy ===== *)
theory Sharded_Cache
  imports Memory_Cache
begin

text \<open>
  The sharded cache (\<open>utils/memorycacher/sharded.go\<close>): the key's hash picks one of several caches. The
  seed of the hash is random, here an argument. None of the caches has a background routine of its
  own.
\<close>

unbundle bit_operations_syntax

record sharded_cache =
  seed :: "32 word"
  sc_m :: "32 word"
  cs :: "cache list"
  sc_janitor :: "int option"

definition mix :: "32 word \<Rightarrow> char \<Rightarrow> 32 word" where
  "mix d c = (d * 33) XOR of_nat (of_char c)"

text \<open>The loop takes four bytes while more than four are left.\<close>

fun djb_loop :: "32 word \<Rightarrow> bytes \<Rightarrow> 32 word \<times> bytes" where
  "djb_loop d (a # b # c # e # f # k) = djb_loop (mix (mix (mix (mix d a) b) c) e) (f # k)"
| "djb_loop d k = (d, k)"

definition djb_tail :: "32 word \<Rightarrow> bytes \<Rightarrow> 32 word" where
  "djb_tail d k = (case k of
     [a, _] \<Rightarrow> mix d a
   | [a, b, _] \<Rightarrow> mix (mix d a) b
   | [a, b, c, _] \<Rightarrow> mix (mix (mix d a) b) c
   | _ \<Rightarrow> d)"

definition djb33 :: "32 word \<Rightarrow> bytes \<Rightarrow> 32 word" where
  "djb33 sd k = (case djb_loop (5381 + sd + of_nat (length k)) k of (d, rest) \<Rightarrow>
     let d = djb_tail d rest in d XOR drop_bit 16 d)"

text \<open>The index of the cache of a key; without caches the modulus is 0.\<close>

definition bucket :: "sharded_cache \<Rightarrow> bytes \<Rightarrow> nat outcome" where
  "bucket sc k = (if sc_m sc = 0 then Panic ''integer divide by zero''
     else let i = unat (djb33 (seed sc) k mod sc_m sc)
          in if i < length (cs sc) then Ret i else Panic ''index out of range'')"

definition on_bucket :: "bytes \<Rightarrow> (cache \<Rightarrow> ('a \<times> cache) outcome) \<Rightarrow> sharded_cache \<Rightarrow> ('a \<times> sharded_cache) outcome" where
  "on_bucket k f sc = bind_outcome (bucket sc k) (\<lambda>i. bind_outcome (f (cs sc ! i)) (\<lambda>(r, c).
     Ret (r, sc\<lparr>cs := (cs sc)[i := c]\<rparr>)))"

definition sharded_Set :: "int \<Rightarrow> bool \<Rightarrow> bytes \<Rightarrow> obj \<Rightarrow> int \<Rightarrow> sharded_cache \<Rightarrow> (unit \<times> sharded_cache) outcome" where
  "sharded_Set now l k x d = on_bucket k (\<lambda>c. bind_outcome (Set now l k x d c) (\<lambda>c. Ret ((), c)))"

definition sharded_Add :: "int \<Rightarrow> bool \<Rightarrow> bytes \<Rightarrow> obj \<Rightarrow> int \<Rightarrow> sharded_cache \<Rightarrow> (go_error option \<times> sharded_cache) outcome" where
  "sharded_Add now l k x d = on_bucket k (Add now l k x d)"

definition sharded_Replace :: "int \<Rightarrow> bytes \<Rightarrow> obj \<Rightarrow> int \<Rightarrow> sharded_cache \<Rightarrow> (go_error option \<times> sharded_cache) outcome" where
  "sharded_Replace now k x d = on_bucket k (\<lambda>c. Ret (Replace now k x d c))"

definition sharded_Get :: "int \<Rightarrow> bytes \<Rightarrow> sharded_cache \<Rightarrow> obj option outcome" where
  "sharded_Get now k sc = bind_outcome (bucket sc k) (\<lambda>i. Ret (Get now k (cs sc ! i)))"

definition sharded_Increment :: "float_ops \<Rightarrow> int \<Rightarrow> bytes \<Rightarrow> 64 word \<Rightarrow> sharded_cache \<Rightarrow> (go_error option \<times> sharded_cache) outcome" where
  "sharded_Increment fo now k n = on_bucket k (\<lambda>c. Ret (Increment fo now k n c))"

definition sharded_IncrementFloat :: "float_ops \<Rightarrow> int \<Rightarrow> bytes \<Rightarrow> 64 word \<Rightarrow> sharded_cache \<Rightarrow> (go_error option \<times> sharded_cache) outcome" where
  "sharded_IncrementFloat fo now k n = on_bucket k (\<lambda>c. Ret (IncrementFloat fo now k n c))"

definition sharded_Decrement :: "float_ops \<Rightarrow> int \<Rightarrow> bytes \<Rightarrow> 64 word \<Rightarrow> sharded_cache \<Rightarrow> (go_error option \<times> sharded_cache) outcome" where
  "sharded_Decrement fo now k n = on_bucket k (\<lambda>c. Ret (Decrement fo now k n c))"

definition sharded_Delete :: "bytes \<Rightarrow> sharded_cache \<Rightarrow> ((bytes \<times> obj) list \<times> sharded_cache) outcome" where
  "sharded_Delete k = on_bucket k (\<lambda>c. Ret (Delete k c))"

text \<open>Each cache reads the clock and is visited in an order of its own.\<close>

definition sharded_DeleteExpired :: "(int \<times> (bytes \<times> item) list) list \<Rightarrow> sharded_cache \<Rightarrow> (bytes \<times> obj) list \<times> sharded_cache" where
  "sharded_DeleteExpired turns sc =
     (let rs = map2 (\<lambda>(now, visited) c. DeleteExpired now visited c) turns (cs sc)
      in (concat (map fst rs), sc\<lparr>cs := map snd rs\<rparr>))"

definition sharded_Items :: "int list \<Rightarrow> sharded_cache \<Rightarrow> (bytes \<times> item) list list" where
  "sharded_Items nows sc = map2 Items nows (cs sc)"

definition sharded_Flush :: "sharded_cache \<Rightarrow> sharded_cache" where
  "sharded_Flush sc = sc\<lparr>cs := map Flush (cs sc)\<rparr>"

definition newShardedCache :: "32 word \<Rightarrow> int \<Rightarrow> nat \<Rightarrow> int \<Rightarrow> int \<Rightarrow> sharded_cache" where
  "newShardedCache sd now n de maxItems =
     \<lparr>seed = sd, sc_m = of_nat n, cs = replicate n \<lparr>defaultExpiration = de, maxItemsCount = maxItems, items = [],
        onEvicted = False, lastCleanTime = now, c_janitor = None\<rparr>, sc_janitor = None\<rparr>"

text \<open>The seed: what the system's generator gives below \<open>math.MaxUint32\<close>, or the insecure one.\<close>

definition shard_seed :: "go_error + nat \<Rightarrow> 32 word \<Rightarrow> 32 word" where
  "shard_seed rnd insecure = (case rnd of Inl _ \<Rightarrow> insecure | Inr n \<Rightarrow> of_nat n)"

definition unexportedNewSharded :: "32 word \<Rightarrow> int \<Rightarrow> int \<Rightarrow> int \<Rightarrow> nat \<Rightarrow> int \<Rightarrow> sharded_cache" where
  "unexportedNewSharded sd now de ci n maxItems =
     (let sc = newShardedCache sd now n (if de = 0 then -1 else de) maxItems
      in if ci > 0 then sc\<lparr>sc_janitor := Some ci\<rparr> else sc)"

text \<open>The routine that cleans all shards: on its ticker and on a signal, which nobody sends, until it is stopped. The
  evicted items of all turns are in the order of the callbacks.\<close>

datatype shard_event = ShardTick "(int \<times> (bytes \<times> item) list) list" | ShardSignal "(int \<times> (bytes \<times> item) list) list" | ShardStop

fun shardedJanitor_Run :: "shard_event list \<Rightarrow> sharded_cache \<Rightarrow> (bytes \<times> obj) list \<times> sharded_cache" where
  "shardedJanitor_Run [] sc = ([], sc)"
| "shardedJanitor_Run (ShardTick turns # evs) sc = (case sharded_DeleteExpired turns sc of (ev, sc) \<Rightarrow>
     (case shardedJanitor_Run evs sc of (ev', sc) \<Rightarrow> (ev @ ev', sc)))"
| "shardedJanitor_Run (ShardSignal turns # evs) sc = (case sharded_DeleteExpired turns sc of (ev, sc) \<Rightarrow>
     (case shardedJanitor_Run evs sc of (ev', sc) \<Rightarrow> (ev @ ev', sc)))"
| "shardedJanitor_Run (ShardStop # evs) sc = ([], sc)"

section \<open>The hash\<close>

lemma djb_last:
  "fst (djb_loop d (k @ [a])) = fst (djb_loop d (k @ [b])) \<and>
   djb_tail d' (snd (djb_loop d (k @ [a]))) = djb_tail d' (snd (djb_loop d (k @ [b])))"
  by (induction d k rule: djb_loop.induct) (simp_all add: djb_tail_def)

text \<open>The last byte of a key is not hashed: keys that differ only there always share a cache.\<close>

theorem djb33_ignores_last_byte: "bucket sc (k @ [a]) = bucket sc (k @ [b])"
  using djb_last [of "5381 + seed sc + of_nat (length k + 1)" k a b]
  by (simp add: bucket_def djb33_def split_def)

section \<open>The shards together\<close>

definition sharded_inv :: "int \<Rightarrow> sharded_cache \<Rightarrow> bool" where
  "sharded_inv de sc \<longleftrightarrow> sc_m sc \<noteq> 0 \<and> unat (sc_m sc) = length (cs sc) \<and> (\<forall>c \<in> set (cs sc). cache_inv de c)"

lemma bucket_ok:
  assumes "sharded_inv de sc"
  shows "\<exists>i < length (cs sc). bucket sc k = Ret i"
proof -
  have "0 < unat (sc_m sc)" using assms unat_gt_0 [of "sc_m sc"] unfolding sharded_inv_def by blast
  then have "unat (djb33 (seed sc) k mod sc_m sc) < unat (sc_m sc)" by (simp add: unat_mod)
  then show ?thesis using assms by (simp add: bucket_def sharded_inv_def Let_def)
qed

lemma bucket_update [simp]: "length cs' = length (cs sc) \<Longrightarrow> bucket (sc\<lparr>cs := cs'\<rparr>) k = bucket sc k"
  by (simp add: bucket_def)

lemma new_sharded_inv:
  assumes "0 < n" "n < 2 ^ 32"
  shows "sharded_inv (if de = 0 then -1 else de) (unexportedNewSharded sd now de ci n mx)"
proof -
  have "unat (word_of_nat n :: 32 word) = n" using assms(2) by (simp add: unat_of_nat)
  moreover have "(word_of_nat n :: 32 word) \<noteq> 0" using assms calculation by (metis less_numeral_extra(3) unat_0)
  ultimately show ?thesis
    by (auto simp: sharded_inv_def unexportedNewSharded_def newShardedCache_def cache_inv_def Let_def)
qed

definition sharded_read :: "int \<Rightarrow> bytes \<Rightarrow> sharded_cache \<Rightarrow> obj option" where
  "sharded_read t k sc = (case sharded_Get t k sc of Ret r \<Rightarrow> r | Panic _ \<Rightarrow> None)"

definition sharded_put :: "int \<Rightarrow> bytes \<Rightarrow> obj \<Rightarrow> int \<Rightarrow> sharded_cache \<Rightarrow> sharded_cache option" where
  "sharded_put now k x d sc = (case bucket sc k of Panic _ \<Rightarrow> None | Ret i \<Rightarrow>
     if IsReachMaxItemsCount (cs sc ! i) then None
     else case sharded_Set now False k x d sc of Panic _ \<Rightarrow> None | Ret (_, sc') \<Rightarrow> Some sc')"

definition sharded_remove :: "bytes \<Rightarrow> sharded_cache \<Rightarrow> sharded_cache" where
  "sharded_remove k sc = (case sharded_Delete k sc of Ret (_, sc') \<Rightarrow> sc' | Panic _ \<Rightarrow> sc)"

definition sharded_clean :: "int \<Rightarrow> sharded_cache \<Rightarrow> sharded_cache" where
  "sharded_clean now sc = snd (sharded_DeleteExpired (map (\<lambda>c. (now, items c)) (cs sc)) sc)"

text \<open>On the cache of the key the operations are those of the cache.\<close>

lemma sharded_on:
  assumes "sharded_inv de sc" "bucket sc k = Ret i"
  shows "sharded_read t k sc = Get t k (cs sc ! i)"
    "sharded_put now k x d sc = map_option (\<lambda>c. sc\<lparr>cs := (cs sc)[i := c]\<rparr>) (cache_put now k x d (cs sc ! i))"
    "sharded_remove k sc = sc\<lparr>cs := (cs sc)[i := cache_remove k (cs sc ! i)]\<rparr>"
  using assms
  by (auto simp: sharded_read_def sharded_Get_def sharded_put_def sharded_Set_def on_bucket_def cache_put_def Set_put
      sharded_remove_def sharded_Delete_def cache_remove_def split: prod.splits)

lemma sharded_clean_cs: "sharded_clean now sc = sc\<lparr>cs := map (cache_clean now) (cs sc)\<rparr>"
  by (simp add: sharded_clean_def sharded_DeleteExpired_def cache_clean_def Let_def zip_map1 zip_same_conv_map comp_def)

lemma sharded_inv_update:
  assumes "sharded_inv de sc" "cache_inv de c"
  shows "sharded_inv de (sc\<lparr>cs := (cs sc)[i := c]\<rparr>)"
  using assms set_update_subset_insert [of "cs sc" i c] by (auto simp: sharded_inv_def)

text \<open>What a step on one cache means for reading every key: \<open>q\<close> says how the reading of the key changes.\<close>

lemma sharded_step_read:
  assumes "sharded_inv de sc" "bucket sc k = Ret i" "cache_inv de c"
    "\<And>k'. Get t k' c = (if k' = k then r else Get t k' (cs sc ! i))"
  shows "sharded_read t k' (sc\<lparr>cs := (cs sc)[i := c]\<rparr>) = (if k' = k then r else sharded_read t k' sc)"
proof -
  obtain j where j: "j < length (cs sc)" "bucket sc k' = Ret j" using bucket_ok [OF assms(1)] by blast
  have i: "i < length (cs sc)" using bucket_ok [OF assms(1), of k] assms(2) by auto
  have "sharded_read t k' (sc\<lparr>cs := (cs sc)[i := c]\<rparr>) = Get t k' ((cs sc)[i := c] ! j)"
    using sharded_on(1) [OF sharded_inv_update [OF assms(1,3)], of i k' j] j by simp
  then show ?thesis
    using sharded_on(1) [OF assms(1) j(2)] assms(2,4) i j by (cases "i = j") auto
qed

interpretation sh: timed_store "sharded_inv de" "deadline de" sharded_read sharded_put sharded_remove sharded_clean for de
proof
  fix sc now k x d sc' t k'
  assume inv: "sharded_inv de sc"
  obtain i where i: "i < length (cs sc)" "bucket sc k = Ret i" using bucket_ok [OF inv] by blast
  have c: "cache_inv de (cs sc ! i)" using inv i(1) by (simp add: sharded_inv_def)
  note on = sharded_on [OF inv i(2)]
  {
    assume "sharded_put now k x d sc = Some sc'"
    then obtain c' where c': "cache_put now k x d (cs sc ! i) = Some c'" "sc' = sc\<lparr>cs := (cs sc)[i := c']\<rparr>"
      using on(2) by auto
    have inv': "cache_inv de c'" by (rule cs.inv_put [OF c c'(1)])
    show "sharded_inv de sc'" using sharded_inv_update [OF inv inv'] c'(2) by simp
    show "sharded_read t k' sc' = (if k' = k then (if deadline de now d > 0 \<and> t > deadline de now d then None else Some x)
        else sharded_read t k' sc)"
      unfolding c'(2) by (rule sharded_step_read [OF inv i(2) inv' cs.get_put [OF c c'(1)]])
  }
  show "sharded_inv de (sharded_remove k sc)"
    unfolding on(3) by (rule sharded_inv_update [OF inv cs.inv_del [OF c]])
  show "sharded_read t k' (sharded_remove k sc) = (if k' = k then None else sharded_read t k' sc)"
    unfolding on(3) by (rule sharded_step_read [OF inv i(2) cs.inv_del [OF c] cs.get_del [OF c]])
  show inv': "sharded_inv de (sharded_clean now sc)"
    using inv by (auto simp: sharded_clean_cs sharded_inv_def cache_clean_inv)
  assume "now \<le> t"
  then show "sharded_read t k (sharded_clean now sc) = sharded_read t k sc"
    using on(1) sharded_on(1) [OF inv', of k i] i cs.get_clean [OF c] by (simp add: sharded_clean_cs)
qed

text \<open>A turn by time \<open>t\<close> visits the items of every cache, each once, in any order.\<close>

definition turn_ok :: "int \<Rightarrow> (int \<times> (bytes \<times> item) list) list \<Rightarrow> sharded_cache \<Rightarrow> bool" where
  "turn_ok t turns sc \<longleftrightarrow> list_all2 (\<lambda>(now, visited) c. now \<le> t \<and> distinct (map fst visited) \<and> set visited = set (items c)) turns (cs sc)"

fun turns_ok :: "int \<Rightarrow> shard_event list \<Rightarrow> sharded_cache \<Rightarrow> bool" where
  "turns_ok t [] sc \<longleftrightarrow> True"
| "turns_ok t (ShardTick turns # evs) sc \<longleftrightarrow> turn_ok t turns sc \<and> turns_ok t evs (snd (sharded_DeleteExpired turns sc))"
| "turns_ok t (ShardSignal turns # evs) sc \<longleftrightarrow> turn_ok t turns sc \<and> turns_ok t evs (snd (sharded_DeleteExpired turns sc))"
| "turns_ok t (ShardStop # evs) sc \<longleftrightarrow> True"

lemma sharded_DeleteExpired_unseen:
  assumes "sharded_inv de sc" "turn_ok t turns sc"
  shows "sharded_inv de (snd (sharded_DeleteExpired turns sc)) \<and> sharded_read t k (snd (sharded_DeleteExpired turns sc)) = sharded_read t k sc"
proof -
  let ?cs = "map2 (\<lambda>(now, visited) c. snd (DeleteExpired now visited c)) turns (cs sc)"
  have sc': "snd (sharded_DeleteExpired turns sc) = sc\<lparr>cs := ?cs\<rparr>"
    by (simp add: sharded_DeleteExpired_def Let_def split_def)
  have l: "length turns = length (cs sc)" using assms(2) unfolding turn_ok_def by (rule list_all2_lengthD)
  have each: "?cs ! i = cache_clean (fst (turns ! i)) (cs sc ! i) \<and> fst (turns ! i) \<le> t \<and> cache_inv de (cs sc ! i)" if "i < length (cs sc)" for i
  proof -
    obtain now visited where tv: "turns ! i = (now, visited)" by (cases "turns ! i")
    have v: "now \<le> t" "distinct (map fst visited)" "set visited = set (items (cs sc ! i))"
      using assms(2) that l tv unfolding turn_ok_def by (auto simp: list_all2_conv_all_nth)
    have c: "cache_inv de (cs sc ! i)" using assms(1) that by (simp add: sharded_inv_def)
    then have "distinct (map fst (items (cs sc ! i)))" by (simp add: cache_inv_def)
    from DeleteExpired_spec [OF this v(2,3), of now] DeleteExpired_spec [OF this this refl, of now]
    show ?thesis using that l tv v(1) c by (simp add: cache_clean_def)
  qed
  have "cache_inv de (?cs ! i)" if "i < length (cs sc)" for i
    using each [OF that] cache_clean_inv [of de "cs sc ! i" "fst (turns ! i)"] by (simp only:)
  then have "\<forall>c \<in> set ?cs. cache_inv de c" using l by (metis (no_types, lifting) in_set_conv_nth length_map length_zip min.idem)
  then have inv: "sharded_inv de (sc\<lparr>cs := ?cs\<rparr>)" using assms(1) l by (simp add: sharded_inv_def)
  obtain i where i: "i < length (cs sc)" "bucket sc k = Ret i" using bucket_ok [OF assms(1)] by blast
  have "sharded_read t k (sc\<lparr>cs := ?cs\<rparr>) = Get t k (?cs ! i)"
    using sharded_on(1) [OF inv, of k i] i(2) l by simp
  also have "\<dots> = Get t k (cs sc ! i)" using each [OF i(1)] cs.get_clean by metis
  finally show ?thesis using inv sharded_on(1) [OF assms(1) i(2)] by (simp add: sc')
qed

text \<open>The routine cannot be seen: whatever its turns, what can be read at their end or later is what could be read before.\<close>

lemma shardedJanitor_unseen:
  "sharded_inv de sc \<Longrightarrow> turns_ok t evs sc \<Longrightarrow>
     sharded_inv de (snd (shardedJanitor_Run evs sc)) \<and> sharded_read t k (snd (shardedJanitor_Run evs sc)) = sharded_read t k sc"
proof (induction evs sc rule: shardedJanitor_Run.induct)
  case (2 turns evs sc)
  then show ?case using sharded_DeleteExpired_unseen [of de sc t turns k] by (cases "sharded_DeleteExpired turns sc") (auto simp: split_def)
next
  case (3 turns evs sc)
  then show ?case using sharded_DeleteExpired_unseen [of de sc t turns k] by (cases "sharded_DeleteExpired turns sc") (auto simp: split_def)
qed simp_all

text \<open>A history on the sharded cache itself.\<close>

fun sharded_run :: "(int \<Rightarrow> bool) \<Rightarrow> obj store_op list \<Rightarrow> sharded_cache \<Rightarrow> sharded_cache outcome" where
  "sharded_run listening [] sc = Ret sc"
| "sharded_run listening (OpPut now k x d # ops) sc =
     bind_outcome (sharded_Set now (listening now) k x d sc) (\<lambda>(_, sc). sharded_run listening ops sc)"
| "sharded_run listening (OpDelete k # ops) sc = bind_outcome (sharded_Delete k sc) (\<lambda>(_, sc). sharded_run listening ops sc)"
| "sharded_run listening (OpClean now # ops) sc =
     sharded_run listening ops (snd (sharded_DeleteExpired (map (\<lambda>c. (now, items c)) (cs sc)) sc))"

text \<open>No shard has a routine of its own, so a full one makes \<open>Set\<close> panic.\<close>

definition bare_shards :: "int \<Rightarrow> sharded_cache \<Rightarrow> bool" where
  "bare_shards de sc \<longleftrightarrow> sharded_inv de sc \<and> (\<forall>c \<in> set (cs sc). c_janitor c = None)"

lemma bare_shards_update:
  assumes "bare_shards de sc" "cache_inv de c" "c_janitor c = None"
  shows "bare_shards de (sc\<lparr>cs := (cs sc)[i := c]\<rparr>)"
  using assms sharded_inv_update [of de sc c i] set_update_subset_insert [of "cs sc" i c] by (auto simp: bare_shards_def)

lemma bare_shards_clean: "bare_shards de sc \<Longrightarrow> bare_shards de (sharded_clean now sc)"
  by (auto simp: bare_shards_def sharded_inv_def sharded_clean_cs cache_clean_inv)

lemma sharded_run_exec:
  assumes "bare_shards de sc"
  shows "case exec_store sharded_put sharded_remove sharded_clean ops sc of
     None \<Rightarrow> \<exists>m. sharded_run listening ops sc = Panic m
   | Some sc' \<Rightarrow> sharded_run listening ops sc = Ret sc'"
  using assms
proof (induction ops arbitrary: sc)
  case (Cons q ops)
  have inv: "sharded_inv de sc" using Cons.prems by (simp add: bare_shards_def)
  show ?case
  proof (cases q)
    case (OpPut now k x d)
    obtain i where i: "i < length (cs sc)" "bucket sc k = Ret i" using bucket_ok [OF inv] by blast
    have c: "cache_inv de (cs sc ! i)" "c_janitor (cs sc ! i) = None"
      using Cons.prems i(1) by (simp_all add: bare_shards_def sharded_inv_def)
    show ?thesis
    proof (cases "IsReachMaxItemsCount (cs sc ! i)")
      case True
      then show ?thesis using OpPut i(2) c(2)
        by (simp add: sharded_put_def sharded_Set_def on_bucket_def Set_def ShoudClean_def)
    next
      case False
      let ?sc = "sc\<lparr>cs := (cs sc)[i := cache_set now k x d (cs sc ! i)]\<rparr>"
      have "bare_shards de ?sc" by (rule bare_shards_update [OF Cons.prems cache_set_inv [OF c(1)]]) (simp add: c(2))
      note IH = Cons.IH [OF this]
      have s: "sharded_Set now l k x d sc = Ret ((), ?sc)" for l
        using i(2) False by (simp add: sharded_Set_def on_bucket_def Set_put)
      then have p: "sharded_put now k x d sc = Some ?sc" using i(2) False by (simp add: sharded_put_def)
      show ?thesis unfolding OpPut exec_store.simps sharded_run.simps s p option.case bind_outcome.simps prod.case by (rule IH)
    qed
  next
    case (OpDelete k)
    obtain i where i: "i < length (cs sc)" "bucket sc k = Ret i" using bucket_ok [OF inv] by blast
    have c: "cache_inv de (cs sc ! i)" "c_janitor (cs sc ! i) = None"
      using Cons.prems i(1) by (simp_all add: bare_shards_def sharded_inv_def)
    let ?sc = "sc\<lparr>cs := (cs sc)[i := cache_remove k (cs sc ! i)]\<rparr>"
    have "bare_shards de ?sc" by (rule bare_shards_update [OF Cons.prems cs.inv_del [OF c(1)]]) (simp add: c(2))
    note IH = Cons.IH [OF this]
    obtain ev where s: " sharded_Delete k sc = Ret (ev, ?sc)"
      using i(2) by (cases "Delete k (cs sc ! i)") (simp add: sharded_Delete_def on_bucket_def cache_remove_def)
    show ?thesis
      unfolding OpDelete exec_store.simps sharded_run.simps s sharded_on(3) [OF inv i(2)] bind_outcome.simps prod.case by (rule IH)
  next
    case (OpClean now)
    show ?thesis
      unfolding OpClean exec_store.simps sharded_run.simps sharded_clean_def [symmetric] by (rule Cons.IH [OF bare_shards_clean [OF Cons.prems]])
  qed
qed simp

text \<open>The operations that reach a shard: those on its keys, and cleaning.\<close>

definition shard_ops :: "(bytes \<Rightarrow> nat outcome) \<Rightarrow> nat \<Rightarrow> obj store_op list \<Rightarrow> obj store_op list" where
  "shard_ops b i ops = filter (\<lambda>q. case q of OpPut _ k _ _ \<Rightarrow> b k = Ret i | OpDelete k \<Rightarrow> b k = Ret i | OpClean _ \<Rightarrow> True) ops"

lemma shard_ops_simps [simp]:
  "shard_ops b i [] = []"
  "shard_ops b i (OpPut now k x d # ops) = (if b k = Ret i then OpPut now k x d # shard_ops b i ops else shard_ops b i ops)"
  "shard_ops b i (OpDelete k # ops) = (if b k = Ret i then OpDelete k # shard_ops b i ops else shard_ops b i ops)"
  "shard_ops b i (OpClean now # ops) = OpClean now # shard_ops b i ops"
  by (simp_all add: shard_ops_def)

text \<open>The sharded store refuses exactly when one of its shards refuses one of its own operations.\<close>

lemma exec_local:
  assumes "sharded_inv de sc"
  shows "exec_store sharded_put sharded_remove sharded_clean ops sc = None \<longleftrightarrow>
     (\<exists>i < length (cs sc). exec_store cache_put cache_remove cache_clean (shard_ops (bucket sc) i ops) (cs sc ! i) = None)"
  using assms
proof (induction ops arbitrary: sc)
  case (Cons q ops)
  note inv = Cons.prems
  let ?run = "exec_store cache_put cache_remove cache_clean"
  show ?case
  proof (cases q)
    case (OpPut now k x d)
    obtain i where i: "i < length (cs sc)" "bucket sc k = Ret i" using bucket_ok [OF inv] by blast
    have c: "cache_inv de (cs sc ! i)" using inv i(1) by (simp add: sharded_inv_def)
    show ?thesis
    proof (cases "cache_put now k x d (cs sc ! i)")
      case None
      then have "?run (shard_ops (bucket sc) i (q # ops)) (cs sc ! i) = None" using OpPut i(2) by simp
      then have "\<exists>i < length (cs sc). ?run (shard_ops (bucket sc) i (q # ops)) (cs sc ! i) = None" using i(1) by blast
      then show ?thesis using None OpPut sharded_on(2) [OF inv i(2), of now x d] by simp
    next
      case (Some c1)
      let ?sc = "sc\<lparr>cs := (cs sc)[i := c1]\<rparr>"
      have "?run (shard_ops (bucket sc) j (q # ops)) (cs sc ! j) = ?run (shard_ops (bucket sc) j ops) (cs ?sc ! j)" if "j < length (cs sc)" for j
        using that OpPut i Some by (cases "j = i") auto
      then have "(\<exists>j < length (cs sc). ?run (shard_ops (bucket sc) j (q # ops)) (cs sc ! j) = None) \<longleftrightarrow>
          (\<exists>j < length (cs sc). ?run (shard_ops (bucket sc) j ops) (cs ?sc ! j) = None)" by auto
      moreover have "bucket ?sc = bucket sc" by (simp add: fun_eq_iff)
      moreover have "exec_store sharded_put sharded_remove sharded_clean (q # ops) sc = exec_store sharded_put sharded_remove sharded_clean ops ?sc"
        using OpPut Some sharded_on(2) [OF inv i(2), of now x d] by simp
      ultimately show ?thesis
        using Cons.IH [OF sharded_inv_update [OF inv cs.inv_put [OF c Some]], of i] by simp
    qed
  next
    case (OpDelete k)
    obtain i where i: "i < length (cs sc)" "bucket sc k = Ret i" using bucket_ok [OF inv] by blast
    have c: "cache_inv de (cs sc ! i)" using inv i(1) by (simp add: sharded_inv_def)
    let ?sc = "sc\<lparr>cs := (cs sc)[i := cache_remove k (cs sc ! i)]\<rparr>"
    have "?run (shard_ops (bucket sc) j (q # ops)) (cs sc ! j) = ?run (shard_ops (bucket sc) j ops) (cs ?sc ! j)" if "j < length (cs sc)" for j
      using that OpDelete i by (cases "j = i") auto
    then have "(\<exists>j < length (cs sc). ?run (shard_ops (bucket sc) j (q # ops)) (cs sc ! j) = None) \<longleftrightarrow>
        (\<exists>j < length (cs sc). ?run (shard_ops (bucket sc) j ops) (cs ?sc ! j) = None)" by auto
    moreover have "bucket ?sc = bucket sc" by (simp add: fun_eq_iff)
    moreover have "exec_store sharded_put sharded_remove sharded_clean (q # ops) sc = exec_store sharded_put sharded_remove sharded_clean ops ?sc"
      using OpDelete sharded_on(3) [OF inv i(2)] by simp
    ultimately show ?thesis
      using Cons.IH [OF sharded_inv_update [OF inv cs.inv_del [OF c, of k]], of i] by simp
  next
    case (OpClean now)
    have "bucket (sharded_clean now sc) = bucket sc" by (simp add: fun_eq_iff sharded_clean_cs)
    then show ?thesis
      using Cons.IH [OF sh.inv_clean [OF inv], of now] OpClean by (auto simp: sharded_clean_cs)
  qed
qed simp

lemma new_shards:
  assumes "0 < n" "n < 2 ^ 32" "sc = unexportedNewSharded sd t0 de ci n mx"
  shows "bare_shards (if de = 0 then -1 else de) sc" "length (cs sc) = n"
    "i < n \<Longrightarrow> cache_abs (cs sc ! i) = Map.empty \<and> maxItemsCount (cs sc ! i) = mx"
    "sharded_read t k sc = None"
proof -
  have inv: "sharded_inv (if de = 0 then -1 else de) sc" unfolding assms(3) by (rule new_sharded_inv [OF assms(1,2)])
  show "bare_shards (if de = 0 then -1 else de) sc"
    using inv by (simp add: bare_shards_def) (simp add: assms(3) unexportedNewSharded_def newShardedCache_def Let_def)
  show l: "length (cs sc) = n" by (simp add: assms(3) unexportedNewSharded_def newShardedCache_def Let_def)
  show e: "cache_abs (cs sc ! i) = Map.empty \<and> maxItemsCount (cs sc ! i) = mx" if "i < n" for i
    using that by (simp add: assms(3) unexportedNewSharded_def newShardedCache_def Let_def cache_abs_def fun_eq_iff)
  obtain i where "i < n" "bucket sc k = Ret i" using bucket_ok [OF inv] l by blast
  then show "sharded_read t k sc = None" using sharded_on(1) [OF inv] e by (simp add: Get_abs read_timed_def)
qed

text \<open>C25. Sharding a cache changes one thing only, its bound. A history of \<open>Set\<close>, \<open>Delete\<close> and cleaning on a new sharded
  cache panics exactly when one of its shards, with the part of the history that is about its keys, is given a
  value while it is full: the bound is that of every shard, and no shard has the background routine a full cache
  signals. Otherwise every key reads, after the cleanings, as in the map with deadlines, and so as in a single cache
  that is never full, whatever the seed and the number of shards.\<close>

theorem sharded_transparent:
  assumes "0 < n" "n < 2 ^ 32" "sc0 = unexportedNewSharded sd t0 de ci n mx" "dl = deadline (if de = 0 then -1 else de)"
    "r = sharded_run listening ops sc0"
  shows "((\<exists>m. r = Panic m) \<longleftrightarrow> (\<exists>i < n. overfull mx dl (shard_ops (bucket sc0) i ops) Map.empty)) \<and>
    (\<forall>sc t k. r = Ret sc \<and> list_all (op_before t) ops \<longrightarrow>
       sharded_Get t k sc = Ret (read_timed t (spec_store dl ops Map.empty) k) \<and>
       (\<forall>c. cache_run listening' ops (New t1 de ci' mx') = Ret c \<and> \<not> overfull mx' dl ops Map.empty \<longrightarrow>
          sharded_Get t k sc = Ret (Get t k c)))"
proof -
  let ?de = "if de = 0 then -1 else de"
  note new = new_shards [OF assms(1-3)]
  have inv: "sharded_inv ?de sc0" using new(1) by (simp add: bare_shards_def)
  have each: "exec_store cache_put cache_remove cache_clean o' (cs sc0 ! i) = None \<longleftrightarrow> overfull mx dl o' Map.empty" if "i < n" for i o'
    using exec_refuses [of ?de "cs sc0 ! i" o'] inv new(2) new(3) [OF that] that by (auto simp: sharded_inv_def assms(4))
  have x: "case exec_store sharded_put sharded_remove sharded_clean ops sc0 of None \<Rightarrow> \<exists>m. r = Panic m | Some sc \<Rightarrow> r = Ret sc"
    unfolding assms(5) by (rule sharded_run_exec [OF new(1)])
  then have "(\<exists>m. r = Panic m) \<longleftrightarrow> exec_store sharded_put sharded_remove sharded_clean ops sc0 = None"
    by (auto split: option.split_asm)
  also have "\<dots> \<longleftrightarrow> (\<exists>i < n. overfull mx dl (shard_ops (bucket sc0) i ops) Map.empty)"
    using exec_local [OF inv] new(2) each by auto
  finally have panics: "(\<exists>m. r = Panic m) \<longleftrightarrow> (\<exists>i < n. overfull mx dl (shard_ops (bucket sc0) i ops) Map.empty)" .
  have reads: "sharded_Get t k sc = Ret (read_timed t (spec_store dl ops Map.empty) k)"
    if "r = Ret sc" "list_all (op_before t) ops" for sc t k
  proof -
    have "exec_store sharded_put sharded_remove sharded_clean ops sc0 = Some sc" using x that(1) by (auto split: option.split_asm)
    from sh.history [OF inv this that(2), of Map.empty k] have "sharded_inv ?de sc" "sharded_read t k sc = read_timed t (spec_store dl ops Map.empty) k"
      using new(4) by (simp_all add: read_timed_def assms(4))
    moreover from this(1) obtain i where "bucket sc k = Ret i" using bucket_ok by blast
    ultimately show ?thesis by (simp add: sharded_read_def sharded_Get_def)
  qed
  have "Get t k c = read_timed t (spec_store dl ops Map.empty) k"
    if "cache_run listening' ops (New t1 de ci' mx') = Ret c" "\<not> overfull mx' dl ops Map.empty" "list_all (op_before t) ops" for c t k
    using cache_run_bounded [OF New_inv [of de t1 ci' mx'] New_abs(2,1), of ops listening'] that
      bounded_unseen [OF that(2,3), of Map.empty k] by (simp add: agrees_def Get_abs assms(4))
  then show ?thesis using panics reads by simp
qed

text \<open>Two shards with room for one item each: two keys of different shards are stored and read, where a single cache
  of that size would have dropped one.\<close>

lemma sharded_transparent_witness:
  "\<exists>sc. sharded_run (\<lambda>_. True) [OpPut 0 ''ab'' (OInt 1) 10, OpPut 1 ''bb'' (OInt 2) 0, OpDelete ''ab''] (unexportedNewSharded 7 0 0 0 2 1) = Ret sc \<and>
     sharded_Get 5 ''ab'' sc = Ret None \<and> sharded_Get 5 ''bb'' sc = Ret (Some (OInt 2))"
proof -
  let ?ops = "[OpPut 0 ''ab'' (OInt 1) 10, OpPut 1 ''bb'' (OInt 2) 0, OpDelete ''ab'']" and ?sc = "unexportedNewSharded 7 0 0 0 2 1"
  have "djb33 7 ''ab'' mod 2 = 1" "djb33 7 ''bb'' mod 2 = 0" by code_simp+
  then have b: "bucket ?sc ''ab'' = Ret 1" "bucket ?sc ''bb'' = Ret 0"
    by (simp_all add: bucket_def unexportedNewSharded_def newShardedCache_def Let_def)
  have d: "deadline (-1) 0 10 = 10" "deadline (-1) 1 0 = 0" by (simp_all add: deadline_def int64_def)
  have room: "\<not> (\<exists>i < 2. overfull 1 (deadline (-1)) (shard_ops (bucket ?sc) i ?ops) Map.empty)"
    by (auto simp: less_2_cases_iff b full_map_def)
  have spec: "spec_store (deadline (-1)) ?ops Map.empty = [''bb'' \<mapsto> (OInt 2, 0)]" by (simp add: spec_store_def d)
  have dl: "deadline (-1) = deadline (if (0 :: int) = 0 then -1 else 0)" by simp
  have n: "0 < (2 :: nat)" "(2 :: nat) < 2 ^ 32" by simp_all
  note h = sharded_transparent [OF n refl dl refl, where sd = 7 and ?t0.0 = 0 and ci = 0 and mx = 1 and listening = "\<lambda>_. True" and ops = ?ops]
  obtain sc where sc: "sharded_run (\<lambda>_. True) ?ops ?sc = Ret sc"
    using room conjunct1 [OF h] by (meson outcome.exhaust)
  have "list_all (op_before 5) ?ops" by simp
  then have "sharded_Get 5 k sc = Ret (read_timed 5 [''bb'' \<mapsto> (OInt 2, 0)] k)" for k
    using conjunct2 [OF h] sc unfolding spec by blast
  then show ?thesis using sc by (intro exI [of _ sc]) (simp add: read_timed_def)
qed

end
