(* ===== verification/Red_Resp.thy ===== *)
theory Red_Resp
  imports Go_Errors
begin

text \<open>
  The second RESP codec (\<open>utils/respecho/RedResp/resp.go\<close>). Reading is from a \<open>bufio.Reader\<close>, here the
  bytes still to come, with the end of the stream behind them; \<open>alloc\<close> says for how many bytes memory
  can be had. Writing is to an \<open>io.Writer\<close>. The buffer that the writing functions pass along is empty at
  every call and has no effect. \<open>String\<close> and \<open>IsTimeout\<close> are in \<open>Red_String\<close>.
\<close>

unbundle bit_operations_syntax

section \<open>Values\<close>

text \<open>The types are bits, and a test may name several.\<close>

type_synonym resp_bits = int

definition SimpleStr :: resp_bits where "SimpleStr = 1"
definition BulkStr :: resp_bits where "BulkStr = 2"
definition IOErr :: resp_bits where "IOErr = 4"
definition AppErr :: resp_bits where "AppErr = 8"
definition IntType :: resp_bits where "IntType = 16"
definition ArrayType :: resp_bits where "ArrayType = 32"
definition NilType :: resp_bits where "NilType = 64"
definition StrType :: resp_bits where "StrType = SimpleStr OR BulkStr"
definition ErrType :: resp_bits where "ErrType = IOErr OR AppErr"

lemmas resp_bits = SimpleStr_def BulkStr_def IOErr_def AppErr_def IntType_def ArrayType_def NilType_def StrType_def ErrType_def

datatype red_resp = RedResp (red_typ: resp_bits) (red_val: red_value) (red_Err: "go_error option")
and red_value = VNil | VBytes bytes | VErr go_error | VInt int | VArr "red_resp list"

text \<open>Go values that are encoded: \<open>GInt\<close> is of a signed and \<open>GUint\<close> of an unsigned integer type, \<open>GList\<close> any
  slice but \<open>[]byte\<close>, \<open>GMap\<close> a map as its keys are listed, and \<open>GOther\<close> a value of any other type with the
  text \<open>fmt.Sprint\<close> gives it.\<close>

datatype go_value =
    GBytes bytes | GString bytes | GBool bool | GNil | GInt int | GUint int
  | GFloat32 "32 word" | GFloat64 "64 word" | GError go_error
  | GList "go_value list" | GMap "(go_value \<times> go_value) list" | GResp red_resp | GOther bytes

record float_format =
  fmt32 :: "32 word \<Rightarrow> bytes"
  fmt64 :: "64 word \<Rightarrow> bytes"

definition errBadType :: go_error where "errBadType = Sentinel ''wrong type''"
definition errParse :: go_error where "errParse = Sentinel ''parse error''"
definition errNotStr :: go_error where "errNotStr = Sentinel ''could not convert to string''"
definition errNotInt :: go_error where "errNotInt = Sentinel ''could not convert to int''"
definition errNotArray :: go_error where "errNotArray = Sentinel ''could not convert to array''"
definition ErrRespNil :: go_error where "ErrRespNil = Sentinel ''response is nil''"

definition anyIntToInt64 :: "go_value \<Rightarrow> int outcome" where
  "anyIntToInt64 m = (case m of GInt i \<Rightarrow> Ret i | GUint i \<Rightarrow> Ret (int64 i) | _ \<Rightarrow> Panic ''anyIntToInt64 got bad arg'')"

section \<open>Making values\<close>

definition bulk :: "bytes \<Rightarrow> red_resp" where
  "bulk b = RedResp BulkStr (VBytes b) None"

fun format_value :: "float_format \<Rightarrow> bool \<Rightarrow> go_value \<Rightarrow> red_resp" where
  "format_value ff fs (GBytes b) = bulk b"
| "format_value ff fs (GString b) = bulk b"
| "format_value ff fs (GBool t) = (if t then bulk ''1'' else bulk ''0'')"
| "format_value ff fs GNil = (if fs then bulk ''0'' else RedResp NilType VNil None)"
| "format_value ff fs (GInt i) = (if fs then bulk (FormatInt i) else RedResp IntType (VInt i) None)"
| "format_value ff fs (GUint i) = (if fs then bulk (FormatInt (int64 i)) else RedResp IntType (VInt (int64 i)) None)"
| "format_value ff fs (GFloat32 w) = bulk (fmt32 ff w)"
| "format_value ff fs (GFloat64 w) = bulk (fmt64 ff w)"
| "format_value ff fs (GError e) = (if fs then bulk (Error e) else RedResp AppErr (VErr e) (Some e))"
| "format_value ff fs (GList ms) = RedResp ArrayType (VArr (map (format_value ff fs) ms)) None"
| "format_value ff fs (GMap kvs) =
     RedResp ArrayType (VArr (concat (map (\<lambda>(k, v). [format_value ff fs k, format_value ff fs v]) kvs))) None"
| "format_value ff fs (GResp r) = r"
| "format_value ff fs (GOther t) = bulk t"

definition NewResp :: "float_format \<Rightarrow> go_value \<Rightarrow> red_resp" where
  "NewResp ff v = format_value ff False v"

definition NewRespSimple :: "bytes \<Rightarrow> red_resp" where
  "NewRespSimple s = RedResp SimpleStr (VBytes s) None"

definition NewRespIOErr :: "go_error \<Rightarrow> red_resp" where
  "NewRespIOErr e = RedResp IOErr (VErr e) (Some e)"

text \<open>\<open>flatten\<close> asks a nil interface for its type and dereferences nil.\<close>

fun concat_outcomes :: "'a list outcome list \<Rightarrow> 'a list outcome" where
  "concat_outcomes [] = Ret []"
| "concat_outcomes (m # ms) = bind_outcome m (\<lambda>x. bind_outcome (concat_outcomes ms) (\<lambda>xs. Ret (x @ xs)))"

fun flatten_value :: "go_value \<Rightarrow> go_value list outcome" where
  "flatten_value GNil = Panic nil_deref"
| "flatten_value (GList ms) = concat_outcomes (map flatten_value ms)"
| "flatten_value (GMap kvs) = concat_outcomes (concat (map (\<lambda>(k, v). [flatten_value k, flatten_value v]) kvs))"
| "flatten_value m = Ret [m]"

definition NewRespFlattenedStrings :: "float_format \<Rightarrow> go_value \<Rightarrow> red_resp outcome" where
  "NewRespFlattenedStrings ff v = bind_outcome (flatten_value v) (\<lambda>fv. Ret (format_value ff True (GList fv)))"

fun value_of :: "red_value \<Rightarrow> go_value" where
  "value_of VNil = GNil"
| "value_of (VBytes b) = GBytes b"
| "value_of (VErr e) = GError e"
| "value_of (VInt i) = GInt i"
| "value_of (VArr rs) = GList (map GResp rs)"

lemma red_val_size [termination_simp]: "r \<in> set rs \<Longrightarrow> size (red_val r) < Suc (size_list size rs)"
  using size_list_estimation' [of r rs "size r" size] by (cases r) auto

text \<open>The number of elements after flattening.\<close>

fun flattened_val :: "red_value \<Rightarrow> nat" where
  "flattened_val (VArr rs) = sum_list (map (\<lambda>r. flattened_val (red_val r)) rs)"
| "flattened_val v = 1"

fun flattenedLength :: "go_value \<Rightarrow> nat" where
  "flattenedLength (GResp r) = flattened_val (red_val r)"
| "flattenedLength (GList ms) = sum_list (map flattenedLength ms)"
| "flattenedLength (GMap kvs) = sum_list (map (\<lambda>(k, v). flattenedLength k + flattenedLength v) kvs)"
| "flattenedLength m = 1"

section \<open>Reading\<close>

definition read_until_LF :: "bytes \<Rightarrow> (go_error + bytes) \<times> bytes" where
  "read_until_LF s = (if LF \<in> set s then (Inr (takeWhile (\<lambda>c. c \<noteq> LF) s @ [LF]), tl (dropWhile (\<lambda>c. c \<noteq> LF) s)) else (Inl EOF, []))"

text \<open>\<open>b[1 : len(b)-2]\<close>\<close>

definition inner :: "bytes \<Rightarrow> bytes outcome" where
  "inner b = (if length b < 3 then Panic ''slice bounds out of range'' else Ret (buf_slice 1 (length b - 2) b))"

text \<open>The line without its prefix and its last two bytes.\<close>

definition read_inner :: "bytes \<Rightarrow> ((go_error + bytes) \<times> bytes) outcome" where
  "read_inner s = (case read_until_LF s of
     (Inl e, s) \<Rightarrow> Ret (Inl e, s)
   | (Inr b, s) \<Rightarrow> bind_outcome (inner b) (\<lambda>x. Ret (Inr x, s)))"

definition readSimpleStr :: "bytes \<Rightarrow> ((go_error + red_resp) \<times> bytes) outcome" where
  "readSimpleStr s = bind_outcome (read_inner s) (\<lambda>(r, s). Ret (case r of
     Inl e \<Rightarrow> (Inl e, s) | Inr x \<Rightarrow> (Inr (RedResp SimpleStr (VBytes x) None), s)))"

definition readError :: "bytes \<Rightarrow> ((go_error + red_resp) \<times> bytes) outcome" where
  "readError s = bind_outcome (read_inner s) (\<lambda>(r, s). Ret (case r of
     Inl e \<Rightarrow> (Inl e, s)
   | Inr x \<Rightarrow> let e = Formatted x in (Inr (RedResp AppErr (VErr e) (Some e)), s)))"

text \<open>The number on a line, with the error every caller gives when there is none.\<close>

definition read_number :: "bytes \<Rightarrow> ((go_error + int) \<times> bytes) outcome" where
  "read_number s = bind_outcome (read_inner s) (\<lambda>(r, s). Ret (case r of
     Inl e \<Rightarrow> (Inl e, s)
   | Inr x \<Rightarrow> (case ParseInt 64 x of (i, None) \<Rightarrow> (Inr i, s) | (_, Some _) \<Rightarrow> (Inl errParse, s))))"

definition readInt :: "bytes \<Rightarrow> ((go_error + red_resp) \<times> bytes) outcome" where
  "readInt s = bind_outcome (read_number s) (\<lambda>(r, s). Ret (case r of
     Inl e \<Rightarrow> (Inl e, s) | Inr i \<Rightarrow> (Inr (RedResp IntType (VInt i) None), s)))"

text \<open>The two bytes behind a bulk string are read and not looked at.\<close>

definition readBulkStr :: "(int \<Rightarrow> bool) \<Rightarrow> bytes \<Rightarrow> ((go_error + red_resp) \<times> bytes) outcome" where
  "readBulkStr alloc s = bind_outcome (read_number s) (\<lambda>(r, s). case r of
     Inl e \<Rightarrow> Ret (Inl e, s)
   | Inr n \<Rightarrow>
       if n < 0 then Ret (Inr (RedResp NilType VNil None), s)
       else if \<not> alloc n then Panic ''makeslice: len out of range''
       else if length s < nat n + 2 then Ret (Inl EOF, [])
       else Ret (Inr (RedResp BulkStr (VBytes (take (nat n) s)) None), drop (nat n + 2) s))"

fun read_elements :: "(bytes \<Rightarrow> ((go_error + red_resp) \<times> bytes) outcome) \<Rightarrow> nat \<Rightarrow> bytes
    \<Rightarrow> ((go_error + red_resp list) \<times> bytes) outcome" where
  "read_elements rd 0 s = Ret (Inr [], s)"
| "read_elements rd (Suc n) s = bind_outcome (rd s) (\<lambda>(r, s). case r of
     Inl e \<Rightarrow> Ret (Inl e, s)
   | Inr m \<Rightarrow> bind_outcome (read_elements rd n s) (\<lambda>(rs, s). Ret (case rs of Inl e \<Rightarrow> Inl e | Inr ms \<Rightarrow> Inr (m # ms), s)))"

definition readArray :: "(int \<Rightarrow> bool) \<Rightarrow> (bytes \<Rightarrow> ((go_error + red_resp) \<times> bytes) outcome) \<Rightarrow> bytes
    \<Rightarrow> ((go_error + red_resp) \<times> bytes) outcome" where
  "readArray alloc rd s = bind_outcome (read_number s) (\<lambda>(r, s). case r of
     Inl e \<Rightarrow> Ret (Inl e, s)
   | Inr n \<Rightarrow>
       if n < 0 then Ret (Inr (RedResp NilType VNil None), s)
       else if \<not> alloc (40 * n) then Panic ''makeslice: len out of range''
       else bind_outcome (read_elements rd (nat n) s) (\<lambda>(rs, s). Ret (case rs of
           Inl e \<Rightarrow> (Inl e, s) | Inr ms \<Rightarrow> (Inr (RedResp ArrayType (VArr ms) None), s))))"

text \<open>The fuel bounds the nesting; the bytes to come are enough, as every level has a line of its own.\<close>

fun bufioReadResp :: "(int \<Rightarrow> bool) \<Rightarrow> nat \<Rightarrow> bytes \<Rightarrow> ((go_error + red_resp) \<times> bytes) outcome" where
  "bufioReadResp alloc 0 s = Panic ''stack overflow''"
| "bufioReadResp alloc (Suc fuel) s = (case s of
     [] \<Rightarrow> Ret (Inl EOF, [])
   | c # _ \<Rightarrow>
       if c = CHR ''+'' then readSimpleStr s
       else if c = CHR ''-'' then readError s
       else if c = CHR '':'' then readInt s
       else if c = CHR ''$'' then readBulkStr alloc s
       else if c = CHR ''*'' then readArray alloc (bufioReadResp alloc fuel) s
       else Ret (Inl errBadType, s))"

definition RespReader_Read :: "(int \<Rightarrow> bool) \<Rightarrow> bytes \<Rightarrow> (red_resp \<times> bytes) outcome" where
  "RespReader_Read alloc s = bind_outcome (bufioReadResp alloc (Suc (length s)) s) (\<lambda>(r, s). Ret (case r of
     Inl e \<Rightarrow> (RedResp IOErr (VErr e) (Some e), s) | Inr m \<Rightarrow> (m, s)))"

section \<open>Writing\<close>

text \<open>An \<open>io.Writer\<close> gives the number of bytes it took and an error.\<close>

type_synonym 's go_writer = "bytes \<Rightarrow> 's \<Rightarrow> (int \<times> go_error option) \<times> 's"

definition writeBytesHelper :: "'s go_writer \<Rightarrow> bytes \<Rightarrow> int \<times> go_error option \<Rightarrow> 's \<Rightarrow> (int \<times> go_error option) \<times> 's" where
  "writeBytesHelper w b prev s = (case prev of
     (n, Some e) \<Rightarrow> ((n, Some e), s)
   | (n, None) \<Rightarrow> (case w b s of ((i, e), s) \<Rightarrow> ((i + n, e), s)))"

text \<open>Calls of it in a row, each with the count and error of the one before.\<close>

fun write_chunks :: "'s go_writer \<Rightarrow> bytes list \<Rightarrow> int \<times> go_error option \<Rightarrow> 's \<Rightarrow> (int \<times> go_error option) \<times> 's" where
  "write_chunks w [] prev s = (prev, s)"
| "write_chunks w (b # bs) prev s = (case writeBytesHelper w b prev s of (prev, s) \<Rightarrow> write_chunks w bs prev s)"

definition writeArrayHeader :: "'s go_writer \<Rightarrow> nat \<Rightarrow> 's \<Rightarrow> (int \<times> go_error option) \<times> 's" where
  "writeArrayHeader w l s = write_chunks w [''*'', FormatInt (int l), CRLF] (0, None) s"

definition writeStr :: "'s go_writer \<Rightarrow> bytes \<Rightarrow> 's \<Rightarrow> (int \<times> go_error option) \<times> 's" where
  "writeStr w b s = write_chunks w [''$'', FormatInt (int (length b)), CRLF, b, CRLF] (0, None) s"

definition writeErr :: "'s go_writer \<Rightarrow> go_error \<Rightarrow> bool \<Rightarrow> 's \<Rightarrow> (int \<times> go_error option) \<times> 's" where
  "writeErr w e fs s = (if fs then writeStr w (Error e) s else write_chunks w [''-'', Error e, CRLF] (0, None) s)"

definition writeInt :: "'s go_writer \<Rightarrow> int \<Rightarrow> bool \<Rightarrow> 's \<Rightarrow> (int \<times> go_error option) \<times> 's" where
  "writeInt w i fs s = (if fs then writeStr w (FormatInt i) s else write_chunks w ['':'', FormatInt i, CRLF] (0, None) s)"

definition writeFloat :: "'s go_writer \<Rightarrow> bytes \<Rightarrow> 's \<Rightarrow> (int \<times> go_error option) \<times> 's" where
  "writeFloat w txt s = writeStr w txt s"

definition writeNil :: "'s go_writer \<Rightarrow> 's \<Rightarrow> (int \<times> go_error option) \<times> 's" where
  "writeNil w s = w (''$-1'' @ CRLF) s"

text \<open>The loop over the elements of an array: the counts are added up, the first error ends it. An element
  of \<open>ms\<close> is the call that writes it.\<close>

fun write_each :: "('s \<Rightarrow> (int \<times> go_error option) \<times> 's) list \<Rightarrow> int \<Rightarrow> 's \<Rightarrow> (int \<times> go_error option) \<times> 's" where
  "write_each [] k s = ((k, None), s)"
| "write_each (m # ms) k s = (case m s of
     ((n, Some e), s) \<Rightarrow> ((k + n, Some e), s)
   | ((n, None), s) \<Rightarrow> write_each ms (k + n) s)"

definition write_array :: "'s go_writer \<Rightarrow> bool \<Rightarrow> nat \<Rightarrow> ('s \<Rightarrow> (int \<times> go_error option) \<times> 's) list \<Rightarrow> 's
    \<Rightarrow> (int \<times> go_error option) \<times> 's" where
  "write_array w noHeader l ms s =
     (case (if noHeader then ((0, None), s) else writeArrayHeader w l s) of
        ((n, Some e), s) \<Rightarrow> ((n, Some e), s)
      | ((n, None), s) \<Rightarrow> write_each ms n s)"

text \<open>The loop over a map: the bytes of the values are not counted.\<close>

definition uncounted :: "('s \<Rightarrow> (int \<times> go_error option) \<times> 's) \<Rightarrow> 's \<Rightarrow> (int \<times> go_error option) \<times> 's" where
  "uncounted m s = (case m s of ((n, e), s) \<Rightarrow> ((0, e), s))"

fun write_val :: "'s go_writer \<Rightarrow> bool \<Rightarrow> bool \<Rightarrow> red_value \<Rightarrow> 's \<Rightarrow> (int \<times> go_error option) \<times> 's" where
  "write_val w fs nh VNil s = (if fs then writeStr w [] s else writeNil w s)"
| "write_val w fs nh (VBytes b) s = writeStr w b s"
| "write_val w fs nh (VErr e) s = writeErr w e fs s"
| "write_val w fs nh (VInt i) s = writeInt w i fs s"
| "write_val w fs nh (VArr rs) s = write_array w nh (length rs) (map (\<lambda>r. write_val w fs nh (red_val r)) rs) s"

fun writeTo :: "float_format \<Rightarrow> 's go_writer \<Rightarrow> bool \<Rightarrow> bool \<Rightarrow> go_value \<Rightarrow> 's \<Rightarrow> (int \<times> go_error option) \<times> 's" where
  "writeTo ff w fs nh (GBytes b) s = writeStr w b s"
| "writeTo ff w fs nh (GString b) s = writeStr w b s"
| "writeTo ff w fs nh (GBool t) s = writeStr w (if t then ''1'' else ''0'') s"
| "writeTo ff w fs nh GNil s = (if fs then writeStr w [] s else writeNil w s)"
| "writeTo ff w fs nh (GInt i) s = writeInt w i fs s"
| "writeTo ff w fs nh (GUint i) s = writeInt w (int64 i) fs s"
| "writeTo ff w fs nh (GFloat32 f) s = writeFloat w (fmt32 ff f) s"
| "writeTo ff w fs nh (GFloat64 f) s = writeFloat w (fmt64 ff f) s"
| "writeTo ff w fs nh (GError e) s = writeErr w e fs s"
| "writeTo ff w fs nh (GList ms) s = write_array w nh (length ms) (map (writeTo ff w fs nh) ms) s"
| "writeTo ff w fs nh (GMap kvs) s = write_array w nh (2 * length kvs)
     (concat (map (\<lambda>(k, v). [writeTo ff w fs nh k, uncounted (writeTo ff w fs nh v)]) kvs)) s"
| "writeTo ff w fs nh (GResp r) s = write_val w fs nh (red_val r) s"
| "writeTo ff w fs nh (GOther t) s = writeStr w t s"

text \<open>The type and the value of a message are private to the package, which gives the type of a simple string to
  byte slices only: the type assertion on the value does not fail.\<close>

definition Resp_WriteTo :: "'s go_writer \<Rightarrow> red_resp \<Rightarrow> 's \<Rightarrow> (int \<times> go_error option) \<times> 's" where
  "Resp_WriteTo w r s =
     (if red_typ r = SimpleStr
      then w (''+'' @ (case red_val r of VBytes b \<Rightarrow> b | _ \<Rightarrow> []) @ CRLF) s
      else write_val w False False (red_val r) s)"

section \<open>Accessors\<close>

definition IsType :: "red_resp \<Rightarrow> resp_bits \<Rightarrow> bool" where
  "IsType r t \<longleftrightarrow> red_typ r AND t > 0"

definition Resp_Bytes :: "red_resp \<Rightarrow> go_error + bytes" where
  "Resp_Bytes r = (case red_Err r of
     Some e \<Rightarrow> Inl e
   | None \<Rightarrow>
       if IsType r NilType then Inl ErrRespNil
       else if \<not> IsType r StrType then Inl errBadType
       else case red_val r of VBytes b \<Rightarrow> Inr b | _ \<Rightarrow> Inl errNotStr)"

definition Resp_Str :: "red_resp \<Rightarrow> go_error + bytes" where
  "Resp_Str r = Resp_Bytes r"

definition Resp_Int64 :: "red_resp \<Rightarrow> go_error + int" where
  "Resp_Int64 r = (case red_Err r of
     Some e \<Rightarrow> Inl e
   | None \<Rightarrow>
       if IsType r NilType then Inl ErrRespNil
       else case red_val r of
           VInt i \<Rightarrow> Inr i
         | _ \<Rightarrow> (case Resp_Str r of
             Inr s \<Rightarrow> (case ParseInt 64 s of (i, None) \<Rightarrow> Inr i | (_, Some e) \<Rightarrow> Inl (NumError e))
           | Inl _ \<Rightarrow> Inl errNotInt))"

definition Resp_Int :: "red_resp \<Rightarrow> go_error + int" where
  "Resp_Int r = Resp_Int64 r"

definition Resp_Float64 :: "(bytes \<Rightarrow> 64 word \<times> go_error option) \<Rightarrow> red_resp \<Rightarrow> go_error + 64 word" where
  "Resp_Float64 pf r = (case red_Err r of
     Some e \<Rightarrow> Inl e
   | None \<Rightarrow> (case red_val r of
       VBytes b \<Rightarrow> (case pf b of (f, None) \<Rightarrow> Inr f | (_, Some e) \<Rightarrow> Inl e)
     | _ \<Rightarrow> Inl errNotStr))"

definition betterArray :: "red_resp \<Rightarrow> go_error + red_resp list" where
  "betterArray r = (case red_Err r of Some e \<Rightarrow> Inl e | None \<Rightarrow> (case red_val r of VArr rs \<Rightarrow> Inr rs | _ \<Rightarrow> Inl errNotArray))"

definition Resp_Array :: "red_resp \<Rightarrow> go_error + red_resp list" where
  "Resp_Array r = betterArray r"

fun list_loop :: "red_resp list \<Rightarrow> go_error + bytes list" where
  "list_loop [] = Inr []"
| "list_loop (m # ms) = (case (if IsType m NilType then Inr [] else Resp_Str m) of
     Inl e \<Rightarrow> Inl e
   | Inr s \<Rightarrow> (case list_loop ms of Inl e \<Rightarrow> Inl e | Inr l \<Rightarrow> Inr (s # l)))"

definition Resp_List :: "red_resp \<Rightarrow> go_error + bytes list" where
  "Resp_List r = (case betterArray r of Inl e \<Rightarrow> Inl e | Inr ms \<Rightarrow> list_loop ms)"

text \<open>A nil reply is a nil slice.\<close>

fun list_bytes_loop :: "red_resp list \<Rightarrow> go_error + bytes option list" where
  "list_bytes_loop [] = Inr []"
| "list_bytes_loop (m # ms) = (case (if IsType m NilType then Inr None else map_sum id Some (Resp_Bytes m)) of
     Inl e \<Rightarrow> Inl e
   | Inr b \<Rightarrow> (case list_bytes_loop ms of Inl e \<Rightarrow> Inl e | Inr l \<Rightarrow> Inr (b # l)))"

definition Resp_ListBytes :: "red_resp \<Rightarrow> go_error + bytes option list" where
  "Resp_ListBytes r = (case betterArray r of Inl e \<Rightarrow> Inl e | Inr ms \<Rightarrow> list_bytes_loop ms)"

fun map_loop :: "red_resp list \<Rightarrow> (bytes \<rightharpoonup> bytes) \<Rightarrow> go_error + (bytes \<rightharpoonup> bytes)" where
  "map_loop (k # v # l) m = (case Resp_Str k of
     Inl e \<Rightarrow> Inl e
   | Inr ks \<Rightarrow> (case (if IsType v NilType then Inr [] else Resp_Str v) of
       Inl e \<Rightarrow> Inl e
     | Inr vs \<Rightarrow> map_loop l (m(ks \<mapsto> vs))))"
| "map_loop _ m = Inr m"

definition Resp_Map :: "red_resp \<Rightarrow> go_error + (bytes \<rightharpoonup> bytes)" where
  "Resp_Map r = (case betterArray r of
     Inl e \<Rightarrow> Inl e
   | Inr l \<Rightarrow> if length l mod 2 \<noteq> 0 then Inl (Formatted ''reply has odd number of elements'') else map_loop l Map.empty)"

section \<open>What is written is read\<close>

fun red_wire :: "red_value \<Rightarrow> bytes" where
  "red_wire VNil = ''$-1'' @ CRLF"
| "red_wire (VBytes b) = ''$'' @ FormatInt (int (length b)) @ CRLF @ b @ CRLF"
| "red_wire (VErr e) = ''-'' @ Error e @ CRLF"
| "red_wire (VInt i) = '':'' @ FormatInt i @ CRLF"
| "red_wire (VArr rs) = ''*'' @ FormatInt (int (length rs)) @ CRLF @ concat (map (\<lambda>r. red_wire (red_val r)) rs)"

text \<open>The type is not written: a simple string inside an array is read as a bulk string, and an error as one
  of the server.\<close>

fun read_back :: "red_value \<Rightarrow> red_resp" where
  "read_back VNil = RedResp NilType VNil None"
| "read_back (VBytes b) = RedResp BulkStr (VBytes b) None"
| "read_back (VErr e) = RedResp AppErr (VErr (Formatted (Error e))) (Some (Formatted (Error e)))"
| "read_back (VInt i) = RedResp IntType (VInt i) None"
| "read_back (VArr rs) = RedResp ArrayType (VArr (map (\<lambda>r. read_back (red_val r)) rs)) None"

fun writable :: "red_value \<Rightarrow> bool" where
  "writable VNil \<longleftrightarrow> True"
| "writable (VBytes b) \<longleftrightarrow> in_int64 (int (length b))"
| "writable (VErr e) \<longleftrightarrow> LF \<notin> set (Error e)"
| "writable (VInt i) \<longleftrightarrow> in_int64 i"
| "writable (VArr rs) \<longleftrightarrow> in_int64 (int (length rs)) \<and> (\<forall>r \<in> set rs. writable (red_val r))"

definition full_writer :: "'s go_writer \<Rightarrow> ('s \<Rightarrow> bytes) \<Rightarrow> bool" where
  "full_writer w sent \<longleftrightarrow> (\<forall>b s. \<exists>s'. w b s = ((int (length b), None), s') \<and> sent s' = sent s @ b)"

text \<open>A call that writes \<open>x\<close> and counts it.\<close>

definition writes :: "('s \<Rightarrow> bytes) \<Rightarrow> ('s \<Rightarrow> (int \<times> go_error option) \<times> 's) \<Rightarrow> bytes \<Rightarrow> bool" where
  "writes sent m x \<longleftrightarrow> (\<forall>s. \<exists>s'. m s = ((int (length x), None), s') \<and> sent s' = sent s @ x)"

lemma write_chunks_all:
  "full_writer w sent \<Longrightarrow> \<exists>s'. write_chunks w bs (n, None) s = ((n + int (length (concat bs)), None), s') \<and> sent s' = sent s @ concat bs"
proof (induction bs arbitrary: n s)
  case (Cons b bs)
  obtain s1 where 1: "w b s = ((int (length b), None), s1)" "sent s1 = sent s @ b"
    using Cons.prems unfolding full_writer_def by blast
  then show ?case using Cons.IH [OF Cons.prems, of "int (length b) + n" s1] by (auto simp: writeBytesHelper_def algebra_simps)
qed simp

lemma writes_chunks: "full_writer w sent \<Longrightarrow> writes sent (write_chunks w bs (0, None)) (concat bs)"
  using write_chunks_all [of w sent bs 0] by (simp add: writes_def)

lemma writes_each:
  "list_all2 (writes sent) ms xs \<Longrightarrow>
     \<exists>s'. write_each ms n s = ((n + int (length (concat xs)), None), s') \<and> sent s' = sent s @ concat xs"
proof (induction arbitrary: n s rule: list_all2_induct)
  case (Cons m ms x xs)
  obtain s1 where 1: "m s = ((int (length x), None), s1)" "sent s1 = sent s @ x"
    using Cons.hyps unfolding writes_def by blast
  then show ?case using Cons.IH [of "n + int (length x)" s1] by auto
qed simp

lemma writes_array:
  assumes "full_writer w sent" "list_all2 (writes sent) ms xs"
  shows "writes sent (write_array w False l ms) (''*'' @ FormatInt (int l) @ CRLF @ concat xs)"
  unfolding writes_def
proof
  fix s
  obtain s1 where 1: "writeArrayHeader w l s = ((int (length (concat [''*'', FormatInt (int l), CRLF])), None), s1)"
    "sent s1 = sent s @ concat [''*'', FormatInt (int l), CRLF]"
    using writes_chunks [OF assms(1), of "[''*'', FormatInt (int l), CRLF]"] unfolding writes_def writeArrayHeader_def by blast
  then show "\<exists>s'. write_array w False l ms s = ((int (length (''*'' @ FormatInt (int l) @ CRLF @ concat xs)), None), s') \<and>
      sent s' = sent s @ ''*'' @ FormatInt (int l) @ CRLF @ concat xs"
    using writes_each [OF assms(2), of "int (length (concat [''*'', FormatInt (int l), CRLF]))" s1]
    by (auto simp: write_array_def)
qed

lemma writes_val:
  assumes "full_writer w sent"
  shows "writes sent (write_val w False False v) (red_wire v)"
proof (induction v rule: red_wire.induct)
  case 1
  have "\<exists>s'. w (red_wire VNil) s = ((int (length (red_wire VNil)), None), s') \<and> sent s' = sent s @ red_wire VNil" for s
    using assms unfolding full_writer_def by blast
  then show ?case by (simp add: writes_def writeNil_def)
next
  case (2 b)
  show ?case using writes_chunks [OF assms, of "[''$'', FormatInt (int (length b)), CRLF, b, CRLF]"] by (simp add: writes_def writeStr_def)
next
  case (3 e)
  show ?case using writes_chunks [OF assms, of "[''-'', Error e, CRLF]"] by (simp add: writes_def writeErr_def)
next
  case (4 i)
  show ?case using writes_chunks [OF assms, of "['':'', FormatInt i, CRLF]"] by (simp add: writes_def writeInt_def)
next
  case (5 rs)
  have "list_all2 (writes sent) (map (\<lambda>r. write_val w False False (red_val r)) rs) (map (\<lambda>r. red_wire (red_val r)) rs)"
    using 5 by (simp add: list_all2_conv_all_nth)
  from writes_array [OF assms this] show ?case by (simp add: writes_def)
qed

lemma read_until_LF_line: "LF \<notin> set l \<Longrightarrow> read_until_LF (l @ LF # t) = (Inr (l @ [LF]), t)"
  by (induction l) (auto simp: read_until_LF_def)

lemma read_inner_line: "c \<noteq> LF \<Longrightarrow> LF \<notin> set x \<Longrightarrow> read_inner (c # x @ CRLF @ t) = Ret (Inr x, t)"
  using read_until_LF_line [of "c # x @ [CR]" t] by (simp add: read_inner_def inner_def buf_slice_def)

lemma FormatInt_LF: "LF \<notin> set (FormatInt i)"
  using FormatInt_no_eol by auto

lemma read_number_line:
  assumes "c \<noteq> LF" "in_int64 i"
  shows "read_number (c # FormatInt i @ CRLF @ t) = Ret (Inr i, t)"
  using read_inner_line [OF assms(1) FormatInt_LF] ParseInt_FormatInt [OF assms(2)] by (simp add: read_number_def)

lemma red_wire_Cons: "\<exists>c x. red_wire v = c # x \<and> c \<in> {CHR ''$'', CHR ''-'', CHR '':'', CHR ''*''}"
  by (cases v) auto

lemma length_concat_element: "r \<in> set rs \<Longrightarrow> length (f r) \<le> length (concat (map f rs))"
  by (induction rs) auto

lemma red_wire_not_Nil: "red_wire v \<noteq> []"
  using red_wire_Cons [of v] by auto

lemma length_concat_ge: "\<forall>r \<in> set rs. f r \<noteq> [] \<Longrightarrow> length rs \<le> length (concat (map f rs))"
proof (induction rs)
  case (Cons r rs)
  have "Suc 0 \<le> length (f r)" using Cons.prems by (cases "f r") simp_all
  moreover have "length rs \<le> length (concat (map f rs))" using Cons by simp
  ultimately have "Suc (length rs) \<le> length (f r) + length (concat (map f rs))" by linarith
  then show ?case by simp
qed simp

lemma red_wire_element: "r \<in> set rs \<Longrightarrow> length (red_wire (red_val r)) < length (red_wire (VArr rs))"
  using length_concat_element [of r rs "\<lambda>r. red_wire (red_val r)"] by simp

lemma read_elements_all:
  "(\<And>r t. r \<in> set rs \<Longrightarrow> rd (f r @ t) = Ret (Inr (g r), t)) \<Longrightarrow>
     read_elements rd (length rs) (concat (map f rs) @ t) = Ret (Inr (map g rs), t)"
  by (induction rs) simp_all

lemma FormatInt_minus_1: "FormatInt (-1) = ''-1''"
  by code_simp

lemma read_wire:
  "length (red_wire v) \<le> fuel \<Longrightarrow> writable v \<Longrightarrow> \<forall>n. 0 \<le> n \<and> n \<le> 40 * int (length (red_wire v)) \<longrightarrow> alloc n \<Longrightarrow>
     bufioReadResp alloc (Suc fuel) (red_wire v @ t) = Ret (Inr (read_back v), t)"
proof (induction fuel arbitrary: v t)
  case 0
  then show ?case using red_wire_Cons [of v] by auto
next
  case (Suc fuel)
  show ?case
  proof (cases v)
    case VNil
    have "''$-1'' @ CRLF @ t = CHR ''$'' # FormatInt (-1) @ CRLF @ t" by (simp add: FormatInt_minus_1)
    then show ?thesis
      using read_number_line [of "CHR ''$''" "-1" t] VNil by (simp add: readBulkStr_def in_int64_def)
  next
    case (VBytes b)
    then have "alloc (int (length b))" using Suc.prems(3) by simp
    then show ?thesis
      using read_number_line [of "CHR ''$''" "int (length b)" "b @ CRLF @ t"] VBytes Suc.prems(2) by (simp add: readBulkStr_def)
  next
    case (VErr e)
    then show ?thesis
      using read_inner_line [of "CHR ''-''" "Error e" t] Suc.prems(2) by (simp add: readError_def Let_def)
  next
    case (VInt i)
    then show ?thesis
      using read_number_line [of "CHR '':''" i t] Suc.prems(2) by (simp add: readInt_def)
  next
    case (VArr rs)
    have el: "bufioReadResp alloc (Suc fuel) (red_wire (red_val r) @ u) = Ret (Inr (read_back (red_val r)), u)"
      if r: "r \<in> set rs" for r u
    proof (rule Suc.IH)
      show "length (red_wire (red_val r)) \<le> fuel" using red_wire_element [OF r] Suc.prems(1) VArr by simp
      show "writable (red_val r)" using Suc.prems(2) VArr r by simp
      show "\<forall>n. 0 \<le> n \<and> n \<le> 40 * int (length (red_wire (red_val r))) \<longrightarrow> alloc n"
        using red_wire_element [OF r] Suc.prems(3) VArr by auto
    qed
    have "length rs \<le> length (red_wire (VArr rs))"
      using length_concat_ge [of rs "\<lambda>r. red_wire (red_val r)"] red_wire_not_Nil by simp
    then have al: "alloc (40 * int (length rs))" using Suc.prems(3) VArr by simp
    show ?thesis
      using read_number_line [of "CHR ''*''" "int (length rs)" "concat (map (\<lambda>r. red_wire (red_val r)) rs) @ t"]
        Suc.prems(2) VArr al read_elements_all [of rs "bufioReadResp alloc (Suc fuel)" "\<lambda>r. red_wire (red_val r)" "\<lambda>r. read_back (red_val r)" t] el
      by (simp add: readArray_def del: bufioReadResp.simps(2))
        (simp add: readArray_def)
  qed
qed

section \<open>Nesting\<close>

text \<open>Reading consumes what it reads, so more fuel than the bytes to come changes nothing.\<close>

lemma read_until_LF_length: "read_until_LF s = (Inr b, s') \<Longrightarrow> length s' < length s"
proof -
  assume a: "read_until_LF s = (Inr b, s')"
  then have "LF \<in> set s" "s' = tl (dropWhile (\<lambda>c. c \<noteq> LF) s)" by (auto simp: read_until_LF_def split: if_splits)
  moreover have "length (dropWhile (\<lambda>c. c \<noteq> LF) s) \<le> length s" by (rule length_dropWhile_le)
  moreover have "dropWhile (\<lambda>c. c \<noteq> LF) s \<noteq> []" using calculation(1) by simp
  ultimately show ?thesis by (cases "dropWhile (\<lambda>c. c \<noteq> LF) s") auto
qed

lemma read_inner_length:
  "read_inner s = Ret (r, s') \<Longrightarrow> length s' \<le> length s \<and> (s \<noteq> [] \<longrightarrow> length s' < length s)"
  by (auto simp: read_inner_def bind_outcome_Ret_iff dest!: read_until_LF_length split: prod.splits sum.splits)
    (auto simp: read_until_LF_def split: if_splits)

lemma read_number_length:
  assumes "read_number s = Ret (r, s')"
  shows "length s' \<le> length s \<and> (s \<noteq> [] \<longrightarrow> length s' < length s)"
proof -
  obtain q s1 where q: "read_inner s = Ret (q, s1)" using assms by (auto simp: read_number_def bind_outcome_Ret_iff)
  have "s' = s1" using assms q by (auto simp: read_number_def split: sum.splits prod.splits option.splits)
  then show ?thesis using read_inner_length [OF q] by simp
qed

definition shrinks :: "(bytes \<Rightarrow> ((go_error + red_resp) \<times> bytes) outcome) \<Rightarrow> bool" where
  "shrinks rd \<longleftrightarrow> (\<forall>s r s'. rd s = Ret (r, s') \<longrightarrow> length s' \<le> length s)"

lemma read_elements_length:
  "shrinks rd \<Longrightarrow> read_elements rd n s = Ret (r, s') \<Longrightarrow> length s' \<le> length s"
proof (induction n arbitrary: s r s')
  case (Suc n)
  obtain q s1 where 1: "rd s = Ret (q, s1)" using Suc.prems(2) by (auto simp: bind_outcome_Ret_iff)
  have l: "length s1 \<le> length s" using Suc.prems(1) 1 unfolding shrinks_def by blast
  show ?case
  proof (cases q)
    case (Inl e)
    then show ?thesis using Suc.prems(2) 1 l by simp
  next
    case (Inr m)
    then show ?thesis using Suc.prems(2) 1 l Suc.IH [OF Suc.prems(1), of s1] by (auto simp: bind_outcome_Ret_iff)
  qed
qed simp

lemma readArray_length: "shrinks rd \<Longrightarrow> shrinks (readArray alloc rd)"
  unfolding shrinks_def [of "readArray alloc rd"]
proof (intro allI impI)
  fix s r s'
  assume rd: "shrinks rd" and a: "readArray alloc rd s = Ret (r, s')"
  obtain q s1 where q: "read_number s = Ret (q, s1)" using a by (auto simp: readArray_def bind_outcome_Ret_iff)
  have "s' = s1 \<or> (\<exists>n rs. read_elements rd n s1 = Ret (rs, s'))"
  proof (cases q)
    case (Inr n)
    show ?thesis
    proof (cases "read_elements rd (nat n) s1")
      case (Ret x)
      then show ?thesis using a q Inr by (cases x; cases "fst x") (auto simp: readArray_def split: if_splits)
    next
      case (Panic m)
      then show ?thesis using a q Inr by (simp add: readArray_def split: if_splits)
    qed
  qed (use a q in \<open>simp add: readArray_def\<close>)
  moreover have "length s1 \<le> length s" using read_number_length [OF q] by simp
  ultimately show "length s' \<le> length s" using read_elements_length [OF rd] by (meson le_trans order_refl)
qed

lemma readBulkStr_length: "shrinks (readBulkStr alloc)"
  unfolding shrinks_def
proof (intro allI impI)
  fix s r s'
  assume a: "readBulkStr alloc s = Ret (r, s')"
  obtain q s1 where q: "read_number s = Ret (q, s1)" using a by (auto simp: readBulkStr_def bind_outcome_Ret_iff)
  have "length s' \<le> length s1"
    using a q by (auto simp: readBulkStr_def split: sum.splits if_splits)
  then show "length s' \<le> length s" using read_number_length [OF q] by simp
qed

lemma read_line_length: "shrinks readSimpleStr" "shrinks readError" "shrinks readInt"
proof -
  have "length s' \<le> length s" if a: "readSimpleStr s = Ret (r, s')" for s r s'
  proof -
    obtain q s1 where q: "read_inner s = Ret (q, s1)" using a by (auto simp: readSimpleStr_def bind_outcome_Ret_iff)
    have "s' = s1" using a q by (auto simp: readSimpleStr_def split: sum.splits)
    then show ?thesis using read_inner_length [OF q] by simp
  qed
  then show "shrinks readSimpleStr" unfolding shrinks_def by blast
  have "length s' \<le> length s" if a: "readError s = Ret (r, s')" for s r s'
  proof -
    obtain q s1 where q: "read_inner s = Ret (q, s1)" using a by (auto simp: readError_def bind_outcome_Ret_iff)
    have "s' = s1" using a q by (auto simp: readError_def Let_def split: sum.splits)
    then show ?thesis using read_inner_length [OF q] by simp
  qed
  then show "shrinks readError" unfolding shrinks_def by blast
  have "length s' \<le> length s" if a: "readInt s = Ret (r, s')" for s r s'
  proof -
    obtain q s1 where q: "read_number s = Ret (q, s1)" using a by (auto simp: readInt_def bind_outcome_Ret_iff)
    have "s' = s1" using a q by (auto simp: readInt_def split: sum.splits)
    then show ?thesis using read_number_length [OF q] by simp
  qed
  then show "shrinks readInt" unfolding shrinks_def by blast
qed

lemma bufioReadResp_length: "shrinks (bufioReadResp alloc fuel)"
proof (induction fuel)
  case (Suc fuel)
  have "length s' \<le> length s" if a: "bufioReadResp alloc (Suc fuel) s = Ret (r, s')" for s r s'
  proof (cases s)
    case Nil
    then show ?thesis using a by simp
  next
    case (Cons c u)
    have "shrinks rd \<Longrightarrow> rd s = Ret (r, s') \<Longrightarrow> length s' \<le> length s" for rd unfolding shrinks_def by blast
    note l = this [OF readArray_length [OF Suc, of alloc]] this [OF readBulkStr_length [of alloc]]
      read_line_length [THEN this]
    have "readSimpleStr s = Ret (r, s') \<or> readError s = Ret (r, s') \<or> readInt s = Ret (r, s') \<or>
        readBulkStr alloc s = Ret (r, s') \<or> readArray alloc (bufioReadResp alloc fuel) s = Ret (r, s') \<or> s' = s"
      using a unfolding Cons bufioReadResp.simps list.case by (simp only: split: if_splits) simp_all
    then show ?thesis using l by blast
  qed
  then show ?case unfolding shrinks_def by blast
qed (simp add: shrinks_def)

lemma read_elements_cong:
  "shrinks rd \<Longrightarrow> (\<And>u. length u \<le> length s \<Longrightarrow> rd u = rd' u) \<Longrightarrow> read_elements rd n s = read_elements rd' n s"
proof (induction n arbitrary: s)
  case (Suc n)
  have e: "rd' s = rd s" using Suc.prems(2) [of s] by simp
  show ?case
  proof (cases "rd s")
    case (Ret x)
    obtain q s1 where x: "x = (q, s1)" by (cases x)
    have l: "length s1 \<le> length s" using Suc.prems(1) Ret x unfolding shrinks_def by blast
    have "read_elements rd n s1 = read_elements rd' n s1"
      using l by (intro Suc.IH [OF Suc.prems(1)] Suc.prems(2)) simp
    then show ?thesis using e Ret x by (cases q) simp_all
  next
    case (Panic m)
    then show ?thesis using e by simp
  qed
qed simp

text \<open>Reading a message ends: with more fuel than there are bytes to come, the result does not depend on
  the fuel, so no input makes the nesting of \<open>bufioReadResp\<close> deeper than its length.\<close>

theorem bufioReadResp_terminates:
  assumes "length s < fuel"
  shows "bufioReadResp alloc fuel s = bufioReadResp alloc (Suc (length s)) s"
proof -
  have "bufioReadResp alloc (Suc n) s = bufioReadResp alloc n s" if n: "length s < n" for n s
    using n
  proof (induction n arbitrary: s)
    case (Suc n)
    have "readArray alloc (bufioReadResp alloc (Suc n)) s = readArray alloc (bufioReadResp alloc n) s" if s: "s \<noteq> []"
    proof (cases "read_number s")
      case (Ret x)
      obtain q s1 where x: "x = (q, s1)" by (cases x)
      have "length s1 < length s" using read_number_length [of s q s1] Ret x s by simp
      then have "read_elements (bufioReadResp alloc (Suc n)) k s1 = read_elements (bufioReadResp alloc n) k s1" for k
        using Suc.prems by (intro read_elements_cong [OF bufioReadResp_length] Suc.IH) simp
      then show ?thesis using Ret x by (cases q) (simp_all add: readArray_def del: bufioReadResp.simps)
    qed (simp add: readArray_def)
    then show ?case
      by (cases s) (simp_all only: bufioReadResp.simps(2) [of _ "Suc n"] bufioReadResp.simps(2) [of _ n] list.case list.distinct not_False_eq_True simp_thms)
  qed simp
  then have "bufioReadResp alloc (Suc (length s) + k) s = bufioReadResp alloc (Suc (length s)) s" for k
    by (induction k) simp_all
  from this [of "fuel - Suc (length s)"] show ?thesis using assms by simp
qed

lemma bufioReadResp_terminates_witness:
  "bufioReadResp (\<lambda>_. True) 9 ''*1'' = bufioReadResp (\<lambda>_. True) (Suc (length ''*1'')) ''*1''"
  by (rule bufioReadResp_terminates) simp

section \<open>Properties\<close>

text \<open>A message as a whole: a simple string has a line of its own, which only a line feed in it spoils; everything else
  is written by its value.\<close>

definition resp_wire :: "red_resp \<Rightarrow> bytes" where
  "resp_wire r = (case (red_typ r = SimpleStr, red_val r) of
     (True, VBytes b) \<Rightarrow> ''+'' @ b @ CRLF
   | _ \<Rightarrow> red_wire (red_val r))"

definition resp_back :: "red_resp \<Rightarrow> red_resp" where
  "resp_back r = (if red_typ r = SimpleStr then RedResp SimpleStr (red_val r) None else read_back (red_val r))"

definition resp_writable :: "red_resp \<Rightarrow> bool" where
  "resp_writable r \<longleftrightarrow> (if red_typ r = SimpleStr then (case red_val r of VBytes b \<Rightarrow> LF \<notin> set b | _ \<Rightarrow> False)
     else writable (red_val r))"

lemma read_simple:
  assumes "LF \<notin> set b"
  shows "RespReader_Read alloc (''+'' @ b @ CRLF @ t) = Ret (RedResp SimpleStr (VBytes b) None, t)"
  using read_until_LF_line [of "CHR ''+'' # b @ [CR]" t] assms
  by (simp add: RespReader_Read_def readSimpleStr_def read_inner_def inner_def buf_slice_def)

lemma write_simple:
  assumes "full_writer w sent" "red_typ r = SimpleStr" "resp_writable r"
  shows "\<exists>s'. Resp_WriteTo w r s = ((int (length (resp_wire r)), None), s') \<and> sent s' = sent s @ resp_wire r"
proof -
  obtain b where b: "red_val r = VBytes b" using assms(2,3) by (auto simp: resp_writable_def split: red_value.splits)
  obtain s' where "w (''+'' @ b @ CRLF) s = ((int (length (''+'' @ b @ CRLF)), None), s')" "sent s' = sent s @ ''+'' @ b @ CRLF"
    using assms(1) unfolding full_writer_def by blast
  then show ?thesis using assms(2) b by (simp add: Resp_WriteTo_def resp_wire_def)
qed

text \<open>C33. What \<open>WriteTo\<close> writes is read back: a writer that takes everything gets exactly the encoding, the
  count returned is its length, and a reader of it, whatever follows, gives the value back, with the
  types that are not on the wire, and leaves what follows. A simple string comes back as the simple string it was;
  it, and the text of an error, must not have a line feed, which would end it.\<close>

theorem red_roundtrip:
  assumes "full_writer w sent" "resp_writable r" "x = resp_wire r" "\<forall>n. 0 \<le> n \<and> n \<le> 40 * int (length x) \<longrightarrow> alloc n"
  shows "\<exists>s'. Resp_WriteTo w r s = ((int (length x), None), s') \<and> sent s' = sent s @ x \<and>
    RespReader_Read alloc (x @ t) = Ret (resp_back r, t)"
proof (cases "red_typ r = SimpleStr")
  case True
  then obtain b where b: "red_val r = VBytes b" "LF \<notin> set b"
    using assms(2) by (auto simp: resp_writable_def split: red_value.splits)
  show ?thesis using write_simple [OF assms(1) True assms(2), of s] read_simple [OF b(2), of alloc t] True b(1) assms(3)
    by (auto simp: resp_wire_def resp_back_def)
next
  case False
  have x: "x = red_wire (red_val r)" using False assms(3) by (simp add: resp_wire_def)
  obtain s' where w: "write_val w False False (red_val r) s = ((int (length x), None), s')" "sent s' = sent s @ x"
    using writes_val [OF assms(1), of "red_val r"] x unfolding writes_def by blast
  have "writable (red_val r)" using assms(2) False by (simp add: resp_writable_def)
  then have "bufioReadResp alloc (Suc (length (x @ t))) (x @ t) = Ret (Inr (read_back (red_val r)), t)"
    using assms(4) x by (simp only: x) (rule read_wire, simp_all)
  then show ?thesis using w False by (simp add: Resp_WriteTo_def RespReader_Read_def resp_back_def)
qed

lemma red_roundtrip_witness:
  "RespReader_Read (\<lambda>_. True) (red_wire (VArr [RedResp BulkStr (VBytes ''a'') None, RedResp IntType (VInt 7) None]) @ ''x'') =
     Ret (RedResp ArrayType (VArr [RedResp BulkStr (VBytes ''a'') None, RedResp IntType (VInt 7) None]) None, ''x'') \<and>
   RespReader_Read (\<lambda>_. True) (''+OK'' @ CRLF @ ''x'') = Ret (RedResp SimpleStr (VBytes ''OK'') None, ''x'')"
proof -
  have w: "full_writer (\<lambda>b s. ((int (length b), None), s @ b)) id" by (simp add: full_writer_def)
  have "RespReader_Read (\<lambda>_. True) (red_wire (VArr [RedResp BulkStr (VBytes ''a'') None, RedResp IntType (VInt 7) None]) @ ''x'') =
     Ret (RedResp ArrayType (VArr [RedResp BulkStr (VBytes ''a'') None, RedResp IntType (VInt 7) None]) None, ''x'')"
    using red_roundtrip [OF w _ refl, of "RedResp ArrayType (VArr [RedResp BulkStr (VBytes ''a'') None, RedResp IntType (VInt 7) None]) None"
        "\<lambda>_. True" "[]" "''x''"]
    by (simp add: resp_bits in_int64_def resp_writable_def resp_wire_def resp_back_def)
  moreover have "RespReader_Read (\<lambda>_. True) (''+OK'' @ CRLF @ ''x'') = Ret (RedResp SimpleStr (VBytes ''OK'') None, ''x'')"
    using red_roundtrip [OF w _ refl, of "RedResp SimpleStr (VBytes ''OK'') None" "\<lambda>_. True" "[]" "''x''"]
    by (simp add: resp_writable_def resp_wire_def resp_back_def)
  ultimately show ?thesis by blast
qed

text \<open>A line with nothing but its prefix panics: where a message should start, any of the five prefixes
  followed by a line feed takes a slice out of its bounds, so two bytes from the peer end the
  goroutine that reads.\<close>

theorem short_line_panics:
  assumes "c \<in> set ''+-:$*''"
  shows "\<exists>m. RespReader_Read alloc (c # LF # t) = Panic m"
proof -
  have c: "c \<noteq> LF" using assms by auto
  have "read_inner (c # LF # t) = Panic ''slice bounds out of range''"
    using read_until_LF_line [of "[c]" t] c by (simp add: read_inner_def inner_def)
  then show ?thesis
    using assms by (auto simp: RespReader_Read_def readSimpleStr_def readError_def readInt_def readBulkStr_def readArray_def read_number_def)
qed

lemma short_line_panics_witness: "\<exists>m. RespReader_Read (\<lambda>_. True) [CHR ''+'', LF] = Panic m"
  by (rule short_line_panics) simp

end
