(* ===== verification/Red_String.thy ===== *)
theory Red_String
  imports Red_Resp
begin

text \<open>
  The printed form of a message (\<open>String\<close>) and the test for a timeout (\<open>IsTimeout\<close>) of
  \<open>utils/respecho/RedResp/resp.go\<close>. The casts of \<open>String\<close> panic on a value that does not fit its type; messages that are read
  or made never have one. Quoting a string (\<open>%q\<close>) and the errors of the network that are timeouts are parameters.
\<close>

section \<open>The functions\<close>

fun ret_all :: "'a outcome list \<Rightarrow> 'a list outcome" where
  "ret_all [] = Ret []"
| "ret_all (x # xs) = bind_outcome x (\<lambda>v. bind_outcome (ret_all xs) (\<lambda>vs. Ret (v # vs)))"

text \<open>\<open>strings.Join(ss, " ")\<close>\<close>

fun join_space :: "bytes list \<Rightarrow> bytes" where
  "join_space [] = []"
| "join_space [s] = s"
| "join_space (s # ss) = s @ '' '' @ join_space ss"

definition error_text :: "go_error option \<Rightarrow> bytes" where
  "error_text e = (case e of None \<Rightarrow> ''%!s(<nil>)'' | Some e \<Rightarrow> Error e)"

definition bad_cast :: "'a outcome" where "bad_cast = Panic ''interface conversion''"

fun Resp_String :: "(bytes \<Rightarrow> bytes) \<Rightarrow> red_resp \<Rightarrow> bytes outcome" where
  "Resp_String quote (RedResp t v e) = bind_outcome
     (if t = AppErr then Ret (''AppErr '' @ error_text e)
      else if t = IOErr then Ret (''IOErr '' @ error_text e)
      else if t = BulkStr \<or> t = SimpleStr then (case v of VBytes b \<Rightarrow> Ret (''Str '' @ quote b) | _ \<Rightarrow> bad_cast)
      else if t = IntType then (case v of VInt i \<Rightarrow> Ret (''Int '' @ FormatInt i) | _ \<Rightarrow> bad_cast)
      else if t = NilType then Ret ''Nil''
      else if t = ArrayType then (case v of
          VArr kids \<Rightarrow> bind_outcome (ret_all (map (Resp_String quote) kids)) (\<lambda>ss. Ret (join_space ss))
        | _ \<Rightarrow> bad_cast)
      else Ret ''UNKNOWN'')
     (\<lambda>inner. Ret (''Resp('' @ inner @ '')''))"

definition Resp_IsTimeout :: "(string \<Rightarrow> bool) \<Rightarrow> red_resp \<Rightarrow> bool" where
  "Resp_IsTimeout is_net_timeout r \<longleftrightarrow>
     IsType r IOErr \<and> (case red_Err r of Some (OSError m) \<Rightarrow> is_net_timeout m | _ \<Rightarrow> False)"

section \<open>The shape of a message\<close>

text \<open>The value has the kind its type says, and an error is there exactly when the type is one.\<close>

fun shaped :: "red_resp \<Rightarrow> bool" where
  "shaped (RedResp t v e) \<longleftrightarrow>
     (if t = AppErr \<or> t = IOErr then e \<noteq> None
      else e = None \<and>
        (if t = BulkStr \<or> t = SimpleStr then (case v of VBytes _ \<Rightarrow> True | _ \<Rightarrow> False)
         else if t = IntType then (case v of VInt _ \<Rightarrow> True | _ \<Rightarrow> False)
         else if t = ArrayType then (case v of VArr kids \<Rightarrow> list_all shaped kids | _ \<Rightarrow> False)
         else t = NilType))"

definition reads_shaped :: "(bytes \<Rightarrow> ((go_error + red_resp) \<times> bytes) outcome) \<Rightarrow> bool" where
  "reads_shaped rd \<longleftrightarrow> (\<forall>s r s'. rd s = Ret (Inr r, s') \<longrightarrow> shaped r)"

lemma type_bits_distinct [simp]:
  "SimpleStr \<noteq> AppErr" "SimpleStr \<noteq> IOErr" "BulkStr \<noteq> AppErr" "BulkStr \<noteq> IOErr" "IntType \<noteq> AppErr" "IntType \<noteq> IOErr"
  "IntType \<noteq> BulkStr" "IntType \<noteq> SimpleStr" "ArrayType \<noteq> AppErr" "ArrayType \<noteq> IOErr" "ArrayType \<noteq> BulkStr"
  "ArrayType \<noteq> SimpleStr" "ArrayType \<noteq> IntType" "NilType \<noteq> AppErr" "NilType \<noteq> IOErr" "NilType \<noteq> BulkStr"
  "NilType \<noteq> SimpleStr" "NilType \<noteq> IntType" "NilType \<noteq> ArrayType"
  "SimpleStr \<noteq> BulkStr" "AppErr \<noteq> IOErr"
  by (simp_all add: resp_bits)

declare type_bits_distinct [symmetric, simp]

lemma read_elements_shaped:
  "reads_shaped rd \<Longrightarrow> read_elements rd n s = Ret (Inr rs, s') \<Longrightarrow> list_all shaped rs"
proof (induction n arbitrary: s rs s')
  case (Suc n)
  obtain q s1 where 1: "rd s = Ret (q, s1)" using Suc.prems(2) by (auto simp: bind_outcome_Ret_iff)
  obtain m where m: "q = Inr m" using Suc.prems(2) 1 by (cases q) auto
  obtain qs s2 where 2: "read_elements rd n s1 = Ret (qs, s2)" using Suc.prems(2) 1 m by (auto simp: bind_outcome_Ret_iff)
  obtain ms where ms: "qs = Inr ms" "rs = m # ms" using Suc.prems(2) 1 m 2 by (cases qs) auto
  have "shaped m" using Suc.prems(1) 1 m unfolding reads_shaped_def by blast
  then show ?case using Suc.IH [OF Suc.prems(1), of s1 ms s2] 2 ms by simp
qed simp

lemma read_lines_shaped:
  "reads_shaped readSimpleStr" "reads_shaped readError" "reads_shaped readInt" "reads_shaped (readBulkStr alloc)"
  unfolding reads_shaped_def
  by (auto simp: readSimpleStr_def readError_def readInt_def readBulkStr_def bind_outcome_Ret_iff Let_def split: sum.split_asm if_split_asm)

lemma readArray_shaped:
  assumes "reads_shaped rd"
  shows "reads_shaped (readArray alloc rd)"
  unfolding reads_shaped_def
proof (intro allI impI)
  fix s r s'
  assume a: "readArray alloc rd s = Ret (Inr r, s')"
  obtain q s1 where 1: "read_number s = Ret (q, s1)" using a by (auto simp: readArray_def bind_outcome_Ret_iff)
  obtain n where n: "q = Inr n" using a 1 by (cases q) (auto simp: readArray_def)
  show "shaped r"
  proof (cases "n < 0")
    case True
    then show ?thesis using a 1 n by (auto simp: readArray_def)
  next
    case False
    then obtain rs s2 where 2: "alloc (40 * n)" "read_elements rd (nat n) s1 = Ret (rs, s2)"
      using a 1 n by (auto simp: readArray_def bind_outcome_Ret_iff split: if_splits)
    then obtain ms where ms: "rs = Inr ms" "r = RedResp ArrayType (VArr ms) None"
      using a 1 n False by (cases rs) (auto simp: readArray_def)
    then show ?thesis using read_elements_shaped [OF assms] 2(2) by simp
  qed
qed

lemma bufioReadResp_shaped: "reads_shaped (bufioReadResp alloc fuel)"
proof (induction fuel)
  case (Suc fuel)
  note parts = read_lines_shaped(1-3) read_lines_shaped(4) [of alloc] readArray_shaped [OF Suc, of alloc]
  have "shaped r" if a: "bufioReadResp alloc (Suc fuel) s = Ret (Inr r, s')" for s r s'
  proof (cases s)
    case Nil
    then show ?thesis using a by simp
  next
    case (Cons c u)
    have "readSimpleStr s = Ret (Inr r, s') \<or> readError s = Ret (Inr r, s') \<or> readInt s = Ret (Inr r, s') \<or>
        readBulkStr alloc s = Ret (Inr r, s') \<or> readArray alloc (bufioReadResp alloc fuel) s = Ret (Inr r, s')"
      using a unfolding Cons bufioReadResp.simps list.case by (simp only: split: if_splits) simp_all
    then show ?thesis using parts unfolding reads_shaped_def by blast
  qed
  then show ?case unfolding reads_shaped_def by blast
qed (simp add: reads_shaped_def)

text \<open>Values that are messages themselves must be so.\<close>

fun go_shaped :: "go_value \<Rightarrow> bool" where
  "go_shaped (GResp r) \<longleftrightarrow> shaped r"
| "go_shaped (GList ms) \<longleftrightarrow> list_all go_shaped ms"
| "go_shaped (GMap kvs) \<longleftrightarrow> list_all (\<lambda>(k, v). go_shaped k \<and> go_shaped v) kvs"
| "go_shaped _ \<longleftrightarrow> True"

lemma format_value_shaped: "go_shaped v \<Longrightarrow> shaped (format_value ff fs v)"
proof (induction ff fs v rule: format_value.induct)
  case (11 ff fs kvs)
  have "shaped (format_value ff fs k) \<and> shaped (format_value ff fs v)" if "(k, v) \<in> set kvs" for k v
    using 11 that by (fastforce simp: list_all_iff)
  then show ?case by (auto simp: list_all_iff)
qed (auto simp: bulk_def list_all_iff)

section \<open>Properties\<close>

lemma ret_all_Ret: "list_all (\<lambda>x. \<exists>v. x = Ret v) xs \<Longrightarrow> \<exists>vs. ret_all xs = Ret vs"
  by (induction xs) auto

lemma shaped_prints: "shaped r \<Longrightarrow> \<exists>s. Resp_String quote r = Ret s"
proof (induction quote r rule: Resp_String.induct)
  case (1 quote t v e)
  show ?case
  proof (cases "t = ArrayType")
    case True
    then obtain kids where v: "v = VArr kids" "list_all shaped kids" using 1(2) by (cases v) auto
    then have "list_all (\<lambda>x. \<exists>s. x = Ret s) (map (Resp_String quote) kids)"
      using 1(1) True by (auto simp: list_all_iff)
    then show ?thesis using ret_all_Ret True v by fastforce
  next
    case False
    then show ?thesis using 1(2) by (cases v) (auto split: if_split_asm)
  qed
qed

text \<open>C32. Every message that is read, and every one made of a Go value, has the value its type says: printing it
  never panics, and an error is set exactly on the error types.\<close>

theorem messages_shaped:
  "(\<forall>r s'. RespReader_Read alloc s = Ret (r, s') \<longrightarrow> shaped r \<and> (\<exists>t. Resp_String quote r = Ret t)) \<and>
   (go_shaped v \<longrightarrow> shaped (format_value ff fs v) \<and> (\<exists>t. Resp_String quote (format_value ff fs v) = Ret t))"
proof (intro conjI allI impI)
  fix r s'
  assume a: "RespReader_Read alloc s = Ret (r, s')"
  obtain q s1 where 1: "bufioReadResp alloc (Suc (length s)) s = Ret (q, s1)"
    using a unfolding RespReader_Read_def by (auto simp: bind_outcome_Ret_iff simp del: bufioReadResp.simps)
  show "shaped r"
  proof (cases q)
    case (Inl e)
    then show ?thesis using a 1 by (auto simp: RespReader_Read_def simp del: bufioReadResp.simps)
  next
    case (Inr m)
    then have "shaped m" using 1 bufioReadResp_shaped [of alloc "Suc (length s)"] unfolding reads_shaped_def by blast
    then show ?thesis using a 1 Inr by (auto simp: RespReader_Read_def simp del: bufioReadResp.simps)
  qed
  then show "\<exists>t. Resp_String quote r = Ret t" by (rule shaped_prints)
next
  assume "go_shaped v"
  then show "shaped (format_value ff fs v)" by (rule format_value_shaped)
  then show "\<exists>t. Resp_String quote (format_value ff fs v) = Ret t" by (rule shaped_prints)
qed

lemma messages_shaped_witness:
  "(\<exists>r s'. RespReader_Read (\<lambda>_. True) (red_wire (VArr [RedResp BulkStr (VBytes ''a'') None, RedResp IntType (VInt 7) None]) @ ''x'') = Ret (r, s') \<and>
     shaped r \<and> (\<exists>t. Resp_String id r = Ret t)) \<and>
   (\<forall>ff. shaped (format_value ff False (GList [GInt 3, GNil])))"
proof
  let ?v = "VArr [RedResp BulkStr (VBytes ''a'') None, RedResp IntType (VInt 7) None]"
  have "bufioReadResp (\<lambda>_. True) (Suc (length (red_wire ?v @ ''x''))) (red_wire ?v @ ''x'') = Ret (Inr (read_back ?v), ''x'')"
    by (rule read_wire) (simp_all add: resp_bits in_int64_def)
  then have r: "RespReader_Read (\<lambda>_. True) (red_wire ?v @ ''x'') = Ret (read_back ?v, ''x'')"
    by (simp only: RespReader_Read_def bind_outcome.simps) simp
  then show "\<exists>r s'. RespReader_Read (\<lambda>_. True) (red_wire ?v @ ''x'') = Ret (r, s') \<and> shaped r \<and> (\<exists>t. Resp_String id r = Ret t)"
    using messages_shaped [of "\<lambda>_. True" "red_wire ?v @ ''x''" id] by blast
  have "go_shaped (GList [GInt 3, GNil])" by simp
  then show "\<forall>ff. shaped (format_value ff False (GList [GInt 3, GNil]))" using messages_shaped [of "\<lambda>_. True" "[]" id] by blast
qed

text \<open>A message of type \<open>IOErr\<close> whose error is a timeout of the network is one, and no other message is.\<close>

lemma timeout_is_io: "Resp_IsTimeout nt r \<Longrightarrow> IsType r IOErr \<and> red_Err r \<noteq> None"
  by (auto simp: Resp_IsTimeout_def split: option.splits)

end
