(* ===== verification/Log_Filter.thy ===== *)
theory Log_Filter
  imports Cluster_Run
begin

text \<open>
  The whitelist of log keys (\<open>sc/filter\<close>): the rules per key, and the routine that fetches them. The HTTP
  client, the decoding of JSON, MD5 and the rate limiter are not code of the repository: they are the fields
  of \<open>filter_env\<close>. The cluster is that of \<open>Cluster_Do\<close>, with its own \<open>Do\<close>. One turn of the routine is a
  function; the sleep between two turns and the lines it logs are not modelled. \<open>TrimSpace\<close> knows the spaces
  of ASCII. \<open>ReportKeyRateAndLen\<close> is in \<open>Log_Rates\<close>.
\<close>

section \<open>State\<close>

record 'l log_rule =
  LogKey :: bytes
  RateLimit :: int
  SamplingRate :: nat
  Expire :: int
  Length :: int
  WarningLength :: int
  ClusterNodeAddr :: bytes
  RateLimiter :: "'l option"

record 'l log_filter =
  enable :: bool
  ruleDataURL :: bytes
  ruleDataUpdateHeartBeat :: int
  ruleHTTPRequestTimeout :: int
  rateLimitRedisClusterAddr :: bytes
  RuleDataMAP :: "(bytes \<times> 'l log_rule) list"
  dataHash :: bytes

text \<open>The answer of a server: its status and its body, or the error of reading it.\<close>

record ('e, 'r, 'w, 'l) filter_env =
  fe_world :: "('e, 'r, 'w) world"
  fe_get :: "bytes \<Rightarrow> int \<Rightarrow> 'e \<Rightarrow> (go_error + (int \<times> (go_error + bytes)) option) \<times> 'e"
  fe_unmarshal :: "bytes \<Rightarrow> go_error + 'l log_rule list"
  fe_md5 :: "bytes \<Rightarrow> bytes"
  fe_new_limiter :: "bytes list \<Rightarrow> int \<Rightarrow> 'e \<Rightarrow> (go_error + 'l) \<times> 'e"

definition second :: int where "second = 1000000000"

definition GetNewFilter :: "bool \<Rightarrow> bytes \<Rightarrow> int \<Rightarrow> int \<Rightarrow> bytes \<Rightarrow> 'l log_filter" where
  "GetNewFilter en url beat timeout addr = \<lparr>enable = en, ruleDataURL = url, ruleDataUpdateHeartBeat = beat,
     ruleHTTPRequestTimeout = timeout, rateLimitRedisClusterAddr = addr, RuleDataMAP = [], dataHash = replicate 16 (CHR 0x00)\<rparr>"

definition zero_rule :: "'l log_rule" where
  "zero_rule = \<lparr>LogKey = [], RateLimit = 0, SamplingRate = 0, Expire = 0, Length = 0, WarningLength = 0,
     ClusterNodeAddr = [], RateLimiter = None\<rparr>"

section \<open>Lookups\<close>

definition GetData :: "'l log_filter \<Rightarrow> (bytes \<times> 'l log_rule) list" where
  "GetData f = RuleDataMAP f"

definition GetDataHash :: "'l log_filter \<Rightarrow> bytes" where
  "GetDataHash f = dataHash f"

definition IsExistInFilterList :: "'l log_filter \<Rightarrow> bytes \<Rightarrow> bool" where
  "IsExistInFilterList f k \<longleftrightarrow> (if \<not> enable f then True else map_of (RuleDataMAP f) k \<noteq> None)"

text \<open>Limiter, sampling rate, expiry and whether the list is too long.\<close>

definition GetFilterRule :: "'l log_filter \<Rightarrow> bytes \<Rightarrow> 'l option \<times> nat \<times> int \<times> bool" where
  "GetFilterRule f k =
     (if \<not> enable f then (None, 0, 0, False)
      else case map_of (RuleDataMAP f) k of
        None \<Rightarrow> (None, 0, 0, False)
      | Some r \<Rightarrow> (RateLimiter r, SamplingRate r, Expire r, WarningLength r \<le> Length r))"

definition is_space :: "char \<Rightarrow> bool" where
  "is_space c \<longleftrightarrow> c \<in> {CHR '' '', CHR 0x09, LF, CHR 0x0B, CHR 0x0C, CR}"

definition TrimSpace :: "bytes \<Rightarrow> bytes" where
  "TrimSpace s = rev (dropWhile is_space (rev (dropWhile is_space s)))"

definition GetMSPRateLimit :: "'l log_filter \<Rightarrow> bytes \<Rightarrow> int" where
  "GetMSPRateLimit f k =
     (if 0 < length (TrimSpace k) then
        (let data = GetData f in if 0 < length data then (case map_of data k of Some r \<Rightarrow> RateLimit r | None \<Rightarrow> -1) else -1)
      else -1)"

text \<open>The keys \<open>sc_log_1\<close> to \<open>sc_log_n\<close> over which the log \<open>sc_log\<close> is spread.\<close>

definition sc_log :: bytes where "sc_log = ''sc_log''"

definition sub_key :: "bytes \<Rightarrow> nat \<Rightarrow> bytes" where
  "sub_key k i = k @ ''_'' @ FormatInt (int i)"

definition sub_indices :: "int \<Rightarrow> nat list" where
  "sub_indices n = [1..<Suc (nat n)]"

text \<open>The body of the loop over the rules.\<close>

fun ping_entry :: "(64 word \<Rightarrow> bytes) \<Rightarrow> ('r, 'w) cluster \<Rightarrow> int \<Rightarrow> bytes \<times> 'l log_rule
    \<Rightarrow> (bytes \<times> 'l log_rule) list \<Rightarrow> (bytes \<times> 'l log_rule) list" where
  "ping_entry ff cl n (k, v) data =
     AList.update k v (if LogKey v = sc_log
       then fold (\<lambda>i data. let logKey = sub_key ''sc_log'' i in
          case GetNodeAddrByKey ff (AString logKey) cl of
            Inl _ \<Rightarrow> data
          | Inr addr \<Rightarrow> AList.update logKey (zero_rule\<lparr>LogKey := logKey, ClusterNodeAddr := addr\<rparr>) data) (sub_indices n) data
       else data)"

definition GetPingData :: "('e, 'r, 'w) world \<Rightarrow> 'l log_filter \<Rightarrow> int \<Rightarrow> ('e, 'r, 'w) cst
    \<Rightarrow> (bytes \<times> 'l log_rule) list \<times> ('e, 'r, 'w) cst" where
  "GetPingData w f n s = (case env_call (map_range w (RuleDataMAP f)) s of
     (entries, s) \<Rightarrow> (fold (ping_entry (net_float (w_net w)) (fst s) n) entries [], s))"

section \<open>The routine that fetches the rules\<close>

definition getRuleDataFromHTTP :: "('e, 'r, 'w, 'l) filter_env \<Rightarrow> bytes \<Rightarrow> int \<Rightarrow> 'e \<Rightarrow> (go_error + bytes) \<times> 'e" where
  "getRuleDataFromHTTP fe url timeout e = (case fe_get fe url timeout e of
     (Inl err, e) \<Rightarrow> (Inl err, e)
   | (Inr None, e) \<Rightarrow> (Inl (Formatted ''resp is nil''), e)
   | (Inr (Some (status, body)), e) \<Rightarrow>
       if status \<noteq> 200 then (Inl (Formatted ''HTTP request response is not 200''), e)
       else (body, e))"

definition self_rule :: "bytes \<Rightarrow> 'l log_rule" where
  "self_rule own = zero_rule\<lparr>LogKey := own, RateLimit := -1\<rparr>"

text \<open>The rules to install: those of the answer and one for the key of the proxy's own log; without an answer
  only that one, and that only when there are none yet. \<open>None\<close> skips the turn.\<close>

definition fetched_rules :: "('e, 'r, 'w, 'l) filter_env \<Rightarrow> bytes \<Rightarrow> go_error + bytes \<Rightarrow> 'l log_rule list \<Rightarrow> 'l log_rule list option" where
  "fetched_rules fe own resp rules = (case (case resp of Inl _ \<Rightarrow> None | Inr body \<Rightarrow>
        (case fe_unmarshal fe body of Inl _ \<Rightarrow> None | Inr new \<Rightarrow> Some new)) of
     Some new \<Rightarrow> Some (new @ [self_rule own])
   | None \<Rightarrow> if rules = [] then Some [self_rule own] else None)"

fun sum_lengths :: "('e, 'r, 'w) world \<Rightarrow> bytes list \<Rightarrow> int \<Rightarrow> ('e, 'r, 'w) cst \<Rightarrow> (int \<times> ('e, 'r, 'w) cst) outcome option" where
  "sum_lengths w [] acc s = Some (Ret (acc, s))"
| "sum_lengths w (k # ks) acc s = bind_run (Do w ''LLEN'' [AString k] s) (\<lambda>((r, err), s).
     let (len, e) = reply_Int64 r err; len = (if e \<noteq> None then 0 else len)
     in sum_lengths w ks (int64 (acc + len)) s)"

definition key_length :: "('e, 'r, 'w) world \<Rightarrow> int \<Rightarrow> bytes \<Rightarrow> ('e, 'r, 'w) cst \<Rightarrow> (int \<times> ('e, 'r, 'w) cst) outcome option" where
  "key_length w n k s = bind_run (Do w ''LLEN'' [AString k] s) (\<lambda>((r, err), s).
     let keyLen = fst (reply_Int64 r err)
     in if k = sc_log then sum_lengths w (map (sub_key k) (sub_indices n)) keyLen s else Some (Ret (keyLen, s)))"

definition make_limiter :: "('e, 'r, 'w, 'l) filter_env \<Rightarrow> bytes list \<Rightarrow> int \<Rightarrow> ('e, 'r, 'w) cst
    \<Rightarrow> (go_error + 'l option) \<times> ('e, 'r, 'w) cst" where
  "make_limiter fe addrs rate s =
     (if 0 \<le> rate then (case env_call (fe_new_limiter fe addrs rate) s of (l, s) \<Rightarrow> (map_sum id Some l, s)) else (Inr None, s))"

text \<open>The entry for a rule; \<open>None\<close> skips the turn.\<close>

definition build_rule :: "('e, 'r, 'w, 'l) filter_env \<Rightarrow> bytes list \<Rightarrow> int \<Rightarrow> 'l log_rule \<Rightarrow> ('e, 'r, 'w) cst
    \<Rightarrow> ('l log_rule option \<times> ('e, 'r, 'w) cst) outcome option" where
  "build_rule fe addrs n d s =
     (case GetNodeAddrByKey (net_float (w_net (fe_world fe))) (AString (LogKey d)) (fst s) of
        Inl _ \<Rightarrow> Some (Ret (None, s))
      | Inr addr \<Rightarrow> (case make_limiter fe addrs (RateLimit d) s of
          (Inl _, s) \<Rightarrow> Some (Ret (None, s))
        | (Inr limiter, s) \<Rightarrow> bind_run (key_length (fe_world fe) n (LogKey d) s) (\<lambda>(keyLen, s).
            Some (Ret (Some (d\<lparr>Length := keyLen, RateLimiter := limiter, ClusterNodeAddr := addr\<rparr>), s)))))"

fun build_rules :: "('e, 'r, 'w, 'l) filter_env \<Rightarrow> bytes list \<Rightarrow> int \<Rightarrow> 'l log_rule list \<Rightarrow> (bytes \<times> 'l log_rule) list
    \<Rightarrow> ('e, 'r, 'w) cst \<Rightarrow> ((bytes \<times> 'l log_rule) list option \<times> ('e, 'r, 'w) cst) outcome option" where
  "build_rules fe addrs n [] m s = Some (Ret (Some m, s))"
| "build_rules fe addrs n (d # ds) m s = bind_run (build_rule fe addrs n d s) (\<lambda>(r, s). case r of
     None \<Rightarrow> Some (Ret (None, s))
   | Some r \<Rightarrow> build_rules fe addrs n ds (AList.update (LogKey d) r m) s)"

text \<open>A turn: \<open>rules\<close> is what the routine keeps from turn to turn.\<close>

definition monitor_turn :: "('e, 'r, 'w, 'l) filter_env \<Rightarrow> bytes \<Rightarrow> int \<Rightarrow> 'l log_filter \<times> 'l log_rule list \<times> ('e, 'r, 'w) cst
    \<Rightarrow> ('l log_filter \<times> 'l log_rule list \<times> ('e, 'r, 'w) cst) outcome option" where
  "monitor_turn fe own n st = (case st of (f, rules, s) \<Rightarrow>
     (case env_call (getRuleDataFromHTTP fe (ruleDataURL f) (ruleHTTPRequestTimeout f * second)) s of (resp, s) \<Rightarrow>
       (case fetched_rules fe own resp rules of
          None \<Rightarrow> Some (Ret (f, rules, s))
        | Some rules \<Rightarrow>
            bind_run (build_rules fe (SplitByte (CHR '','') (rateLimitRedisClusterAddr f)) n rules [] s) (\<lambda>(m, s).
              Some (Ret (case m of
                  None \<Rightarrow> f
                | Some m \<Rightarrow> f\<lparr>RuleDataMAP := m, dataHash := fe_md5 fe (case resp of Inl _ \<Rightarrow> [] | Inr body \<Rightarrow> body)\<rparr>, rules, s))))))"

text \<open>\<open>StartRuleMonitor\<close> after \<open>k\<close> turns.\<close>

fun monitor_turns :: "('e, 'r, 'w, 'l) filter_env \<Rightarrow> bytes \<Rightarrow> int \<Rightarrow> nat \<Rightarrow> 'l log_filter \<times> 'l log_rule list \<times> ('e, 'r, 'w) cst
    \<Rightarrow> ('l log_filter \<times> 'l log_rule list \<times> ('e, 'r, 'w) cst) outcome option" where
  "monitor_turns fe own n 0 st = Some (Ret st)"
| "monitor_turns fe own n (Suc k) st = bind_run (monitor_turn fe own n st) (monitor_turns fe own n k)"

definition StartRuleMonitor :: "('e, 'r, 'w, 'l) filter_env \<Rightarrow> bytes \<Rightarrow> int \<Rightarrow> nat \<Rightarrow> 'l log_filter \<Rightarrow> ('e, 'r, 'w) cst
    \<Rightarrow> ('l log_filter \<times> 'l log_rule list \<times> ('e, 'r, 'w) cst) outcome option" where
  "StartRuleMonitor fe own n k f s =
     (if \<not> enable f then Some (Ret (f, [], s)) else monitor_turns fe own n k (f, [], s))"

section \<open>The rules that are installed\<close>

text \<open>A rule of the map stands under its own key, and has a limiter exactly when it has a limit.\<close>

definition rule_ok :: "bytes \<Rightarrow> 'l log_rule \<Rightarrow> bool" where
  "rule_ok k r \<longleftrightarrow> LogKey r = k \<and> (RateLimiter r = None \<longleftrightarrow> RateLimit r < 0)"

definition rules_ok :: "(bytes \<times> 'l log_rule) list \<Rightarrow> bool" where
  "rules_ok m \<longleftrightarrow> (\<forall>k r. map_of m k = Some r \<longrightarrow> rule_ok k r)"

lemma build_rule_ok:
  assumes "build_rule fe addrs n d s = Some (Ret (Some r, s'))"
  shows "rule_ok (LogKey d) r \<and> WarningLength r = WarningLength d \<and> RateLimit r = RateLimit d \<and> SamplingRate r = SamplingRate d"
proof -
  obtain addr where a: "GetNodeAddrByKey (net_float (w_net (fe_world fe))) (AString (LogKey d)) (fst s) = Inr addr"
    using assms by (auto simp: build_rule_def split: sum.splits)
  obtain l s1 where l: "make_limiter fe addrs (RateLimit d) s = (Inr l, s1)"
    using assms a by (auto simp: build_rule_def split: sum.splits prod.splits)
  have "bind_run (key_length (fe_world fe) n (LogKey d) s1) (\<lambda>(keyLen, s).
      Some (Ret (Some (d\<lparr>Length := keyLen, RateLimiter := l, ClusterNodeAddr := addr\<rparr>), s))) = Some (Ret (Some r, s'))"
    using assms a l by (simp add: build_rule_def)
  then obtain x where "(case x of (keyLen, s) \<Rightarrow> Some (Ret (Some (d\<lparr>Length := keyLen, RateLimiter := l, ClusterNodeAddr := addr\<rparr>), s)))
      = Some (Ret (Some r, s'))"
    by (rule bind_run_Ret)
  then have "r = d\<lparr>Length := fst x, RateLimiter := l, ClusterNodeAddr := addr\<rparr>" by (cases x) simp
  moreover have "l = None \<longleftrightarrow> RateLimit d < 0"
    using l by (auto simp: make_limiter_def split: if_splits prod.splits) (metis map_sum.simps sum.exhaust sum.inject(2) sum.simps(4) option.distinct(1))
  ultimately show ?thesis by (simp add: rule_ok_def)
qed

lemma build_rules_ok:
  "build_rules fe addrs n ds m s = Some (Ret (Some m', s')) \<Longrightarrow> rules_ok m \<Longrightarrow>
     rules_ok m' \<and> dom (map_of m') = dom (map_of m) \<union> LogKey ` set ds"
proof (induction ds arbitrary: m s)
  case (Cons d ds)
  obtain x where x: "build_rule fe addrs n d s = Some (Ret x)"
    "(case x of (r, s) \<Rightarrow> case r of None \<Rightarrow> Some (Ret (None, s)) | Some r \<Rightarrow> build_rules fe addrs n ds (AList.update (LogKey d) r m) s)
      = Some (Ret (Some m', s'))"
    using Cons.prems(1) by (auto elim!: bind_run_Ret)
  obtain r s1 where r: "x = (Some r, s1)" using x(2) by (cases x; cases "fst x") auto
  have ok: "rule_ok (LogKey d) r" using build_rule_ok x(1) r by blast
  let ?m = "AList.update (LogKey d) r m"
  have "rules_ok ?m" using Cons.prems(2) ok by (simp add: rules_ok_def update_conv')
  then have "rules_ok m' \<and> dom (map_of m') = dom (map_of ?m) \<union> LogKey ` set ds"
    using Cons.IH [of ?m s1] x(2) r by simp
  then show ?case by (simp add: update_conv')
qed simp

lemma build_rules_last:
  assumes "build_rules fe addrs n (ds @ [d]) m s = Some (Ret (Some m', s'))"
  shows "\<exists>r. map_of m' (LogKey d) = Some r \<and> WarningLength r = WarningLength d \<and> RateLimit r = RateLimit d \<and> SamplingRate r = SamplingRate d"
  using assms
proof (induction ds arbitrary: m s)
  case Nil
  then obtain x where x: "build_rule fe addrs n d s = Some (Ret x)"
    "(case x of (r, s) \<Rightarrow> case r of None \<Rightarrow> Some (Ret (None, s)) | Some r \<Rightarrow> build_rules fe addrs n [] (AList.update (LogKey d) r m) s)
      = Some (Ret (Some m', s'))"
    by (auto simp del: build_rules.simps(1) elim!: bind_run_Ret)
  obtain r s1 where r: "x = (Some r, s1)" using x(2) by (cases x; cases "fst x") auto
  then have "m' = AList.update (LogKey d) r m" using x(2) by simp
  then show ?case using build_rule_ok [OF x(1) [unfolded r]] by (simp add: update_conv')
next
  case (Cons c ds)
  then obtain x where x: "build_rule fe addrs n c s = Some (Ret x)"
    "(case x of (r, s) \<Rightarrow> case r of None \<Rightarrow> Some (Ret (None, s)) | Some r \<Rightarrow> build_rules fe addrs n (ds @ [d]) (AList.update (LogKey c) r m) s)
      = Some (Ret (Some m', s'))"
    by (auto elim!: bind_run_Ret)
  then obtain r s1 where "x = (Some r, s1)" by (cases x; cases "fst x") auto
  then show ?case using x(2) Cons.IH by simp
qed

text \<open>What a turn does.\<close>

lemma monitor_turn_cases:
  assumes "monitor_turn fe own n (f, rules, s) = Some (Ret (f', rules', s'))"
  shows "f' = f \<or> (\<exists>m h ds addrs s1 s2. rules' = ds @ [self_rule own] \<and> f' = f\<lparr>RuleDataMAP := m, dataHash := h\<rparr> \<and>
    build_rules fe addrs n rules' [] s1 = Some (Ret (Some m, s2)))"
proof -
  obtain resp s1 where g: "env_call (getRuleDataFromHTTP fe (ruleDataURL f) (ruleHTTPRequestTimeout f * second)) s = (resp, s1)"
    by (metis surj_pair)
  show ?thesis
  proof (cases "fetched_rules fe own resp rules")
    case None
    then show ?thesis using assms g by (simp add: monitor_turn_def)
  next
    case (Some new)
    let ?addrs = "SplitByte (CHR '','') (rateLimitRedisClusterAddr f)"
    obtain x where x: "build_rules fe ?addrs n new [] s1 = Some (Ret x)"
      "(case x of (m, s) \<Rightarrow> Some (Ret (case m of None \<Rightarrow> f
        | Some m \<Rightarrow> f\<lparr>RuleDataMAP := m, dataHash := fe_md5 fe (case resp of Inl _ \<Rightarrow> [] | Inr body \<Rightarrow> body)\<rparr>, new, s))) = Some (Ret (f', rules', s'))"
      using assms g Some by (auto simp: monitor_turn_def elim!: bind_run_Ret)
    have last: "\<exists>ds. new = ds @ [self_rule own]"
      using Some by (auto simp: fetched_rules_def split: sum.splits option.splits if_splits)
    show ?thesis
    proof -
      obtain m s2 where x': "x = (m, s2)" by (cases x)
      show ?thesis
      proof (cases m)
        case None
        then show ?thesis using x x' by simp
      next
        case (Some a)
        then have "rules' = new" "\<exists>h. f' = f\<lparr>RuleDataMAP := a, dataHash := h\<rparr>"
          "build_rules fe ?addrs n new [] s1 = Some (Ret (Some a, s2))"
          using x x' by auto
        then show ?thesis using last by blast
      qed
    qed
  qed
qed

lemma monitor_turns_inv:
  assumes step: "\<And>f rules s f' rules' s'. P f \<Longrightarrow> monitor_turn fe own n (f, rules, s) = Some (Ret (f', rules', s')) \<Longrightarrow> P f'"
  shows "monitor_turns fe own n k (f, rules, s) = Some (Ret (f', rules', s')) \<Longrightarrow> P f \<Longrightarrow> P f'"
proof (induction k arbitrary: f rules s)
  case (Suc k)
  then obtain x where x: "monitor_turn fe own n (f, rules, s) = Some (Ret x)"
    "monitor_turns fe own n k x = Some (Ret (f', rules', s'))"
    by (auto elim!: bind_run_Ret)
  obtain f1 rules1 s1 where x1: "x = (f1, rules1, s1)" by (metis surj_pair)
  have "P f1" using step [OF Suc.prems(2)] x(1) x1 by blast
  then show ?case using Suc.IH x(2) x1 by blast
qed simp

text \<open>\<open>own\<close> is the key of the proxy's log: it is in the map as soon as the map has anything.\<close>

definition filter_inv :: "bytes \<Rightarrow> 'l log_filter \<Rightarrow> bool" where
  "filter_inv own f \<longleftrightarrow> rules_ok (RuleDataMAP f) \<and>
     (RuleDataMAP f = [] \<or> (\<exists>r. map_of (RuleDataMAP f) own = Some r \<and> WarningLength r = 0 \<and> RateLimit r = -1 \<and> SamplingRate r = 0))"

lemma monitor_turn_inv:
  assumes "filter_inv own f" "monitor_turn fe own n (f, rules, s) = Some (Ret (f', rules', s'))"
  shows "filter_inv own f' \<and> enable f' = enable f"
  using monitor_turn_cases [OF assms(2)]
proof
  assume "f' = f"
  then show ?thesis using assms(1) by simp
next
  assume "\<exists>m h ds addrs s1 s2. rules' = ds @ [self_rule own] \<and> f' = f\<lparr>RuleDataMAP := m, dataHash := h\<rparr> \<and>
    build_rules fe addrs n rules' [] s1 = Some (Ret (Some m, s2))"
  then obtain m h ds addrs s1 s2 where m: "f' = f\<lparr>RuleDataMAP := m, dataHash := h\<rparr>"
    "build_rules fe addrs n (ds @ [self_rule own]) [] s1 = Some (Ret (Some m, s2))"
    by blast
  have "rules_ok m" using build_rules_ok [OF m(2)] by (simp add: rules_ok_def)
  moreover have "\<exists>r. map_of m own = Some r \<and> WarningLength r = 0 \<and> RateLimit r = -1 \<and> SamplingRate r = 0"
    using build_rules_last [OF m(2)] by (simp add: self_rule_def zero_rule_def)
  ultimately show ?thesis using m(1) by (simp add: filter_inv_def)
qed

section \<open>A sample\<close>

text \<open>The cluster of \<open>Cluster_Run\<close> whose server gives every command the reply \<open>r\<close>.\<close>

lemma Do_pair:
  assumes "checkReply r = kRespOK" "sendable_reply r" "sendable (\<lambda>_. ''0'') cmd (AString k # args)"
    "cmd \<notin> {''MSET'', ''MSETNX'', ''MGET'', ''RPUSH''}"
  shows "\<exists>e'. Do (routing_world (\<lambda>_. r)) cmd (AString k # args) (pair_cluster, e) = Some (Ret ((r, None), (pair_cluster, e')))"
proof -
  obtain e' where c: "node_call 0 (node_do (w_net (routing_world (\<lambda>_. r))) cmd (AString k # args)) (pair_cluster, e) = ((r, None), (pair_cluster, e'))"
    using pair_call [of 0 "\<lambda>_. r" cmd "AString k # args" e] assms(2,3) by auto
  have n: "getNodeByKey (net_float (w_net (routing_world (\<lambda>_. r)))) (AString k) pair_cluster = Inr 0"
    by (simp add: getNodeByKey_def key_def pair_cluster_def sample_cluster_inv(2))
  show ?thesis
    using assms(1,4) c n by (simp add: Do_def bind_run_def follow_def finish_reply_def)
qed

definition sample_filter_env :: "(int \<times> nat list, breader, bwriter, nat) filter_env" where
  "sample_filter_env = \<lparr>fe_world = routing_world (\<lambda>_. RInt 3), fe_get = (\<lambda>_ _ e. (Inr (Some (200, Inr ''rules'')), e)),
     fe_unmarshal = (\<lambda>_. Inr [zero_rule\<lparr>LogKey := ''k'', RateLimit := 5\<rparr>]), fe_md5 = (\<lambda>_. ''h''),
     fe_new_limiter = (\<lambda>_ _ e. (Inr 1, e))\<rparr>"

lemma sample_build:
  assumes "k \<noteq> sc_log" "small (length k)"
  shows "\<exists>e' l. build_rule sample_filter_env addrs n (d\<lparr>LogKey := k\<rparr>) (pair_cluster, e) =
    Some (Ret (Some (d\<lparr>LogKey := k, Length := 3, RateLimiter := l, ClusterNodeAddr := ''a''\<rparr>), (pair_cluster, e')))"
proof -
  have g: "GetNodeAddrByKey ff (AString k) pair_cluster = Inr ''a''" for ff
    by (simp add: GetNodeAddrByKey_def key_def pair_cluster_def sample_cluster_inv(2) short_lived_def)
  have w: "fe_world sample_filter_env = routing_world (\<lambda>_. RInt 3)" by (simp add: sample_filter_env_def)
  obtain e1 where e1: "Do (routing_world (\<lambda>_. RInt 3)) ''LLEN'' [AString k] (pair_cluster, e) =
      Some (Ret ((RInt 3, None), (pair_cluster, e1)))"
    using Do_pair [of "RInt 3" "''LLEN''" k "[]" e] assms(2)
    by (auto simp: checkReply_def in_int64_def sendable_def small_def arg_bytes_def)
  have "key_length (routing_world (\<lambda>_. RInt 3)) n k (pair_cluster, e) = Some (Ret (3, (pair_cluster, e1)))"
    using e1 assms(1) by (simp add: key_length_def bind_run_def reply_Int64_def)
  moreover have "make_limiter sample_filter_env addrs (RateLimit d) (pair_cluster, e) = (Inr (if 0 \<le> RateLimit d then Some 1 else None), (pair_cluster, e))"
    by (simp add: make_limiter_def env_call_def sample_filter_env_def)
  ultimately show ?thesis using g w by (simp add: build_rule_def bind_run_def) blast
qed

lemma sample_turn:
  "\<exists>f s. StartRuleMonitor sample_filter_env ''own'' 0 1 (GetNewFilter True ''url'' 5 1 []) (pair_cluster, e) = Some (Ret (f, s)) \<and>
     IsExistInFilterList f ''k'' \<and> map_option Length (map_of (RuleDataMAP f) ''own'') = Some 3 \<and>
     monitor_turn sample_filter_env ''own'' 0 (GetNewFilter True ''url'' 5 1 [], [], (pair_cluster, e)) = Some (Ret (f, s))"
proof -
  let ?d1 = "zero_rule\<lparr>LogKey := ''k'', RateLimit := 5\<rparr>" and ?d2 = "self_rule ''own''"
  obtain e1 l1 where 1: "build_rule sample_filter_env [[]] 0 ?d1 (pair_cluster, e) =
      Some (Ret (Some (?d1\<lparr>Length := 3, RateLimiter := l1, ClusterNodeAddr := ''a''\<rparr>), (pair_cluster, e1)))"
    using sample_build [of "''k''" "[[]]" 0 "zero_rule\<lparr>RateLimit := 5\<rparr>" e] by (auto simp: sc_log_def small_def zero_rule_def)
  obtain e2 l2 where 2: "build_rule sample_filter_env [[]] 0 ?d2 (pair_cluster, e1) =
      Some (Ret (Some (?d2\<lparr>Length := 3, RateLimiter := l2, ClusterNodeAddr := ''a''\<rparr>), (pair_cluster, e2)))"
    using sample_build [of "''own''" "[[]]" 0 "zero_rule\<lparr>RateLimit := -1\<rparr>" e1] by (auto simp: sc_log_def small_def zero_rule_def self_rule_def)
  have f: "fetched_rules sample_filter_env ''own'' (Inr ''rules'') [] = Some [?d1, ?d2]"
    by (simp add: fetched_rules_def sample_filter_env_def)
  have g: "env_call (getRuleDataFromHTTP sample_filter_env u t) (pair_cluster, e) = (Inr ''rules'', (pair_cluster, e))" for u t
    by (simp add: env_call_def getRuleDataFromHTTP_def sample_filter_env_def)
  let ?m = "[(''k'', ?d1\<lparr>Length := 3, RateLimiter := l1, ClusterNodeAddr := ''a''\<rparr>), (''own'', ?d2\<lparr>Length := 3, RateLimiter := l2, ClusterNodeAddr := ''a''\<rparr>)]"
  have b: "build_rules sample_filter_env [[]] 0 [?d1, ?d2] [] (pair_cluster, e) = Some (Ret (Some ?m, (pair_cluster, e2)))"
    using 1 2 by (simp add: bind_run_def self_rule_def)
  let ?f0 = "GetNewFilter True ''url'' 5 1 []"
  have t: "monitor_turn sample_filter_env ''own'' 0 (?f0, [], (pair_cluster, e)) =
      Some (Ret (?f0\<lparr>RuleDataMAP := ?m, dataHash := ''h''\<rparr>, [?d1, ?d2], (pair_cluster, e2)))"
    using b f g by (simp add: monitor_turn_def bind_run_def GetNewFilter_def) (simp add: sample_filter_env_def)
  then have "StartRuleMonitor sample_filter_env ''own'' 0 1 ?f0 (pair_cluster, e) =
      Some (Ret (?f0\<lparr>RuleDataMAP := ?m, dataHash := ''h''\<rparr>, [?d1, ?d2], (pair_cluster, e2)))"
    by (simp add: StartRuleMonitor_def bind_run_def GetNewFilter_def)
  then show ?thesis using t
    by (intro exI [of _ "?f0\<lparr>RuleDataMAP := ?m, dataHash := ''h''\<rparr>"] exI [of _ "([?d1, ?d2], (pair_cluster, e2))"])
      (simp add: IsExistInFilterList_def self_rule_def)
qed

section \<open>Properties\<close>

text \<open>C15. After any number of turns of the routine, whatever the answers of the server were, every rule stands under
  its own key and has a limiter exactly when it has a limit; and as long as any key is admitted, so is the key of
  the proxy's own log.\<close>

theorem filter_monitored:
  assumes "StartRuleMonitor fe own n k (GetNewFilter True url beat timeout addr) s = Some (Ret (f, rules, s'))"
  shows "(\<forall>key r. map_of (GetData f) key = Some r \<longrightarrow> LogKey r = key \<and> (RateLimiter r \<noteq> None \<longleftrightarrow> 0 \<le> RateLimit r)) \<and>
    ((\<exists>key. IsExistInFilterList f key) \<longrightarrow> IsExistInFilterList f own)"
proof -
  have m: "monitor_turns fe own n k (GetNewFilter True url beat timeout addr, [], s) = Some (Ret (f, rules, s'))"
    using assms by (simp add: StartRuleMonitor_def GetNewFilter_def)
  have "filter_inv own f \<and> enable f"
    by (rule monitor_turns_inv [where P = "\<lambda>f. filter_inv own f \<and> enable f", OF _ m])
      (use monitor_turn_inv in \<open>blast, simp add: filter_inv_def rules_ok_def GetNewFilter_def\<close>)
  then show ?thesis by (auto simp: filter_inv_def rules_ok_def rule_ok_def GetData_def IsExistInFilterList_def)
qed

lemma filter_monitored_witness:
  "\<exists>f s. StartRuleMonitor sample_filter_env ''own'' 0 1 (GetNewFilter True ''url'' 5 1 []) (pair_cluster, (5, [])) = Some (Ret (f, s)) \<and>
     IsExistInFilterList f ''k'' \<and> IsExistInFilterList f ''own''"
proof -
  obtain f s where t: "StartRuleMonitor sample_filter_env ''own'' 0 1 (GetNewFilter True ''url'' 5 1 []) (pair_cluster, (5, [])) = Some (Ret (f, s))"
    "IsExistInFilterList f ''k''"
    using sample_turn [of "(5, [])"] by blast
  obtain rules s' where s: "s = (rules, s')" by (metis surj_pair)
  show ?thesis using filter_monitored [OF t(1) [unfolded s]] t by blast
qed

text \<open>A turn that installs rules admits exactly the keys it fetched and the proxy's own; a turn that fails, at
  the server, in its answer or at the cluster, leaves the filter as it was.\<close>

theorem monitor_turn_installs:
  assumes "monitor_turn fe own n (f, rules, s) = Some (Ret (f', rules', s'))" "enable f"
  shows "f' = f \<or> (own \<in> LogKey ` set rules' \<and> (\<forall>key. IsExistInFilterList f' key \<longleftrightarrow> key \<in> LogKey ` set rules'))"
  using monitor_turn_cases [OF assms(1)]
proof
  assume "\<exists>m h ds addrs s1 s2. rules' = ds @ [self_rule own] \<and> f' = f\<lparr>RuleDataMAP := m, dataHash := h\<rparr> \<and>
    build_rules fe addrs n rules' [] s1 = Some (Ret (Some m, s2))"
  then obtain m h ds addrs s1 s2 where m: "rules' = ds @ [self_rule own]" "f' = f\<lparr>RuleDataMAP := m, dataHash := h\<rparr>"
    "build_rules fe addrs n rules' [] s1 = Some (Ret (Some m, s2))"
    by blast
  have "dom (map_of m) = LogKey ` set rules'" using build_rules_ok [OF m(3)] by (simp add: rules_ok_def)
  then have "IsExistInFilterList f' key \<longleftrightarrow> key \<in> LogKey ` set rules'" for key
    using m(2) assms(2) by (auto simp: IsExistInFilterList_def)
  moreover have "own \<in> LogKey ` set rules'" using m(1) by (simp add: self_rule_def)
  ultimately show ?thesis by blast
qed simp

lemma monitor_turn_installs_witness:
  "\<exists>f rules s. monitor_turn sample_filter_env ''own'' 0 (GetNewFilter True ''url'' 5 1 [], [], (pair_cluster, (5, []))) = Some (Ret (f, rules, s)) \<and>
     ''k'' \<in> LogKey ` set rules"
proof -
  obtain f s where t: "monitor_turn sample_filter_env ''own'' 0 (GetNewFilter True ''url'' 5 1 [], [], (pair_cluster, (5, []))) = Some (Ret (f, s))"
    "IsExistInFilterList f ''k''"
    using sample_turn [of "(5, [])"] by blast
  obtain rules s' where s: "s = (rules, s')" by (metis surj_pair)
  have "\<not> IsExistInFilterList (GetNewFilter True ''url'' 5 1 []) ''k''" by (simp add: IsExistInFilterList_def GetNewFilter_def)
  then have "f \<noteq> GetNewFilter True ''url'' 5 1 []" using t(2) by blast
  moreover have "enable (GetNewFilter True ''url'' 5 1 [])" by (simp add: GetNewFilter_def)
  ultimately have "''k'' \<in> LogKey ` set rules" using monitor_turn_installs [OF t(1) [unfolded s]] t(2) by blast
  then show ?thesis using t(1) s by blast
qed

end
