(* ===== verification/Log_Metrics.thy ===== *)
theory Log_Metrics
  imports Log_Filter
begin

text \<open>
  Alerts and counters of the log proxy: \<open>sc/event\<close> and \<open>sc/alter\<close>, which push an event to a list of the
  cluster, and \<open>sc/metrics\<close>, which counts commands per key and reports them. JSON and the influx client are
  parameters; the client of the events is the one the program sets up before it serves. A turn of a reporting
  routine is a function, without its sleep and its log lines.
\<close>

section \<open>Alerts\<close>

definition MSP_EVENT :: bytes where "MSP_EVENT = ''msp:event_msg''"
definition EVENT_TYPE_LOG :: bytes where "EVENT_TYPE_LOG = ''log''"
definition LOG_RATE_LIMIT :: int where "LOG_RATE_LIMIT = 1"
definition LOG_KEY_NOTIN_WHITE_LIST :: int where "LOG_KEY_NOTIN_WHITE_LIST = 2"
definition LOG_KEY_LENGTH_WARNING :: int where "LOG_KEY_LENGTH_WARNING = 3"

record log_alert =
  EventType :: int
  EventTime :: int
  al_LogKey :: bytes
  RateThreshold :: int
  al_WarningLength :: int
  CurrentLength :: int

type_synonym marshal_event = "bytes \<Rightarrow> int \<Rightarrow> log_alert \<Rightarrow> go_error + bytes"

text \<open>\<open>time.Now().UnixNano() / 1e6\<close>\<close>

definition now_millis :: "('e, 'r, 'w) world \<Rightarrow> ('e, 'r, 'w) cst \<Rightarrow> int \<times> ('e, 'r, 'w) cst" where
  "now_millis w s = (case env_call (net_now (w_net w)) s of (t, s) \<Rightarrow> (t div 1000000, s))"

definition Report :: "('e, 'r, 'w) world \<Rightarrow> marshal_event \<Rightarrow> bytes \<Rightarrow> log_alert \<Rightarrow> ('e, 'r, 'w) cst \<Rightarrow> ('e, 'r, 'w) cst outcome option" where
  "Report w js ty body s = (case now_millis w s of (t, s) \<Rightarrow> (case js ty t body of
     Inl _ \<Rightarrow> Some (Ret s)
   | Inr b \<Rightarrow> bind_run (Do w ''LPUSH'' [AString MSP_EVENT, ABytes b] s) (\<lambda>(_, s). Some (Ret s))))"

definition LogAlert :: "('e, 'r, 'w) world \<Rightarrow> marshal_event \<Rightarrow> log_alert \<Rightarrow> ('e, 'r, 'w) cst \<Rightarrow> ('e, 'r, 'w) cst outcome option" where
  "LogAlert w js rs s = Report w js EVENT_TYPE_LOG rs s"

section \<open>Counters\<close>

record reporter_unit =
  ru_LogKey :: bytes
  RpushCount :: "64 word"
  RpushLastTime :: "int option"
  LpopCount :: "64 word"
  LpopLastTime :: "int option"
  ru_Length :: int

type_synonym reporter = "(bytes \<times> reporter_unit) list"

definition NewReporter :: reporter where "NewReporter = []"

definition zero_unit :: reporter_unit where
  "zero_unit = \<lparr>ru_LogKey = [], RpushCount = 0, RpushLastTime = None, LpopCount = 0, LpopLastTime = None, ru_Length = 0\<rparr>"

definition unit_of :: "reporter \<Rightarrow> bytes \<Rightarrow> reporter_unit" where
  "unit_of rep k = (case map_of rep k of Some u \<Rightarrow> u | None \<Rightarrow> zero_unit)"

definition Reporter_GetData :: "reporter \<Rightarrow> reporter" where
  "Reporter_GetData rep = rep"

definition AddRpushCommand :: "int \<Rightarrow> bytes \<Rightarrow> reporter \<Rightarrow> reporter" where
  "AddRpushCommand now k rep = (let u = unit_of rep k in
     AList.update k (u\<lparr>RpushCount := RpushCount u + 1, RpushLastTime := Some now\<rparr>) rep)"

fun Contains :: "bytes \<Rightarrow> bytes \<Rightarrow> bool" where
  "Contains [] p \<longleftrightarrow> HasPrefix [] p"
| "Contains (c # cs) p \<longleftrightarrow> HasPrefix (c # cs) p \<or> Contains cs p"

text \<open>The keys over which \<open>sc_log\<close> is spread are counted as one.\<close>

definition lpop_key :: "bytes \<Rightarrow> bytes" where
  "lpop_key k = (if Contains k sc_log then sc_log else k)"

definition AddLpopCommand :: "int \<Rightarrow> bytes \<Rightarrow> reporter \<Rightarrow> reporter" where
  "AddLpopCommand now k rep = (let k = lpop_key k; u = unit_of rep k in
     AList.update k (u\<lparr>LpopCount := LpopCount u + 1, LpopLastTime := Some now\<rparr>) rep)"

text \<open>A turn of \<open>ClearKey\<close>.\<close>

definition ClearKey :: "'l log_filter \<Rightarrow> reporter \<Rightarrow> reporter" where
  "ClearKey f rep =
     (let reporterUnit = Reporter_GetData rep in
      if length reporterUnit = 0 then rep
      else let filterRule = GetData f; keys = filter (\<lambda>k. map_of filterRule k = None) (map fst reporterUnit)
           in fold AList.delete keys rep)"

text \<open>The warning length that applies, and the unit with what its rule says.\<close>

definition warning_length :: "'l log_rule \<Rightarrow> int" where
  "warning_length r = (if WarningLength r = 0 then 1000 else WarningLength r)"

text \<open>An entry of the report, with its alert.\<close>

definition report_entry :: "('e, 'r, 'w) world \<Rightarrow> marshal_event \<Rightarrow> 'l log_filter \<Rightarrow> bytes \<times> reporter_unit \<Rightarrow> ('e, 'r, 'w) cst
    \<Rightarrow> (reporter_unit \<times> ('e, 'r, 'w) cst) outcome option" where
  "report_entry w js f entry s = (case entry of (k, u) \<Rightarrow>
     let u = u\<lparr>ru_LogKey := k\<rparr> in
     (case map_of (GetData f) k of
        None \<Rightarrow> Some (Ret (u, s))
      | Some r \<Rightarrow>
          let u = u\<lparr>ru_Length := Length r\<rparr> in
          if warning_length r \<le> ru_Length u then
            (case now_millis w s of (t, s) \<Rightarrow>
               bind_run (LogAlert w js \<lparr>EventType = LOG_KEY_LENGTH_WARNING, EventTime = t, al_LogKey = k, RateThreshold = 0,
                   al_WarningLength = warning_length r, CurrentLength = ru_Length u\<rparr> s) (\<lambda>s. Some (Ret (u, s))))
          else Some (Ret (u, s))))"

fun report_entries :: "('e, 'r, 'w) world \<Rightarrow> marshal_event \<Rightarrow> 'l log_filter \<Rightarrow> reporter \<Rightarrow> ('e, 'r, 'w) cst
    \<Rightarrow> (reporter_unit list \<times> ('e, 'r, 'w) cst) outcome option" where
  "report_entries w js f [] s = Some (Ret ([], s))"
| "report_entries w js f (x # xs) s = bind_run (report_entry w js f x s) (\<lambda>(u, s).
     bind_run (report_entries w js f xs s) (\<lambda>(us, s). Some (Ret (u # us, s))))"

text \<open>A turn of \<open>ReportData\<close>: alerts go to the cluster \<open>s\<close>, the report is pushed to the log cluster \<open>ls\<close> by a
  goroutine, here at once.\<close>

definition ReportData :: "('e, 'r, 'w) world \<Rightarrow> marshal_event \<Rightarrow> (reporter_unit list \<Rightarrow> bytes) \<Rightarrow> 'l log_filter \<Rightarrow> reporter
    \<Rightarrow> ('e, 'r, 'w) cst \<times> ('e, 'r, 'w) cst \<Rightarrow> (('e, 'r, 'w) cst \<times> ('e, 'r, 'w) cst) outcome option" where
  "ReportData w js jr f rep st = (case st of (s, ls) \<Rightarrow>
     if length (Reporter_GetData rep) = 0 then Some (Ret (s, ls))
     else case env_call (map_range w (Reporter_GetData rep)) s of (entries, s) \<Rightarrow>
       bind_run (report_entries w js f entries s) (\<lambda>(us, s).
         bind_run (Do w ''LPUSH'' [AString ''msp:log_metrics'', ABytes (jr us)] ls) (\<lambda>(_, ls). Some (Ret (s, ls)))))"

section \<open>The influx reporter\<close>

text \<open>The client: a point from tags and fields (key, counters, length, warning length), writing a batch, closing
  idle connections.\<close>

record ('p, 'x) influx =
  ix_point :: "bytes \<Rightarrow> reporter_unit \<Rightarrow> int \<Rightarrow> 'x \<Rightarrow> (go_error + 'p) \<times> 'x"
  ix_write :: "'p list \<Rightarrow> 'x \<Rightarrow> go_error option \<times> 'x"
  ix_close :: "'x \<Rightarrow> go_error option \<times> 'x"

text \<open>The unit and the warning length of a key; no rule gives 0.\<close>

definition metric_fields :: "'l log_filter \<Rightarrow> bytes \<Rightarrow> reporter_unit \<Rightarrow> reporter_unit \<times> int" where
  "metric_fields f k u = (case map_of (GetData f) k of
     None \<Rightarrow> (u, 0)
   | Some r \<Rightarrow> (u\<lparr>ru_Length := Length r\<rparr>, warning_length r))"

definition add_point :: "('p, 'x) influx \<Rightarrow> 'p \<Rightarrow> 'p list \<times> 'x \<Rightarrow> 'p list \<times> 'x" where
  "add_point ix p st = (case st of (bp, x) \<Rightarrow>
     let bp = bp @ [p] in
     if 10 \<le> length bp then ([], snd (ix_close ix (snd (ix_write ix bp x)))) else (bp, x))"

fun metrics_entries :: "('p, 'x) influx \<Rightarrow> 'l log_filter \<Rightarrow> reporter \<Rightarrow> 'p list \<times> 'x \<Rightarrow> 'p list \<times> 'x" where
  "metrics_entries ix f [] st = st"
| "metrics_entries ix f ((k, u) # es) (bp, x) = (case metric_fields f k u of (u, wl) \<Rightarrow>
     (case ix_point ix k u wl x of
        (Inl _, x) \<Rightarrow> metrics_entries ix f es (bp, x)
      | (Inr p, x) \<Rightarrow> metrics_entries ix f es (add_point ix p (bp, x))))"

text \<open>A turn of \<open>ReportMetrics\<close>, the entries in the order the loop visits them.\<close>

definition ReportMetrics :: "('p, 'x) influx \<Rightarrow> 'l log_filter \<Rightarrow> reporter \<Rightarrow> 'p list \<times> 'x \<Rightarrow> 'p list \<times> 'x" where
  "ReportMetrics ix f entries st = (if length entries = 0 then st else metrics_entries ix f entries st)"

section \<open>Counting\<close>

datatype rep_event = EvRpush int bytes | EvLpop int bytes

fun rep_step :: "rep_event \<Rightarrow> reporter \<Rightarrow> reporter" where
  "rep_step (EvRpush t k) rep = AddRpushCommand t k rep"
| "rep_step (EvLpop t k) rep = AddLpopCommand t k rep"

definition pushes :: "bytes \<Rightarrow> rep_event list \<Rightarrow> nat" where
  "pushes k evs = length (filter (\<lambda>ev. case ev of EvRpush _ j \<Rightarrow> j = k | _ \<Rightarrow> False) evs)"

definition pops :: "bytes \<Rightarrow> rep_event list \<Rightarrow> nat" where
  "pops k evs = length (filter (\<lambda>ev. case ev of EvLpop _ j \<Rightarrow> lpop_key j = k | _ \<Rightarrow> False) evs)"

lemma unit_of_update: "unit_of (AList.update k u rep) j = (if j = k then u else unit_of rep j)"
  by (simp add: unit_of_def update_conv')

lemma rep_step_counts:
  "RpushCount (unit_of (rep_step ev rep) k) = RpushCount (unit_of rep k) + of_nat (pushes k [ev])"
  "LpopCount (unit_of (rep_step ev rep) k) = LpopCount (unit_of rep k) + of_nat (pops k [ev])"
  by (cases ev; simp add: AddRpushCommand_def AddLpopCommand_def Let_def unit_of_update pushes_def pops_def)+

lemma pushes_Cons: "pushes k (ev # evs) = pushes k [ev] + pushes k evs" "pops k (ev # evs) = pops k [ev] + pops k evs"
  by (simp_all add: pushes_def pops_def)

lemma rep_counts:
  "RpushCount (unit_of (fold rep_step evs rep) k) = RpushCount (unit_of rep k) + of_nat (pushes k evs) \<and>
   LpopCount (unit_of (fold rep_step evs rep) k) = LpopCount (unit_of rep k) + of_nat (pops k evs)"
proof (induction evs arbitrary: rep)
  case Nil
  then show ?case by (simp add: pushes_def pops_def)
next
  case (Cons ev evs)
  then show ?case
    using rep_step_counts [of ev rep k] pushes_Cons [of k ev evs] by simp
qed

lemma map_of_delete_all: "map_of (fold AList.delete ks m) = (\<lambda>k. if k \<in> set ks then None else map_of m k)"
proof (induction ks arbitrary: m)
  case (Cons j ks)
  then show ?case by (auto simp: fun_eq_iff delete_conv')
qed simp

lemma map_of_ClearKey: "map_of (ClearKey f rep) k = (if map_of (GetData f) k = None then None else map_of rep k)"
proof (cases "map_of (GetData f) k")
  case None
  have "k \<in> set (map fst rep) \<or> map_of rep k = None" by (metis map_of_eq_None_iff list.set_map)
  then show ?thesis using None
    by (cases "rep = []") (auto simp del: map_of_eq_None_iff simp: ClearKey_def Let_def Reporter_GetData_def map_of_delete_all)
next
  case (Some r)
  then show ?thesis by (simp add: ClearKey_def Let_def Reporter_GetData_def map_of_delete_all del: map_of_eq_None_iff)
qed

section \<open>The points that reach influx\<close>

text \<open>What \<open>n\<close> points become: the batches that are written, and the rest that waits for the next turn.\<close>

definition batch_law :: "('x \<Rightarrow> 'p list list) \<Rightarrow> ('p, 'x) influx \<Rightarrow> bool" where
  "batch_law sent ix \<longleftrightarrow> (\<forall>bp x. sent (snd (ix_write ix bp x)) = sent x @ [bp]) \<and> (\<forall>x. sent (snd (ix_close ix x)) = sent x) \<and>
     (\<forall>k u wl x. sent (snd (ix_point ix k u wl x)) = sent x)"

definition points_of :: "('x \<Rightarrow> 'p list list) \<Rightarrow> 'p list \<times> 'x \<Rightarrow> 'p list" where
  "points_of sent st = concat (sent (snd st)) @ fst st"

definition tens :: "('x \<Rightarrow> 'p list list) \<Rightarrow> 'p list \<times> 'x \<Rightarrow> bool" where
  "tens sent st \<longleftrightarrow> length (fst st) < 10 \<and> (\<forall>b \<in> set (sent (snd st)). length b = 10)"

text \<open>The points of a turn: those that can be built, in the order of the entries.\<close>

fun built_points :: "('p, 'x) influx \<Rightarrow> 'l log_filter \<Rightarrow> reporter \<Rightarrow> 'p list \<times> 'x \<Rightarrow> 'p list" where
  "built_points ix f [] st = []"
| "built_points ix f ((k, u) # es) (bp, x) = (case metric_fields f k u of (u, wl) \<Rightarrow>
     (case ix_point ix k u wl x of
        (Inl _, x) \<Rightarrow> built_points ix f es (bp, x)
      | (Inr p, x) \<Rightarrow> p # built_points ix f es (add_point ix p (bp, x))))"

lemma add_point_sends:
  assumes "batch_law sent ix" "tens sent st"
  shows "tens sent (add_point ix p st) \<and> points_of sent (add_point ix p st) = points_of sent st @ [p]"
  using assms by (cases st) (auto simp: batch_law_def tens_def points_of_def add_point_def Let_def)

lemma metrics_entries_send:
  "batch_law sent ix \<Longrightarrow> tens sent st \<Longrightarrow>
     tens sent (metrics_entries ix f es st) \<and> points_of sent (metrics_entries ix f es st) = points_of sent st @ built_points ix f es st"
proof (induction es st rule: built_points.induct [case_names Nil Cons])
  case (Cons ix f k u es bp x)
  obtain v wl where v: "metric_fields f k u = (v, wl)" by (metis surj_pair)
  obtain r x1 where r: "ix_point ix k v wl x = (r, x1)" by (metis surj_pair)
  have "sent x1 = sent x" using Cons.prems(1) r unfolding batch_law_def by (metis snd_conv)
  then have same: "tens sent (bp, x1)" "points_of sent (bp, x1) = points_of sent (bp, x)"
    using Cons.prems(2) by (simp_all add: tens_def points_of_def)
  show ?case
  proof (cases r)
    case (Inl e)
    then show ?thesis using Cons.IH(1) [OF v [symmetric] r [symmetric] Inl] Cons.prems(1) same v r by simp
  next
    case (Inr p)
    have "tens sent (add_point ix p (bp, x1)) \<and> points_of sent (add_point ix p (bp, x1)) = points_of sent (bp, x1) @ [p]"
      using add_point_sends [OF Cons.prems(1) same(1)] .
    then show ?thesis using Cons.IH(2) [OF v [symmetric] r [symmetric] Inr] Cons.prems(1) same(2) v r Inr by simp
  qed
qed simp

section \<open>Properties\<close>

text \<open>A turn of the influx reporter loses no point and writes none twice: what has been written and what
  waits is what there was before, followed by the points of the turn; batches have ten points, and fewer wait.\<close>

theorem metrics_batches:
  assumes "batch_law sent ix" "tens sent st"
  shows "points_of sent (ReportMetrics ix f es st) = points_of sent st @ built_points ix f es st \<and> tens sent (ReportMetrics ix f es st)"
  using metrics_entries_send [OF assms, of f es] assms(2) by (cases "es = []") (simp_all add: ReportMetrics_def)

definition sample_influx :: "(bytes, bytes list list) influx" where
  "sample_influx = \<lparr>ix_point = (\<lambda>k u wl x. (Inr k, x)), ix_write = (\<lambda>bp x. (None, x @ [bp])), ix_close = (\<lambda>x. (None, x))\<rparr>"

lemma metrics_batches_witness:
  "ReportMetrics sample_influx (GetNewFilter True [] 0 0 [] :: unit log_filter) [(''a'', zero_unit)] (replicate 9 ''b'', [])
     = ([], [replicate 9 ''b'' @ [''a'']]) \<and>
   (\<forall>f :: unit log_filter. points_of id (ReportMetrics sample_influx f [(''a'', zero_unit)] (replicate 9 ''b'', []))
     = replicate 9 ''b'' @ built_points sample_influx f [(''a'', zero_unit)] (replicate 9 ''b'', []))"
proof -
  have *: "batch_law id sample_influx" "tens id (replicate 9 ''b'', [])"
    by (simp_all add: batch_law_def tens_def sample_influx_def)
  have "ReportMetrics sample_influx (GetNewFilter True [] 0 0 [] :: unit log_filter) [(''a'', zero_unit)] (replicate 9 ''b'', [])
     = ([], [replicate 9 ''b'' @ [''a'']])"
    by (simp add: ReportMetrics_def metric_fields_def GetData_def GetNewFilter_def sample_influx_def add_point_def Let_def)
  then show ?thesis using metrics_batches [OF *, of "f :: unit log_filter" for f] by (simp add: points_of_def del: built_points.simps)
qed

text \<open>C39. The counters are exact: after any sequence of commands the counters of a key are the numbers of its
  pushes and pops, modulo 2^64, where the pops of all keys that contain \<open>sc_log\<close> count for that key; and
  clearing removes exactly the counters of keys without a rule.\<close>

theorem counters_exact:
  "RpushCount (unit_of (fold rep_step evs NewReporter) k) = of_nat (pushes k evs) \<and>
   LpopCount (unit_of (fold rep_step evs NewReporter) k) = of_nat (pops k evs) \<and>
   map_of (ClearKey f rep) k = (if map_of (GetData f) k = None then None else map_of rep k)"
proof (intro conjI)
  show "RpushCount (unit_of (fold rep_step evs NewReporter) k) = of_nat (pushes k evs)"
    "LpopCount (unit_of (fold rep_step evs NewReporter) k) = of_nat (pops k evs)"
    using rep_counts [of evs NewReporter k] by (simp_all add: NewReporter_def unit_of_def zero_unit_def)
  show "map_of (ClearKey f rep) k = (if map_of (GetData f) k = None then None else map_of rep k)"
    by (rule map_of_ClearKey)
qed

end
