(* ===== verification/Buf_Reader.thy ===== *)
theory Buf_Reader
  imports Bufio2
begin

text \<open>
  The growing buffer under the fast RESP parsers (\<open>utils/BufReader\<close>, and the same code in
  \<open>utils/respecho/RedisFastParser/reader.go\<close>). The slices the parsers hand out point into the buffer, so
  its arrays are kept: \<open>mem\<close> lists every array that has been the buffer, the last one is the buffer now,
  and a slice is the number of its array with two bounds. The reader below is the script of \<open>Bufio2\<close>.
\<close>

record buf_reader =
  br_src :: source
  mem :: "bytes list"
  ReadPosition :: nat
  WritePosition :: nat

abbreviation Buffer :: "buf_reader \<Rightarrow> bytes" where
  "Buffer r \<equiv> List.last (mem r)"

type_synonym slice = "nat \<times> nat \<times> nat"

definition slice_bytes :: "buf_reader \<Rightarrow> slice \<Rightarrow> bytes" where
  "slice_bytes r x = (case x of (a, i, j) \<Rightarrow> buf_slice i j (mem r ! a))"

section \<open>io.ReadAtLeast\<close>

definition ErrShortBuffer :: go_error where "ErrShortBuffer = Sentinel ''short buffer''"

lemma source_Read_measure:
  assumes "source_Read k src = ((d, None), src')" "0 < k"
  shows "length src' + length (source_bytes src') < length src + length (source_bytes src)"
  using assms by (cases "(k, src)" rule: source_Read.cases) (auto split: if_splits)

text \<open>Into a space of \<open>k\<close> bytes until at least \<open>m\<close> are there. (The space never is smaller than what is
  still wanted: the caller below tests it.)\<close>

function read_loop :: "nat \<Rightarrow> nat \<Rightarrow> source \<Rightarrow> (bytes \<times> go_error option) \<times> source" where
  "read_loop k m src =
     (if m = 0 \<or> k < m then (([], None), src)
      else case source_Read k src of
        ((d, Some e), src') \<Rightarrow> ((d, Some e), src')
      | ((d, None), src') \<Rightarrow> (case read_loop (k - length d) (m - length d) src' of
          ((x, e), src'') \<Rightarrow> ((d @ x, e), src'')))"
  by pat_completeness auto
termination
  by (relation "measure (\<lambda>(k, m, src). length src + length (source_bytes src))")
    (auto dest!: sym [of "((_, None), _)"] source_Read_measure)

declare read_loop.simps [simp del]

definition ReadAtLeast :: "nat \<Rightarrow> nat \<Rightarrow> source \<Rightarrow> (bytes \<times> go_error option) \<times> source" where
  "ReadAtLeast k m src =
     (if k < m then (([], Some ErrShortBuffer), src)
      else case read_loop k m src of ((d, e), src) \<Rightarrow>
        ((d, if m \<le> length d then None else if d \<noteq> [] \<and> e = Some EOF then Some ErrUnexpectedEOF else e), src))"

section \<open>The reader\<close>

definition bufStepSize :: nat where "bufStepSize = 1024"

definition Buf_NewReader :: "source \<Rightarrow> buf_reader" where
  "Buf_NewReader src = \<lparr>br_src = src, mem = [zeros (int bufStepSize)], ReadPosition = 0, WritePosition = 0\<rparr>"

definition requestSpace :: "nat \<Rightarrow> buf_reader \<Rightarrow> buf_reader" where
  "requestSpace n r = (let ccap = length (Buffer r) in
     if ccap < WritePosition r + n
     then r\<lparr>mem := mem r @ [Buffer r @ zeros (int (max (ccap * 2) (ccap + n + bufStepSize) - ccap))]\<rparr>
     else r)"

definition ReadSome :: "nat \<Rightarrow> (buf_reader, go_error, unit) io" where
  "ReadSome n r =
     (let r = requestSpace n r;
          ((d, e), src) = ReadAtLeast (length (Buffer r) - WritePosition r) n (br_src r);
          r = r\<lparr>br_src := src, mem := butlast (mem r) @ [write_at (Buffer r) (WritePosition r) d]\<rparr>
      in case e of Some err \<Rightarrow> (Inl err, r) | None \<Rightarrow> (Inr (), r\<lparr>WritePosition := WritePosition r + length d\<rparr>))"

definition RequireNBytes :: "nat \<Rightarrow> (buf_reader, go_error, unit) io" where
  "RequireNBytes n r = (let a = WritePosition r - ReadPosition r in if n \<le> a then (Inr (), r) else ReadSome (n - a) r)"

definition advance :: "nat \<Rightarrow> buf_reader \<Rightarrow> buf_reader" where
  "advance n r = r\<lparr>ReadPosition := ReadPosition r + n\<rparr>"

text \<open>The slice of the next \<open>n\<close> bytes.\<close>

definition here :: "nat \<Rightarrow> buf_reader \<Rightarrow> slice" where
  "here n r = (length (mem r) - 1, ReadPosition r, ReadPosition r + n)"

definition GetNbytes :: "nat \<Rightarrow> (buf_reader, go_error, slice) io" where
  "GetNbytes n = bindIO (RequireNBytes n) (\<lambda>_ r. (Inr (here n r), advance n r))"

definition Reset :: "buf_reader \<Rightarrow> buf_reader" where
  "Reset r = r\<lparr>WritePosition := 0, ReadPosition := 0\<rparr>"

definition IsEnd :: "buf_reader \<Rightarrow> bool \<times> buf_reader" where
  "IsEnd r = (if WritePosition r \<le> ReadPosition r then (True, Reset r) else (False, r))"

section \<open>Invariant\<close>

definition br_ok :: "buf_reader \<Rightarrow> bool" where
  "br_ok r \<longleftrightarrow> mem r \<noteq> [] \<and> ReadPosition r \<le> WritePosition r \<and> WritePosition r \<le> length (Buffer r)"

text \<open>The bytes read and not consumed, and all that are still to come.\<close>

definition pending :: "buf_reader \<Rightarrow> bytes" where
  "pending r = buf_slice (ReadPosition r) (WritePosition r) (Buffer r)"

lemma length_zeros [simp]: "length (zeros n) = nat n"
  by (simp add: zeros_def)

lemma read_loop_length:
  "read_loop k m src = ((d, e), src') \<Longrightarrow>
     length d \<le> k \<and> (m \<le> k \<longrightarrow> e = None \<longrightarrow> m \<le> length d) \<and> source_bytes src = d @ source_bytes src'"
proof (induction k m src arbitrary: d e src' rule: read_loop.induct)
  case (1 k m src)
  show ?case
  proof (cases "m = 0 \<or> k < m")
    case True
    then show ?thesis using "1.prems" by (subst (asm) read_loop.simps) auto
  next
    case False
    obtain x f src1 where x: "source_Read k src = ((x, f), src1)" by (metis surj_pair)
    note l = source_Read_bytes [OF x]
    show ?thesis
    proof (cases f)
      case (Some err)
      then show ?thesis using "1.prems" False x l by (subst (asm) read_loop.simps) auto
    next
      case None
      obtain y g src2 where y: "read_loop (k - length x) (m - length x) src1 = ((y, g), src2)" by (metis surj_pair)
      have d: "d = x @ y" "e = g" "src' = src2"
        using "1.prems" False x y None by (auto simp: read_loop.simps [of k])
      have "length y \<le> k - length x \<and> (m - length x \<le> k - length x \<longrightarrow> g = None \<longrightarrow> m - length x \<le> length y) \<and>
          source_bytes src1 = y @ source_bytes src2"
        using "1.IH" [OF False x [symmetric] refl None y] by simp
      then show ?thesis using d l by auto
    qed
  qed
qed

lemma ReadAtLeast_length:
  assumes "ReadAtLeast k m src = ((d, e), src')"
  shows "length d \<le> k" "e = None \<Longrightarrow> m \<le> length d" "source_bytes src = d @ source_bytes src'"
proof -
  obtain x f src1 where x: "read_loop k m src = ((x, f), src1)" by (metis surj_pair)
  note l = read_loop_length [OF x]
  show "length d \<le> k" "e = None \<Longrightarrow> m \<le> length d" "source_bytes src = d @ source_bytes src'"
    using assms l x by (auto simp: ReadAtLeast_def split: if_splits)
qed

lemma requestSpace_ok:
  assumes "br_ok r"
  shows "br_ok (requestSpace n r)" "WritePosition (requestSpace n r) = WritePosition r"
    "ReadPosition (requestSpace n r) = ReadPosition r" "br_src (requestSpace n r) = br_src r"
    "WritePosition r + n \<le> length (Buffer (requestSpace n r))"
    "pending (requestSpace n r) = pending r"
  using assms by (auto simp: requestSpace_def Let_def br_ok_def pending_def buf_slice_def)

text \<open>What a read did: the new bytes are behind the pending ones.\<close>

lemma ReadSome_ok:
  assumes "br_ok r" "ReadSome n r = (x, r')"
  shows "br_ok r' \<and> (\<exists>d. source_bytes (br_src r) = d @ source_bytes (br_src r') \<and>
    (x = Inr () \<longrightarrow> n \<le> length d \<and> pending r' = pending r @ d))"
proof -
  let ?q = "requestSpace n r"
  note q = requestSpace_ok [OF assms(1), of n]
  obtain d e src where rd: "ReadAtLeast (length (Buffer ?q) - WritePosition ?q) n (br_src ?q) = ((d, e), src)"
    by (metis surj_pair)
  note l = ReadAtLeast_length [OF rd]
  have fit: "WritePosition ?q + length d \<le> length (Buffer ?q)" using q(1) l(1) unfolding br_ok_def by linarith
  let ?s = "?q\<lparr>br_src := src, mem := butlast (mem ?q) @ [write_at (Buffer ?q) (WritePosition ?q) d]\<rparr>"
  have r': "(x, r') = (case e of Some err \<Rightarrow> (Inl err, ?s) | None \<Rightarrow> (Inr (), ?s\<lparr>WritePosition := WritePosition ?s + length d\<rparr>))"
    using assms(2) rd by (simp add: ReadSome_def Let_def)
  have p: "buf_slice (ReadPosition ?q) (WritePosition ?q + length d) (write_at (Buffer ?q) (WritePosition ?q) d) = pending r @ d"
    using buf_slice_write_at [of "ReadPosition ?q" "WritePosition ?q" d "Buffer ?q"] q(1) fit q(6)
    by (simp add: br_ok_def pending_def)
  show ?thesis
  proof (cases e)
    case None
    then have "br_ok r'" "pending r' = pending r @ d" "br_src r' = src"
      using r' q(1) fit p by (simp_all add: br_ok_def pending_def length_write_at)
    then show ?thesis using l q(4) None by auto
  next
    case (Some err)
    then have "br_ok r'" "br_src r' = src" "x = Inl err"
      using r' q(1) fit by (simp_all add: br_ok_def length_write_at)
    then show ?thesis using l q(4) by auto
  qed
qed

lemma ReadSome_shrinks:
  assumes "br_ok r" "ReadSome (Suc n) r = (Inr (), r')"
  shows "length (source_bytes (br_src r')) < length (source_bytes (br_src r))"
  using ReadSome_ok [OF assms] by auto

lemma br_ok_Reset: "br_ok r \<Longrightarrow> br_ok (Reset r)"
  by (simp add: br_ok_def Reset_def)

lemma IsEnd_ok: "br_ok r \<Longrightarrow> br_ok (snd (IsEnd r))"
  by (simp add: IsEnd_def br_ok_Reset)

lemma length_pending: "br_ok r \<Longrightarrow> length (pending r) = WritePosition r - ReadPosition r"
  unfolding br_ok_def pending_def by (simp add: length_buf_slice)

lemma br_ok_advance: "br_ok r \<Longrightarrow> n \<le> length (pending r) \<Longrightarrow> br_ok (advance n r)"
  by (auto simp: length_pending) (auto simp: br_ok_def advance_def)

lemma advance_simps [simp]:
  "mem (advance n r) = mem r" "br_src (advance n r) = br_src r" "WritePosition (advance n r) = WritePosition r"
  "ReadPosition (advance n r) = ReadPosition r + n" "advance m (advance n r) = advance (n + m) r" "advance 0 r = r"
  "slice_bytes (advance n r) x = slice_bytes r x" "pending (advance n r) = drop n (pending r)"
  by (simp_all add: advance_def slice_bytes_def pending_def drop_buf_slice add.assoc)

lemma Buffer_pending:
  assumes "br_ok r" "i < length (pending r)"
  shows "Buffer r ! (ReadPosition r + i) = pending r ! i"
  using assms by (simp add: br_ok_def pending_def buf_slice_def)

lemma slice_bytes_here:
  assumes "br_ok r" "n \<le> length (pending r)"
  shows "slice_bytes r (here n r) = take n (pending r)"
proof -
  have "mem r ! (length (mem r) - 1) = Buffer r" using assms(1) by (simp add: br_ok_def last_conv_nth)
  moreover have "buf_slice (ReadPosition r) (ReadPosition r + n) (Buffer r) = take n (pending r)"
  proof -
    have "ReadPosition r + n \<le> WritePosition r"
      using assms length_pending [OF assms(1)] unfolding br_ok_def by linarith
    then show ?thesis by (simp add: pending_def take_buf_slice)
  qed
  ultimately show ?thesis by (simp add: slice_bytes_def here_def)
qed

lemma RequireNBytes_pending: "br_ok r \<Longrightarrow> n \<le> length (pending r) \<Longrightarrow> RequireNBytes n r = (Inr (), r)"
  by (simp add: RequireNBytes_def length_pending)

lemma RequireNBytes_ok: "br_ok r \<Longrightarrow> RequireNBytes n r = (x, r') \<Longrightarrow>
    br_ok r' \<and> (x = Inr () \<longrightarrow> n \<le> length (pending r'))"
  using ReadSome_ok [of r "n - (WritePosition r - ReadPosition r)" x r'] length_pending [of r]
  by (auto simp: RequireNBytes_def Let_def split: if_splits)

text \<open>The network delivers a chunk that fits.\<close>

lemma ReadSome_chunk:
  assumes "br_ok r" "br_src r = (d, None) # cs" "n \<le> length d" "0 < n" "WritePosition r + length d \<le> length (Buffer r)"
  shows "ReadSome n r = (Inr (), r\<lparr>br_src := cs, mem := butlast (mem r) @ [write_at (Buffer r) (WritePosition r) d],
    WritePosition := WritePosition r + length d\<rparr>)"
proof -
  have s: "requestSpace n r = r" using assms by (simp add: requestSpace_def)
  have "read_loop (length (Buffer r) - WritePosition r) n (br_src r) = ((d, None), cs)"
    using assms by (simp add: read_loop.simps)
  then have "ReadAtLeast (length (Buffer r) - WritePosition r) n (br_src r) = ((d, None), cs)"
    using assms by (simp add: ReadAtLeast_def)
  then show ?thesis by (simp add: ReadSome_def s Let_def)
qed

end
