(* ===== verification/Fast_Parser.thy ===== *)
theory Fast_Parser
  imports Buf_Reader
begin

text \<open>
  The parsers of client commands over the growing buffer: \<open>utils/respecho/RedSHandle/parser.go\<close>, and
  \<open>utils/respecho/RedisFastParser/rfp_parser.go\<close>, which is the same code with another limit and one more
  form of input. Arguments are slices of the buffer. A null argument is \<open>None\<close>; a nil command pointer is
  \<open>None\<close> too. Of the two \<open>Command\<close> types only the second has \<open>argvSingle\<close>.
\<close>

record command =
  Argv :: "slice option list"
  argvSingle :: "slice option"
  Raw :: "slice option"
  cmd_last :: bool

section \<open>Constants\<close>

definition ExpectNumber :: go_error where "ExpectNumber = Sentinel ''Expect Number''"
definition ExpectNewLine :: go_error where "ExpectNewLine = Sentinel ''Expect Newline''"
definition ExpectTypeChar :: go_error where "ExpectTypeChar = Sentinel ''Expect TypeChar''"
definition InvalidNumArg :: go_error where "InvalidNumArg = Sentinel ''TooManyArg''"
definition InvalidBulkSize :: go_error where "InvalidBulkSize = Sentinel ''Invalid bulk size''"
definition LineTooLong :: go_error where "LineTooLong = Sentinel ''LineTooLong''"

definition MaxNumArg :: int where "MaxNumArg = 256"
definition rfp_MaxNumArg :: int where "rfp_MaxNumArg = 512"
definition MaxBulkSize :: int where "MaxBulkSize = 512000000"
definition MaxTelnetLine :: nat where "MaxTelnetLine = 1024"

definition Get_arg :: "command \<Rightarrow> int \<Rightarrow> slice option" where
  "Get_arg c i = (if 0 \<le> i \<and> i < int (length (Argv c)) then Argv c ! nat i else None)"

definition GetSingleArgv :: "command \<Rightarrow> slice option" where
  "GetSingleArgv c = argvSingle c"

definition ArgCount :: "command \<Rightarrow> nat" where
  "ArgCount c = length (Argv c)"

definition IsLast :: "command \<Rightarrow> bool" where
  "IsLast c = cmd_last c"

section \<open>Numbers and ends of lines\<close>

text \<open>The inner loop: the digits that are in the buffer, added up in a \<open>uint64\<close>.\<close>

fun scan_digits :: "nat \<Rightarrow> bytes \<Rightarrow> nat \<times> nat" where
  "scan_digits n [] = (n, 0)"
| "scan_digits n (c # cs) =
     (if is_digit c then (case scan_digits ((n * 10 + digit_val c) mod 2 ^ 64) cs of (m, k) \<Rightarrow> (m, Suc k)) else (n, 0))"

lemma ReadSome_source:
  assumes "ReadSome n r = (Inr (), r')"
  shows "length (source_bytes (br_src r')) + n \<le> length (source_bytes (br_src r))"
proof -
  let ?q = "requestSpace n r"
  obtain d e src where rd: "ReadAtLeast (length (Buffer ?q) - WritePosition ?q) n (br_src ?q) = ((d, e), src)"
    by (metis surj_pair)
  have "br_src ?q = br_src r" by (simp add: requestSpace_def Let_def)
  moreover have "e = None" "br_src r' = src" using assms rd by (auto simp: ReadSome_def Let_def split: option.splits)
  ultimately show ?thesis using ReadAtLeast_length(2,3) [OF rd] by simp
qed

text \<open>The outer loop. When the digits end with the buffer, the buffer is started over before more is read.\<close>

function number_loop :: "nat \<Rightarrow> (buf_reader, go_error, nat) io" where
  "number_loop num r =
     (let (num, k) = scan_digits num (pending r); (done, r) = IsEnd (advance k r)
      in if \<not> done then (Inr num, r)
         else case ReadSome 1 r of
           (Inl e, r) \<Rightarrow> (Inl e, r)
         | (Inr _, r) \<Rightarrow> number_loop num r)"
  by pat_completeness auto
termination
  by (relation "measure (\<lambda>(num, r). length (source_bytes (br_src r)))")
    (auto dest!: sym [of "(Inr _, _)"] ReadSome_source simp: IsEnd_def Reset_def split: if_splits)

declare number_loop.simps [simp del]

definition readNumber :: "(buf_reader, go_error, int) io" where
  "readNumber = bindIO (RequireNBytes 1) (\<lambda>_ r.
     let c = Buffer r ! ReadPosition r;
         neg = (c = CHR ''-'');
         r = (if c = CHR ''-'' \<or> c = CHR ''+'' then advance 1 r else r);
         startpos = ReadPosition r
     in case number_loop 0 r of
          (Inl e, r) \<Rightarrow> (Inl e, r)
        | (Inr num, r) \<Rightarrow>
            if ReadPosition r = startpos then (Inl ExpectNumber, r)
            else (Inr (if neg then int64 (- int64 (int num)) else int64 (int num)), r))"

definition discardNewLine :: "(buf_reader, go_error, unit) io" where
  "discardNewLine = bindIO (RequireNBytes 2) (\<lambda>_ r.
     if Buffer r ! ReadPosition r = CR \<and> Buffer r ! (ReadPosition r + 1) = LF then (Inr (), advance 2 r)
     else (Inl ExpectNewLine, r))"

section \<open>Commands\<close>

text \<open>\<open>emptyBulk[:]\<close> is a slice without bytes.\<close>

definition emptyBulk :: slice where "emptyBulk = (0, 0, 0)"

definition parse_bulk :: "int \<Rightarrow> (buf_reader, go_error, slice option) io" where
  "parse_bulk plen =
     (if plen = -1 then returnIO None
      else if plen = 0 then returnIO (Some emptyBulk)
      else if 0 < plen \<and> plen \<le> MaxBulkSize then
        bindIO (RequireNBytes (nat plen)) (\<lambda>_ r. (Inr (Some (here (nat plen) r)), advance (nat plen) r))
      else failIO InvalidBulkSize)"

definition parse_arg :: "(buf_reader, go_error, slice option) io" where
  "parse_arg = bindIO (RequireNBytes 1) (\<lambda>_ r.
     if Buffer r ! ReadPosition r \<noteq> CHR ''$'' then (Inl ExpectTypeChar, r)
     else bindIO readNumber (\<lambda>plen. bindIO discardNewLine (\<lambda>_. bindIO (parse_bulk plen) (\<lambda>a.
          bindIO discardNewLine (\<lambda>_. returnIO a)))) (advance 1 r))"

fun parse_args :: "nat \<Rightarrow> (buf_reader, go_error, slice option list) io" where
  "parse_args 0 = returnIO []"
| "parse_args (Suc n) = bindIO parse_arg (\<lambda>a. bindIO (parse_args n) (\<lambda>as. returnIO (a # as)))"

text \<open>The bytes from \<open>from\<close> to where the reader is.\<close>

definition raw_slice :: "nat \<Rightarrow> buf_reader \<Rightarrow> slice option" where
  "raw_slice from r = (if ReadPosition r \<le> from then None else Some (length (mem r) - 1, from, ReadPosition r))"

definition parseBinary :: "int \<Rightarrow> (buf_reader, go_error, command option) io" where
  "parseBinary maxArg r0 =
     bindIO readNumber (\<lambda>numArg. bindIO discardNewLine (\<lambda>_.
       if numArg = -1 then bindIO discardNewLine (\<lambda>_. returnIO None)
       else if numArg < -1 then failIO InvalidNumArg
       else if maxArg < numArg then failIO InvalidNumArg
       else bindIO (parse_args (nat numArg)) (\<lambda>argv r.
         (Inr (Some \<lparr>Argv = argv, argvSingle = None, Raw = raw_slice (ReadPosition r0) r, cmd_last = False\<rparr>), r))))
     (advance 1 r0)"

text \<open>The whole buffer is searched, whatever of it has been read or was left from before.\<close>

function telnet_loop :: "(buf_reader, go_error, nat) io" where
  "telnet_loop r = (case IndexByte (Buffer r) LF of
     Some n \<Rightarrow> (Inr n, r)
   | None \<Rightarrow> (case ReadSome 1 r of
       (Inl e, r) \<Rightarrow> (Inl e, r)
     | (Inr _, r) \<Rightarrow> if MaxTelnetLine < WritePosition r then (Inl LineTooLong, r) else telnet_loop r))"
  by pat_completeness auto
termination
  by (relation "measure (\<lambda>r. length (source_bytes (br_src r)))")
    (auto dest!: sym [of "(Inr _, _)"] ReadSome_source)

declare telnet_loop.simps [simp del]

text \<open>\<open>bytes.Split\<close> at spaces: \<open>i\<close> is where the field starts, \<open>j\<close> the place of the next byte.\<close>

fun split_slices :: "nat \<Rightarrow> nat \<Rightarrow> nat \<Rightarrow> bytes \<Rightarrow> slice list" where
  "split_slices a i j [] = [(a, i, j)]"
| "split_slices a i j (c # cs) =
     (if c = CHR '' '' then (a, i, j) # split_slices a (j + 1) (j + 1) cs else split_slices a i (j + 1) cs)"

definition parseTelnet :: "buf_reader \<Rightarrow> ((go_error + command option) \<times> buf_reader) outcome" where
  "parseTelnet r = (case telnet_loop r of
     (Inl e, r) \<Rightarrow> Ret (Inl e, r)
   | (Inr nlPos, r) \<Rightarrow>
       if nlPos = 0 then Panic ''slice bounds out of range [:-1]''
       else Ret (Inr (Some \<lparr>Argv = map Some (split_slices (length (mem r) - 1) 0 0 (take (nlPos - 1) (Buffer r))),
                            argvSingle = None, Raw = None, cmd_last = False\<rparr>),
                 r\<lparr>ReadPosition := WritePosition r\<rparr>))"

text \<open>A reply in place of a command. Its length has no limit: \<open>alloc\<close> says for how many bytes memory can be had.\<close>

definition parsePipeLine :: "(int \<Rightarrow> bool) \<Rightarrow> buf_reader \<Rightarrow> ((go_error + command option) \<times> buf_reader) outcome" where
  "parsePipeLine alloc r0 =
     (case bindIO readNumber (\<lambda>n. bindIO discardNewLine (\<lambda>_. returnIO n)) (advance 1 r0) of
        (Inl e, r) \<Rightarrow> Ret (Inl e, r)
      | (Inr argLen, r) \<Rightarrow>
          if 0 < argLen \<and> \<not> alloc argLen then Panic ''makeslice: cap out of range''
          else Ret (bindIO
            (if argLen = 0 then returnIO (Some emptyBulk)
             else if 0 < argLen then bindIO (RequireNBytes (nat argLen)) (\<lambda>_ r. (Inr (Some (here (nat argLen) r)), advance (nat argLen) r))
             else returnIO None)
            (\<lambda>argv. bindIO (if 0 \<le> argLen then discardNewLine else returnIO ()) (\<lambda>_ r.
               (Inr (Some \<lparr>Argv = [], argvSingle = argv, Raw = raw_slice (ReadPosition r0) r, cmd_last = False\<rparr>), r))) r))"

text \<open>The end of \<open>ReadCommand\<close>.\<close>

definition mark_last :: "(go_error + command option) \<times> buf_reader \<Rightarrow> (go_error + command option) \<times> buf_reader" where
  "mark_last x = (case x of (c, r) \<Rightarrow> (case IsEnd r of (done, r) \<Rightarrow>
     (if done then map_sum id (map_option (\<lambda>c. c\<lparr>cmd_last := True\<rparr>)) c else c, r)))"

text \<open>The start: something to look at.\<close>

definition fetch :: "(buf_reader, go_error, unit) io" where
  "fetch r = (if WritePosition r \<le> ReadPosition r then ReadSome 1 r else (Inr (), r))"

definition ReadCommand :: "buf_reader \<Rightarrow> ((go_error + command option) \<times> buf_reader) outcome" where
  "ReadCommand r = (case fetch r of
     (Inl e, r) \<Rightarrow> Ret (Inl e, r)
   | (Inr _, r) \<Rightarrow> bind_outcome
       (if Buffer r ! ReadPosition r = CHR ''*'' then Ret (parseBinary MaxNumArg r) else parseTelnet r)
       (\<lambda>x. Ret (mark_last x)))"

definition rfp_parseBinary :: "(buf_reader, go_error, command option) io" where
  "rfp_parseBinary = parseBinary rfp_MaxNumArg"

definition rfp_ReadCommand :: "(int \<Rightarrow> bool) \<Rightarrow> buf_reader \<Rightarrow> ((go_error + command option) \<times> buf_reader) outcome" where
  "rfp_ReadCommand alloc r = (case fetch r of
     (Inl e, r) \<Rightarrow> Ret (Inl e, r)
   | (Inr _, r) \<Rightarrow> bind_outcome
       (if Buffer r ! ReadPosition r = CHR ''*'' then Ret (rfp_parseBinary r)
        else if Buffer r ! ReadPosition r = CHR ''$'' then parsePipeLine alloc r
        else parseTelnet r)
       (\<lambda>x. Ret (mark_last x)))"

text \<open>\<open>Commands\<close>: what has been sent on the channel when \<open>n\<close> commands were taken from it, or fewer were there.\<close>

fun Commands :: "nat \<Rightarrow> buf_reader \<Rightarrow> (command option list \<times> buf_reader) outcome" where
  "Commands 0 r = Ret ([], r)"
| "Commands (Suc n) r = bind_outcome (ReadCommand r) (\<lambda>(c, r). case c of
     Inl e \<Rightarrow> Ret ([], r)
   | Inr c \<Rightarrow> bind_outcome (Commands n r) (\<lambda>(cs, r). Ret (c # cs, r)))"

section \<open>Input that is in the buffer\<close>

lemma scan_digits_all:
  "\<forall>c \<in> set ds. is_digit c \<Longrightarrow> t = [] \<or> \<not> is_digit (hd t) \<Longrightarrow>
     scan_digits n (ds @ t) = (if ds = [] then n else dec_val_from n ds mod 2 ^ 64, length ds)"
proof (induction ds arbitrary: n)
  case Nil
  then show ?case by (cases t) auto
next
  case (Cons d ds)
  have "dec_val_from (k mod m) ds mod m = dec_val_from k ds mod m" for k m :: nat
  proof (induction ds arbitrary: k)
    case (Cons c cs)
    have "dec_val_from (k mod m * 10 + digit_val c) cs mod m = dec_val_from ((k mod m * 10 + digit_val c) mod m) cs mod m"
      by (rule Cons [symmetric])
    also have "(k mod m * 10 + digit_val c) mod m = (k * 10 + digit_val c) mod m" by (metis mod_add_left_eq mod_mult_left_eq)
    also have "dec_val_from ((k * 10 + digit_val c) mod m) cs mod m = dec_val_from (k * 10 + digit_val c) cs mod m" by (rule Cons)
    finally show ?case by simp
  qed simp
  then show ?case using Cons by simp
qed

lemma number_loop_pending:
  assumes "br_ok r" "pending r = ds @ c # t" "\<forall>c \<in> set ds. is_digit c" "ds \<noteq> []" "\<not> is_digit c"
  shows "number_loop 0 r = (Inr (dec_val ds mod 2 ^ 64), advance (length ds) r)"
proof -
  have "scan_digits 0 (pending r) = (dec_val ds mod 2 ^ 64, length ds)"
    using scan_digits_all [of ds "c # t" 0] assms by simp
  moreover have "\<not> WritePosition r \<le> ReadPosition r + length ds" using length_pending [OF assms(1)] assms(2) by simp
  ultimately show ?thesis by (simp add: number_loop.simps [of 0] IsEnd_def)
qed

lemma readNumber_pending:
  assumes "br_ok r" "pending r = FormatInt (int n) @ CR # t" "in_int64 (int n)"
  shows "readNumber r = (Inr (int n), advance (length (FormatInt (int n))) r)"
proof -
  let ?ds = "format_nat n"
  have F: "FormatInt (int n) = ?ds" by (simp add: FormatInt_def)
  have n: "0 < length ?ds" by simp
  have p: "0 < length (pending r)" using assms(2) F by simp
  have b: "Buffer r ! ReadPosition r = hd ?ds"
    using Buffer_pending [OF assms(1) p] assms(2) F by (simp add: nth_append hd_conv_nth)
  have d: "is_digit (hd ?ds)" using format_nat_digits [of "hd ?ds" n] by simp
  have nl: "number_loop 0 r = (Inr n, advance (length ?ds) r)"
    using number_loop_pending [OF assms(1), of ?ds CR t] assms(2,3) F format_nat_digits [of _ n] by (simp add: in_int64_def)
  show ?thesis
    using RequireNBytes_pending [OF assms(1), of 1] p b d nl assms(3) F
    by (auto simp: readNumber_def seq_simps Let_def)
qed

lemma discardNewLine_pending:
  assumes "br_ok r" "pending r = CRLF @ t"
  shows "discardNewLine r = (Inr (), advance 2 r)"
  using RequireNBytes_pending [OF assms(1), of 2] Buffer_pending [OF assms(1), of 0] Buffer_pending [OF assms(1), of 1] assms(2)
  by (simp add: discardNewLine_def seq_simps)

definition bulk_wire :: "bytes \<Rightarrow> bytes" where
  "bulk_wire b = ''$'' @ FormatInt (int (length b)) @ CRLF @ b @ CRLF"

definition command_wire :: "bytes list \<Rightarrow> bytes" where
  "command_wire args = ''*'' @ FormatInt (int (length args)) @ CRLF @ concat (map bulk_wire args)"

definition arg_ok :: "bytes \<Rightarrow> bool" where
  "arg_ok b \<longleftrightarrow> int (length b) \<le> MaxBulkSize"

text \<open>The slices denote the arguments.\<close>

definition denotes :: "buf_reader \<Rightarrow> slice option list \<Rightarrow> bytes list \<Rightarrow> bool" where
  "denotes r as bs \<longleftrightarrow> map (map_option (slice_bytes r)) as = map Some bs"

lemma denotes_simps [simp]:
  "denotes r [] []" "denotes r (a # as) (b # bs) \<longleftrightarrow> map_option (slice_bytes r) a = Some b \<and> denotes r as bs"
  by (simp_all add: denotes_def)

lemma denotes_mem: "mem r' = mem r \<Longrightarrow> denotes r' as bs \<longleftrightarrow> denotes r as bs"
  by (simp add: denotes_def slice_bytes_def fun_eq_iff cong: map_cong option.map_cong)

lemma denotes_advance [simp]: "denotes (advance n r) as bs \<longleftrightarrow> denotes r as bs"
  by (rule denotes_mem) simp

lemma slice_bytes_emptyBulk [simp]: "slice_bytes r emptyBulk = []"
  by (simp add: slice_bytes_def emptyBulk_def buf_slice_def)

lemma in_int64_bulk: "arg_ok b \<Longrightarrow> in_int64 (int (length b))"
  by (simp add: arg_ok_def MaxBulkSize_def in_int64_def)

lemma parse_bulk_pending:
  assumes "br_ok r" "pending r = b @ t" "arg_ok b"
  shows "\<exists>a. parse_bulk (int (length b)) r = (Inr a, advance (length b) r) \<and> map_option (slice_bytes r) a = Some b"
proof (cases "b = []")
  case True
  then show ?thesis by (simp add: parse_bulk_def returnIO_def) (metis slice_bytes_emptyBulk prod.exhaust)
next
  case False
  have "RequireNBytes (length b) r = (Inr (), r)" "slice_bytes r (here (length b) r) = b"
    using assms(1,2) by (simp_all add: RequireNBytes_pending slice_bytes_here)
  then have "parse_bulk (int (length b)) r = (Inr (Some (here (length b) r)), advance (length b) r)"
    "map_option (slice_bytes r) (Some (here (length b) r)) = Some b"
    using False assms(3) by (simp_all add: parse_bulk_def seq_simps arg_ok_def)
  then show ?thesis by blast
qed

lemma parse_arg_pending:
  assumes "br_ok r" "pending r = bulk_wire b @ t" "arg_ok b"
  shows "\<exists>a. parse_arg r = (Inr a, advance (length (bulk_wire b)) r) \<and> map_option (slice_bytes r) a = Some b"
proof -
  let ?F = "FormatInt (int (length b))"
  have p: "pending r = CHR ''$'' # ?F @ CR # LF # b @ CR # LF # t" using assms(2) by (simp add: bulk_wire_def)
  let ?r1 = "advance 1 r" let ?r2 = "advance (length ?F) ?r1" let ?r3 = "advance 2 ?r2" let ?r4 = "advance (length b) ?r3"
  have ok: "br_ok ?r1" "br_ok ?r2" "br_ok ?r3" "br_ok ?r4"
    using assms(1) p by (simp_all only: advance_simps) (rule br_ok_advance, simp_all)+
  have q: "RequireNBytes 1 r = (Inr (), r)" "Buffer r ! ReadPosition r = CHR ''$''"
    using RequireNBytes_pending [OF assms(1), of 1] Buffer_pending [OF assms(1), of 0] p by simp_all
  have n: "readNumber ?r1 = (Inr (int (length b)), ?r2)"
    using readNumber_pending [OF ok(1), of "length b"] p in_int64_bulk [OF assms(3)] by simp
  have d: "discardNewLine ?r2 = (Inr (), ?r3)" by (rule discardNewLine_pending [OF ok(2), of "b @ CRLF @ t"]) (simp add: p)
  obtain a where a: "parse_bulk (int (length b)) ?r3 = (Inr a, ?r4)" "map_option (slice_bytes ?r3) a = Some b"
    using parse_bulk_pending [OF ok(3), of b "CRLF @ t"] assms(3) p by auto
  have e: "discardNewLine ?r4 = (Inr (), advance 2 ?r4)" by (rule discardNewLine_pending [OF ok(4), of t]) (simp add: p)
  have "parse_arg r = (Inr a, advance 2 ?r4)"
    by (simp add: parse_arg_def bindIO_def q n d a(1) e returnIO_def del: advance_simps One_nat_def)
  moreover have "map_option (slice_bytes r) a = Some b" using a(2) by (cases a) simp_all
  moreover have "advance 2 ?r4 = advance (length (bulk_wire b)) r" by (simp add: bulk_wire_def)
  ultimately show ?thesis by metis
qed

lemma parse_args_pending:
  "br_ok r \<Longrightarrow> pending r = concat (map bulk_wire bs) @ t \<Longrightarrow> \<forall>b \<in> set bs. arg_ok b \<Longrightarrow>
     \<exists>as. parse_args (length bs) r = (Inr as, advance (length (concat (map bulk_wire bs))) r) \<and> denotes r as bs"
proof (induction bs arbitrary: r)
  case Nil
  then show ?case by (auto simp: seq_simps)
next
  case (Cons b bs)
  obtain a where a: "parse_arg r = (Inr a, advance (length (bulk_wire b)) r)" "map_option (slice_bytes r) a = Some b"
    using parse_arg_pending [OF Cons.prems(1), of b "concat (map bulk_wire bs) @ t"] Cons.prems(2,3)
    by (simp del: map_option_eq_Some) blast
  let ?r = "advance (length (bulk_wire b)) r"
  have "br_ok ?r" by (rule br_ok_advance [OF Cons.prems(1)]) (simp add: Cons.prems(2))
  moreover have "pending ?r = concat (map bulk_wire bs) @ t" using Cons.prems(2) by simp
  ultimately obtain as where as: "parse_args (length bs) ?r = (Inr as, advance (length (concat (map bulk_wire bs))) ?r)"
      "denotes ?r as bs"
    using Cons.IH [of ?r] Cons.prems(3) by auto
  have "parse_args (length (b # bs)) r = (Inr (a # as), advance (length (concat (map bulk_wire bs))) ?r)"
    by (simp add: bindIO_def a(1) as(1) returnIO_def del: advance_simps)
  then show ?case using a(2) as(2) by auto
qed

lemma parseBinary_pending:
  assumes "br_ok r" "pending r = command_wire bs @ t" "\<forall>b \<in> set bs. arg_ok b" "int (length bs) \<le> maxArg" "maxArg < 2 ^ 63"
  shows "\<exists>as w. parseBinary maxArg r =
      (Inr (Some \<lparr>Argv = as, argvSingle = None, Raw = Some w, cmd_last = False\<rparr>), advance (length (command_wire bs)) r) \<and>
    denotes r as bs \<and> slice_bytes r w = command_wire bs"
proof -
  let ?F = "FormatInt (int (length bs))" and ?C = "concat (map bulk_wire bs)"
  have p: "pending r = CHR ''*'' # ?F @ CR # LF # ?C @ t" using assms(2) by (simp add: command_wire_def)
  let ?r1 = "advance 1 r" let ?r2 = "advance (length ?F) ?r1" let ?r3 = "advance 2 ?r2" let ?r4 = "advance (length ?C) ?r3"
  have ok: "br_ok ?r1" "br_ok ?r2" "br_ok ?r3"
    using assms(1) p by (simp_all only: advance_simps) (rule br_ok_advance, simp_all)+
  have n: "readNumber ?r1 = (Inr (int (length bs)), ?r2)"
    using readNumber_pending [OF ok(1), of "length bs"] p assms(4,5) by (simp add: in_int64_def)
  have d: "discardNewLine ?r2 = (Inr (), ?r3)" by (rule discardNewLine_pending [OF ok(2), of "?C @ t"]) (simp add: p)
  obtain as where as: "parse_args (length bs) ?r3 = (Inr as, ?r4)" "denotes ?r3 as bs"
    using parse_args_pending [OF ok(3), of bs t] assms(3) p by auto
  let ?n = "length (command_wire bs)"
  have r4: "?r4 = advance ?n r" by (simp add: command_wire_def)
  have w: "raw_slice (ReadPosition r) (advance ?n r) = Some (here ?n r)"
    by (simp add: raw_slice_def here_def command_wire_def)
  have "slice_bytes r (here ?n r) = command_wire bs"
    using slice_bytes_here [OF assms(1), of ?n] assms(2) by simp
  moreover have "parseBinary maxArg r =
      (Inr (Some \<lparr>Argv = as, argvSingle = None, Raw = Some (here ?n r), cmd_last = False\<rparr>), advance ?n r)"
    using assms(4) by (simp add: parseBinary_def bindIO_def n d as(1) r4 w del: advance_simps One_nat_def)
  moreover have "denotes r as bs" using as(2) by simp
  ultimately show ?thesis by blast
qed

definition command_ok :: "int \<Rightarrow> bytes list \<Rightarrow> bool" where
  "command_ok maxArg bs \<longleftrightarrow> int (length bs) \<le> maxArg \<and> (\<forall>b \<in> set bs. arg_ok b)"

text \<open>A command as \<open>ReadCommand\<close> returns it, with its slices in \<open>r\<close>.\<close>

definition shows_command :: "buf_reader \<Rightarrow> command option \<Rightarrow> bytes list \<Rightarrow> bool" where
  "shows_command r c bs \<longleftrightarrow> (\<exists>k. c = Some k \<and> denotes r (Argv k) bs \<and> map_option (slice_bytes r) (Raw k) = Some (command_wire bs))"

lemma shows_command_mem: "mem r' = mem r \<Longrightarrow> shows_command r' c bs = shows_command r c bs"
proof -
  assume m: "mem r' = mem r"
  then have "slice_bytes r' = slice_bytes r" by (simp add: slice_bytes_def fun_eq_iff)
  then show ?thesis using denotes_mem [OF m] by (simp add: shows_command_def)
qed

lemma command_wire_not_Nil [simp]: "command_wire bs \<noteq> []"
  by (simp add: command_wire_def)

lemma fetch_pending: "br_ok r \<Longrightarrow> pending r \<noteq> [] \<Longrightarrow> fetch r = (Inr (), r)"
  using length_pending [of r] by (cases "pending r") (auto simp: fetch_def)

lemma ReadCommand_pending:
  assumes "br_ok r" "pending r = command_wire bs @ t" "command_ok MaxNumArg bs"
  shows "\<exists>c r'. ReadCommand r = Ret (Inr c, r') \<and> shows_command r' c bs \<and> mem r' = mem r \<and> br_src r' = br_src r \<and>
    map_option cmd_last c = Some (t = []) \<and> br_ok r' \<and> pending r' = t \<and> (t = [] \<longrightarrow> WritePosition r' = 0) \<and>
    map_option Raw c = Some (Some (here (length (command_wire bs)) r))"
proof -
  let ?n = "length (command_wire bs)"
  have q: "\<forall>b \<in> set bs. arg_ok b" "int (length bs) \<le> MaxNumArg" "MaxNumArg < 2 ^ 63"
    using assms(3) by (simp_all add: command_ok_def MaxNumArg_def)
  obtain as w where p: "parseBinary MaxNumArg r =
      (Inr (Some \<lparr>Argv = as, argvSingle = None, Raw = Some w, cmd_last = False\<rparr>), advance ?n r)" and
    d: "denotes r as bs" "slice_bytes r w = command_wire bs"
    using parseBinary_pending [OF assms(1,2) q] by blast
  have w: "w = here ?n r"
    using p by (auto simp: parseBinary_def bindIO_def returnIO_def failIO_def raw_slice_def here_def split: prod.splits sum.splits if_splits)
  have b: "Buffer r ! ReadPosition r = CHR ''*''"
    using Buffer_pending [OF assms(1), of 0] assms(2) by (simp add: command_wire_def)
  have e: "WritePosition r \<le> ReadPosition r + ?n \<longleftrightarrow> t = []"
    using length_pending [OF assms(1)] assms(2) command_wire_not_Nil [of bs] by (cases t) (auto simp: le_diff_conv)
  let ?r = "if t = [] then Reset (advance ?n r) else advance ?n r"
  let ?c = "\<lparr>Argv = as, argvSingle = None, Raw = Some w, cmd_last = (t = [])\<rparr>"
  have "ReadCommand r = Ret (Inr (Some ?c), ?r)"
    using fetch_pending [OF assms(1)] assms(2) b p e by (simp add: ReadCommand_def mark_last_def IsEnd_def)
  moreover have m: "mem ?r = mem r" "br_src ?r = br_src r" by (simp_all add: Reset_def)
  moreover have "shows_command ?r (Some ?c) bs"
    using d shows_command_mem [OF m(1), of "Some ?c" bs] by (simp add: shows_command_def del: map_option_eq_Some)
  moreover have "br_ok ?r" using br_ok_advance [OF assms(1), of ?n] br_ok_Reset assms(2) by simp
  moreover have "pending (Reset (advance ?n r)) = []" by (simp add: Reset_def pending_def buf_slice_self)
  then have "pending ?r = t" using assms(2) by simp
  ultimately show ?thesis using w by (intro exI [of _ "Some ?c"] exI [of _ ?r]) (simp add: Reset_def)
qed

text \<open>The last flags of a pipeline.\<close>

fun flags :: "nat \<Rightarrow> bool list" where
  "flags 0 = []"
| "flags (Suc n) = (n = 0) # flags n"

lemma flags_Suc: "flags (Suc n) = replicate n False @ [True]"
  by (induction n) simp_all

lemma Commands_pending:
  "br_ok r \<Longrightarrow> pending r = concat (map command_wire cmds) \<Longrightarrow> \<forall>bs \<in> set cmds. command_ok MaxNumArg bs \<Longrightarrow>
     \<exists>cs r'. Commands (length cmds) r = Ret (cs, r') \<and> mem r' = mem r \<and> br_src r' = br_src r \<and> br_ok r' \<and> pending r' = [] \<and>
       list_all2 (shows_command r') cs cmds \<and>
       map (map_option cmd_last) cs = map Some (flags (length cmds)) \<and>
       (cmds \<noteq> [] \<longrightarrow> WritePosition r' = 0)"
proof (induction cmds arbitrary: r)
  case Nil
  then show ?case by auto
next
  case (Cons bs cmds)
  let ?t = "concat (map command_wire cmds)"
  have tn: "?t = [] \<longleftrightarrow> cmds = []" by (cases cmds) simp_all
  obtain c r1 where c: "ReadCommand r = Ret (Inr c, r1)" "shows_command r1 c bs" "mem r1 = mem r" "br_src r1 = br_src r"
      "map_option cmd_last c = Some (?t = [])" "br_ok r1" "pending r1 = ?t" "?t = [] \<longrightarrow> WritePosition r1 = 0"
    using ReadCommand_pending [OF Cons.prems(1), of bs ?t] Cons.prems(2,3) by auto
  obtain cs r2 where cs: "Commands (length cmds) r1 = Ret (cs, r2)" "mem r2 = mem r1" "br_src r2 = br_src r1" "br_ok r2"
      "pending r2 = []" "list_all2 (shows_command r2) cs cmds"
      "map (map_option cmd_last) cs = map Some (flags (length cmds))"
      "cmds \<noteq> [] \<longrightarrow> WritePosition r2 = 0"
    using Cons.IH [OF c(6,7)] Cons.prems(3) by auto
  have "Commands (length (bs # cmds)) r = Ret (c # cs, r2)" using c(1) cs(1) by simp
  moreover have "shows_command r2 c bs" using c(2) shows_command_mem [OF cs(2)] by simp
  moreover have "map (map_option cmd_last) (c # cs) = map Some (flags (length (bs # cmds)))"
    using c(5) cs(7) tn by simp
  moreover have "WritePosition r2 = 0" using cs(1,8) c(8) tn by (cases cmds) auto
  ultimately show ?case using c cs by (intro exI [of _ "c # cs"] exI [of _ r2]) simp
qed

text \<open>The reader after a chunk that fits has come in.\<close>

definition loaded :: "bytes \<Rightarrow> source \<Rightarrow> buf_reader \<Rightarrow> buf_reader" where
  "loaded d src r = r\<lparr>br_src := src, mem := butlast (mem r) @ [write_at (Buffer r) 0 d], WritePosition := length d, ReadPosition := 0\<rparr>"

lemma loaded_ok:
  assumes "br_ok r" "length d \<le> length (Buffer r)"
  shows "br_ok (loaded d src r)" "pending (loaded d src r) = d" "length (mem (loaded d src r)) = length (mem r)"
    "length (Buffer (loaded d src r)) = length (Buffer r)" "ReadPosition (loaded d src r) = 0" "br_src (loaded d src r) = src"
  using assms by (auto simp: loaded_def br_ok_def pending_def length_write_at buf_slice_def write_at_def)

lemma fetch_loads:
  assumes "br_ok r" "WritePosition r = 0" "br_src r = (d, None) # src" "d \<noteq> []" "length d \<le> length (Buffer r)"
  shows "fetch r = (Inr (), loaded d src r)"
proof -
  have "ReadPosition r = 0" using assms(1,2) by (simp add: br_ok_def)
  moreover have "Suc 0 \<le> length d" using assms(4) by (cases d) simp_all
  ultimately show ?thesis using ReadSome_chunk [OF assms(1,3), of 1] assms(2,5) by (simp add: fetch_def loaded_def)
qed

lemma Commands_loads:
  assumes "fetch r = (Inr (), loaded d src r)" "br_ok (loaded d src r)" "pending (loaded d src r) \<noteq> []"
  shows "Commands n r = Commands n (loaded d src r) \<or> n = 0"
  using assms(1) fetch_pending [OF assms(2,3)] by (cases n) (simp_all add: ReadCommand_def)

lemma Buf_NewReader_ok: "br_ok (Buf_NewReader src)" "WritePosition (Buf_NewReader src) = 0" "br_src (Buf_NewReader src) = src"
  "length (Buffer (Buf_NewReader src)) = 1024" "length (mem (Buf_NewReader src)) = 1" "ReadPosition (Buf_NewReader src) = 0"
  by (simp_all add: Buf_NewReader_def br_ok_def bufStepSize_def)

section \<open>Input that is cut\<close>

lemma number_loop_restarts:
  "scan_digits n (pending r) = (m, k) \<Longrightarrow> IsEnd (advance k r) = (True, r1) \<Longrightarrow> ReadSome 1 r1 = (Inr (), r2) \<Longrightarrow>
     number_loop n r = number_loop m r2"
  by (subst number_loop.simps) simp

lemma number_loop_stops:
  "scan_digits n (pending r) = (m, k) \<Longrightarrow> IsEnd (advance k r) = (False, r1) \<Longrightarrow> number_loop n r = (Inr m, r1)"
  by (subst number_loop.simps) simp

lemma readNumber_nothing:
  "RequireNBytes 1 r = (Inr (), r) \<Longrightarrow> is_digit (Buffer r ! ReadPosition r) \<Longrightarrow> number_loop 0 r = (Inr v, r') \<Longrightarrow>
     ReadPosition r' = ReadPosition r \<Longrightarrow> readNumber r = (Inl ExpectNumber, r')"
  using not_digit_consts(1,2) by (auto simp: readNumber_def bindIO_def Let_def)

lemma parseBinary_bad_number:
  "readNumber (advance 1 r) = (Inl e, r') \<Longrightarrow> parseBinary m r = (Inl e, r')"
  by (simp add: parseBinary_def bindIO_def)

section \<open>Properties\<close>

text \<open>C34. A pipeline of commands that arrives in one piece and fits the buffer is read command by command:
  each has its arguments and its raw bytes, all of them still readable at the end, only the final one is
  marked as the last, and nothing is left in the buffer.\<close>

theorem pipeline_read:
  assumes "d = concat (map command_wire cmds)" "cmds \<noteq> []" "\<forall>bs \<in> set cmds. command_ok MaxNumArg bs" "length d \<le> 1024"
  shows "\<exists>cs r'. Commands (length cmds) (Buf_NewReader ((d, None) # src)) = Ret (cs, r') \<and>
    list_all2 (shows_command r') cs cmds \<and>
    map (map_option cmd_last) cs = map Some (replicate (length cmds - 1) False @ [True]) \<and>
    br_src r' = src \<and> pending r' = []"
proof -
  let ?r = "Buf_NewReader ((d, None) # src)"
  note n = Buf_NewReader_ok [of "(d, None) # src"]
  have d: "d \<noteq> []" using assms(1,2) by (cases cmds) simp_all
  note l = loaded_ok [OF n(1), of d src]
  have fit: "length d \<le> length (Buffer ?r)" using n(4) assms(4) by simp
  have "Commands (length cmds) ?r = Commands (length cmds) (loaded d src ?r)"
    using Commands_loads [OF fetch_loads [OF n(1,2,3) d fit] l(1) [OF fit]] l(2) [OF fit] d assms(2) by auto
  moreover obtain cs r' where "Commands (length cmds) (loaded d src ?r) = Ret (cs, r')" "br_src r' = src" "pending r' = []"
      "list_all2 (shows_command r') cs cmds" "map (map_option cmd_last) cs = map Some (replicate (length cmds - 1) False @ [True])"
    using Commands_pending [OF l(1) [OF fit], of cmds] l(2,6) [OF fit] assms(1-3) flags_Suc [of "length cmds - 1"] by auto
  ultimately show ?thesis by auto
qed

lemma pipeline_read_witness:
  "\<exists>cs r'. Commands 2 (Buf_NewReader [(command_wire [''GET'', ''a''] @ command_wire [''PING''], None)]) = Ret (cs, r') \<and>
    list_all2 (shows_command r') cs [[''GET'', ''a''], [''PING'']] \<and> map (map_option cmd_last) cs = [Some False, Some True]"
proof -
  have "length (FormatInt 1) \<le> 20" "length (FormatInt 2) \<le> 20" "length (FormatInt 3) \<le> 20" "length (FormatInt 4) \<le> 20"
    using FormatInt_length by (simp_all add: in_int64_def)
  then have l: "length (command_wire [''GET'', ''a''] @ command_wire [''PING'']) \<le> 1024"
    by (simp add: command_wire_def bulk_wire_def)
  have "\<exists>cs r'. Commands 2 (Buf_NewReader [(command_wire [''GET'', ''a''] @ command_wire [''PING''], None)]) = Ret (cs, r') \<and>
      list_all2 (shows_command r') cs [[''GET'', ''a''], [''PING'']] \<and> map (map_option cmd_last) cs = [Some False, Some True] \<and>
      br_src r' = [] \<and> pending r' = []"
    using pipeline_read [of "command_wire [''GET'', ''a''] @ command_wire [''PING'']" "[[''GET'', ''a''], [''PING'']]" "[]"] l
    by (simp add: command_ok_def arg_ok_def MaxNumArg_def MaxBulkSize_def numeral_2_eq_2 del: Commands.simps)
  then show ?thesis by (elim exE conjE) (intro exI conjI)
qed

text \<open>When a chunk ends inside a number the buffer is started over, and a number whose rest is as long as
  what had been read of it, sign not counted, is refused: a command that is cut behind the first of the two
  digits of its length ends in an error.\<close>

theorem cut_number_refused:
  assumes "is_digit c" "is_digit d" "length t < 1000"
  shows "\<exists>r'. ReadCommand (Buf_NewReader [([CHR ''*'', c], None), (d # CRLF @ t, None)]) = Ret (Inl ExpectNumber, r')"
proof -
  let ?cs = "[(d # CRLF @ t, None)]" and ?d1 = "[CHR ''*'', c]" and ?d2 = "d # CRLF @ t"
  let ?r = "Buf_NewReader ((?d1, None) # ?cs)"
  note n = Buf_NewReader_ok [of "(?d1, None) # ?cs"]
  let ?l = "loaded ?d1 ?cs ?r"
  have l: "br_ok ?l" "pending ?l = ?d1" "length (Buffer ?l) = 1024" "ReadPosition ?l = 0" "br_src ?l = ?cs"
    using loaded_ok [OF n(1), of ?d1 ?cs] n(4) by simp_all
  have f: "fetch ?r = (Inr (), ?l)" by (rule fetch_loads [OF n(1,2,3)]) (simp, use n(4) in simp)
  have b: "Buffer ?l ! ReadPosition ?l = CHR ''*''" using Buffer_pending [OF l(1), of 0] l(2) by simp
  let ?l1 = "advance 1 ?l"
  have l1: "br_ok ?l1" "pending ?l1 = [c]" using br_ok_advance [OF l(1), of 1] l(2) by simp_all
  have b1: "Buffer ?l1 ! ReadPosition ?l1 = c"
    using Buffer_pending [OF l(1), of 1] l(2,4) by simp
  let ?l2 = "Reset (advance 1 ?l1)"
  have len1: "1 \<le> length (pending ?l1)" unfolding l1(2) by simp
  have ok2: "br_ok ?l2" by (rule br_ok_Reset [OF br_ok_advance [OF l1(1) len1]])
  let ?m = "loaded ?d2 [] ?l2"
  have e2: "WritePosition ?l2 = 0" "br_src ?l2 = (?d2, None) # []" "length ?d2 \<le> length (Buffer ?l2)"
    using l(3,5) assms(3) by (simp_all add: Reset_def)
  have m: "br_ok ?m" "pending ?m = ?d2" "ReadPosition ?m = 0" using loaded_ok [OF ok2 e2(3), of "[]"] by simp_all
  have rs: "ReadSome 1 ?l2 = (Inr (), ?m)"
    using fetch_loads [OF ok2 e2(1,2) _ e2(3)] e2(1) by (simp add: fetch_def Reset_def)
  have w: "WritePosition ?l1 = 2" "ReadPosition ?l1 = 1" "WritePosition ?m = length ?d2"
    using l(4) by (simp_all add: loaded_def)
  have q: "RequireNBytes 1 ?l1 = (Inr (), ?l1)" by (rule RequireNBytes_pending [OF l1(1) len1])
  have s: "scan_digits 0 (pending ?l1) = (digit_val c, 1)"
    unfolding l1(2) using assms(1) digit_val_less [of c] by simp
  have ie: "IsEnd (advance 1 ?l1) = (True, ?l2)" using w(1,2) by (simp add: IsEnd_def)
  have "\<exists>v. scan_digits (digit_val c) (pending ?m) = (v, 1)" unfolding m(2) using assms(2) by simp
  then obtain v where v: "scan_digits (digit_val c) (pending ?m) = (v, 1)" by blast
  have nd: "\<not> length ?d2 \<le> 1" by simp
  have ie2: "IsEnd (advance 1 ?m) = (False, advance 1 ?m)" using w(3) m(3) nd by (simp add: IsEnd_def)
  have "number_loop 0 ?l1 = number_loop (digit_val c) ?m" by (rule number_loop_restarts [OF s ie rs])
  also have "\<dots> = (Inr v, advance 1 ?m)" by (rule number_loop_stops [OF v ie2])
  finally have nl: "number_loop 0 ?l1 = (Inr v, advance 1 ?m)" .
  have "ReadPosition (advance 1 ?m) = ReadPosition ?l1" using w(2) m(3) by simp
  then have "readNumber ?l1 = (Inl ExpectNumber, advance 1 ?m)"
    using assms(1) b1 by (intro readNumber_nothing [OF q _ nl]) simp_all
  then have "parseBinary MaxNumArg ?l = (Inl ExpectNumber, advance 1 ?m)" by (rule parseBinary_bad_number)
  then show ?thesis using f b by (simp add: ReadCommand_def mark_last_def split: prod.splits)
qed

lemma cut_number_refused_witness:
  "\<exists>r'. ReadCommand (Buf_NewReader [(''*1'', None), (''0'' @ CRLF @ ''$1'', None)]) = Ret (Inl ExpectNumber, r')"
  using cut_number_refused [of "CHR ''1''" "CHR ''0''" "''$1''"] by (simp add: is_digit_def)

text \<open>The commands share the buffer: when a second command of the same size comes in a chunk of its own, the
  raw bytes of the first one become those of the second, so a command taken from the channel of \<open>Commands\<close>
  may change while it is handled.\<close>

theorem next_read_overwrites:
  assumes "command_ok MaxNumArg bs" "command_ok MaxNumArg bs'" "length (command_wire bs) \<le> 1024"
    "length (command_wire bs') = length (command_wire bs)"
  shows "\<exists>c c' r'. Commands 2 (Buf_NewReader [(command_wire bs, None), (command_wire bs', None)]) = Ret ([Some c, Some c'], r') \<and>
    shows_command r' (Some c') bs' \<and> map_option (slice_bytes r') (Raw c) = Some (command_wire bs')"
proof -
  let ?w = "command_wire bs" and ?w' = "command_wire bs'"
  let ?r = "Buf_NewReader [(?w, None), (?w', None)]"
  note n = Buf_NewReader_ok [of "[(?w, None), (?w', None)]"]
  let ?l = "loaded ?w [(?w', None)] ?r"
  have l: "br_ok ?l" "pending ?l = ?w @ []" "length (Buffer ?l) = 1024" "ReadPosition ?l = 0" "br_src ?l = [(?w', None)]"
      "length (mem ?l) = 1"
    using loaded_ok [OF n(1), of ?w "[(?w', None)]"] n(4,5) assms(3) by simp_all
  have f: "fetch ?r = (Inr (), ?l)" by (rule fetch_loads [OF n(1,2,3)]) (simp_all add: n(4) assms(3))
  obtain c r1 where c: "ReadCommand ?l = Ret (Inr c, r1)" "mem r1 = mem ?l" "br_src r1 = br_src ?l" "br_ok r1" "WritePosition r1 = 0"
      "map_option Raw c = Some (Some (here (length ?w) ?l))"
    using ReadCommand_pending [OF l(1,2) assms(1)] by auto
  have c1: "ReadCommand ?r = Ret (Inr c, r1)"
    using c(1) f fetch_pending [OF l(1)] l(2) by (simp add: ReadCommand_def)
  let ?m = "loaded ?w' [] r1"
  have fit: "length ?w' \<le> length (Buffer r1)" using c(2) l(3) assms(3,4) by simp
  have m: "br_ok ?m" "pending ?m = ?w' @ []" "ReadPosition ?m = 0" "length (mem ?m) = 1"
    using loaded_ok [OF c(4) fit, of "[]"] c(2) l(6) by simp_all
  have g: "fetch r1 = (Inr (), ?m)" by (rule fetch_loads [OF c(4,5) _ _ fit]) (simp_all add: c(3) l(5))
  obtain c' r2 where c': "ReadCommand ?m = Ret (Inr c', r2)" "shows_command r2 c' bs'"
      "map_option Raw c' = Some (Some (here (length ?w') ?m))"
    using ReadCommand_pending [OF m(1,2) assms(2)] by auto
  have "ReadCommand r1 = Ret (Inr c', r2)"
    using c'(1) g fetch_pending [OF m(1)] m(2) by (simp add: ReadCommand_def)
  then have "Commands 2 ?r = Ret ([c, c'], r2)" using c1 by (simp add: numeral_2_eq_2)
  moreover obtain k where k: "c = Some k" "Raw k = Some (here (length ?w) ?l)" using c(6) by (cases c) auto
  moreover obtain k' where k': "c' = Some k'" "Raw k' = Some (here (length ?w') ?m)" using c'(3) by (cases c') auto
  moreover have "here (length ?w) ?l = here (length ?w') ?m" using l(4,6) m(3,4) assms(4) by (simp add: here_def)
  moreover have "map_option (slice_bytes r2) (Raw k') = Some ?w'"
    using c'(2) k' by (simp add: shows_command_def del: map_option_eq_Some)
  ultimately show ?thesis using c'(2) by (intro exI [of _ k] exI [of _ k'] exI [of _ r2]) simp
qed

lemma next_read_overwrites_witness:
  "\<exists>c c' r'. Commands 2 (Buf_NewReader [(command_wire [''GET'', ''a''], None), (command_wire [''SET'', ''b''], None)]) =
      Ret ([Some c, Some c'], r') \<and> shows_command r' (Some c') [''SET'', ''b''] \<and>
      map_option (slice_bytes r') (Raw c) = Some (command_wire [''SET'', ''b''])"
proof -
  have "length (FormatInt 1) \<le> 20" "length (FormatInt 2) \<le> 20" "length (FormatInt 3) \<le> 20"
    using FormatInt_length by (simp_all add: in_int64_def)
  then have "length (command_wire [''GET'', ''a'']) \<le> 1024" by (simp add: command_wire_def bulk_wire_def)
  then show ?thesis
    by (intro next_read_overwrites) (simp_all add: command_ok_def arg_ok_def MaxNumArg_def MaxBulkSize_def command_wire_def bulk_wire_def)
qed

end
