(* ===== verification/Handle_Writer.thy ===== *)
theory Handle_Writer
  imports Fast_Parser
begin

text \<open>
  The writers of \<open>utils/respecho/RedSHandle\<close>: the \<open>WriterHandle\<close> of \<open>writer.go\<close>, which the proxy answers its
  clients with, and the functions of \<open>fmt.go\<close>. They write to any writer of \<open>Stream_Spec\<close>. The error of a
  write that another one follows is ignored in \<open>writer.go\<close>; the properties hold for writers whose first error
  sticks. A slice that may be nil is an option.
\<close>

datatype write_obj =
    WNil
  | WBytes "bytes option"
  | WString bytes
  | WInt int
  | WOther bytes

definition nilBulk :: bytes where "nilBulk = ''$-1'' @ CRLF"
definition nilArray :: bytes where "nilArray = ''*-1'' @ CRLF"

definition intToString :: "int \<Rightarrow> bytes" where
  "intToString v = FormatInt v"

section \<open>writer.go\<close>

text \<open>Writes in a row, of which the last one's error counts.\<close>

fun write_row :: "'s writer_ops \<Rightarrow> bytes list \<Rightarrow> 's \<Rightarrow> go_error option \<times> 's" where
  "write_row ops [] s = (None, s)"
| "write_row ops [p] s = op_Write ops p s"
| "write_row ops (p # ps) s = (case op_Write ops p s of (_, s) \<Rightarrow> write_row ops ps s)"

text \<open>Only a \<open>bufio.Writer\<close> is flushed.\<close>

definition Flush_handle :: "bool \<Rightarrow> 's writer_ops \<Rightarrow> 's \<Rightarrow> go_error option \<times> 's" where
  "Flush_handle is_bufio ops s = (if is_bufio then op_Flush ops s else (None, s))"

definition WriteInt :: "'s writer_ops \<Rightarrow> int \<Rightarrow> 's \<Rightarrow> go_error option \<times> 's" where
  "WriteInt ops v = write_row ops ['':'', intToString v, CRLF]"

definition WriteBulk :: "'s writer_ops \<Rightarrow> bytes option \<Rightarrow> 's \<Rightarrow> go_error option \<times> 's" where
  "WriteBulk ops val = (case val of
     None \<Rightarrow> op_Write ops nilBulk
   | Some b \<Rightarrow> write_row ops [''$'', intToString (int (length b)), CRLF, b, CRLF])"

definition WriteBulkString :: "'s writer_ops \<Rightarrow> bytes \<Rightarrow> 's \<Rightarrow> go_error option \<times> 's" where
  "WriteBulkString ops s = WriteBulk ops (Some s)"

definition WriteSimpleString :: "'s writer_ops \<Rightarrow> bytes \<Rightarrow> 's \<Rightarrow> go_error option \<times> 's" where
  "WriteSimpleString ops s = write_row ops [''+'', s, CRLF]"

definition WriteError :: "'s writer_ops \<Rightarrow> bytes \<Rightarrow> 's \<Rightarrow> go_error option \<times> 's" where
  "WriteError ops s = write_row ops [''-'', s, CRLF]"

fun WriteObject :: "'s writer_ops \<Rightarrow> write_obj \<Rightarrow> 's \<Rightarrow> go_error option \<times> 's" where
  "WriteObject ops WNil s = WriteBulk ops None s"
| "WriteObject ops (WBytes b) s = WriteBulk ops b s"
| "WriteObject ops (WString b) s = WriteBulkString ops b s"
| "WriteObject ops (WInt i) s = WriteInt ops i s"
| "WriteObject ops (WOther t) s = (Some (Formatted (''Value not suppport '' @ t)), s)"

text \<open>The loop over elements ends at the first error.\<close>

fun write_elems :: "('a \<Rightarrow> 's \<Rightarrow> go_error option \<times> 's) \<Rightarrow> 'a list \<Rightarrow> 's \<Rightarrow> go_error option \<times> 's" where
  "write_elems f [] s = (None, s)"
| "write_elems f (x # xs) s = (case f x s of (Some e, s) \<Rightarrow> (Some e, s) | (None, s) \<Rightarrow> write_elems f xs s)"

definition write_list :: "'s writer_ops \<Rightarrow> ('a \<Rightarrow> 's \<Rightarrow> go_error option \<times> 's) \<Rightarrow> 'a list option \<Rightarrow> 's \<Rightarrow> go_error option \<times> 's" where
  "write_list ops f xs s = (case xs of
     None \<Rightarrow> op_Write ops nilArray s
   | Some xs \<Rightarrow> (case write_row ops [''*'', intToString (int (length xs)), CRLF] s of (_, s) \<Rightarrow> write_elems f xs s))"

definition WriteObjects :: "'s writer_ops \<Rightarrow> write_obj list option \<Rightarrow> 's \<Rightarrow> go_error option \<times> 's" where
  "WriteObjects ops objs = write_list ops (WriteObject ops) objs"

definition WriteBulks :: "'s writer_ops \<Rightarrow> bytes option list option \<Rightarrow> 's \<Rightarrow> go_error option \<times> 's" where
  "WriteBulks ops bulks = write_list ops (WriteBulk ops) bulks"

definition WriteBulkStrings :: "'s writer_ops \<Rightarrow> bytes list option \<Rightarrow> 's \<Rightarrow> go_error option \<times> 's" where
  "WriteBulkStrings ops bulks = write_list ops (WriteBulkString ops) bulks"

section \<open>fmt.go\<close>

text \<open>The functions of \<open>fmt.go\<close> stop at the first error and then flush.\<close>

definition then_write :: "('s \<Rightarrow> go_error option \<times> 's) \<Rightarrow> ('s \<Rightarrow> go_error option \<times> 's) \<Rightarrow> 's \<Rightarrow> go_error option \<times> 's" where
  "then_write f g s = (case f s of (Some e, s) \<Rightarrow> (Some e, s) | (None, s) \<Rightarrow> g s)"

definition SendError :: "'s writer_ops \<Rightarrow> bytes \<Rightarrow> 's \<Rightarrow> go_error option \<times> 's" where
  "SendError ops msg = then_write (op_Write ops (''-'' @ msg @ CRLF)) (op_Flush ops)"

definition SendString :: "'s writer_ops \<Rightarrow> bytes \<Rightarrow> 's \<Rightarrow> go_error option \<times> 's" where
  "SendString ops msg = then_write (op_Write ops (''+'' @ msg @ CRLF)) (op_Flush ops)"

definition sendInt :: "'s writer_ops \<Rightarrow> int \<Rightarrow> 's \<Rightarrow> go_error option \<times> 's" where
  "sendInt ops v = op_Write ops ('':'' @ intToString v @ CRLF)"

definition SendInt :: "'s writer_ops \<Rightarrow> int \<Rightarrow> 's \<Rightarrow> go_error option \<times> 's" where
  "SendInt ops v = then_write (sendInt ops v) (op_Flush ops)"

definition sendBulk :: "'s writer_ops \<Rightarrow> bytes option \<Rightarrow> 's \<Rightarrow> go_error option \<times> 's" where
  "sendBulk ops val = (case val of
     None \<Rightarrow> op_Write ops nilBulk
   | Some b \<Rightarrow> then_write (op_Write ops (''$'' @ intToString (int (length b)) @ CRLF))
                (then_write (op_Write ops b) (op_Write ops CRLF)))"

definition SendBulk :: "'s writer_ops \<Rightarrow> bytes option \<Rightarrow> 's \<Rightarrow> go_error option \<times> 's" where
  "SendBulk ops val = then_write (sendBulk ops val) (op_Flush ops)"

text \<open>The shape of \<open>sendBulks\<close> and \<open>SendObjects\<close>: for a nil slice the error of the write is overwritten.\<close>

definition send_list :: "'s writer_ops \<Rightarrow> ('a \<Rightarrow> 's \<Rightarrow> go_error option \<times> 's) \<Rightarrow> 'a list option \<Rightarrow> 's \<Rightarrow> go_error option \<times> 's" where
  "send_list ops f xs s = (case xs of
     None \<Rightarrow> (case op_Write ops nilArray s of (_, s) \<Rightarrow> op_Flush ops s)
   | Some xs \<Rightarrow> then_write (op_Write ops (''*'' @ intToString (int (length xs)) @ CRLF))
                 (then_write (write_elems f xs) (op_Flush ops)) s)"

definition sendBulks :: "'s writer_ops \<Rightarrow> bytes option list option \<Rightarrow> 's \<Rightarrow> go_error option \<times> 's" where
  "sendBulks ops vals = send_list ops (SendBulk ops) vals"

definition SendBulks :: "'s writer_ops \<Rightarrow> bytes option list option \<Rightarrow> 's \<Rightarrow> go_error option \<times> 's" where
  "SendBulks ops vals = then_write (sendBulks ops vals) (op_Flush ops)"

text \<open>Here a value of another type is logged and skipped.\<close>

fun sendObject :: "'s writer_ops \<Rightarrow> write_obj \<Rightarrow> 's \<Rightarrow> go_error option \<times> 's" where
  "sendObject ops (WInt i) s = sendInt ops i s"
| "sendObject ops (WBytes b) s = sendBulk ops b s"
| "sendObject ops _ s = (None, s)"

definition SendObjects :: "'s writer_ops \<Rightarrow> write_obj list option \<Rightarrow> 's \<Rightarrow> go_error option \<times> 's" where
  "SendObjects ops vals = send_list ops (sendObject ops) vals"

definition SendBulkString :: "'s writer_ops \<Rightarrow> bytes \<Rightarrow> 's \<Rightarrow> go_error option \<times> 's" where
  "SendBulkString ops str = SendBulk ops (Some str)"

definition SendBulkStrings :: "'s writer_ops \<Rightarrow> bytes list option \<Rightarrow> 's \<Rightarrow> go_error option \<times> 's" where
  "SendBulkStrings ops strs = SendBulks ops (map_option (map Some) strs)"

section \<open>What is written\<close>

definition opt_wire :: "bytes option \<Rightarrow> bytes" where
  "opt_wire b = (case b of None \<Rightarrow> nilBulk | Some b \<Rightarrow> bulk_wire b)"

fun object_wire :: "write_obj \<Rightarrow> bytes" where
  "object_wire WNil = nilBulk"
| "object_wire (WBytes b) = opt_wire b"
| "object_wire (WString b) = bulk_wire b"
| "object_wire (WInt i) = '':'' @ FormatInt i @ CRLF"
| "object_wire (WOther t) = []"

fun known :: "write_obj \<Rightarrow> bool" where
  "known (WOther _) \<longleftrightarrow> False"
| "known _ \<longleftrightarrow> True"

definition list_wire :: "('a \<Rightarrow> bytes) \<Rightarrow> 'a list option \<Rightarrow> bytes" where
  "list_wire f xs = (case xs of None \<Rightarrow> nilArray | Some xs \<Rightarrow> ''*'' @ FormatInt (int (length xs)) @ CRLF @ concat (map f xs))"

context sticky_writer
begin

text \<open>\<open>puts b f p\<close>: a call without an error wrote \<open>p\<close>, one with an error broke the writer, and, when \<open>b\<close>, on a
  broken writer it fails. \<open>gets_by f\<close>: on a good writer it succeeds.\<close>

definition puts :: "bool \<Rightarrow> ('s \<Rightarrow> go_error option \<times> 's) \<Rightarrow> bytes \<Rightarrow> bool" where
  "puts b f p \<longleftrightarrow> (\<forall>s e s'. f s = (e, s') \<longrightarrow> (b \<longrightarrow> broken s \<longrightarrow> broken s' \<and> e \<noteq> None) \<and> (e \<noteq> None \<longrightarrow> broken s') \<and>
     (e = None \<longrightarrow> wok s \<longrightarrow> wok s' \<and> sent s' = sent s @ p))"

definition gets_by :: "('s \<Rightarrow> go_error option \<times> 's) \<Rightarrow> bool" where
  "gets_by f \<longleftrightarrow> (\<forall>s. wlive s \<longrightarrow> (\<exists>s'. f s = (None, s') \<and> wlive s'))"

lemma puts_Write: "puts b (op_Write wops p) p"
  unfolding puts_def using Write_breaks Write_broken Write_sent by blast

lemma gets_by_Write: "gets_by (op_Write wops p)"
  unfolding gets_by_def using Write_live by blast

lemma puts_ignore:
  assumes "puts True f p" "puts True g q"
  shows "puts True (\<lambda>s. case f s of (_, s) \<Rightarrow> g s) (p @ q)"
  unfolding puts_def
proof (intro allI impI)
  fix s e s' assume r: "(case f s of (_, s) \<Rightarrow> g s) = (e, s')"
  obtain e1 s1 where 1: "f s = (e1, s1)" by (metis surj_pair)
  have 2: "g s1 = (e, s')" using r 1 by simp
  have F: "broken s \<Longrightarrow> broken s1" "e1 \<noteq> None \<Longrightarrow> broken s1" "e1 = None \<Longrightarrow> wok s \<Longrightarrow> wok s1 \<and> sent s1 = sent s @ p"
    using assms(1) 1 unfolding puts_def by blast+
  have G: "broken s1 \<Longrightarrow> broken s' \<and> e \<noteq> None" "e \<noteq> None \<Longrightarrow> broken s'" "e = None \<Longrightarrow> wok s1 \<Longrightarrow> wok s' \<and> sent s' = sent s1 @ q"
    using assms(2) 2 unfolding puts_def by blast+
  have "e = None \<Longrightarrow> e1 = None" using F(2) G(1) by blast
  then show "(True \<longrightarrow> broken s \<longrightarrow> broken s' \<and> e \<noteq> None) \<and> (e \<noteq> None \<longrightarrow> broken s') \<and>
      (e = None \<longrightarrow> wok s \<longrightarrow> wok s' \<and> sent s' = sent s @ p @ q)"
    using F G by auto
qed

lemma puts_then:
  assumes "puts b f p" "puts False g q"
  shows "puts b (then_write f g) (p @ q)"
  unfolding puts_def
proof (intro allI impI)
  fix s e s' assume r: "then_write f g s = (e, s')"
  obtain e1 s1 where 1: "f s = (e1, s1)" by (metis surj_pair)
  have F: "b \<Longrightarrow> broken s \<Longrightarrow> broken s1 \<and> e1 \<noteq> None" "e1 \<noteq> None \<Longrightarrow> broken s1" "e1 = None \<Longrightarrow> wok s \<Longrightarrow> wok s1 \<and> sent s1 = sent s @ p"
    using assms(1) 1 unfolding puts_def by blast+
  show "(b \<longrightarrow> broken s \<longrightarrow> broken s' \<and> e \<noteq> None) \<and> (e \<noteq> None \<longrightarrow> broken s') \<and>
      (e = None \<longrightarrow> wok s \<longrightarrow> wok s' \<and> sent s' = sent s @ p @ q)"
  proof (cases e1)
    case None
    then have "g s1 = (e, s')" using r 1 by (simp add: then_write_def)
    then have "e \<noteq> None \<Longrightarrow> broken s'" "e = None \<Longrightarrow> wok s1 \<Longrightarrow> wok s' \<and> sent s' = sent s1 @ q"
      using assms(2) unfolding puts_def by blast+
    then show ?thesis using F None by auto
  next
    case (Some x)
    then have "e = Some x" "s' = s1" using r 1 by (simp_all add: then_write_def)
    then show ?thesis using F Some by auto
  qed
qed

lemma gets_by_ignore: "gets_by f \<Longrightarrow> gets_by g \<Longrightarrow> gets_by (\<lambda>s. case f s of (_, s) \<Rightarrow> g s)"
  unfolding gets_by_def by fastforce

lemma gets_by_then: "gets_by f \<Longrightarrow> gets_by g \<Longrightarrow> gets_by (then_write f g)"
  unfolding gets_by_def then_write_def by fastforce

lemma puts_row: "ps \<noteq> [] \<Longrightarrow> puts True (write_row wops ps) (concat ps)"
proof (induction ps rule: list_nonempty_induct)
  case (single p)
  have "write_row wops [p] = op_Write wops p" by (rule ext) simp
  then show ?case using puts_Write by simp
next
  case (cons p ps)
  have "write_row wops (p # ps) = (\<lambda>s. case op_Write wops p s of (_, s) \<Rightarrow> write_row wops ps s)"
    using cons(1) by (intro ext) (cases ps, simp_all)
  then show ?case using puts_ignore [OF puts_Write cons(2)] by simp
qed

lemma gets_by_row: "ps \<noteq> [] \<Longrightarrow> gets_by (write_row wops ps)"
proof (induction ps rule: list_nonempty_induct)
  case (single p)
  have "write_row wops [p] = op_Write wops p" by (rule ext) simp
  then show ?case using gets_by_Write by simp
next
  case (cons p ps)
  have "write_row wops (p # ps) = (\<lambda>s. case op_Write wops p s of (_, s) \<Rightarrow> write_row wops ps s)"
    using cons(1) by (intro ext) (cases ps, simp_all)
  then show ?case using gets_by_ignore [OF gets_by_Write cons(2)] by simp
qed

lemma puts_elems: "(\<And>x. x \<in> set xs \<Longrightarrow> puts True (f x) (g x)) \<Longrightarrow> puts False (write_elems f xs) (concat (map g xs))"
proof (induction xs)
  case Nil
  then show ?case by (simp add: puts_def)
next
  case (Cons x xs)
  have "write_elems f (x # xs) = then_write (f x) (write_elems f xs)" by (rule ext) (simp add: then_write_def)
  moreover have "puts True (f x) (g x)" by (rule Cons.prems) simp
  then have "puts False (f x) (g x)" unfolding puts_def by blast
  moreover have "puts False (write_elems f xs) (concat (map g xs))" by (rule Cons.IH, rule Cons.prems) simp
  ultimately show ?case using puts_then by simp
qed

lemma gets_by_elems: "(\<And>x. x \<in> set xs \<Longrightarrow> gets_by (f x)) \<Longrightarrow> gets_by (write_elems f xs)"
proof (induction xs)
  case Nil
  then show ?case by (simp add: gets_by_def)
next
  case (Cons x xs)
  have "write_elems f (x # xs) = then_write (f x) (write_elems f xs)" by (rule ext) (simp add: then_write_def)
  moreover have "gets_by (f x)" "gets_by (write_elems f xs)"
    by (rule Cons.prems, simp) (rule Cons.IH, rule Cons.prems, simp)
  ultimately show ?case using gets_by_then by simp
qed

lemma puts_WriteInt: "puts True (WriteInt wops v) ('':'' @ FormatInt v @ CRLF)"
  using puts_row [of "['':'', intToString v, CRLF]"] by (simp add: WriteInt_def intToString_def)

lemma puts_WriteBulk: "puts True (WriteBulk wops b) (opt_wire b)"
  using puts_row [of "[''$'', intToString (int (length (the b))), CRLF, the b, CRLF]"] puts_Write
  by (cases b) (simp_all add: WriteBulk_def intToString_def opt_wire_def bulk_wire_def)

lemma puts_WriteBulkString: "puts True (WriteBulkString wops b) (bulk_wire b)"
  using puts_WriteBulk [of "Some b"] by (simp add: WriteBulkString_def opt_wire_def)

lemma puts_WriteSimpleString: "puts True (WriteSimpleString wops b) (''+'' @ b @ CRLF)"
  using puts_row [of "[''+'', b, CRLF]"] by (simp add: WriteSimpleString_def)

lemma puts_WriteError: "puts True (WriteError wops b) (''-'' @ b @ CRLF)"
  using puts_row [of "[''-'', b, CRLF]"] by (simp add: WriteError_def)

lemma puts_WriteObject:
  assumes "known x"
  shows "puts True (WriteObject wops x) (object_wire x)"
proof (cases x)
  case WNil
  then have "WriteObject wops x = WriteBulk wops None" by (intro ext) simp
  then show ?thesis using puts_WriteBulk [of None] WNil by (simp add: opt_wire_def)
next
  case (WBytes b)
  then have "WriteObject wops x = WriteBulk wops b" by (intro ext) simp
  then show ?thesis using puts_WriteBulk WBytes by simp
next
  case (WString b)
  then have "WriteObject wops x = WriteBulkString wops b" by (intro ext) simp
  then show ?thesis using puts_WriteBulkString WString by simp
next
  case (WInt i)
  then have "WriteObject wops x = WriteInt wops i" by (intro ext) simp
  then show ?thesis using puts_WriteInt WInt by simp
next
  case (WOther t)
  then show ?thesis using assms by simp
qed

lemma gets_by_WriteBulk: "gets_by (WriteBulk wops b)"
  using gets_by_row [of "[''$'', intToString (int (length (the b))), CRLF, the b, CRLF]"] gets_by_Write
  by (cases b) (simp_all add: WriteBulk_def)

lemma gets_by_WriteInt: "gets_by (WriteInt wops v)"
  unfolding WriteInt_def by (rule gets_by_row) simp

lemma gets_by_WriteObject:
  assumes "known x"
  shows "gets_by (WriteObject wops x)"
proof -
  have "WriteObject wops x = (case x of WNil \<Rightarrow> WriteBulk wops None | WBytes b \<Rightarrow> WriteBulk wops b
      | WString b \<Rightarrow> WriteBulk wops (Some b) | WInt i \<Rightarrow> WriteInt wops i)"
    using assms by (intro ext) (cases x, simp_all add: WriteBulkString_def)
  then show ?thesis using assms gets_by_WriteBulk gets_by_WriteInt by (cases x) simp_all
qed

lemma list_as_ignore:
  "write_list wops f (Some xs) = (\<lambda>s. case write_row wops [''*'', intToString (int (length xs)), CRLF] s of (_, s) \<Rightarrow> write_elems f xs s)"
  by (rule ext) (simp add: write_list_def)

text \<open>The error of the header is ignored, but then the first element fails; when there is none, the last write
  of the header was the last write.\<close>

lemma puts_list:
  assumes "\<And>x. x \<in> set (case xs of None \<Rightarrow> [] | Some l \<Rightarrow> l) \<Longrightarrow> puts True (f x) (g x)"
    "xs \<noteq> Some []"
  shows "puts True (write_list wops f xs) (list_wire g xs)"
proof (cases xs)
  case None
  have "write_list wops f None = op_Write wops nilArray" by (rule ext) (simp add: write_list_def)
  then show ?thesis using puts_Write None by (simp add: list_wire_def)
next
  case (Some l)
  then obtain x l' where l: "l = x # l'" using assms(2) by (cases l) simp_all
  have "write_elems f l = then_write (f x) (write_elems f l')" using l by (intro ext) (simp add: then_write_def)
  moreover have "puts True (f x) (g x)" using assms(1) Some l by simp
  moreover have "puts False (write_elems f l') (concat (map g l'))" using assms(1) Some l by (intro puts_elems) simp
  ultimately have "puts True (write_elems f l) (concat (map g l))" using puts_then l by simp
  then show ?thesis
    using puts_ignore [OF puts_row [of "[''*'', intToString (int (length l)), CRLF]"]] Some
    by (simp add: list_as_ignore list_wire_def intToString_def)
qed

lemma gets_by_list:
  assumes "\<And>x. x \<in> set (case xs of None \<Rightarrow> [] | Some l \<Rightarrow> l) \<Longrightarrow> gets_by (f x)"
  shows "gets_by (write_list wops f xs)"
proof (cases xs)
  case None
  have "write_list wops f None = op_Write wops nilArray" by (rule ext) (simp add: write_list_def)
  then show ?thesis using gets_by_Write None by simp
next
  case (Some l)
  have "gets_by (write_elems f l)" using assms Some by (intro gets_by_elems) simp
  then show ?thesis
    using gets_by_ignore [OF gets_by_row [of "[''*'', intToString (int (length l)), CRLF]"]] Some by (simp add: list_as_ignore)
qed

text \<open>On a good writer a call writes what it should.\<close>

lemma puts_live:
  assumes "puts b f p" "gets_by f" "wlive s"
  shows "\<exists>s'. f s = (None, s') \<and> wlive s' \<and> sent s' = sent s @ p"
proof -
  obtain s' where "f s = (None, s')" "wlive s'" using assms(2,3) unfolding gets_by_def by blast
  moreover from this have "sent s' = sent s @ p" using assms(1,3) wlive_wok unfolding puts_def by blast
  ultimately show ?thesis by blast
qed

end

text \<open>\<open>SendObjects\<close> announces a value it skips: the client waits for an element that never comes.\<close>

lemma SendObjects_skips:
  assumes "sticky_writer ops wok wlive sent delivered broken" "wlive s"
  shows "\<exists>s'. SendObjects ops (Some [WString b]) s = (None, s') \<and> sent s' = sent s @ ''*1'' @ CRLF"
proof -
  have bw: "byte_writer ops wok wlive sent delivered" using assms(1) by (simp add: sticky_writer_def)
  let ?h = "''*'' @ intToString 1 @ CRLF"
  obtain s1 where 1: "op_Write ops ?h s = (None, s1)" "wlive s1" using byte_writer.Write_live [OF bw assms(2)] by blast
  have 2: "sent s1 = sent s @ ?h" using byte_writer.Write_sent [OF bw byte_writer.wlive_wok [OF bw assms(2)] 1(1)] by blast
  obtain s2 where 3: "op_Flush ops s1 = (None, s2)" using byte_writer.Flush_live [OF bw 1(2)] by blast
  have "sent s2 = sent s1" using byte_writer.Flush_sent [OF bw byte_writer.wlive_wok [OF bw 1(2)] 3] by blast
  moreover have "intToString 1 = ''1''" unfolding intToString_def by code_simp
  ultimately show ?thesis using 1 2 3 by (simp add: SendObjects_def send_list_def then_write_def)
qed

section \<open>Properties\<close>

lemma bufio_is_sticky: "sticky_writer bufio_writer wr_ok wr_live wr_sent (\<lambda>b. fst (wr_sink b)) (\<lambda>b. wr_err b \<noteq> None)"
  by (rule bufio_sticky.sticky_writer_axioms)

lemma new_writer_live: "wr_live (NewWriter ([], []))" "wr_sent (NewWriter ([], [])) = []" "wr_ok (NewWriter ([], []))"
  using NewWriterSize_ok [of "([], [])"] bufio.wlive_wok by (auto simp: NewWriter_def accepting_def)

text \<open>The answer to a command that gives several values: when \<open>WriteObjects\<close> reports no error, the whole array
  was written, although the errors of most of its writes are not looked at; and on a good writer it reports
  none.\<close>

theorem WriteObjects_delivers:
  assumes "sticky_writer ops wok wlive sent delivered broken" "wok s" "xs \<noteq> []" "\<forall>x \<in> set xs. known x"
  shows "(wlive s \<longrightarrow> fst (WriteObjects ops (Some xs) s) = None) \<and>
    (\<forall>s'. WriteObjects ops (Some xs) s = (None, s') \<longrightarrow> sent s' = sent s @ list_wire object_wire (Some xs))"
proof -
  have "sticky_writer.puts wok sent broken True (write_list ops (WriteObject ops) (Some xs)) (list_wire object_wire (Some xs))"
    using assms(3,4) by (intro sticky_writer.puts_list [OF assms(1)] sticky_writer.puts_WriteObject [OF assms(1)]) auto
  then have "\<forall>s'. WriteObjects ops (Some xs) s = (None, s') \<longrightarrow> sent s' = sent s @ list_wire object_wire (Some xs)"
    using assms(2) unfolding sticky_writer.puts_def [OF assms(1)] WriteObjects_def by blast
  moreover have "sticky_writer.gets_by wlive (write_list ops (WriteObject ops) (Some xs))"
    using assms(4) by (intro sticky_writer.gets_by_list [OF assms(1)] sticky_writer.gets_by_WriteObject [OF assms(1)]) auto
  then have "wlive s \<longrightarrow> fst (WriteObjects ops (Some xs) s) = None"
    unfolding sticky_writer.gets_by_def [OF assms(1)] WriteObjects_def by fastforce
  ultimately show ?thesis by blast
qed

lemma WriteObjects_delivers_witness:
  "fst (WriteObjects bufio_writer (Some [WInt 1, WNil]) (NewWriter ([], []))) = None \<and>
   (\<forall>s'. WriteObjects bufio_writer (Some [WInt 1, WNil]) (NewWriter ([], [])) = (None, s') \<longrightarrow>
      wr_sent s' = list_wire object_wire (Some [WInt 1, WNil]))"
  using WriteObjects_delivers [OF bufio_is_sticky new_writer_live(3), of "[WInt 1, WNil]"] new_writer_live by simp

text \<open>C35. What \<open>WriteBulkStrings\<close> writes on one side is read on the other, for a command with at least one argument,
  within the reader's limits and of at most 1024 bytes, the size of the reader's buffer, that arrives in one piece
  at a new reader: a good writer sends exactly the command, and \<open>ReadCommand\<close> gives its arguments, whatever pieces
  follow. One piece is needed: a command that is cut inside a number is refused (\<open>cut_number_refused\<close>).\<close>

theorem handle_roundtrip:
  assumes "sticky_writer ops wok wlive sent delivered broken" "wlive s" "command_ok MaxNumArg bs" "bs \<noteq> []"
    "length (command_wire bs) \<le> 1024"
  shows "\<exists>s' c r'. WriteBulkStrings ops (Some bs) s = (None, s') \<and> sent s' = sent s @ command_wire bs \<and>
    ReadCommand (Buf_NewReader ((drop (length (sent s)) (sent s'), None) # src)) = Ret (Inr c, r') \<and> shows_command r' c bs"
proof -
  let ?f = "write_list ops (WriteBulkString ops) (Some bs)"
  have "sticky_writer.puts wok sent broken True ?f (list_wire bulk_wire (Some bs))"
    using assms(4) by (intro sticky_writer.puts_list [OF assms(1)] sticky_writer.puts_WriteBulkString [OF assms(1)]) simp
  moreover have "sticky_writer.gets_by wlive ?f"
    unfolding WriteBulkString_def
    by (intro sticky_writer.gets_by_list [OF assms(1)]) (rule sticky_writer.gets_by_WriteBulk [OF assms(1)])
  ultimately obtain s' where w: "?f s = (None, s')" "sent s' = sent s @ list_wire bulk_wire (Some bs)"
    using sticky_writer.puts_live [OF assms(1) _ _ assms(2)] by blast
  have l: "list_wire bulk_wire (Some bs) = command_wire bs" by (simp add: list_wire_def command_wire_def)
  let ?r = "Buf_NewReader ((command_wire bs, None) # src)"
  note n = Buf_NewReader_ok [of "(command_wire bs, None) # src"]
  have fit: "length (command_wire bs) \<le> length (Buffer ?r)" using n(4) assms(5) by simp
  note ld = loaded_ok [OF n(1) fit, of src]
  obtain c r' where c: "ReadCommand (loaded (command_wire bs) src ?r) = Ret (Inr c, r')" "shows_command r' c bs"
    using ReadCommand_pending [OF ld(1) _ assms(3), of "[]"] ld(2) by auto
  have "ReadCommand ?r = ReadCommand (loaded (command_wire bs) src ?r)"
    using fetch_loads [OF n(1,2,3) command_wire_not_Nil fit] fetch_pending [OF ld(1)] ld(2) by (simp add: ReadCommand_def)
  then show ?thesis using w c l by (simp add: WriteBulkStrings_def)
qed

lemma handle_roundtrip_witness:
  "\<exists>s' c r'. WriteBulkStrings bufio_writer (Some [''GET'', ''a'']) (NewWriter ([], [])) = (None, s') \<and>
    ReadCommand (Buf_NewReader [(drop (length (wr_sent (NewWriter ([], [])))) (wr_sent s'), None)]) = Ret (Inr c, r') \<and>
    shows_command r' c [''GET'', ''a'']"
proof -
  have "length (FormatInt 1) \<le> 20" "length (FormatInt 2) \<le> 20" "length (FormatInt 3) \<le> 20"
    using FormatInt_length by (simp_all add: in_int64_def)
  then have l: "length (command_wire [''GET'', ''a'']) \<le> 1024" by (simp add: command_wire_def bulk_wire_def)
  show ?thesis
    using handle_roundtrip [OF bufio_is_sticky new_writer_live(1) _ _ l, of "[]"]
    by (simp add: command_ok_def arg_ok_def MaxNumArg_def MaxBulkSize_def) blast
qed

end
