(* ===== verification/Log_Proxy.thy ===== *)
theory Log_Proxy
  imports Log_Metrics Handle_Writer Credis_Wire
begin

text \<open>
  The session of a client of the log proxy (\<open>sc/resper.go\<close>): commands are decoded from the connection, and
  answered from the cluster, after the whitelist, sampling, the length of the list and the rate limiter have
  admitted a log. The connection has two directions: the decoder's reader and the writer \<open>px_out\<close>. The limiter,
  JSON and random numbers are parameters, and log lines are not modelled. A panic ends the session; the code
  then closes the connection, and the state it leaves is not modelled. \<open>None\<close> is a command that does not return.
\<close>

section \<open>State\<close>

record ('e, 'r, 'w, 'l, 'o) proxy_env =
  pe_world :: "('e, 'r, 'w) world"
  pe_out :: "'o writer_ops"
  pe_event :: marshal_event
  pe_json :: "(bytes \<times> bytes) list \<Rightarrow> go_error + bytes"
  pe_limit :: "'l \<Rightarrow> bytes \<Rightarrow> 'e \<Rightarrow> (int \<times> int) \<times> 'e"
  pe_scLogNum :: int

text \<open>\<open>pe_limit\<close> gives what the limiter has left and its tot.\<close>

record ('e, 'r, 'w, 'l, 'o) proxy =
  px_cluster :: "('e, 'r, 'w) cst"
  px_filter :: "'l log_filter"
  px_reporter :: reporter
  px_out :: 'o
  px_closed :: bool

definition str_of :: "resp \<Rightarrow> bytes" where
  "str_of r = (case Value r of None \<Rightarrow> [] | Some b \<Rightarrow> b)"

text \<open>An error line to the client and the end of the session, and a reply after which the session goes on, unless
  it could not be written.\<close>

definition write_error :: "('e, 'r, 'w, 'l, 'o) proxy_env \<Rightarrow> bytes \<Rightarrow> ('e, 'r, 'w, 'l, 'o) proxy \<Rightarrow> ('e, 'r, 'w, 'l, 'o) proxy" where
  "write_error pe msg px = px\<lparr>px_out := snd (Flush_handle False (pe_out pe) (snd (WriteError (pe_out pe) msg (px_out px))))\<rparr>"

definition close_conn :: "('e, 'r, 'w, 'l, 'o) proxy \<Rightarrow> ('e, 'r, 'w, 'l, 'o) proxy" where
  "close_conn px = px\<lparr>px_closed := True\<rparr>"

definition refuse :: "('e, 'r, 'w, 'l, 'o) proxy_env \<Rightarrow> bytes \<Rightarrow> ('e, 'r, 'w, 'l, 'o) proxy \<Rightarrow> ('e, 'r, 'w, 'l, 'o) proxy" where
  "refuse pe msg px = close_conn (write_error pe msg px)"

definition respond :: "('e, 'r, 'w, 'l, 'o) proxy_env \<Rightarrow> ('o \<Rightarrow> go_error option \<times> 'o) \<Rightarrow> ('e, 'r, 'w, 'l, 'o) proxy \<Rightarrow> ('e, 'r, 'w, 'l, 'o) proxy" where
  "respond pe f px = (case f (px_out px) of
     (Some _, out) \<Rightarrow> close_conn (px\<lparr>px_out := out\<rparr>)
   | (None, out) \<Rightarrow> (case Flush_handle False (pe_out pe) out of
       (Some _, out) \<Rightarrow> close_conn (px\<lparr>px_out := out\<rparr>)
     | (None, out) \<Rightarrow> px\<lparr>px_out := out\<rparr>))"

text \<open>A call of the cluster or of its environment.\<close>

definition on_cluster :: "(('e, 'r, 'w) cst \<Rightarrow> 'a \<times> ('e, 'r, 'w) cst) \<Rightarrow> ('e, 'r, 'w, 'l, 'o) proxy \<Rightarrow> 'a \<times> ('e, 'r, 'w, 'l, 'o) proxy" where
  "on_cluster f px = (case f (px_cluster px) of (x, s) \<Rightarrow> (x, px\<lparr>px_cluster := s\<rparr>))"

definition run_cluster :: "(('e, 'r, 'w) cst \<Rightarrow> ('a \<times> ('e, 'r, 'w) cst) outcome option) \<Rightarrow> ('a \<Rightarrow> ('e, 'r, 'w, 'l, 'o) proxy \<Rightarrow> 'b outcome option)
    \<Rightarrow> ('e, 'r, 'w, 'l, 'o) proxy \<Rightarrow> 'b outcome option" where
  "run_cluster f k px = bind_run (f (px_cluster px)) (\<lambda>(x, s). k x (px\<lparr>px_cluster := s\<rparr>))"

definition random_below :: "('e, 'r, 'w, 'l, 'o) proxy_env \<Rightarrow> nat \<Rightarrow> ('e, 'r, 'w, 'l, 'o) proxy \<Rightarrow> nat \<times> ('e, 'r, 'w, 'l, 'o) proxy" where
  "random_below pe n = on_cluster (env_call (w_uint32n (pe_world pe) n))"

definition send_alert :: "('e, 'r, 'w, 'l, 'o) proxy_env \<Rightarrow> int \<Rightarrow> bytes \<Rightarrow> int \<Rightarrow> ('e, 'r, 'w, 'l, 'o) proxy \<Rightarrow> ('e, 'r, 'w, 'l, 'o) proxy outcome option" where
  "send_alert pe ty lk threshold px = (case on_cluster (now_millis (pe_world pe)) px of (t, px) \<Rightarrow>
     bind_run (LogAlert (pe_world pe) (pe_event pe) \<lparr>EventType = ty, EventTime = t, al_LogKey = lk, RateThreshold = threshold,
         al_WarningLength = 0, CurrentLength = 0\<rparr> (px_cluster px)) (\<lambda>s. Some (Ret (px\<lparr>px_cluster := s\<rparr>))))"

section \<open>RPUSH\<close>

text \<open>Sampling: whether this log is dropped.\<close>

definition sampled_out :: "('e, 'r, 'w, 'l, 'o) proxy_env \<Rightarrow> nat \<Rightarrow> ('e, 'r, 'w, 'l, 'o) proxy \<Rightarrow> bool \<times> ('e, 'r, 'w, 'l, 'o) proxy" where
  "sampled_out pe rate px = (if 0 < rate then (case random_below pe rate px of (x, px) \<Rightarrow> (x \<noteq> 0, px)) else (False, px))"

text \<open>The key that takes the log: \<open>sc_log\<close> is spread over its sub keys.\<close>

definition spread_key :: "('e, 'r, 'w, 'l, 'o) proxy_env \<Rightarrow> bytes \<Rightarrow> ('e, 'r, 'w, 'l, 'o) proxy \<Rightarrow> bytes \<times> ('e, 'r, 'w, 'l, 'o) proxy" where
  "spread_key pe lk px =
     (if 0 < pe_scLogNum pe \<and> lk = sc_log
      then (case random_below pe (nat ((pe_scLogNum pe + 1) mod 2 ^ 32)) px of (x, px) \<Rightarrow> (if x \<noteq> 0 then sub_key lk x else lk, px))
      else (lk, px))"

text \<open>Whether the limiter stops the log, and the limiter's total.\<close>

definition rate_limited :: "('e, 'r, 'w, 'l, 'o) proxy_env \<Rightarrow> 'l option \<Rightarrow> bytes \<Rightarrow> ('e, 'r, 'w, 'l, 'o) proxy
    \<Rightarrow> (bool \<times> int) \<times> ('e, 'r, 'w, 'l, 'o) proxy" where
  "rate_limited pe limiter lk px = (case limiter of
     None \<Rightarrow> ((False, 0), px)
   | Some l \<Rightarrow> (case on_cluster (env_call (pe_limit pe l lk)) px of
       ((budget, tot), px) \<Rightarrow> ((budget < 0 \<and> 0 < GetMSPRateLimit (px_filter px) lk, tot), px)))"

definition limited_msg :: bytes where
  "limited_msg = ''Key Speed '' @ [CHR 0xE2, CHR 0x80, CHR 0x8B, CHR 0xE2, CHR 0x80, CHR 0x8B] @ ''limited->''"

definition refuse_limited :: "('e, 'r, 'w, 'l, 'o) proxy_env \<Rightarrow> bytes \<Rightarrow> int \<Rightarrow> ('e, 'r, 'w, 'l, 'o) proxy \<Rightarrow> ('e, 'r, 'w, 'l, 'o) proxy outcome option" where
  "refuse_limited pe lk tot px = (case random_below pe 1000 (write_error pe (limited_msg @ lk) px) of (x, px) \<Rightarrow>
     if x = 0 then bind_run (send_alert pe LOG_RATE_LIMIT lk tot px) (\<lambda>px. Some (Ret (close_conn px)))
     else Some (Ret (close_conn px)))"

text \<open>The push: counted under the key the client named.\<close>

definition push_log :: "('e, 'r, 'w, 'l, 'o) proxy_env \<Rightarrow> bytes \<Rightarrow> resp list \<Rightarrow> int \<Rightarrow> ('e, 'r, 'w, 'l, 'o) proxy \<Rightarrow> ('e, 'r, 'w, 'l, 'o) proxy outcome option" where
  "push_log pe lk args expire px = (case on_cluster (env_call (net_now (w_net (pe_world pe)))) px of (now, px) \<Rightarrow>
     run_cluster (Do (pe_world pe) ''RPUSH'' [AString lk, ABytes (str_of (args ! 2)), AInt expire])
       (\<lambda>(r, err) px. case reply_Int64 r err of
          (_, Some _) \<Rightarrow> Some (Ret (refuse pe ''RPUSH COMMAMDN EXEC FAIL.'' px))
        | (n, None) \<Rightarrow> Some (Ret (respond pe (WriteInt (pe_out pe) n) px)))
       (px\<lparr>px_reporter := AddRpushCommand now (str_of (args ! 1)) (px_reporter px)\<rparr>))"

text \<open>What follows the checks of the rule: spreading, the limiter and the push.\<close>

definition admit_log :: "('e, 'r, 'w, 'l, 'o) proxy_env \<Rightarrow> 'l option \<Rightarrow> int \<Rightarrow> resp list \<Rightarrow> ('e, 'r, 'w, 'l, 'o) proxy \<Rightarrow> ('e, 'r, 'w, 'l, 'o) proxy outcome option" where
  "admit_log pe limiter expire args px = (case spread_key pe (str_of (args ! 1)) px of (lk, px) \<Rightarrow>
     (case rate_limited pe limiter lk px of ((stop, tot), px) \<Rightarrow>
        if stop then refuse_limited pe lk tot px else push_log pe lk args expire px))"

definition handle_RPUSH :: "('e, 'r, 'w, 'l, 'o) proxy_env \<Rightarrow> resp list \<Rightarrow> ('e, 'r, 'w, 'l, 'o) proxy \<Rightarrow> ('e, 'r, 'w, 'l, 'o) proxy outcome option" where
  "handle_RPUSH pe args px =
     (if length args \<le> 2 then Some (Ret (refuse pe ''the number of RPUSH command args is wrong. '' px))
      else let lk = str_of (args ! 1) in
        if \<not> IsExistInFilterList (px_filter px) lk then
          bind_run (send_alert pe LOG_KEY_NOTIN_WHITE_LIST lk 0 (write_error pe ''The log key is not in the filter whitelist'' px))
            (\<lambda>px. Some (Ret (close_conn px)))
        else (case GetFilterRule (px_filter px) lk of (limiter, rate, expire, lengthDrop) \<Rightarrow>
          (case sampled_out pe rate px of (dropped, px) \<Rightarrow>
             if dropped then Some (Ret (refuse pe ''this log has been discarded because of sampling rate'' px))
             else if lengthDrop then Some (Ret (refuse pe ''this log has been discarded because of too long length'' px))
             else admit_log pe limiter (if expire \<le> 0 then 600 else expire) args px)))"

section \<open>The other commands\<close>

definition count_lpop :: "('e, 'r, 'w, 'l, 'o) proxy_env \<Rightarrow> bytes \<Rightarrow> ('e, 'r, 'w, 'l, 'o) proxy \<Rightarrow> ('e, 'r, 'w, 'l, 'o) proxy" where
  "count_lpop pe lk px = (case on_cluster (env_call (net_now (w_net (pe_world pe)))) px of (now, px) \<Rightarrow>
     px\<lparr>px_reporter := AddLpopCommand now (if Contains lk ''sc_log'' then ''sc_log'' else lk) (px_reporter px)\<rparr>)"

definition handle_LPOP :: "('e, 'r, 'w, 'l, 'o) proxy_env \<Rightarrow> resp list \<Rightarrow> ('e, 'r, 'w, 'l, 'o) proxy \<Rightarrow> ('e, 'r, 'w, 'l, 'o) proxy outcome option" where
  "handle_LPOP pe args px =
     (if length args \<noteq> 2 then Some (Ret (refuse pe ''the number of LPOP command args is wrong. '' px))
      else let lk = str_of (args ! 1) in
        run_cluster (Do (pe_world pe) ''LPOP'' [ABytes lk]) (\<lambda>(r, err) px. case reply_Bytes r err of (b, err) \<Rightarrow>
          if err \<noteq> None \<and> err \<noteq> Some ErrNil then Some (Ret (refuse pe ''LPOP COMMAMDN EXEC FAIL.'' px))
          else Some (Ret (respond pe (WriteBulk (pe_out pe) b) px))) (count_lpop pe lk px))"

text \<open>The dynamic type of an element; the text of the error for an element that cannot be written is only logged.\<close>

fun reply_object :: "reply \<Rightarrow> write_obj" where
  "reply_object RNil = WNil"
| "reply_object (RInt i) = WInt i"
| "reply_object (RBulk b) = WBytes (Some b)"
| "reply_object (RString s) = WString s"
| "reply_object r = WOther (type_name r)"

definition handle_BLPOP :: "('e, 'r, 'w, 'l, 'o) proxy_env \<Rightarrow> resp list \<Rightarrow> ('e, 'r, 'w, 'l, 'o) proxy \<Rightarrow> ('e, 'r, 'w, 'l, 'o) proxy outcome option" where
  "handle_BLPOP pe args px =
     (if length args \<noteq> 3 then Some (Ret (refuse pe ''the number of BLPOP command args is wrong. '' px))
      else let lk = str_of (args ! 1) in
        run_cluster (Do (pe_world pe) ''BLPOP'' [ABytes lk, ABytes (str_of (args ! 2))]) (\<lambda>(r, err) px. case Values r err of (vs, err) \<Rightarrow>
          if err \<noteq> None \<and> err \<noteq> Some ErrNil then Some (Ret (refuse pe ''BLPOP COMMAMDN EXEC FAIL.'' px))
          else Some (Ret (respond pe (WriteObjects (pe_out pe) (map_option (map reply_object) vs)) px))) (count_lpop pe lk px))"

definition handle_LLEN :: "('e, 'r, 'w, 'l, 'o) proxy_env \<Rightarrow> resp list \<Rightarrow> ('e, 'r, 'w, 'l, 'o) proxy \<Rightarrow> ('e, 'r, 'w, 'l, 'o) proxy outcome option" where
  "handle_LLEN pe args px =
     (if length args < 2 then Some (Ret (refuse pe ''the number of LLEN command args is wrong.'' px))
      else run_cluster (Do (pe_world pe) ''LLEN'' [ABytes (str_of (args ! 1))]) (\<lambda>(r, err) px. case reply_Int64 r err of
          (_, Some _) \<Rightarrow> Some (Ret (refuse pe ''LLEN COMMAMDN EXEC FAIL.'' px))
        | (n, None) \<Rightarrow> Some (Ret (respond pe (WriteInt (pe_out pe) n) px))) px)"

text \<open>The keys of the whitelist and their nodes, as JSON.\<close>

definition keys_data :: "('e, 'r, 'w, 'l, 'o) proxy_env \<Rightarrow> ('e, 'r, 'w, 'l, 'o) proxy \<Rightarrow> (bytes \<times> bytes) list \<times> ('e, 'r, 'w, 'l, 'o) proxy" where
  "keys_data pe px = (case on_cluster (GetPingData (pe_world pe) (px_filter px) (pe_scLogNum pe)) px of (data, px) \<Rightarrow>
     (case on_cluster (env_call (map_range (pe_world pe) data)) px of (entries, px) \<Rightarrow>
        (fold (\<lambda>(_, item). AList.update (LogKey item) (ClusterNodeAddr item)) entries [], px)))"

definition ping_reply :: "('e, 'r, 'w, 'l, 'o) proxy_env \<Rightarrow> resp list \<Rightarrow> ('e, 'r, 'w, 'l, 'o) proxy \<Rightarrow> bytes \<times> ('e, 'r, 'w, 'l, 'o) proxy" where
  "ping_reply pe args px =
     (if 1 < length args then
        let reply = str_of (args ! 1) in
        if ToUpper reply = ''KEYSDATA'' then
          (case keys_data pe px of (json, px) \<Rightarrow> (case pe_json pe json of Inl _ \<Rightarrow> (reply, px) | Inr data \<Rightarrow> (data, px)))
        else (reply, px)
      else (''PONG'', px))"

definition handle_PING :: "('e, 'r, 'w, 'l, 'o) proxy_env \<Rightarrow> resp list \<Rightarrow> ('e, 'r, 'w, 'l, 'o) proxy \<Rightarrow> ('e, 'r, 'w, 'l, 'o) proxy outcome option" where
  "handle_PING pe args px = (case ping_reply pe args px of (reply, px) \<Rightarrow>
     Some (Ret (respond pe (WriteSimpleString (pe_out pe) reply) px)))"

definition handle_CLUSTERKEYNODE :: "('e, 'r, 'w, 'l, 'o) proxy_env \<Rightarrow> resp list \<Rightarrow> ('e, 'r, 'w, 'l, 'o) proxy \<Rightarrow> ('e, 'r, 'w, 'l, 'o) proxy outcome option" where
  "handle_CLUSTERKEYNODE pe args px =
     (if 1 < length args then
        (case GetNodeAddrByKey (net_float (w_net (pe_world pe))) (AString (str_of (args ! 1))) (fst (px_cluster px)) of
           Inl _ \<Rightarrow> Some (Ret (close_conn px))
         | Inr addr \<Rightarrow> Some (Ret (respond pe (WriteSimpleString (pe_out pe) addr) px)))
      else Some (Ret (respond pe (WriteSimpleString (pe_out pe) ''KEY is NULL'') px)))"

section \<open>The session\<close>

definition run_command :: "('e, 'r, 'w, 'l, 'o) proxy_env \<Rightarrow> bytes \<Rightarrow> resp list \<Rightarrow> ('e, 'r, 'w, 'l, 'o) proxy \<Rightarrow> ('e, 'r, 'w, 'l, 'o) proxy outcome option" where
  "run_command pe cmd args px =
     (if cmd = ''RPUSH'' then handle_RPUSH pe args px
      else if cmd = ''LPOP'' then handle_LPOP pe args px
      else if cmd = ''BLPOP'' then handle_BLPOP pe args px
      else if cmd = ''LLEN'' then handle_LLEN pe args px
      else if cmd = ''PING'' then handle_PING pe args px
      else if cmd = ''CLUSTERKEYNODE'' then handle_CLUSTERKEYNODE pe args px
      else Some (Ret (refuse pe (''COMMAND('' @ cmd @ '') NOT SUPPORT.'') px)))"

definition handle_request :: "('e, 'r, 'w, 'l, 'o) proxy_env \<Rightarrow> resp \<Rightarrow> ('e, 'r, 'w, 'l, 'o) proxy \<Rightarrow> ('e, 'r, 'w, 'l, 'o) proxy outcome option" where
  "handle_request pe r px =
     (let args = (case Array r of None \<Rightarrow> [] | Some rs \<Rightarrow> rs) in
      if resp_Type r \<noteq> TypeArray then Some (Ret (refuse pe ''RESP COMMAND RESP TYPE NOT SUPPORT.'' px))
      else if length args < 1 then Some (Ret (refuse pe ''COMMAND RESP COUNT TOO LESS.'' px))
      else if resp_Type (args ! 0) \<noteq> TypeBulkBytes then Some (Ret (refuse pe ''COMMAND CMD TYPE WRONG.'' px))
      else run_command pe (ToUpper (str_of (args ! 0))) args px)"

text \<open>The loop of \<open>RequestHandleRESP\<close>: \<open>n\<close> bounds the number of commands.\<close>

fun serve :: "nat \<Rightarrow> ('e, 'r, 'w, 'l, 'o) proxy_env \<Rightarrow> breader decoder \<Rightarrow> ('e, 'r, 'w, 'l, 'o) proxy
    \<Rightarrow> ('e, 'r, 'w, 'l, 'o) proxy outcome option" where
  "serve 0 pe d px = Some (Ret px)"
| "serve (Suc n) pe d px = (case Decode_bufio d of
     (Inl _, d) \<Rightarrow> Some (Ret (refuse pe ''use of failed decoder'' px))
   | (Inr r, d) \<Rightarrow> bind_run (handle_request pe r px) (\<lambda>px. if px_closed px then Some (Ret px) else serve n pe d px))"

text \<open>A command takes at least one byte, so one more than there are bytes to come is enough.\<close>

definition RequestHandleRESP :: "('e, 'r, 'w, 'l, 'o) proxy_env \<Rightarrow> source \<Rightarrow> ('e, 'r, 'w, 'l, 'o) proxy \<Rightarrow> ('e, 'r, 'w, 'l, 'o) proxy outcome option" where
  "RequestHandleRESP pe client px = (let d = NewDecoderSize client 1024 in serve (stream_fuel d) pe d px)"

section \<open>What a step keeps\<close>

lemma session_simps [simp]:
  "px_cluster (write_error pe msg px) = px_cluster px" "px_filter (write_error pe msg px) = px_filter px"
  "px_reporter (write_error pe msg px) = px_reporter px" "px_closed (write_error pe msg px) = px_closed px"
  "px_cluster (close_conn px) = px_cluster px" "px_filter (close_conn px) = px_filter px"
  "px_reporter (close_conn px) = px_reporter px" "px_closed (close_conn px)" "px_out (close_conn px) = px_out px"
  by (simp_all add: write_error_def close_conn_def)

lemma refuse_simps [simp]:
  "px_cluster (refuse pe msg px) = px_cluster px" "px_filter (refuse pe msg px) = px_filter px"
  "px_reporter (refuse pe msg px) = px_reporter px" "px_closed (refuse pe msg px)"
  by (simp_all add: refuse_def)

lemma respond_simps [simp]:
  "px_cluster (respond pe f px) = px_cluster px" "px_filter (respond pe f px) = px_filter px"
  "px_reporter (respond pe f px) = px_reporter px"
  by (simp_all add: respond_def Flush_handle_def split: prod.split option.split)

text \<open>\<open>quiet px px'\<close>: only the environment has moved on.\<close>

definition quiet :: "('e, 'r, 'w, 'l, 'o) proxy \<Rightarrow> ('e, 'r, 'w, 'l, 'o) proxy \<Rightarrow> bool" where
  "quiet px px' \<longleftrightarrow> px' = px\<lparr>px_cluster := (fst (px_cluster px), snd (px_cluster px'))\<rparr>"

lemma quiet_refl [simp]: "quiet px px"
  by (simp add: quiet_def)

lemma quiet_iff:
  "quiet px px' \<longleftrightarrow> fst (px_cluster px') = fst (px_cluster px) \<and> px_filter px' = px_filter px \<and> px_reporter px' = px_reporter px \<and>
     px_out px' = px_out px \<and> px_closed px' = px_closed px"
  by (cases px; cases px'; cases "px_cluster px'") (auto simp: quiet_def)

lemma quiet_trans: "quiet a b \<Longrightarrow> quiet b c \<Longrightarrow> quiet a c"
  by (simp add: quiet_iff)

lemmas quietD = quiet_iff [THEN iffD1]

lemma env_quiet:
  assumes "on_cluster (env_call f) px = (x, px')"
  shows "quiet px px'"
proof -
  obtain s where "env_call f (px_cluster px) = (x, s)" "px' = px\<lparr>px_cluster := s\<rparr>"
    using assms by (auto simp: on_cluster_def split: prod.splits)
  then show ?thesis using env_call_same [of f "px_cluster px" x s] by (simp add: quiet_iff)
qed

lemma random_quiet: "random_below pe n px = (x, px') \<Longrightarrow> quiet px px'"
  unfolding random_below_def by (rule env_quiet)

lemma millis_quiet: "on_cluster (now_millis w) px = (x, px') \<Longrightarrow> quiet px px'"
  by (auto simp: on_cluster_def now_millis_def quiet_iff env_call_def split: prod.splits)

lemma sampled_out_quiet: "sampled_out pe n px = (x, px') \<Longrightarrow> quiet px px'"
  by (cases "0 < n") (auto simp: sampled_out_def split: prod.splits intro: random_quiet)

lemma spread_key_quiet: "spread_key pe k px = (x, px') \<Longrightarrow> quiet px px'"
  by (cases "0 < pe_scLogNum pe \<and> k = sc_log")
    (auto simp: spread_key_def split: prod.splits intro: random_quiet)

lemma rate_limited_quiet: "rate_limited pe l k px = (x, px') \<Longrightarrow> quiet px px'"
  unfolding rate_limited_def by (auto split: option.splits prod.splits intro: env_quiet)

lemma ping_data_env: "GetPingData w f n s = (x, s') \<Longrightarrow> fst s' = fst s"
  by (auto simp: GetPingData_def env_call_def split: prod.splits)

lemma on_cluster_quiet:
  assumes "\<And>s x s'. f s = (x, s') \<Longrightarrow> fst s' = fst s" "on_cluster f px = (x, px')"
  shows "quiet px px'"
proof -
  obtain y s where s: "f (px_cluster px) = (y, s)" by (metis surj_pair)
  then show ?thesis using assms(1) [OF s] assms(2) by (auto simp: on_cluster_def quiet_iff)
qed

lemma keys_data_quiet:
  assumes "keys_data pe px = (x, px')"
  shows "quiet px px'"
proof -
  obtain data px1 where 1: "on_cluster (GetPingData (pe_world pe) (px_filter px) (pe_scLogNum pe)) px = (data, px1)" by (metis surj_pair)
  obtain es px2 where 2: "on_cluster (env_call (map_range (pe_world pe) data)) px1 = (es, px2)" by (metis surj_pair)
  have "px' = px2" using assms 1 2 by (simp add: keys_data_def)
  then show ?thesis using quiet_trans [OF on_cluster_quiet [OF ping_data_env 1] env_quiet [OF 2]] by simp
qed

lemma ping_reply_quiet: "ping_reply pe args px = (x, px') \<Longrightarrow> quiet px px'"
  using keys_data_quiet [of pe px]
  by (cases "keys_data pe px") (auto simp: ping_reply_def Let_def split: if_splits sum.splits)

lemma count_lpop_quiet: "\<exists>px1 rep. quiet px px1 \<and> count_lpop pe k px = px1\<lparr>px_reporter := rep\<rparr>"
  using env_quiet by (fastforce simp: count_lpop_def split: prod.split)

lemma send_alert_reporter: "send_alert pe ty k t px = Some (Ret px') \<Longrightarrow> px_reporter px' = px_reporter px"
  using millis_quiet by (fastforce simp: send_alert_def quiet_iff elim!: bind_run_Ret split: prod.splits)

lemma on_cluster_keeps_filter: "on_cluster f px = (x, px') \<Longrightarrow> px_filter px' = px_filter px"
  by (auto simp: on_cluster_def split: prod.splits)

section \<open>The shape of a step\<close>

text \<open>\<open>keeps\<close>: the filter is the same, and so is the routing table of a cluster whose invariant holds.\<close>

definition keeps :: "('e, 'r, 'w) world \<Rightarrow> ('e, 'r, 'w, 'l, 'o) proxy \<Rightarrow> ('e, 'r, 'w, 'l, 'o) proxy \<Rightarrow> bool" where
  "keeps w px px' \<longleftrightarrow> px_filter px' = px_filter px \<and>
     (perm_law w \<and> cluster_inv (fst (px_cluster px)) \<longrightarrow> same_routes (fst (px_cluster px)) (fst (px_cluster px')))"

definition replies :: "bytes set \<Rightarrow> 'o writer_ops \<Rightarrow> ('o \<Rightarrow> go_error option \<times> 'o) \<Rightarrow> bool" where
  "replies T ops f \<longleftrightarrow> (\<exists>n. f = WriteInt ops n) \<or> (\<exists>b. f = WriteBulk ops b) \<or> (\<exists>t \<in> T. f = WriteSimpleString ops t) \<or> (\<exists>xs. f = WriteObjects ops xs)"

text \<open>A step closes the session or gives one reply, with a simple string only for a text of \<open>T\<close>.\<close>

definition handled :: "bytes set \<Rightarrow> ('e, 'r, 'w, 'l, 'o) proxy_env \<Rightarrow> ('e, 'r, 'w, 'l, 'o) proxy \<Rightarrow> ('e, 'r, 'w, 'l, 'o) proxy \<Rightarrow> bool" where
  "handled T pe px px' \<longleftrightarrow> keeps (pe_world pe) px px' \<and>
     (px_closed px' \<or> (\<exists>px1 f. replies T (pe_out pe) f \<and> px_out px1 = px_out px \<and> px' = respond pe f px1))"

lemma keeps_same:
  "keeps w px px1 \<Longrightarrow> px_filter px2 = px_filter px1 \<Longrightarrow> px_cluster px2 = px_cluster px1 \<Longrightarrow> keeps w px px2"
  by (simp add: keeps_def)

lemma keeps_refl [simp]: "keeps w px px"
  by (simp add: keeps_def)

lemma keeps_trans: "keeps w a b \<Longrightarrow> keeps w b c \<Longrightarrow> keeps w a c"
  unfolding keeps_def using cluster_inv_same_routes same_routes_trans by fastforce

lemma quiet_keeps: "quiet px px' \<Longrightarrow> keeps w px px'"
  by (simp add: quiet_iff keeps_def)

lemma Do_keeps: "Do w cmd args (px_cluster px) = Some (Ret (x, s)) \<Longrightarrow> keeps w px (px\<lparr>px_cluster := s\<rparr>)"
  using Do_same [of w "px_cluster px" cmd args x s] by (simp add: keeps_def)

lemma keeps_closed: "keeps (pe_world pe) px px' \<Longrightarrow> px_closed px' \<Longrightarrow> handled T pe px px'"
  by (simp add: handled_def)

lemma keeps_refuse: "keeps (pe_world pe) px px1 \<Longrightarrow> handled T pe px (refuse pe msg px1)"
  by (rule keeps_closed) (auto intro: keeps_same)

lemma keeps_respond:
  assumes "keeps (pe_world pe) px px1" "px_out px1 = px_out px" "replies T (pe_out pe) f"
  shows "handled T pe px (respond pe f px1)"
  unfolding handled_def using assms keeps_same [OF assms(1), of "respond pe f px1"] by auto

lemma keeps_close: "keeps w px px1 \<Longrightarrow> keeps w px (close_conn px1)"
  by (rule keeps_same) simp_all

lemma refuse_handled [simp]: "handled T pe px (refuse pe msg px)"
  by (rule keeps_refuse) simp

lemma close_handled: "keeps (pe_world pe) px px1 \<Longrightarrow> handled T pe px (close_conn px1)"
  by (rule keeps_closed) (auto intro: keeps_close)

lemma replies_intros [simp]:
  "replies T ops (WriteInt ops n)" "replies T ops (WriteBulk ops b)" "t \<in> T \<Longrightarrow> replies T ops (WriteSimpleString ops t)" "replies T ops (WriteObjects ops xs)"
  by (auto simp: replies_def)

lemma quiet_handled:
  assumes "quiet px px1" "handled T pe px1 px'"
  shows "handled T pe px px'"
  using assms keeps_trans [OF quiet_keeps [OF assms(1)], of "pe_world pe" px'] quiet_iff [of px px1] by (auto simp: handled_def)

lemma run_cluster_Do:
  assumes "run_cluster (Do w cmd args) k px = Some (Ret px')"
  obtains r err s where "Do w cmd args (px_cluster px) = Some (Ret ((r, err), s))" "k (r, err) (px\<lparr>px_cluster := s\<rparr>) = Some (Ret px')"
  using assms unfolding run_cluster_def by (elim bind_run_Ret) (auto split: prod.splits)

lemma run_cluster_handled:
  assumes "run_cluster (Do (pe_world pe) cmd args) k px1 = Some (Ret px')" "keeps (pe_world pe) px px1" "px_out px1 = px_out px"
    and "\<And>r err px2. k (r, err) px2 = Some (Ret px') \<Longrightarrow> keeps (pe_world pe) px px2 \<Longrightarrow> px_out px2 = px_out px \<Longrightarrow> handled T pe px px'"
  shows "handled T pe px px'"
  using run_cluster_Do [OF assms(1)] assms(4) keeps_trans [OF assms(2) Do_keeps] assms(3) by (metis (no_types, lifting) proxy.select_convs(4) proxy.surjective proxy.update_convs(1))

lemma send_alert_keeps:
  assumes "send_alert pe ty k t px = Some (Ret px')"
  shows "keeps (pe_world pe) px px'"
proof -
  obtain x px1 where x: "on_cluster (now_millis (pe_world pe)) px = (x, px1)" by (metis surj_pair)
  let ?a = "\<lparr>EventType = ty, EventTime = x, al_LogKey = k, RateThreshold = t, al_WarningLength = 0, CurrentLength = 0\<rparr>"
  obtain s where s: "LogAlert (pe_world pe) (pe_event pe) ?a (px_cluster px1) = Some (Ret s)" "px' = px1\<lparr>px_cluster := s\<rparr>"
    using assms x by (auto simp: send_alert_def elim: bind_run_Ret)
  have "keeps (pe_world pe) px1 px'"
  proof -
    obtain y s1 where y: "now_millis (pe_world pe) (px_cluster px1) = (y, s1)" by (metis surj_pair)
    have s1: "fst s1 = fst (px_cluster px1)" using y by (auto simp: now_millis_def env_call_def split: prod.splits)
    then have k1: "keeps (pe_world pe) px1 (px1\<lparr>px_cluster := s1\<rparr>)" by (simp add: keeps_def)
    show ?thesis
    proof (cases "pe_event pe EVENT_TYPE_LOG y ?a")
      case (Inl e)
      then show ?thesis using s y k1 by (simp add: LogAlert_def Report_def)
    next
      case (Inr b)
      then obtain r where "Do (pe_world pe) ''LPUSH'' [AString MSP_EVENT, ABytes b] s1 = Some (Ret (r, s))"
        using s(1) y by (auto simp: LogAlert_def Report_def elim!: bind_run_Ret)
      then have "keeps (pe_world pe) (px1\<lparr>px_cluster := s1\<rparr>) (px1\<lparr>px_cluster := s1, px_cluster := s\<rparr>)"
        by (intro Do_keeps) simp
      then show ?thesis using keeps_trans [OF k1] s(2) by simp
    qed
  qed
  then show ?thesis using keeps_trans [OF quiet_keeps [OF millis_quiet [OF x]]] by blast
qed

lemma refuse_limited_handled:
  assumes "refuse_limited pe k t px = Some (Ret px')"
  shows "handled T pe px px'"
proof -
  obtain x px1 where x: "random_below pe 1000 (write_error pe (limited_msg @ k) px) = (x, px1)" by (metis surj_pair)
  have k1: "keeps (pe_world pe) px px1"
    using keeps_trans [OF keeps_same [OF keeps_refl] quiet_keeps [OF random_quiet [OF x]]] by simp
  show ?thesis
  proof (cases "x = 0")
    case True
    then obtain px2 where "send_alert pe LOG_RATE_LIMIT k t px1 = Some (Ret px2)" "px' = close_conn px2"
      using assms x by (auto simp: refuse_limited_def elim!: bind_run_Ret)
    then show ?thesis using keeps_trans [OF k1 send_alert_keeps] close_handled by blast
  next
    case False
    then show ?thesis using assms x close_handled [OF k1] by (auto simp: refuse_limited_def)
  qed
qed

lemma int_reply_handled:
  assumes "(case reply_Int64 r err of (_, Some _) \<Rightarrow> Some (Ret (refuse pe msg px1))
      | (n, None) \<Rightarrow> Some (Ret (respond pe (WriteInt (pe_out pe) n) px1))) = Some (Ret px')"
    "keeps (pe_world pe) px px1" "px_out px1 = px_out px"
  shows "handled T pe px px'"
proof -
  obtain n e where "reply_Int64 r err = (n, e)" by (metis surj_pair)
  then show ?thesis
    using assms by (cases e) (auto intro: keeps_refuse keeps_respond)
qed

lemma push_log_handled:
  assumes "push_log pe k args expire px = Some (Ret px')"
  shows "handled T pe px px'"
proof -
  obtain t px1 where t: "on_cluster (env_call (net_now (w_net (pe_world pe)))) px = (t, px1)" by (metis surj_pair)
  have q: "quiet px px1" by (rule env_quiet [OF t])
  then have k1: "keeps (pe_world pe) px (px1\<lparr>px_reporter := r\<rparr>)" for r using keeps_same [OF quiet_keeps [OF q]] by simp
  have o1: "px_out (px1\<lparr>px_reporter := r\<rparr>) = px_out px" for r using q by (simp add: quiet_iff)
  show ?thesis
    by (rule run_cluster_handled [OF _ k1 o1]) (use assms t in \<open>auto simp: push_log_def dest: int_reply_handled\<close>)
qed

lemma admit_log_handled:
  assumes "admit_log pe l expire args px = Some (Ret px')"
  shows "handled T pe px px'"
proof -
  obtain k px1 where k: "spread_key pe (str_of (args ! 1)) px = (k, px1)" by (metis surj_pair)
  obtain stop t px2 where r: "rate_limited pe l k px1 = ((stop, t), px2)" by (metis surj_pair)
  have "handled T pe px2 px'"
    using assms k r refuse_limited_handled push_log_handled by (auto simp: admit_log_def split: if_splits)
  then show ?thesis
    using quiet_handled [OF quiet_trans [OF spread_key_quiet [OF k] rate_limited_quiet [OF r]]] by blast
qed

lemma handle_RPUSH_handled:
  assumes "handle_RPUSH pe args px = Some (Ret px')"
  shows "handled T pe px px'"
proof (cases "length args \<le> 2")
  case True
  then show ?thesis using assms by (auto simp: handle_RPUSH_def)
next
  case long: False
  let ?k = "str_of (args ! 1)"
  show ?thesis
  proof (cases "IsExistInFilterList (px_filter px) ?k")
    case False
    then obtain px1 where 1: "send_alert pe LOG_KEY_NOTIN_WHITE_LIST ?k 0
        (write_error pe ''The log key is not in the filter whitelist'' px) = Some (Ret px1)" "px' = close_conn px1"
      using assms long by (auto simp: handle_RPUSH_def Let_def elim!: bind_run_Ret)
    have "keeps (pe_world pe) px (write_error pe ''The log key is not in the filter whitelist'' px)"
      by (rule keeps_same [OF keeps_refl]) simp_all
    then show ?thesis using keeps_trans [OF _ send_alert_keeps [OF 1(1)]] 1(2) close_handled by blast
  next
    case True
    obtain l rate expire lost where g: "GetFilterRule (px_filter px) ?k = (l, rate, expire, lost)" by (metis surj_pair)
    obtain d px1 where d: "sampled_out pe rate px = (d, px1)" by (metis surj_pair)
    have "handled T pe px1 px'"
      using assms long True g d admit_log_handled
      by (auto simp: handle_RPUSH_def Let_def split: if_splits)
    then show ?thesis using quiet_handled [OF sampled_out_quiet [OF d]] by blast
  qed
qed

lemma count_lpop_keeps: "keeps w px (count_lpop pe k px)" "px_out (count_lpop pe k px) = px_out px"
proof -
  obtain px1 rep where "quiet px px1" "count_lpop pe k px = px1\<lparr>px_reporter := rep\<rparr>" using count_lpop_quiet by blast
  then show "keeps w px (count_lpop pe k px)" "px_out (count_lpop pe k px) = px_out px"
    using keeps_same [OF quiet_keeps, of px px1 "px1\<lparr>px_reporter := rep\<rparr>" w] by (simp_all add: quiet_iff)
qed

lemma handle_LPOP_handled:
  assumes "handle_LPOP pe args px = Some (Ret px')"
  shows "handled T pe px px'"
proof (cases "length args = 2")
  case True
  then have run: "run_cluster (Do (pe_world pe) ''LPOP'' [ABytes (str_of (args ! 1))]) (\<lambda>(r, err) px. case reply_Bytes r err of (b, err) \<Rightarrow>
          if err \<noteq> None \<and> err \<noteq> Some ErrNil then Some (Ret (refuse pe ''LPOP COMMAMDN EXEC FAIL.'' px))
          else Some (Ret (respond pe (WriteBulk (pe_out pe) b) px))) (count_lpop pe (str_of (args ! 1)) px) = Some (Ret px')"
    using assms by (simp add: handle_LPOP_def Let_def)
  show ?thesis
    by (rule run_cluster_handled [OF run count_lpop_keeps])
      (auto split: prod.splits if_splits intro: keeps_refuse keeps_respond)
qed (use assms in \<open>auto simp: handle_LPOP_def\<close>)

lemma handle_BLPOP_handled:
  assumes "handle_BLPOP pe args px = Some (Ret px')"
  shows "handled T pe px px'"
proof (cases "length args = 3")
  case True
  then have run: "run_cluster (Do (pe_world pe) ''BLPOP'' [ABytes (str_of (args ! 1)), ABytes (str_of (args ! 2))])
        (\<lambda>(r, err) px. case Values r err of (vs, err) \<Rightarrow>
          if err \<noteq> None \<and> err \<noteq> Some ErrNil then Some (Ret (refuse pe ''BLPOP COMMAMDN EXEC FAIL.'' px))
          else Some (Ret (respond pe (WriteObjects (pe_out pe) (map_option (map reply_object) vs)) px)))
        (count_lpop pe (str_of (args ! 1)) px) = Some (Ret px')"
    using assms by (simp add: handle_BLPOP_def Let_def)
  show ?thesis
    by (rule run_cluster_handled [OF run count_lpop_keeps])
      (auto split: prod.splits if_splits intro: keeps_refuse keeps_respond)
qed (use assms in \<open>auto simp: handle_BLPOP_def\<close>)

lemma handle_LLEN_handled:
  assumes "handle_LLEN pe args px = Some (Ret px')"
  shows "handled T pe px px'"
proof (cases "length args < 2")
  case False
  show ?thesis
    by (rule run_cluster_handled [OF _ keeps_refl refl]) (use assms False in \<open>auto simp: handle_LLEN_def dest: int_reply_handled\<close>)
qed (use assms in \<open>auto simp: handle_LLEN_def\<close>)

lemma handle_PING_handled:
  assumes "handle_PING pe args px = Some (Ret px')"
  shows "handled {fst (ping_reply pe args px)} pe px px'"
proof -
  obtain r px1 where r: "ping_reply pe args px = (r, px1)" by (metis surj_pair)
  have "px' = respond pe (WriteSimpleString (pe_out pe) r) px1" using assms r by (simp add: handle_PING_def)
  then show ?thesis
    using keeps_respond [OF quiet_keeps [OF ping_reply_quiet [OF r]]] ping_reply_quiet [OF r] r by (auto simp: replies_def quiet_iff)
qed

text \<open>The texts \<open>CLUSTERKEYNODE\<close> answers with: the address of the key's node, or that there is no key.\<close>

definition node_texts :: "('e, 'r, 'w, 'l, 'o) proxy_env \<Rightarrow> resp list \<Rightarrow> ('e, 'r, 'w, 'l, 'o) proxy \<Rightarrow> bytes set" where
  "node_texts pe args px = insert ''KEY is NULL''
     {a. GetNodeAddrByKey (net_float (w_net (pe_world pe))) (AString (str_of (args ! 1))) (fst (px_cluster px)) = Inr a}"

lemma handle_CLUSTERKEYNODE_handled:
  assumes "handle_CLUSTERKEYNODE pe args px = Some (Ret px')"
  shows "handled (node_texts pe args px) pe px px'"
proof -
  have "px' = close_conn px \<or> (\<exists>s \<in> node_texts pe args px. px' = respond pe (WriteSimpleString (pe_out pe) s) px)"
    using assms by (auto simp: handle_CLUSTERKEYNODE_def node_texts_def split: if_splits sum.splits)
  then show ?thesis
    by (auto intro: close_handled keeps_respond)
qed

text \<open>The texts a command may be answered with as a simple string.\<close>

definition text_replies :: "('e, 'r, 'w, 'l, 'o) proxy_env \<Rightarrow> resp \<Rightarrow> ('e, 'r, 'w, 'l, 'o) proxy \<Rightarrow> bytes set" where
  "text_replies pe r px =
     (let args = (case Array r of None \<Rightarrow> [] | Some rs \<Rightarrow> rs); cmd = ToUpper (str_of (args ! 0)) in
      if cmd = ''PING'' then {fst (ping_reply pe args px)}
      else if cmd = ''CLUSTERKEYNODE'' then node_texts pe args px else {})"

lemma handle_request_handled:
  assumes "handle_request pe r px = Some (Ret px')"
  shows "handled (text_replies pe r px) pe px px'"
  using assms handle_RPUSH_handled handle_LPOP_handled handle_BLPOP_handled handle_LLEN_handled
    handle_PING_handled handle_CLUSTERKEYNODE_handled
  by (auto simp: handle_request_def run_command_def text_replies_def Let_def split: if_splits)

section \<open>The loop\<close>

lemma Decode_bufio_shorter:
  assumes "rd_ok (dec_br d)" "Decode_bufio d = (Inr r, d')"
  shows "rd_ok (dec_br d') \<and> length (rd_rest (dec_br d')) < length (rd_rest (dec_br d))"
proof -
  let ?k = "length (rd_rest (dec_br d))"
  have "decodeResp (Suc ?k) bufio_reader (dec_br d) = (Inr r, dec_br d')"
    using assms(2) by (auto simp: Decode_bufio_def Decode_def sticky_def stream_fuel_def split: option.splits prod.splits sum.splits)
  then obtain c t where c: "op_ReadByte bufio_reader (dec_br d) = (Inr c, t)"
    "decode_body bufio_reader (decodeResp ?k bufio_reader) c t = (Inr r, dec_br d')"
    by (auto simp: bindIO_def mapErrIO_def split: prod.splits sum.splits)
  have t: "rd_ok t" "rd_rest (dec_br d) = c # rd_rest t"
    using bufio.ok_ReadByte [OF assms(1) c(1)] bufio.ReadByte_Inr [OF assms(1) c(1)] by auto
  then show ?thesis
    using soundD(1,4) [OF bufio.sound_body [OF bufio.sound_resp] t(1) c(2)] by fastforce
qed

lemma serve_fuel:
  "length (rd_rest (dec_br d)) < n \<Longrightarrow> length (rd_rest (dec_br d)) < m \<Longrightarrow> rd_ok (dec_br d) \<Longrightarrow> serve n pe d px = serve m pe d px"
proof (induction n arbitrary: m d px)
  case (Suc n)
  then obtain k where k: "m = Suc k" by (cases m) auto
  obtain x d1 where x: "Decode_bufio d = (x, d1)" by (metis surj_pair)
  show ?case
  proof (cases x)
    case (Inr r)
    then have "serve n pe d1 px = serve k pe d1 px" for px
      using Decode_bufio_shorter [OF Suc.prems(3)] x Suc.prems k by (intro Suc.IH) fastforce+
    then show ?thesis using x k Inr by (simp cong: if_cong)
  qed (use x k in simp)
qed simp

lemma serve_closed:
  "serve n pe d px = Some (Ret px') \<Longrightarrow> length (rd_rest (dec_br d)) < n \<Longrightarrow> rd_ok (dec_br d) \<Longrightarrow> px_closed px'"
proof (induction n arbitrary: d px)
  case (Suc n)
  obtain x d1 where x: "Decode_bufio d = (x, d1)" by (metis surj_pair)
  show ?case
  proof (cases x)
    case (Inl e)
    then show ?thesis using x Suc.prems(1) by auto
  next
    case (Inr r)
    obtain px1 where 1: "handle_request pe r px = Some (Ret px1)" "(if px_closed px1 then Some (Ret px1) else serve n pe d1 px1) = Some (Ret px')"
      using x Inr Suc.prems(1) by (auto elim: bind_run_Ret)
    show ?thesis
      using Suc.IH [of d1 px1] Decode_bufio_shorter [OF Suc.prems(3)] x Inr 1(2) Suc.prems(2) by (fastforce split: if_splits)
  qed
qed simp

lemma serve_keeps: "serve n pe d px = Some (Ret px') \<Longrightarrow> keeps (pe_world pe) px px'"
proof (induction n arbitrary: d px)
  case (Suc n)
  obtain x d1 where x: "Decode_bufio d = (x, d1)" by (metis surj_pair)
  show ?case
  proof (cases x)
    case (Inl e)
    then show ?thesis using x Suc.prems refuse_handled [of "{}" pe px "''use of failed decoder''"] by (auto simp: handled_def)
  next
    case (Inr r)
    obtain px1 where 1: "handle_request pe r px = Some (Ret px1)" "(if px_closed px1 then Some (Ret px1) else serve n pe d1 px1) = Some (Ret px')"
      using x Inr Suc.prems by (auto elim: bind_run_Ret)
    have "keeps (pe_world pe) px px1" using handle_request_handled [OF 1(1)] by (simp add: handled_def)
    then show ?thesis using Suc.IH [of d1 px1] 1(2) keeps_trans by (auto split: if_splits)
  qed
qed simp

section \<open>What is written\<close>

text \<open>One value of the protocol. A simple string ends at its first line end, so its text has none.\<close>

definition single_line :: "bytes \<Rightarrow> bool" where
  "single_line t \<longleftrightarrow> CR \<notin> set t \<and> LF \<notin> set t"

inductive resp_value :: "bytes \<Rightarrow> bool" where
  number: "resp_value ('':'' @ FormatInt n @ CRLF)"
| bulk: "resp_value (''$'' @ FormatInt (int (length b)) @ CRLF @ b @ CRLF)"
| nil_bulk: "resp_value (''$-1'' @ CRLF)"
| nil_array: "resp_value (''*-1'' @ CRLF)"
| line: "single_line t \<Longrightarrow> resp_value (''+'' @ t @ CRLF)"
| array: "\<forall>v \<in> set vs. resp_value v \<Longrightarrow> resp_value (''*'' @ FormatInt (int (length vs)) @ CRLF @ concat vs)"

inductive_cases resp_value_line: "resp_value (CHR ''+'' # a)"

lemma resp_value_text: "resp_value (''+'' @ t @ CRLF) \<longleftrightarrow> single_line t"
  using resp_value.line [of t] by (auto elim: resp_value_line)

lemma resp_value_opt_wire: "resp_value (opt_wire b)"
  using resp_value.bulk resp_value.nil_bulk by (simp add: opt_wire_def bulk_wire_def nilBulk_def split: option.split)

lemma resp_value_object: "known x \<Longrightarrow> resp_value (object_wire x)"
  using resp_value_opt_wire [of None] resp_value_opt_wire [of "Some b" for b] resp_value_opt_wire resp_value.number
  by (cases x) (auto simp: opt_wire_def)

lemma resp_value_list:
  assumes "\<And>l x. xs = Some l \<Longrightarrow> x \<in> set l \<Longrightarrow> known x"
  shows "resp_value (list_wire object_wire xs)"
proof (cases xs)
  case (Some l)
  then show ?thesis using resp_value.array [of "map object_wire l"] assms resp_value_object by (simp add: list_wire_def)
qed (use resp_value.nil_array in \<open>simp add: list_wire_def nilArray_def\<close>)

text \<open>What a command is answered with: one value, or a line with a text that spoils the line.\<close>

definition answer :: "bytes set \<Rightarrow> bytes \<Rightarrow> bool" where
  "answer T a \<longleftrightarrow> resp_value a \<or> (\<exists>t \<in> T. a = ''+'' @ t @ CRLF \<and> \<not> single_line t)"

lemma unknown_fails:
  "x \<in> set xs \<Longrightarrow> \<not> known x \<Longrightarrow> fst (write_elems (WriteObject ops) xs s) \<noteq> None"
proof (induction xs arbitrary: s)
  case (Cons y ys)
  obtain e s1 where e: "WriteObject ops y s = (e, s1)" by (metis surj_pair)
  show ?case
  proof (cases "known y")
    case True
    then have "x \<in> set ys" using Cons.prems by auto
    then show ?thesis using Cons.IH [OF _ Cons.prems(2), of s1] e by (cases e) auto
  next
    case False
    then show ?thesis by (cases y) simp_all
  qed
qed simp

context sticky_writer
begin

lemma row_delivers:
  assumes "ps \<noteq> []" "wlive s"
  shows "\<exists>s'. write_row wops ps s = (None, s') \<and> wlive s' \<and> sent s' = sent s @ concat ps"
  using puts_live [OF puts_row [OF assms(1)] gets_by_row [OF assms(1)] assms(2)] .

lemma WriteObjects_fails_or_delivers:
  assumes "wlive s"
  shows "fst (WriteObjects wops xs s) \<noteq> None \<or> (\<forall>l. xs = Some l \<longrightarrow> (\<forall>x \<in> set l. known x)) \<and>
    (\<exists>s'. WriteObjects wops xs s = (None, s') \<and> wlive s' \<and> sent s' = sent s @ list_wire object_wire xs)"
proof (cases "\<forall>l. xs = Some l \<longrightarrow> (\<forall>x \<in> set l. known x)")
  case False
  then obtain l x where l: "xs = Some l" "x \<in> set l" "\<not> known x" by blast
  obtain e s1 where "write_row wops [''*'', intToString (int (length l)), CRLF] s = (e, s1)" by (metis surj_pair)
  then show ?thesis using unknown_fails [OF l(2,3), of wops s1] l(1)
    by (simp add: WriteObjects_def write_list_def del: write_row.simps)
next
  case True
  show ?thesis
  proof (cases "xs = Some []")
    case True
    then show ?thesis
      using row_delivers [of "[''*'', intToString (int (length ([] :: write_obj list))), CRLF]" s] assms
      by (auto simp: WriteObjects_def write_list_def list_wire_def intToString_def)
  next
    case False
    have e: "x \<in> set (case xs of None \<Rightarrow> [] | Some l \<Rightarrow> l) \<Longrightarrow> known x" for x using True by (auto split: option.splits)
    have "\<exists>s'. write_list wops (WriteObject wops) xs s = (None, s') \<and> wlive s' \<and> sent s' = sent s @ list_wire object_wire xs"
      by (rule puts_live [OF puts_list [OF puts_WriteObject [OF e] False] gets_by_list [OF gets_by_WriteObject [OF e]] assms])
    then show ?thesis using True by (simp add: WriteObjects_def)
  qed
qed

lemma replies_answer:
  assumes "replies T wops f" "wlive s" "f s = (None, s')"
  shows "\<exists>a. answer T a \<and> wlive s' \<and> sent s' = sent s @ a"
proof -
  note wr = puts_live [OF _ _ assms(2)]
  have simple: "gets_by (WriteSimpleString wops t)" for t unfolding WriteSimpleString_def by (rule gets_by_row) simp
  show ?thesis
    using assms(1) unfolding replies_def
  proof (elim disjE exE)
    fix n assume "f = WriteInt wops n"
    then show ?thesis using wr [OF puts_WriteInt gets_by_WriteInt, of n] assms(3) resp_value.number by (auto simp: answer_def)
  next
    fix b assume "f = WriteBulk wops b"
    then show ?thesis using wr [OF puts_WriteBulk gets_by_WriteBulk, of b] assms(3) resp_value_opt_wire by (auto simp: answer_def)
  next
    assume "\<exists>t \<in> T. f = WriteSimpleString wops t"
    then obtain t where "t \<in> T" "f = WriteSimpleString wops t" by blast
    then show ?thesis using wr [OF puts_WriteSimpleString simple, of t] assms(3) resp_value.line by (auto simp: answer_def)
  next
    fix xs assume "f = WriteObjects wops xs"
    then show ?thesis using WriteObjects_fails_or_delivers [OF assms(2), of xs] assms(3) resp_value_list [of xs] by (auto simp: answer_def)
  qed
qed

lemma handled_answer:
  assumes "handled T pe px px'" "pe_out pe = wops" "wlive (px_out px)" "\<not> px_closed px'"
  shows "\<exists>a. answer T a \<and> wlive (px_out px') \<and> sent (px_out px') = sent (px_out px) @ a"
proof -
  obtain px1 f where f: "replies T wops f" "px_out px1 = px_out px" "px' = respond pe f px1"
    using assms by (auto simp: handled_def)
  obtain e s' where e: "f (px_out px) = (e, s')" by (metis surj_pair)
  have "e = None" using f(3) e assms(4) f(2) by (cases e) (auto simp: respond_def)
  then have "px_out px' = s'" using f(2,3) e by (simp add: respond_def Flush_handle_def)
  then show ?thesis using replies_answer [OF f(1) assms(3)] e \<open>e = None\<close> by blast
qed

end

section \<open>Which logs are admitted\<close>

text \<open>The policy in terms of the rules: with the filter on, a log is refused when its key has no rule, or when the
  list was as long as the warning length; the expiry is the rule's, and 600 seconds without one.\<close>

definition inadmissible :: "'l log_filter \<Rightarrow> bytes \<Rightarrow> bool" where
  "inadmissible f k \<longleftrightarrow> enable f \<and> (case map_of (GetData f) k of None \<Rightarrow> True | Some r \<Rightarrow> WarningLength r \<le> Length r)"

definition log_expiry :: "'l log_filter \<Rightarrow> bytes \<Rightarrow> int" where
  "log_expiry f k = (case map_of (GetData f) k of Some r \<Rightarrow> if enable f \<and> 0 < Expire r then Expire r else 600 | None \<Rightarrow> 600)"

lemma filter_policy:
  assumes "GetFilterRule f k = (l, rate, expire, lost)"
  shows "inadmissible f k \<longleftrightarrow> \<not> IsExistInFilterList f k \<or> lost"
    "IsExistInFilterList f k \<Longrightarrow> (if expire \<le> 0 then 600 else expire) = log_expiry f k"
  using assms by (auto simp: inadmissible_def log_expiry_def GetFilterRule_def IsExistInFilterList_def GetData_def split: if_splits option.splits)

lemma spread_key_cases:
  assumes "spread_key pe k px = (k', px')"
  shows "k' = k \<or> k = sc_log \<and> (\<exists>i. k' = sub_key sc_log i)"
  using assms by (auto simp: spread_key_def split: if_splits prod.splits)

context sticky_writer
begin

lemma respond_sent:
  assumes "pe_out pe = wops" "puts b f p" "wok (px_out px)" "\<not> px_closed (respond pe f px)"
  shows "sent (px_out (respond pe f px)) = sent (px_out px) @ p"
proof -
  obtain e s where e: "f (px_out px) = (e, s)" by (metis surj_pair)
  then have "e = None" using assms(4) by (cases e) (auto simp: respond_def)
  then show ?thesis using assms(2,3) e by (auto simp: puts_def respond_def Flush_handle_def)
qed

lemma push_log_acknowledged:
  assumes "pe_out pe = wops" "wok (px_out px)" "push_log pe k args expire px = Some (Ret px')" "\<not> px_closed px'"
  shows "\<exists>s r n. fst s = fst (px_cluster px) \<and>
     Do (pe_world pe) ''RPUSH'' [AString k, ABytes (str_of (args ! 2)), AInt expire] s = Some (Ret ((r, None), px_cluster px')) \<and>
     reply_Int64 r None = (n, None) \<and> sent (px_out px') = sent (px_out px) @ '':'' @ FormatInt n @ CRLF \<and>
     (\<exists>t. px_reporter px' = AddRpushCommand t (str_of (args ! 1)) (px_reporter px))"
proof -
  obtain t px1 where t: "on_cluster (env_call (net_now (w_net (pe_world pe)))) px = (t, px1)" by (metis surj_pair)
  note q = quietD [OF env_quiet [OF t]]
  let ?px = "px1\<lparr>px_reporter := AddRpushCommand t (str_of (args ! 1)) (px_reporter px1)\<rparr>"
  obtain r err s where d: "Do (pe_world pe) ''RPUSH'' [AString k, ABytes (str_of (args ! 2)), AInt expire] (px_cluster px1) = Some (Ret ((r, err), s))"
    and c: "(case reply_Int64 r err of
          (_, Some _) \<Rightarrow> Some (Ret (refuse pe ''RPUSH COMMAMDN EXEC FAIL.'' (?px\<lparr>px_cluster := s\<rparr>)))
        | (n, None) \<Rightarrow> Some (Ret (respond pe (WriteInt (pe_out pe) n) (?px\<lparr>px_cluster := s\<rparr>)))) = Some (Ret px')"
    using assms(3) t by (auto simp: push_log_def elim!: run_cluster_Do)
  obtain n e where n: "reply_Int64 r err = (n, e)" by (metis surj_pair)
  have e: "e = None" using c n assms(4) by (cases e) auto
  then have err: "err = None" using n by (cases err) (auto simp: reply_Int64_def)
  have px': "px' = respond pe (WriteInt (pe_out pe) n) (?px\<lparr>px_cluster := s\<rparr>)" using c n e by simp
  have "sent (px_out px') = sent (px_out px) @ '':'' @ FormatInt n @ CRLF"
    using respond_sent [OF assms(1) puts_WriteInt [of n], of "?px\<lparr>px_cluster := s\<rparr>"] px' assms(1,2,4) q by simp
  moreover have "px_cluster px' = s" "px_reporter px' = AddRpushCommand t (str_of (args ! 1)) (px_reporter px)" using px' q by simp_all
  ultimately show ?thesis using d n e err q by blast
qed

end

lemma handle_RPUSH_open:
  assumes "handle_RPUSH pe args px = Some (Ret px')" "\<not> px_closed px'"
  shows "\<not> inadmissible (px_filter px) (str_of (args ! 1)) \<and> (\<exists>k' px1. quiet px px1 \<and>
     (k' = str_of (args ! 1) \<or> str_of (args ! 1) = sc_log \<and> (\<exists>i. k' = sub_key sc_log i)) \<and>
     push_log pe k' args (log_expiry (px_filter px) (str_of (args ! 1))) px1 = Some (Ret px'))"
proof -
  let ?k = "str_of (args ! 1)"
  have long: "\<not> length args \<le> 2" using assms by (auto simp: handle_RPUSH_def)
  have listed: "IsExistInFilterList (px_filter px) ?k"
    using assms long by (auto simp: handle_RPUSH_def Let_def elim!: bind_run_Ret split: if_splits)
  obtain l rate expire lost where g: "GetFilterRule (px_filter px) ?k = (l, rate, expire, lost)" by (metis surj_pair)
  obtain d px1 where d: "sampled_out pe rate px = (d, px1)" by (metis surj_pair)
  have nd: "\<not> d" "\<not> lost" and a: "admit_log pe l (if expire \<le> 0 then 600 else expire) args px1 = Some (Ret px')"
    using assms long listed g d by (auto simp: handle_RPUSH_def Let_def split: if_splits)
  obtain k' px2 where k: "spread_key pe ?k px1 = (k', px2)" by (metis surj_pair)
  obtain stop t px3 where r: "rate_limited pe l k' px2 = ((stop, t), px3)" by (metis surj_pair)
  have "\<not> stop"
  proof
    assume stop: "stop"
    obtain x px4 where x: "random_below pe 1000 (write_error pe (limited_msg @ k') px3) = (x, px4)" by (metis surj_pair)
    have "refuse_limited pe k' t px3 = Some (Ret px')" using a k r stop by (simp add: admit_log_def)
    then show False using x assms(2) by (cases "x = 0") (auto simp: refuse_limited_def elim!: bind_run_Ret)
  qed
  then have "push_log pe k' args (log_expiry (px_filter px) ?k) px3 = Some (Ret px')"
    using a k r filter_policy(2) [OF g listed] by (simp add: admit_log_def)
  moreover have "quiet px px3"
    using quiet_trans [OF quiet_trans [OF sampled_out_quiet [OF d] spread_key_quiet [OF k]] rate_limited_quiet [OF r]] .
  ultimately show ?thesis using filter_policy(1) [OF g] listed nd spread_key_cases [OF k] by blast
qed

section \<open>Samples\<close>

abbreviation two_ints :: bytes where "two_ints \<equiv> reply_wire (RInt 1) @ reply_wire (RInt 1)"

definition sample_proxy_env :: "(int \<times> nat list, breader, bwriter, nat, bwriter) proxy_env" where
  "sample_proxy_env = \<lparr>pe_world = scripted_world two_ints, pe_out = bufio_writer, pe_event = (\<lambda>_ _ _. Inr ''e''),
     pe_json = (\<lambda>_. Inr ''{}''), pe_limit = (\<lambda>_ _ e. ((-1, 5), e)), pe_scLogNum = 1\<rparr>"

definition sample_proxy :: "nat log_filter \<Rightarrow> (int \<times> nat list, breader, bwriter, nat, bwriter) proxy" where
  "sample_proxy f = \<lparr>px_cluster = (routed_cluster, (5, [])), px_filter = f, px_reporter = NewReporter,
     px_out = NewWriter ([], []), px_closed = False\<rparr>"

lemma sample_writer: "sticky_writer (pe_out sample_proxy_env) wr_ok wr_live wr_sent (\<lambda>b. fst (wr_sink b)) (\<lambda>b. wr_err b \<noteq> None)"
  using bufio_is_sticky by (simp add: sample_proxy_env_def)

lemma sample_out: "wr_live (px_out (sample_proxy f))" "wr_sent (px_out (sample_proxy f)) = []" "wr_ok (px_out (sample_proxy f))"
  using new_writer_live by (simp_all add: sample_proxy_def)

abbreviation ping :: resp where "ping \<equiv> NewArray (Some [NewBulkBytes (Some ''PING'')])"

lemma sample_ping:
  "\<exists>out. handle_request sample_proxy_env ping (sample_proxy f) = Some (Ret ((sample_proxy f)\<lparr>px_out := out\<rparr>)) \<and>
     wr_live out \<and> wr_sent out = ''+PONG'' @ CRLF"
proof -
  have u: "ToUpper ''PING'' = ''PING''" by code_simp
  have w: "pe_out sample_proxy_env = bufio_writer" by (simp add: sample_proxy_env_def)
  have g: "sticky_writer.gets_by wr_live (WriteSimpleString bufio_writer ''PONG'')"
    unfolding WriteSimpleString_def by (rule sticky_writer.gets_by_row [OF bufio_is_sticky]) simp
  obtain out where out: "WriteSimpleString bufio_writer ''PONG'' (NewWriter ([], [])) = (None, out)" "wr_live out" "wr_sent out = ''+PONG'' @ CRLF"
    using sticky_writer.puts_live [OF bufio_is_sticky sticky_writer.puts_WriteSimpleString [OF bufio_is_sticky] g new_writer_live(1)] new_writer_live(2)
    by auto
  have "respond sample_proxy_env (WriteSimpleString bufio_writer ''PONG'') (sample_proxy f) = (sample_proxy f)\<lparr>px_out := out\<rparr>"
    using out(1) by (simp add: respond_def Flush_handle_def sample_proxy_def)
  then have "handle_request sample_proxy_env ping (sample_proxy f) = Some (Ret ((sample_proxy f)\<lparr>px_out := out\<rparr>))"
    using u w by (simp add: handle_request_def run_command_def handle_PING_def ping_reply_def str_of_def NewArray_def NewBulkBytes_def TypeArray_def TypeBulkBytes_def)
  then show ?thesis using out by blast
qed

lemma sample_push:
  assumes "small (length k)" "small (length v)"
  shows "\<exists>s'. Do (scripted_world two_ints) ''RPUSH'' [AString k, ABytes v, AInt 600] (routed_cluster, e) = Some (Ret ((RInt 1, None), s'))"
proof -
  have net: "w_net (scripted_world two_ints) = scripted_net two_ints" by (simp add: scripted_world_def)
  have h: "heap routed_cluster ! 0 = sample_node []" by (simp add: routed_cluster_def sample_cluster_inv)
  obtain n e' where p: "doRpushExpire (scripted_net two_ints) ''RPUSH'' [AString k, ABytes v, AInt 600] (sample_node []) e = Ret ((RInt 1, None), n, e')"
    using scripted_push [OF assms] by blast
  have g: "getNodeByKey (net_float (scripted_net two_ints)) (AString k) routed_cluster = Inr 0"
    by (simp add: getNodeByKey_def key_def routed_cluster_def sample_cluster_inv(2))
  show ?thesis
    using p g h net by (simp add: Do_def bind_run_def follow_def finish_reply_def node_call_def checkReply_def)
qed

abbreviation rpush_args :: "resp list" where
  "rpush_args \<equiv> map (\<lambda>b. NewBulkBytes (Some b)) [''RPUSH'', ''k'', ''v'', ''w'']"

text \<open>A filter that is off admits every log.\<close>

abbreviation open_filter :: "nat log_filter" where
  "open_filter \<equiv> GetNewFilter False [] 0 0 []"

lemma sample_rpush:
  "\<exists>px'. handle_RPUSH sample_proxy_env rpush_args (sample_proxy open_filter) = Some (Ret px') \<and> \<not> px_closed px'"
proof -
  have f: "px_filter (sample_proxy open_filter) = open_filter" by (simp add: sample_proxy_def)
  have w: "pe_out sample_proxy_env = bufio_writer" "pe_world sample_proxy_env = scripted_world two_ints"
    by (simp_all add: sample_proxy_env_def)
  have k: "str_of (rpush_args ! 1) = ''k''" "str_of (rpush_args ! 2) = ''v''" by (simp_all add: str_of_def NewBulkBytes_def)
  obtain s where s: "Do (scripted_world two_ints) ''RPUSH'' [AString ''k'', ABytes ''v'', AInt 600] (routed_cluster, (5, [])) = Some (Ret ((RInt 1, None), s))"
    using sample_push [of "''k''" "''v''" "(5, [])"] by (auto simp: small_def)
  let ?px = "(sample_proxy open_filter)\<lparr>px_reporter := AddRpushCommand 5 ''k'' NewReporter, px_cluster := s\<rparr>"
  have n: "on_cluster (env_call (net_now (w_net (pe_world sample_proxy_env)))) (sample_proxy open_filter) = (5, sample_proxy open_filter)"
    by (simp add: on_cluster_def env_call_def sample_proxy_def w scripted_world_def scripted_net_def sample_net_def)
  have p: "push_log sample_proxy_env ''k'' rpush_args 600 (sample_proxy open_filter) = Some (Ret (respond sample_proxy_env (WriteInt bufio_writer 1) ?px))"
    using s n k unfolding push_log_def by (simp add: run_cluster_def w bind_run_def reply_Int64_def sample_proxy_def)
  obtain out where "WriteInt bufio_writer 1 (NewWriter ([], [])) = (None, out)"
    using sticky_writer.puts_live [OF bufio_is_sticky sticky_writer.puts_WriteInt [OF bufio_is_sticky] sticky_writer.gets_by_WriteInt [OF bufio_is_sticky] new_writer_live(1)]
    by blast
  then have "\<not> px_closed (respond sample_proxy_env (WriteInt bufio_writer 1) ?px)"
    by (simp add: respond_def Flush_handle_def sample_proxy_def)
  moreover have "handle_RPUSH sample_proxy_env rpush_args (sample_proxy open_filter) = Some (Ret (respond sample_proxy_env (WriteInt bufio_writer 1) ?px))"
    using p k f by (simp add: handle_RPUSH_def IsExistInFilterList_def GetFilterRule_def GetNewFilter_def sampled_out_def admit_log_def
        spread_key_def sc_log_def rate_limited_def)
  ultimately show ?thesis by blast
qed

lemma ping_session:
  "\<exists>px'. RequestHandleRESP sample_proxy_env (bytes_NewReader (wire ping)) (sample_proxy open_filter) = Some (Ret px')"
proof -
  let ?d = "NewDecoderSize (bytes_NewReader (wire ping)) 1024"
  have wf: "wf_resp ping"
    by (simp add: NewArray_def NewBulkBytes_def TypeArray_def TypeBulkBytes_def TypeString_def TypeError_def TypeInt_def MaxBulkBytesLen_def MaxArrayLen_def)
  have d: "dec_Err ?d = None" "rd_live (dec_br ?d)" "22 \<le> rd_size (dec_br ?d)" "rd_rest (dec_br ?d) = wire ping @ []"
    by (simp_all add: NewDecoderSize_def NewDecoderBuffer_def NewReaderSize_ok)
  obtain d1 where d1: "Decode_bufio ?d = (Inr ping, d1)" "rd_rest (dec_br d1) = []"
    using Decode_live [OF wf d] by blast
  have ok: "rd_ok (dec_br ?d)" "rd_ok (dec_br d1)"
    using Decode_bufio_shorter [OF _ d1(1)] by (simp_all add: NewDecoderSize_def NewDecoderBuffer_def NewReaderSize_ok)
  obtain err d2 where d2: "Decode_bufio d1 = (Inl err, d2)"
  proof (cases "fst (Decode_bufio d1)")
    case (Inr r)
    then have "Decode_bufio d1 = (Inr r, snd (Decode_bufio d1))" by (metis prod.collapse)
    then show ?thesis using Decode_bufio_shorter [OF ok(2)] d1(2) by fastforce
  qed (metis prod.collapse)
  obtain out where out: "handle_request sample_proxy_env ping (sample_proxy open_filter) = Some (Ret ((sample_proxy open_filter)\<lparr>px_out := out\<rparr>))"
    using sample_ping by blast
  have "serve (Suc (Suc (length (wire ping)))) sample_proxy_env ?d (sample_proxy open_filter) =
      Some (Ret (refuse sample_proxy_env ''use of failed decoder'' ((sample_proxy open_filter)\<lparr>px_out := out\<rparr>)))"
    using d1 d2 out by (simp add: bind_run_def sample_proxy_def)
  moreover have "stream_fuel ?d = Suc (length (wire ping))" using d(4) by (simp add: stream_fuel_def)
  ultimately have "RequestHandleRESP sample_proxy_env (bytes_NewReader (wire ping)) (sample_proxy open_filter) =
      Some (Ret (refuse sample_proxy_env ''use of failed decoder'' ((sample_proxy open_filter)\<lparr>px_out := out\<rparr>)))"
    using serve_fuel [of ?d "Suc (Suc (length (wire ping)))" "Suc (length (wire ping))"] ok(1) d(4)
    unfolding RequestHandleRESP_def Let_def by (metis append_Nil2 lessI less_Suc_eq)
  then show ?thesis by blast
qed

section \<open>Properties\<close>

lemma new_decoder_fuel:
  "rd_ok (dec_br (NewDecoderSize client 1024))" "rd_rest (dec_br (NewDecoderSize client 1024)) = source_bytes client"
  "length (rd_rest (dec_br (NewDecoderSize client 1024))) < stream_fuel (NewDecoderSize client 1024)"
  by (simp_all add: NewDecoderSize_def NewDecoderBuffer_def NewReaderSize_ok stream_fuel_def)

lemma session_closes: "RequestHandleRESP pe client px = Some (Ret px') \<Longrightarrow> px_closed px'"
  using serve_closed [OF _ new_decoder_fuel(3,1)] by (simp add: RequestHandleRESP_def Let_def)

text \<open>C36. A session ends by closing the connection, unless a command does not return or panics: the bound on the number
  of commands is never what ends it, and a larger one gives the same session.\<close>

theorem session_ends:
  assumes "length (source_bytes client) < n"
  shows "serve n pe (NewDecoderSize client 1024) px = RequestHandleRESP pe client px \<and>
    (\<forall>px'. RequestHandleRESP pe client px = Some (Ret px') \<longrightarrow> px_closed px')"
proof -
  have "serve n pe (NewDecoderSize client 1024) px = serve (stream_fuel (NewDecoderSize client 1024)) pe (NewDecoderSize client 1024) px"
    using assms new_decoder_fuel by (intro serve_fuel) simp_all
  then show ?thesis using session_closes by (auto simp: RequestHandleRESP_def Let_def)
qed

lemma session_ends_witness:
  "\<exists>px'. RequestHandleRESP sample_proxy_env (bytes_NewReader (wire ping)) (sample_proxy open_filter) = Some (Ret px') \<and> px_closed px'"
proof -
  have "length (source_bytes (bytes_NewReader (wire ping))) < Suc (length (wire ping))" by simp
  from session_ends [OF this, of sample_proxy_env "sample_proxy open_filter"] ping_session show ?thesis by blast
qed

text \<open>C16. Every command that leaves the session open is answered, on a connection that takes what is written, with
  exactly one value of the protocol: a number, a bulk string or nil, a simple string without line ends, or an array
  of as many values as it announces. There is one exception, which the code makes: the texts \<open>PING\<close> echoes and
  the address \<open>CLUSTERKEYNODE\<close> gives are written as simple strings unseen, and one that contains a line end is
  written as it is, which is no value.\<close>

theorem one_reply:
  assumes "sticky_writer (pe_out pe) wok wlive sent delivered broken" "wlive (px_out px)"
    "handle_request pe r px = Some (Ret px')" "\<not> px_closed px'"
  shows "\<exists>a. sent (px_out px') = sent (px_out px) @ a \<and> wlive (px_out px') \<and>
    (resp_value a \<or> (\<exists>t \<in> text_replies pe r px. a = ''+'' @ t @ CRLF \<and> \<not> single_line t))"
  using sticky_writer.handled_answer [OF assms(1) handle_request_handled [OF assms(3)] refl assms(2,4)] unfolding answer_def by blast

lemma one_reply_witness:
  "\<exists>px' a. handle_request sample_proxy_env ping (sample_proxy open_filter) = Some (Ret px') \<and> resp_value a \<and> wr_sent (px_out px') = a"
proof -
  obtain px' where px': "handle_request sample_proxy_env ping (sample_proxy open_filter) = Some (Ret px')" "\<not> px_closed px'"
    using sample_ping [of open_filter] by (auto simp: sample_proxy_def)
  have "ToUpper ''PING'' = ''PING''" by code_simp
  then have "text_replies sample_proxy_env ping (sample_proxy open_filter) = {''PONG''}"
    by (simp add: text_replies_def ping_reply_def NewBulkBytes_def NewArray_def str_of_def Let_def)
  then show ?thesis
    using one_reply [OF sample_writer sample_out(1) px'] px'(1) by (auto simp: sample_out single_line_def)
qed

text \<open>The exception happens: an argument with a line end turns the answer of \<open>PING\<close> into bytes that are no value.\<close>

lemma ping_breaks_stream:
  assumes "sticky_writer (pe_out pe) wok wlive sent delivered broken" "wlive (px_out px)"
    "\<not> single_line (str_of t)" "ToUpper (str_of t) \<noteq> ''KEYSDATA''"
    "handle_PING pe [c, t] px = Some (Ret px')" "\<not> px_closed px'"
  shows "\<exists>a. sent (px_out px') = sent (px_out px) @ a \<and> \<not> resp_value a"
proof -
  have "px' = respond pe (WriteSimpleString (pe_out pe) (str_of t)) px" using assms(4,5) by (simp add: handle_PING_def ping_reply_def)
  then have "sent (px_out px') = sent (px_out px) @ ''+'' @ str_of t @ CRLF"
    using sticky_writer.respond_sent [OF assms(1) refl sticky_writer.puts_WriteSimpleString [OF assms(1)]]
      byte_writer.wlive_wok [OF sticky_writer.axioms(1) [OF assms(1)] assms(2)] assms(6) by simp
  then show ?thesis using assms(3) resp_value_text by blast
qed

text \<open>C5. An acknowledged log was pushed: when an \<open>RPUSH\<close> leaves the session open, its key was admissible, the command of
  the cluster pushed its first value, and nothing else, to the key or to a sub key of \<open>sc_log\<close>, with the expiry
  of the rule, the client got the number the cluster gave, and the push was counted under the key.\<close>

theorem acknowledged_log_pushed:
  assumes "sticky_writer (pe_out pe) wok wlive sent delivered broken" "wok (px_out px)"
    "handle_RPUSH pe args px = Some (Ret px')" "\<not> px_closed px'"
  shows "\<not> inadmissible (px_filter px) (str_of (args ! 1)) \<and>
    (\<exists>k s r n. (k = str_of (args ! 1) \<or> str_of (args ! 1) = sc_log \<and> (\<exists>i. k = sub_key sc_log i)) \<and> fst s = fst (px_cluster px) \<and>
      Do (pe_world pe) ''RPUSH'' [AString k, ABytes (str_of (args ! 2)), AInt (log_expiry (px_filter px) (str_of (args ! 1)))] s
        = Some (Ret ((r, None), px_cluster px')) \<and>
      reply_Int64 r None = (n, None) \<and> sent (px_out px') = sent (px_out px) @ '':'' @ FormatInt n @ CRLF) \<and>
    (\<exists>t. px_reporter px' = AddRpushCommand t (str_of (args ! 1)) (px_reporter px))"
proof -
  obtain k px1 where a: "\<not> inadmissible (px_filter px) (str_of (args ! 1))" "quiet px px1"
    "k = str_of (args ! 1) \<or> str_of (args ! 1) = sc_log \<and> (\<exists>i. k = sub_key sc_log i)"
    "push_log pe k args (log_expiry (px_filter px) (str_of (args ! 1))) px1 = Some (Ret px')"
    using handle_RPUSH_open [OF assms(3,4)] by blast
  note q = quietD [OF a(2)]
  have "wok (px_out px1)" using assms(2) q by simp
  from sticky_writer.push_log_acknowledged [OF assms(1) refl this a(4) assms(4)] show ?thesis
    using a(1,3) q by auto
qed

lemma acknowledged_log_pushed_witness:
  "\<exists>px' k s r. handle_RPUSH sample_proxy_env rpush_args (sample_proxy open_filter) = Some (Ret px') \<and> k \<in> {''k'', ''sc_log''} \<and>
     Do (scripted_world two_ints) ''RPUSH'' [AString k, ABytes ''v'', AInt 600] s = Some (Ret ((r, None), px_cluster px'))"
proof -
  obtain px' where px': "handle_RPUSH sample_proxy_env rpush_args (sample_proxy open_filter) = Some (Ret px')" "\<not> px_closed px'"
    using sample_rpush by blast
  have k: "str_of (rpush_args ! 1) = ''k''" "str_of (rpush_args ! 2) = ''v''" "pe_world sample_proxy_env = scripted_world two_ints"
    "log_expiry (px_filter (sample_proxy open_filter)) ''k'' = 600"
    by (simp_all add: str_of_def NewBulkBytes_def sample_proxy_env_def log_expiry_def sample_proxy_def GetData_def GetNewFilter_def)
  have "''k'' \<noteq> sc_log" by (simp add: sc_log_def)
  then obtain s r where "Do (scripted_world two_ints) ''RPUSH'' [AString ''k'', ABytes ''v'', AInt 600] s = Some (Ret ((r, None), px_cluster px'))"
    using acknowledged_log_pushed [OF sample_writer sample_out(3) px'] unfolding k by blast
  then show ?thesis using px'(1) by blast
qed

text \<open>C14. A log that is refused for its key, or because its list is too long, leaves no trace of what it contains: the
  session would end in the same way with any other values, it is closed, and nothing is counted.\<close>

theorem refused_log_leaves_nothing:
  assumes "inadmissible (px_filter px) (str_of (args ! 1))" "2 < length args" "2 < length args'" "str_of (args' ! 1) = str_of (args ! 1)"
  shows "handle_RPUSH pe args px = handle_RPUSH pe args' px \<and>
    (\<forall>px'. handle_RPUSH pe args px = Some (Ret px') \<longrightarrow> px_closed px' \<and> px_reporter px' = px_reporter px)"
proof -
  obtain l rate expire lost where g: "GetFilterRule (px_filter px) (str_of (args ! 1)) = (l, rate, expire, lost)" by (metis surj_pair)
  obtain d px1 where d: "sampled_out pe rate px = (d, px1)" by (metis surj_pair)
  note q = quietD [OF sampled_out_quiet [OF d]]
  note bad = filter_policy(1) [OF g]
  show ?thesis
  proof (cases "IsExistInFilterList (px_filter px) (str_of (args ! 1))")
    case True
    then show ?thesis using assms g d q bad by (auto simp: handle_RPUSH_def Let_def)
  next
    case False
    then show ?thesis
      using assms send_alert_reporter by (fastforce simp: handle_RPUSH_def Let_def elim!: bind_run_Ret)
  qed
qed

lemma refused_log_leaves_nothing_witness:
  "inadmissible (px_filter (sample_proxy (GetNewFilter True [] 0 0 []))) ''k'' \<and>
   handle_RPUSH sample_proxy_env rpush_args (sample_proxy (GetNewFilter True [] 0 0 [])) =
   handle_RPUSH sample_proxy_env [ping, NewBulkBytes (Some ''k''), ping] (sample_proxy (GetNewFilter True [] 0 0 []))"
proof -
  have i: "inadmissible (px_filter (sample_proxy (GetNewFilter True [] 0 0 []))) (str_of (rpush_args ! 1))"
    by (simp add: inadmissible_def sample_proxy_def GetNewFilter_def GetData_def)
  have k: "str_of (rpush_args ! 1) = ''k''" "str_of ([ping, NewBulkBytes (Some ''k''), ping] ! 1) = ''k''"
    by (simp_all add: str_of_def NewBulkBytes_def)
  show ?thesis
    using refused_log_leaves_nothing [OF i, of "[ping, NewBulkBytes (Some ''k''), ping]" sample_proxy_env] i unfolding k by simp
qed

text \<open>The proxy's own log never gets through: the rule the routine adds for its key has no warning length, which
  \<open>GetFilterRule\<close> takes for a length of zero, so after any turns of the routine a log of that key is refused
  as too long, however short the list is.\<close>

theorem own_log_refused:
  assumes "StartRuleMonitor fe own n k (GetNewFilter True url beat timeout addr) s = Some (Ret (px_filter px, rules, s'))"
    "map_of (GetData (px_filter px)) own = Some r" "0 \<le> Length r" "2 < length args" "str_of (args ! 1) = own"
  shows "handle_RPUSH pe args px = Some (Ret (refuse pe ''this log has been discarded because of too long length'' px))"
proof -
  have m: "monitor_turns fe own n k (GetNewFilter True url beat timeout addr, [], s) = Some (Ret (px_filter px, rules, s'))"
    using assms(1) by (simp add: StartRuleMonitor_def GetNewFilter_def)
  have "filter_inv own (px_filter px) \<and> enable (px_filter px)"
    by (rule monitor_turns_inv [where P = "\<lambda>f. filter_inv own f \<and> enable f", OF _ m])
      (use monitor_turn_inv in \<open>blast, simp add: filter_inv_def rules_ok_def GetNewFilter_def\<close>)
  then have "enable (px_filter px)" "WarningLength r = 0" "SamplingRate r = 0"
    using assms(2) by (auto simp: filter_inv_def GetData_def)
  then show ?thesis
    using assms(2-5) by (simp add: handle_RPUSH_def Let_def IsExistInFilterList_def GetFilterRule_def GetData_def sampled_out_def)
qed

lemma own_log_refused_witness:
  "\<exists>f. map_option Length (map_of (GetData f) ''own'') = Some 3 \<and>
     handle_RPUSH sample_proxy_env (map (\<lambda>b. NewBulkBytes (Some b)) [''RPUSH'', ''own'', ''v'']) (sample_proxy f) =
       Some (Ret (refuse sample_proxy_env ''this log has been discarded because of too long length'' (sample_proxy f)))"
proof -
  obtain f s where t: "StartRuleMonitor sample_filter_env ''own'' 0 1 (GetNewFilter True ''url'' 5 1 []) (pair_cluster, (5, [])) = Some (Ret (f, s))"
    "map_option Length (map_of (RuleDataMAP f) ''own'') = Some 3"
    using sample_turn [of "(5, [])"] by blast
  obtain r where r: "map_of (RuleDataMAP f) ''own'' = Some r" "Length r = 3" using t(2) by auto
  have f: "px_filter (sample_proxy f) = f" by (simp add: sample_proxy_def)
  show ?thesis
    using own_log_refused [of sample_filter_env "''own''" 0 1 "''url''" 5 1 "[]" "(pair_cluster, (5, []))" "sample_proxy f" "fst s" "snd s" r
      "map (\<lambda>b. NewBulkBytes (Some b)) [''RPUSH'', ''own'', ''v'']" sample_proxy_env] t r
    unfolding f by (auto simp: GetData_def str_of_def NewBulkBytes_def)
qed

text \<open>C38. A log that is spread to a sub key is never rate limited: the limit is looked up under the sub key, which has no rule,
  so the limiter is asked, and its answer ignored.\<close>

theorem sub_keys_unlimited:
  assumes "spread_key pe (str_of (args ! 1)) px = (sub_key sc_log i, px1)" "map_of (GetData (px_filter px)) (sub_key sc_log i) = None"
  shows "admit_log pe l expire args px = push_log pe (sub_key sc_log i) args expire (snd (rate_limited pe l (sub_key sc_log i) px1))"
proof -
  have f: "px_filter px1 = px_filter px" using quietD [OF spread_key_quiet [OF assms(1)]] by simp
  have "GetMSPRateLimit (px_filter px) (sub_key sc_log i) = -1"
    using assms(2) by (simp add: GetMSPRateLimit_def Let_def)
  then have "\<exists>t px2. rate_limited pe l (sub_key sc_log i) px1 = ((False, t), px2)"
    using f on_cluster_keeps_filter by (auto simp: rate_limited_def split: option.splits prod.splits) fastforce
  then show ?thesis using assms(1) by (auto simp: admit_log_def)
qed

text \<open>Here the sub key is drawn and the limiter has nothing left.\<close>

lemma sub_keys_unlimited_witness:
  "\<exists>px1. spread_key (sample_proxy_env\<lparr>pe_world := (scripted_world two_ints)\<lparr>w_uint32n := \<lambda>n e. (1, e)\<rparr>\<rparr>) sc_log (sample_proxy open_filter)
      = (sub_key sc_log 1, px1) \<and>
    admit_log (sample_proxy_env\<lparr>pe_world := (scripted_world two_ints)\<lparr>w_uint32n := \<lambda>n e. (1, e)\<rparr>\<rparr>) (Some 0) 600
      [ping, NewBulkBytes (Some sc_log), ping] (sample_proxy open_filter) =
    push_log (sample_proxy_env\<lparr>pe_world := (scripted_world two_ints)\<lparr>w_uint32n := \<lambda>n e. (1, e)\<rparr>\<rparr>) (sub_key sc_log 1)
      [ping, NewBulkBytes (Some sc_log), ping] 600 px1"
proof -
  let ?pe = "sample_proxy_env\<lparr>pe_world := (scripted_world two_ints)\<lparr>w_uint32n := \<lambda>n e. (1, e)\<rparr>\<rparr>"
  let ?args = "[ping, NewBulkBytes (Some sc_log), ping]" and ?px = "sample_proxy open_filter"
  have k: "str_of (?args ! 1) = sc_log" by (simp add: str_of_def NewBulkBytes_def)
  have s: "spread_key ?pe (str_of (?args ! 1)) ?px = (sub_key sc_log 1, ?px)"
    unfolding k by (simp add: spread_key_def random_below_def on_cluster_def env_call_def sample_proxy_env_def sample_proxy_def)
  have n: "map_of (GetData (px_filter ?px)) (sub_key sc_log 1) = None" by (simp add: sample_proxy_def GetData_def GetNewFilter_def)
  have r: "snd (rate_limited ?pe (Some 0) (sub_key sc_log 1) ?px) = ?px"
    by (simp add: rate_limited_def on_cluster_def env_call_def sample_proxy_env_def sample_proxy_def)
  show ?thesis
    using sub_keys_unlimited [OF s n, of "Some 0" 600] s r k by auto
qed

text \<open>C37. Whatever a client sends, its session leaves the routing table and the invariant of the cluster as they were, and
  the rules of the filter.\<close>

theorem session_keeps_routes:
  assumes "perm_law (pe_world pe)" "cluster_inv (fst (px_cluster px))" "RequestHandleRESP pe client px = Some (Ret px')"
  shows "cluster_inv (fst (px_cluster px')) \<and> same_routes (fst (px_cluster px)) (fst (px_cluster px')) \<and> px_filter px' = px_filter px"
proof -
  have "keeps (pe_world pe) px px'" using assms(3) serve_keeps by (auto simp: RequestHandleRESP_def Let_def)
  then show ?thesis using assms(1,2) cluster_inv_same_routes by (auto simp: keeps_def)
qed

lemma session_keeps_routes_witness:
  "\<exists>px'. RequestHandleRESP sample_proxy_env (bytes_NewReader (wire ping)) (sample_proxy open_filter) = Some (Ret px') \<and>
     same_routes routed_cluster (fst (px_cluster px'))"
proof -
  obtain px' where r: "RequestHandleRESP sample_proxy_env (bytes_NewReader (wire ping)) (sample_proxy open_filter) = Some (Ret px')"
    using ping_session by blast
  have p: "perm_law (pe_world sample_proxy_env)" by (auto simp: perm_law_def scripted_world_def sample_proxy_env_def)
  have c: "fst (px_cluster (sample_proxy open_filter)) = routed_cluster" by (simp add: sample_proxy_def)
  have "cluster_inv routed_cluster"
    using sample_cluster_inv(1,3) by (simp add: cluster_inv_def routed_cluster_def)
  then show ?thesis using session_keeps_routes [OF p _ r] r c by auto
qed

end
