(* ===== verification/Log_Rates.thy ===== *)
theory Log_Rates
  imports Log_Metrics
begin

text \<open>
  The reporter of the rate and length of every log key (\<open>ReportKeyRateAndLen\<close> of \<open>sc/filter\<close>): it reads the rate
  that the limiter keeps in the cluster and the length of the list, and sends both to influx in batches of ten. A turn
  is a function of the keys in the order the loop visits them, without its sleep and its log lines; a panic of the
  client ends the routine.
\<close>

record ('p, 'x) rate_influx = "('p, 'x) influx" +
  ix_rate :: "bytes \<Rightarrow> int \<Rightarrow> int \<Rightarrow> 'x \<Rightarrow> (go_error + 'p) \<times> 'x"

text \<open>The rate before the point of \<open>LIMIT:key\<close>; without one it is 0, and \<open>None\<close> skips the key.\<close>

definition rate_of :: "reply \<Rightarrow> go_error option \<Rightarrow> int option" where
  "rate_of r err = (case Values r err of
     (_, Some _) \<Rightarrow> None
   | (Some (x # _), None) \<Rightarrow>
       if x = RNil then Some 0
       else (case reply_String x None of
           (_, Some _) \<Rightarrow> None
         | (d, None) \<Rightarrow> (case parse_int 64 (hd (SplitByte (CHR ''.'') d)) of (n, None) \<Rightarrow> Some n | (_, Some _) \<Rightarrow> None))
   | (_, None) \<Rightarrow> Some 0)"

text \<open>What is read for a key: its rate and its length, unless both are 0.\<close>

definition rate_sample :: "('e, 'r, 'w) world \<Rightarrow> bytes \<Rightarrow> ('e, 'r, 'w) cst \<Rightarrow> ((int \<times> int) option \<times> ('e, 'r, 'w) cst) outcome option" where
  "rate_sample w k s = bind_run (Do w ''hmget'' [AString (''LIMIT:'' @ k), AString ''kr''] s) (\<lambda>((r, err), s).
     case rate_of r err of
       None \<Rightarrow> Some (Ret (None, s))
     | Some rate \<Rightarrow> bind_run (Do w ''LLEN'' [AString k] s) (\<lambda>((r, err), s).
         let keyLen = fst (reply_Int64 r err)
         in Some (Ret (if rate = 0 \<and> keyLen = 0 then None else Some (rate, keyLen), s))))"

definition rate_point :: "('p, 'x) rate_influx \<Rightarrow> bytes \<Rightarrow> int \<times> int \<Rightarrow> 'p list \<times> 'x \<Rightarrow> 'p list \<times> 'x" where
  "rate_point ix k v st = (case v of (rate, keyLen) \<Rightarrow> (case st of (bp, x) \<Rightarrow> (case ix_rate ix k rate keyLen x of
     (Inl _, x) \<Rightarrow> (bp, x)
   | (Inr p, x) \<Rightarrow> add_point (influx.truncate ix) p (bp, x))))"

fun key_rates :: "('e, 'r, 'w) world \<Rightarrow> ('p, 'x) rate_influx \<Rightarrow> bytes list \<Rightarrow> ('e, 'r, 'w) cst \<Rightarrow> 'p list \<times> 'x
    \<Rightarrow> (('e, 'r, 'w) cst \<times> 'p list \<times> 'x) outcome option" where
  "key_rates w ix [] s st = Some (Ret (s, st))"
| "key_rates w ix (k # ks) s st = bind_run (rate_sample w k s) (\<lambda>(v, s).
     key_rates w ix ks s (case v of None \<Rightarrow> st | Some v \<Rightarrow> rate_point ix k v st))"

text \<open>The turns of the routine.\<close>

definition ReportKeyRateAndLen :: "('e, 'r, 'w) world \<Rightarrow> ('p, 'x) rate_influx \<Rightarrow> 'l log_filter \<Rightarrow> ('e, 'r, 'w) cst \<Rightarrow> 'p list \<times> 'x
    \<Rightarrow> (('e, 'r, 'w) cst \<times> 'p list \<times> 'x) outcome option" where
  "ReportKeyRateAndLen w ix f s st =
     (if \<not> enable f then Some (Ret (s, st))
      else case env_call (map_range w (GetData f)) s of (entries, s) \<Rightarrow> key_rates w ix (map fst entries) s st)"

section \<open>The points of a turn\<close>

text \<open>A turn is a reading of the cluster, which does not depend on influx, followed by the points.\<close>

fun rate_samples :: "('e, 'r, 'w) world \<Rightarrow> bytes list \<Rightarrow> ('e, 'r, 'w) cst \<Rightarrow> ((bytes \<times> int \<times> int) list \<times> ('e, 'r, 'w) cst) outcome option" where
  "rate_samples w [] s = Some (Ret ([], s))"
| "rate_samples w (k # ks) s = bind_run (rate_sample w k s) (\<lambda>(v, s). bind_run (rate_samples w ks s) (\<lambda>(vs, s).
     Some (Ret (case v of None \<Rightarrow> vs | Some v \<Rightarrow> (k, v) # vs, s))))"

definition rate_points :: "('p, 'x) rate_influx \<Rightarrow> (bytes \<times> int \<times> int) list \<Rightarrow> 'p list \<times> 'x \<Rightarrow> 'p list \<times> 'x" where
  "rate_points ix vs st = fold (\<lambda>(k, v). rate_point ix k v) vs st"

lemma bind_run_assoc: "bind_run (bind_run x f) g = bind_run x (\<lambda>y. bind_run (f y) g)"
  by (simp add: bind_run_def split: option.split outcome.split)

lemma bind_run_value: "bind_run (Some (Ret x)) f = f x"
  by (simp add: bind_run_def)

lemma bind_run_cong: "(\<And>y. x = Some (Ret y) \<Longrightarrow> f y = g y) \<Longrightarrow> bind_run x f = bind_run x g"
  by (simp add: bind_run_def split: option.split outcome.split)

lemma key_rates_split:
  "key_rates w ix ks s st = bind_run (rate_samples w ks s) (\<lambda>(vs, s). Some (Ret (s, rate_points ix vs st)))"
proof (induction ks arbitrary: s st)
  case (Cons k ks)
  show ?case unfolding key_rates.simps rate_samples.simps bind_run_assoc
    by (rule bind_run_cong)
      (auto simp: Cons bind_run_assoc bind_run_value rate_points_def intro!: bind_run_cong split: prod.split option.split)
qed (simp add: rate_points_def bind_run_value)

definition rate_law :: "('x \<Rightarrow> 'p list list) \<Rightarrow> ('p, 'x) rate_influx \<Rightarrow> bool" where
  "rate_law sent ix \<longleftrightarrow> batch_law sent (influx.truncate ix) \<and> (\<forall>k r l x. sent (snd (ix_rate ix k r l x)) = sent x)"

lemma rate_points_send:
  "rate_law sent ix \<Longrightarrow> tens sent st \<Longrightarrow> tens sent (rate_points ix vs st) \<and>
     (\<exists>ps. points_of sent (rate_points ix vs st) = points_of sent st @ ps \<and> length ps \<le> length vs)"
proof (induction vs arbitrary: st)
  case (Cons v vs)
  obtain k rate len where v: "v = (k, rate, len)" by (cases v) auto
  obtain bp x where st: "st = (bp, x)" by (cases st)
  obtain r x1 where r: "ix_rate ix k rate len x = (r, x1)" by (metis surj_pair)
  have "sent x1 = sent x" using Cons.prems(1) r unfolding rate_law_def by (metis snd_conv)
  then have same: "tens sent (bp, x1)" "points_of sent (bp, x1) = points_of sent st"
    using Cons.prems(2) by (simp_all add: tens_def points_of_def st)
  let ?st = "rate_point ix k (rate, len) st"
  have "tens sent ?st \<and> (\<exists>ps. points_of sent ?st = points_of sent st @ ps \<and> length ps \<le> 1)"
    using same add_point_sends [of sent "influx.truncate ix" "(bp, x1)"] Cons.prems(1)
    by (cases r) (auto simp: rate_point_def st r rate_law_def)
  then obtain ps where ps: "tens sent ?st" "points_of sent ?st = points_of sent st @ ps" "length ps \<le> 1" by blast
  obtain qs where "tens sent (rate_points ix vs ?st)" "points_of sent (rate_points ix vs ?st) = points_of sent ?st @ qs" "length qs \<le> length vs"
    using Cons.IH [OF Cons.prems(1) ps(1)] by blast
  then show ?case using ps by (auto simp: rate_points_def v intro!: exI [of _ "ps @ qs"])
qed (simp add: rate_points_def)

text \<open>A turn adds at most one point per key and loses none that was waiting.\<close>

lemma key_rates_batches:
  assumes "rate_law sent ix" "tens sent st" "key_rates w ix ks s st = Some (Ret (s', st'))"
  shows "\<exists>vs s1 ps. rate_samples w ks s = Some (Ret (vs, s1)) \<and> st' = rate_points ix vs st \<and> tens sent st' \<and>
    points_of sent st' = points_of sent st @ ps \<and> length ps \<le> length vs"
proof -
  obtain vs where "rate_samples w ks s = Some (Ret (vs, s'))" "st' = rate_points ix vs st"
    using assms(3) unfolding key_rates_split by (auto simp: bind_run_Ret_iff)
  then show ?thesis using rate_points_send [OF assms(1,2), of vs] by blast
qed

text \<open>The fraction is cut off, and what is no number skips the key.\<close>

lemma rate_of_number:
  assumes "in_int64 n"
  shows "rate_of (RArray [RBulk (FormatInt n @ CHR ''.'' # rest)]) None = Some n"
proof -
  have "CHR ''.'' \<notin> set (format_nat m)" for m using format_nat_digits [of "CHR ''.''" m] by (auto simp: is_digit_def)
  then have "CHR ''.'' \<notin> set (FormatInt n)" by (auto simp: FormatInt_def)
  then show ?thesis using assms
    by (simp add: rate_of_def Values_def reply_String_def parse_int_def ParseInt_FormatInt SplitByte_append)
qed

end
