(* ===== verification/Log_Hook.thy ===== *)
theory Log_Hook
  imports Cluster_Run
begin

text \<open>
  The program's own log (\<open>utils/logrusrchook\<close>, \<open>utils/loger\<close>): the messages a hook makes of an entry, and the push
  of a message into the cluster. The logger (\<open>logrus\<close>) and the JSON encoder are parameters. An entry's data and a
  message are maps, so the order of the loops over them does not show.
\<close>

section \<open>Messages\<close>

datatype 'v json = JText bytes | JValue 'v | JMap "bytes \<Rightarrow> 'v json option"

record 'v log_entry =
  en_Time :: bytes
  en_Level :: bytes
  en_Message :: bytes
  en_Data :: "bytes \<rightharpoonup> 'v"

text \<open>The level by its name and the time in the format of the standard (RFC 3339).\<close>

definition data_fields :: "'v log_entry \<Rightarrow> bytes \<rightharpoonup> 'v json" where
  "data_fields en k = map_option JValue (en_Data en k)"

definition createV0Message :: "'v log_entry \<Rightarrow> bytes \<Rightarrow> bytes \<Rightarrow> bytes \<rightharpoonup> 'v json" where
  "createV0Message en app hostname =
     [''@timestamp'' \<mapsto> JText (en_Time en), ''@source_host'' \<mapsto> JText hostname, ''@message'' \<mapsto> JText (en_Message en),
      ''@fields'' \<mapsto> JMap ([''level'' \<mapsto> JText (en_Level en), ''application'' \<mapsto> JText app] ++ data_fields en)]"

definition createV1Message :: "'v log_entry \<Rightarrow> bytes \<Rightarrow> bytes \<Rightarrow> bytes \<rightharpoonup> 'v json" where
  "createV1Message en app hostname =
     [''@timestamp'' \<mapsto> JText (en_Time en), ''host'' \<mapsto> JText hostname, ''message'' \<mapsto> JText (en_Message en),
      ''level'' \<mapsto> JText (en_Level en), ''application'' \<mapsto> JText app] ++ data_fields en"

definition createAccessLogMessage :: "'v log_entry \<Rightarrow> bytes \<Rightarrow> bytes \<Rightarrow> bytes \<rightharpoonup> 'v json" where
  "createAccessLogMessage en app hostname =
     [''message'' \<mapsto> JText (en_Message en), ''@source_host'' \<mapsto> JText hostname,
      ''@fields'' \<mapsto> JMap ([''application'' \<mapsto> JText app] ++ data_fields en)]"

definition createOriginLogMessage :: "'v log_entry \<Rightarrow> bytes \<rightharpoonup> 'v json" where
  "createOriginLogMessage en = (let level = (if en_Level en = ''ERROR'' then ''ERR'' else en_Level en)
     in (data_fields en)(''level'' \<mapsto> JText level, ''message'' \<mapsto> JText (en_Message en)))"

section \<open>The hook\<close>

record redis_hook =
  RedisKey :: bytes
  LogstashFormat :: bytes
  AppName :: bytes
  Hostname :: bytes

definition NewHook :: "redis_hook \<Rightarrow> go_error + redis_hook" where
  "NewHook config =
     (if LogstashFormat config \<noteq> ''v0'' \<and> LogstashFormat config \<noteq> ''v1'' \<and> LogstashFormat config \<noteq> ''access'' \<and> LogstashFormat config \<noteq> ''origin''
      then Inl (Formatted ''unknown message format'') else Inr config)"

text \<open>Any other format leaves the message nil.\<close>

definition hook_message :: "redis_hook \<Rightarrow> 'v log_entry \<Rightarrow> (bytes \<rightharpoonup> 'v json) option" where
  "hook_message h en =
     (if LogstashFormat h = ''v0'' then Some (createV0Message en (AppName h) (Hostname h))
      else if LogstashFormat h = ''v1'' then Some (createV1Message en (AppName h) (Hostname h))
      else if LogstashFormat h = ''access'' then Some (createAccessLogMessage en (AppName h) (Hostname h))
      else if LogstashFormat h = ''origin'' then Some (createOriginLogMessage en)
      else None)"

definition Fire :: "('e, 'r, 'w) world \<Rightarrow> ((bytes \<rightharpoonup> 'v json) option \<Rightarrow> go_error + bytes) \<Rightarrow> redis_hook \<Rightarrow> 'v log_entry
    \<Rightarrow> ('e, 'r, 'w) cst \<Rightarrow> (go_error option \<times> ('e, 'r, 'w) cst) outcome option" where
  "Fire w marshal h en s = (case marshal (hook_message h en) of
     Inl e \<Rightarrow> Some (Ret (Some (Formatted (''error creating message for REDIS: '' @ Error e)), s))
   | Inr js \<Rightarrow> bind_run (Do w ''RPUSH'' [AString (RedisKey h), ABytes js] s) (\<lambda>((_, err), s). Some (Ret
       (map_option (\<lambda>e. Formatted (''error sending message to REDIS: '' @ Error e)) err, s))))"

text \<open>The hook on every entry (\<open>AppHook\<close>) adds the time and the number of the goroutine.\<close>

definition app_fields :: "'v \<Rightarrow> 'v \<Rightarrow> 'v log_entry \<Rightarrow> 'v log_entry" where
  "app_fields now gid en = en\<lparr>en_Data := (en_Data en)(''timestamp'' \<mapsto> now, ''threadId'' \<mapsto> gid)\<rparr>"

section \<open>Helpers\<close>

definition log_names :: "bytes list" where
  "log_names = [''redis'', ''mysql'', ''mongodb'', ''api'', ''ao'', ''grpc'', ''es'', ''tmq'', ''amq'', ''logic'', ''file'', ''net'', ''logproxy'']"

definition getLogName :: "bytes \<Rightarrow> bytes" where
  "getLogName n = (if n \<in> set log_names then n else ''default'')"

text \<open>The number of the goroutine, from the first line of a stack trace; without a space the slice panics.\<close>

definition getGID :: "bytes \<Rightarrow> nat outcome" where
  "getGID trace =
     (let b = (if HasPrefix trace ''goroutine '' then drop 10 trace else trace)
      in case IndexByte b (CHR '' '') of
           None \<Rightarrow> Panic ''slice bounds out of range''
         | Some i \<Rightarrow> Ret (case parse_uint 64 (take i b) of Inr n \<Rightarrow> n | Inl (NumSyntax _) \<Rightarrow> 0 | Inl (NumRange _) \<Rightarrow> 2 ^ 64 - 1))"

text \<open>An address of an interface that is an IPv4 address and not the loopback: the last one in network 10.\<close>

definition getInternetIP :: "go_error + (nat \<times> nat \<times> nat \<times> nat) list \<Rightarrow> (nat \<times> nat \<times> nat \<times> nat) option" where
  "getInternetIP addrs = (case addrs of
     Inl _ \<Rightarrow> None
   | Inr as \<Rightarrow> foldl (\<lambda>ip a. if fst a = 10 then Some a else ip) None as)"

section \<open>What the messages hold\<close>

text \<open>An entry's data cannot hide its level and its text in the \<open>origin\<close> format, and does hide them in \<open>v1\<close>.\<close>

lemma message_fields:
  "createOriginLogMessage en ''message'' = Some (JText (en_Message en))"
  "en_Level en \<noteq> ''ERROR'' \<Longrightarrow> createOriginLogMessage en ''level'' = Some (JText (en_Level en))"
  "k \<notin> {''level'', ''message''} \<Longrightarrow> createOriginLogMessage en k = map_option JValue (en_Data en k)"
  "en_Data en ''message'' = Some v \<Longrightarrow> createV1Message en app hostname ''message'' = Some (JValue v)"
  by (simp_all add: createOriginLogMessage_def createV1Message_def Let_def data_fields_def map_add_def)

text \<open>The names of \<open>logrus\<close>' levels are in lower case, so the name \<open>ERR\<close> is never written.\<close>

definition logrus_levels :: "bytes list" where
  "logrus_levels = [''trace'', ''debug'', ''info'', ''warning'', ''error'', ''fatal'', ''panic'']"

lemma err_never_written:
  "en_Level en \<in> set logrus_levels \<Longrightarrow> createOriginLogMessage en ''level'' \<noteq> Some (JText ''ERR'')"
  by (auto simp: createOriginLogMessage_def Let_def logrus_levels_def)

lemma foldl_last: "foldl (\<lambda>ip a. if P a then Some a else ip) x as = (if filter P as = [] then x else Some (last (filter P as)))"
  by (induction as arbitrary: x) auto

lemma getInternetIP_last:
  "getInternetIP (Inr as) = (let tens = filter (\<lambda>a. fst a = 10) as in if tens = [] then None else Some (last tens))"
  by (simp add: getInternetIP_def foldl_last Let_def)

lemma getGID_reads: "CHR '' '' \<notin> set d \<Longrightarrow> d = format_nat n \<Longrightarrow> n < 2 ^ 64 \<Longrightarrow> getGID (''goroutine '' @ d @ '' '' @ rest) = Ret n"
  using parse_uint_loop_digits [of d 0 "2 ^ 64 - 1" d] IndexByte_append [of "CHR '' ''" d rest]
  by (simp add: getGID_def HasPrefix_def Let_def parse_uint_def format_nat_digits)

section \<open>Properties\<close>

text \<open>An entry is reported as logged exactly when its message could be encoded and the cluster took it: then one push was made,
  of the encoded message, under the hook's key.\<close>

theorem hook_pushes_message:
  assumes "Fire w marshal h en s = Some (Ret (err, s'))"
  shows "err = None \<longleftrightarrow> (\<exists>js r. marshal (hook_message h en) = Inr js \<and>
     Do w ''RPUSH'' [AString (RedisKey h), ABytes js] s = Some (Ret ((r, None), s')))"
proof (cases "marshal (hook_message h en)")
  case (Inl e)
  then show ?thesis using assms by (auto simp: Fire_def)
next
  case (Inr js)
  then obtain r e s1 where d: "Do w ''RPUSH'' [AString (RedisKey h), ABytes js] s = Some (Ret ((r, e), s1))"
    using assms by (auto simp: Fire_def elim!: bind_run_Ret)
  then show ?thesis using assms Inr by (auto simp: Fire_def bind_run_def)
qed

end
