(* ===== verification/Networker.thy ===== *)
theory Networker
  imports Go_Errors "HOL-Library.AList"
begin

text \<open>
  The description of a network service and its HTTP proxy (\<open>utils/networker\<close>): what \<open>GetNewNetWorker\<close> accepts,
  the target of the proxy, and the rewriting of a request by the director of the standard library's proxy.
  Parsing of URLs and of host and port, and the environment variables, are parameters.
\<close>

section \<open>Letters\<close>

definition lower_char :: "char \<Rightarrow> char" where
  "lower_char c = (if 65 \<le> (of_char c :: nat) \<and> (of_char c :: nat) \<le> 90 then char_of (of_char c + 32 :: nat) else c)"

text \<open>\<open>strings.ToLower\<close> on ASCII text.\<close>

definition ToLower :: "bytes \<Rightarrow> bytes" where
  "ToLower s = map lower_char s"

definition HasSuffix :: "bytes \<Rightarrow> bytes \<Rightarrow> bool" where
  "HasSuffix s p \<longleftrightarrow> length p \<le> length s \<and> drop (length s - length p) s = p"

section \<open>State\<close>

record url =
  u_Scheme :: bytes
  u_Host :: bytes
  u_Path :: bytes
  u_RawQuery :: bytes

record proxy_options =
  po_ProtocolType :: bytes
  po_TargetAddress :: bytes
  po_TargetDialTimeout :: int
  po_TargetKeepAlive :: int
  po_TargetIdleConnTimeout :: int
  po_TargetMaxIdleConnsPerHost :: int

text \<open>The clients by their settings; the one for a single host has an address.\<close>

record client_settings =
  hc_Addr :: bytes
  hc_MaxConns :: int
  hc_MaxConnDuration :: int
  hc_MaxIdleConnDuration :: int
  hc_BufferSize :: int
  hc_DialTimeout :: int

record reverse_proxy =
  rp_TargetAddress :: url
  rp_TargetType :: bytes
  rp_FastHTTPHostClient :: client_settings
  rp_FastHTTPClient :: client_settings

datatype server_type = BARESERVER | HTTPSERVER | RESPSERVER

datatype protocol = HTTPPROTOCOL | RESPPROTOCOL

datatype bind_network = UNIXBINDNETWORK | TCPBINDNETWORK

record nws =
  netLevel :: int
  protoclTypeStr :: bytes
  protoclType :: protocol
  bindNetWorkStr :: bytes
  bindNetWork :: bind_network
  bindAddress :: bytes
  bindIP :: bytes
  bindPort :: bytes
  gatewayTargetAddress :: bytes
  HTTPReverseServer :: "reverse_proxy option"
  serverType :: server_type

record net_env =
  ne_getenv :: "bytes \<Rightarrow> bytes"
  ne_url_parse :: "bytes \<Rightarrow> go_error + url"
  ne_split_host_port :: "bytes \<Rightarrow> go_error + bytes \<times> bytes"

section \<open>The HTTP proxy\<close>

text \<open>\<open>SYSENV:NAME\<close> takes the address from the environment.\<close>

definition target_address :: "net_env \<Rightarrow> bytes \<Rightarrow> bytes" where
  "target_address ne a = (let parts = SplitByte (CHR '':'') a in
     if length parts = 2 \<and> ToUpper (parts ! 0) = ''SYSENV'' then ne_getenv ne (parts ! 1) else a)"

definition getNewHTTPReverseProxy :: "net_env \<Rightarrow> proxy_options \<Rightarrow> go_error + reverse_proxy" where
  "getNewHTTPReverseProxy ne po =
     (let a = target_address ne (po_TargetAddress po) in
      if a = [] then Inl (Formatted ''Failed to obtain gateway address from system environment variables'')
      else case ne_url_parse ne a of
          Inl e \<Rightarrow> Inl e
        | Inr u \<Rightarrow> Inr \<lparr>rp_TargetAddress = u, rp_TargetType = po_ProtocolType po,
            rp_FastHTTPHostClient = \<lparr>hc_Addr = a, hc_MaxConns = po_TargetMaxIdleConnsPerHost po,
              hc_MaxConnDuration = po_TargetKeepAlive po, hc_MaxIdleConnDuration = po_TargetIdleConnTimeout po,
              hc_BufferSize = 1024, hc_DialTimeout = 0\<rparr>,
            rp_FastHTTPClient = \<lparr>hc_Addr = [], hc_MaxConns = po_TargetMaxIdleConnsPerHost po,
              hc_MaxConnDuration = po_TargetKeepAlive po, hc_MaxIdleConnDuration = po_TargetIdleConnTimeout po,
              hc_BufferSize = 1024, hc_DialTimeout = po_TargetDialTimeout po\<rparr>\<rparr>)"

definition singleJoiningSlash :: "bytes \<Rightarrow> bytes \<Rightarrow> bytes" where
  "singleJoiningSlash a b =
     (let aslash = HasSuffix a ''/''; bslash = HasPrefix b ''/''
      in if aslash \<and> bslash then a @ drop 1 b
         else if \<not> aslash \<and> \<not> bslash then a @ ''/'' @ b
         else a @ b)"

text \<open>A request of \<open>net/http\<close>, its header by canonical names.\<close>

record http_request =
  hr_URL :: url
  hr_Host :: bytes
  hr_Header :: "(bytes \<times> bytes list) list"

definition header_get :: "bytes \<Rightarrow> http_request \<Rightarrow> bytes" where
  "header_get h r = (case map_of (hr_Header r) h of Some (v # vs) \<Rightarrow> v | _ \<Rightarrow> [])"

definition header_set :: "bytes \<Rightarrow> bytes \<Rightarrow> http_request \<Rightarrow> http_request" where
  "header_set h v r = r\<lparr>hr_Header := AList.update h [v] (hr_Header r)\<rparr>"

definition join_query :: "bytes \<Rightarrow> bytes \<Rightarrow> bytes" where
  "join_query t q = (if t = [] \<or> q = [] then t @ q else t @ ''&'' @ q)"

definition newDirector :: "url \<Rightarrow> http_request \<Rightarrow> http_request" where
  "newDirector target r =
     (let u = (hr_URL r)\<lparr>u_Scheme := u_Scheme target, u_Host := u_Host target\<rparr>;
          r = header_set ''X-Forwarded-Host'' (header_get ''Host'' r) (r\<lparr>hr_URL := u\<rparr>);
          u = u\<lparr>u_Path := singleJoiningSlash (u_Path target) (u_Path u), u_RawQuery := join_query (u_RawQuery target) (u_RawQuery u)\<rparr>;
          r = r\<lparr>hr_URL := u, hr_Host := u_Host target\<rparr>
      in if map_of (hr_Header r) ''User-Agent'' = None then header_set ''User-Agent'' [] r else r)"

section \<open>The service\<close>

definition protocol_of :: "bytes \<Rightarrow> protocol option" where
  "protocol_of p = (if p = ''HTTP'' then Some HTTPPROTOCOL else if p = ''RESP'' then Some RESPPROTOCOL else None)"

definition bind_network_of :: "bytes \<Rightarrow> bind_network option" where
  "bind_network_of n = (if n = ''unix'' then Some UNIXBINDNETWORK else if n = ''tcp'' then Some TCPBINDNETWORK else None)"

text \<open>On a unix network the address is a path, and host and port stay empty.\<close>

definition bind_host_port :: "net_env \<Rightarrow> bind_network \<Rightarrow> bytes \<Rightarrow> go_error + bytes \<times> bytes" where
  "bind_host_port ne n a = (case n of UNIXBINDNETWORK \<Rightarrow> Inr ([], []) | TCPBINDNETWORK \<Rightarrow> ne_split_host_port ne a)"

definition server_of :: "net_env \<Rightarrow> bytes \<Rightarrow> proxy_options \<Rightarrow> go_error + reverse_proxy option \<times> server_type" where
  "server_of ne p po =
     (if p = ''HTTP''
      then if po_TargetAddress po = [] then Inl (Formatted ''In http configuration, the upstream gateway address is not empty'')
           else case getNewHTTPReverseProxy ne po of Inl e \<Rightarrow> Inl e | Inr rp \<Rightarrow> Inr (Some rp, HTTPSERVER)
      else if p = ''RESP'' then Inr (None, RESPSERVER)
      else Inr (None, BARESERVER))"

text \<open>With an error the code also returns the object as far as it is filled, which no caller looks at.\<close>

definition GetNewNetWorker :: "net_env \<Rightarrow> int \<Rightarrow> bytes \<Rightarrow> bytes \<Rightarrow> bytes \<Rightarrow> proxy_options \<Rightarrow> go_error + nws" where
  "GetNewNetWorker ne level proto bind addr po =
     (if level \<noteq> 5 \<and> level \<noteq> 7 then Inl (Formatted ''Network layer is not supported'')
      else case protocol_of (ToUpper proto) of
        None \<Rightarrow> Inl (Formatted ''Application layer protocol is not supported'')
      | Some pt \<Rightarrow> (case bind_network_of (ToLower bind) of
          None \<Rightarrow> Inl (Formatted ''Network monitoring category is not supported'')
        | Some bn \<Rightarrow> (case bind_host_port ne bn addr of
            Inl e \<Rightarrow> Inl e
          | Inr (ip, port) \<Rightarrow> (case server_of ne (ToUpper proto) po of
              Inl e \<Rightarrow> Inl e
            | Inr (rp, st) \<Rightarrow> Inr \<lparr>netLevel = level, protoclTypeStr = ToUpper proto, protoclType = pt,
                bindNetWorkStr = ToLower bind, bindNetWork = bn, bindAddress = addr, bindIP = ip, bindPort = port,
                gatewayTargetAddress = po_TargetAddress po, HTTPReverseServer = rp, serverType = st\<rparr>))))"

definition GetServerType :: "nws \<Rightarrow> server_type" where "GetServerType n = serverType n"
definition GetBindAddress :: "nws \<Rightarrow> bytes" where "GetBindAddress n = bindAddress n"
definition GetBindNetWorkStr :: "nws \<Rightarrow> bytes" where "GetBindNetWorkStr n = bindNetWorkStr n"
definition GetGatewayTargetAddress :: "nws \<Rightarrow> bytes" where "GetGatewayTargetAddress n = gatewayTargetAddress n"

section \<open>Properties\<close>

lemma HasSuffix_slash: "HasSuffix a ''/'' \<longleftrightarrow> (\<exists>a'. a = a' @ ''/'')"
  by (cases a rule: rev_cases) (auto simp: HasSuffix_def)

lemma HasPrefix_slash: "HasPrefix b ''/'' \<longleftrightarrow> (\<exists>b'. b = ''/'' @ b')"
  by (cases b) (auto simp: HasPrefix_def)

text \<open>Joining puts one slash between the parts, whichever of them brought one.\<close>

lemma singleJoiningSlash_joins:
  assumes "a = x \<or> a = x @ ''/''" "b = y \<or> b = ''/'' @ y" "\<not> HasSuffix x ''/''" "\<not> HasPrefix y ''/''"
  shows "singleJoiningSlash a b = x @ ''/'' @ y"
  using assms by (auto simp: singleJoiningSlash_def HasSuffix_slash HasPrefix_slash Let_def)

text \<open>A service that is made is one the program can start: its protocol is HTTP or RESP, never a bare server, with
  a proxy to a target exactly when it is HTTP; its network is TCP, with a host and a port, or a unix path.\<close>

lemma networker_ok:
  assumes "GetNewNetWorker ne level proto bind addr po = Inr n"
  shows "netLevel n \<in> {5, 7} \<and> bindAddress n = addr \<and>
    (bindNetWorkStr n = ''unix'' \<or> bindNetWorkStr n = ''tcp'' \<and> ne_split_host_port ne addr = Inr (bindIP n, bindPort n)) \<and>
    (serverType n = RESPSERVER \<and> protoclTypeStr n = ''RESP'' \<and> HTTPReverseServer n = None \<or>
     serverType n = HTTPSERVER \<and> protoclTypeStr n = ''HTTP'' \<and>
       (\<exists>rp. HTTPReverseServer n = Some rp \<and> hc_Addr (rp_FastHTTPHostClient rp) = target_address ne (po_TargetAddress po) \<and>
          target_address ne (po_TargetAddress po) \<noteq> [] \<and>
          ne_url_parse ne (target_address ne (po_TargetAddress po)) = Inr (rp_TargetAddress rp)))"
  using assms
  by (auto simp: GetNewNetWorker_def protocol_of_def bind_network_of_def bind_host_port_def server_of_def getNewHTTPReverseProxy_def Let_def
      split: if_splits sum.splits)

definition sample_net_env :: net_env where
  "sample_net_env = \<lparr>ne_getenv = (\<lambda>_. ''http://gw''), ne_url_parse = (\<lambda>a. Inr \<lparr>u_Scheme = ''http'', u_Host = ''gw'', u_Path = [], u_RawQuery = []\<rparr>),
     ne_split_host_port = (\<lambda>_. Inr (''h'', ''1''))\<rparr>"

definition sample_proxy_options :: proxy_options where
  "sample_proxy_options = \<lparr>po_ProtocolType = ''http'', po_TargetAddress = ''sysenv:GW'', po_TargetDialTimeout = 1, po_TargetKeepAlive = 1,
     po_TargetIdleConnTimeout = 1, po_TargetMaxIdleConnsPerHost = 1\<rparr>"

lemma networker_ok_sample:
  "\<exists>n rp. GetNewNetWorker sample_net_env 7 ''http'' ''TCP'' ''h:1'' sample_proxy_options = Inr n \<and> serverType n = HTTPSERVER \<and>
     HTTPReverseServer n = Some rp \<and> hc_Addr (rp_FastHTTPHostClient rp) = ''http://gw''"
proof -
  have c: "ToUpper ''http'' = ''HTTP''" "ToLower ''TCP'' = ''tcp''" "ToUpper ''sysenv'' = ''SYSENV''"
      "target_address sample_net_env (po_TargetAddress sample_proxy_options) = ''http://gw''"
    by code_simp+
  moreover have "ne_url_parse sample_net_env = (\<lambda>a. Inr \<lparr>u_Scheme = ''http'', u_Host = ''gw'', u_Path = [], u_RawQuery = []\<rparr>)"
      "ne_split_host_port sample_net_env = (\<lambda>_. Inr (''h'', ''1''))" "po_TargetAddress sample_proxy_options \<noteq> []"
    by (simp_all add: sample_net_env_def sample_proxy_options_def)
  ultimately obtain n where n: "GetNewNetWorker sample_net_env 7 ''http'' ''TCP'' ''h:1'' sample_proxy_options = Inr n" "serverType n = HTTPSERVER"
    by (simp add: GetNewNetWorker_def protocol_of_def bind_network_of_def bind_host_port_def server_of_def getNewHTTPReverseProxy_def Let_def)
  from networker_ok [OF n(1)] n c(4) show ?thesis by auto
qed

text \<open>The director sends a request to the target's host, under the target's path and query, with a user agent in
  any case; the forwarded host is what the header says of the host, not the host of the request.\<close>

lemma newDirector_target:
  shows "u_Scheme (hr_URL (newDirector t r)) = u_Scheme t" "u_Host (hr_URL (newDirector t r)) = u_Host t"
    "hr_Host (newDirector t r) = u_Host t" "u_Path (hr_URL (newDirector t r)) = singleJoiningSlash (u_Path t) (u_Path (hr_URL r))"
    "map_of (hr_Header (newDirector t r)) ''User-Agent'' \<noteq> None"
    "header_get ''X-Forwarded-Host'' (newDirector t r) = header_get ''Host'' r"
  by (simp_all add: newDirector_def Let_def header_set_def header_get_def update_conv')

text \<open>A server of \<open>net/http\<close> takes the host out of the header, so the forwarded host is empty.\<close>

lemma forwarded_host_empty:
  "map_of (hr_Header r) ''Host'' = None \<Longrightarrow> header_get ''X-Forwarded-Host'' (newDirector t r) = []"
  by (simp add: newDirector_target) (simp add: header_get_def)

end
