(* ===== verification/Config.thy ===== *)
theory Config
  imports Networker
begin

text \<open>
  The configuration (\<open>sc/confer\<close>, \<open>utils/filer\<close>): its structure, reading it from a file, and the adjustments
  \<open>GetNewConfer\<close> makes to it: lower bounds, values replaced from the environment, and the precision of the
  time series. The YAML parser, the file system and the environment are parameters.
\<close>

section \<open>Structure\<close>

record traffic_inflow_conf =
  ti_Enable :: bool
  ti_BindProtocolType :: bytes
  ti_BindNetWork :: bytes
  ti_BindAddress :: bytes
  ti_TargetProtocolType :: bytes
  ti_TargetAddress :: bytes
  ti_TargetDialTimeout :: int
  ti_TargetKeepAlive :: int
  ti_TargetIdleConnTimeout :: int
  ti_TargetMaxIdleConnsPerHost :: int

record gateway_conf =
  gw_Enable :: bool
  gw_ProtocolType :: bytes
  gw_TargetAddress :: bytes
  gw_TargetDialTimeout :: int
  gw_TargetKeepAlive :: int
  gw_TargetIdleConnTimeout :: int
  gw_TargetMaxIdleConnsPerHost :: int

record l7_net_conf =
  l7_ProtocolType :: bytes
  l7_BindNetwork :: bytes
  l7_BindAddress :: bytes

record redis_cluster_conf =
  rc_Enable :: bool
  rc_StartNodes :: bytes
  rc_ConnTimeOut :: int
  rc_ConnReadTimeOut :: int
  rc_ConnWriteTimeOut :: int
  rc_ConnAliveTimeOut :: int
  rc_ConnPoolSize :: int
  rc_SlaveOperateRate :: int
  rc_ClusterUpdateHeartbeat :: int

record memory_cache_conf =
  mc_Enable :: bool
  mc_MaxItemsCount :: int
  mc_DefaultExpiration :: int
  mc_CleanupInterval :: int

record debug_conf =
  db_Enable :: bool
  db_PprofURI :: bytes

record app_conf =
  ap_AppName :: bytes
  ap_AppID :: bytes
  ap_AppVersion :: bytes
  ap_AppKey :: bytes
  ap_Channel :: bytes
  ap_SubOrgKey :: bytes
  ap_Language :: bytes
  ap_SiteID :: bytes
  ap_ClusterID :: bytes

record log_conf =
  lg_OutPut :: bytes
  lg_Debug :: bool
  lg_LogKey :: bytes
  lg_ScLogNum :: int
  lg_LogRedisClusterConf :: redis_cluster_conf

record filter_conf =
  fc_Enable :: bool
  fc_RuleDataURLPath :: bytes
  fc_RuleHTTPRequestTimeout :: int
  fc_RuleUpdateHeartBeat :: int

record http_conf =
  ho_Enable :: bool
  ho_ListenURI :: bytes

record influxdb_conf =
  ix_Enable :: bool
  ix_Address :: bytes
  ix_Port :: int
  ix_UdpAddress :: bytes
  ix_Database :: bytes
  ix_Precision :: bytes
  ix_UserName :: bytes
  ix_Password :: bytes
  ix_MaxIdleConns :: int
  ix_MaxIdleConnsPerHost :: int
  ix_IdleConnTimeout :: int

record ca_conf =
  ca_Enable :: bool
  ca_AuthKey :: bytes
  ca_Address :: bytes

record sc_conf =
  co_TrafficInflow :: traffic_inflow_conf
  co_GateWay :: gateway_conf
  co_L5NetConf :: bytes
  co_L7NetConf :: l7_net_conf
  co_RedisClusterConf :: redis_cluster_conf
  co_MemoryCacheConf :: memory_cache_conf
  co_DebugConf :: debug_conf
  co_AppInfo :: app_conf
  co_Log :: log_conf
  co_MSP :: bytes
  co_Filter :: filter_conf
  co_HTTPOption :: http_conf
  co_RateLimiter :: bytes
  co_InfluxDBConf :: influxdb_conf
  co_CaConfig :: ca_conf

text \<open>The structures of a single string (\<open>L5NetConfS\<close>, \<open>MSPS\<close>, \<open>RateLimiterS\<close>) are that string.\<close>

section \<open>Reading\<close>

text \<open>\<open>ce_yaml\<close> gives what the parser has filled in, with its error; \<open>ce_zero\<close> is the zero value.\<close>

record conf_env =
  ce_net :: net_env
  ce_missing :: "bytes \<Rightarrow> bool"
  ce_read :: "bytes \<Rightarrow> bytes \<times> go_error option"
  ce_yaml :: "bytes \<Rightarrow> sc_conf \<times> go_error option"
  ce_zero :: sc_conf

text \<open>The error made for a missing file is overwritten by the one of reading it.\<close>

definition ReadFileData :: "conf_env \<Rightarrow> bytes \<Rightarrow> bytes \<times> go_error option" where
  "ReadFileData ce f = (let err = (if ce_missing ce f then Some (Formatted ''The yaml configuration file does not exist'') else None);
     (d, err) = ce_read ce f in (d, err))"

definition parseYamlFromBytes :: "conf_env \<Rightarrow> bytes \<Rightarrow> sc_conf \<times> go_error option" where
  "parseYamlFromBytes ce b = (if b = [] then (ce_zero ce, Some (Formatted ''yaml source data is empty'')) else ce_yaml ce b)"

definition parseYamlFromFile :: "conf_env \<Rightarrow> bytes \<Rightarrow> sc_conf \<times> go_error option" where
  "parseYamlFromFile ce f = (case ReadFileData ce f of
     (_, Some err) \<Rightarrow> (ce_zero ce, Some err)
   | (b, None) \<Rightarrow> parseYamlFromBytes ce b)"

section \<open>Adjusting\<close>

definition replaceByEnv :: "conf_env \<Rightarrow> bytes \<Rightarrow> bytes" where
  "replaceByEnv ce v = (let s = ne_getenv (ce_net ce) v in if 0 < length s then s else v)"

definition cluster_bounds :: "redis_cluster_conf \<Rightarrow> redis_cluster_conf" where
  "cluster_bounds c = c\<lparr>rc_SlaveOperateRate := 0,
     rc_ClusterUpdateHeartbeat := (if rc_ClusterUpdateHeartbeat c < 5 then 5 else rc_ClusterUpdateHeartbeat c)\<rparr>"

definition cache_bounds :: "memory_cache_conf \<Rightarrow> memory_cache_conf" where
  "cache_bounds c =
     (let c = (if mc_Enable c \<and> mc_MaxItemsCount c < 1024 then c\<lparr>mc_MaxItemsCount := 1024\<rparr> else c);
          c = (if mc_DefaultExpiration c \<le> 0 then c\<lparr>mc_DefaultExpiration := 0\<rparr> else c)
      in if mc_CleanupInterval c \<le> 10 then c\<lparr>mc_CleanupInterval := 10\<rparr> else c)"

definition precisions :: "bytes list" where
  "precisions = [''n'', ''u'', ''ms'', ''s'', ''m'', ''h'']"

definition influx_precision :: "bytes \<Rightarrow> bytes" where
  "influx_precision p = (let p = ToLower p in if p \<in> set precisions then p else ''ms'')"

text \<open>An address that does not split is logged and left as it is; the error of the port number is dropped.\<close>

definition influx_address :: "conf_env \<Rightarrow> influxdb_conf \<Rightarrow> influxdb_conf" where
  "influx_address ce c =
     (let c = c\<lparr>ix_Address := replaceByEnv ce (ix_Address c)\<rparr>
      in case ne_split_host_port (ce_net ce) (ix_Address c) of
           Inl _ \<Rightarrow> c
         | Inr (host, port) \<Rightarrow> c\<lparr>ix_Address := host, ix_Port := fst (ParseInt 64 port)\<rparr>)"

definition influx_adjust :: "conf_env \<Rightarrow> influxdb_conf \<Rightarrow> influxdb_conf" where
  "influx_adjust ce c =
     (if \<not> ix_Enable c then c
      else let c = influx_address ce c
        in c\<lparr>ix_UserName := replaceByEnv ce (ix_UserName c), ix_Password := replaceByEnv ce (ix_Password c),
             ix_UdpAddress := replaceByEnv ce (ix_UdpAddress c), ix_Database := replaceByEnv ce (ix_Database c),
             ix_Precision := influx_precision (replaceByEnv ce (ix_Precision c))\<rparr>)"

definition nodes_from_env :: "conf_env \<Rightarrow> redis_cluster_conf \<Rightarrow> redis_cluster_conf" where
  "nodes_from_env ce c = c\<lparr>rc_StartNodes := replaceByEnv ce (rc_StartNodes c)\<rparr>"

definition app_adjust :: "conf_env \<Rightarrow> app_conf \<Rightarrow> app_conf" where
  "app_adjust ce a = a\<lparr>ap_AppID := replaceByEnv ce (ap_AppID a), ap_SiteID := replaceByEnv ce (ap_SiteID a),
     ap_ClusterID := replaceByEnv ce (ap_ClusterID a)\<rparr>"

definition ca_adjust :: "conf_env \<Rightarrow> ca_conf \<Rightarrow> ca_conf" where
  "ca_adjust ce c =
     (let c = (if ne_getenv (ce_net ce) ''MSP_CA_ENABLE'' = ''true'' then c\<lparr>ca_Enable := True\<rparr> else c)
      in c\<lparr>ca_Address := replaceByEnv ce (ca_Address c), ca_AuthKey := replaceByEnv ce (ca_AuthKey c)\<rparr>)"

definition adjust_conf :: "conf_env \<Rightarrow> sc_conf \<Rightarrow> sc_conf" where
  "adjust_conf ce c = c\<lparr>
     co_MemoryCacheConf := cache_bounds (co_MemoryCacheConf c),
     co_RedisClusterConf := nodes_from_env ce (co_RedisClusterConf c),
     co_Log := (co_Log c)\<lparr>lg_LogRedisClusterConf := nodes_from_env ce (lg_LogRedisClusterConf (co_Log c))\<rparr>,
     co_MSP := replaceByEnv ce (co_MSP c),
     co_RateLimiter := replaceByEnv ce (co_RateLimiter c),
     co_InfluxDBConf := influx_adjust ce (co_InfluxDBConf c),
     co_AppInfo := app_adjust ce (co_AppInfo c),
     co_CaConfig := ca_adjust ce (co_CaConfig c)\<rparr>"

definition pprof_missing :: go_error where
  "pprof_missing = Formatted (''When the Enable parameter in Debug is True, the pprof_uri parameter cannot be empty, '' @
     ''and a meaningful pprof listening address must be filled in'')"

text \<open>The error of parsing does not end the function: it is returned with the configuration, adjusted.\<close>

definition GetNewConfer :: "conf_env \<Rightarrow> bytes \<Rightarrow> sc_conf \<times> go_error option" where
  "GetNewConfer ce f = (case parseYamlFromFile ce f of (c, err) \<Rightarrow>
     let c = c\<lparr>co_RedisClusterConf := cluster_bounds (co_RedisClusterConf c)\<rparr>
     in if db_Enable (co_DebugConf c) \<and> length (db_PprofURI (co_DebugConf c)) = 0 then (c, Some pprof_missing)
        else (adjust_conf ce c, err))"

section \<open>Properties\<close>

lemma config_ok:
  assumes "GetNewConfer ce f = (c, None)"
  shows "\<exists>b c0. ce_read ce f = (b, None) \<and> b \<noteq> [] \<and> ce_yaml ce b = (c0, None) \<and>
    co_L7NetConf c = co_L7NetConf c0 \<and> co_GateWay c = co_GateWay c0 \<and> co_Filter c = co_Filter c0 \<and>
    rc_SlaveOperateRate (co_RedisClusterConf c) = 0 \<and>
    rc_ClusterUpdateHeartbeat (co_RedisClusterConf c) = max 5 (rc_ClusterUpdateHeartbeat (co_RedisClusterConf c0)) \<and>
    (mc_Enable (co_MemoryCacheConf c) \<longrightarrow> mc_MaxItemsCount (co_MemoryCacheConf c) = max 1024 (mc_MaxItemsCount (co_MemoryCacheConf c0))) \<and>
    mc_DefaultExpiration (co_MemoryCacheConf c) = max 0 (mc_DefaultExpiration (co_MemoryCacheConf c0)) \<and>
    mc_CleanupInterval (co_MemoryCacheConf c) = max 10 (mc_CleanupInterval (co_MemoryCacheConf c0)) \<and>
    (ix_Enable (co_InfluxDBConf c) \<longrightarrow> ix_Precision (co_InfluxDBConf c) \<in> set precisions) \<and>
    (db_Enable (co_DebugConf c) \<longrightarrow> db_PprofURI (co_DebugConf c) \<noteq> [])"
proof -
  obtain c0 err where p: "parseYamlFromFile ce f = (c0, err)" by (metis surj_pair)
  let ?c1 = "c0\<lparr>co_RedisClusterConf := cluster_bounds (co_RedisClusterConf c0)\<rparr>"
  have c: "err = None" "c = adjust_conf ce ?c1" "db_Enable (co_DebugConf c0) \<longrightarrow> db_PprofURI (co_DebugConf c0) \<noteq> []"
    using assms p by (auto simp: GetNewConfer_def Let_def split: if_splits)
  obtain b where b: "ce_read ce f = (b, None)" "b \<noteq> []" "ce_yaml ce b = (c0, None)"
    using p c(1) by (auto simp: parseYamlFromFile_def ReadFileData_def parseYamlFromBytes_def split: option.splits if_splits prod.splits)
  have i: "ix_Enable (influx_adjust ce x) \<longrightarrow> ix_Precision (influx_adjust ce x) \<in> set precisions" for x
    by (simp add: influx_adjust_def Let_def) (simp add: influx_precision_def Let_def precisions_def)
  have m: "mc_Enable (cache_bounds x) \<longrightarrow> mc_MaxItemsCount (cache_bounds x) = max 1024 (mc_MaxItemsCount x)"
      "mc_DefaultExpiration (cache_bounds x) = max 0 (mc_DefaultExpiration x)"
      "mc_CleanupInterval (cache_bounds x) = max 10 (mc_CleanupInterval x)" for x
    by (simp_all add: cache_bounds_def Let_def max_def)
  show ?thesis
    using b i m c(3) by (simp add: c(2) adjust_conf_def cluster_bounds_def nodes_from_env_def max_def)
qed

text \<open>C21. A configuration without an error was read from the file, and is within its bounds: no reads from slaves, a
  heartbeat of at least 5 seconds, an enabled cache of at least 1024 items, no negative expiration, cleaning at
  least 10 seconds apart, a known precision, and an address for pprof where debugging is on.\<close>

theorem config_bounds:
  assumes "GetNewConfer ce f = (c, None)"
  shows "\<exists>b c0. ce_read ce f = (b, None) \<and> b \<noteq> [] \<and> ce_yaml ce b = (c0, None) \<and>
    co_L7NetConf c = co_L7NetConf c0 \<and> co_GateWay c = co_GateWay c0 \<and> co_Filter c = co_Filter c0 \<and>
    rc_SlaveOperateRate (co_RedisClusterConf c) = 0 \<and>
    rc_ClusterUpdateHeartbeat (co_RedisClusterConf c) = max 5 (rc_ClusterUpdateHeartbeat (co_RedisClusterConf c0)) \<and>
    (mc_Enable (co_MemoryCacheConf c) \<longrightarrow> mc_MaxItemsCount (co_MemoryCacheConf c) = max 1024 (mc_MaxItemsCount (co_MemoryCacheConf c0))) \<and>
    mc_DefaultExpiration (co_MemoryCacheConf c) = max 0 (mc_DefaultExpiration (co_MemoryCacheConf c0)) \<and>
    mc_CleanupInterval (co_MemoryCacheConf c) = max 10 (mc_CleanupInterval (co_MemoryCacheConf c0)) \<and>
    (ix_Enable (co_InfluxDBConf c) \<longrightarrow> ix_Precision (co_InfluxDBConf c) \<in> set precisions) \<and>
    (db_Enable (co_DebugConf c) \<longrightarrow> db_PprofURI (co_DebugConf c) \<noteq> [])"
  by (rule config_ok [OF assms])

definition sample_redis_conf :: redis_cluster_conf where
  "sample_redis_conf = \<lparr>rc_Enable = False, rc_StartNodes = ''h:1'', rc_ConnTimeOut = 0, rc_ConnReadTimeOut = 0, rc_ConnWriteTimeOut = 0,
     rc_ConnAliveTimeOut = 0, rc_ConnPoolSize = 0, rc_SlaveOperateRate = 50, rc_ClusterUpdateHeartbeat = 1\<rparr>"

definition sample_conf :: sc_conf where
  "sample_conf = \<lparr>
     co_TrafficInflow = \<lparr>ti_Enable = False, ti_BindProtocolType = ''resp'', ti_BindNetWork = ''unix'', ti_BindAddress = [], ti_TargetProtocolType = [],
       ti_TargetAddress = [], ti_TargetDialTimeout = 0, ti_TargetKeepAlive = 0, ti_TargetIdleConnTimeout = 0, ti_TargetMaxIdleConnsPerHost = 0\<rparr>,
     co_GateWay = \<lparr>gw_Enable = False, gw_ProtocolType = [], gw_TargetAddress = [], gw_TargetDialTimeout = 0, gw_TargetKeepAlive = 0,
       gw_TargetIdleConnTimeout = 0, gw_TargetMaxIdleConnsPerHost = 0\<rparr>,
     co_L5NetConf = [],
     co_L7NetConf = \<lparr>l7_ProtocolType = ''resp'', l7_BindNetwork = ''unix'', l7_BindAddress = ''/s''\<rparr>,
     co_RedisClusterConf = sample_redis_conf,
     co_MemoryCacheConf = \<lparr>mc_Enable = True, mc_MaxItemsCount = 1, mc_DefaultExpiration = 0, mc_CleanupInterval = 0\<rparr>,
     co_DebugConf = \<lparr>db_Enable = False, db_PprofURI = []\<rparr>,
     co_AppInfo = \<lparr>ap_AppName = ''proxy'', ap_AppID = [], ap_AppVersion = [], ap_AppKey = [], ap_Channel = [], ap_SubOrgKey = [],
       ap_Language = [], ap_SiteID = [], ap_ClusterID = []\<rparr>,
     co_Log = \<lparr>lg_OutPut = [], lg_Debug = False, lg_LogKey = [], lg_ScLogNum = 0, lg_LogRedisClusterConf = sample_redis_conf\<rparr>,
     co_MSP = [],
     co_Filter = \<lparr>fc_Enable = False, fc_RuleDataURLPath = [], fc_RuleHTTPRequestTimeout = 0, fc_RuleUpdateHeartBeat = 0\<rparr>,
     co_HTTPOption = \<lparr>ho_Enable = False, ho_ListenURI = []\<rparr>,
     co_RateLimiter = [],
     co_InfluxDBConf = \<lparr>ix_Enable = False, ix_Address = [], ix_Port = 0, ix_UdpAddress = [], ix_Database = [], ix_Precision = [], ix_UserName = [],
       ix_Password = [], ix_MaxIdleConns = 0, ix_MaxIdleConnsPerHost = 0, ix_IdleConnTimeout = 0\<rparr>,
     co_CaConfig = \<lparr>ca_Enable = False, ca_AuthKey = [], ca_Address = []\<rparr>\<rparr>"

definition sample_conf_env :: conf_env where
  "sample_conf_env = \<lparr>ce_net = \<lparr>ne_getenv = (\<lambda>_. []), ne_url_parse = (\<lambda>_. Inl EOF), ne_split_host_port = (\<lambda>_. Inr ([], []))\<rparr>,
     ce_missing = (\<lambda>_. False), ce_read = (\<lambda>_. (''y'', None)), ce_yaml = (\<lambda>_. (sample_conf, None)), ce_zero = sample_conf\<rparr>"

lemma sample_confer:
  "\<exists>c. GetNewConfer sample_conf_env [] = (c, None) \<and> co_L7NetConf c = co_L7NetConf sample_conf \<and>
     co_TrafficInflow c = co_TrafficInflow sample_conf \<and> \<not> rc_Enable (co_RedisClusterConf c) \<and> ap_AppName (co_AppInfo c) = ''proxy'' \<and>
     rc_StartNodes (lg_LogRedisClusterConf (co_Log c)) = ''h:1'' \<and> \<not> ix_Enable (co_InfluxDBConf c) \<and> \<not> ca_Enable (co_CaConfig c) \<and>
     mc_CleanupInterval (co_MemoryCacheConf c) = 10"
proof -
  have "parseYamlFromFile sample_conf_env [] = (sample_conf, None)"
    by (simp add: parseYamlFromFile_def ReadFileData_def parseYamlFromBytes_def sample_conf_env_def)
  moreover have "ne_getenv (ce_net sample_conf_env) = (\<lambda>_. [])" by (simp add: sample_conf_env_def)
  ultimately show ?thesis
    by (simp add: GetNewConfer_def adjust_conf_def Let_def replaceByEnv_def nodes_from_env_def cluster_bounds_def app_adjust_def ca_adjust_def
        influx_adjust_def cache_bounds_def) (simp add: sample_conf_def sample_redis_conf_def)
qed

lemma config_bounds_witness:
  "\<exists>c. GetNewConfer sample_conf_env [] = (c, None) \<and> rc_SlaveOperateRate (co_RedisClusterConf c) = 0 \<and>
     rc_ClusterUpdateHeartbeat (co_RedisClusterConf c) \<ge> 5"
proof -
  obtain c where c: "GetNewConfer sample_conf_env [] = (c, None)" using sample_confer by blast
  from config_bounds [OF c] c show ?thesis by auto
qed

text \<open>With the cache off, its size is not bounded from below.\<close>

lemma disabled_cache_unbounded:
  "\<not> mc_Enable c \<Longrightarrow> mc_MaxItemsCount (cache_bounds c) = mc_MaxItemsCount c"
  by (simp add: cache_bounds_def Let_def)

text \<open>The error made for a missing file is never seen.\<close>

lemma missing_file_error_lost: "snd (ReadFileData ce f) = snd (ce_read ce f)"
  by (simp add: ReadFileData_def split: prod.splits)

end
