(* ===== verification/Trace_Stack.thy ===== *)
theory Trace_Stack
  imports Go_Errors
begin

text \<open>
  Call stacks (\<open>utils/resparse/trace\<close>) and the errors that carry one (\<open>utils/resparse/errors\<close>): walking the frames of the runtime and printing them. The frames a routine
  stands on are a list, the innermost first; \<open>runtime.Caller(n)\<close> is the frame with index \<open>n\<close>, if there is one, and a
  frame's function may be unknown. The frames of \<open>trace\<close> itself are counted by the \<open>skip\<close> arguments.
\<close>

record frame_record =
  rec_Name :: bytes
  rec_File :: bytes
  rec_Line :: int

type_synonym frame = "bytes option \<times> bytes \<times> int"
type_synonym stack = "frame_record list"

definition tab :: bytes where "tab = ''    ''"

definition Record_String :: "frame_record option \<Rightarrow> bytes" where
  "Record_String r = (case r of
     None \<Rightarrow> ''[nil-record]''
   | Some r \<Rightarrow> rec_File r @ '':'' @ FormatInt (rec_Line r) @ '' '' @ rec_Name r)"

text \<open>\<open>Caller(skip)\<close>: the frames here start at \<open>Caller\<close> itself. A frame of the runtime counts as none.\<close>

definition Caller :: "frame list \<Rightarrow> nat \<Rightarrow> frame_record option" where
  "Caller frames skip =
     (if skip + 1 < length frames then
        (case frames ! (skip + 1) of
           (None, _, _) \<Rightarrow> None
         | (Some name, file, line) \<Rightarrow>
             if HasPrefix name ''runtime.'' then None else Some \<lparr>rec_Name = name, rec_File = file, rec_Line = line\<rparr>)
      else None)"

text \<open>The loop of \<open>TraceN\<close> from \<open>i\<close>, with \<open>n\<close> records left to take; its own frames start at \<open>TraceN\<close>, and the frame
  of \<open>Caller\<close> comes before them.\<close>

fun trace_loop :: "frame list \<Rightarrow> nat \<Rightarrow> nat \<Rightarrow> nat \<Rightarrow> stack" where
  "trace_loop frames skip i 0 = []"
| "trace_loop frames skip i (Suc n) = (case Caller ((None, [], 0) # frames) (skip + i + 1) of
     None \<Rightarrow> []
   | Some r \<Rightarrow> r # trace_loop frames skip (i + 1) n)"

definition TraceN :: "frame list \<Rightarrow> nat \<Rightarrow> nat \<Rightarrow> stack" where
  "TraceN frames skip depth = trace_loop frames skip 0 depth"

text \<open>\<open>Trace\<close>, whose own frame comes first in \<open>frames\<close>.\<close>

definition stack_trace :: "frame list \<Rightarrow> stack" where
  "stack_trace frames = TraceN ((None, [], 0) # frames) 1 32"

text \<open>\<open>%-3d\<close>\<close>

definition pad3 :: "nat \<Rightarrow> bytes" where
  "pad3 n = (let s = FormatInt (int n) in s @ replicate (3 - length s) (CHR '' ''))"

definition tabs :: "nat \<Rightarrow> bytes" where "tabs n = concat (replicate n tab)"

definition StringWithIndent :: "stack \<Rightarrow> nat \<Rightarrow> bytes" where
  "StringWithIndent s indent =
     concat (map (\<lambda>(i, r). tabs indent @ pad3 (length s - i - 1) @ '' '' @ rec_File r @ '':'' @ FormatInt (rec_Line r) @ [LF] @
       tabs indent @ tab @ tab @ rec_Name r @ [LF]) (enumerate 0 s)) @
     (if length s \<noteq> 0 then tabs indent @ tab @ ''... ...'' @ [LF] else [])"

definition Stack_String :: "stack \<Rightarrow> bytes" where
  "Stack_String s = StringWithIndent s 0"

section \<open>What is recorded\<close>

text \<open>The frames from \<open>skip\<close> on, as long as they are frames of known functions outside the runtime.\<close>

definition user_frame :: "frame \<Rightarrow> bool" where
  "user_frame f \<longleftrightarrow> (case f of (None, _) \<Rightarrow> False | (Some name, _) \<Rightarrow> \<not> HasPrefix name ''runtime.'')"

definition frame_of :: "frame \<Rightarrow> frame_record" where
  "frame_of f = (case f of (name, file, line) \<Rightarrow> \<lparr>rec_Name = the name, rec_File = file, rec_Line = line\<rparr>)"

lemma Caller_frame:
  "Caller frames skip = (if skip + 1 < length frames \<and> user_frame (frames ! (skip + 1)) then Some (frame_of (frames ! (skip + 1))) else None)"
  by (auto simp: Caller_def user_frame_def frame_of_def split: prod.splits option.splits)

lemma trace_loop_frames:
  "trace_loop frames skip i n = map frame_of (takeWhile user_frame (take n (drop (skip + i + 1) frames)))"
proof (induction n arbitrary: i)
  case (Suc n)
  show ?case
  proof (cases "skip + i + 1 < length frames")
    case True
    then have "drop (skip + i + 1) frames = frames ! (skip + i + 1) # drop (skip + (i + 1) + 1) frames"
      by (metis Cons_nth_drop_Suc Suc_eq_plus1 add.assoc)
    then show ?thesis using True Suc [of "i + 1"] by (simp add: Caller_frame)
  qed (simp add: Caller_frame)
qed simp

text \<open>\<open>Trace()\<close> records its caller and what called it, at most 32 frames, and prints one numbered entry for each.\<close>

lemma stack_trace_frames:
  "stack_trace frames = map frame_of (takeWhile user_frame (take 32 (drop 1 frames)))"
  by (simp add: stack_trace_def TraceN_def trace_loop_frames)

lemma stack_trace_bound: "length (stack_trace frames) \<le> 32"
proof -
  have "length (takeWhile user_frame (take 32 (drop 1 frames))) \<le> length (take 32 (drop 1 frames))" by (rule length_takeWhile_le)
  then show ?thesis by (simp add: stack_trace_frames)
qed

lemma Stack_String_Nil: "Stack_String [] = []"
  by (simp add: Stack_String_def StringWithIndent_def)

section \<open>Errors with a stack\<close>

text \<open>The error of the package: a cause and where it was traced. \<open>erase\<close> is the error of \<open>Go_Errors\<close>, which the rest of the
  development uses; there a traced error has no stack.\<close>

datatype stack_error = Untraced go_error | TracedAt stack stack_error

primrec erase :: "stack_error \<Rightarrow> go_error" where
  "erase (Untraced e) = e"
| "erase (TracedAt s e) = Traced (erase e)"

text \<open>\<open>frames\<close> starts with the frame of the function of the package that is called.\<close>

definition Trace_at :: "bool \<Rightarrow> frame list \<Rightarrow> stack_error option \<Rightarrow> stack_error option" where
  "Trace_at TraceEnabled frames err = (case err of
     None \<Rightarrow> None
   | Some e \<Rightarrow> if \<not> TraceEnabled then Some e
       else (case e of TracedAt _ _ \<Rightarrow> Some e | Untraced _ \<Rightarrow> Some (TracedAt (TraceN ((None, [], 0) # frames) 1 32) e)))"

definition Errorf_at :: "bool \<Rightarrow> frame list \<Rightarrow> string \<Rightarrow> stack_error" where
  "Errorf_at TraceEnabled frames msg =
     (let err = Untraced (Formatted msg)
      in if \<not> TraceEnabled then err else TracedAt (TraceN ((None, [], 0) # frames) 1 32) err)"

definition error_Stack :: "stack_error option \<Rightarrow> stack option" where
  "error_Stack err = (case err of Some (TracedAt s _) \<Rightarrow> Some s | _ \<Rightarrow> None)"

primrec Cause_at :: "stack_error \<Rightarrow> go_error" where
  "Cause_at (Untraced e) = e"
| "Cause_at (TracedAt s e) = Cause_at e"

text \<open>Erasing the stacks is a refinement: tracing, making and unwrapping errors are those of \<open>Go_Errors\<close>, for errors
  whose untraced part is really untraced.\<close>

definition is_traced :: "go_error \<Rightarrow> bool" where
  "is_traced e \<longleftrightarrow> (\<exists>c. e = Traced c)"

lemma not_traced: "\<not> is_traced e \<Longrightarrow> Trace e = Traced e \<and> Cause_err e = e"
  by (cases e) (auto simp: is_traced_def)

lemma erase_Trace:
  "\<not> is_traced (Cause_at e) \<Longrightarrow> map_option erase (Trace_at True frames (Some e)) = Some (Trace (erase e))"
  by (cases e) (auto simp: Trace_at_def not_traced)

lemma erase_Errorf: "erase (Errorf_at True frames msg) = Errorf msg"
  by (simp add: Errorf_at_def Errorf_def)

lemma erase_Cause: "\<not> is_traced (Cause_at e) \<Longrightarrow> Cause_at e = Cause_err (erase e)"
  by (induction e) (auto simp: not_traced)

text \<open>A traced error keeps the place where it was traced first.\<close>

lemma Trace_keeps_first:
  "Trace_at True frames' (Trace_at True frames err) = Trace_at True frames err"
  "error_Stack (Trace_at True frames (Some (Untraced e))) = Some (stack_trace frames)"
  "error_Stack (Trace_at True frames (Some (TracedAt s c))) = Some s"
  by (auto simp: Trace_at_def error_Stack_def stack_trace_def split: option.split stack_error.split)

lemma untraced_without: "Trace_at False frames err = err"
  by (simp add: Trace_at_def split: option.split)

end
