(* ===== verification/Logger.thy ===== *)
theory Logger
  imports Log_Hook Config Trace_Stack
begin

text \<open>
  The lines of the program's own log (\<open>utils/loger\<close>): the fields of every line, the hooks that are set up, and the
  functions that write a line. The machine (host name, addresses, process, environment variables), the frames a
  function stands on and \<open>fmt.Sprintf\<close> are parameters. Writing a line to the terminal is not modelled.
\<close>

record machine =
  ho_Hostname :: "go_error + bytes"
  ho_addrs :: "go_error + (nat \<times> nat \<times> nat \<times> nat) list"
  ho_env :: "bytes \<Rightarrow> bytes"
  ho_pid :: int

datatype log_value = LText bytes | LInt int

definition getHostname :: "machine \<Rightarrow> bytes" where
  "getHostname h = (case ho_Hostname h of Inl _ \<Rightarrow> [] | Inr n \<Rightarrow> n)"

text \<open>An address in dotted form; none is the empty string.\<close>

definition ip_text :: "(nat \<times> nat \<times> nat \<times> nat) option \<Rightarrow> bytes" where
  "ip_text ip = (case ip of None \<Rightarrow> [] | Some (a, b, c, d) \<Rightarrow>
     FormatInt (int a) @ ''.'' @ FormatInt (int b) @ ''.'' @ FormatInt (int c) @ ''.'' @ FormatInt (int d))"

definition log_fields :: "machine \<Rightarrow> app_conf \<Rightarrow> bytes \<rightharpoonup> log_value" where
  "log_fields h app = map_of (map (map_prod id LText)
     [(''appName'', ap_AppName app), (''appId'', ap_AppID app), (''appVersion'', ap_AppVersion app), (''appKey'', ap_AppKey app),
      (''channel'', ap_Channel app), (''subOrgKey'', ap_SubOrgKey app), (''timestamp'', []), (''level'', []),
      (''hostname'', getHostname h), (''ip'', ip_text (getInternetIP (ho_addrs h))), (''podName'', ho_env h ''PODNAME''),
      (''podIp'', ho_env h ''PODIP''), (''nodeName'', ho_env h ''NODENAME''), (''nodeIp'', ho_env h ''NODEIP''),
      (''containerName'', ho_env h ''CONTAINERNAME''), (''clusterUid'', ho_env h ''IDG_CLUSTERUID''),
      (''imageUrl'', ho_env h ''IDG_IMAGEURL''), (''uniqueId'', ho_env h ''IDG_UNIQUEID''), (''siteUid'', ho_env h ''IDG_SITEUID''),
      (''runEnvType'', ho_env h ''IDG_RUNTIME''), (''message'', []), (''logger'', []), (''type'', ''ACCESS''), (''title'', []),
      (''language'', ap_Language app), (''url'', []), (''clientIp'', []), (''errCode'', []), (''traceID'', []), (''spanID'', []),
      (''parentID'', []), (''customLog1'', []), (''customLog2'', []), (''customLog3'', [])] @ [(''pid'', LInt (ho_pid h))])"

text \<open>What \<open>loggerInit\<close> leaves: the fields, and the hook into the cluster unless the lines go to the terminal. The
  hook on every entry (\<open>app_fields\<close>) runs before it.\<close>

record logger =
  lo_Fields :: "bytes \<rightharpoonup> log_value"
  lo_hook :: "redis_hook option"

definition loggerInit :: "machine \<Rightarrow> log_conf \<Rightarrow> app_conf \<Rightarrow> go_error + logger" where
  "loggerInit h lg app =
     (if ToLower (lg_OutPut lg) = ''stdout'' then Inr \<lparr>lo_Fields = log_fields h app, lo_hook = None\<rparr>
      else case NewHook \<lparr>RedisKey = lg_LogKey lg, LogstashFormat = ''origin'', AppName = [], Hostname = []\<rparr> of
        Inl err \<Rightarrow> Inl err
      | Inr hook \<Rightarrow> Inr \<lparr>lo_Fields = log_fields h app, lo_hook = Some hook\<rparr>)"

text \<open>\<open>ConfigLogInit\<close>: the default configuration is made through a nil pointer.\<close>

definition logger_of_config :: "machine \<Rightarrow> log_conf \<Rightarrow> app_conf \<Rightarrow> (go_error + logger) outcome" where
  "logger_of_config h lg app = (if length (ap_AppName app) = 0 then Panic nil_deref else Ret (loggerInit h lg app))"

section \<open>Writing lines\<close>

text \<open>The place of the caller: \<open>frames\<close> starts with \<open>runtime.Callers\<close>, so that the frame with index 3 is the caller of the
  function that logs. Without one the zero frame is printed.\<close>

definition traceFunc :: "frame list \<Rightarrow> bytes" where
  "traceFunc frames = (case (if 3 < length frames then frames ! 3 else (None, [], 0)) of
     (f, file, line) \<Rightarrow> file @ '': '' @ FormatInt line @ '' '' @ (case f of None \<Rightarrow> [] | Some n \<Rightarrow> n))"

definition AppHook_Levels :: "bytes list" where "AppHook_Levels = logrus_levels"

definition log_line :: "bytes \<Rightarrow> (bytes \<rightharpoonup> log_value) \<Rightarrow> bytes \<Rightarrow> log_value log_entry" where
  "log_line level data msg = \<lparr>en_Time = [], en_Level = level, en_Message = msg, en_Data = data\<rparr>"

definition titled :: "bytes \<Rightarrow> bytes \<Rightarrow> bytes" where "titled n msg = getLogName n @ '' : '' @ msg"

definition templated :: "(bytes \<Rightarrow> 'a list \<Rightarrow> bytes) \<Rightarrow> bytes \<Rightarrow> bytes \<Rightarrow> 'a list \<Rightarrow> bytes" where
  "templated sprintf n template args = sprintf (getLogName n @ '':'' @ template) args"

definition with_caller :: "bytes \<Rightarrow> logger \<Rightarrow> (bytes \<rightharpoonup> log_value)" where
  "with_caller caller lgr = (lo_Fields lgr)(''logger'' \<mapsto> LText caller)"

definition LogDebugw :: "logger \<Rightarrow> bytes \<Rightarrow> bytes \<Rightarrow> log_value log_entry" where
  "LogDebugw lgr n msg = log_line ''debug'' (lo_Fields lgr) (titled n msg)"

definition LogDebugf :: "(bytes \<Rightarrow> 'a list \<Rightarrow> bytes) \<Rightarrow> logger \<Rightarrow> bytes \<Rightarrow> bytes \<Rightarrow> 'a list \<Rightarrow> log_value log_entry" where
  "LogDebugf sprintf lgr n template args = log_line ''debug'' (lo_Fields lgr) (templated sprintf n template args)"

definition LogInfow :: "logger \<Rightarrow> bytes \<Rightarrow> bytes \<Rightarrow> log_value log_entry" where
  "LogInfow lgr n msg = log_line ''info'' (lo_Fields lgr) (titled n msg)"

definition LogInfof :: "(bytes \<Rightarrow> 'a list \<Rightarrow> bytes) \<Rightarrow> logger \<Rightarrow> bytes \<Rightarrow> bytes \<Rightarrow> 'a list \<Rightarrow> log_value log_entry" where
  "LogInfof sprintf lgr n template args = log_line ''info'' (lo_Fields lgr) (templated sprintf n template args)"

definition LogWarnw :: "logger \<Rightarrow> bytes \<Rightarrow> bytes \<Rightarrow> log_value log_entry" where
  "LogWarnw lgr n msg = log_line ''warning'' (lo_Fields lgr) (titled n msg)"

definition LogWarnf :: "(bytes \<Rightarrow> 'a list \<Rightarrow> bytes) \<Rightarrow> logger \<Rightarrow> bytes \<Rightarrow> bytes \<Rightarrow> 'a list \<Rightarrow> log_value log_entry" where
  "LogWarnf sprintf lgr n template args = log_line ''warning'' (lo_Fields lgr) (templated sprintf n template args)"

text \<open>A nil error panics.\<close>

definition LogErrorw :: "bytes \<Rightarrow> logger \<Rightarrow> bytes \<Rightarrow> bytes \<Rightarrow> go_error option \<Rightarrow> log_value log_entry outcome" where
  "LogErrorw caller lgr n msg err = (case err of
     None \<Rightarrow> Panic nil_deref
   | Some e \<Rightarrow> Ret (log_line ''error'' (with_caller caller lgr) (getLogName n @ '' : '' @ msg @ '', '' @ Error e)))"

definition LogError :: "bytes \<Rightarrow> logger \<Rightarrow> bytes \<Rightarrow> bytes \<Rightarrow> log_value log_entry" where
  "LogError caller lgr n msg = log_line ''error'' (with_caller caller lgr) (titled n msg)"

definition LogErrorf :: "(bytes \<Rightarrow> 'a list \<Rightarrow> bytes) \<Rightarrow> bytes \<Rightarrow> logger \<Rightarrow> bytes \<Rightarrow> bytes \<Rightarrow> 'a list \<Rightarrow> log_value log_entry" where
  "LogErrorf sprintf caller lgr n template args = log_line ''error'' (with_caller caller lgr) (templated sprintf n template args)"

section \<open>What a line holds\<close>

text \<open>The logger can always be made, and its hook can make a message.\<close>

lemma loggerInit_ok:
  "\<exists>lgr. loggerInit h lg app = Inr lgr \<and> lo_Fields lgr = log_fields h app \<and>
     (lo_hook lgr = None \<longleftrightarrow> ToLower (lg_OutPut lg) = ''stdout'') \<and>
     (\<forall>hook. lo_hook lgr = Some hook \<longrightarrow> RedisKey hook = lg_LogKey lg \<and> hook_message hook en = Some (createOriginLogMessage en))"
  by (auto simp: loggerInit_def NewHook_def hook_message_def)

text \<open>The message that reaches the cluster: the level and the text of the line, and the application, the machine, the time
  and the goroutine of the entry; an empty level or time of the fields never shows.\<close>

lemma line_message:
  assumes "en_Data en = log_fields h app" "en_Level en \<in> set logrus_levels"
  shows "createOriginLogMessage (app_fields now gid en) ''level'' = Some (JText (en_Level en))"
    "createOriginLogMessage (app_fields now gid en) ''message'' = Some (JText (en_Message en))"
    "createOriginLogMessage (app_fields now gid en) ''timestamp'' = Some (JValue now)"
    "createOriginLogMessage (app_fields now gid en) ''threadId'' = Some (JValue gid)"
    "createOriginLogMessage (app_fields now gid en) ''appName'' = Some (JValue (LText (ap_AppName app)))"
    "createOriginLogMessage (app_fields now gid en) ''hostname'' = Some (JValue (LText (getHostname h)))"
    "createOriginLogMessage (app_fields now gid en) ''pid'' = Some (JValue (LInt (ho_pid h)))"
proof -
  have "en_Level en \<noteq> ''ERROR''" using assms(2) by (auto simp: logrus_levels_def)
  then show "createOriginLogMessage (app_fields now gid en) ''level'' = Some (JText (en_Level en))"
    by (simp add: createOriginLogMessage_def app_fields_def Let_def)
qed (simp_all add: createOriginLogMessage_def app_fields_def Let_def data_fields_def assms(1) log_fields_def)

text \<open>An unknown name is logged under the default one, and so is any name that is not in the list.\<close>

lemma getLogName_range: "getLogName n \<in> insert ''default'' (set log_names)" "getLogName (getLogName n) = getLogName n"
  by (auto simp: getLogName_def log_names_def)

end
