(* ===== verification/Traffic_Route.thy ===== *)
theory Traffic_Route
  imports Cluster_Run Memory_Cache
begin

text \<open>
  Routing of outgoing and incoming HTTP traffic (\<open>sc/traffic_out_core.go\<close>, \<open>sc/traffic_inflow_core.go\<close>): a
  request names a route and carries a token; the relations the token claims are looked up in the cluster, and the
  target they lead to is kept in the memory cache under the route. JSON, the JWT parser and \<open>fasthttp\<close> are
  parameters, with what the properties rely on in \<open>http_laws\<close>. Log lines are not modelled. The cache holds
  pointers to targets, which nothing changes after they are made: they are addresses in \<open>rt_targets\<close>.
\<close>

section \<open>Data\<close>

text \<open>What an \<open>interface{}\<close> holds, as far as the code tells values apart.\<close>

datatype iface = IString bytes | IInt int | IFloat "64 word" | IOther

record target_body =
  tg_AppId :: bytes
  tg_AppKey :: bytes
  tg_Channel :: bytes
  tg_Host :: bytes
  tg_Scheme :: bytes
  tg_ChannelAlias :: bytes
  tg_Mode :: bytes

record call_stack =
  cs_AppId :: bytes
  cs_AppKey :: bytes
  cs_Channel :: iface
  cs_Alias :: bytes

text \<open>The fields of the token that the routing reads.\<close>

record token_body =
  FromAppid :: bytes
  FromAppkey :: bytes
  FromChannel :: iface
  CallStack :: "call_stack list"

definition zero_target :: target_body where
  "zero_target = \<lparr>tg_AppId = [], tg_AppKey = [], tg_Channel = [], tg_Host = [], tg_Scheme = [], tg_ChannelAlias = [], tg_Mode = []\<rparr>"

text \<open>\<open>re_jwt\<close> gives the parsed token: \<open>None\<close> is the nil token of a text that is not three parts, \<open>Some None\<close> a
  token whose claims are not a map. \<open>re_listening\<close> is whether the cache's routine is waiting, \<open>re_trunc\<close>
  the conversion of a float to an int.\<close>

record ('e, 'r, 'w, 'j) route_env =
  re_world :: "('e, 'r, 'w) world"
  re_listening :: "'e \<Rightarrow> bool \<times> 'e"
  re_jwt :: "bytes \<Rightarrow> 'j option option"
  re_claims :: "'j \<Rightarrow> go_error + bytes"
  re_token :: "bytes \<Rightarrow> go_error + token_body"
  re_target :: "bytes \<Rightarrow> go_error + target_body"
  re_trunc :: "64 word \<Rightarrow> int"

record ('e, 'r, 'w) router =
  rt_cluster :: "('e, 'r, 'w) cst"
  rt_cache :: cache
  rt_targets :: "(bytes \<times> target_body) list"

text \<open>What the routing reads of a request: its URI and two headers.\<close>

record route_req =
  rq_uri :: bytes
  rq_auth :: bytes
  rq_is_chain :: bytes

record route =
  ro_scheme :: bytes
  ro_host :: bytes
  ro_path :: bytes
  ro_header :: "(bytes \<times> bytes) list"

section \<open>The token\<close>

definition getAppInfoByJwtToken :: "('e, 'r, 'w, 'j) route_env \<Rightarrow> bytes \<Rightarrow> (go_error + token_body) outcome" where
  "getAppInfoByJwtToken re tokenString =
     (if tokenString = [] then Ret (Inl (Formatted ''token is empty''))
      else if length tokenString < 7 then Panic ''slice bounds out of range''
      else case re_jwt re (drop 7 tokenString) of
          None \<Rightarrow> Panic nil_deref
        | Some None \<Rightarrow> Ret (Inl (Formatted ''token format claim error''))
        | Some (Some claims) \<Rightarrow> (case re_claims re claims of
            Inl e \<Rightarrow> Ret (Inl e)
          | Inr b \<Rightarrow> Ret (re_token re b)))"

definition getInterfaceString :: "('e, 'r, 'w, 'j) route_env \<Rightarrow> iface \<Rightarrow> bytes" where
  "getInterfaceString re x = (case x of
     IString s \<Rightarrow> s | IInt i \<Rightarrow> FormatInt i | IFloat d \<Rightarrow> FormatInt (re_trunc re d) | IOther \<Rightarrow> [])"

text \<open>\<open>strings.Join\<close> with an underscore.\<close>

fun makeRedisKey :: "bytes list \<Rightarrow> bytes" where
  "makeRedisKey [] = []"
| "makeRedisKey [k] = k"
| "makeRedisKey (k # ks) = k @ ''_'' @ makeRedisKey ks"

definition getChainFieldKey :: "bytes \<Rightarrow> bytes \<Rightarrow> bytes \<Rightarrow> bytes \<Rightarrow> bytes" where
  "getChainFieldKey appId appKey channel alias =
     (if appId \<noteq> [] \<and> alias \<noteq> [] then makeRedisKey [appId, alias] else makeRedisKey [appId, appKey, channel])"

text \<open>A channel counts as missing when it is the empty string or the string 0; a number 0 does not.\<close>

definition no_channel :: "iface \<Rightarrow> bool" where
  "no_channel c \<longleftrightarrow> c = IString [] \<or> c = IString ''0''"

definition chain_link_ok :: "nat \<Rightarrow> call_stack \<Rightarrow> bool" where
  "chain_link_ok k v \<longleftrightarrow>
     (if 0 < k then \<not> ((cs_AppId v = [] \<or> cs_Alias v = []) \<and> (cs_AppKey v = [] \<or> no_channel (cs_Channel v)))
      else \<not> (cs_AppId v = [] \<or> cs_AppKey v = [] \<or> no_channel (cs_Channel v)))"

fun check_links :: "nat \<Rightarrow> call_stack list \<Rightarrow> go_error option" where
  "check_links k [] = None"
| "check_links k (v # vs) = (if chain_link_ok k v then check_links (Suc k) vs else Some (Formatted ''The chain is invalid''))"

definition checkChains :: "call_stack list \<Rightarrow> go_error option" where
  "checkChains cs = check_links 0 cs"

section \<open>Relations\<close>

definition relation_invalid :: go_error where
  "relation_invalid = Formatted ''The relation is invalid''"

definition read_relation :: "('e, 'r, 'w, 'j) route_env \<Rightarrow> bytes \<Rightarrow> go_error + target_body" where
  "read_relation re b = (case re_target re b of
     Inl _ \<Rightarrow> Inl relation_invalid
   | Inr t \<Rightarrow> if tg_AppKey t = [] \<or> tg_Channel t = [] then Inl relation_invalid else Inr t)"

text \<open>Any error of the query but the nil reply leaves an empty text, which the JSON parser then refuses.\<close>

definition getChannelRelation :: "('e, 'r, 'w, 'j) route_env \<Rightarrow> bytes \<Rightarrow> bytes \<Rightarrow> ('e, 'r, 'w) router
    \<Rightarrow> ((go_error + target_body) \<times> ('e, 'r, 'w) router) outcome option" where
  "getChannelRelation re k field st =
     bind_run (Do (re_world re) ''HGET'' [AString k, AString field] (rt_cluster st)) (\<lambda>((r, err), s).
       case reply_Bytes r err of (b, e) \<Rightarrow>
         Some (Ret (if e = Some ErrNil then Inl relation_invalid
                    else read_relation re (bytes_of b),
                    st\<lparr>rt_cluster := s\<rparr>)))"

definition field_of :: "('e, 'r, 'w, 'j) route_env \<Rightarrow> call_stack \<Rightarrow> bytes" where
  "field_of re v = getChainFieldKey (cs_AppId v) (cs_AppKey v) (getInterfaceString re (cs_Channel v)) (cs_Alias v)"

definition key_of_target :: "target_body \<Rightarrow> bytes" where
  "key_of_target t = makeRedisKey [tg_AppId t, tg_AppKey t, tg_Channel t]"

text \<open>The loop over the chain behind its first element.\<close>

fun chain_loop :: "('e, 'r, 'w, 'j) route_env \<Rightarrow> bytes \<Rightarrow> call_stack list \<Rightarrow> target_body \<Rightarrow> ('e, 'r, 'w) router
    \<Rightarrow> ((go_error + target_body) \<times> ('e, 'r, 'w) router) outcome option" where
  "chain_loop re k [] t st = Some (Ret (Inr t, st))"
| "chain_loop re k (v # vs) t st =
     bind_run (getChannelRelation re k (field_of re v) st) (\<lambda>(r, st). case r of
       Inl e \<Rightarrow> Some (Ret (Inl e, st))
     | Inr t \<Rightarrow> chain_loop re (if vs \<noteq> [] then key_of_target t else k) vs t st)"

definition chain_target :: "('e, 'r, 'w, 'j) route_env \<Rightarrow> call_stack list \<Rightarrow> ('e, 'r, 'w) router
    \<Rightarrow> ((go_error + target_body) \<times> ('e, 'r, 'w) router) outcome option" where
  "chain_target re cs st = (case cs of
     [] \<Rightarrow> Some (Ret (Inr zero_target, st))
   | v # vs \<Rightarrow> chain_loop re (makeRedisKey [cs_AppId v, cs_AppKey v, getInterfaceString re (cs_Channel v)]) vs zero_target st)"

definition direct_target :: "('e, 'r, 'w, 'j) route_env \<Rightarrow> token_body \<Rightarrow> ('e, 'r, 'w) router
    \<Rightarrow> ((go_error + target_body) \<times> ('e, 'r, 'w) router) outcome option" where
  "direct_target re tb st =
     (if CallStack tb = [] then Some (Panic ''index out of range'')
      else getChannelRelation re (makeRedisKey [FromAppid tb, FromAppkey tb, getInterfaceString re (FromChannel tb)])
             (field_of re (last (CallStack tb))) st)"

text \<open>\<open>strconv.Atoi\<close> with its error dropped: a number out of range is the nearest \<open>int64\<close>.\<close>

definition find_target :: "('e, 'r, 'w, 'j) route_env \<Rightarrow> bytes \<Rightarrow> token_body \<Rightarrow> ('e, 'r, 'w) router
    \<Rightarrow> ((go_error + target_body) \<times> ('e, 'r, 'w) router) outcome option" where
  "find_target re is_chain tb st =
     (if 0 < fst (ParseInt 64 is_chain)
      then (case checkChains (CallStack tb) of
          Some e \<Rightarrow> Some (Ret (Inl e, st))
        | None \<Rightarrow> chain_target re (CallStack tb) st)
      else direct_target re tb st)"

section \<open>Routing\<close>

definition route_name :: "bytes \<Rightarrow> bytes" where
  "route_name uri = hd (SplitByte (CHR ''/'') (drop 1 uri))"

definition route_path :: "bytes \<Rightarrow> bytes" where
  "route_path uri = concat (map (\<lambda>p. ''/'' @ p) (tl (SplitByte (CHR ''/'') (drop 1 uri))))"

text \<open>\<open>strings.Trim(s, "/")\<close>.\<close>

definition trim_slashes :: "bytes \<Rightarrow> bytes" where
  "trim_slashes s = rev (dropWhile (\<lambda>c. c = CHR ''/'') (rev (dropWhile (\<lambda>c. c = CHR ''/'') s)))"

definition route_to :: "bytes \<Rightarrow> target_body \<Rightarrow> route" where
  "route_to path t = \<lparr>ro_scheme = tg_Scheme t, ro_host = trim_slashes (tg_Host t), ro_path = path,
     ro_header = [(''x-appid'', tg_AppId t), (''x-appkey'', tg_AppKey t), (''x-channel'', tg_Channel t)]\<rparr>"

definition route_now :: "('e, 'r, 'w, 'j) route_env \<Rightarrow> ('e, 'r, 'w) router \<Rightarrow> int \<times> ('e, 'r, 'w) router" where
  "route_now re st = (case env_call (net_now (w_net (re_world re))) (rt_cluster st) of (now, s) \<Rightarrow> (now, st\<lparr>rt_cluster := s\<rparr>))"

text \<open>\<open>&targetData\<close>, a new address, and the cache's entry for it.\<close>

definition new_addr :: "('e, 'r, 'w) router \<Rightarrow> bytes" where
  "new_addr st = FormatInt (int (length (rt_targets st)))"

definition cache_target :: "('e, 'r, 'w, 'j) route_env \<Rightarrow> bytes \<Rightarrow> target_body \<Rightarrow> ('e, 'r, 'w) router
    \<Rightarrow> ('e, 'r, 'w) router outcome" where
  "cache_target re name t st = (case route_now re st of (now, st) \<Rightarrow>
     (case env_call (re_listening re) (rt_cluster st) of (listening, s) \<Rightarrow>
       bind_outcome (SetDefault now listening name (OOther (new_addr st)) (rt_cache st)) (\<lambda>c.
         Ret (st\<lparr>rt_cluster := s, rt_cache := c, rt_targets := (new_addr st, t) # rt_targets st\<rparr>))))"

text \<open>\<open>res.(*targetBody)\<close>: what the cache holds is a target, or the assertion panics.\<close>

definition target_at :: "obj \<Rightarrow> ('e, 'r, 'w) router \<Rightarrow> target_body option" where
  "target_at x st = (case x of OOther a \<Rightarrow> map_of (rt_targets st) a | _ \<Rightarrow> None)"

text \<open>A route that is not in the cache.\<close>

definition route_fresh :: "('e, 'r, 'w, 'j) route_env \<Rightarrow> route_req \<Rightarrow> ('e, 'r, 'w) router
    \<Rightarrow> ((go_error + route) \<times> ('e, 'r, 'w) router) outcome option" where
  "route_fresh re rq st = (case getAppInfoByJwtToken re (rq_auth rq) of
     Panic m \<Rightarrow> Some (Panic m)
   | Ret (Inl e) \<Rightarrow> Some (Ret (Inl e, st))
   | Ret (Inr tb) \<Rightarrow> bind_run (find_target re (rq_is_chain rq) tb st) (\<lambda>(r, st). case r of
       Inl e \<Rightarrow> Some (Ret (Inl e, st))
     | Inr t \<Rightarrow>
         if tg_Host t = [] \<or> tg_AppKey t = [] then Some (Ret (Inl relation_invalid, st))
         else bind_run (Some (cache_target re (route_name (rq_uri rq)) t st)) (\<lambda>st.
           Some (Ret (Inr (route_to (route_path (rq_uri rq)) t), st)))))"

definition handleRequestRoute :: "('e, 'r, 'w, 'j) route_env \<Rightarrow> route_req \<Rightarrow> ('e, 'r, 'w) router
    \<Rightarrow> ((go_error + route) \<times> ('e, 'r, 'w) router) outcome option" where
  "handleRequestRoute re rq st =
     (if length (rq_uri rq) < 33 then Some (Ret (Inl (Formatted ''Request format error''), st))
      else if rq_auth rq = [] then Some (Ret (Inl (Formatted ''Request token invalid''), st))
      else case route_now re st of (now, st) \<Rightarrow>
        (case Memory_Cache.Get now (route_name (rq_uri rq)) (rt_cache st) of
           Some x \<Rightarrow> (case target_at x st of
               None \<Rightarrow> Some (Panic ''interface conversion'')
             | Some t \<Rightarrow> Some (Ret (Inr (route_to (route_path (rq_uri rq)) t), st)))
         | None \<Rightarrow> route_fresh re rq st))"

section \<open>What a request leaves behind\<close>

text \<open>Every cached pointer is the address of a target, which a relation gave and which has a host.\<close>

definition good_target :: "target_body \<Rightarrow> bool" where
  "good_target t \<longleftrightarrow> tg_Host t \<noteq> [] \<and> tg_AppKey t \<noteq> [] \<and> tg_Channel t \<noteq> []"

definition route_inv :: "('e, 'r, 'w) router \<Rightarrow> bool" where
  "route_inv st \<longleftrightarrow>
     map fst (rt_targets st) = map (\<lambda>i. FormatInt (int i)) (rev [0..<length (rt_targets st)]) \<and>
     (\<forall>kv \<in> set (items (rt_cache st)). \<exists>a. it_Object (snd kv) = OOther a \<and> map_of (rt_targets st) a \<noteq> None) \<and>
     (\<forall>at \<in> set (rt_targets st). good_target (snd at))"

definition same_routing :: "('e, 'r, 'w) router \<Rightarrow> ('e, 'r, 'w) router \<Rightarrow> bool" where
  "same_routing st st' \<longleftrightarrow> rt_cache st' = rt_cache st \<and> rt_targets st' = rt_targets st"

lemma same_routing_refl [simp]: "same_routing st st" "same_routing st (st\<lparr>rt_cluster := s\<rparr>)"
  by (simp_all add: same_routing_def)

lemma same_routing_trans: "same_routing a b \<Longrightarrow> same_routing b c \<Longrightarrow> same_routing a c"
  by (simp add: same_routing_def)

lemma same_routing_inv: "same_routing st st' \<Longrightarrow> route_inv st' = route_inv st"
  by (simp add: same_routing_def route_inv_def)

lemma FormatInt_nat_inj: "FormatInt (int i) = FormatInt (int j) \<longleftrightarrow> i = j"
proof -
  have "format_nat i = format_nat j \<Longrightarrow> i = j" using dec_val_format_nat by metis
  then show ?thesis by (auto simp: FormatInt_def)
qed

lemma new_addr_fresh: "route_inv st \<Longrightarrow> map_of (rt_targets st) (new_addr st) = None"
  by (simp add: route_inv_def new_addr_def map_of_eq_None_iff flip: set_map) (auto simp: FormatInt_nat_inj)

lemma target_at_same: "same_routing st st' \<Longrightarrow> target_at x st' = target_at x st"
  by (simp add: same_routing_def target_at_def split: obj.split)

lemma route_now_same: "route_now re st = (now, st') \<Longrightarrow> same_routing st st'"
  by (auto simp: route_now_def split: prod.splits)

lemma getChannelRelation_same:
  "getChannelRelation re k field st = Some (Ret (r, st')) \<Longrightarrow>
     same_routing st st' \<and> (\<forall>t. r = Inr t \<longrightarrow> tg_AppKey t \<noteq> [] \<and> tg_Channel t \<noteq> [])"
proof -
  assume "getChannelRelation re k field st = Some (Ret (r, st'))"
  then obtain reply err s where "Do (re_world re) ''HGET'' [AString k, AString field] (rt_cluster st) = Some (Ret ((reply, err), s))"
      and eq: "(case reply_Bytes reply err of (b, e) \<Rightarrow> Some (Ret (if e = Some ErrNil then Inl relation_invalid
        else read_relation re (bytes_of b), st\<lparr>rt_cluster := s\<rparr>))) = Some (Ret (r, st'))"
    by (auto simp: getChannelRelation_def elim!: bind_run_Ret)
  obtain b e where "reply_Bytes reply err = (b, e)" by (metis surj_pair)
  then have "st' = st\<lparr>rt_cluster := s\<rparr>" "r = (if e = Some ErrNil then Inl relation_invalid else read_relation re (bytes_of b))"
    using eq by simp_all
  then show ?thesis by (auto simp: read_relation_def split: sum.splits if_splits)
qed

lemma chain_loop_same:
  "chain_loop re k vs t st = Some (Ret (r, st')) \<Longrightarrow>
     same_routing st st' \<and> (\<forall>t'. r = Inr t' \<longrightarrow> t' = t \<and> vs = [] \<or> tg_AppKey t' \<noteq> [] \<and> tg_Channel t' \<noteq> [])"
proof (induction re k vs t st rule: chain_loop.induct)
  case (1 re k t st)
  then show ?case by auto
next
  case (2 re k v vs t st)
  from 2(2) obtain r1 st1 where r1: "getChannelRelation re k (field_of re v) st = Some (Ret (r1, st1))"
      "(case r1 of Inl e \<Rightarrow> Some (Ret (Inl e, st1)) | Inr t \<Rightarrow> chain_loop re (if vs \<noteq> [] then key_of_target t else k) vs t st1) = Some (Ret (r, st'))"
    by (auto elim!: bind_run_Ret)
  have s1: "same_routing st st1" using getChannelRelation_same [OF r1(1)] by blast
  show ?case
  proof (cases r1)
    case (Inl e)
    then show ?thesis using r1(2) s1 by auto
  next
    case (Inr t1)
    have "chain_loop re (if vs \<noteq> [] then key_of_target t1 else k) vs t1 st1 = Some (Ret (r, st'))" using r1(2) Inr by simp
    from 2(1) [OF Inr this] show ?thesis
      using same_routing_trans [OF s1] getChannelRelation_same [OF r1(1)] Inr by auto
  qed
qed

text \<open>Looking for a target changes nothing but the cluster client.\<close>

lemma find_target_same:
  assumes "find_target re is_chain tb st = Some (Ret (r, st'))"
  shows "same_routing st st' \<and> (\<forall>t. r = Inr t \<longrightarrow> t = zero_target \<or> tg_AppKey t \<noteq> [] \<and> tg_Channel t \<noteq> [])"
proof (cases "0 < fst (ParseInt 64 is_chain)")
  case True
  show ?thesis
  proof (cases "checkChains (CallStack tb) = None \<and> CallStack tb \<noteq> []")
    case True
    then obtain v vs where "CallStack tb = v # vs" by (cases "CallStack tb") auto
    then show ?thesis using assms \<open>0 < _\<close> True chain_loop_same [of re _ vs zero_target st r st']
      by (auto simp: find_target_def chain_target_def)
  next
    case False
    then show ?thesis using assms \<open>0 < _\<close> False by (auto simp: find_target_def chain_target_def split: option.splits)
  qed
next
  case False
  then show ?thesis using assms getChannelRelation_same [of re _ _ st r st']
    by (auto simp: find_target_def direct_target_def split: if_splits)
qed

lemma Set_cases:
  assumes "Memory_Cache.Set now listening k x d c = Ret c'"
  obtains "\<not> IsReachMaxItemsCount c" "c' = cache_set now k x d c"
  | "IsReachMaxItemsCount c" "items c' = items c" "defaultExpiration c' = defaultExpiration c"
proof (cases "IsReachMaxItemsCount c")
  case True
  then show ?thesis using assms that(2) by (auto simp: Set_def ShoudClean_def split: option.splits if_splits)
next
  case False
  then show ?thesis using assms that(1) by (simp add: Set_put)
qed

lemma cache_target_Ret:
  assumes "cache_target re name t st = Ret st'"
  obtains now s c where "st' = st\<lparr>rt_cluster := s, rt_cache := c, rt_targets := (new_addr st, t) # rt_targets st\<rparr>"
    "c = cache_set now name (OOther (new_addr st)) 0 (rt_cache st) \<and> \<not> IsReachMaxItemsCount (rt_cache st) \<or>
     IsReachMaxItemsCount (rt_cache st) \<and> items c = items (rt_cache st) \<and> defaultExpiration c = defaultExpiration (rt_cache st)"
proof -
  obtain now st1 where n: "route_now re st = (now, st1)" by (metis surj_pair)
  have s1: "rt_cache st1 = rt_cache st" "rt_targets st1 = rt_targets st" "new_addr st1 = new_addr st"
    using route_now_same [OF n] by (simp_all add: same_routing_def new_addr_def)
  obtain l s where l: "env_call (re_listening re) (rt_cluster st1) = (l, s)" by (metis surj_pair)
  obtain c where c: "Memory_Cache.Set now l name (OOther (new_addr st)) 0 (rt_cache st) = Ret c"
      "st' = st1\<lparr>rt_cluster := s, rt_cache := c, rt_targets := (new_addr st, t) # rt_targets st\<rparr>"
    using assms n s1 l by (auto simp: cache_target_def SetDefault_def bind_outcome_Ret_iff)
  have "st' = st\<lparr>rt_cluster := s, rt_cache := c, rt_targets := (new_addr st, t) # rt_targets st\<rparr>"
    using c(2) by (cases st; cases st1) simp
  note st' = this
  show ?thesis by (rule Set_cases [OF c(1)]; rule that [OF st']) auto
qed

lemma set_update_subset: "set (AList.update k v al) \<subseteq> insert (k, v) (set al)"
  by (induction al) auto

lemma cache_target_inv:
  assumes "route_inv st" "good_target t" "cache_target re name t st = Ret st'"
  shows "route_inv st'"
  using assms(3)
proof (rule cache_target_Ret)
  fix now s c
  assume st': "st' = st\<lparr>rt_cluster := s, rt_cache := c, rt_targets := (new_addr st, t) # rt_targets st\<rparr>"
    and c: "c = cache_set now name (OOther (new_addr st)) 0 (rt_cache st) \<and> \<not> IsReachMaxItemsCount (rt_cache st) \<or>
      IsReachMaxItemsCount (rt_cache st) \<and> items c = items (rt_cache st) \<and> defaultExpiration c = defaultExpiration (rt_cache st)"
  have old: "\<exists>a. it_Object (snd kv) = OOther a \<and> map_of ((new_addr st, t) # rt_targets st) a \<noteq> None"
    if kv: "kv \<in> set (items (rt_cache st))" for kv
  proof -
    obtain a where "it_Object (snd kv) = OOther a" "map_of (rt_targets st) a \<noteq> None"
      using bspec [OF assms(1) [unfolded route_inv_def, THEN conjunct2, THEN conjunct1] kv] by (elim exE conjE)
    then show ?thesis by (intro exI [of _ a] conjI) simp_all
  qed
  let ?it = "\<lparr>it_Object = OOther (new_addr st), it_Expiration = expiry now 0 (rt_cache st)\<rparr>"
  have "items c = AList.update name ?it (items (rt_cache st)) \<or> items c = items (rt_cache st)"
    using c by (elim disjE) (simp_all add: cache_set_def)
  then have sub: "set (items c) \<subseteq> insert (name, ?it) (set (items (rt_cache st)))"
    using set_update_subset [of name ?it "items (rt_cache st)"] by (elim disjE) auto
  have "\<exists>a. it_Object (snd kv) = OOther a \<and> map_of ((new_addr st, t) # rt_targets st) a \<noteq> None"
    if kv: "kv \<in> set (items c)" for kv
  proof (cases "kv \<in> set (items (rt_cache st))")
    case True
    then show ?thesis by (rule old)
  next
    case False
    then have "kv = (name, ?it)" using kv sub by blast
    then show ?thesis by simp
  qed
  moreover have "map fst ((new_addr st, t) # rt_targets st) = map (\<lambda>i. FormatInt (int i)) (rev [0..<length ((new_addr st, t) # rt_targets st)])"
    using assms(1) by (simp add: route_inv_def new_addr_def)
  moreover have "\<forall>at \<in> set ((new_addr st, t) # rt_targets st). good_target (snd at)"
    using assms(1,2) by (simp add: route_inv_def)
  moreover have "rt_targets st' = (new_addr st, t) # rt_targets st" "rt_cache st' = c" using st' by simp_all
  ultimately show ?thesis unfolding route_inv_def by metis
qed

section \<open>The ways a request is routed\<close>

lemma route_fresh_cases:
  assumes "route_fresh re rq st = Some (Ret (r, st'))"
  obtains (refused) e where "r = Inl e" "same_routing st st'"
  | (found) tb t st1 where "getAppInfoByJwtToken re (rq_auth rq) = Ret (Inr tb)"
      "find_target re (rq_is_chain rq) tb st = Some (Ret (Inr t, st1))" "good_target t" "same_routing st st1"
      "cache_target re (route_name (rq_uri rq)) t st1 = Ret st'" "r = Inr (route_to (route_path (rq_uri rq)) t)"
proof (cases "getAppInfoByJwtToken re (rq_auth rq)")
  case (Panic m)
  then show ?thesis using assms by (simp add: route_fresh_def)
next
  case (Ret x)
  show ?thesis
  proof (cases x)
    case (Inl e)
    then show ?thesis using assms Ret refused by (auto simp: route_fresh_def)
  next
    case (Inr tb)
    obtain r1 st1 where f: "find_target re (rq_is_chain rq) tb st = Some (Ret (r1, st1))"
      using assms Ret Inr by (auto simp: route_fresh_def elim!: bind_run_Ret)
    have same: "same_routing st st1" using find_target_same [OF f] by blast
    show ?thesis
    proof (cases r1)
      case (Inl e)
      then have "r = Inl e" "st' = st1" using assms Ret Inr f by (simp_all add: route_fresh_def \<open>x = Inr tb\<close> bind_run_def)
      then show ?thesis using refused same by blast
    next
      case r1: (Inr t)
      note eq = assms [unfolded route_fresh_def Ret \<open>x = Inr tb\<close> outcome.case sum.case f r1 bind_run_def option.case prod.case]
      show ?thesis
      proof (cases "tg_Host t = [] \<or> tg_AppKey t = []")
        case True
        then show ?thesis using eq same refused by auto
      next
        case False
        then obtain st2 where c: "cache_target re (route_name (rq_uri rq)) t st1 = Ret st2"
            "r = Inr (route_to (route_path (rq_uri rq)) t)" "st' = st2"
          using eq by (cases "cache_target re (route_name (rq_uri rq)) t st1") auto
        have "good_target t" using False find_target_same [OF f] r1 by (auto simp: good_target_def zero_target_def)
        then show ?thesis using found [OF _ _ _ same] Ret Inr f r1 c by simp
      qed
    qed
  qed
qed

lemma route_cases:
  assumes "handleRequestRoute re rq st = Some (Ret (r, st'))"
  obtains (refused) e where "r = Inl e" "same_routing st st'"
  | (hit) now x t where "route_now re st = (now, st')" "Memory_Cache.Get now (route_name (rq_uri rq)) (rt_cache st) = Some x"
      "target_at x st = Some t" "r = Inr (route_to (route_path (rq_uri rq)) t)" "same_routing st st'"
  | (found) now st0 tb t st1 where "route_now re st = (now, st0)" "same_routing st st0"
      "Memory_Cache.Get now (route_name (rq_uri rq)) (rt_cache st) = None"
      "getAppInfoByJwtToken re (rq_auth rq) = Ret (Inr tb)"
      "find_target re (rq_is_chain rq) tb st0 = Some (Ret (Inr t, st1))" "good_target t" "same_routing st st1"
      "cache_target re (route_name (rq_uri rq)) t st1 = Ret st'" "r = Inr (route_to (route_path (rq_uri rq)) t)"
proof (cases "length (rq_uri rq) < 33 \<or> rq_auth rq = []")
  case True
  then show ?thesis using assms refused by (auto simp: handleRequestRoute_def split: if_splits)
next
  case False
  obtain now st0 where n: "route_now re st = (now, st0)" by (metis surj_pair)
  have s0: "same_routing st st0" by (rule route_now_same [OF n])
  show ?thesis
  proof (cases "Memory_Cache.Get now (route_name (rq_uri rq)) (rt_cache st)")
    case None
    then have "route_fresh re rq st0 = Some (Ret (r, st'))" using assms False n s0 by (simp add: handleRequestRoute_def same_routing_def)
    then show ?thesis
    proof (cases rule: route_fresh_cases)
      case (refused e)
      then show ?thesis using that(1) same_routing_trans [OF s0] by blast
    next
      case (found tb t st1)
      then show ?thesis using that(3) n s0 None same_routing_trans [OF s0] by blast
    qed
  next
    case (Some x)
    have "target_at x st0 = target_at x st" by (rule target_at_same [OF s0])
    then show ?thesis using assms False n s0 Some hit
      by (cases "target_at x st") (auto simp: handleRequestRoute_def same_routing_def)
  qed
qed

lemma Get_item: "Memory_Cache.Get now k c = Some x \<Longrightarrow> \<exists>it. map_of (items c) k = Some it \<and> it_Object it = x"
  by (auto simp: Get_def split: option.splits if_splits)

lemma cached_target:
  assumes "route_inv st" "map_of (items (rt_cache st)) k = Some it"
  obtains t where "target_at (it_Object it) st = Some t" "good_target t"
proof -
  obtain a t where a: "it_Object it = OOther a" "map_of (rt_targets st) a = Some t"
    using bspec [OF assms(1) [unfolded route_inv_def, THEN conjunct2, THEN conjunct1] map_of_SomeD [OF assms(2)]] by auto
  have "good_target t"
    using bspec [OF assms(1) [unfolded route_inv_def, THEN conjunct2, THEN conjunct2] map_of_SomeD [OF a(2)]] by simp
  then show ?thesis using that a by (simp add: target_at_def)
qed

section \<open>Relations as paths\<close>

text \<open>\<open>granted re k v st t st'\<close>: the cluster, asked for the link \<open>v\<close> under the key \<open>k\<close>, gave the target \<open>t\<close>.\<close>

definition granted :: "('e, 'r, 'w, 'j) route_env \<Rightarrow> bytes \<Rightarrow> bytes \<Rightarrow> ('e, 'r, 'w) router \<Rightarrow> target_body \<Rightarrow> ('e, 'r, 'w) router \<Rightarrow> bool" where
  "granted re k field st t st' \<longleftrightarrow> (\<exists>reply b s. Do (re_world re) ''HGET'' [AString k, AString field] (rt_cluster st) = Some (Ret ((reply, None), s)) \<and>
     reply_Bytes reply None = (Some b, None) \<and> re_target re b = Inr t \<and> tg_AppKey t \<noteq> [] \<and> tg_Channel t \<noteq> [] \<and>
     st' = st\<lparr>rt_cluster := s\<rparr>)"

text \<open>A path of relations: the first link is asked under the given key, each later one under the key of the
  target before it, as the cluster gave it.\<close>

inductive relation_path :: "('e, 'r, 'w, 'j) route_env \<Rightarrow> bytes \<Rightarrow> bytes list \<Rightarrow> ('e, 'r, 'w) router \<Rightarrow> target_body \<Rightarrow> ('e, 'r, 'w) router \<Rightarrow> bool" where
  last_link: "granted re k field st t st' \<Longrightarrow> relation_path re k [field] st t st'"
| next_link: "granted re k field st t st1 \<Longrightarrow> relation_path re (key_of_target t) fs st1 t' st' \<Longrightarrow>
    relation_path re k (field # fs) st t' st'"

inductive_cases relation_pathE: "relation_path re k fs st t st'"

text \<open>The JSON parser refuses the empty text.\<close>

definition json_law :: "('e, 'r, 'w, 'j) route_env \<Rightarrow> bool" where
  "json_law re \<longleftrightarrow> (\<forall>t. re_target re [] \<noteq> Inr t)"

lemma reply_Bytes_None: "reply_Bytes r err = (b, None) \<Longrightarrow> err = None \<and> b \<noteq> None"
  by (auto simp: reply_Bytes_def split: option.splits reply.splits)

lemma getChannelRelation_granted:
  assumes "json_law re" "getChannelRelation re k field st = Some (Ret (Inr t, st'))"
  shows "granted re k field st t st'"
proof -
  obtain reply err s where d: "Do (re_world re) ''HGET'' [AString k, AString field] (rt_cluster st) = Some (Ret ((reply, err), s))"
      and eq: "(case reply_Bytes reply err of (b, e) \<Rightarrow> Some (Ret (if e = Some ErrNil then Inl relation_invalid
        else read_relation re (bytes_of b), st\<lparr>rt_cluster := s\<rparr>))) = Some (Ret (Inr t, st'))"
    using assms(2) by (auto simp: getChannelRelation_def elim!: bind_run_Ret)
  obtain b e where b: "reply_Bytes reply err = (b, e)" by (metis surj_pair)
  then have t: "read_relation re (bytes_of b) = Inr t" "st' = st\<lparr>rt_cluster := s\<rparr>" using eq by (simp_all split: if_splits)
  have "bytes_of b \<noteq> []" using t(1) assms(1) by (auto simp: read_relation_def json_law_def split: sum.splits)
  then obtain x where x: "b = Some x" by (cases b) auto
  have "e = None \<and> err = None" using b x by (auto simp: reply_Bytes_def split: option.splits reply.splits)
  then show ?thesis using d b x t by (auto simp: granted_def read_relation_def split: sum.splits if_splits)
qed

lemma chain_loop_path:
  assumes "json_law re" "chain_loop re k vs t st = Some (Ret (Inr t', st'))" "vs \<noteq> []"
  shows "relation_path re k (map (field_of re) vs) st t' st'"
  using assms(2,3)
proof (induction vs arbitrary: k t st)
  case (Cons v vs)
  from Cons(2) obtain t1 st1 where r1: "getChannelRelation re k (field_of re v) st = Some (Ret (Inr t1, st1))"
      "chain_loop re (if vs \<noteq> [] then key_of_target t1 else k) vs t1 st1 = Some (Ret (Inr t', st'))"
    by (auto elim!: bind_run_Ret split: sum.splits)
  have g: "granted re k (field_of re v) st t1 st1" by (rule getChannelRelation_granted [OF assms(1) r1(1)])
  show ?case
  proof (cases "vs = []")
    case True
    then show ?thesis using g r1(2) by (auto intro: last_link)
  next
    case False
    then show ?thesis using Cons(1) [of "key_of_target t1" t1 st1] r1(2) by (auto intro: next_link [OF g])
  qed
qed simp

text \<open>The first key and the fields of a token: in chain mode the links behind the first, whose head gives the key,
  otherwise the last link under the key of the caller.\<close>

definition first_key :: "('e, 'r, 'w, 'j) route_env \<Rightarrow> bytes \<Rightarrow> token_body \<Rightarrow> bytes" where
  "first_key re is_chain tb = (if 0 < fst (ParseInt 64 is_chain)
     then (let v = hd (CallStack tb) in makeRedisKey [cs_AppId v, cs_AppKey v, getInterfaceString re (cs_Channel v)])
     else makeRedisKey [FromAppid tb, FromAppkey tb, getInterfaceString re (FromChannel tb)])"

definition asked_fields :: "('e, 'r, 'w, 'j) route_env \<Rightarrow> bytes \<Rightarrow> token_body \<Rightarrow> bytes list" where
  "asked_fields re is_chain tb = (if 0 < fst (ParseInt 64 is_chain)
     then map (field_of re) (tl (CallStack tb)) else [field_of re (last (CallStack tb))])"

lemma find_target_path:
  assumes "json_law re" "find_target re is_chain tb st = Some (Ret (Inr t, st'))" "tg_Host t \<noteq> []"
  shows "relation_path re (first_key re is_chain tb) (asked_fields re is_chain tb) st t st'"
proof (cases "0 < fst (ParseInt 64 is_chain)")
  case True
  then have c: "chain_target re (CallStack tb) st = Some (Ret (Inr t, st'))"
    using assms(2) by (auto simp: find_target_def split: option.splits)
  then obtain v vs where v: "CallStack tb = v # vs" "vs \<noteq> []"
    using assms(3) by (cases "CallStack tb"; cases "tl (CallStack tb)") (auto simp: chain_target_def zero_target_def)
  then show ?thesis using c True chain_loop_path [OF assms(1) _ v(2)]
    by (simp add: chain_target_def first_key_def asked_fields_def)
next
  case False
  then show ?thesis using assms(2) getChannelRelation_granted [OF assms(1)]
    by (auto simp: find_target_def direct_target_def first_key_def asked_fields_def split: if_splits intro: last_link)
qed

section \<open>Properties\<close>

text \<open>A cache that keeps its items for ever, as one made without a default expiration does.\<close>

definition everlasting :: "cache \<Rightarrow> bool" where
  "everlasting c \<longleftrightarrow> defaultExpiration c \<le> 0 \<and> (\<forall>kv \<in> set (items c). it_Expiration (snd kv) \<le> 0)"

lemma everlasting_Get: "everlasting c \<Longrightarrow> Memory_Cache.Get now k c = map_option it_Object (map_of (items c) k)"
  by (auto simp: everlasting_def Get_def dest!: map_of_SomeD split: option.splits)

lemma route_again:
  assumes "33 \<le> length (rq_uri rq)" "rq_auth rq \<noteq> []" "everlasting (rt_cache st)"
    "map_of (items (rt_cache st)) (route_name (rq_uri rq)) = Some it" "target_at (it_Object it) st = Some t"
    "route_now re st = (now, st')"
  shows "handleRequestRoute re rq st = Some (Ret (Inr (route_to (route_path (rq_uri rq)) t), st'))"
proof -
  have same: "same_routing st st'" by (rule route_now_same [OF assms(6)])
  have "target_at (it_Object it) st' = Some t" using assms(5) target_at_same [OF same] by simp
  then show ?thesis using assms same everlasting_Get [OF assms(3)] by (simp add: handleRequestRoute_def same_routing_def)
qed

text \<open>The request of the samples: a chain of three applications. Every relation in the cluster leads to one target.\<close>

definition sample_target :: target_body where
  "sample_target = \<lparr>tg_AppId = ''b'', tg_AppKey = ''k'', tg_Channel = ''1'', tg_Host = ''/h:80/'', tg_Scheme = ''http'', tg_ChannelAlias = [], tg_Mode = []\<rparr>"

definition sample_link :: "bytes \<Rightarrow> call_stack" where
  "sample_link a = \<lparr>cs_AppId = a, cs_AppKey = ''k'', cs_Channel = IInt 1, cs_Alias = []\<rparr>"

definition sample_token :: token_body where
  "sample_token = \<lparr>FromAppid = ''a'', FromAppkey = ''k'', FromChannel = IInt 1, CallStack = map sample_link [''a'', ''b'', ''c'']\<rparr>"

definition sample_route_env :: "(int \<times> nat list, breader, bwriter, unit) route_env" where
  "sample_route_env = \<lparr>re_world = routing_world (\<lambda>_. RBulk ''t''), re_listening = Pair True, re_jwt = (\<lambda>_. Some (Some ())),
     re_claims = (\<lambda>_. Inr ''c''), re_token = (\<lambda>_. Inr sample_token),
     re_target = (\<lambda>b. if b = ''t'' then Inr sample_target else Inl EOF), re_trunc = (\<lambda>_. 0)\<rparr>"

definition sample_router :: "(int \<times> nat list, breader, bwriter) router" where
  "sample_router = \<lparr>rt_cluster = (pair_cluster, (5, [])), rt_cache = New 5 0 10 1024, rt_targets = []\<rparr>"

definition sample_request :: "bytes \<Rightarrow> route_req" where
  "sample_request auth = \<lparr>rq_uri = ''/'' @ replicate 32 (CHR ''r'') @ ''/user/login'', rq_auth = auth, rq_is_chain = ''1''\<rparr>"

lemma sample_relation:
  assumes "small (length k)" "small (length fld)"
  shows "\<exists>e'. getChannelRelation sample_route_env k fld (st\<lparr>rt_cluster := (pair_cluster, e)\<rparr>) =
    Some (Ret (Inr sample_target, st\<lparr>rt_cluster := (pair_cluster, e')\<rparr>))"
proof -
  let ?w = "routing_world (\<lambda>_. RBulk ''t'')"
  obtain e' where e': "node_call 0 (node_do (w_net ?w) ''HGET'' [AString k, AString fld]) (pair_cluster, e) = ((RBulk ''t'', None), (pair_cluster, e'))"
    using pair_call [of 0 "\<lambda>_. RBulk ''t''" "''HGET''" "[AString k, AString fld]" e] assms
    by (auto simp: sendable_def small_def arg_bytes_def)
  have "getNodeByKey (net_float (w_net ?w)) (AString k) pair_cluster = Inr 0"
    by (simp add: getNodeByKey_def key_def pair_cluster_def sample_cluster_inv)
  then have "Do ?w ''HGET'' [AString k, AString fld] (pair_cluster, e) = Some (Ret ((RBulk ''t'', None), (pair_cluster, e')))"
    using e' by (simp add: Do_def bind_run_def follow_def finish_reply_def checkReply_def)
  then have "getChannelRelation sample_route_env k fld (st\<lparr>rt_cluster := (pair_cluster, e)\<rparr>) =
    Some (Ret (Inr sample_target, st\<lparr>rt_cluster := (pair_cluster, e')\<rparr>))"
    by (simp add: getChannelRelation_def sample_route_env_def bind_run_def reply_Bytes_def read_relation_def sample_target_def)
  then show ?thesis by blast
qed

lemma sample_one: "FormatInt 1 = ''1''" "0 < fst (ParseInt 64 ''1'')"
proof -
  show one: "FormatInt 1 = ''1''" by code_simp
  then show "0 < fst (ParseInt 64 ''1'')" using ParseInt_FormatInt [of 1] by (simp add: in_int64_def)
qed

lemma sample_field: "field_of sample_route_env (sample_link a) = makeRedisKey [a, ''k'', ''1'']"
  using sample_one by (simp add: sample_link_def field_of_def getChainFieldKey_def getInterfaceString_def)

lemma sample_start:
  "route_now sample_route_env sample_router = (5, sample_router)" "Memory_Cache.Get 5 k (rt_cache sample_router) = None"
  "getAppInfoByJwtToken sample_route_env ''bearer x'' = Ret (Inr sample_token)"
  by (simp_all add: route_now_def sample_route_env_def routing_world_def sample_net_def env_call_def sample_router_def
      Get_def New_def newCacheWithJanitor_def newCache_def Let_def getAppInfoByJwtToken_def)

lemma sample_chain:
  "\<exists>e'. find_target sample_route_env ''1'' sample_token (st\<lparr>rt_cluster := (pair_cluster, e)\<rparr>) =
    Some (Ret (Inr sample_target, st\<lparr>rt_cluster := (pair_cluster, e')\<rparr>))"
proof -
  have ok: "checkChains (CallStack sample_token) = None"
    by (simp add: checkChains_def sample_token_def sample_link_def chain_link_ok_def no_channel_def)
  obtain e1 where 1: "getChannelRelation sample_route_env ''a_k_1'' ''b_k_1'' (st\<lparr>rt_cluster := (pair_cluster, e)\<rparr>) =
      Some (Ret (Inr sample_target, st\<lparr>rt_cluster := (pair_cluster, e1)\<rparr>))"
    using sample_relation [of "''a_k_1''" "''b_k_1''" e st] by (auto simp: small_def)
  obtain e2 where 2: "getChannelRelation sample_route_env ''b_k_1'' ''c_k_1'' (st\<lparr>rt_cluster := (pair_cluster, e1)\<rparr>) =
      Some (Ret (Inr sample_target, st\<lparr>rt_cluster := (pair_cluster, e2)\<rparr>))"
    using sample_relation [of "''b_k_1''" "''c_k_1''" e1 st] by (auto simp: small_def)
  have k: "key_of_target sample_target = ''b_k_1''" by (simp add: key_of_target_def sample_target_def)
  have "chain_target sample_route_env (CallStack sample_token) (st\<lparr>rt_cluster := (pair_cluster, e)\<rparr>) =
    Some (Ret (Inr sample_target, st\<lparr>rt_cluster := (pair_cluster, e2)\<rparr>))"
    using 1 2 k sample_one sample_field by (simp add: chain_target_def sample_token_def bind_run_def) (simp add: sample_link_def getInterfaceString_def bind_run_def)
  then have "find_target sample_route_env ''1'' sample_token (st\<lparr>rt_cluster := (pair_cluster, e)\<rparr>) =
    Some (Ret (Inr sample_target, st\<lparr>rt_cluster := (pair_cluster, e2)\<rparr>))"
    using sample_one ok by (simp add: find_target_def)
  then show ?thesis by blast
qed

lemma sample_uri:
  "route_name (rq_uri (sample_request a)) = replicate 32 (CHR ''r'')" "route_path (rq_uri (sample_request a)) = ''/user/login''"
proof -
  have "SplitByte (CHR ''/'') (replicate 32 (CHR ''r'') @ ''/user/login'') = [replicate 32 (CHR ''r''), ''user'', ''login'']"
    using SplitByte_append [of "CHR ''/''" "replicate 32 (CHR ''r'')" "''user/login''"] by simp
  then show "route_name (rq_uri (sample_request a)) = replicate 32 (CHR ''r'')" "route_path (rq_uri (sample_request a)) = ''/user/login''"
    by (simp_all add: route_name_def route_path_def sample_request_def)
qed

lemma sample_routed:
  "\<exists>st'. handleRequestRoute sample_route_env (sample_request ''bearer x'') sample_router =
     Some (Ret (Inr (route_to ''/user/login'' sample_target), st'))"
proof -
  obtain e where e: "find_target sample_route_env ''1'' sample_token sample_router = Some (Ret (Inr sample_target, sample_router\<lparr>rt_cluster := (pair_cluster, e)\<rparr>))"
    using sample_chain [where st = sample_router and e = "(5, [])"] by (auto simp: sample_router_def)
  have len: "length (rq_uri (sample_request a)) = 44" for a by (simp add: sample_request_def)
  have req: "rq_auth (sample_request a) = a" "rq_is_chain (sample_request a) = ''1''" for a by (simp_all add: sample_request_def)
  have a: "new_addr st = ''0''" if "rt_targets st = []" for st :: "(int \<times> nat list, breader, bwriter) router"
    using that by (simp add: new_addr_def FormatInt_def format_nat.simps) code_simp
  have room: "\<not> IsReachMaxItemsCount (rt_cache sample_router)"
    by (simp add: IsReachMaxItemsCount_def ItemCount_def sample_router_def New_def newCacheWithJanitor_def newCache_def Let_def)
  let ?st = "sample_router\<lparr>rt_cluster := (pair_cluster, e)\<rparr>"
  have t: "rt_targets ?st = []" "rt_cache ?st = rt_cache sample_router" by (simp_all add: sample_router_def)
  obtain now st1 where n1: "route_now sample_route_env ?st = (now, st1)" by (metis surj_pair)
  have now: "now = fst e" "st1 = ?st"
    using n1 by (simp_all add: route_now_def sample_route_env_def routing_world_def sample_net_def env_call_def)
  have "cache_target sample_route_env r sample_target ?st = Ret (?st\<lparr>rt_cache := cache_set (fst e) r (OOther ''0'') 0 (rt_cache sample_router),
      rt_targets := [(''0'', sample_target)]\<rparr>)" for r
    using n1 now a [OF t(1)] t room
    by (simp add: cache_target_def SetDefault_def Set_put env_call_def) (simp add: sample_route_env_def)
  then show ?thesis
    using sample_start e len sample_uri req
    by (simp add: handleRequestRoute_def route_fresh_def bind_run_def) (simp add: sample_target_def)
qed

lemma sample_router_inv:
  "route_inv sample_router" "everlasting (rt_cache sample_router)" "\<not> IsReachMaxItemsCount (rt_cache sample_router)"
  by (simp_all add: route_inv_def everlasting_def IsReachMaxItemsCount_def ItemCount_def sample_router_def New_def
      newCacheWithJanitor_def newCache_def Let_def)

section \<open>Properties\<close>

text \<open>C17. Routing keeps the cache in order: what is cached is the address of a target with a host, a key and a
  channel; a request that is refused leaves the cache as it was, and one that is routed goes to such a target.\<close>

theorem routing_safe:
  assumes "route_inv st" "handleRequestRoute re rq st = Some (Ret (r, st'))"
  shows "route_inv st' \<and>
    ((\<exists>e. r = Inl e \<and> rt_cache st' = rt_cache st \<and> rt_targets st' = rt_targets st) \<or>
     (\<exists>t. r = Inr (route_to (route_path (rq_uri rq)) t) \<and> good_target t))"
  using assms(2)
proof (cases rule: route_cases)
  case (refused e)
  then show ?thesis using assms(1) same_routing_inv [of st st'] by (auto simp: same_routing_def)
next
  case (hit now x t)
  obtain it where it: "map_of (items (rt_cache st)) (route_name (rq_uri rq)) = Some it" "it_Object it = x"
    using Get_item [OF hit(2)] by blast
  from cached_target [OF assms(1) it(1)] have "good_target t" using hit(3) it(2) by auto
  then show ?thesis using hit assms(1) same_routing_inv [of st st'] by auto
next
  case (found now st0 tb t st1)
  then show ?thesis using cache_target_inv [of st1 t re _ st'] assms(1) same_routing_inv [of st st1] by auto
qed

lemma routing_safe_witness:
  "\<exists>st'. handleRequestRoute sample_route_env (sample_request ''bearer x'') sample_router =
     Some (Ret (Inr (route_to ''/user/login'' sample_target), st')) \<and> route_inv st'"
  using sample_routed routing_safe [OF sample_router_inv(1)] by blast

text \<open>C8. A route that is not cached is granted by the cluster: the request has a token, and a path of relations leads
  from the application the token starts from to the target, one relation for each link the token names, the next
  asked under the key of the target the last one gave, whatever the token says of it.\<close>

theorem fresh_route_granted:
  assumes "json_law re" "handleRequestRoute re rq st = Some (Ret (Inr ro, st'))" "route_now re st = (now, st0)"
    "Memory_Cache.Get now (route_name (rq_uri rq)) (rt_cache st) = None"
  shows "\<exists>tb t st1. getAppInfoByJwtToken re (rq_auth rq) = Ret (Inr tb) \<and>
     relation_path re (first_key re (rq_is_chain rq) tb) (asked_fields re (rq_is_chain rq) tb) st0 t st1 \<and>
     good_target t \<and> ro = route_to (route_path (rq_uri rq)) t"
  using assms(2)
proof (cases rule: route_cases)
  case (found now1 st2 tb t st1)
  then show ?thesis using assms(3) find_target_path [OF assms(1) found(5)] by (auto simp: good_target_def)
qed (use assms(3,4) in auto)

lemma fresh_route_granted_witness:
  "\<exists>t st1. relation_path sample_route_env ''a_k_1'' [''b_k_1'', ''c_k_1''] sample_router t st1 \<and> good_target t"
proof -
  obtain st' where st': "handleRequestRoute sample_route_env (sample_request ''bearer x'') sample_router =
       Some (Ret (Inr (route_to ''/user/login'' sample_target), st'))"
    using sample_routed by blast
  have j: "json_law sample_route_env" by (simp add: json_law_def sample_route_env_def)
  have req: "rq_auth (sample_request ''bearer x'') = ''bearer x''" "rq_is_chain (sample_request ''bearer x'') = ''1''"
    by (simp_all add: sample_request_def)
  have "first_key sample_route_env ''1'' sample_token = ''a_k_1''"
    using sample_one by (simp add: first_key_def sample_token_def sample_link_def getInterfaceString_def)
  moreover have "asked_fields sample_route_env ''1'' sample_token = [''b_k_1'', ''c_k_1'']"
    using sample_one sample_field by (simp add: asked_fields_def sample_token_def)
  ultimately show ?thesis
    using fresh_route_granted [OF j st' sample_start(1,2)] req sample_start(3) by auto
qed

text \<open>C18. The first caller opens a route for all: with a cache that keeps its items for ever and has room, once a request has been
  routed, every later request to the same route is sent to the same target, under the same application headers,
  whatever its token is, and no relation is asked for.\<close>

theorem first_caller_opens_route:
  assumes "route_inv st" "everlasting (rt_cache st)" "\<not> IsReachMaxItemsCount (rt_cache st)"
    "handleRequestRoute re rq st = Some (Ret (Inr ro, st1))"
    "33 \<le> length (rq_uri rq')" "rq_auth rq' \<noteq> []" "route_name (rq_uri rq') = route_name (rq_uri rq)"
    "route_now re st1 = (now, st2)"
  shows "handleRequestRoute re rq' st1 = Some (Ret (Inr (ro\<lparr>ro_path := route_path (rq_uri rq')\<rparr>), st2))"
proof -
  have "\<exists>it t. everlasting (rt_cache st1) \<and> map_of (items (rt_cache st1)) (route_name (rq_uri rq)) = Some it \<and>
      target_at (it_Object it) st1 = Some t \<and> ro = route_to (route_path (rq_uri rq)) t"
    using assms(4)
  proof (cases rule: route_cases)
    case (hit now x t)
    obtain it where it: "map_of (items (rt_cache st)) (route_name (rq_uri rq)) = Some it" "it_Object it = x"
      using Get_item [OF hit(2)] by blast
    have "rt_cache st1 = rt_cache st" "target_at x st1 = Some t"
      using hit(3,5) target_at_same [OF hit(5)] by (simp_all add: same_routing_def)
    then show ?thesis using it assms(2) hit(4) by auto
  next
    case (found now st0 tb t st0')
    have st: "rt_cache st0' = rt_cache st" "rt_targets st0' = rt_targets st" using found(7) by (simp_all add: same_routing_def)
    show ?thesis using found(8)
    proof (rule cache_target_Ret)
      fix now' s c
      assume st1: "st1 = st0'\<lparr>rt_cluster := s, rt_cache := c, rt_targets := (new_addr st0', t) # rt_targets st0'\<rparr>"
        and "c = cache_set now' (route_name (rq_uri rq)) (OOther (new_addr st0')) 0 (rt_cache st0') \<and> \<not> IsReachMaxItemsCount (rt_cache st0') \<or>
          IsReachMaxItemsCount (rt_cache st0') \<and> items c = items (rt_cache st0') \<and> defaultExpiration c = defaultExpiration (rt_cache st0')"
      then have c: "c = cache_set now' (route_name (rq_uri rq)) (OOther (new_addr st0')) 0 (rt_cache st)"
        using assms(3) st by simp
      let ?it = "\<lparr>it_Object = OOther (new_addr st0'), it_Expiration = expiry now' 0 (rt_cache st)\<rparr>"
      have x: "expiry now' 0 (rt_cache st) = 0" using assms(2) by (simp add: expiry_def everlasting_def Let_def)
      have "everlasting c" using assms(2) set_update_subset [of "route_name (rq_uri rq)" ?it "items (rt_cache st)"] x
        unfolding c by (auto simp: everlasting_def cache_set_def)
      moreover have "map_of (items c) (route_name (rq_uri rq)) = Some ?it"
        unfolding c by (simp add: cache_set_def update_conv')
      moreover have "target_at (it_Object ?it) st1 = Some t" using st1 by (simp add: target_at_def)
      ultimately show ?thesis using st1 found(9) by auto
    qed
  qed simp
  then obtain it t where it: "everlasting (rt_cache st1)" "map_of (items (rt_cache st1)) (route_name (rq_uri rq')) = Some it"
      "target_at (it_Object it) st1 = Some t" and ro: "ro = route_to (route_path (rq_uri rq)) t"
    using assms(7) by auto
  have "ro\<lparr>ro_path := route_path (rq_uri rq')\<rparr> = route_to (route_path (rq_uri rq')) t" by (simp add: ro route_to_def)
  then show ?thesis using route_again [OF assms(5,6) it assms(8)] by simp
qed

lemma first_caller_opens_route_witness:
  "\<exists>st1 st2. handleRequestRoute sample_route_env (sample_request ''bearer x'') sample_router =
       Some (Ret (Inr (route_to ''/user/login'' sample_target), st1)) \<and>
     handleRequestRoute sample_route_env (sample_request ''?'') st1 = Some (Ret (Inr (route_to ''/user/login'' sample_target), st2))"
proof -
  obtain st1 where st1: "handleRequestRoute sample_route_env (sample_request ''bearer x'') sample_router =
       Some (Ret (Inr (route_to ''/user/login'' sample_target), st1))"
    using sample_routed by blast
  obtain now st2 where n: "route_now sample_route_env st1 = (now, st2)" by (metis surj_pair)
  have "route_path (rq_uri (sample_request ''?'')) = ''/user/login''" by (simp add: sample_uri)
  then show ?thesis
    using st1 first_caller_opens_route [OF sample_router_inv st1 _ _ _ n, of "sample_request ''?''"]
    by (auto simp: sample_uri route_to_def) (simp_all add: sample_request_def)
qed

text \<open>An \<open>Authorization\<close> header of fewer than seven bytes is sliced beyond its end: the handler panics.\<close>

lemma short_token_panics:
  assumes "33 \<le> length (rq_uri rq)" "rq_auth rq \<noteq> []" "length (rq_auth rq) < 7" "route_now re st = (now, st0)"
    "Memory_Cache.Get now (route_name (rq_uri rq)) (rt_cache st) = None"
  shows "handleRequestRoute re rq st = Some (Panic ''slice bounds out of range'')"
  using assms route_now_same [OF assms(4)]
  by (simp add: handleRequestRoute_def route_fresh_def getAppInfoByJwtToken_def same_routing_def)

text \<open>The path of the target is what follows the route in the URI, its query included.\<close>

lemma concat_SplitByte: "concat (map ((#) d) (SplitByte d s)) = d # s"
proof (induction s)
  case (Cons c s)
  then show ?case by (cases "SplitByte d s") auto
qed simp

lemma route_path_suffix: "drop 1 uri = route_name uri @ route_path uri"
proof -
  obtain r ps where s: "SplitByte (CHR ''/'') (drop 1 uri) = r # ps" by (metis SplitByte_not_Nil list.exhaust)
  then have "CHR ''/'' # r @ concat (map ((#) (CHR ''/'')) ps) = CHR ''/'' # drop 1 uri"
    using concat_SplitByte [of "CHR ''/''" "drop 1 uri"] by simp
  then show ?thesis using s by (simp add: route_name_def route_path_def)
qed

end
