(* ===== verification/Traffic_Proxy.thy ===== *)
theory Traffic_Proxy
  imports Traffic_Route Networker
begin

text \<open>
  The handlers of the HTTP proxy (\<open>sc/traffic_out_core.go\<close>, \<open>sc/traffic_inflow_core.go\<close>, and the one of
  \<open>utils/networker/httpproxy.go\<close>): headers of one hop are removed, the request is given its target and sent, and
  what went wrong becomes the answer. Requests, responses and the client are \<open>fasthttp\<close>'s: \<open>hp\<close> has the calls the
  code makes, and \<open>header_law\<close> and \<open>uri_law\<close> are what its documentation says of them.
\<close>

section \<open>The library\<close>

record ('q, 'p, 'e) http_ops =
  req_uri :: "'q \<Rightarrow> bytes"
  req_peek :: "bytes \<Rightarrow> 'q \<Rightarrow> bytes"
  req_all :: "bytes \<Rightarrow> 'q \<Rightarrow> bytes list"
  req_del :: "bytes \<Rightarrow> 'q \<Rightarrow> 'q"
  req_add :: "bytes \<Rightarrow> bytes \<Rightarrow> 'q \<Rightarrow> 'q"
  req_host :: "'q \<Rightarrow> bytes"
  req_scheme :: "'q \<Rightarrow> bytes"
  req_path :: "'q \<Rightarrow> bytes"
  set_host :: "bytes \<Rightarrow> 'q \<Rightarrow> 'q"
  set_scheme :: "bytes \<Rightarrow> 'q \<Rightarrow> 'q"
  set_path :: "bytes \<Rightarrow> 'q \<Rightarrow> 'q"
  norm_path :: "bytes \<Rightarrow> bytes"
  res_all :: "bytes \<Rightarrow> 'p \<Rightarrow> bytes list"
  res_del :: "bytes \<Rightarrow> 'p \<Rightarrow> 'p"
  set_status :: "int \<Rightarrow> 'p \<Rightarrow> 'p"
  set_body :: "bytes \<Rightarrow> 'p \<Rightarrow> 'p"
  client_do :: "'q \<Rightarrow> 'p \<Rightarrow> 'e \<Rightarrow> (go_error option \<times> 'p) \<times> 'e"

text \<open>\<open>req_all\<close> and \<open>res_all\<close> are the values of a header in their order; names are compared without regard to
  case. \<open>Peek\<close> gives the first value, \<open>Add\<close> appends one to the application headers (some headers of the
  protocol have one value only), and \<open>Del\<close> removes all, for the headers the code removes. Setting a part of the
  URI leaves the headers alone, but for the one that names the host. A host or scheme that is not empty is read
  back in lower case, a path decoded and normalised, by \<open>norm_path\<close>, and each part is left by what sets another.
  \<open>SetHost\<close> of a request is the one of its URI.\<close>

definition same_name :: "bytes \<Rightarrow> bytes \<Rightarrow> bool" where
  "same_name h k \<longleftrightarrow> ToUpper h = ToUpper k"

definition app_headers :: "bytes list" where
  "app_headers = [''x-appid'', ''x-appkey'', ''x-channel'']"

definition hopHeaders :: "bytes list" where
  "hopHeaders = [''Connection'', ''Proxy-Connection'', ''Keep-Alive'', ''Proxy-Authenticate'', ''Proxy-Authorization'',
     ''Te'', ''Trailer'', ''Transfer-Encoding'', ''Upgrade'']"

definition header_law :: "('q, 'p, 'e) http_ops \<Rightarrow> bool" where
  "header_law hp \<longleftrightarrow>
     (\<forall>h q. req_peek hp h q = (case req_all hp h q of [] \<Rightarrow> [] | v # vs \<Rightarrow> v)) \<and>
     (\<forall>h k q. k \<in> set hopHeaders \<longrightarrow> req_all hp h (req_del hp k q) = (if same_name h k then [] else req_all hp h q)) \<and>
     (\<forall>h k v q. k \<in> set app_headers \<longrightarrow> req_all hp h (req_add hp k v q) = req_all hp h q @ (if same_name h k then [v] else [])) \<and>
     (\<forall>h v q. \<not> same_name h ''Host'' \<longrightarrow> req_all hp h (set_host hp v q) = req_all hp h q \<and>
        req_all hp h (set_scheme hp v q) = req_all hp h q \<and> req_all hp h (set_path hp v q) = req_all hp h q) \<and>
     (\<forall>h k p. k \<in> set hopHeaders \<longrightarrow> res_all hp h (res_del hp k p) = (if same_name h k then [] else res_all hp h p))"

definition uri_law :: "('q, 'p, 'e) http_ops \<Rightarrow> bool" where
  "uri_law hp \<longleftrightarrow>
     (\<forall>v q. (v \<noteq> [] \<longrightarrow> req_host hp (set_host hp v q) = ToLower v) \<and> req_host hp (set_scheme hp v q) = req_host hp q \<and>
        req_host hp (set_path hp v q) = req_host hp q) \<and>
     (\<forall>v q. (v \<noteq> [] \<longrightarrow> req_scheme hp (set_scheme hp v q) = ToLower v) \<and> req_scheme hp (set_path hp v q) = req_scheme hp q \<and>
        req_scheme hp (set_host hp v q) = req_scheme hp q) \<and>
     (\<forall>v q. req_path hp (set_path hp v q) = norm_path hp v \<and> req_path hp (set_host hp v q) = req_path hp q \<and>
        req_path hp (set_scheme hp v q) = req_path hp q) \<and>
     (\<forall>k v q. k \<in> set app_headers \<longrightarrow> req_host hp (req_add hp k v q) = req_host hp q \<and>
        req_scheme hp (req_add hp k v q) = req_scheme hp q \<and> req_path hp (req_add hp k v q) = req_path hp q) \<and>
     (\<forall>k q. k \<in> set hopHeaders \<longrightarrow> req_host hp (req_del hp k q) = req_host hp q \<and>
        req_scheme hp (req_del hp k q) = req_scheme hp q \<and> req_path hp (req_del hp k q) = req_path hp q)"

section \<open>The handlers\<close>

definition strip_req :: "('q, 'p, 'e) http_ops \<Rightarrow> 'q \<Rightarrow> 'q" where
  "strip_req hp q = foldl (\<lambda>q h. req_del hp h q) q hopHeaders"

definition strip_res :: "('q, 'p, 'e) http_ops \<Rightarrow> 'p \<Rightarrow> 'p" where
  "strip_res hp p = foldl (\<lambda>p h. res_del hp h p) p hopHeaders"

text \<open>The proxy that \<open>networker\<close> made: its target as text, and its type.\<close>

record http_proxy =
  TargetAddress :: bytes
  TargetType :: bytes

definition fail_with :: "('q, 'p, 'e) http_ops \<Rightarrow> int \<Rightarrow> go_error \<Rightarrow> 'p \<Rightarrow> 'p" where
  "fail_with hp status e p = set_body hp (Error e) (set_status hp status p)"

text \<open>Sending, as all handlers do it: 500 and the error, or the response without the headers of one hop.\<close>

definition exchange :: "('q, 'p, 'e) http_ops \<Rightarrow> 'q \<Rightarrow> 'p \<Rightarrow> 'e \<Rightarrow> (go_error option \<times> 'p) \<times> 'e" where
  "exchange hp q p e = (case client_do hp q p e of
     ((Some err, p), e) \<Rightarrow> ((Some err, fail_with hp 500 err p), e)
   | ((None, p), e) \<Rightarrow> ((None, strip_res hp p), e))"

definition trafficInFlowReverseFastHTTPClientHandler :: "('q, 'p, 'e) http_ops \<Rightarrow> http_proxy \<Rightarrow> 'q \<Rightarrow> 'p \<Rightarrow> 'e
    \<Rightarrow> (go_error option \<times> 'p) \<times> 'e" where
  "trafficInFlowReverseFastHTTPClientHandler hp pr q p e =
     (let q = set_host hp (TargetAddress pr) (strip_req hp q);
          q = (if TargetType pr = ''https'' then set_scheme hp ''https'' q
               else if TargetType pr = ''http'' then set_scheme hp ''http'' q else q)
      in exchange hp q p e)"

definition ReverseFastHTTPHandler :: "('q, 'p, 'e) http_ops \<Rightarrow> bytes \<Rightarrow> 'q \<Rightarrow> 'p \<Rightarrow> 'e \<Rightarrow> (go_error option \<times> 'p) \<times> 'e" where
  "ReverseFastHTTPHandler hp addr q p e = exchange hp (set_host hp addr (strip_req hp q)) p e"

text \<open>The outgoing handler's last part: the target is set, the headers are added in the order of a loop over a
  map, and the request is sent.\<close>

definition add_headers :: "('q, 'p, 'e) http_ops \<Rightarrow> (bytes \<times> bytes) list \<Rightarrow> 'q \<Rightarrow> 'q" where
  "add_headers hp hs q = foldl (\<lambda>q (k, v). req_add hp k v q) q hs"

definition aimed :: "('q, 'p, 'e) http_ops \<Rightarrow> route \<Rightarrow> 'q \<Rightarrow> 'q" where
  "aimed hp ro q = set_path hp (ro_path ro) (set_scheme hp (ro_scheme ro) (set_host hp (ro_host ro) q))"

definition forward :: "('e, 'r, 'w, 'j) route_env \<Rightarrow> ('q, 'p, 'e) http_ops \<Rightarrow> route \<Rightarrow> 'q \<Rightarrow> 'p \<Rightarrow> ('e, 'r, 'w) router
    \<Rightarrow> (go_error option \<times> 'p) \<times> ('e, 'r, 'w) router" where
  "forward re hp ro q p st = (case env_call (map_range (re_world re) (ro_header ro)) (rt_cluster st) of (hs, s) \<Rightarrow>
     (case env_call (exchange hp (add_headers hp hs (aimed hp ro q)) p) s of (r, s) \<Rightarrow> (r, st\<lparr>rt_cluster := s\<rparr>)))"

text \<open>With the gateway, path and headers keep their zero values.\<close>

definition gateway_route :: "http_proxy \<Rightarrow> route" where
  "gateway_route pr = \<lparr>ro_scheme = TargetType pr, ro_host = TargetAddress pr, ro_path = [], ro_header = []\<rparr>"

definition request_of :: "('q, 'p, 'e) http_ops \<Rightarrow> 'q \<Rightarrow> route_req" where
  "request_of hp q = \<lparr>rq_uri = req_uri hp q, rq_auth = req_peek hp ''Authorization'' q, rq_is_chain = req_peek hp ''x-is-chain'' q\<rparr>"

definition trafficOutReverseFastHTTPClientHandler :: "('e, 'r, 'w, 'j) route_env \<Rightarrow> ('q, 'p, 'e) http_ops \<Rightarrow> http_proxy \<Rightarrow> bool
    \<Rightarrow> 'q \<Rightarrow> 'p \<Rightarrow> ('e, 'r, 'w) router \<Rightarrow> ((go_error option \<times> 'p) \<times> ('e, 'r, 'w) router) outcome option" where
  "trafficOutReverseFastHTTPClientHandler re hp pr toGateWay q p st =
     (let q = strip_req hp q in
      if toGateWay then Some (Ret (forward re hp (gateway_route pr) (set_host hp (TargetAddress pr) q) p st))
      else bind_run (handleRequestRoute re (request_of hp q) st) (\<lambda>(r, st). case r of
          Inl e \<Rightarrow> Some (Ret ((Some e, fail_with hp 404 e p), st))
        | Inr ro \<Rightarrow> Some (Ret (forward re hp ro q p st))))"

section \<open>Headers\<close>

definition hop_name :: "bytes \<Rightarrow> bool" where
  "hop_name h \<longleftrightarrow> (\<exists>k \<in> set hopHeaders. same_name h k)"

lemma strip_req_all: "header_law hp \<Longrightarrow> req_all hp h (strip_req hp q) = (if hop_name h then [] else req_all hp h q)"
proof -
  assume law: "header_law hp"
  have "set hs \<subseteq> set hopHeaders \<Longrightarrow> req_all hp h (foldl (\<lambda>q h. req_del hp h q) q hs) =
      (if \<exists>k \<in> set hs. same_name h k then [] else req_all hp h q)" for hs
    using law by (induction hs arbitrary: q) (auto simp: header_law_def)
  from this [of hopHeaders] show ?thesis by (simp add: strip_req_def hop_name_def)
qed

lemma strip_res_all: "header_law hp \<Longrightarrow> res_all hp h (strip_res hp p) = (if hop_name h then [] else res_all hp h p)"
proof -
  assume law: "header_law hp"
  have "set hs \<subseteq> set hopHeaders \<Longrightarrow> res_all hp h (foldl (\<lambda>p h. res_del hp h p) p hs) =
      (if \<exists>k \<in> set hs. same_name h k then [] else res_all hp h p)" for hs
    using law by (induction hs arbitrary: p) (auto simp: header_law_def)
  from this [of hopHeaders] show ?thesis by (simp add: strip_res_def hop_name_def)
qed

lemma add_headers_all:
  assumes "header_law hp" "fst ` set hs \<subseteq> set app_headers"
  shows "req_all hp h (add_headers hp hs q) = req_all hp h q @ map snd (filter (\<lambda>(k, v). same_name h k) hs)"
  using assms(2)
proof (induction hs arbitrary: q)
  case (Cons kv hs)
  obtain k v where kv: "kv = (k, v)" by (metis surj_pair)
  have "req_all hp h (req_add hp k v q) = req_all hp h q @ (if same_name h k then [v] else [])"
    using assms(1) Cons(2) kv by (simp add: header_law_def)
  then show ?case using Cons(1) [of "req_add hp k v q"] Cons(2) kv by (simp add: add_headers_def)
qed (simp add: add_headers_def)

lemma add_headers_uri:
  assumes "uri_law hp" "fst ` set hs \<subseteq> set app_headers"
  shows "req_host hp (add_headers hp hs q) = req_host hp q" "req_scheme hp (add_headers hp hs q) = req_scheme hp q"
    "req_path hp (add_headers hp hs q) = req_path hp q"
  using assms unfolding add_headers_def by (induction hs arbitrary: q) (auto simp: uri_law_def split: prod.splits)

lemma strip_req_uri:
  assumes "uri_law hp"
  shows "req_host hp (strip_req hp q) = req_host hp q" "req_scheme hp (strip_req hp q) = req_scheme hp q"
    "req_path hp (strip_req hp q) = req_path hp q"
  using assms by (simp_all add: strip_req_def hopHeaders_def uri_law_def)

text \<open>Where a request is sent: the host and scheme of the route in lower case, its path normalised.\<close>

definition sent_to :: "('q, 'p, 'e) http_ops \<Rightarrow> route \<Rightarrow> 'q \<Rightarrow> bool" where
  "sent_to hp ro q \<longleftrightarrow> (ro_host ro \<noteq> [] \<longrightarrow> req_host hp q = ToLower (ro_host ro)) \<and>
     (ro_scheme ro \<noteq> [] \<longrightarrow> req_scheme hp q = ToLower (ro_scheme ro)) \<and> req_path hp q = norm_path hp (ro_path ro)"

lemma aimed_simps:
  "header_law hp \<Longrightarrow> \<not> same_name h ''Host'' \<Longrightarrow> req_all hp h (aimed hp ro q) = req_all hp h q"
  "uri_law hp \<Longrightarrow> sent_to hp ro (aimed hp ro q)"
  by (simp_all add: header_law_def uri_law_def aimed_def sent_to_def)

lemma sent_to_headers:
  assumes "uri_law hp" "fst ` set hs \<subseteq> set app_headers"
  shows "sent_to hp ro (add_headers hp hs q) = sent_to hp ro q"
  by (simp add: sent_to_def add_headers_uri [OF assms])

text \<open>A loop over a map visits every entry once.\<close>

definition visit_law :: "('e, 'r, 'w) world \<Rightarrow> bool" where
  "visit_law w \<longleftrightarrow> (\<forall>ks e. distinct ks \<longrightarrow> distinct (fst (w_iter w ks e)) \<and> set (fst (w_iter w ks e)) = set ks)"

lemma map_range_once:
  assumes "visit_law w" "distinct (map fst m)" "map_range w m e = (hs, e')"
  shows "distinct (map fst hs)" "set hs = set m"
proof -
  obtain ks where ks: "w_iter w (map fst m) e = (ks, e')" and hs: "hs = concat (map (\<lambda>k. case map_of m k of None \<Rightarrow> [] | Some v \<Rightarrow> [(k, v)]) ks)"
    using assms(3) by (auto simp: map_range_def split: prod.splits)
  have k: "distinct ks" "set ks = fst ` set m"
    using assms(1,2) ks unfolding visit_law_def by (metis fst_conv, metis fst_conv set_map)
  have one: "concat (map (\<lambda>k. case map_of m k of None \<Rightarrow> [] | Some v \<Rightarrow> [(k, v)]) ks') = map (\<lambda>k. (k, the (map_of m k))) ks'"
    if "set ks' \<subseteq> fst ` set m" for ks'
    using that by (induction ks') (auto simp: map_of_eq_None_iff split: option.splits)
  have hs': "hs = map (\<lambda>k. (k, the (map_of m k))) ks" using hs one [of ks] k(2) by simp
  show "distinct (map fst hs)" using hs' k(1) by (simp add: comp_def)
  have "set hs = (\<lambda>kv. (fst kv, the (map_of m (fst kv)))) ` set m" using hs' k(2) by (simp add: image_image)
  also have "\<dots> = (\<lambda>kv. kv) ` set m"
    by (rule image_cong) (simp_all add: map_of_is_SomeI [OF assms(2), of "fst kv" "snd kv" for kv])
  finally show "set hs = set m" by simp
qed

section \<open>Properties\<close>

lemma route_headers:
  assumes "handleRequestRoute re rq st = Some (Ret (Inr ro, st'))"
  shows "map fst (ro_header ro) = app_headers" "rt_cluster st' = (fst (rt_cluster st'), snd (rt_cluster st'))"
  using assms by (cases rule: route_cases; simp add: route_to_def app_headers_def)+

lemma app_header_names:
  "k \<in> set app_headers \<Longrightarrow> \<not> hop_name k"
  "k \<in> set app_headers \<Longrightarrow> k' \<in> set app_headers \<Longrightarrow> same_name k k' \<longleftrightarrow> k = k'"
  by (auto simp: app_headers_def hop_name_def hopHeaders_def same_name_def ToUpper_def upper_char_def)

lemma not_host: "hop_name h \<Longrightarrow> \<not> same_name h ''Host''" "k \<in> set app_headers \<Longrightarrow> \<not> same_name k ''Host''"
  by (auto simp: app_headers_def hop_name_def hopHeaders_def same_name_def ToUpper_def upper_char_def)

lemma app_hop: "hop_name h \<Longrightarrow> k \<in> set app_headers \<Longrightarrow> \<not> same_name h k"
  using app_header_names(1) [of k] by (auto simp: hop_name_def same_name_def)

lemma exchange_answer:
  "exchange hp q p e = (case client_do hp q p e of ((err, p'), e') \<Rightarrow>
     ((err, case err of None \<Rightarrow> strip_res hp p' | Some x \<Rightarrow> fail_with hp 500 x p'), e'))"
  by (auto simp: exchange_def split: prod.splits option.splits)

lemma filter_named:
  assumes "distinct (map fst hs)" "(k, v) \<in> set hs" "\<forall>x \<in> set hs. P x \<longleftrightarrow> fst x = k"
  shows "map snd (filter P hs) = [v]"
  using assms
proof (induction hs)
  case (Cons x hs)
  show ?case
  proof (cases "fst x = k")
    case True
    then have "k \<notin> fst ` set hs" using Cons(2) by auto
    then have "\<forall>y \<in> set hs. \<not> P y" using Cons(4) by auto
    then have "filter P hs = []" by (simp add: filter_empty_conv)
    moreover have "x = (k, v)" using True Cons(3) \<open>k \<notin> fst ` set hs\<close> by (cases x) (auto simp: image_iff)
    ultimately show ?thesis using Cons(4) by simp
  next
    case False
    then show ?thesis using Cons by auto
  qed
qed simp

lemma forward_sends:
  assumes "header_law hp" "uri_law hp" "visit_law (re_world re)" "map fst (ro_header ro) = app_headers"
    "forward re hp ro q p st = ((err, p'), st')"
  shows "\<exists>q' e e' p0. client_do hp q' p e = ((err, p0), e') \<and> st' = st\<lparr>rt_cluster := (fst (rt_cluster st), e')\<rparr> \<and>
     p' = (case err of None \<Rightarrow> strip_res hp p0 | Some x \<Rightarrow> fail_with hp 500 x p0) \<and>
     sent_to hp ro q' \<and>
     (\<forall>h. (\<forall>k \<in> set app_headers. \<not> same_name h k) \<and> \<not> same_name h ''Host'' \<longrightarrow> req_all hp h q' = req_all hp h q) \<and>
     (\<forall>(k, v) \<in> set (ro_header ro). req_all hp k q' = req_all hp k q @ [v])"
proof -
  obtain hs e where hs: "map_range (re_world re) (ro_header ro) (snd (rt_cluster st)) = (hs, e)" by (metis surj_pair)
  let ?q = "add_headers hp hs (aimed hp ro q)"
  obtain p0 e' where d: "client_do hp ?q p e = ((err, p0), e')"
      and r: "st' = st\<lparr>rt_cluster := (fst (rt_cluster st), e')\<rparr>" "p' = (case err of None \<Rightarrow> strip_res hp p0 | Some x \<Rightarrow> fail_with hp 500 x p0)"
    using assms(5) hs by (auto simp: forward_def env_call_def exchange_answer split: prod.splits)
  have m: "distinct (map fst (ro_header ro))" by (simp add: assms(4) app_headers_def)
  note once = map_range_once [OF assms(3) m hs]
  have names: "fst ` set hs = set app_headers" using once(2) arg_cong [OF assms(4), of set] by simp
  have all: "req_all hp h ?q = req_all hp h q @ map snd (filter (\<lambda>(k, v). same_name h k) hs)" if "\<not> same_name h ''Host''" for h
    using add_headers_all [OF assms(1), of hs h] names aimed_simps(1) [OF assms(1) that] by simp
  have app: "k \<in> set app_headers" if "(k, v) \<in> set (ro_header ro)" for k v using that once(2) names by force
  have "filter (\<lambda>(k, v). same_name h k) hs = []" if "\<forall>k \<in> set app_headers. \<not> same_name h k" for h
    using that names by (force simp: filter_empty_conv)
  moreover have "map snd (filter (\<lambda>(k', v). same_name k k') hs) = [v]" if kv: "(k, v) \<in> set (ro_header ro)" for k v
  proof (rule filter_named [OF once(1)])
    show "(k, v) \<in> set hs" using kv once(2) by simp
    then have "k \<in> set app_headers" using names by force
    then have "(case x of (k', v) \<Rightarrow> same_name k k') \<longleftrightarrow> fst x = k" if "x \<in> set hs" for x
    proof -
      have "fst x \<in> set app_headers" using that names by blast
      then show ?thesis using app_header_names(2) [OF \<open>k \<in> set app_headers\<close>, of "fst x"] by (auto split: prod.splits)
    qed
    then show "\<forall>x \<in> set hs. (case x of (k', v) \<Rightarrow> same_name k k') \<longleftrightarrow> fst x = k" by blast
  qed
  ultimately show ?thesis
    using d r all app not_host(2) sent_to_headers [OF assms(2), of hs] names aimed_simps(2) [OF assms(2)]
    by (intro exI [of _ ?q] exI [of _ e] exI [of _ e'] exI [of _ p0]) auto
qed

section \<open>A library that obeys the laws\<close>

record plain_req =
  pq_uri :: bytes
  pq_headers :: "(bytes \<times> bytes) list"
  pq_host :: bytes
  pq_scheme :: bytes
  pq_path :: bytes

record plain_res =
  pp_headers :: "(bytes \<times> bytes) list"
  pp_status :: int
  pp_body :: bytes

definition values_of :: "bytes \<Rightarrow> (bytes \<times> bytes) list \<Rightarrow> bytes list" where
  "values_of h hs = map snd (filter (\<lambda>(k, v). same_name h k) hs)"

text \<open>Normalising: a path begins with a slash, and slashes in a row are one.\<close>

fun one_slash :: "bytes \<Rightarrow> bytes" where
  "one_slash (c # d # s) = (if c = CHR ''/'' \<and> d = CHR ''/'' then one_slash (d # s) else c # one_slash (d # s))"
| "one_slash s = s"

definition plain_http :: "(plain_req, plain_res, int \<times> nat list) http_ops" where
  "plain_http = \<lparr>req_uri = pq_uri, req_peek = (\<lambda>h q. case values_of h (pq_headers q) of [] \<Rightarrow> [] | v # vs \<Rightarrow> v),
     req_all = (\<lambda>h q. values_of h (pq_headers q)),
     req_del = (\<lambda>h q. q\<lparr>pq_headers := filter (\<lambda>(k, v). \<not> same_name h k) (pq_headers q)\<rparr>),
     req_add = (\<lambda>k v q. q\<lparr>pq_headers := pq_headers q @ [(k, v)]\<rparr>),
     req_host = pq_host, req_scheme = pq_scheme, req_path = pq_path,
     set_host = (\<lambda>v q. q\<lparr>pq_host := ToLower v\<rparr>), set_scheme = (\<lambda>v q. q\<lparr>pq_scheme := (if v = [] then ''http'' else ToLower v)\<rparr>),
     set_path = (\<lambda>v q. q\<lparr>pq_path := one_slash (CHR ''/'' # v)\<rparr>), norm_path = (\<lambda>v. one_slash (CHR ''/'' # v)),
     res_all = (\<lambda>h p. values_of h (pp_headers p)),
     res_del = (\<lambda>h p. p\<lparr>pp_headers := filter (\<lambda>(k, v). \<not> same_name h k) (pp_headers p)\<rparr>),
     set_status = (\<lambda>n p. p\<lparr>pp_status := n\<rparr>), set_body = (\<lambda>b p. p\<lparr>pp_body := b\<rparr>),
     client_do = (\<lambda>q p e. ((None, \<lparr>pp_headers = [(''upgrade'', ''h2'')], pp_status = 200, pp_body = pq_path q\<rparr>), e))\<rparr>"

lemma values_of_del: "values_of h (filter (\<lambda>(k, v). \<not> same_name n k) hs) = (if same_name h n then [] else values_of h hs)"
  by (induction hs) (auto simp: values_of_def same_name_def)

lemma plain_laws: "header_law plain_http" "uri_law plain_http"
  by (simp_all add: header_law_def uri_law_def plain_http_def values_of_del) (simp add: values_of_def)

definition sample_http_request :: plain_req where
  "sample_http_request = \<lparr>pq_uri = rq_uri (sample_request []), pq_headers = [(''connection'', ''close''), (''Authorization'', ''bearer x''),
     (''x-is-chain'', ''1''), (''X-Appid'', ''me'')], pq_host = ''front'', pq_scheme = ''http'', pq_path = ''/''\<rparr>"

lemma sample_outgoing:
  "\<exists>p' st'. trafficOutReverseFastHTTPClientHandler sample_route_env plain_http \<lparr>TargetAddress = [], TargetType = []\<rparr> False
     sample_http_request \<lparr>pp_headers = [], pp_status = 200, pp_body = []\<rparr> sample_router = Some (Ret ((None, p'), st'))"
proof -
  have "values_of h (pq_headers (strip_req plain_http q)) = req_all plain_http h (strip_req plain_http q)" for h q
    by (simp add: plain_http_def)
  moreover have "\<not> hop_name ''Authorization''" "\<not> hop_name ''x-is-chain''"
    by (simp_all add: hop_name_def hopHeaders_def same_name_def ToUpper_def upper_char_def)
  moreover have "req_all plain_http ''Authorization'' sample_http_request = [''bearer x'']" "req_all plain_http ''x-is-chain'' sample_http_request = [''1'']"
    by (simp_all add: plain_http_def sample_http_request_def values_of_def same_name_def ToUpper_def upper_char_def)
  ultimately have v: "values_of ''Authorization'' (pq_headers (strip_req plain_http sample_http_request)) = [''bearer x'']"
      "values_of ''x-is-chain'' (pq_headers (strip_req plain_http sample_http_request)) = [''1'']"
    by (simp_all add: strip_req_all [OF plain_laws(1)])
  have "pq_uri (strip_req plain_http q) = pq_uri q" for q by (simp add: strip_req_def hopHeaders_def plain_http_def)
  then have rq: "request_of plain_http (strip_req plain_http sample_http_request) = sample_request ''bearer x''"
    using v by (simp add: request_of_def) (simp add: plain_http_def sample_http_request_def sample_request_def)
  obtain st1 where st1: "handleRequestRoute sample_route_env (sample_request ''bearer x'') sample_router =
      Some (Ret (Inr (route_to ''/user/login'' sample_target), st1))"
    using sample_routed by blast
  have ok: "fst (fst (forward sample_route_env plain_http ro q p st)) = None" for ro q p st
    by (simp add: forward_def exchange_def env_call_def plain_http_def split: prod.splits)
  obtain p' st' where "forward sample_route_env plain_http (route_to ''/user/login'' sample_target) (strip_req plain_http sample_http_request)
      \<lparr>pp_headers = [], pp_status = 200, pp_body = []\<rparr> st1 = ((None, p'), st')"
    using ok by (metis prod.collapse)
  then show ?thesis using st1 rq by (simp add: trafficOutReverseFastHTTPClientHandler_def bind_run_def)
qed

text \<open>C7. An outgoing request that does not go to the gateway is refused with 404 and the reason when it is not routed; otherwise exactly one request
  is sent: to the scheme and host of its route, which the library puts into lower case (what it does with empty ones
  is left open), and to its path, which the library normalises, without any header of one hop, with the application headers
  of the route behind those the client gave under these names, and with all its other headers but the host. What
  comes back loses its headers of one hop, and an error is answered with 500.\<close>

theorem outgoing_request:
  assumes "header_law hp" "uri_law hp" "visit_law (re_world re)"
    "trafficOutReverseFastHTTPClientHandler re hp pr False q p st = Some (Ret ((err, p'), st'))"
  shows "(\<exists>e. handleRequestRoute re (request_of hp (strip_req hp q)) st = Some (Ret (Inl e, st')) \<and> err = Some e \<and> p' = fail_with hp 404 e p) \<or>
    (\<exists>ro st1 q' e e' p0. handleRequestRoute re (request_of hp (strip_req hp q)) st = Some (Ret (Inr ro, st1)) \<and>
       client_do hp q' p e = ((err, p0), e') \<and> st' = st1\<lparr>rt_cluster := (fst (rt_cluster st1), e')\<rparr> \<and>
       (ro_host ro \<noteq> [] \<longrightarrow> req_host hp q' = ToLower (ro_host ro)) \<and> (ro_scheme ro \<noteq> [] \<longrightarrow> req_scheme hp q' = ToLower (ro_scheme ro)) \<and>
       req_path hp q' = norm_path hp (ro_path ro) \<and>
       (\<forall>h. hop_name h \<longrightarrow> req_all hp h q' = []) \<and>
       (\<forall>h. \<not> hop_name h \<and> \<not> same_name h ''Host'' \<and> (\<forall>k \<in> set app_headers. \<not> same_name h k) \<longrightarrow> req_all hp h q' = req_all hp h q) \<and>
       (\<forall>(k, v) \<in> set (ro_header ro). req_all hp k q' = req_all hp k q @ [v]) \<and>
       (case err of None \<Rightarrow> \<forall>h. res_all hp h p' = (if hop_name h then [] else res_all hp h p0)
        | Some x \<Rightarrow> p' = fail_with hp 500 x p0))"
proof -
  let ?rq = "request_of hp (strip_req hp q)"
  obtain r st1 where r: "handleRequestRoute re ?rq st = Some (Ret (r, st1))"
      and out: "(case r of Inl e \<Rightarrow> Some (Ret ((Some e, fail_with hp 404 e p), st1))
        | Inr ro \<Rightarrow> Some (Ret (forward re hp ro (strip_req hp q) p st1))) = Some (Ret ((err, p'), st'))"
    using assms(4) by (auto simp: trafficOutReverseFastHTTPClientHandler_def Let_def elim!: bind_run_Ret)
  show ?thesis
  proof (cases r)
    case (Inl e)
    then show ?thesis using r out by auto
  next
    case (Inr ro)
    then have f: "forward re hp ro (strip_req hp q) p st1 = ((err, p'), st')" using out by simp
    have hs: "map fst (ro_header ro) = app_headers" using r Inr by (auto intro: route_headers(1))
    then have names: "fst ` set (ro_header ro) = set app_headers" by (metis set_map)
    obtain q' e e' p0 where s: "client_do hp q' p e = ((err, p0), e')" "st' = st1\<lparr>rt_cluster := (fst (rt_cluster st1), e')\<rparr>"
        "p' = (case err of None \<Rightarrow> strip_res hp p0 | Some x \<Rightarrow> fail_with hp 500 x p0)"
        "sent_to hp ro q'"
        "\<forall>h. (\<forall>k \<in> set app_headers. \<not> same_name h k) \<and> \<not> same_name h ''Host'' \<longrightarrow> req_all hp h q' = req_all hp h (strip_req hp q)"
        "\<forall>(k, v) \<in> set (ro_header ro). req_all hp k q' = req_all hp k (strip_req hp q) @ [v]"
      using forward_sends [OF assms(1-3) hs f] by blast
    have "req_all hp k q' = req_all hp k q @ [v]" if "(k, v) \<in> set (ro_header ro)" for k v
    proof -
      have "k \<in> set app_headers" using that names by force
      then show ?thesis using s(6) that strip_req_all [OF assms(1)] app_header_names(1) by auto
    qed
    moreover have "req_all hp h q' = []" if "hop_name h" for h
      using s(5) that strip_req_all [OF assms(1)] app_hop not_host(1) by auto
    ultimately show ?thesis
      using r Inr s(1-3,5) s(4) [unfolded sent_to_def] strip_req_all [OF assms(1)] strip_res_all [OF assms(1)] by (intro disjI2 exI [of _ ro] exI [of _ st1] exI [of _ q'] exI [of _ e] exI [of _ e'] exI [of _ p0]) (auto split: option.splits)
  qed
qed

lemma outgoing_request_witness:
  "\<exists>q' v. req_all plain_http ''Connection'' q' = [] \<and> req_all plain_http ''x-appid'' q' = [''me'', v]"
proof -
  obtain p' st' where o: "trafficOutReverseFastHTTPClientHandler sample_route_env plain_http \<lparr>TargetAddress = [], TargetType = []\<rparr> False
     sample_http_request \<lparr>pp_headers = [], pp_status = 200, pp_body = []\<rparr> sample_router = Some (Ret ((None, p'), st'))"
    using sample_outgoing by blast
  have v: "visit_law (re_world sample_route_env)"
    by (simp add: visit_law_def sample_route_env_def routing_world_def scripted_world_def)
  have hop: "hop_name ''Connection''" by (simp add: hop_name_def hopHeaders_def same_name_def)
  have "values_of ''x-appid'' (pq_headers sample_http_request) = [''me'']" by code_simp
  then have me: "req_all plain_http ''x-appid'' sample_http_request = [''me'']" by (simp add: plain_http_def)
  from outgoing_request [OF plain_laws v o] obtain ro st1 q' where
    r: "handleRequestRoute sample_route_env (request_of plain_http (strip_req plain_http sample_http_request)) sample_router = Some (Ret (Inr ro, st1))"
    and q: "\<forall>h. hop_name h \<longrightarrow> req_all plain_http h q' = []"
      "\<forall>(k, v) \<in> set (ro_header ro). req_all plain_http k q' = req_all plain_http k sample_http_request @ [v]"
    by blast
  have "''x-appid'' \<in> fst ` set (ro_header ro)"
    using arg_cong [OF route_headers(1) [OF r], of set] by (simp add: app_headers_def)
  then obtain v where "(''x-appid'', v) \<in> set (ro_header ro)" by auto
  then show ?thesis using q me hop by (intro exI [of _ q'] exI [of _ v]) auto
qed

text \<open>What the receiver of a request takes for the application that sent it is what the client wrote, when it
  wrote the header itself: the one the proxy vouches for comes behind it.\<close>

lemma client_header_wins:
  assumes "header_law hp" "req_all hp k q \<noteq> []" "req_all hp k q' = req_all hp k q @ [v]"
  shows "req_peek hp k q' = req_peek hp k q"
  using assms by (cases "req_all hp k q") (simp_all add: header_law_def)

text \<open>To the gateway every request goes with the path the empty one is normalised to.\<close>

lemma gateway_drops_path:
  assumes "uri_law hp" "trafficOutReverseFastHTTPClientHandler re hp pr True q p st = Some (Ret (r, st'))"
  shows "\<exists>q' e. req_path hp q' = norm_path hp [] \<and> st' = st\<lparr>rt_cluster := (fst (rt_cluster st), snd (exchange hp q' p e))\<rparr> \<and> r = fst (exchange hp q' p e)"
proof -
  obtain hs :: "(bytes \<times> bytes) list" and e where hs: "map_range (re_world re) [] (snd (rt_cluster st)) = (hs, e)" by (metis surj_pair)
  have "hs = []" using hs by (auto simp: map_range_def split: prod.splits option.splits)
  let ?q = "add_headers hp hs (aimed hp (gateway_route pr) (set_host hp (TargetAddress pr) (strip_req hp q)))"
  have "req_path hp ?q = norm_path hp []"
    using aimed_simps(2) [OF assms(1), of "gateway_route pr"] \<open>hs = []\<close> by (simp add: add_headers_def gateway_route_def sent_to_def)
  moreover have "r = fst (exchange hp ?q p e)" "st' = st\<lparr>rt_cluster := (fst (rt_cluster st), snd (exchange hp ?q p e))\<rparr>"
    using assms(2) hs by (auto simp: trafficOutReverseFastHTTPClientHandler_def Let_def forward_def env_call_def gateway_route_def split: prod.splits)
  ultimately show ?thesis by blast
qed

text \<open>An incoming request is sent exactly once, to the configured address (in lower case), with its path and without any header of one hop; the scheme is the
  configured one if it is \<open>http\<close> or \<open>https\<close>, and the request's own otherwise.\<close>

theorem incoming_request:
  assumes "header_law hp" "uri_law hp" "trafficInFlowReverseFastHTTPClientHandler hp pr q p e = ((err, p'), e')"
  shows "\<exists>q' p0. client_do hp q' p e = ((err, p0), e') \<and> (TargetAddress pr \<noteq> [] \<longrightarrow> req_host hp q' = ToLower (TargetAddress pr)) \<and> req_path hp q' = req_path hp q \<and>
     req_scheme hp q' = (if TargetType pr \<in> {''http'', ''https''} then TargetType pr else req_scheme hp q) \<and>
     (\<forall>h. \<not> same_name h ''Host'' \<longrightarrow> req_all hp h q' = (if hop_name h then [] else req_all hp h q)) \<and>
     (case err of None \<Rightarrow> \<forall>h. res_all hp h p' = (if hop_name h then [] else res_all hp h p0)
      | Some x \<Rightarrow> p' = fail_with hp 500 x p0)"
proof -
  let ?q1 = "set_host hp (TargetAddress pr) (strip_req hp q)"
  let ?q = "if TargetType pr = ''https'' then set_scheme hp ''https'' ?q1 else if TargetType pr = ''http'' then set_scheme hp ''http'' ?q1 else ?q1"
  have x: "exchange hp ?q p e = ((err, p'), e')"
    using assms(3) by (simp only: trafficInFlowReverseFastHTTPClientHandler_def Let_def)
  obtain p0 where d: "client_do hp ?q p e = ((err, p0), e')" "p' = (case err of None \<Rightarrow> strip_res hp p0 | Some x \<Rightarrow> fail_with hp 500 x p0)"
    using x unfolding exchange_answer by (auto split: prod.splits)
  have low: "ToLower ''http'' = ''http''" "ToLower ''https'' = ''https''" by code_simp+
  have "TargetAddress pr \<noteq> [] \<longrightarrow> req_host hp ?q = ToLower (TargetAddress pr)" "req_path hp ?q = req_path hp q"
      "req_scheme hp ?q = (if TargetType pr \<in> {''http'', ''https''} then TargetType pr else req_scheme hp q)"
    using assms(2) strip_req_uri [OF assms(2)] by (simp_all add: uri_law_def low)
  moreover have "req_all hp h ?q = (if hop_name h then [] else req_all hp h q)" if "\<not> same_name h ''Host''" for h
    using assms(1) strip_req_all [OF assms(1)] that by (simp add: header_law_def)
  moreover have "case err of None \<Rightarrow> \<forall>h. res_all hp h p' = (if hop_name h then [] else res_all hp h p0) | Some x \<Rightarrow> p' = fail_with hp 500 x p0"
    using d(2) strip_res_all [OF assms(1)] by (simp split: option.split)
  ultimately show ?thesis using d(1) by blast
qed

lemma incoming_request_witness:
  "\<exists>q'. req_host plain_http q' = ''back:80'' \<and> req_scheme plain_http q' = ''https'' \<and> req_all plain_http ''Connection'' q' = []"
proof -
  have hop: "hop_name ''Connection''" by (simp add: hop_name_def hopHeaders_def same_name_def)
  have low: "ToLower ''Back:80'' = ''back:80''" by code_simp
  have host: "\<not> same_name ''Connection'' ''Host''" using not_host(1) [OF hop] .
  obtain err p' e' where "trafficInFlowReverseFastHTTPClientHandler plain_http \<lparr>TargetAddress = ''Back:80'', TargetType = ''https''\<rparr>
      sample_http_request \<lparr>pp_headers = [], pp_status = 200, pp_body = []\<rparr> (5, []) = ((err, p'), e')"
    by (metis surj_pair)
  from incoming_request [OF plain_laws this] show ?thesis using hop host low by auto
qed

end
