(* ===== verification/Service_Car.thy ===== *)
theory Service_Car
  imports Config Traffic_Route Log_Filter
begin

text \<open>
  Putting the program together (\<open>sc/sc.go\<close>): the clients, the cache, the network services and the filter are
  made from the configuration, in the order of the code, and the first error ends the program. What starts in the
  background here is modelled where it runs. The client of the time series and the certificates are parameters.
\<close>

section \<open>Settings\<close>

text \<open>\<open>time.Millisecond * time.Duration(x)\<close> and its like.\<close>

definition millis :: "int \<Rightarrow> int" where "millis x = int64 (1000000 * x)"
definition secs :: "int \<Rightarrow> int" where "secs x = int64 (1000000000 * x)"

definition redis_options :: "redis_cluster_conf \<Rightarrow> cluster_options" where
  "redis_options c = \<lparr>StartNodes = SplitByte (CHR '','') (rc_StartNodes c), ConnTimeout = millis (rc_ConnTimeOut c),
     ReadTimeout = millis (rc_ConnReadTimeOut c), WriteTimeout = millis (rc_ConnWriteTimeOut c), KeepAlive = rc_ConnPoolSize c,
     AliveTime = secs (rc_ConnAliveTimeOut c), SlaveOperateRate = rc_SlaveOperateRate c,
     ClusterUpdateHeartbeat = rc_ClusterUpdateHeartbeat c\<rparr>"

definition sc_cache :: "int \<Rightarrow> memory_cache_conf \<Rightarrow> cache" where
  "sc_cache now c = New now (millis (mc_DefaultExpiration c)) (secs (mc_CleanupInterval c)) (mc_MaxItemsCount c)"

definition gateway_options :: "gateway_conf \<Rightarrow> proxy_options" where
  "gateway_options c = \<lparr>po_ProtocolType = ToLower (gw_ProtocolType c), po_TargetAddress = gw_TargetAddress c,
     po_TargetDialTimeout = millis (gw_TargetDialTimeout c), po_TargetKeepAlive = secs (gw_TargetKeepAlive c),
     po_TargetIdleConnTimeout = secs (gw_TargetIdleConnTimeout c), po_TargetMaxIdleConnsPerHost = gw_TargetMaxIdleConnsPerHost c\<rparr>"

definition inflow_options :: "traffic_inflow_conf \<Rightarrow> proxy_options" where
  "inflow_options c = \<lparr>po_ProtocolType = ToLower (ti_TargetProtocolType c), po_TargetAddress = ti_TargetAddress c,
     po_TargetDialTimeout = millis (ti_TargetDialTimeout c), po_TargetKeepAlive = secs (ti_TargetKeepAlive c),
     po_TargetIdleConnTimeout = secs (ti_TargetIdleConnTimeout c), po_TargetMaxIdleConnsPerHost = ti_TargetMaxIdleConnsPerHost c\<rparr>"

section \<open>The service\<close>

text \<open>\<open>se_logger\<close> is \<open>loggerInit\<close>, \<open>se_influx\<close> makes the client of the time series, \<open>se_mtls\<close> is \<open>newMTLS\<close>, \<open>se_sleep\<close>
  waits for seconds, and \<open>se_tls\<close> is \<open>NewSidecarTLSServer\<close>.\<close>

record ('e, 'r, 'w) sc_env =
  se_conf :: conf_env
  se_world :: "('e, 'r, 'w) world"
  se_logger :: "'e \<Rightarrow> go_error option \<times> 'e"
  se_influx :: "influxdb_conf \<Rightarrow> 'e \<Rightarrow> go_error option \<times> 'e"
  se_mtls :: "'e \<Rightarrow> go_error option \<times> 'e"
  se_sleep :: "int \<Rightarrow> 'e \<Rightarrow> 'e"
  se_tls :: "'e \<Rightarrow> go_error option \<times> 'e"

record ('r, 'w, 'l) service_car =
  sv_Confer :: sc_conf
  sv_RedisCluster :: "('r, 'w) cluster option"
  sv_LogRedisCluster :: "('r, 'w) cluster"
  sv_Cache :: cache
  sv_TrafficIn :: nws
  sv_TrafficOut :: nws
  sv_IsTrafficOutToGateWay :: bool
  sv_Filter :: "'l log_filter"

text \<open>\<open>ConfigLogInit\<close>: without a name of the application the default configuration is made, through a nil pointer.\<close>

definition ConfigLogInit :: "('e, 'r, 'w) sc_env \<Rightarrow> app_conf \<Rightarrow> 'e \<Rightarrow> (go_error option \<times> 'e) outcome" where
  "ConfigLogInit se app e = (if length (ap_AppName app) = 0 then Panic nil_deref else Ret (se_logger se e))"

text \<open>The retries of \<open>StartTLSConn\<close>; \<open>None\<close> when they never succeed.\<close>

definition retry_seconds :: "nat \<Rightarrow> int" where
  "retry_seconds n = (if int n * 5 > 120 then 120 else int n * 5)"

partial_function (option) tls_loop :: "('e, 'r, 'w) sc_env \<Rightarrow> nat \<Rightarrow> 'e \<Rightarrow> 'e option" where
  "tls_loop se retry e = (case se_mtls se e of
     (None, e) \<Rightarrow> Some e
   | (Some _, e) \<Rightarrow> tls_loop se (Suc retry) (se_sleep se (retry_seconds (Suc retry)) e))"

definition StartTLSConn :: "('e, 'r, 'w) sc_env \<Rightarrow> 'e \<Rightarrow> 'e option" where
  "StartTLSConn se e = tls_loop se 0 e"

definition sc_cluster :: "('e, 'r, 'w) sc_env \<Rightarrow> redis_cluster_conf \<Rightarrow> 'e \<Rightarrow> ((go_error + ('r, 'w) cluster option) \<times> 'e) outcome" where
  "sc_cluster se c e = (if rc_Enable c
     then bind_outcome (NewCluster (se_world se) (redis_options c) e) (\<lambda>(r, e). Ret (map_sum id Some r, e))
     else Ret (Inr None, e))"

text \<open>The last part: the time series and the certificates.\<close>

definition sc_finish :: "('e, 'r, 'w) sc_env \<Rightarrow> ('r, 'w, 'l) service_car \<Rightarrow> 'e \<Rightarrow> ((go_error + ('r, 'w, 'l) service_car) \<times> 'e) outcome option" where
  "sc_finish se sv e = (case (if ix_Enable (co_InfluxDBConf (sv_Confer sv)) then se_influx se (co_InfluxDBConf (sv_Confer sv)) e else (None, e)) of
     (Some err, e) \<Rightarrow> Some (Ret (Inl err, e))
   | (None, e) \<Rightarrow> (if ca_Enable (co_CaConfig (sv_Confer sv))
       then (case StartTLSConn se e of
           None \<Rightarrow> None
         | Some e \<Rightarrow> (case se_tls se e of (Some err, e) \<Rightarrow> Some (Ret (Inl err, e)) | (None, e) \<Rightarrow> Some (Ret (Inr sv, e))))
       else Some (Ret (Inr sv, e))))"

definition sc_filter :: "sc_conf \<Rightarrow> 'l log_filter" where
  "sc_filter c = GetNewFilter (fc_Enable (co_Filter c)) (co_MSP c @ fc_RuleDataURLPath (co_Filter c))
     (fc_RuleUpdateHeartBeat (co_Filter c)) (fc_RuleHTTPRequestTimeout (co_Filter c)) (co_RateLimiter c)"

text \<open>The cache is switched on here, after the configuration was checked.\<close>

definition force_cache :: "sc_conf \<Rightarrow> sc_conf" where
  "force_cache c = c\<lparr>co_MemoryCacheConf := (co_MemoryCacheConf c)\<lparr>mc_Enable := True\<rparr>\<rparr>"

definition sc_services :: "('e, 'r, 'w) sc_env \<Rightarrow> sc_conf \<Rightarrow> go_error + nws \<times> nws" where
  "sc_services se c = (case GetNewNetWorker (ce_net (se_conf se)) 7 (l7_ProtocolType (co_L7NetConf c)) (l7_BindNetwork (co_L7NetConf c))
       (l7_BindAddress (co_L7NetConf c)) (gateway_options (co_GateWay c)) of
     Inl err \<Rightarrow> Inl err
   | Inr out \<Rightarrow> (case GetNewNetWorker (ce_net (se_conf se)) 7 (ti_BindProtocolType (co_TrafficInflow c)) (ti_BindNetWork (co_TrafficInflow c))
       (ti_BindAddress (co_TrafficInflow c)) (inflow_options (co_TrafficInflow c)) of
     Inl err \<Rightarrow> Inl err
   | Inr inflow \<Rightarrow> Inr (out, inflow)))"

text \<open>From the services on, with the cache made at \<open>now\<close>.\<close>

definition sc_rest :: "('e, 'r, 'w) sc_env \<Rightarrow> sc_conf \<Rightarrow> ('r, 'w) cluster option \<Rightarrow> int \<Rightarrow> 'e
    \<Rightarrow> ((go_error + ('r, 'w, 'l) service_car) \<times> 'e) outcome option" where
  "sc_rest se c cl now e = (case sc_services se c of
     Inl err \<Rightarrow> Some (Ret (Inl err, e))
   | Inr (out, inflow) \<Rightarrow>
       bind_run (Some (NewCluster (se_world se) (redis_options (lg_LogRedisClusterConf (co_Log c))) e)) (\<lambda>(r, e). case r of
         Inl err \<Rightarrow> Some (Ret (Inl err, e))
       | Inr lcl \<Rightarrow> bind_run (Some (ConfigLogInit se (co_AppInfo c) e)) (\<lambda>(err, e). case err of
           Some err \<Rightarrow> Some (Ret (Inl err, e))
         | None \<Rightarrow> sc_finish se \<lparr>sv_Confer = c, sv_RedisCluster = cl, sv_LogRedisCluster = lcl,
             sv_Cache = sc_cache now (co_MemoryCacheConf c), sv_TrafficIn = inflow, sv_TrafficOut = out,
             sv_IsTrafficOutToGateWay = gw_Enable (co_GateWay c), sv_Filter = sc_filter c\<rparr> e)))"

definition GetNewServiceCar :: "('e, 'r, 'w) sc_env \<Rightarrow> bytes \<Rightarrow> 'e \<Rightarrow> ((go_error + ('r, 'w, 'l) service_car) \<times> 'e) outcome option" where
  "GetNewServiceCar se file e = (case GetNewConfer (se_conf se) file of
     (_, Some err) \<Rightarrow> Some (Ret (Inl err, e))
   | (c, None) \<Rightarrow> bind_run (Some (sc_cluster se (co_RedisClusterConf c) e)) (\<lambda>(r, e). case r of
       Inl err \<Rightarrow> Some (Ret (Inl err, e))
     | Inr cl \<Rightarrow> (case net_now (w_net (se_world se)) e of (now, e) \<Rightarrow> sc_rest se (force_cache c) cl now e)))"

section \<open>The retries\<close>

text \<open>The environment after \<open>n\<close> attempts, each followed by its pause.\<close>

fun tls_after :: "('e, 'r, 'w) sc_env \<Rightarrow> nat \<Rightarrow> nat \<Rightarrow> 'e \<Rightarrow> 'e" where
  "tls_after se r 0 e = e"
| "tls_after se r (Suc n) e = tls_after se (Suc r) n (se_sleep se (retry_seconds (Suc r)) (snd (se_mtls se e)))"

definition tls_fails :: "('e, 'r, 'w) sc_env \<Rightarrow> nat \<Rightarrow> nat \<Rightarrow> 'e \<Rightarrow> bool" where
  "tls_fails se r n e \<longleftrightarrow> (\<forall>k < n. fst (se_mtls se (tls_after se r k e)) \<noteq> None)"

lemma tls_fails_Suc: "tls_fails se r (Suc n) e \<longleftrightarrow>
    fst (se_mtls se e) \<noteq> None \<and> tls_fails se (Suc r) n (se_sleep se (retry_seconds (Suc r)) (snd (se_mtls se e)))"
  by (auto simp: tls_fails_def less_Suc_eq_0_disj)

lemma tls_loop_succeeds:
  "tls_fails se r n e \<Longrightarrow> se_mtls se (tls_after se r n e) = (None, e') \<Longrightarrow> tls_loop se r e = Some e'"
proof (induction n arbitrary: r e)
  case 0
  then show ?case by (simp add: tls_loop.simps)
next
  case (Suc n)
  obtain x e1 where x: "se_mtls se e = (Some x, e1)" using Suc.prems(1) by (metis not_None_eq prod.collapse tls_fails_Suc)
  then show ?case using Suc by (subst tls_loop.simps) (simp add: tls_fails_Suc)
qed

lemma tls_loop_Some:
  assumes "tls_loop se r e = Some e'"
  shows "\<exists>n. tls_fails se r n e \<and> se_mtls se (tls_after se r n e) = (None, e')"
proof (rule tls_loop.raw_induct [OF _ assms, where P = "\<lambda>se r e e'. \<exists>n. tls_fails se r n e \<and> se_mtls se (tls_after se r n e) = (None, e')"])
  fix loop :: "('e, 'r, 'w) sc_env \<Rightarrow> nat \<Rightarrow> 'e \<Rightarrow> 'e option" and se :: "('e, 'r, 'w) sc_env" and r e e'
  assume IH: "\<And>se r e e'. loop se r e = Some e' \<Longrightarrow> \<exists>n. tls_fails se r n e \<and> se_mtls se (tls_after se r n e) = (None, e')"
    and body: "(case se_mtls se e of (None, e) \<Rightarrow> Some e
       | (Some _, e) \<Rightarrow> loop se (Suc r) (se_sleep se (retry_seconds (Suc r)) e)) = Some e'"
  obtain x e1 where x: "se_mtls se e = (x, e1)" by (metis surj_pair)
  show "\<exists>n. tls_fails se r n e \<and> se_mtls se (tls_after se r n e) = (None, e')"
  proof (cases x)
    case None
    then show ?thesis using x body by (intro exI [of _ 0]) (simp add: tls_fails_def)
  next
    case (Some err)
    then obtain n where "tls_fails se (Suc r) n (se_sleep se (retry_seconds (Suc r)) e1)"
        "se_mtls se (tls_after se (Suc r) n (se_sleep se (retry_seconds (Suc r)) e1)) = (None, e')"
      using IH x body by fastforce
    then show ?thesis using x Some by (intro exI [of _ "Suc n"]) (simp add: tls_fails_Suc)
  qed
qed

section \<open>Properties\<close>

text \<open>The certificates are tried for until they come: the start goes on exactly when some attempt succeeds, in the state the first
  successful attempt leaves, and otherwise never ends; the pauses grow by five seconds to at most two minutes.\<close>

theorem tls_retries:
  "(StartTLSConn se e = Some e' \<longleftrightarrow> (\<exists>n. tls_fails se 0 n e \<and> se_mtls se (tls_after se 0 n e) = (None, e'))) \<and>
   (StartTLSConn se e = None \<longleftrightarrow> (\<forall>n. tls_fails se 0 n e)) \<and> retry_seconds n \<le> 120"
proof (intro conjI)
  show ends: "StartTLSConn se e = Some e' \<longleftrightarrow> (\<exists>n. tls_fails se 0 n e \<and> se_mtls se (tls_after se 0 n e) = (None, e'))" for e'
    unfolding StartTLSConn_def using tls_loop_succeeds tls_loop_Some by metis
  show "StartTLSConn se e = None \<longleftrightarrow> (\<forall>n. tls_fails se 0 n e)"
  proof
    assume none: "StartTLSConn se e = None"
    show "\<forall>n. tls_fails se 0 n e"
    proof
      fix n show "tls_fails se 0 n e"
      proof (induction n)
        case (Suc n)
        obtain x e1 where "se_mtls se (tls_after se 0 n e) = (x, e1)" by (metis surj_pair)
        then show ?case using Suc none ends [of e1] by (cases x) (fastforce simp: tls_fails_def less_Suc_eq)+
      qed (simp add: tls_fails_def)
    qed
  next
    assume "\<forall>n. tls_fails se 0 n e"
    then have "fst (se_mtls se (tls_after se 0 n e)) \<noteq> None" for n by (auto simp: tls_fails_def)
    then show "StartTLSConn se e = None" using ends by (metis fst_conv not_None_eq)
  qed
  show "retry_seconds n \<le> 120" by (simp add: retry_seconds_def)
qed

lemma sc_cache_janitor:
  assumes "0 < mc_CleanupInterval c" "mc_CleanupInterval c \<le> 9223372036"
  shows "c_janitor (sc_cache now c) \<noteq> None" "items (sc_cache now c) = []" "maxItemsCount (sc_cache now c) = mc_MaxItemsCount c"
proof -
  have "secs (mc_CleanupInterval c) > 0" using assms by (simp add: secs_def in_int64_def)
  then show "c_janitor (sc_cache now c) \<noteq> None" "items (sc_cache now c) = []" "maxItemsCount (sc_cache now c) = mc_MaxItemsCount c"
    by (simp_all add: sc_cache_def New_def newCacheWithJanitor_def newCache_def Let_def)
qed

lemma sc_finish_same: "sc_finish se sv e = Some (Ret (Inr sv', e')) \<Longrightarrow> sv' = sv"
  by (auto simp: sc_finish_def split: prod.splits option.splits if_splits)

lemma sc_rest_parts:
  assumes "sc_rest se c cl now e = Some (Ret (Inr sv, e'))"
  obtains e1 e2 where "sv_Confer sv = c" "sc_services se c = Inr (sv_TrafficOut sv, sv_TrafficIn sv)" "sv_RedisCluster sv = cl"
    "NewCluster (se_world se) (redis_options (lg_LogRedisClusterConf (co_Log c))) e1 = Ret (Inr (sv_LogRedisCluster sv), e2)"
    "sv_Cache sv = sc_cache now (co_MemoryCacheConf c)" "ap_AppName (co_AppInfo c) \<noteq> []" "sv_Filter sv = sc_filter c"
proof -
  obtain out inflow where s: "sc_services se c = Inr (out, inflow)"
    using assms by (cases "sc_services se c") (auto simp: sc_rest_def)
  obtain r e1 where r: "NewCluster (se_world se) (redis_options (lg_LogRedisClusterConf (co_Log c))) e = Ret (r, e1)"
    using assms s by (auto simp: sc_rest_def elim!: bind_run_Ret)
  obtain lcl where l: "r = Inr lcl" using assms s r by (cases r) (auto simp: sc_rest_def bind_run_def)
  have app: "ap_AppName (co_AppInfo c) \<noteq> []" using assms s r l by (auto simp: sc_rest_def bind_run_def ConfigLogInit_def)
  obtain err e2 where g: "se_logger se e1 = (err, e2)" by (metis surj_pair)
  have "err = None" using assms s r l app g by (cases err) (auto simp: sc_rest_def bind_run_def ConfigLogInit_def)
  then have "sc_finish se \<lparr>sv_Confer = c, sv_RedisCluster = cl, sv_LogRedisCluster = lcl,
      sv_Cache = sc_cache now (co_MemoryCacheConf c), sv_TrafficIn = inflow, sv_TrafficOut = out,
      sv_IsTrafficOutToGateWay = gw_Enable (co_GateWay c), sv_Filter = sc_filter c\<rparr> e2 = Some (Ret (Inr sv, e'))"
    using assms s r l app g by (simp add: sc_rest_def bind_run_def ConfigLogInit_def)
  from sc_finish_same [OF this] show ?thesis using that s r l app by simp
qed

lemma GetNewServiceCar_parts:
  assumes "GetNewServiceCar se file e = Some (Ret (Inr sv, e'))"
  obtains c cl now e1 where "GetNewConfer (se_conf se) file = (c, None)" "sc_rest se (force_cache c) cl now e1 = Some (Ret (Inr sv, e'))"
proof -
  obtain c err where c: "GetNewConfer (se_conf se) file = (c, err)" by (metis surj_pair)
  have none: "err = None" using assms c by (cases err) (auto simp: GetNewServiceCar_def)
  then obtain r e0 where r: "sc_cluster se (co_RedisClusterConf c) e = Ret (r, e0)"
    using assms c by (auto simp: GetNewServiceCar_def elim!: bind_run_Ret)
  obtain cl where cl: "r = Inr cl" using assms c r none by (cases r) (auto simp: GetNewServiceCar_def bind_run_def)
  obtain now e1 where now: "net_now (w_net (se_world se)) e0 = (now, e1)" by (metis surj_pair)
  have "sc_rest se (force_cache c) cl now e1 = Some (Ret (Inr sv, e'))"
    using assms c none r cl now by (simp add: GetNewServiceCar_def bind_run_def)
  then show ?thesis using that c none by blast
qed

lemma sc_services_ok:
  assumes "sc_services se c = Inr (out, inflow)" "n \<in> {out, inflow}"
  shows "serverType n \<in> {HTTPSERVER, RESPSERVER} \<and> (serverType n = HTTPSERVER \<longleftrightarrow> HTTPReverseServer n \<noteq> None)"
proof -
  obtain proto bind addr po where "GetNewNetWorker (ce_net (se_conf se)) 7 proto bind addr po = Inr n"
    using assms by (auto simp: sc_services_def split: sum.splits)
  from networker_ok [OF this] show ?thesis by auto
qed

text \<open>C19. A program that has started is in order: its configuration has no error and a name for the application, both
  its services are of a kind it can start, with a proxy exactly where it is needed, its log cluster has been reached, and its
  cache is empty and has the routine without which writing to a full cache would panic.\<close>

theorem started_service:
  assumes "GetNewServiceCar se file e = Some (Ret (Inr sv, e'))" "mc_CleanupInterval (co_MemoryCacheConf (sv_Confer sv)) \<le> 9223372036"
  shows "(\<exists>c. GetNewConfer (se_conf se) file = (c, None) \<and> sv_Confer sv = force_cache c) \<and>
    ap_AppName (co_AppInfo (sv_Confer sv)) \<noteq> [] \<and>
    (\<forall>n \<in> {sv_TrafficOut sv, sv_TrafficIn sv}. serverType n \<in> {HTTPSERVER, RESPSERVER} \<and> (serverType n = HTTPSERVER \<longleftrightarrow> HTTPReverseServer n \<noteq> None)) \<and>
    (\<exists>e1 e2. NewCluster (se_world se) (redis_options (lg_LogRedisClusterConf (co_Log (sv_Confer sv)))) e1 = Ret (Inr (sv_LogRedisCluster sv), e2)) \<and>
    items (sv_Cache sv) = [] \<and>
    (\<forall>now listening k x d. \<exists>c. Memory_Cache.Set now listening k x d (sv_Cache sv) = Ret c \<and> c_janitor c \<noteq> None)"
proof -
  obtain c cl now e1 where c: "GetNewConfer (se_conf se) file = (c, None)" "sc_rest se (force_cache c) cl now e1 = Some (Ret (Inr sv, e'))"
    by (rule GetNewServiceCar_parts [OF assms(1)])
  obtain e2 e3 where p: "sv_Confer sv = force_cache c" "sc_services se (force_cache c) = Inr (sv_TrafficOut sv, sv_TrafficIn sv)"
    "NewCluster (se_world se) (redis_options (lg_LogRedisClusterConf (co_Log (force_cache c)))) e2 = Ret (Inr (sv_LogRedisCluster sv), e3)"
    "sv_Cache sv = sc_cache now (co_MemoryCacheConf (force_cache c))" "ap_AppName (co_AppInfo (force_cache c)) \<noteq> []"
    using sc_rest_parts [OF c(2)] by metis
  have "10 \<le> mc_CleanupInterval (co_MemoryCacheConf c)" using config_ok [OF c(1)] by auto
  then have j: "c_janitor (sv_Cache sv) \<noteq> None" "items (sv_Cache sv) = []"
    using sc_cache_janitor [of "co_MemoryCacheConf (force_cache c)" now] assms(2) p(1,4) by (simp_all add: force_cache_def)
  have "\<exists>c. Memory_Cache.Set now listening k x d (sv_Cache sv) = Ret c \<and> c_janitor c \<noteq> None" for now listening k x d
    using j(1) by (auto simp: Set_def ShoudClean_def Let_def)
  moreover have "\<forall>n \<in> {sv_TrafficOut sv, sv_TrafficIn sv}. serverType n \<in> {HTTPSERVER, RESPSERVER} \<and>
      (serverType n = HTTPSERVER \<longleftrightarrow> HTTPReverseServer n \<noteq> None)"
    using sc_services_ok [OF p(2)] by blast
  ultimately show ?thesis unfolding p(1) using c(1) p(3,5) j(2) by blast
qed

definition sample_sc_env :: "(int \<times> nat list, breader, bwriter) sc_env" where
  "sample_sc_env = \<lparr>se_conf = sample_conf_env,
     se_world = scripted_world (reply_wire (slots_reply sample_lines)), se_logger = Pair None, se_influx = (\<lambda>_. Pair None),
     se_mtls = Pair None, se_sleep = (\<lambda>_ e. e), se_tls = Pair None\<rparr>"

lemma resp_service: "\<exists>n. GetNewNetWorker ne 7 ''resp'' ''unix'' addr po = Inr n"
proof -
  have "ToUpper ''resp'' = ''RESP''" "ToLower ''unix'' = ''unix''" by code_simp+
  then show ?thesis by (simp add: GetNewNetWorker_def protocol_of_def bind_network_of_def bind_host_port_def server_of_def)
qed

lemma started_sample:
  "\<exists>(sv :: (breader, bwriter, nat) service_car) e'. GetNewServiceCar sample_sc_env [] (5, []) = Some (Ret (Inr sv, e')) \<and>
     mc_CleanupInterval (co_MemoryCacheConf (sv_Confer sv)) = 10"
proof -
  obtain c where c: "GetNewConfer (se_conf sample_sc_env) [] = (c, None)" "co_L7NetConf c = co_L7NetConf sample_conf"
     "co_TrafficInflow c = co_TrafficInflow sample_conf" "\<not> rc_Enable (co_RedisClusterConf c)" "ap_AppName (co_AppInfo c) = ''proxy''"
     "rc_StartNodes (lg_LogRedisClusterConf (co_Log c)) = ''h:1''" "\<not> ix_Enable (co_InfluxDBConf c)" "\<not> ca_Enable (co_CaConfig c)"
     "mc_CleanupInterval (co_MemoryCacheConf c) = 10"
    using sample_confer by (auto simp: sample_sc_env_def)
  have kinds: "l7_ProtocolType (co_L7NetConf c) = ''resp''" "l7_BindNetwork (co_L7NetConf c) = ''unix''"
      "ti_BindProtocolType (co_TrafficInflow c) = ''resp''" "ti_BindNetWork (co_TrafficInflow c) = ''unix''"
    by (simp_all add: c(2,3) sample_conf_def)
  obtain out where out: "GetNewNetWorker (ce_net (se_conf sample_sc_env)) 7 ''resp'' ''unix'' (l7_BindAddress (co_L7NetConf c)) (gateway_options (co_GateWay c)) = Inr out"
    using resp_service by blast
  obtain inflow where inflow: "GetNewNetWorker (ce_net (se_conf sample_sc_env)) 7 ''resp'' ''unix'' (ti_BindAddress (co_TrafficInflow c))
      (inflow_options (co_TrafficInflow c)) = Inr inflow"
    using resp_service by blast
  have s: "sc_services sample_sc_env (force_cache c) = Inr (out, inflow)"
    using out inflow kinds by (simp add: sc_services_def force_cache_def)
  obtain lcl e' where l: "NewCluster (se_world sample_sc_env) (redis_options (lg_LogRedisClusterConf (co_Log c))) (5, []) = Ret (Inr lcl, e')"
    using scripted_NewCluster [of "redis_options (lg_LogRedisClusterConf (co_Log c))"] c(6) by (auto simp: redis_options_def sample_sc_env_def)
  have now: "net_now (w_net (se_world sample_sc_env)) (5, []) = (5, (5, []))"
    by (simp add: sample_sc_env_def scripted_world_def scripted_net_def sample_net_def)
  have log: "se_logger sample_sc_env e = (None, e)" for e by (simp add: sample_sc_env_def)
  obtain sv :: "(breader, bwriter, nat) service_car" and e1 where sv: "GetNewServiceCar sample_sc_env [] (5, []) = Some (Ret (Inr sv, e1))"
    using c s l now log
    by (simp add: GetNewServiceCar_def sc_cluster_def bind_run_def sc_rest_def ConfigLogInit_def sc_finish_def force_cache_def)
  have "mc_CleanupInterval (co_MemoryCacheConf (sv_Confer sv)) = 10"
  proof -
    have "\<exists>cl. sv_Confer sv = force_cache c"
      using sv c s l now log by (auto simp: GetNewServiceCar_def sc_cluster_def bind_run_def sc_rest_def ConfigLogInit_def sc_finish_def force_cache_def)
    then show ?thesis using c(9) by (simp add: force_cache_def)
  qed
  then show ?thesis using sv by blast
qed

lemma started_service_witness:
  "\<exists>(sv :: (breader, bwriter, nat) service_car) e'. GetNewServiceCar sample_sc_env [] (5, []) = Some (Ret (Inr sv, e')) \<and> items (sv_Cache sv) = []"
proof -
  obtain sv :: "(breader, bwriter, nat) service_car" and e' where sv: "GetNewServiceCar sample_sc_env [] (5, []) = Some (Ret (Inr sv, e'))"
      "mc_CleanupInterval (co_MemoryCacheConf (sv_Confer sv)) = 10"
    using started_sample by blast
  then show ?thesis using started_service [OF sv(1)] by auto
qed

text \<open>Without a name for the application the program panics, once its clusters and services are made.\<close>

lemma nameless_application_panics: "ap_AppName app = [] \<Longrightarrow> ConfigLogInit se app e = Panic nil_deref"
  by (simp add: ConfigLogInit_def)

text \<open>A cache that is off in the configuration is switched on with the size given there, which nothing bounds:
  without a size it is full from the start, and never holds an item.\<close>

lemma unsized_cache_holds_nothing:
  assumes "\<not> mc_Enable (co_MemoryCacheConf c)" "mc_MaxItemsCount (co_MemoryCacheConf c) \<le> 0"
    "Memory_Cache.Set now listening k x d (sc_cache t (cache_bounds (co_MemoryCacheConf c))) = Ret s"
  shows "items s = []"
proof -
  have n: "maxItemsCount (sc_cache t m) = mc_MaxItemsCount m" "items (sc_cache t m) = []" for m
    by (simp_all add: sc_cache_def New_def newCacheWithJanitor_def newCache_def Let_def)
  have "mc_MaxItemsCount (cache_bounds (co_MemoryCacheConf c)) \<le> 0" using assms(1,2) disabled_cache_unbounded by metis
  then have "IsReachMaxItemsCount (sc_cache t (cache_bounds (co_MemoryCacheConf c)))"
    by (simp add: IsReachMaxItemsCount_def ItemCount_def n)
  then show ?thesis using Set_cases [OF assms(3)] n by metis
qed

end
