(* ===== verification/Bare_Server.thy ===== *)
theory Bare_Server
  imports Networker
begin

text \<open>
  The server without a protocol of its own (\<open>utils/bareneter\<close>): listening, the loop that accepts connections, the
  routine of every connection, and closing. The loop, the routines and \<open>Close\<close> run side by side: they are the
  steps of a transition relation, one for each stretch of code between two points where others may come in between
  (the server's lock, the calls of the user's functions, \<open>Accept\<close>). The file system and the network are parameters.
\<close>

section \<open>Listening\<close>

record 'e os_env =
  os_missing :: "bytes \<Rightarrow> 'e \<Rightarrow> bool \<times> 'e"
  os_remove :: "bytes \<Rightarrow> 'e \<Rightarrow> go_error option \<times> 'e"
  os_chmod :: "bytes \<Rightarrow> nat \<Rightarrow> 'e \<Rightarrow> go_error option \<times> 'e"
  os_listen :: "bytes \<Rightarrow> bytes \<Rightarrow> bool \<Rightarrow> 'e \<Rightarrow> go_error option \<times> 'e"

definition RmUnixFile :: "'e os_env \<Rightarrow> bytes \<Rightarrow> bytes \<Rightarrow> 'e \<Rightarrow> go_error option \<times> 'e" where
  "RmUnixFile os net laddr e =
     (if net = ''unix'' then (case os_missing os laddr e of (missing, e) \<Rightarrow> if missing then (None, e) else os_remove os laddr e)
      else (None, e))"

definition ChmodUnixFile :: "'e os_env \<Rightarrow> bytes \<Rightarrow> bytes \<Rightarrow> nat \<Rightarrow> 'e \<Rightarrow> go_error option \<times> 'e" where
  "ChmodUnixFile os net laddr mode e =
     (if net = ''unix'' then (case os_missing os laddr e of (missing, e) \<Rightarrow> if missing then (None, e) else os_chmod os laddr mode e)
      else (None, e))"

text \<open>What \<open>ListenServeAndSignal\<close> does before it serves: an error it returns, or none and the loop starts. The second
  component is what was sent on the signal channel, if anything was; the third whether there is a listener.\<close>

definition prepare_listening :: "'e os_env \<Rightarrow> bytes \<Rightarrow> bytes \<Rightarrow> bool \<Rightarrow> 'e
    \<Rightarrow> (go_error option \<times> go_error option option \<times> bool) \<times> 'e" where
  "prepare_listening os net laddr tls e = (case RmUnixFile os net laddr e of
     (Some err, e) \<Rightarrow> ((Some err, None, False), e)
   | (None, e) \<Rightarrow> (case os_listen os net laddr tls e of
       (Some err, e) \<Rightarrow> ((Some err, Some (Some err), False), e)
     | (None, e) \<Rightarrow> (case ChmodUnixFile os net laddr 511 e of
         (Some err, e) \<Rightarrow> ((Some err, Some None, True), e)
       | (None, e) \<Rightarrow> ((None, Some None, True), e))))"

text \<open>The start of the HTTP servers (\<open>StartTrafficOutReverseHTTPServer\<close>, \<open>StartTrafficInflowHTTPServer\<close>): \<open>True\<close> when
  the listening call of \<open>fasthttp\<close>, whose error they drop, is reached.\<close>

definition start_http_server :: "'e os_env \<Rightarrow> bytes \<Rightarrow> bytes \<Rightarrow> 'e \<Rightarrow> (go_error option \<times> bool) \<times> 'e" where
  "start_http_server os net addr e =
     (if net = ''unix'' then (case os_missing os addr e of
        (True, e) \<Rightarrow> ((None, False), e)
      | (False, e) \<Rightarrow> (case os_remove os addr e of
          (Some err, e) \<Rightarrow> ((Some err, False), e)
        | (None, e) \<Rightarrow> ((None, True), e)))
      else ((None, net = ''tcp''), e))"

section \<open>Serving\<close>

datatype serve_loop = Accepting | Deciding nat | Stopped "go_error option"

text \<open>\<open>b_shut\<close> are the connections whose \<open>Close\<close> was called, which sets their flag; \<open>b_conns\<close> is nil after the
  loop. \<open>b_accepted\<close> and \<open>b_reported\<close> record, newest first, what \<open>Accept\<close> gave and the calls of the user's
  function for closed connections.\<close>

record bare =
  b_ln_open :: bool
  b_done :: bool
  b_conns :: "nat list option"
  b_loop :: serve_loop
  b_handlers :: "nat list"
  b_shut :: "nat list"
  b_accepted :: "nat list"
  b_reported :: "nat list"

definition serving :: bare where
  "serving = \<lparr>b_ln_open = True, b_done = False, b_conns = Some [], b_loop = Accepting, b_handlers = [], b_shut = [],
     b_accepted = [], b_reported = []\<rparr>"

definition take_conn :: "nat \<Rightarrow> bare \<Rightarrow> bare" where
  "take_conn c s = s\<lparr>b_conns := map_option ((#) c) (b_conns s), b_loop := Deciding c, b_accepted := c # b_accepted s\<rparr>"

definition admit_conn :: "nat \<Rightarrow> bare \<Rightarrow> bare" where
  "admit_conn c s = s\<lparr>b_loop := Accepting, b_handlers := c # b_handlers s\<rparr>"

definition refuse_conn :: "nat \<Rightarrow> bare \<Rightarrow> bare" where
  "refuse_conn c s = s\<lparr>b_loop := Accepting, b_conns := map_option (removeAll c) (b_conns s), b_shut := c # b_shut s\<rparr>"

text \<open>\<open>Accept\<close> fails: the loop ends, and its deferred function closes the listener and all connections of the
  table.\<close>

definition stop_serving :: "go_error \<Rightarrow> bare \<Rightarrow> bare" where
  "stop_serving err s = s\<lparr>b_loop := Stopped (if b_done s then None else Some err), b_ln_open := False,
     b_shut := (case b_conns s of None \<Rightarrow> [] | Some cs \<Rightarrow> cs) @ b_shut s, b_conns := None\<rparr>"

text \<open>One call of the user's handler, which may close the connection.\<close>

definition handler_turn :: "nat \<Rightarrow> bool \<Rightarrow> bare \<Rightarrow> bare" where
  "handler_turn c closes s = (if closes then s\<lparr>b_shut := c # b_shut s\<rparr> else s)"

text \<open>The end of a connection's routine; deleting from the nil map is no error.\<close>

definition handler_end :: "nat \<Rightarrow> bare \<Rightarrow> bare" where
  "handler_end c s = s\<lparr>b_handlers := removeAll c (b_handlers s), b_conns := map_option (removeAll c) (b_conns s),
     b_reported := c # b_reported s\<rparr>"

definition Close_server :: "bare \<Rightarrow> bare" where
  "Close_server s = s\<lparr>b_done := True, b_ln_open := False\<rparr>"

text \<open>The server has an \<open>accept\<close> and a \<open>closed\<close> function, as the program's has. \<open>Accept\<close> gives connections while the
  listener is open, and may fail at any time. A routine goes on until the flag of its connection is set.\<close>

inductive bare_step :: "bare \<Rightarrow> bare \<Rightarrow> bool" where
  accept_step: "b_loop s = Accepting \<Longrightarrow> b_ln_open s \<Longrightarrow> c \<notin> set (b_accepted s) \<Longrightarrow> bare_step s (take_conn c s)"
| admit_step: "b_loop s = Deciding c \<Longrightarrow> bare_step s (admit_conn c s)"
| refuse_step: "b_loop s = Deciding c \<Longrightarrow> bare_step s (refuse_conn c s)"
| fail_step: "b_loop s = Accepting \<Longrightarrow> bare_step s (stop_serving err s)"
| turn_step: "c \<in> set (b_handlers s) \<Longrightarrow> bare_step s (handler_turn c closes s)"
| end_step: "c \<in> set (b_handlers s) \<Longrightarrow> c \<in> set (b_shut s) \<Longrightarrow> bare_step s (handler_end c s)"
| close_step: "bare_step s (Close_server s)"

inductive bare_reaches :: "bare \<Rightarrow> bool" where
  start: "bare_reaches serving"
| step: "bare_reaches s \<Longrightarrow> bare_step s t \<Longrightarrow> bare_reaches t"

section \<open>The routine of a connection\<close>

text \<open>\<open>handle\<close> calls the user's handler again and again until the connection is closed.\<close>

partial_function (option) handle :: "('s \<Rightarrow> 's outcome option) \<Rightarrow> ('s \<Rightarrow> bool) \<Rightarrow> 's \<Rightarrow> 's outcome option" where
  "handle handler is_closed s = (case handler s of
     None \<Rightarrow> None
   | Some (Panic m) \<Rightarrow> Some (Panic m)
   | Some (Ret s') \<Rightarrow> if is_closed s' then Some (Ret s') else handle handler is_closed s')"

lemma handle_once:
  assumes "handler s = Some (Ret s')" "is_closed s'"
  shows "handle handler is_closed s = Some (Ret s')"
  using assms by (simp add: handle.simps)

section \<open>Invariant\<close>

text \<open>The connections the server is responsible for: those with a routine, and the one the loop is deciding on.\<close>

definition in_charge :: "bare \<Rightarrow> nat list" where
  "in_charge s = (case b_loop s of Deciding c \<Rightarrow> c # b_handlers s | _ \<Rightarrow> b_handlers s)"

definition stopped :: "bare \<Rightarrow> bool" where
  "stopped s \<longleftrightarrow> (\<exists>e. b_loop s = Stopped e)"

definition bare_inv :: "bare \<Rightarrow> bool" where
  "bare_inv s \<longleftrightarrow>
     distinct (in_charge s) \<and> set (in_charge s) \<subseteq> set (b_accepted s) \<and>
     set (b_accepted s) \<subseteq> set (in_charge s) \<union> set (b_shut s) \<and>
     distinct (b_reported s) \<and> set (b_reported s) \<subseteq> set (b_shut s) \<inter> set (b_accepted s) - set (in_charge s) \<and>
     (if stopped s then b_conns s = None \<and> \<not> b_ln_open s \<and> set (b_accepted s) \<subseteq> set (b_shut s) \<and> (b_loop s = Stopped None \<longrightarrow> b_done s)
      else \<exists>cs. b_conns s = Some cs \<and> set cs = set (in_charge s))"

lemmas bare_ops = take_conn_def admit_conn_def refuse_conn_def stop_serving_def handler_turn_def handler_end_def Close_server_def

lemma bare_step_inv: "bare_step s t \<Longrightarrow> bare_inv s \<Longrightarrow> bare_inv t"
proof (induction rule: bare_step.induct)
  case (accept_step s c)
  then show ?case by (auto simp: bare_inv_def in_charge_def stopped_def take_conn_def)
next
  case (admit_step s c)
  then show ?case by (auto simp: bare_inv_def in_charge_def stopped_def admit_conn_def)
next
  case (refuse_step s c)
  then show ?case by (auto simp: bare_inv_def in_charge_def stopped_def refuse_conn_def)
next
  case (fail_step s err)
  then show ?case by (auto simp: bare_inv_def in_charge_def stopped_def stop_serving_def)
next
  case (turn_step c s closes)
  then show ?case by (auto simp: bare_inv_def in_charge_def stopped_def handler_turn_def split: serve_loop.splits)
next
  case (end_step c s)
  then show ?case by (auto simp: bare_inv_def in_charge_def stopped_def handler_end_def distinct_removeAll split: serve_loop.splits)
next
  case (close_step s)
  then show ?case by (auto simp: bare_inv_def in_charge_def stopped_def Close_server_def split: serve_loop.splits)
qed

lemma reaches_inv: "bare_reaches s \<Longrightarrow> bare_inv s"
  by (induction rule: bare_reaches.induct)
    (auto simp: bare_step_inv, simp add: bare_inv_def serving_def in_charge_def stopped_def)

section \<open>Properties\<close>


text \<open>One connection is admitted, the server is closed, and the loop ends.\<close>

definition closed_server :: bare where
  "closed_server = stop_serving EOF (Close_server (admit_conn 1 (take_conn 1 serving)))"

lemma closed_server_reached: "bare_reaches closed_server"
proof -
  have "bare_reaches (take_conn 1 serving)"
    by (rule bare_reaches.step [OF bare_reaches.start accept_step]) (simp_all add: serving_def)
  then have "bare_reaches (admit_conn 1 (take_conn 1 serving))"
    by (rule bare_reaches.step [OF _ admit_step]) (simp add: take_conn_def)
  then have "bare_reaches (Close_server (admit_conn 1 (take_conn 1 serving)))"
    by (rule bare_reaches.step [OF _ close_step])
  then show ?thesis unfolding closed_server_def
    by (rule bare_reaches.step [OF _ fail_step]) (simp add: bare_ops)
qed


text \<open>C40. When the loop has ended, no routine is stuck: every one can end, and then every connection that had a
  routine has been reported.\<close>

theorem bare_server_drains:
  assumes "bare_reaches s" "stopped s"
  shows "\<exists>t. bare_step\<^sup>*\<^sup>* s t \<and> b_handlers t = [] \<and> set (b_reported t) = set (b_reported s) \<union> set (b_handlers s) \<and> b_loop t = b_loop s"
proof -
  have "\<exists>t. bare_step\<^sup>*\<^sup>* s t \<and> b_handlers t = [] \<and> set (b_reported t) = set (b_reported s) \<union> set (b_handlers s) \<and> b_loop t = b_loop s"
    if "set (b_handlers s) \<subseteq> set (b_shut s)" for s
    using that
  proof (induction "length (b_handlers s)" arbitrary: s rule: less_induct)
    case less
    show ?case
    proof (cases "b_handlers s")
      case Nil
      then show ?thesis by auto
    next
      case (Cons c hs)
      have "length (removeAll c (b_handlers s)) < length (b_handlers s)" by (rule length_removeAll_less) (simp add: Cons)
      moreover have "bare_step s (handler_end c s)" using less(2) Cons by (intro end_step) auto
      ultimately show ?thesis
        using less(1) [of "handler_end c s"] less(2) Cons
        by (auto simp: handler_end_def intro: converse_rtranclp_into_rtranclp)
    qed
  qed
  moreover have "set (b_handlers s) \<subseteq> set (b_shut s)"
    using reaches_inv [OF assms(1)] assms(2) by (auto simp: bare_inv_def in_charge_def stopped_def)
  ultimately show ?thesis by blast
qed

lemma bare_server_drains_witness:
  "\<exists>t. bare_step\<^sup>*\<^sup>* closed_server t \<and> b_handlers t = [] \<and> set (b_reported t) = {1}"
proof -
  have "stopped closed_server" "b_handlers closed_server = [1]" "b_reported closed_server = []"
    by (simp_all add: stopped_def closed_server_def bare_ops serving_def)
  then show ?thesis using bare_server_drains [OF closed_server_reached] by auto
qed

text \<open>On a unix network the HTTP servers listen only where a socket file has been left behind: with no file at
  the address they return at once, without an error.\<close>

lemma http_server_needs_stale_socket:
  "os_missing os addr e = (True, e1) \<Longrightarrow> start_http_server os ''unix'' addr e = ((None, False), e1)"
  by (simp add: start_http_server_def)

text \<open>A listener whose file's mode cannot be set is left open, with nobody who accepts.\<close>

lemma chmod_failure_leaks_listener:
  assumes "RmUnixFile os net laddr e = (None, e1)" "os_listen os net laddr tls e1 = (None, e2)" "ChmodUnixFile os net laddr 511 e2 = (Some err, e3)"
  shows "prepare_listening os net laddr tls e = ((Some err, Some None, True), e3)"
  using assms by (simp add: prepare_listening_def)

end
