(* ===== verification/Program_Main.thy ===== *)
theory Program_Main
  imports Service_Car Bare_Server
begin

text \<open>
  The program (\<open>cmd/main.go\<close>): its configuration file, the routines it starts, the variable two of them share, and
  the signals it waits for. The servers the routines run are those of \<open>Bare_Server\<close> and of the HTTP libraries;
  revoking the certificate is a parameter. The banner and the lines that are printed are not modelled.
\<close>

definition configFileDefaultName :: bytes where "configFileDefaultName = ''rcp_config.yaml''"

text \<open>The flag \<open>-c\<close>, or a file of the working directory.\<close>

definition parseCmdArgs :: "go_error + bytes \<Rightarrow> bytes option \<Rightarrow> bytes" where
  "parseCmdArgs wd flag =
     (let dir = (case wd of Inl _ \<Rightarrow> configFileDefaultName | Inr d \<Rightarrow> d @ ''/'' @ configFileDefaultName)
      in case flag of None \<Rightarrow> dir | Some c \<Rightarrow> c)"

section \<open>The routines\<close>

text \<open>Where each listens: network and address.\<close>

datatype routine = Pprof bytes | InflowHTTP bytes bytes | OutHTTP bytes bytes | OutRESP bytes bytes

definition out_routine :: "nws \<Rightarrow> routine outcome" where
  "out_routine n = (case GetServerType n of
     HTTPSERVER \<Rightarrow> Ret (OutHTTP (GetBindNetWorkStr n) (GetBindAddress n))
   | RESPSERVER \<Rightarrow> Ret (OutRESP (GetBindNetWorkStr n) (GetBindAddress n))
   | _ \<Rightarrow> Panic ''start Bare Server.'')"

definition main_routines :: "('r, 'w, 'l) service_car \<Rightarrow> routine list outcome" where
  "main_routines sv = bind_outcome (out_routine (sv_TrafficOut sv)) (\<lambda>out. Ret (
     (if db_Enable (co_DebugConf (sv_Confer sv)) then [Pprof (db_PprofURI (co_DebugConf (sv_Confer sv)))] else []) @
     (if ti_Enable (co_TrafficInflow (sv_Confer sv))
      then [InflowHTTP (GetBindNetWorkStr (sv_TrafficIn sv)) (GetBindAddress (sv_TrafficIn sv))] else []) @ [out]))"

section \<open>The shared error\<close>

text \<open>The inflow routine and the outgoing one store what their server returns in the same variable; the outgoing one
  then looks at the variable, and panics with an error in it (its two reads of the variable, for the test and for
  the panic, are one step here). Nobody catches the panic of a routine, so the process
  dies of it. An event that is not due (a server that ends twice, a look before the server has ended) changes
  nothing.\<close>

datatype server_event = InflowEnds "go_error option" | OutEnds "go_error option" | OutChecks

datatype out_server = Serving | Returned | Gone

record server_ends =
  sn_err :: "go_error option"
  sn_inflow :: bool
  sn_out :: out_server
  sn_panic :: "go_error option"

definition servers_running :: "bool \<Rightarrow> server_ends" where
  "servers_running inflow = \<lparr>sn_err = None, sn_inflow = inflow, sn_out = Serving, sn_panic = None\<rparr>"

fun server_end :: "server_event \<Rightarrow> server_ends \<Rightarrow> server_ends" where
  "server_end (InflowEnds r) s = (if sn_inflow s then s\<lparr>sn_err := r, sn_inflow := False\<rparr> else s)"
| "server_end (OutEnds r) s = (if sn_out s = Serving then s\<lparr>sn_err := r, sn_out := Returned\<rparr> else s)"
| "server_end OutChecks s = (if sn_out s = Returned then s\<lparr>sn_panic := sn_err s, sn_out := Gone\<rparr> else s)"

section \<open>The main routine\<close>

datatype signal = SIGHUP | SIGQUIT | SIGTERM | SIGINT

text \<open>What happens to the program while it runs: a signal, or an event of one of its servers.\<close>

datatype happening = Signal signal | Server server_event

datatype 'a program = Fatal go_error | Running 'a | Exited 'a | Crashed go_error 'a

text \<open>The loop over the signals, beside the routines: on a signal that ends the program it revokes its certificate, if
  it has one, and exits; the panic of a routine ends the process at once.\<close>

fun main_loop :: "bool \<Rightarrow> ('e \<Rightarrow> 'e) \<Rightarrow> 'a \<Rightarrow> happening list \<Rightarrow> server_ends \<Rightarrow> 'e \<Rightarrow> 'a program \<times> 'e" where
  "main_loop ca revoke x [] s e = (Running x, e)"
| "main_loop ca revoke x (Signal sig # hs) s e =
     (if sig \<in> {SIGQUIT, SIGTERM, SIGINT} then (Exited x, if ca then revoke e else e) else main_loop ca revoke x hs s e)"
| "main_loop ca revoke x (Server ev # hs) s e =
     (let s = server_end ev s in case sn_panic s of
        Some err \<Rightarrow> (Crashed err x, e)
      | None \<Rightarrow> main_loop ca revoke x hs s e)"

definition main_program :: "('e, 'r, 'w) sc_env \<Rightarrow> ('e \<Rightarrow> 'e) \<Rightarrow> go_error + bytes \<Rightarrow> bytes option \<Rightarrow> happening list \<Rightarrow> 'e
    \<Rightarrow> ((('r, 'w, 'l) service_car \<times> routine list) program \<times> 'e) outcome option" where
  "main_program se revoke wd flag hs e = bind_run (GetNewServiceCar se (parseCmdArgs wd flag) e) (\<lambda>(r, e). case r of
     Inl err \<Rightarrow> Some (Ret (Fatal err, e))
   | Inr sv \<Rightarrow> Some (bind_outcome (main_routines sv) (\<lambda>rs. Ret (
       main_loop (ca_Enable (co_CaConfig (sv_Confer sv))) revoke (sv, rs) hs
         (servers_running (ti_Enable (co_TrafficInflow (sv_Confer sv)))) e))))"

section \<open>What the program does\<close>

text \<open>The servers after what happened, and the error the outgoing routine would find if it looked now.\<close>

definition servers_after :: "bool \<Rightarrow> happening list \<Rightarrow> server_ends" where
  "servers_after inflow hs = fold (\<lambda>h s. case h of Signal _ \<Rightarrow> s | Server ev \<Rightarrow> server_end ev s) hs (servers_running inflow)"

definition found_error :: "server_ends \<Rightarrow> go_error option" where
  "found_error s = (if sn_out s = Returned then sn_err s else None)"

text \<open>The program ends at position \<open>i\<close>: with a signal other than SIGHUP, or when the outgoing routine looks and finds
  an error.\<close>

definition ends_at :: "bool \<Rightarrow> happening list \<Rightarrow> nat \<Rightarrow> bool" where
  "ends_at inflow hs i \<longleftrightarrow> i < length hs \<and> (case hs ! i of
     Signal sig \<Rightarrow> sig \<noteq> SIGHUP
   | Server ev \<Rightarrow> ev = OutChecks \<and> found_error (servers_after inflow (take i hs)) \<noteq> None)"

definition how_it_ends :: "bool \<Rightarrow> ('e \<Rightarrow> 'e) \<Rightarrow> 'a \<Rightarrow> bool \<Rightarrow> happening list \<Rightarrow> nat \<Rightarrow> 'e \<Rightarrow> 'a program \<times> 'e" where
  "how_it_ends ca revoke x inflow hs i e = (case hs ! i of
     Signal _ \<Rightarrow> (Exited x, if ca then revoke e else e)
   | Server _ \<Rightarrow> (Crashed (the (found_error (servers_after inflow (take i hs)))) x, e))"

lemma servers_after_snoc:
  "servers_after inflow (hs @ [Signal sig]) = servers_after inflow hs"
  "servers_after inflow (hs @ [Server ev]) = server_end ev (servers_after inflow hs)"
  by (simp_all add: servers_after_def)

lemma server_end_panic:
  "sn_panic s = None \<Longrightarrow> sn_panic (server_end ev s) = (if ev = OutChecks then found_error s else None)"
  by (cases ev) (simp_all add: found_error_def)

lemma terminating: "sig \<in> {SIGQUIT, SIGTERM, SIGINT} \<longleftrightarrow> sig \<noteq> SIGHUP"
  by (cases sig) simp_all

text \<open>The loop behind a part that did not end the program.\<close>

lemma main_loop_quiet:
  "sn_panic (servers_after inflow pre) = None \<Longrightarrow> \<forall>i < length post. \<not> ends_at inflow (pre @ post) (length pre + i) \<Longrightarrow>
   main_loop ca revoke x (post @ rest) (servers_after inflow pre) e
     = main_loop ca revoke x rest (servers_after inflow (pre @ post)) e \<and> sn_panic (servers_after inflow (pre @ post)) = None"
proof (induction post arbitrary: pre)
  case (Cons h post)
  have h: "\<not> ends_at inflow (pre @ h # post) (length pre)" using Cons.prems(2) by force
  have rest: "\<forall>i < length post. \<not> ends_at inflow ((pre @ [h]) @ post) (length (pre @ [h]) + i)"
    using Cons.prems(2) by force
  show ?case
  proof (cases h)
    case (Signal sig)
    then have "sig = SIGHUP" using h by (simp add: ends_at_def)
    then show ?thesis using Cons.IH [OF _ rest] Cons.prems(1) Signal by (simp add: servers_after_snoc)
  next
    case (Server ev)
    then have p: "sn_panic (server_end ev (servers_after inflow pre)) = None"
      using h server_end_panic [OF Cons.prems(1), of ev] by (auto simp: ends_at_def)
    then show ?thesis using Cons.IH [OF _ rest] Server by (simp add: servers_after_snoc)
  qed
qed simp

lemma main_loop_ends:
  assumes "\<forall>j < i. \<not> ends_at inflow hs j" "ends_at inflow hs i"
  shows "main_loop ca revoke x hs (servers_running inflow) e = how_it_ends ca revoke x inflow hs i e"
proof -
  have i: "i < length hs" using assms(2) by (simp add: ends_at_def)
  have same: "ends_at inflow (take i hs) j = ends_at inflow hs j" if "j < i" for j
    using that i by (cases "hs ! j") (simp_all add: ends_at_def min.absorb1)
  have "main_loop ca revoke x (take i hs @ hs ! i # drop (Suc i) hs) (servers_running inflow) e
      = main_loop ca revoke x (hs ! i # drop (Suc i) hs) (servers_after inflow (take i hs)) e \<and>
      sn_panic (servers_after inflow (take i hs)) = None"
    using main_loop_quiet [of inflow "[]" "take i hs"] assms(1) i same by (simp add: servers_after_def servers_running_def)
  then show ?thesis
    using assms(2) i server_end_panic [of "servers_after inflow (take i hs)" OutChecks]
    by (auto simp: id_take_nth_drop [symmetric] how_it_ends_def ends_at_def terminating simp del: insert_iff server_end.simps
        split: happening.splits)
qed

lemma main_loop_runs:
  assumes "\<forall>j. \<not> ends_at inflow hs j"
  shows "main_loop ca revoke x hs (servers_running inflow) e = (Running x, e)"
  using main_loop_quiet [of inflow "[]" hs ca revoke x "[]" e] assms by (simp add: servers_after_def servers_running_def)

text \<open>With one server the program ends with its error; with two the error of the outgoing one may be lost, or replaced
  by that of the other.\<close>

lemma only_server:
  "found_error (servers_after False [Server (OutEnds r)]) = r"
  by (simp add: servers_after_def servers_running_def found_error_def)

lemma error_may_be_lost:
  "found_error (servers_after True [Server (OutEnds (Some e)), Server (InflowEnds None)]) = None"
  "found_error (servers_after True [Server (OutEnds None), Server (InflowEnds (Some e))]) = Some e"
  by (simp_all add: servers_after_def servers_running_def found_error_def)

lemma main_routines_out: "out_routine (sv_TrafficOut sv) = Ret out \<Longrightarrow> \<exists>rs. main_routines sv = Ret (rs @ [out])"
  unfolding main_routines_def append_assoc [symmetric] by (rule exI) (simp only: bind_outcome.simps)

lemma started_routines:
  assumes "GetNewServiceCar se file e = Some (Ret (Inr sv, e'))"
  shows "\<exists>out rs. out_routine (sv_TrafficOut sv) = Ret out \<and> main_routines sv = Ret (rs @ [out]) \<and>
     (out = OutHTTP (bindNetWorkStr (sv_TrafficOut sv)) (bindAddress (sv_TrafficOut sv)) \<and> HTTPReverseServer (sv_TrafficOut sv) \<noteq> None \<or>
      out = OutRESP (bindNetWorkStr (sv_TrafficOut sv)) (bindAddress (sv_TrafficOut sv)) \<and> HTTPReverseServer (sv_TrafficOut sv) = None)"
proof -
  obtain c cl now e1 where c: "sc_rest se (force_cache c) cl now e1 = Some (Ret (Inr sv, e'))"
    by (rule GetNewServiceCar_parts [OF assms])
  have "sc_services se (force_cache c) = Inr (sv_TrafficOut sv, sv_TrafficIn sv)" using sc_rest_parts [OF c] by metis
  then have "serverType (sv_TrafficOut sv) \<in> {HTTPSERVER, RESPSERVER} \<and>
      (serverType (sv_TrafficOut sv) = HTTPSERVER \<longleftrightarrow> HTTPReverseServer (sv_TrafficOut sv) \<noteq> None)" by (rule sc_services_ok) simp
  then consider "out_routine (sv_TrafficOut sv) = Ret (OutHTTP (bindNetWorkStr (sv_TrafficOut sv)) (bindAddress (sv_TrafficOut sv)))"
      "HTTPReverseServer (sv_TrafficOut sv) \<noteq> None"
    | "out_routine (sv_TrafficOut sv) = Ret (OutRESP (bindNetWorkStr (sv_TrafficOut sv)) (bindAddress (sv_TrafficOut sv)))"
      "HTTPReverseServer (sv_TrafficOut sv) = None"
    by (cases "serverType (sv_TrafficOut sv)")
      (simp_all add: out_routine_def GetServerType_def GetBindNetWorkStr_def GetBindAddress_def)
  then show ?thesis using main_routines_out [of sv] by cases fast+
qed

text \<open>C20. The program ends with the error of its start, or runs one outgoing server of the configured kind (never the one
  that is not supported, which would panic) until the first of two things happens: a signal other than SIGHUP, on
  which it revokes its certificate, if it has one, once, and exits; or the outgoing routine, whose server has ended,
  finds an error in the variable it shares with the inflow routine: then the process dies of that error, and the
  certificate is not revoked.\<close>

theorem program_runs:
  assumes "GetNewServiceCar se (parseCmdArgs wd flag) e = Some (Ret (r, e'))"
  shows "case r of
     Inl err \<Rightarrow> main_program se revoke wd flag hs e = Some (Ret (Fatal err, e') :: ((('r, 'w, 'l) service_car \<times> routine list) program \<times> 'e) outcome)
   | Inr (sv :: ('r, 'w, 'l) service_car) \<Rightarrow> (\<exists>rs out. out_routine (sv_TrafficOut sv) = Ret out \<and> main_routines sv = Ret (rs @ [out]) \<and>
       (let inflow = ti_Enable (co_TrafficInflow (sv_Confer sv)) in
        ((\<forall>i. \<not> ends_at inflow hs i) \<longrightarrow> main_program se revoke wd flag hs e = Some (Ret (Running (sv, rs @ [out]), e'))) \<and>
        (\<forall>i. ends_at inflow hs i \<and> (\<forall>j < i. \<not> ends_at inflow hs j) \<longrightarrow> main_program se revoke wd flag hs e = Some (Ret (
           how_it_ends (ca_Enable (co_CaConfig (sv_Confer sv))) revoke (sv, rs @ [out]) inflow hs i e')))))"
proof (cases r)
  case (Inl err)
  then show ?thesis using assms by (simp add: main_program_def bind_run_def)
next
  case (Inr sv)
  have "\<exists>out rs. out_routine (sv_TrafficOut sv) = Ret out \<and> main_routines sv = Ret (rs @ [out])"
    using started_routines [OF assms [unfolded Inr]] by (elim exE conjE, intro exI conjI)
  then obtain out rs where rs: "out_routine (sv_TrafficOut sv) = Ret out" "main_routines sv = Ret (rs @ [out])" by (elim exE conjE)
  let ?in = "ti_Enable (co_TrafficInflow (sv_Confer sv))"
  have m: "main_program se revoke wd flag hs e = Some (Ret (main_loop (ca_Enable (co_CaConfig (sv_Confer sv))) revoke
      (sv, rs @ [out]) hs (servers_running ?in) e'))"
    using rs(2) unfolding main_program_def assms Inr by (simp add: bind_run_def)
  show ?thesis unfolding Inr sum.case Let_def m
    by (intro exI [of _ rs] exI [of _ out] conjI rs impI allI) (simp_all add: main_loop_runs main_loop_ends)
qed

lemma program_runs_witness:
  "\<exists>(sv :: (breader, bwriter, nat) service_car) rs e'.
     main_program sample_sc_env id (Inl EOF) (Some []) [Signal SIGHUP, Server (OutEnds None), Server OutChecks, Signal SIGTERM] (5, [])
       = Some (Ret (Exited (sv, rs), e')) \<and>
     main_program sample_sc_env id (Inl EOF) (Some []) [Server (OutEnds (Some EOF)), Signal SIGHUP, Server OutChecks, Signal SIGTERM] (5, [])
       = Some (Ret (Crashed EOF (sv, rs), e'))"
proof -
  obtain sv :: "(breader, bwriter, nat) service_car" and e' where "GetNewServiceCar sample_sc_env [] (5, []) = Some (Ret (Inr sv, e'))"
    using started_sample by blast
  then have g: "GetNewServiceCar sample_sc_env (parseCmdArgs (Inl EOF) (Some [])) (5, []) = Some (Ret (Inr sv, e'))"
    by (simp add: parseCmdArgs_def)
  let ?hs = "[Signal SIGHUP, Server (OutEnds None), Server OutChecks, Signal SIGTERM]"
  let ?gs = "[Server (OutEnds (Some EOF)), Signal SIGHUP, Server OutChecks, Signal SIGTERM]"
  have l: "j < 2 \<longleftrightarrow> j = 0 \<or> j = 1" "j < 3 \<longleftrightarrow> j = 0 \<or> j = 1 \<or> j = 2" for j :: nat by arith+
  have h: "ends_at inflow ?hs 3" "\<forall>j < 3. \<not> ends_at inflow ?hs j" for inflow
    by (auto simp: l ends_at_def servers_after_def servers_running_def found_error_def)
  have k: "ends_at inflow ?gs 2" "\<forall>j < 2. \<not> ends_at inflow ?gs j" for inflow
    by (auto simp: l ends_at_def servers_after_def servers_running_def found_error_def)
  have hw: "how_it_ends ca id x inflow ?hs 3 e = (Exited x, e)" "how_it_ends ca id x inflow ?gs 2 e = (Crashed EOF x, e)" for ca inflow e
      and x :: "(breader, bwriter, nat) service_car \<times> routine list"
    by (simp_all add: how_it_ends_def servers_after_def servers_running_def found_error_def)
  obtain rs out where "main_routines sv = Ret (rs @ [out])"
    and 1: "main_program sample_sc_env id (Inl EOF) (Some []) ?hs (5, []) = Some (Ret (Exited (sv, rs @ [out]), e'))"
    using program_runs [OF g, of id ?hs] h unfolding Let_def sum.case by (elim exE conjE) (metis hw(1))
  moreover obtain rs' out' where "main_routines sv = Ret (rs' @ [out'])"
    and 2: "main_program sample_sc_env id (Inl EOF) (Some []) ?gs (5, []) = Some (Ret (Crashed EOF (sv, rs' @ [out']), e'))"
    using program_runs [OF g, of id ?gs] k unfolding Let_def sum.case by (elim exE conjE) (metis hw(2))
  ultimately show ?thesis by auto
qed

end
