(* ===== verification/Certificates.thy ===== *)
theory Certificates
  imports Service_Car
begin

text \<open>
  The certificates of the program (\<open>newMTLS\<close> and the TLS configurations of \<open>sc/sc.go\<close>). The certificate library is a
  parameter: making an exchanger from an address and an identity, asking it for the first certificate, starting the
  routine that renews it, and the TLS configurations it makes, of type \<open>'t\<close>. The exchanger the program keeps is the second part
  of the state.
\<close>

record ('e, 'x, 't) ca_env =
  cx_new :: "ca_conf \<Rightarrow> app_conf \<Rightarrow> 'e \<Rightarrow> (go_error + 'x) \<times> 'e"
  cx_certificate :: "'x \<Rightarrow> 'e \<Rightarrow> go_error option \<times> 'e"
  cx_rotate :: "'x \<Rightarrow> 'e \<Rightarrow> 'e"
  cx_client :: "'x \<Rightarrow> 'e \<Rightarrow> (go_error + 't) \<times> 'e"
  cx_server :: "'x \<Rightarrow> 'e \<Rightarrow> (go_error + 't) \<times> 'e"

definition newMTLS :: "('e, 'x, 't) ca_env \<Rightarrow> sc_conf \<Rightarrow> 'e \<times> 'x option \<Rightarrow> go_error option \<times> 'e \<times> 'x option" where
  "newMTLS cx c st = (case st of (e, ex) \<Rightarrow>
     if \<not> ca_Enable (co_CaConfig c) then (None, e, ex)
     else case cx_new cx (co_CaConfig c) (co_AppInfo c) e of
       (Inl err, e) \<Rightarrow> (Some err, e, ex)
     | (Inr x, e) \<Rightarrow> (case cx_certificate cx x e of
         (Some err, e) \<Rightarrow> (Some err, e, ex)
       | (None, e) \<Rightarrow> (None, cx_rotate cx x e, Some x)))"

text \<open>Without an exchanger the configurations dereference nil.\<close>

definition NewSidecarMTLSClient :: "('e, 'x, 't) ca_env \<Rightarrow> 'e \<times> 'x option \<Rightarrow> ((go_error + 't) \<times> 'e \<times> 'x option) outcome" where
  "NewSidecarMTLSClient cx st = (case st of
     (_, None) \<Rightarrow> Panic nil_deref
   | (e, Some x) \<Rightarrow> Ret (case cx_client cx x e of (r, e) \<Rightarrow> (r, e, Some x)))"

definition NewSidecarTLSServer :: "('e, 'x, 't) ca_env \<Rightarrow> 'e \<times> 'x option \<Rightarrow> ((go_error + 't) \<times> 'e \<times> 'x option) outcome" where
  "NewSidecarTLSServer cx st = (case st of
     (_, None) \<Rightarrow> Panic nil_deref
   | (e, Some x) \<Rightarrow> Ret (case cx_server cx x e of (r, e) \<Rightarrow> (r, e, Some x)))"

section \<open>The start with certificates\<close>

lemma newMTLS_sets:
  assumes "newMTLS cx c st = (err, e, ex)" "ca_Enable (co_CaConfig c)"
  shows "err = None \<longleftrightarrow> (\<exists>x e1 e2. cx_new cx (co_CaConfig c) (co_AppInfo c) (fst st) = (Inr x, e1) \<and> cx_certificate cx x e1 = (None, e2) \<and>
     e = cx_rotate cx x e2 \<and> ex = Some x)"
  using assms by (cases st) (auto simp: newMTLS_def split: prod.splits sum.splits option.splits)

text \<open>When the retries of \<open>StartTLSConn\<close> end, there is an exchanger with a certificate whose renewal has been
  started, so making the TLS configurations does not panic. An exchanger whose certificate was refused is not kept.\<close>

theorem certificates_ready:
  assumes "StartTLSConn se (e, None) = Some (e', ex')" "se_mtls se = newMTLS cx c" "ca_Enable (co_CaConfig c)"
  shows "\<exists>x e1 e2. ex' = Some x \<and> cx_certificate cx x e1 = (None, e2) \<and> e' = cx_rotate cx x e2 \<and>
    NewSidecarTLSServer cx (e', ex') = Ret (case cx_server cx x e' of (r, e) \<Rightarrow> (r, e, Some x)) \<and>
    NewSidecarMTLSClient cx (e', ex') = Ret (case cx_client cx x e' of (r, e) \<Rightarrow> (r, e, Some x))"
proof -
  obtain n where "se_mtls se (tls_after se 0 n (e, None)) = (None, e', ex')"
    using tls_loop_Some [OF assms(1) [unfolded StartTLSConn_def]] by blast
  then have "newMTLS cx c (tls_after se 0 n (e, None)) = (None, e', ex')" unfolding assms(2) .
  from newMTLS_sets [OF this assms(3)] obtain x e1 e2 where "cx_certificate cx x e1 = (None, e2)" "e' = cx_rotate cx x e2" "ex' = Some x"
    by auto
  then show ?thesis by (auto simp: NewSidecarTLSServer_def NewSidecarMTLSClient_def)
qed

text \<open>A library whose first certificate is refused, once.\<close>

definition slow_ca :: "(nat, nat, bytes) ca_env" where
  "slow_ca = \<lparr>cx_new = (\<lambda>c app e. (Inr e, e)), cx_certificate = (\<lambda>x e. (if x = 0 then Some EOF else None, Suc e)),
     cx_rotate = (\<lambda>x e. e), cx_client = (\<lambda>x e. (Inr ''c'', e)), cx_server = (\<lambda>x e. (Inr ''s'', e))\<rparr>"

lemma certificates_ready_witness:
  "\<forall>w. \<exists>(se :: (nat \<times> nat option, breader, bwriter) sc_env) e'. se_world se = w \<and> StartTLSConn se (0, None) = Some (e', Some 1) \<and>
     NewSidecarTLSServer slow_ca (e', Some 1) = Ret (Inr ''s'', e', Some 1)"
proof
  fix w :: "(nat \<times> nat option, breader, bwriter) world"
  define c where "c = sample_conf\<lparr>co_CaConfig := \<lparr>ca_Enable = True, ca_AuthKey = [], ca_Address = []\<rparr>\<rparr>"
  define se :: "(nat \<times> nat option, breader, bwriter) sc_env" where
    "se = \<lparr>se_conf = sample_conf_env, se_world = w, se_logger = Pair None, se_influx = (\<lambda>_. Pair None),
       se_mtls = newMTLS slow_ca c, se_sleep = (\<lambda>_ e. e), se_tls = Pair None\<rparr>"
  have c: "ca_Enable (co_CaConfig c)" by (simp add: c_def)
  have m: "newMTLS slow_ca c (0, None) = (Some EOF, 1, None)" "newMTLS slow_ca c (1, None) = (None, 2, Some 1)"
    using c by (simp_all add: newMTLS_def slow_ca_def)
  have f: "se_mtls se = newMTLS slow_ca c" "se_sleep se = (\<lambda>_ e. e)" by (simp_all add: se_def)
  have "StartTLSConn se (0, None) = Some (2, Some 1)"
    using m by (simp add: StartTLSConn_def tls_loop.simps [of se 0] tls_loop.simps [of se "Suc 0"] f)
  moreover from certificates_ready [OF this f(1) c] have "NewSidecarTLSServer slow_ca (2, Some 1) = Ret (Inr ''s'', 2, Some 1)"
    by (auto simp: slow_ca_def)
  moreover have "se_world se = w" by (simp add: se_def)
  ultimately show "\<exists>(se :: (nat \<times> nat option, breader, bwriter) sc_env) e'. se_world se = w \<and> StartTLSConn se (0, None) = Some (e', Some 1) \<and>
     NewSidecarTLSServer slow_ca (e', Some 1) = Ret (Inr ''s'', e', Some 1)" by blast
qed

end
