(* ===== verification/Cache_Files.thy ===== *)
theory Cache_Files
  imports Memory_Cache
begin

text \<open>
  Saving a cache to a file and loading it (\<open>Save\<close>, \<open>SaveFile\<close>, \<open>LoadFile\<close> of \<open>utils/memorycacher/cache.go\<close>). The
  encoding is \<open>gob\<close>'s: which values it can register, and what it writes and reads, are parameters, like the files.
\<close>

record 'e cache_io =
  io_create :: "bytes \<Rightarrow> 'e \<Rightarrow> (go_error + nat) \<times> 'e"
  io_open :: "bytes \<Rightarrow> 'e \<Rightarrow> (go_error + nat) \<times> 'e"
  io_close :: "nat \<Rightarrow> 'e \<Rightarrow> go_error option \<times> 'e"
  gob_registers :: "obj \<Rightarrow> bool"
  gob_encode :: "(bytes \<times> item) list \<Rightarrow> nat \<Rightarrow> 'e \<Rightarrow> go_error option \<times> 'e"
  gob_decode :: "nat \<Rightarrow> 'e \<Rightarrow> (go_error + (bytes \<times> item) list) \<times> 'e"

text \<open>A value that cannot be registered panics, which becomes an error.\<close>

definition Save :: "'e cache_io \<Rightarrow> nat \<Rightarrow> cache \<Rightarrow> 'e \<Rightarrow> go_error option \<times> 'e" where
  "Save io h c e =
     (if list_all (\<lambda>(k, v). gob_registers io (it_Object v)) (items c) then gob_encode io (items c) h e
      else (Some (Formatted ''Error registering item types with Gob library''), e))"

definition SaveFile :: "'e cache_io \<Rightarrow> bytes \<Rightarrow> cache \<Rightarrow> 'e \<Rightarrow> go_error option \<times> 'e" where
  "SaveFile io fname c e = (case io_create io fname e of
     (Inl err, e) \<Rightarrow> (Some err, e)
   | (Inr h, e) \<Rightarrow> (case Save io h c e of
       (Some err, e) \<Rightarrow> (Some err, snd (io_close io h e))
     | (None, e) \<Rightarrow> io_close io h e))"

definition LoadFile :: "'e cache_io \<Rightarrow> int \<Rightarrow> bytes \<Rightarrow> cache \<Rightarrow> 'e \<Rightarrow> (go_error option \<times> cache) \<times> 'e" where
  "LoadFile io now fname c e = (case io_open io fname e of
     (Inl err, e) \<Rightarrow> ((Some err, c), e)
   | (Inr h, e) \<Rightarrow> (case gob_decode io h e of (decoded, e) \<Rightarrow>
       (case Load now decoded c of
         (Some err, c) \<Rightarrow> ((Some err, c), snd (io_close io h e))
       | (None, c) \<Rightarrow> (case io_close io h e of (err, e) \<Rightarrow> ((err, c), e)))))"

section \<open>Loading\<close>

text \<open>A loaded item takes the place of a missing or an expired one.\<close>

lemma load_loop_items:
  "distinct (map fst its) \<Longrightarrow> map_of (items (load_loop now its c)) k =
     (case map_of (items c) k of
        None \<Rightarrow> map_of its k
      | Some ov \<Rightarrow> if Expired ov now \<and> map_of its k \<noteq> None then map_of its k else Some ov)"
proof (induction now its c rule: load_loop.induct)
  case (2 now k' v rest c)
  then have "map_of rest k' = None" by (auto simp: map_of_eq_None_iff)
  then show ?case using 2 by (auto simp: update_conv' split: option.splits)
qed (simp split: option.split)

lemma load_loop_empty:
  assumes "distinct (map fst its)" "items c = []"
  shows "Memory_Cache.Get t k (load_loop now its c) = Memory_Cache.Get t k (c\<lparr>items := its\<rparr>)"
  using load_loop_items [OF assms(1), of now c k] assms(2) by (simp add: Get_def)

section \<open>Properties\<close>

text \<open>A file that was written and closed without an error opens, and decodes to the same map.\<close>

definition file_law :: "'e cache_io \<Rightarrow> bool" where
  "file_law io \<longleftrightarrow> (\<forall>f its e h e1 e2 e3. io_create io f e = (Inr h, e1) \<and> gob_encode io its h e1 = (None, e2) \<and> io_close io h e2 = (None, e3) \<longrightarrow>
     (\<exists>h' e4 its' e5. io_open io f e3 = (Inr h', e4) \<and> gob_decode io h' e4 = (Inr its', e5) \<and> distinct (map fst its') \<and> map_of its' = map_of its))"

text \<open>C23. What was saved is read: a cache saved to a file without an error and loaded into an empty one reads the same, at
  every time, whatever closing the file after the load says.\<close>

theorem cache_file_roundtrip:
  assumes "file_law io" "SaveFile io fname c e = (None, e')" "items c0 = []" "LoadFile io now fname c0 e' = ((err, c1), e2)"
  shows "Memory_Cache.Get t k c1 = Memory_Cache.Get t k c"
proof -
  obtain h e1 where h: "io_create io fname e = (Inr h, e1)" and s: "(case Save io h c e1 of
       (Some err, e) \<Rightarrow> (Some err, snd (io_close io h e)) | (None, e) \<Rightarrow> io_close io h e) = (None, e')"
    using assms(2) by (auto simp: SaveFile_def split: prod.splits sum.splits)
  obtain e3 where e3: "gob_encode io (items c) h e1 = (None, e3)" "io_close io h e3 = (None, e')"
    using s by (auto simp: Save_def split: prod.splits option.splits if_splits)
  have law: "io_create io fname e = (Inr h, e1) \<and> gob_encode io (items c) h e1 = (None, e3) \<and> io_close io h e3 = (None, e')"
    using h e3 by simp
  obtain h' e4 its' e5 where d: "io_open io fname e' = (Inr h', e4)" "gob_decode io h' e4 = (Inr its', e5)" "distinct (map fst its')"
      "map_of its' = map_of (items c)"
    using assms(1)[unfolded file_law_def, rule_format, OF law] by blast
  have "c1 = load_loop now its' c0" using assms(4) d by (auto simp: LoadFile_def Load_def split: prod.splits)
  then show ?thesis using load_loop_empty [OF d(3) assms(3)] d(4) by (simp add: Get_def)
qed

text \<open>One file, which remembers the list it was given.\<close>

definition memory_io :: "(bytes \<times> item) list cache_io" where
  "memory_io = \<lparr>io_create = (\<lambda>f e. (Inr 0, [])), io_open = (\<lambda>f e. (Inr 0, e)), io_close = (\<lambda>h e. (None, e)),
     gob_registers = (\<lambda>x. x \<noteq> ONil), gob_encode = (\<lambda>its h e. (None, AList.clearjunk its)), gob_decode = (\<lambda>h e. (Inr e, e))\<rparr>"

lemma memory_io_fields:
  "io_create memory_io f e = (Inr 0, [])" "io_open memory_io f e = (Inr 0, e)" "io_close memory_io h e = (None, e)"
  "gob_registers memory_io x \<longleftrightarrow> x \<noteq> ONil" "gob_encode memory_io its h e = (None, AList.clearjunk its)" "gob_decode memory_io h e = (Inr e, e)"
  by (simp_all add: memory_io_def)

lemma memory_io_law: "file_law memory_io"
  by (auto simp: file_law_def memory_io_def distinct_clearjunk map_of_clearjunk)

lemma cache_file_roundtrip_witness:
  "\<exists>e' c1 e2. SaveFile memory_io ''f'' (cache_set 5 ''k'' (OInt 7) 0 (New 5 0 0 10)) [] = (None, e') \<and>
     LoadFile memory_io 9 ''f'' (New 9 0 0 10) e' = ((None, c1), e2) \<and> Memory_Cache.Get 20 ''k'' c1 = Some (OInt 7)"
proof -
  let ?c = "cache_set 5 ''k'' (OInt 7) 0 (New 5 0 0 10)"
  have c: "items ?c = [(''k'', \<lparr>it_Object = OInt 7, it_Expiration = 0\<rparr>)]" "items (New 9 0 0 10) = []"
    by (simp_all add: cache_set_def New_def newCacheWithJanitor_def newCache_def expiry_def Let_def)
  have s: "SaveFile memory_io ''f'' ?c [] = (None, AList.clearjunk (items ?c))"
    by (simp add: SaveFile_def Save_def memory_io_fields c(1))
  obtain err c1 e2 where l: "LoadFile memory_io 9 ''f'' (New 9 0 0 10) (AList.clearjunk (items ?c)) = ((err, c1), e2)" by (metis surj_pair)
  have "err = None" using l by (auto simp: LoadFile_def Load_def memory_io_fields)
  moreover have "Memory_Cache.Get 20 ''k'' ?c = Some (OInt 7)" by (simp add: Get_def c(1))
  ultimately show ?thesis using s l cache_file_roundtrip [OF memory_io_law s c(2) l] by metis
qed

end
