(* ===== verification/Sync_Memory.thy ===== *)
theory Sync_Memory
  imports Go_Std
begin

text \<open>
  Atomic counters and futures (\<open>utils/resparse/sync2\<close>) and slices whose memory is counted
  (\<open>utils/resparse/unsafe2\<close>). A counter is a 64-bit word that wraps, read as a signed number; the operations are
  single steps of the machine, so that routines interleave between them. Whether \<open>malloc\<close> has memory is a parameter.
\<close>

section \<open>Atomic values\<close>

type_synonym atomic = "64 word"

definition Int64_load :: "atomic \<Rightarrow> int" where "Int64_load a = sint a"
definition AsInt :: "atomic \<Rightarrow> int" where "AsInt a = Int64_load a"
definition Int64_Set :: "64 word \<Rightarrow> atomic \<Rightarrow> atomic" where "Int64_Set v a = v"

definition Int64_CompareAndSwap :: "64 word \<Rightarrow> 64 word \<Rightarrow> atomic \<Rightarrow> bool \<times> atomic" where
  "Int64_CompareAndSwap old new a = (if a = old then (True, new) else (False, a))"

definition Int64_Swap :: "64 word \<Rightarrow> atomic \<Rightarrow> 64 word \<times> atomic" where
  "Int64_Swap v a = (a, v)"

definition Int64_Add :: "64 word \<Rightarrow> atomic \<Rightarrow> 64 word \<times> atomic" where
  "Int64_Add v a = (a + v, a + v)"

definition Int64_Sub :: "64 word \<Rightarrow> atomic \<Rightarrow> 64 word \<times> atomic" where "Int64_Sub v a = Int64_Add (- v) a"
definition Int64_Incr :: "atomic \<Rightarrow> 64 word \<times> atomic" where "Int64_Incr a = Int64_Add 1 a"
definition Int64_Decr :: "atomic \<Rightarrow> 64 word \<times> atomic" where "Int64_Decr a = Int64_Add (- 1) a"

definition toInt64 :: "bool \<Rightarrow> 64 word" where "toInt64 v = (if v then 1 else 0)"
definition IsTrue :: "atomic \<Rightarrow> bool" where "IsTrue b \<longleftrightarrow> Int64_load b \<noteq> 0"
definition IsFalse :: "atomic \<Rightarrow> bool" where "IsFalse b \<longleftrightarrow> Int64_load b = 0"
definition Bool_Set :: "bool \<Rightarrow> atomic \<Rightarrow> atomic" where "Bool_Set v b = Int64_Set (toInt64 v) b"

definition Bool_CompareAndSwap :: "bool \<Rightarrow> bool \<Rightarrow> atomic \<Rightarrow> bool \<times> atomic" where
  "Bool_CompareAndSwap old new b = Int64_CompareAndSwap (toInt64 old) (toInt64 new) b"

definition Bool_Swap :: "bool \<Rightarrow> atomic \<Rightarrow> bool \<times> atomic" where
  "Bool_Swap v b = (case Int64_Swap (toInt64 v) b of (old, b) \<Rightarrow> (old \<noteq> 0, b))"

text \<open>A boolean that only its own operations have written holds 0 or 1, and they act on it as on a truth value.\<close>

definition bool_ok :: "atomic \<Rightarrow> bool" where "bool_ok b \<longleftrightarrow> b = 0 \<or> b = 1"

lemma IsTrue_word: "IsTrue b \<longleftrightarrow> b \<noteq> 0"
proof -
  have "sint b = 0 \<longleftrightarrow> b = 0" by (rule signed_eq_0_iff)
  then show ?thesis by (simp add: IsTrue_def Int64_load_def)
qed

lemma Bool_operations:
  assumes "bool_ok b"
  shows "IsTrue (Bool_Set v b) = v" "IsFalse b = (\<not> IsTrue b)" "bool_ok (Bool_Set v b)"
    "Bool_Swap v b = (IsTrue b, toInt64 v)" "bool_ok (snd (Bool_Swap v b))"
    "Bool_CompareAndSwap old new b = (if IsTrue b = old then (True, toInt64 new) else (False, b))"
    "bool_ok (snd (Bool_CompareAndSwap old new b))"
  using assms
  by (auto simp: Bool_Set_def Int64_Set_def IsTrue_word IsFalse_def Int64_load_def toInt64_def bool_ok_def Bool_Swap_def Int64_Swap_def
      Bool_CompareAndSwap_def Int64_CompareAndSwap_def)

lemma Int64_Add_Sub: "snd (Int64_Sub v (snd (Int64_Add v a))) = a"
  by (simp add: Int64_Sub_def Int64_Add_def)

section \<open>Futures\<close>

text \<open>The wait group's counter, and the map. A counter below zero panics, after the value was stored.\<close>

record 'v future =
  fu_wait :: int
  fu_vmap :: "(bytes \<rightharpoonup> 'v)"

definition new_future :: "'v future" where
  "new_future = \<lparr>fu_wait = 0, fu_vmap = Map.empty\<rparr>"

definition Future_Add :: "'v future \<Rightarrow> 'v future" where
  "Future_Add f = f\<lparr>fu_wait := fu_wait f + 1\<rparr>"

definition Future_Done :: "bytes \<Rightarrow> 'v \<Rightarrow> 'v future \<Rightarrow> 'v future outcome" where
  "Future_Done k v f =
     (if fu_wait f - 1 < 0 then Panic ''sync: negative WaitGroup counter''
      else Ret (f\<lparr>fu_vmap := (fu_vmap f)(k \<mapsto> v), fu_wait := fu_wait f - 1\<rparr>))"

text \<open>\<open>Wait\<close> returns when the counter is zero.\<close>

definition Future_Wait :: "'v future \<Rightarrow> (bytes \<rightharpoonup> 'v) option" where
  "Future_Wait f = (if fu_wait f = 0 then Some (fu_vmap f) else None)"

datatype 'v future_op = FAdd | FDone bytes 'v

fun run_future :: "'v future_op list \<Rightarrow> 'v future \<Rightarrow> 'v future outcome" where
  "run_future [] f = Ret f"
| "run_future (FAdd # ops) f = run_future ops (Future_Add f)"
| "run_future (FDone k v # ops) f = bind_outcome (Future_Done k v f) (run_future ops)"

definition dones :: "'v future_op list \<Rightarrow> (bytes \<times> 'v) list" where
  "dones ops = concat (map (\<lambda>q. case q of FAdd \<Rightarrow> [] | FDone k v \<Rightarrow> [(k, v)]) ops)"

definition adds :: "'v future_op list \<Rightarrow> nat" where
  "adds ops = length (filter (\<lambda>q. q = FAdd) ops)"

lemma future_op_simps [simp]:
  "dones [] = []" "dones (FAdd # ops) = dones ops" "dones (FDone k v # ops) = (k, v) # dones ops"
  "adds [] = 0" "adds (FAdd # ops) = Suc (adds ops)" "adds (FDone k v # ops) = adds ops"
  by (simp_all add: dones_def adds_def)

lemma run_future_result:
  "run_future ops f = Ret g \<Longrightarrow> fu_wait g = fu_wait f + int (adds ops) - int (length (dones ops)) \<and>
     fu_vmap g = fu_vmap f ++ map_of (rev (dones ops))"
proof (induction ops arbitrary: f)
  case (Cons q ops)
  show ?case
  proof (cases q)
    case FAdd
    then show ?thesis using Cons.IH [of "Future_Add f"] Cons.prems by (simp add: Future_Add_def)
  next
    case (FDone k v)
    then obtain f1 where f1: "Future_Done k v f = Ret f1" "run_future ops f1 = Ret g"
      using Cons.prems by (auto simp: bind_outcome_Ret_iff)
    then have "f1 = f\<lparr>fu_vmap := (fu_vmap f)(k \<mapsto> v), fu_wait := fu_wait f - 1\<rparr>"
      by (simp add: Future_Done_def split: if_splits)
    then show ?thesis using Cons.IH [OF f1(2)] FDone by (simp add: map_add_def fun_eq_iff split: option.split)
  qed
qed simp

text \<open>After any sequence of \<open>Add\<close> and \<open>Done\<close> that does not panic, \<open>Wait\<close> returns exactly when there were as many of
  the one as of the other, with the last value of every key.\<close>

theorem future_complete:
  assumes "run_future ops new_future = Ret f"
  shows "Future_Wait f = (if adds ops = length (dones ops) then Some (map_of (rev (dones ops))) else None)"
  using run_future_result [OF assms] by (simp add: Future_Wait_def new_future_def)

section \<open>Counted memory\<close>

text \<open>The bytes outside the heap of Go and their limit, two atomic counters, and the slices that live there, by their
  size. An allocation runs in two steps: it adds its size to the counter, and then looks at the sum \<open>after\<close> it was
  given. In between it is in \<open>oh_pending\<close>, with its size, whether it is forced, and the sum.\<close>

record offheap =
  oh_bytes :: atomic
  oh_max :: atomic
  oh_pending :: "(nat \<times> bool \<times> atomic) list"
  oh_live :: "(nat \<times> bool) list"

definition MinOffheapSlice :: nat where "MinOffheapSlice = 1024 * 16"

definition no_offheap :: offheap where
  "no_offheap = \<lparr>oh_bytes = 0, oh_max = 0, oh_pending = [], oh_live = []\<rparr>"

definition MaxOffheapBytes :: "offheap \<Rightarrow> int" where "MaxOffheapBytes s = Int64_load (oh_max s)"
definition OffheapBytes :: "offheap \<Rightarrow> int" where "OffheapBytes s = Int64_load (oh_bytes s)"

definition SetMaxOffheapBytes :: "64 word \<Rightarrow> offheap \<Rightarrow> offheap" where
  "SetMaxOffheapBytes n s = s\<lparr>oh_max := Int64_Set n (oh_max s)\<rparr>"

definition alloc_begin :: "nat \<Rightarrow> bool \<Rightarrow> offheap \<Rightarrow> offheap" where
  "alloc_begin n force s = (case Int64_Add (of_nat n) (oh_bytes s) of (after, b) \<Rightarrow>
     s\<lparr>oh_bytes := b, oh_pending := (n, force, after) # oh_pending s\<rparr>)"

text \<open>The second step: refused, out of memory, or a slice.\<close>

definition alloc_end :: "bool \<Rightarrow> nat \<times> bool \<times> atomic \<Rightarrow> offheap \<Rightarrow> bool \<times> offheap" where
  "alloc_end memory p s = (case p of (n, force, after) \<Rightarrow>
     let s = s\<lparr>oh_pending := remove1 p (oh_pending s)\<rparr>
     in if \<not> force \<and> sint after > MaxOffheapBytes s then (False, s\<lparr>oh_bytes := snd (Int64_Sub (of_nat n) (oh_bytes s))\<rparr>)
        else if \<not> memory then (False, s\<lparr>oh_bytes := snd (Int64_Sub (of_nat n) (oh_bytes s))\<rparr>)
        else (True, s\<lparr>oh_live := (n, force) # oh_live s\<rparr>))"

text \<open>\<open>reclaim\<close>, by \<open>FreeSlice\<close> or the finalizer; a slice whose pointer is nil is left alone.\<close>

definition reclaim :: "nat \<times> bool \<Rightarrow> offheap \<Rightarrow> offheap" where
  "reclaim l s = (if l \<in> set (oh_live s)
     then s\<lparr>oh_live := remove1 l (oh_live s), oh_bytes := snd (Int64_Sub (of_nat (fst l)) (oh_bytes s))\<rparr> else s)"

definition newCGoSlice :: "bool \<Rightarrow> nat \<Rightarrow> bool \<Rightarrow> offheap \<Rightarrow> bool \<times> offheap" where
  "newCGoSlice memory n force s = alloc_end memory (n, force, fst (Int64_Add (of_nat n) (oh_bytes s))) (alloc_begin n force s)"

text \<open>A slice of Go's memory, with the slice it was cut from if that is outside, or a slice outside. The buffer is a
  view of an array: its first index, its length and its capacity.\<close>

type_synonym view = "nat \<times> nat \<times> nat"

datatype slice = GoSlice view "slice option" | CGoSlice view

definition newGoSlice :: "int \<Rightarrow> slice outcome" where
  "newGoSlice n = (if n < 0 then Panic ''makeslice: len out of range'' else Ret (GoSlice (0, nat n, nat n) None))"

definition MakeSlice :: "bool \<Rightarrow> int \<Rightarrow> offheap \<Rightarrow> (slice \<times> offheap) outcome" where
  "MakeSlice memory n s =
     (let go = (\<lambda>s. bind_outcome (newGoSlice n) (\<lambda>sl. Ret (sl, s))) in
      if int MinOffheapSlice \<le> n
      then (case newCGoSlice memory (nat n) False s of (ok, s) \<Rightarrow> if ok then Ret (CGoSlice (0, nat n, nat n), s) else go s)
      else go s)"

definition MakeOffheapSlice :: "bool \<Rightarrow> int \<Rightarrow> offheap \<Rightarrow> (slice option \<times> offheap) outcome" where
  "MakeOffheapSlice memory n s =
     (if n \<ge> 0 then Ret (case newCGoSlice memory (nat n) True s of (ok, s) \<Rightarrow> (if ok then Some (CGoSlice (0, nat n, nat n)) else None, s))
      else Panic ''make slice with negative size'')"

fun Buffer :: "slice \<Rightarrow> view" where
  "Buffer (GoSlice v _) = v"
| "Buffer (CGoSlice v) = v"

fun Parent :: "slice \<Rightarrow> slice option" where
  "Parent (GoSlice _ p) = p"
| "Parent (CGoSlice _) = None"

fun newGoSliceFrom :: "slice \<Rightarrow> view \<Rightarrow> slice" where
  "newGoSliceFrom (CGoSlice v) w = GoSlice w (Some (CGoSlice v))"
| "newGoSliceFrom (GoSlice _ p) w = GoSlice w p"

definition Slice3 :: "slice \<Rightarrow> int \<Rightarrow> int \<Rightarrow> int \<Rightarrow> slice outcome" where
  "Slice3 s beg to cap = (case Buffer s of (from, _, c) \<Rightarrow>
     if 0 \<le> beg \<and> beg \<le> to \<and> to \<le> cap \<and> cap \<le> int c
     then Ret (newGoSliceFrom s (from + nat beg, nat (to - beg), nat (cap - beg)))
     else Panic ''slice bounds out of range'')"

definition Slice2 :: "slice \<Rightarrow> int \<Rightarrow> int \<Rightarrow> slice outcome" where
  "Slice2 s beg to = Slice3 s beg to (int (snd (snd (Buffer s))))"

definition FreeSlice :: "(nat \<times> bool) option \<Rightarrow> offheap \<Rightarrow> offheap" where
  "FreeSlice l s = (case l of None \<Rightarrow> s | Some l \<Rightarrow> reclaim l s)"

text \<open>What may happen while the limit is never set above \<open>m\<close>. It is 0 until it is set. A size is an \<open>int\<close> of Go.\<close>

inductive offheap_step :: "int \<Rightarrow> offheap \<Rightarrow> offheap \<Rightarrow> bool" for m where
  begin_step: "n < 2 ^ 63 \<Longrightarrow> offheap_step m s (alloc_begin n force s)"
| end_step: "p \<in> set (oh_pending s) \<Longrightarrow> offheap_step m s (snd (alloc_end memory p s))"
| free_step: "offheap_step m s (reclaim l s)"
| limit_step: "sint n \<le> m \<Longrightarrow> offheap_step m s (SetMaxOffheapBytes n s)"

definition size_sum :: "(nat \<times> 'a) list \<Rightarrow> int" where
  "size_sum xs = sum_list (map (\<lambda>x. int (fst x)) xs)"

text \<open>What is asked for: what lives and what is under way. The counter is that sum, as a signed 64-bit number; \<open>b\<close>
  tells whether the sum fitted into one all the time.\<close>

definition demand :: "offheap \<Rightarrow> int" where
  "demand s = size_sum (oh_live s) + size_sum (oh_pending s)"

inductive offheap_reaches :: "int \<Rightarrow> offheap \<Rightarrow> bool \<Rightarrow> bool" for m where
  start: "offheap_reaches m no_offheap True"
| more: "offheap_reaches m s b \<Longrightarrow> offheap_step m s t \<Longrightarrow> offheap_reaches m t (b \<and> demand t < 2 ^ 63)"

section \<open>The limit\<close>

text \<open>What lives or will live without being forced: an allocation under way whose sum is within \<open>m\<close>.\<close>

definition unforced_live :: "offheap \<Rightarrow> (nat \<times> bool) list" where
  "unforced_live s = filter (\<lambda>l. \<not> snd l) (oh_live s)"

definition granted :: "int \<Rightarrow> offheap \<Rightarrow> (nat \<times> bool \<times> atomic) list" where
  "granted m s = filter (\<lambda>p. \<not> fst (snd p) \<and> sint (snd (snd p)) \<le> m) (oh_pending s)"

definition offheap_inv :: "int \<Rightarrow> offheap \<Rightarrow> bool" where
  "offheap_inv m s \<longleftrightarrow> MaxOffheapBytes s \<le> m \<and> size_sum (unforced_live s) + size_sum (granted m s) \<le> m"

lemma size_sum_simps [simp]: "size_sum [] = 0" "size_sum (x # xs) = int (fst x) + size_sum xs"
  by (simp_all add: size_sum_def)

lemma size_sum_nonneg: "0 \<le> size_sum xs"
  by (induction xs) auto

lemma size_sum_remove1: "x \<in> set xs \<Longrightarrow> size_sum (remove1 x xs) = size_sum xs - int (fst x)"
  by (induction xs) auto

lemma size_sum_filter: "size_sum (filter P xs) \<le> size_sum xs"
  by (induction xs) auto

lemma size_sum_filter_remove1:
  "x \<in> set xs \<Longrightarrow> size_sum (filter P (remove1 x xs)) = size_sum (filter P xs) - (if P x then int (fst x) else 0)"
  by (induction xs) auto

text \<open>The counter is the demand, cut to its 64 bits.\<close>

lemma offheap_step_counter:
  "offheap_step m s t \<Longrightarrow> oh_bytes s = word_of_int (demand s) \<Longrightarrow> oh_bytes t = word_of_int (demand t)"
proof (induction rule: offheap_step.induct)
  case (end_step p s memory)
  then have b: "oh_bytes s = word_of_int (demand s)" by simp
  obtain n force after where p: "p = (n, force, after)" by (cases p) auto
  have "size_sum (remove1 (n, force, after) (oh_pending s)) = size_sum (oh_pending s) - int n"
    using size_sum_remove1 [OF end_step(1)] by (simp add: p)
  then show ?case using b
    by (cases force; cases "sint after \<le> MaxOffheapBytes s"; cases memory)
      (simp_all add: alloc_end_def p demand_def Int64_Sub_def Int64_Add_def Let_def MaxOffheapBytes_def)
next
  case (free_step s l)
  then show ?case using size_sum_remove1 [of l "oh_live s"]
    by (auto simp: reclaim_def demand_def Int64_Sub_def Int64_Add_def)
qed (auto simp: alloc_begin_def SetMaxOffheapBytes_def demand_def Int64_Add_def)

lemma offheap_counter: "offheap_reaches m s b \<Longrightarrow> oh_bytes s = word_of_int (demand s)"
proof (induction rule: offheap_reaches.induct)
  case start
  show ?case by (simp add: no_offheap_def demand_def)
next
  case (more s b t)
  then show ?case using offheap_step_counter by blast
qed

lemma sint_exact: "0 \<le> x \<Longrightarrow> x < 2 ^ 63 \<Longrightarrow> sint (word_of_int x :: 64 word) = x"
  by (simp add: signed_of_int signed_take_bit_int_eq_self)

lemma demand_nonneg: "0 \<le> demand s"
  using size_sum_nonneg [of "oh_live s"] size_sum_nonneg [of "oh_pending s"] by (simp add: demand_def)

lemma offheap_step_inv:
  "offheap_step m s t \<Longrightarrow> 0 \<le> m \<Longrightarrow> oh_bytes s = word_of_int (demand s) \<Longrightarrow> demand t < 2 ^ 63 \<Longrightarrow> offheap_inv m s \<Longrightarrow> offheap_inv m t"
proof (induction rule: offheap_step.induct)
  case (begin_step n s force)
  have d: "demand (alloc_begin n force s) = demand s + int n" by (simp add: demand_def alloc_begin_def Int64_Add_def)
  have "size_sum (unforced_live s) + size_sum (granted m s) \<le> demand s"
    unfolding unforced_live_def granted_def demand_def by (intro add_mono size_sum_filter)
  moreover have "sint (of_nat n + oh_bytes s) = demand s + int n" "sint (oh_bytes s + of_nat n) = demand s + int n"
    using sint_exact [of "demand s + int n"] begin_step(3,4) demand_nonneg [of s] d by (simp_all add: add.commute)
  ultimately show ?case using begin_step(5)
    by (auto simp: offheap_inv_def alloc_begin_def Int64_Add_def unforced_live_def granted_def MaxOffheapBytes_def)
next
  case (end_step p s memory)
  obtain n force after where p: "p = (n, force, after)" by (cases p) auto
  note sums = size_sum_remove1 [OF end_step(1)] size_sum_filter_remove1 [OF end_step(1), of "\<lambda>p. \<not> fst (snd p) \<and> sint (snd (snd p)) \<le> m"]
  show ?case
    using end_step(5) sums
    by (cases force; cases "sint after \<le> MaxOffheapBytes s"; cases "sint after \<le> m")
      (auto simp: offheap_inv_def alloc_end_def p unforced_live_def granted_def Let_def MaxOffheapBytes_def)
next
  case (free_step s l)
  show ?case
  proof (cases "l \<in> set (oh_live s)")
    case True
    then show ?thesis using free_step size_sum_remove1 [OF True] size_sum_filter_remove1 [OF True, of "\<lambda>l. \<not> snd l"]
      by (auto simp: offheap_inv_def reclaim_def unforced_live_def granted_def MaxOffheapBytes_def)
  qed (use free_step in \<open>simp add: reclaim_def\<close>)
next
  case (limit_step n s)
  then show ?case
    by (simp add: offheap_inv_def SetMaxOffheapBytes_def unforced_live_def granted_def MaxOffheapBytes_def Int64_Set_def Int64_load_def)
qed

lemma offheap_reaches_inv: "offheap_reaches m s b \<Longrightarrow> 0 \<le> m \<Longrightarrow> b \<Longrightarrow> offheap_inv m s \<and> demand s < 2 ^ 63"
proof (induction rule: offheap_reaches.induct)
  case start
  then show ?case by (simp add: offheap_inv_def no_offheap_def unforced_live_def granted_def demand_def MaxOffheapBytes_def Int64_load_def)
next
  case (more s b t)
  then show ?case using offheap_step_inv offheap_counter by blast
qed

section \<open>Properties\<close>

text \<open>C22. However allocations and releases interleave, the counter is the number of the bytes that live, as a signed
  64-bit number, whenever no allocation is under way; and as long as what lives and what is under way together stay
  below 2 to the power 63 bytes, the counter is exact and the slices that were not forced never take more than the
  highest limit that was set.\<close>

theorem offheap_limit:
  assumes "offheap_reaches m s b" "0 \<le> m"
  shows "(oh_pending s = [] \<longrightarrow> oh_bytes s = word_of_int (size_sum (oh_live s))) \<and>
    (b \<longrightarrow> size_sum (filter (\<lambda>l. \<not> snd l) (oh_live s)) \<le> m \<and> (oh_pending s = [] \<longrightarrow> OffheapBytes s = size_sum (oh_live s)))"
proof (intro conjI impI)
  assume "oh_pending s = []"
  then show "oh_bytes s = word_of_int (size_sum (oh_live s))" using offheap_counter [OF assms(1)] by (simp add: demand_def)
next
  assume b
  then have inv: "offheap_inv m s" "demand s < 2 ^ 63" using offheap_reaches_inv [OF assms] by simp_all
  then show "size_sum (filter (\<lambda>l. \<not> snd l) (oh_live s)) \<le> m"
    using size_sum_nonneg [of "granted m s"] by (simp add: offheap_inv_def unforced_live_def)
  show "OffheapBytes s = size_sum (oh_live s)" if "oh_pending s = []"
    using offheap_counter [OF assms(1)] sint_exact [OF demand_nonneg inv(2)] that
    by (simp add: OffheapBytes_def Int64_load_def demand_def)
qed

text \<open>A run of the counted memory, for the witness and for the overflow.\<close>

lemma sample_steps:
  assumes "n < 2 ^ 63" "k < 2 ^ 63" "s0 = SetMaxOffheapBytes 10 no_offheap" "s1 = alloc_begin n False s0" "s2 = alloc_begin k False s1"
  shows "offheap_reaches 10 s1 (demand s1 < 2 ^ 63)" "offheap_reaches 10 s2 (demand s1 < 2 ^ 63 \<and> demand s2 < 2 ^ 63)"
proof -
  have "offheap_reaches 10 s0 (True \<and> demand s0 < 2 ^ 63)"
    by (rule more [OF start], unfold assms(3), rule limit_step) simp
  moreover have "demand s0 < 2 ^ 63" by (simp add: assms(3) demand_def no_offheap_def SetMaxOffheapBytes_def)
  ultimately have 0: "offheap_reaches 10 s0 True" by simp
  have "offheap_step 10 s0 s1" "offheap_step 10 s1 s2" unfolding assms(4,5) by (rule begin_step, rule assms(1,2))+
  from more [OF 0 this(1)] more [OF more [OF 0 this(1)] this(2)]
  show "offheap_reaches 10 s1 (demand s1 < 2 ^ 63)" "offheap_reaches 10 s2 (demand s1 < 2 ^ 63 \<and> demand s2 < 2 ^ 63)" by simp_all
qed

lemma offheap_limit_witness:
  "\<exists>s :: offheap. oh_live s = [(8, False)] \<and> size_sum (filter (\<lambda>l. \<not> snd l) (oh_live s)) \<le> 10 \<and> OffheapBytes s = 8"
proof -
  let ?s1 = "alloc_begin 8 False (SetMaxOffheapBytes 10 no_offheap)" and ?p = "(8 :: nat, False, 8 :: atomic)"
  let ?s = "snd (alloc_end True ?p ?s1)"
  have s: "oh_pending ?s1 = [?p]" "oh_live ?s = [(8, False)]" "oh_pending ?s = []"
    by (simp_all add: alloc_end_def alloc_begin_def no_offheap_def SetMaxOffheapBytes_def Let_def MaxOffheapBytes_def Int64_Add_def
        Int64_Set_def Int64_load_def)
  have "offheap_reaches 10 ?s1 True"
    using sample_steps(1) [of 8 0] by (simp add: demand_def alloc_begin_def no_offheap_def SetMaxOffheapBytes_def Int64_Add_def)
  from more [OF this end_step, of ?p True] have "offheap_reaches 10 ?s True" using s by (simp add: demand_def)
  from offheap_limit [OF this] s show ?thesis by auto
qed

text \<open>Beyond that the limit is not kept: while an allocation that will be refused has the counter near the largest
  number, the sum of another is negative, and it is granted whatever the limit.\<close>

lemma limit_overflows:
  "\<exists>s b. offheap_reaches 10 s b \<and> oh_pending s = [] \<and> size_sum (filter (\<lambda>l. \<not> snd l) (oh_live s)) = 100"
proof -
  let ?n = "2 ^ 63 - 1 :: nat"
  let ?s2 = "alloc_begin 100 False (alloc_begin ?n False (SetMaxOffheapBytes 10 no_offheap))"
  let ?p = "(?n, False, of_nat ?n :: atomic)" and ?q = "(100 :: nat, False, of_nat (?n + 100) :: atomic)"
  let ?s3 = "snd (alloc_end True ?q ?s2)"
  let ?s4 = "snd (alloc_end True ?p ?s3)"
  have s2: "oh_pending ?s2 = [?q, ?p]" "oh_live ?s2 = []" "MaxOffheapBytes ?s2 = 10"
    by (simp_all add: alloc_begin_def no_offheap_def SetMaxOffheapBytes_def MaxOffheapBytes_def Int64_Add_def Int64_Set_def Int64_load_def)
  have q: "sint (of_nat (?n + 100) :: atomic) < 0" and p: "sint (of_nat ?n :: atomic) = 2 ^ 63 - 1" by simp_all
  have s3: "oh_pending ?s3 = [?p]" "oh_live ?s3 = [(100, False)]" "MaxOffheapBytes ?s3 = 10"
    using s2 q by (simp_all add: alloc_end_def Let_def MaxOffheapBytes_def)
  have s4: "oh_pending ?s4 = []" "oh_live ?s4 = [(100, False)]"
    using s3 p by (simp_all add: alloc_end_def Let_def MaxOffheapBytes_def)
  have "\<exists>b. offheap_reaches 10 ?s2 b" using sample_steps(2) [of ?n 100] by (rule exI) simp_all
  then obtain b where b: "offheap_reaches 10 ?s2 b" by blast
  have "offheap_step 10 ?s2 ?s3" by (rule end_step, unfold s2(1)) simp
  moreover have "offheap_step 10 ?s3 ?s4" by (rule end_step, unfold s3(1)) simp
  ultimately have "\<exists>b. offheap_reaches 10 ?s4 b" using more b by blast
  then show ?thesis using s4 by (intro exI [of _ ?s4]) auto
qed

lemma future_complete_witness:
  "\<exists>f. run_future [FAdd, FAdd, FDone ''a'' (1 :: nat), FDone ''a'' 2] new_future = Ret f \<and> Future_Wait f = Some [''a'' \<mapsto> 2]"
proof -
  obtain f where f: "run_future [FAdd, FAdd, FDone ''a'' (1 :: nat), FDone ''a'' 2] new_future = Ret f"
    by (simp add: Future_Add_def Future_Done_def new_future_def)
  from future_complete [OF f] f show ?thesis by (simp add: fun_eq_iff)
qed

text \<open>A small slice, and a large one that is refused, come from the heap of Go, and the counter is as before.\<close>

lemma MakeSlice_go:
  assumes "0 \<le> n" "n < int MinOffheapSlice \<or> sint (oh_bytes s + word_of_int n) > MaxOffheapBytes s"
  shows "MakeSlice memory n s = Ret (GoSlice (0, nat n, nat n) None, s)"
  using assms by (auto simp: MakeSlice_def newGoSlice_def newCGoSlice_def alloc_end_def alloc_begin_def Let_def MaxOffheapBytes_def
      Int64_Add_def Int64_Sub_def)

text \<open>Whatever is cut from a slice stays within its array, and keeps the memory outside alive that it was cut from,
  whose slice is never itself a cut.\<close>

fun slice_ok :: "slice \<Rightarrow> bool" where
  "slice_ok (CGoSlice (from, n, c)) \<longleftrightarrow> from = 0 \<and> n \<le> c"
| "slice_ok (GoSlice (from, n, c) None) \<longleftrightarrow> n \<le> c"
| "slice_ok (GoSlice (from, n, c) (Some (CGoSlice (f, m, k)))) \<longleftrightarrow> n \<le> c \<and> from + c \<le> k \<and> f = 0 \<and> m \<le> k"
| "slice_ok (GoSlice _ (Some (GoSlice _ _))) \<longleftrightarrow> False"

lemma Slice3_ok: "slice_ok s \<Longrightarrow> Slice3 s beg to cap = Ret t \<Longrightarrow> slice_ok t \<and>
     Parent t = (case s of CGoSlice v \<Rightarrow> Some s | GoSlice _ p \<Rightarrow> p)"
  by (induction s rule: slice_ok.induct) (auto simp: Slice3_def split: if_splits)

lemma MakeSlice_ok: "MakeSlice memory n s = Ret (sl, s') \<Longrightarrow> slice_ok sl \<and> fst (snd (Buffer sl)) = nat n \<and> 0 \<le> n"
  by (auto simp: MakeSlice_def newGoSlice_def Let_def MinOffheapSlice_def split: if_splits prod.splits)

section \<open>Strings that share bytes\<close>

text \<open>Memory by address. A slice header is an address, a length and a capacity; a string header an address and a length,
  and the empty string has none. A byte slice of length 0 gives the empty string.\<close>

definition CastString :: "nat \<times> nat \<times> nat \<Rightarrow> (nat \<times> nat) option" where
  "CastString b = (case b of (ptr, n, _) \<Rightarrow> if n = 0 then None else Some (ptr, n))"

definition string_at :: "(nat \<Rightarrow> char) \<Rightarrow> (nat \<times> nat) option \<Rightarrow> bytes" where
  "string_at memory h = (case h of None \<Rightarrow> [] | Some (ptr, n) \<Rightarrow> map memory [ptr..<ptr + n])"

definition bytes_at :: "(nat \<Rightarrow> char) \<Rightarrow> nat \<times> nat \<times> nat \<Rightarrow> bytes" where
  "bytes_at memory b = (case b of (ptr, n, _) \<Rightarrow> map memory [ptr..<ptr + n])"

text \<open>The string has the bytes of the slice, now and after every write: it is no copy, so a write through the slice
  changes a string.\<close>

lemma CastString_shares: "string_at memory (CastString b) = bytes_at memory b"
  by (cases b) (simp add: string_at_def CastString_def bytes_at_def)

lemma CastString_changes:
  assumes "b = (ptr, n, c)" "i < n"
  shows "string_at (memory(ptr + i := x)) (CastString b) = (string_at memory (CastString b))[i := x]"
  using assms unfolding CastString_shares by (auto simp: bytes_at_def list_eq_iff_nth_eq nth_list_update)

end
