(* ===== verification/Session_Wire.thy ===== *)
theory Session_Wire
  imports Log_Proxy Cluster_Wire
begin

text \<open>
  A session against the bytes of its client: what the client sends is a sequence of commands, and the session is
  a fold over them. The reference \<open>serve_all\<close> knows nothing of buffers, decoding and bounds; the session of
  \<open>Log_Proxy\<close> over the decoder of \<open>Credis_Wire\<close> and the buffered reader of \<open>Bufio2\<close> implements it, for every way the bytes
  arrive. The commands may be those the repository's own client of a cluster writes.
\<close>

section \<open>The reference\<close>

text \<open>The commands one after the other, until one closes the session; the end of the stream is a failed decoder.\<close>

fun serve_all :: "('e, 'r, 'w, 'l, 'o) proxy_env \<Rightarrow> resp list \<Rightarrow> ('e, 'r, 'w, 'l, 'o) proxy \<Rightarrow> ('e, 'r, 'w, 'l, 'o) proxy outcome option" where
  "serve_all pe [] px = Some (Ret (refuse pe ''use of failed decoder'' px))"
| "serve_all pe (r # rs) px = bind_run (handle_request pe r px) (\<lambda>px. if px_closed px then Some (Ret px) else serve_all pe rs px)"

lemma serve_all_closes: "serve_all pe rs px = Some (Ret px') \<Longrightarrow> px_closed px'"
  by (induction rs arbitrary: px) (auto simp: bind_run_Ret_iff split: if_splits)

section \<open>The session implements it\<close>

lemma Decode_live_size:
  assumes "wf_resp r" "dec_Err d = None" "rd_live (dec_br d)" "22 \<le> rd_size (dec_br d)" "rd_rest (dec_br d) = wire r @ t"
  shows "\<exists>d'. Decode_bufio d = (Inr r, d') \<and> dec_Err d' = None \<and> rd_live (dec_br d') \<and> rd_size (dec_br d') = rd_size (dec_br d) \<and>
     rd_rest (dec_br d') = t"
proof -
  have "bufio.gives (decodeResp (stream_fuel d) bufio_reader) (dec_br d) r t"
    using assms by (intro bufio.gives_resp) (simp_all add: stream_fuel_def)
  then show ?thesis using assms(2) by (auto simp: bufio.gives_def Decode_bufio_def Decode_def sticky_def)
qed

lemma Decode_at_end:
  assumes "rd_ok (dec_br d)" "rd_rest (dec_br d) = []"
  obtains err d' where "Decode_bufio d = (Inl err, d')"
proof (cases "fst (Decode_bufio d)")
  case (Inr r)
  then have "Decode_bufio d = (Inr r, snd (Decode_bufio d))" by (metis prod.collapse)
  then show ?thesis using Decode_bufio_shorter [OF assms(1)] assms(2) by fastforce
qed (metis that prod.collapse)

lemma serve_all_serves:
  "\<forall>r \<in> set rs. wf_resp r \<Longrightarrow> dec_Err d = None \<Longrightarrow> rd_live (dec_br d) \<Longrightarrow> 22 \<le> rd_size (dec_br d) \<Longrightarrow>
     rd_rest (dec_br d) = concat (map wire rs) \<Longrightarrow> length (concat (map wire rs)) < n \<Longrightarrow> serve n pe d px = serve_all pe rs px"
proof (induction rs arbitrary: d n px)
  case Nil
  then obtain k where n: "n = Suc k" by (cases n) auto
  obtain err d' where "Decode_bufio d = (Inl err, d')"
    using Decode_at_end [of d] Nil.prems(3,5) by (auto simp: rd_live_def)
  then show ?case using n by simp
next
  case (Cons r rs)
  then obtain k where n: "n = Suc k" by (cases n) auto
  obtain d' where d: "Decode_bufio d = (Inr r, d')" "dec_Err d' = None" "rd_live (dec_br d')" "rd_size (dec_br d') = rd_size (dec_br d)"
      "rd_rest (dec_br d') = concat (map wire rs)"
    using Decode_live_size [of r d "concat (map wire rs)"] Cons.prems by auto
  have "0 < length (wire r)" by (cases r) simp
  moreover have "length (wire r) + length (concat (map wire rs)) < Suc k" using Cons.prems(6) n by simp
  ultimately have "length (concat (map wire rs)) < k" by linarith
  then have "serve k pe d' px = serve_all pe rs px" for px using Cons.IH [of d' k px] Cons.prems(1,4) d by simp
  then show ?case using n d(1) by (simp cong: if_cong)
qed

lemma session_serves_all:
  assumes "\<forall>r \<in> set rs. wf_resp r" "reliable client" "source_bytes client = concat (map wire rs)"
  shows "RequestHandleRESP pe client px = serve_all pe rs px"
proof -
  let ?d = "NewDecoderSize client 1024"
  have "rd_live (dec_br ?d)" "22 \<le> rd_size (dec_br ?d)" "rd_rest (dec_br ?d) = concat (map wire rs)"
    using NewReaderSize_ok [of client 1024] assms(2,3) by simp_all
  then show ?thesis using serve_all_serves [OF assms(1), of ?d "stream_fuel ?d" pe px]
    by (simp add: RequestHandleRESP_def Let_def stream_fuel_def del: serve.simps)
qed

section \<open>The repository's own client\<close>

text \<open>A command as the client of a cluster sends it, and the value it is decoded to.\<close>

definition command_value :: "(64 word \<Rightarrow> bytes) \<Rightarrow> bytes \<times> arg list \<Rightarrow> resp" where
  "command_value ff c = NewArray (Some (map (\<lambda>a. NewBulkBytes (Some a)) (fst c # map (arg_bytes ff) (snd c))))"

definition client_command :: "(64 word \<Rightarrow> bytes) \<Rightarrow> bytes \<times> arg list \<Rightarrow> bool" where
  "client_command ff c \<longleftrightarrow> sendable ff (fst c) (snd c) \<and> int (length (snd c)) < MaxArrayLen \<and>
     (\<forall>a \<in> set (fst c # map (arg_bytes ff) (snd c)). int (length a) \<le> MaxBulkBytesLen)"

text \<open>\<open>writeCommand\<close> for each.\<close>

fun write_commands :: "(64 word \<Rightarrow> bytes) \<Rightarrow> (bytes \<times> arg list) list \<Rightarrow> bytes \<times> bwriter \<Rightarrow> go_error option \<times> bytes \<times> bwriter" where
  "write_commands ff [] s = (None, s)"
| "write_commands ff (c # cs) s = (case writeCommand ff bufio_writer (fst c) (snd c) s of
     (Some e, s) \<Rightarrow> (Some e, s)
   | (None, s) \<Rightarrow> write_commands ff cs s)"

lemma command_value_wire: "wire (command_value ff c) = request ff (fst c) (snd c)"
  by (simp add: command_value_def request_def wire_multi_def)

lemma command_value_wf: "client_command ff c \<Longrightarrow> wf_resp (command_value ff c)"
  by (auto simp: command_value_def client_command_def NewArray_def NewBulkBytes_def)

lemma write_commands_sent:
  "list_all (client_command ff) cs \<Longrightarrow> wr_live w \<Longrightarrow> length sc = 32 \<Longrightarrow>
     \<exists>sc' w'. write_commands ff cs (sc, w) = (None, sc', w') \<and> wr_live w' \<and>
       wr_sent w' = wr_sent w @ concat (map (\<lambda>c. wire (command_value ff c)) cs)"
proof (induction cs arbitrary: sc w)
  case (Cons c cs)
  have s: "sendable ff (fst c) (snd c)" using Cons.prems(1) by (simp add: client_command_def)
  obtain sc1 w1 where 1: "writeCommand ff bufio_writer (fst c) (snd c) (sc, w) = (None, sc1, w1)" "wr_live w1" "length sc1 = 32"
    using bufio_sticky.emits_writeCommand [OF s] Cons.prems(2,3) unfolding bufio_sticky.works_def by blast
  then have "wr_sent w1 = wr_sent w @ wire (command_value ff c)"
    using bufio_sticky.emits_writeCommand [OF s] Cons.prems(2,3) wr_live_def command_value_wire
    unfolding bufio_sticky.emits_def by metis
  then show ?case using Cons.IH [OF _ 1(2,3)] Cons.prems(1) 1(1) by auto
qed simp

end
