(* ===== verification/Go_Helpers.thy ===== *)
theory Go_Helpers
  imports Prelude Go_Errors
begin

text \<open>
  Helpers around the program: a routine that survives its own panic (\<open>utils/func.go\<close>), the assertions
  (\<open>utils/resparse/assert\<close>) and the client the rate limiter is given (\<open>sc/ratelimit\<close>), over the calls of the redis library.
\<close>

section \<open>GoWithRecover\<close>

text \<open>A function of the routine acts on a state \<open>'s\<close> and panics with a value or not; \<open>recovered\<close> is the line written
  for a panic of the handler, \<open>recovered_again\<close> that for a panic of the function called for it.\<close>

datatype panic_line = recovered string | recovered_again string

definition GoWithRecover :: "('s \<Rightarrow> string option \<times> 's) \<Rightarrow> (string \<Rightarrow> 's \<Rightarrow> string option \<times> 's) option \<Rightarrow> 's \<Rightarrow> panic_line list \<times> 's" where
  "GoWithRecover handler recoverHandler s = (case handler s of
     (None, s) \<Rightarrow> ([], s)
   | (Some r, s) \<Rightarrow> (case recoverHandler of
       None \<Rightarrow> ([recovered r], s)
     | Some h \<Rightarrow> (case h r s of
         (None, s) \<Rightarrow> ([recovered r], s)
       | (Some q, s) \<Rightarrow> ([recovered r, recovered_again q], s))))"

text \<open>Whatever panics, the program goes on in the state the panic left, with a line for each panic.\<close>

lemma GoWithRecover_survives:
  "GoWithRecover handler recoverHandler s = (lines, s') \<Longrightarrow>
     (lines = [] \<longleftrightarrow> fst (handler s) = None) \<and> length lines \<le> 2 \<and>
     (case recoverHandler of None \<Rightarrow> s' = snd (handler s)
      | Some h \<Rightarrow> s' = (case handler s of (None, s1) \<Rightarrow> s1 | (Some r, s1) \<Rightarrow> snd (h r s1)))"
  by (auto simp: GoWithRecover_def split: prod.splits option.splits)

section \<open>Assertions\<close>

definition Must :: "bool \<Rightarrow> unit outcome" where
  "Must b = (if b then Ret () else Panic ''assertion failed'')"

definition MustNoError :: "go_error option \<Rightarrow> unit outcome" where
  "MustNoError err = (case err of None \<Rightarrow> Ret () | Some _ \<Rightarrow> Panic ''error happens, assertion failed'')"

lemma Must_Ret [simp]: "Must b = Ret () \<longleftrightarrow> b" "MustNoError err = Ret () \<longleftrightarrow> err = None"
  by (auto simp: Must_def MustNoError_def split: option.split)

section \<open>The client of the limiter\<close>

record ('s, 'a, 'v) redis_client =
  rcl_Del :: "bytes \<Rightarrow> 's \<Rightarrow> (int \<times> go_error option) \<times> 's"
  rcl_EvalSha :: "bytes \<Rightarrow> bytes list \<Rightarrow> 'a list \<Rightarrow> 's \<Rightarrow> ('v option \<times> go_error option) \<times> 's"
  rcl_ScriptLoad :: "bytes \<Rightarrow> 's \<Rightarrow> (bytes \<times> go_error option) \<times> 's"

definition RateDel :: "('s, 'a, 'v) redis_client \<Rightarrow> bytes \<Rightarrow> 's \<Rightarrow> go_error option \<times> 's" where
  "RateDel rc k s = (case rcl_Del rc k s of ((_, err), s) \<Rightarrow> (err, s))"

definition RateEvalSha :: "('s, 'a, 'v) redis_client \<Rightarrow> bytes \<Rightarrow> bytes list \<Rightarrow> 'a list \<Rightarrow> 's \<Rightarrow> ('v option \<times> go_error option) \<times> 's" where
  "RateEvalSha rc sha1 ks args s = rcl_EvalSha rc sha1 ks args s"

definition RateScriptLoad :: "('s, 'a, 'v) redis_client \<Rightarrow> bytes \<Rightarrow> 's \<Rightarrow> (bytes \<times> go_error option) \<times> 's" where
  "RateScriptLoad rc script s = (case rcl_ScriptLoad rc script s of ((res, err), s) \<Rightarrow>
     ((if err = None then res else [], err), s))"

text \<open>A hash comes back only with a script that was loaded.\<close>

lemma RateScriptLoad_hash:
  "RateScriptLoad rc script s = ((sha1, err), s') \<Longrightarrow> sha1 \<noteq> [] \<Longrightarrow> err = None \<and> rcl_ScriptLoad rc script s = ((sha1, None), s')"
  by (auto simp: RateScriptLoad_def split: prod.splits if_splits)

end
