(* ===== verification/Spec2Isabelle.thy ===== *)
theory Spec2Isabelle
  imports Credis_Wire Credis_Conn Cluster_Hash Cluster_Reply Cluster_Pool Cluster_Wire Cluster_Run Sharded_Cache Red_String Log_Proxy
    Log_Rates Logger Traffic_Proxy Program_Main Certificates Cache_Files Sync_Memory Trace_Stack Session_Wire Go_Helpers
begin

text \<open>
  A verification development for \<open>ipfs-nosql-frame\<close>, a proxy written in Go that stands before a redis cluster: it
  accepts log records over the redis protocol and pushes them into the cluster, and it routes HTTP traffic between services.

  \<^bold>\<open>Parts of the program and their theories.\<close> Paths are below \<open>src/\<close>, in the order of their dependence.

  \<^item> \<open>Prelude\<close>, \<open>Go_Std\<close>, \<open>Go_Errors\<close>: bytes, 64-bit arithmetic, calls that may panic, \<open>strconv\<close>, and error values
    (\<open>utils/resparse/errors\<close>). \<open>Trace_Stack\<close> has the call stacks of \<open>utils/resparse/trace\<close> and the errors that carry
    them, of which those of \<open>Go_Errors\<close> are the ones without the stack; \<open>Go_Helpers\<close> has the smaller helpers
    (\<open>utils/func.go\<close>, \<open>utils/resparse/assert\<close>, \<open>sc/ratelimit\<close>).
  \<^item> \<open>Stream_Spec\<close>: the interfaces of a reader and a writer of a byte stream, as records of operations with the locales
    \<open>byte_reader\<close>, \<open>byte_writer\<close> and \<open>sticky_writer\<close> for their laws. \<open>Bufio2\<close> (\<open>utils/resparse/bufio2\<close>) provides
    both over any source and sink that obey the rules of \<open>io\<close>; its interpretations are there.
  \<^item> \<open>Credis_Resp\<close>, \<open>Credis_Decoder\<close>, \<open>Credis_Encoder\<close>, \<open>Credis_Wire\<close>, \<open>Credis_Conn\<close> (\<open>utils/resparse/credis\<close>): the
    values of the protocol, decoding and encoding over the interfaces, both on \<open>bufio2\<close>, and the deadlines of a connection.
  \<^item> \<open>Buf_Reader\<close>, \<open>Fast_Parser\<close>, \<open>Handle_Writer\<close> (\<open>utils/BufReader\<close>, \<open>utils/respecho/RedSHandle\<close>,
    \<open>utils/respecho/RedisFastParser\<close>): the growing buffer, the parsers of client commands with the places their arguments
    share in it, and the writers. \<open>Red_Resp\<close> and \<open>Red_String\<close> (\<open>utils/respecho/RedResp\<close>) are the
    other codec.
  \<^item> The cluster client (\<open>utils/rediscluster\<close>): \<open>Cluster_Hash\<close> (\<open>crc16.go\<close>, hash tags, slots), \<open>Cluster_Reply\<close>
    (\<open>reply.go\<close>), \<open>Cluster_Node\<close> and \<open>Cluster_Pool\<close> (\<open>node.go\<close>: coder, connections, the pool), \<open>Cluster_Wire\<close> (this
    coder against that of \<open>credis\<close>), \<open>Cluster_Core\<close>, \<open>Cluster_Update\<close>, \<open>Cluster_Do\<close> (\<open>cluster.go\<close>: lookups, updates
    from CLUSTER SLOTS, commands), \<open>Cluster_Multi\<close> (\<open>multi.go\<close>), \<open>Cluster_Batch\<close> (\<open>batch.go\<close>), and \<open>Cluster_Run\<close>, the
    state machine of a client, with chains of redirections.
  \<^item> The cache (\<open>utils/memorycacher\<close>): \<open>Timed_Store\<close> states what a store with expiration times promises; \<open>Memory_Cache\<close>
    (\<open>cache.go\<close>) and \<open>Sharded_Cache\<close> (\<open>sharded.go\<close>) interpret it; \<open>Cache_Files\<close> saves and loads files.
  \<^item> The log proxy (\<open>sc\<close>): \<open>Log_Filter\<close> (\<open>filter\<close>: the whitelist), \<open>Log_Metrics\<close> (\<open>event\<close>, \<open>alter\<close>, \<open>metrics\<close>), \<open>Log_Rates\<close>
    (the reporter of rates in \<open>filter\<close>), and \<open>Log_Proxy\<close> (\<open>resper.go\<close>), the session of a client, which is built on
    \<open>Credis_Decoder\<close>, \<open>Handle_Writer\<close>, \<open>Log_Filter\<close>, \<open>Log_Metrics\<close> and the cluster client. \<open>Session_Wire\<close> states
    the session as a fold over commands, without buffers and bounds, and shows that it is one.
  \<^item> The HTTP proxy: \<open>Networker\<close> (\<open>utils/networker\<close>), \<open>Traffic_Route\<close> and \<open>Traffic_Proxy\<close> (\<open>sc/traffic_*.go\<close>: routing
    over the cache and the cluster, and the handlers).
  \<^item> The program: \<open>Bare_Server\<close> (\<open>utils/bareneter\<close>), \<open>Config\<close> (\<open>sc/confer\<close>, \<open>utils/filer\<close>), \<open>Service_Car\<close> and
    \<open>Certificates\<close> (\<open>sc/sc.go\<close>),
    \<open>Log_Hook\<close> and \<open>Logger\<close> (\<open>utils/logrusrchook\<close>, \<open>utils/loger\<close>), \<open>Program_Main\<close> (\<open>cmd/main.go\<close>).
  \<^item> \<open>Sync_Memory\<close>: atomic values, futures, counted memory and the string that shares the bytes of a slice
    (\<open>utils/resparse/sync2\<close>, \<open>utils/resparse/unsafe2\<close>).

  \<^bold>\<open>How the code is read.\<close> A struct is a record, a tagged value a datatype, a byte a character, a string or a byte slice a
  list; what may be nil is an option. \<open>int\<close> and \<open>int64\<close> are integers, cut back with \<open>int64\<close> where the code can overflow;
  typed numbers of the cache, hashes and atomic counters are words, so that the counters wrap around where those of the code do. An error is a value of \<open>go_error\<close>, a result with an error a
  sum or a pair as in the code, a panic the constructor \<open>Panic\<close> of \<open>outcome\<close>. A node is a number in a heap of nodes, since the
  code compares and shares pointers; an argument of a parsed command is an array with two places in it. A Go map is an
  association list, and the order in which a loop visits one is given by the environment.

  \<^bold>\<open>The environment.\<close> Code that is not in the repository is a parameter, and what is relied on is a named law: \<open>net_laws\<close>
  (dialling, sockets, the clock), \<open>iter_law\<close> and \<open>perm_law\<close> (the order of a map and of routines), \<open>visit_law\<close> (a map a
  handler walks), \<open>json_law\<close> and \<open>batch_law\<close> (encoders, the influx client), \<open>header_law\<close> and \<open>uri_law\<close> (\<open>fasthttp\<close>:
  the scheme and the host of an address are read back in lower case, the path as the library normalises it, which stays a
  function; headers other than \<open>Host\<close> are a map), \<open>file_law\<close> (files and \<open>gob\<close>). The records \<open>net\<close>, \<open>world\<close>, \<open>filter_env\<close>, \<open>proxy_env\<close>, \<open>conf_env\<close>, \<open>net_env\<close>,
  \<open>os_env\<close>, \<open>sc_env\<close> and \<open>machine\<close> hold these parameters. Each law is shown to hold of a concrete environment where a
  property that needs it is used on an input.

  \<^bold>\<open>Loops.\<close> Recursion on a stream has fuel: decoding a value (\<open>decodeResp\<close>) and reading a reply (\<open>readReply\<close>, with what the
  connection holds plus one) take at least a byte per call, and lemmas show that this much fuel is enough, so the functions the
  code exports have no fuel; the session (\<open>serve\<close>) takes at least a byte per command. Loops that read and may wait for
  ever are total because their source is finite, with a measure (\<open>read_loop\<close>, \<open>number_loop\<close>, \<open>telnet_loop\<close>). What may not end
  is \<open>partial_function (option)\<close>: redirections (\<open>move_loop\<close>), the retries for certificates (\<open>tls_loop\<close>), the server's loop
  around a handler (\<open>handle\<close>); \<open>None\<close> means that it does not return, and properties say when it does.

  \<^bold>\<open>What is shown.\<close>
  \<^item> Protocol: decoding undoes encoding for every value, over every way the bytes may arrive; decoded values are well
    formed within the bounds of the code; the client's coder and the server's agree; the fast parsers return exactly the
    commands of the stream and the writers' output is read back. Here, over all of it: a session on the bytes a client of
    this repository wrote is the fold of the handler over its commands. The parser of clients refuses a number
    cut by the end of a piece (\<open>cut_number_refused\<close>), so its properties are about what arrives in one piece.
  \<^item> Cluster: every key goes to the slot of the redis specification; an update makes the table the one the server announced and
    every lookup follows it; connections are never shared or lost by the pool; a client that starts from a configuration stays
    well formed under any run of commands and updates, and routes keys by the last table it took, while that is a valid one;
    batches and multi-key commands keep the order of replies, and a node's part of a batch is flushed once.
  \<^item> Cache: any sequence of operations behaves as a map with deadlines and a bound: a value set in a full cache is dropped, and
    the call panics when the cache has no background routine, as the shards of a sharded cache never have; so shards behave as
    the map until one of them is full. The size is exceeded by at most the number of concurrent writers; a saved file reads back.
  \<^item> Proxy: an acknowledged log has been pushed to the cluster with its expiry, a refused one has left nothing, each command is
    answered with one value of the protocol, but for the argument of \<open>PING\<close>, which is echoed as it is (\<open>ping_breaks_stream\<close>);
    sessions end and close their connection; the filter's rules have their limiters; HTTP requests
    go out only over relations that the cluster grants, without the headers of a hop.
  \<^item> Program: a configuration that is accepted is within its bounds, a program that starts is in order, its server hands
    every connection to a routine or closes it, and the program ends on a signal with its certificate revoked, or crashes when
    its outgoing server has returned and finds an error, with the certificate as it was.

  \<^bold>\<open>Not modelled.\<close> The lines written to the terminal and to the log at each step; the structure of the influx client
  (\<open>utils/influxdb\<close>), two fields of a library; \<open>malloc\<close> and \<open>free\<close> (\<open>utils/resparse/unsafe2\<close>), outside Go; the
  certificate library. \<open>RedisFastParser/reader.go\<close> is the code of \<open>BufReader\<close> again, and is not modelled a second time. The routines of
  one batch or one multi-key command run one after the other, in any order; commands of a cluster do not interleave, while
  the pool, the cache, the server and counted memory are modelled with interleaving steps. \<open>ToUpper\<close>, \<open>ToLower\<close> and
  \<open>TrimSpace\<close> know ASCII only. Floating point numbers are parameters.
\<close>

section \<open>The proxy as a server\<close>

lemma session_closes_handle: "handle (RequestHandleRESP pe client) px_closed px = RequestHandleRESP pe client px"
proof (cases "RequestHandleRESP pe client px")
  case (Some r)
  then show ?thesis by (cases r) (simp_all add: handle.simps session_closes)
qed (simp add: handle.simps)

text \<open>C6. The routine of a connection, on the bytes a client of this repository has written, in whatever pieces they
  arrive: it handles the commands one after the other until one closes the session, and at the end of the stream it closes it.\<close>

theorem server_runs_commands:
  assumes "list_all (client_command ff) cmds" "wr_live w" "length sc = 32" "write_commands ff cmds (sc, w) = (err, sc', w')"
    "reliable client" "wr_sent w' = wr_sent w @ source_bytes client"
  shows "err = None \<and> handle (RequestHandleRESP pe client) px_closed px = serve_all pe (map (command_value ff) cmds) px"
proof -
  have w: "err = None" "wr_sent w' = wr_sent w @ concat (map (\<lambda>c. wire (command_value ff c)) cmds)"
    using write_commands_sent [OF assms(1-3)] assms(4) by auto
  have "source_bytes client = concat (map wire (map (command_value ff) cmds))"
    using w(2) assms(6) by (simp add: comp_def)
  moreover have "\<forall>r \<in> set (map (command_value ff) cmds). wf_resp r"
    using assms(1) command_value_wf by (auto simp: list_all_iff)
  ultimately have "RequestHandleRESP pe client px = serve_all pe (map (command_value ff) cmds) px"
    using assms(5) by (intro session_serves_all)
  then show ?thesis using w(1) by (simp add: session_closes_handle)
qed

lemma server_runs_commands_witness:
  "\<exists>client px'. reliable client \<and> handle (RequestHandleRESP sample_proxy_env client) px_closed (sample_proxy open_filter) = Some (Ret px') \<and> px_closed px'"
proof -
  let ?cs = "[(''PING'', [])] :: (bytes \<times> arg list) list" and ?ff = "\<lambda>_. ''0''"
  have c: "list_all (client_command ?ff) ?cs"
    by (simp add: client_command_def sendable_def small_def MaxArrayLen_def MaxBulkBytesLen_def)
  have w: "wr_live (NewWriter ([], []))" "length (zeros 32) = 32" "wr_sent (NewWriter ([], [])) = []"
    using scripted_streams(3,4) by (simp_all add: zeros_def)
  obtain sc' w' where s: "write_commands ?ff ?cs (zeros 32, NewWriter ([], [])) = (None, sc', w')"
    using write_commands_sent [OF c w(1,2)] by blast
  let ?client = "bytes_NewReader (wr_sent w')"
  have "handle (RequestHandleRESP sample_proxy_env ?client) px_closed (sample_proxy open_filter)
      = serve_all sample_proxy_env (map (command_value ?ff) ?cs) (sample_proxy open_filter)"
    using server_runs_commands [OF c w(1,2) s, of ?client] w(3) by simp
  moreover have "command_value ?ff (''PING'', []) = ping" by (simp add: command_value_def)
  moreover obtain out where "handle_request sample_proxy_env ping (sample_proxy open_filter) = Some (Ret ((sample_proxy open_filter)\<lparr>px_out := out\<rparr>))"
    using sample_ping by blast
  ultimately show ?thesis
    by (intro exI [of _ ?client]) (auto simp: bind_run_def sample_proxy_def)
qed

end
